(* ===== verification/Srch2_Prelude.thy ===== *)
theory Srch2_Prelude
  imports Main "HOL-Library.Word" "HOL-Library.Multiset"
begin

unbundle bit_operations_syntax

text \<open>
  Shared vocabulary of the development: the machine-integer types of the C++ code, checked
  memory reads, the collections of simplification rules the component theories extend, and the
  generic facts on lists and words that several components use.
\<close>

section \<open>Machine integers and records ids\<close>

type_synonym u8 = "8 word"
type_synonym u16 = "16 word"
type_synonym u32 = "32 word"
type_synonym u64 = "64 word"

named_theorems srch2_bits "bit-level facts on the masks the code uses"
named_theorems srch2_mem "facts on checked reads and writes"

section \<open>Checked reads\<close>

text \<open>
  A C++ read through a pointer is undefined outside the allocated block. \<open>nth_opt\<close> is the
  checked read: \<open>None\<close> stands for the undefined behaviour.
\<close>

definition nth_opt :: "'a list \<Rightarrow> nat \<Rightarrow> 'a option" where
  "nth_opt xs i = (if i < length xs then Some (xs ! i) else None)"

lemma nth_opt_Nil [simp, srch2_mem]: "nth_opt [] i = None"
  by (simp add: nth_opt_def)

lemma nth_opt_Cons_0 [simp, srch2_mem]: "nth_opt (x # xs) 0 = Some x"
  by (simp add: nth_opt_def)

lemma nth_opt_Cons_Suc [simp, srch2_mem]: "nth_opt (x # xs) (Suc i) = nth_opt xs i"
  by (simp add: nth_opt_def)

lemma nth_opt_Cons_numeral [simp, srch2_mem]:
  "nth_opt (x # xs) (numeral k) = nth_opt xs (pred_numeral k)"
  by (simp add: numeral_eq_Suc)

lemma nth_opt_append [srch2_mem]:
  "nth_opt (xs @ ys) i = (if i < length xs then Some (xs ! i) else nth_opt ys (i - length xs))"
  by (auto simp: nth_opt_def nth_append)

lemma nth_opt_Some_iff [srch2_mem]: "nth_opt xs i = Some x \<longleftrightarrow> i < length xs \<and> xs ! i = x"
  by (auto simp: nth_opt_def)

lemma nth_opt_None_iff [srch2_mem]: "nth_opt xs i = None \<longleftrightarrow> length xs \<le> i"
  by (auto simp: nth_opt_def)

lemma last_take: "0 < n \<Longrightarrow> n \<le> length xs \<Longrightarrow> last (take n xs) = xs ! (n - 1)"
  by (subst last_conv_nth) auto

lemma all_nth_update:
  assumes "j < length xs"
  shows "(\<forall>k < length xs. Q (xs[j := y] ! k) k) \<longleftrightarrow> Q y j \<and> (\<forall>k < length xs. k \<noteq> j \<longrightarrow> Q (xs ! k) k)"
  using assms by (metis nth_list_update_eq nth_list_update_neq)

lemma filter_sorted_list_of_set:
  fixes A :: "'a::linorder set"
  assumes "finite A"
  shows "filter P (sorted_list_of_set A) = sorted_list_of_set {x \<in> A. P x}"
proof -
  have "set (filter P (sorted_list_of_set A)) = {x \<in> A. P x}" using assms by auto
  moreover have "sorted (filter P (sorted_list_of_set A))"
    by (rule sorted_filter [where f = "\<lambda>x. x", simplified]) simp
  ultimately show ?thesis
    by (metis distinct_filter distinct_sorted_list_of_set sorted_list_of_set.idem_if_sorted_distinct)
qed

lemma sorted_list_of_set_min:
  fixes m :: "'a::linorder"
  assumes "finite A" "m \<in> A" "\<forall>x \<in> A. m \<le> x"
  shows "sorted_list_of_set A = m # sorted_list_of_set (A - {m})"
proof -
  have "Min A = m" using assms by (intro Min_eqI) auto
  then show ?thesis using sorted_list_of_set_nonempty [of A] assms(1,2) by auto
qed

section \<open>Bits of the constants\<close>

text \<open>
  The library reduces a bit of a word numeral to the same bit of the integer numeral
  (\<open>bit_simps\<close>); these rules settle the masks of the code.
\<close>

lemma bit_0x7F [srch2_bits]: "bit (0x7F :: int) n \<longleftrightarrow> n < 7"
proof -
  have "(0x7F :: int) = mask 7" by (simp add: mask_eq_exp_minus_1)
  then show ?thesis by (simp only: bit_mask_iff) auto
qed

lemma bit_0x80 [srch2_bits]: "bit (0x80 :: int) n \<longleftrightarrow> n = 7"
proof -
  have "(0x80 :: int) = push_bit 7 1" by (simp add: push_bit_eq_mult)
  then show ?thesis by (simp only: bit_push_bit_iff) (auto simp: bit_1_iff)
qed

lemma word_eq_0_iff_bits: "(w :: 'a::len word) = 0 \<longleftrightarrow> (\<forall>n < LENGTH('a). \<not> bit w n)"
  by (auto simp: bit_eq_iff intro: bit_word_eqI)

end
