(* ===== verification/Uleb128.thy ===== *)
theory Uleb128
  imports Srch2_Prelude
begin

unbundle bit_operations_syntax

text \<open>
  Variable-length byte coding of position lists, \<^verbatim>\<open>src/src/core/util/ULEB128.cpp\<close>.
  The forward index stores the positions of a keyword in an attribute as a delta-encoded
  sequence of little-endian base-128 groups. The theory holds the four static functions of the
  class and the proof that decoding inverts encoding on every vector of 32-bit integers.
  Buffers are byte lists; an out-of-bounds read is \<open>None\<close>; a NULL out-parameter is \<open>None\<close>.
\<close>

section \<open>One integer\<close>

text \<open>
  \<open>uInt32ToVarLengthBytes position varLenByteBuffer length\<close>: the return value, the buffer and
  the length after the call. The unrolled writes of the source are kept. The final
  \<^verbatim>\<open>if (position>>=7 == 0) return -1; else return true;\<close> yields \<open>true\<close> on both branches
  (\<open>-1\<close> converts to \<open>true\<close> in a function that returns \<open>bool\<close>).
\<close>

definition uInt32ToVarLengthBytes ::
  "u32 \<Rightarrow> u8 list option \<Rightarrow> nat option \<Rightarrow> bool \<times> u8 list option \<times> nat option" where
  "uInt32ToVarLengthBytes position varLenByteBuffer len =
    (case (varLenByteBuffer, len) of
      (Some b, Some _) \<Rightarrow>
        (let b = b[0 := ucast (position AND 0x7F)];
             position = drop_bit 7 position
         in if position = 0 then (True, Some b, Some 1)
        else let b = b[0 := b ! 0 OR 0x80];
             b = b[1 := ucast (position AND 0x7F)];
             position = drop_bit 7 position
         in if position = 0 then (True, Some b, Some 2)
        else let b = b[1 := b ! 1 OR 0x80];
             b = b[2 := ucast (position AND 0x7F)];
             position = drop_bit 7 position
         in if position = 0 then (True, Some b, Some 3)
        else let b = b[2 := b ! 2 OR 0x80];
             b = b[3 := ucast (position AND 0x7F)];
             position = drop_bit 7 position
         in if position = 0 then (True, Some b, Some 4)
        else let b = b[3 := b ! 3 OR 0x80];
             b = b[4 := ucast (position AND 0x7F)]
         in (True, Some b, Some 5))
    | _ \<Rightarrow> (False, varLenByteBuffer, len))"

text \<open>
  \<open>varLengthBytesToUInt32 buffer byteRead\<close>: \<open>None\<close> when the code reads past the buffer, else
  the return value, the decoded value and \<open>*byteRead\<close> after the call. On the failing fifth
  byte the source returns \<open>false\<close> and leaves \<open>*byteRead\<close> untouched.
\<close>

definition septet :: "u8 \<Rightarrow> nat \<Rightarrow> u32" where
  "septet b k = push_bit k (ucast (b AND 0x7F))"

definition varLengthBytesToUInt32 :: "u8 list \<Rightarrow> nat \<Rightarrow> (bool \<times> u32 \<times> nat) option" where
  "varLengthBytesToUInt32 buf byteRead =
    (case nth_opt buf 0 of None \<Rightarrow> None | Some b0 \<Rightarrow>
      let val = septet b0 0 in
      if b0 AND 0x80 = 0 then Some (True, val, 1) else
    (case nth_opt buf 1 of None \<Rightarrow> None | Some b1 \<Rightarrow>
      let val = val OR septet b1 7 in
      if b1 AND 0x80 = 0 then Some (True, val, 2) else
    (case nth_opt buf 2 of None \<Rightarrow> None | Some b2 \<Rightarrow>
      let val = val OR septet b2 14 in
      if b2 AND 0x80 = 0 then Some (True, val, 3) else
    (case nth_opt buf 3 of None \<Rightarrow> None | Some b3 \<Rightarrow>
      let val = val OR septet b3 21 in
      if b3 AND 0x80 = 0 then Some (True, val, 4) else
    (case nth_opt buf 4 of None \<Rightarrow> None | Some b4 \<Rightarrow>
      let val = val OR septet b4 28 in
      if b4 AND 0x80 \<noteq> 0 then Some (False, val, byteRead) else Some (True, val, 5))))))"

section \<open>Vectors\<close>

text \<open>
  The delta loop of \<open>uInt32VectorToVarLenArray\<close>: \<open>buf\<close> is the local five-byte array, which
  keeps its bytes from one iteration to the next; \<open>previous\<close> is \<open>positionList[i - 1]\<close>.
\<close>

fun encodeDeltas :: "u32 \<Rightarrow> u32 list \<Rightarrow> u8 list \<Rightarrow> u8 list \<Rightarrow> u8 list" where
  "encodeDeltas previous [] buf tempBuffer = tempBuffer"
| "encodeDeltas previous (p # ps) buf tempBuffer =
    (case uInt32ToVarLengthBytes (p - previous) (Some buf) (Some 0) of
      (_, Some buf', Some len) \<Rightarrow> encodeDeltas p ps buf' (tempBuffer @ take len buf')
    | _ \<Rightarrow> tempBuffer)"

text \<open>
  The result is the returned size and the new contents of \<open>*buffer\<close> (\<open>None\<close>: not assigned).
  \<open>buf\<close> is the uninitialised content of the local array.
\<close>

definition uInt32VectorToVarLenArray :: "u8 list \<Rightarrow> u32 list \<Rightarrow> nat \<times> u8 list option" where
  "uInt32VectorToVarLenArray buf positionList =
    (case positionList of
      [] \<Rightarrow> (0, None)
    | p # ps \<Rightarrow>
       (case uInt32ToVarLengthBytes p (Some buf) (Some 0) of
         (_, Some buf', Some len) \<Rightarrow>
           (let vlb = encodeDeltas p ps buf' (take len buf') in (length vlb, Some vlb))
       | _ \<Rightarrow> (0, None)))"

text \<open>
  The loop of \<open>varLenByteArrayToInt32Vector\<close>. It ignores the return value of the decoder and
  advances by the last \<open>byteRead\<close>; \<open>fuel\<close> bounds the iterations and \<open>None\<close> means that the
  fuel ran out or that a read left the buffer.
\<close>

fun decodeDeltas :: "nat \<Rightarrow> u8 list \<Rightarrow> nat \<Rightarrow> nat \<Rightarrow> u32 list \<Rightarrow> nat \<Rightarrow> u32 list option" where
  "decodeDeltas fuel buffer sz offset positionList byteRead =
    (if offset < sz then
       (case fuel of
         0 \<Rightarrow> None
       | Suc fuel' \<Rightarrow>
          (case varLengthBytesToUInt32 (drop offset buffer) byteRead of
            None \<Rightarrow> None
          | Some (_, delta, byteRead') \<Rightarrow>
             decodeDeltas fuel' buffer sz (offset + byteRead')
               (positionList @ [last positionList + delta]) byteRead'))
     else Some positionList)"

declare decodeDeltas.simps [simp del]

definition varLenByteArrayToInt32Vector ::
  "nat \<Rightarrow> u8 list \<Rightarrow> nat \<Rightarrow> u32 list \<Rightarrow> u32 list option" where
  "varLenByteArrayToInt32Vector fuel buffer sz positionList =
    (if sz = 0 then Some positionList
     else case nth_opt buffer (sz - 1) of
       None \<Rightarrow> None
     | Some lastByte \<Rightarrow>
        if lastByte AND 0x80 \<noteq> 0 then Some positionList
        else case varLengthBytesToUInt32 buffer 0 of
          None \<Rightarrow> None
        | Some (_, firstValue, byteRead) \<Rightarrow>
           decodeDeltas fuel buffer sz byteRead (positionList @ [firstValue]) byteRead)"

section \<open>One integer: decoding inverts encoding\<close>

lemma bit_septet [srch2_bits]:
  "bit (septet b k) n \<longleftrightarrow> k \<le> n \<and> n < 32 \<and> n - k < 7 \<and> bit b (n - k)"
  unfolding septet_def
  by (auto simp: bit_simps srch2_bits)

lemma continuation_flag [srch2_bits]: "b AND 0x80 = (0 :: u8) \<longleftrightarrow> \<not> bit b 7"
proof -
  have "b AND 0x80 = (0 :: u8) \<longleftrightarrow> (\<forall>n < 8. bit b n \<longrightarrow> n \<noteq> 7)"
    by (simp add: word_eq_0_iff_bits bit_simps srch2_bits)
  moreover have "(\<forall>n < (8::nat). bit b n \<longrightarrow> n \<noteq> 7) \<longleftrightarrow> \<not> bit b 7"
    by (auto dest: spec [of _ 7])
  ultimately show ?thesis by simp
qed

lemma septet_byte [srch2_bits]:
  "septet (ucast (x AND 0x7F)) k = push_bit k (x AND 0x7F)"
  "septet (ucast (x AND 0x7F) OR 0x80) k = push_bit k (x AND 0x7F)"
  by (rule bit_word_eqI, auto simp: bit_simps srch2_bits)+

lemma flag_byte [srch2_bits]:
  "\<not> bit (ucast (x AND (0x7F :: u32)) :: u8) 7"
  "bit (ucast (x AND (0x7F :: u32)) OR (0x80 :: u8)) 7"
  by (auto simp: bit_simps srch2_bits)

lemma take_bit_septet:
  "take_bit k v OR push_bit k (drop_bit k v AND 0x7F) = take_bit (k + 7) (v :: u32)"
  by (rule bit_word_eqI) (auto simp: bit_simps srch2_bits)

lemma take_bit_all: "drop_bit k (v :: u32) = 0 \<Longrightarrow> take_bit k v = v"
  by (metis bits_ident add_0 push_bit_of_0)

lemma septets_join:
  fixes v :: u32
  defines "g \<equiv> \<lambda>k. ucast (drop_bit k v AND 0x7F) :: u8"
  shows "drop_bit 7 v = 0 \<Longrightarrow> septet (g 0) 0 = v"
    and "drop_bit 14 v = 0 \<Longrightarrow> septet (g 0 OR 0x80) 0 OR septet (g 7) 7 = v"
    and "drop_bit 21 v = 0 \<Longrightarrow>
      (septet (g 0 OR 0x80) 0 OR septet (g 7 OR 0x80) 7) OR septet (g 14) 14 = v"
    and "drop_bit 28 v = 0 \<Longrightarrow>
      ((septet (g 0 OR 0x80) 0 OR septet (g 7 OR 0x80) 7) OR septet (g 14 OR 0x80) 14)
        OR septet (g 21) 21 = v"
    and "(((septet (g 0 OR 0x80) 0 OR septet (g 7 OR 0x80) 7) OR septet (g 14 OR 0x80) 14)
        OR septet (g 21 OR 0x80) 21) OR septet (g 28) 28 = v"
proof -
  have s: "v AND 0x7F = take_bit 7 v"
    "take_bit 7 v OR push_bit 7 (drop_bit 7 v AND 0x7F) = take_bit 14 v"
    "take_bit 14 v OR push_bit 14 (drop_bit 14 v AND 0x7F) = take_bit 21 v"
    "take_bit 21 v OR push_bit 21 (drop_bit 21 v AND 0x7F) = take_bit 28 v"
    "take_bit 28 v OR push_bit 28 (drop_bit 28 v AND 0x7F) = v"
    using take_bit_septet [of 0 v] take_bit_septet [of 7 v] take_bit_septet [of 14 v]
      take_bit_septet [of 21 v] take_bit_septet [of 28 v]
    by (simp_all add: take_bit_word_eq_self)
  show "drop_bit 7 v = 0 \<Longrightarrow> septet (g 0) 0 = v"
    and "drop_bit 14 v = 0 \<Longrightarrow> septet (g 0 OR 0x80) 0 OR septet (g 7) 7 = v"
    and "drop_bit 21 v = 0 \<Longrightarrow>
      (septet (g 0 OR 0x80) 0 OR septet (g 7 OR 0x80) 7) OR septet (g 14) 14 = v"
    and "drop_bit 28 v = 0 \<Longrightarrow>
      ((septet (g 0 OR 0x80) 0 OR septet (g 7 OR 0x80) 7) OR septet (g 14 OR 0x80) 14)
        OR septet (g 21) 21 = v"
    and "(((septet (g 0 OR 0x80) 0 OR septet (g 7 OR 0x80) 7) OR septet (g 14 OR 0x80) 14)
        OR septet (g 21 OR 0x80) 21) OR septet (g 28) 28 = v"
    unfolding g_def septet_byte
    unfolding push_bit_0_id id_apply drop_bit_0 s
    by (simp_all only: take_bit_all)
qed

lemma uInt32ToVarLengthBytes_unfold:
  fixes v :: u32
  assumes "length b = 5"
  defines "g \<equiv> \<lambda>k. ucast (drop_bit k v AND 0x7F) :: u8"
  shows "uInt32ToVarLengthBytes v (Some b) (Some l) =
    (if drop_bit 7 v = 0 then (True, Some (g 0 # drop 1 b), Some 1)
     else if drop_bit 14 v = 0 then (True, Some ([g 0 OR 0x80, g 7] @ drop 2 b), Some 2)
     else if drop_bit 21 v = 0 then
       (True, Some ([g 0 OR 0x80, g 7 OR 0x80, g 14] @ drop 3 b), Some 3)
     else if drop_bit 28 v = 0 then
       (True, Some ([g 0 OR 0x80, g 7 OR 0x80, g 14 OR 0x80, g 21] @ drop 4 b), Some 4)
     else (True, Some [g 0 OR 0x80, g 7 OR 0x80, g 14 OR 0x80, g 21 OR 0x80, g 28], Some 5))"
proof -
  obtain x0 x1 x2 x3 x4 where b: "b = [x0, x1, x2, x3, x4]"
    using assms(1) by (auto simp: numeral_eq_Suc length_Suc_conv)
  show ?thesis
    unfolding uInt32ToVarLengthBytes_def b g_def
    by (simp add: Let_def drop_bit_drop_bit numeral_eq_Suc)
qed

text \<open>What the vector functions rely on: the bytes written decode to the value, whatever follows.\<close>

lemma uInt32ToVarLengthBytes_decodes:
  fixes v :: u32
  assumes "length b = 5"
  obtains b' n where "uInt32ToVarLengthBytes v (Some b) (Some l) = (True, Some b', Some n)"
    "length b' = 5" "1 \<le> n" "n \<le> 5" "\<not> bit (b' ! (n - 1)) 7"
    "\<And>rest k. varLengthBytesToUInt32 (take n b' @ rest) k = Some (True, v, n)"
proof -
  define g where "g k = (ucast (drop_bit k v AND 0x7F) :: u8)" for k
  have flags: "\<not> bit (g k) 7" "bit (g k OR 0x80) 7" for k
    by (simp_all add: g_def flag_byte)
  note enc = uInt32ToVarLengthBytes_unfold [OF assms, of v l, folded g_def]
  note join = septets_join [of v, folded g_def]
  note facts = varLengthBytesToUInt32_def Let_def continuation_flag flags
  consider "drop_bit 7 v = 0" | "drop_bit 7 v \<noteq> 0" "drop_bit 14 v = 0"
    | "drop_bit 7 v \<noteq> 0" "drop_bit 14 v \<noteq> 0" "drop_bit 21 v = 0"
    | "drop_bit 7 v \<noteq> 0" "drop_bit 14 v \<noteq> 0" "drop_bit 21 v \<noteq> 0" "drop_bit 28 v = 0"
    | "drop_bit 7 v \<noteq> 0" "drop_bit 14 v \<noteq> 0" "drop_bit 21 v \<noteq> 0" "drop_bit 28 v \<noteq> 0"
    by blast
  then show thesis
  proof cases
    case 1
    show ?thesis
      by (rule that [of "g 0 # drop 1 b" 1]) (use 1 assms in \<open>simp_all add: enc facts join\<close>)
  next
    case 2
    show ?thesis
      by (rule that [of "[g 0 OR 0x80, g 7] @ drop 2 b" 2])
        (use 2 assms in \<open>simp_all add: enc facts join\<close>)
  next
    case 3
    show ?thesis
      by (rule that [of "[g 0 OR 0x80, g 7 OR 0x80, g 14] @ drop 3 b" 3])
        (use 3 assms in \<open>simp_all add: enc facts join\<close>)
  next
    case 4
    show ?thesis
      by (rule that [of "[g 0 OR 0x80, g 7 OR 0x80, g 14 OR 0x80, g 21] @ drop 4 b" 4])
        (use 4 assms in \<open>simp_all add: enc facts join\<close>)
  next
    case 5
    show ?thesis
      by (rule that [of "[g 0 OR 0x80, g 7 OR 0x80, g 14 OR 0x80, g 21 OR 0x80, g 28]" 5])
        (use 5 assms in \<open>simp_all add: enc facts join\<close>)
  qed
qed

section \<open>Vectors: decoding inverts encoding\<close>

lemma decodeDeltas_done [simp]: "sz \<le> offset \<Longrightarrow> decodeDeltas fuel buffer sz offset acc k = Some acc"
  by (simp add: decodeDeltas.simps)

lemma decodeDeltas_step:
  assumes "varLengthBytesToUInt32 (drop offset buffer) k = Some (ok, delta, n)" "offset < sz"
  shows "decodeDeltas (Suc fuel) buffer sz offset acc k =
    decodeDeltas fuel buffer sz (offset + n) (acc @ [last acc + delta]) n"
  using assms by (subst decodeDeltas.simps) simp

lemma encodeDeltas_correct:
  assumes "length buf = 5"
  shows "\<exists>bytes. (\<forall>temp. encodeDeltas prev ps buf temp = temp @ bytes)
    \<and> (bytes \<noteq> [] \<longrightarrow> \<not> bit (last bytes) 7) \<and> length ps \<le> length bytes
    \<and> (\<forall>pre post acc k fuel. acc \<noteq> [] \<longrightarrow> last acc = prev \<longrightarrow> length ps \<le> fuel \<longrightarrow>
        decodeDeltas fuel (pre @ bytes @ post) (length pre + length bytes) (length pre) acc k
          = Some (acc @ ps))"
  using assms
proof (induction ps arbitrary: prev buf)
  case Nil
  then show ?case by (intro exI [of _ "[]"]) simp
next
  case (Cons p ps)
  obtain b' n where enc: "uInt32ToVarLengthBytes (p - prev) (Some buf) (Some 0)
        = (True, Some b', Some n)"
    and b': "length b' = 5" "1 \<le> n" "n \<le> 5" "\<not> bit (b' ! (n - 1)) 7"
    and dec: "\<And>rest k. varLengthBytesToUInt32 (take n b' @ rest) k = Some (True, p - prev, n)"
    using uInt32ToVarLengthBytes_decodes [OF Cons.prems, of "p - prev" 0] by metis
  obtain bytes where bytes: "\<And>temp. encodeDeltas p ps b' temp = temp @ bytes"
    "bytes \<noteq> [] \<Longrightarrow> \<not> bit (last bytes) 7" and more: "length ps \<le> length bytes"
    and dec': "\<And>pre post acc k fuel. acc \<noteq> [] \<Longrightarrow> last acc = p \<Longrightarrow> length ps \<le> fuel \<Longrightarrow>
      decodeDeltas fuel (pre @ bytes @ post) (length pre + length bytes) (length pre) acc k
        = Some (acc @ ps)"
    using Cons.IH [OF b'(1), of p] by blast
  have ln: "length (take n b') = n" using b' by simp
  have last_b': "last (take n b') = b' ! (n - 1)"
    using b' by (intro last_take) auto
  show ?case
  proof (intro exI [of _ "take n b' @ bytes"] conjI allI impI)
    show "encodeDeltas prev (p # ps) buf temp = temp @ take n b' @ bytes" for temp
      by (simp add: enc bytes(1))
    show "length (p # ps) \<le> length (take n b' @ bytes)" using more b'(2) ln by simp
    show "\<not> bit (last (take n b' @ bytes)) 7"
      using bytes(2) last_b' b' by (cases "bytes = []") auto
  next
    fix pre post :: "u8 list" and acc :: "u32 list" and k fuel
    assume acc: "acc \<noteq> []" "last acc = prev" and "length (p # ps) \<le> fuel"
    then obtain fuel' where fuel': "fuel = Suc fuel'" "length ps \<le> fuel'"
      by (cases fuel) auto
    have "decodeDeltas fuel (pre @ (take n b' @ bytes) @ post)
        (length pre + length (take n b' @ bytes)) (length pre) acc k
      = decodeDeltas fuel' ((pre @ take n b') @ bytes @ post)
        (length (pre @ take n b') + length bytes) (length (pre @ take n b')) (acc @ [p]) n"
      using decodeDeltas_step [of "length pre" "pre @ (take n b' @ bytes) @ post" k True
          "p - prev" n "length pre + length (take n b' @ bytes)" fuel' acc] dec b' acc fuel'
      by (simp add: ln add.assoc)
    also have "\<dots> = Some ((acc @ [p]) @ ps)"
      using dec' [of "acc @ [p]" fuel' "pre @ take n b'" post n] fuel' by simp
    finally show "decodeDeltas fuel (pre @ (take n b' @ bytes) @ post)
        (length pre + length (take n b' @ bytes)) (length pre) acc k = Some (acc @ p # ps)"
      by simp
  qed
qed

lemma nth_opt_last: "bytes \<noteq> [] \<Longrightarrow> nth_opt (bytes @ post) (length bytes - 1) = Some (last bytes)"
  by (simp add: nth_opt_append last_conv_nth)

lemma uInt32VectorToVarLenArray_decodes:
  assumes "length buf = 5" "ps \<noteq> []"
  obtains vlb where "uInt32VectorToVarLenArray buf ps = (length vlb, Some vlb)" "vlb \<noteq> []"
    "length ps \<le> length vlb" "\<not> bit (last vlb) 7"
    "\<And>fuel post out. length ps \<le> fuel \<Longrightarrow>
      varLenByteArrayToInt32Vector fuel (vlb @ post) (length vlb) out = Some (out @ ps)"
proof -
  obtain p qs where Cons: "ps = p # qs" using assms(2) by (cases ps) auto
  obtain b' n where enc: "uInt32ToVarLengthBytes p (Some buf) (Some 0) = (True, Some b', Some n)"
    and b': "length b' = 5" "1 \<le> n" "n \<le> 5" "\<not> bit (b' ! (n - 1)) 7"
    and dec: "\<And>rest k. varLengthBytesToUInt32 (take n b' @ rest) k = Some (True, p, n)"
    using uInt32ToVarLengthBytes_decodes [OF assms(1), of p 0] by metis
  obtain bytes where bytes: "\<And>temp. encodeDeltas p qs b' temp = temp @ bytes"
    "bytes \<noteq> [] \<Longrightarrow> \<not> bit (last bytes) 7" and more: "length qs \<le> length bytes"
    and dec': "\<And>pre post acc k fuel. acc \<noteq> [] \<Longrightarrow> last acc = p \<Longrightarrow> length qs \<le> fuel \<Longrightarrow>
      decodeDeltas fuel (pre @ bytes @ post) (length pre + length bytes) (length pre) acc k
        = Some (acc @ qs)"
    using encodeDeltas_correct [OF b'(1), of p qs] by blast
  define vlb where "vlb = take n b' @ bytes"
  have ln: "length (take n b') = n" using b' by simp
  have ne: "vlb \<noteq> []" and len_vlb: "length vlb = n + length bytes" using b' by (auto simp: vlb_def)
  have last_vlb: "\<not> bit (last vlb) 7"
    using bytes(2) b' last_take [of n b'] by (cases "bytes = []") (auto simp: vlb_def)
  have out: "uInt32VectorToVarLenArray buf ps = (length vlb, Some vlb)"
    by (simp add: Cons uInt32VectorToVarLenArray_def enc bytes(1) Let_def vlb_def)
  have "varLenByteArrayToInt32Vector fuel (vlb @ post) (length vlb) out = Some (out @ ps)"
    if "length ps \<le> fuel" for fuel post out
  proof -
    have "varLenByteArrayToInt32Vector fuel (vlb @ post) (length vlb) out =
      decodeDeltas fuel (take n b' @ bytes @ post) (n + length bytes) n (out @ [p]) n"
      using ne last_vlb dec [of "bytes @ post" 0] nth_opt_last [OF ne, of post]
      unfolding varLenByteArrayToInt32Vector_def continuation_flag len_vlb
      using b'(2) by (auto simp: vlb_def)
    also have "\<dots> = Some ((out @ [p]) @ qs)"
      using dec' [of "out @ [p]" fuel "take n b'" post n] that ln Cons by simp
    finally show ?thesis by (simp add: Cons)
  qed
  moreover have "length ps \<le> length vlb" using more b'(2) len_vlb Cons by simp
  ultimately show thesis using that out ne last_vlb by blast
qed

text \<open>
  C28. Position lists survive storage: for every non-empty vector of 32-bit positions (monotone or
  not, since the deltas wrap), \<open>uInt32VectorToVarLenArray\<close> returns the size of the buffer it
  allocates and \<open>varLenByteArrayToInt32Vector\<close>, run on that many bytes at the start of any
  larger block, terminates and appends exactly the encoded vector to its output. An empty vector
  is encoded by size 0 and no buffer, and size 0 decodes to nothing.
\<close>

theorem ULEB128_roundtrip:
  assumes "length buf = 5"
  shows "(case uInt32VectorToVarLenArray buf ps of
      (n, None) \<Rightarrow> n = 0 \<and> ps = [] \<and> varLenByteArrayToInt32Vector fuel post 0 out = Some out
    | (n, Some vlb) \<Rightarrow> n = length vlb \<and> 0 < n \<and>
        (length ps \<le> fuel \<longrightarrow> varLenByteArrayToInt32Vector fuel (vlb @ post) n out = Some (out @ ps)))"
proof (cases "ps = []")
  case True
  then show ?thesis
    by (simp add: uInt32VectorToVarLenArray_def varLenByteArrayToInt32Vector_def)
next
  case False
  obtain vlb where "uInt32VectorToVarLenArray buf ps = (length vlb, Some vlb)" "vlb \<noteq> []"
    "\<And>fuel post out. length ps \<le> fuel \<Longrightarrow>
      varLenByteArrayToInt32Vector fuel (vlb @ post) (length vlb) out = Some (out @ ps)"
    using uInt32VectorToVarLenArray_decodes [OF assms False] by metis
  then show ?thesis by simp
qed

theorem ULEB128_roundtrip_witness:
  "length [0, 0, 0, 0, 0 :: u8] = 5 \<and>
   uInt32VectorToVarLenArray [0, 0, 0, 0, 0] [5, 300, 70000] = (6, Some [5, 0xA7, 2, 0xC4, 0xA0, 4]) \<and>
   varLenByteArrayToInt32Vector 3 ([5, 0xA7, 2, 0xC4, 0xA0, 4] @ [9]) 6 [1] = Some ([1] @ [5, 300, 70000])"
proof -
  have e: "uInt32VectorToVarLenArray [0, 0, 0, 0, 0] [5, 300, 70000] = (6, Some [5, 0xA7, 2, 0xC4, 0xA0, 4])"
    by code_simp
  have l: "length [0, 0, 0, 0, 0 :: u8] = 5" by simp
  show ?thesis
    using ULEB128_roundtrip [OF l, of "[5, 300, 70000]" 3 "[9]" "[1]"] unfolding e by simp
qed

section \<open>Malformed buffers\<close>

lemma varLengthBytesToUInt32_five_continuations:
  assumes "5 \<le> length buffer" "\<And>i. i < 5 \<Longrightarrow> bit (buffer ! i) 7"
  shows "\<exists>val. varLengthBytesToUInt32 buffer k = Some (False, val, k)"
  using assms(1) assms(2) [of 0] assms(2) [of 1] assms(2) [of 2] assms(2) [of 3] assms(2) [of 4]
  by (auto simp: varLengthBytesToUInt32_def nth_opt_def Let_def continuation_flag)

text \<open>
  The decoder stays inside a buffer in which some byte has no continuation flag, and then either leaves
  \<open>byteRead\<close> alone or sets it to a positive number; it sets it when one of the first five bytes
  has no flag.
\<close>

lemma varLengthBytesToUInt32_inside:
  assumes "j < length buffer" "\<not> bit (buffer ! j) 7"
  shows "\<exists>found val n. varLengthBytesToUInt32 buffer k = Some (found, val, n) \<and> (n = k \<or> 0 < n)
    \<and> ((\<exists>i < 5. \<not> bit (buffer ! i) 7) \<longrightarrow> found \<and> 0 < n)"
proof -
  have all_flags: "j \<noteq> i" if "bit (buffer ! i) 7" for i using assms(2) that by blast
  have five: "(\<exists>i < 5. \<not> bit (buffer ! i) 7) \<longleftrightarrow> \<not> bit (buffer ! 0) 7 \<or> \<not> bit (buffer ! 1) 7
      \<or> \<not> bit (buffer ! 2) 7 \<or> \<not> bit (buffer ! 3) 7 \<or> \<not> bit (buffer ! 4) 7"
    by (auto simp: numeral_eq_Suc less_Suc_eq)
  show ?thesis unfolding five
    using assms(1) all_flags [of 0] all_flags [of 1] all_flags [of 2] all_flags [of 3]
    by (auto simp: varLengthBytesToUInt32_def nth_opt_def Let_def continuation_flag)
qed

lemma decodeDeltas_returns:
  assumes "sz \<le> length buffer" "\<not> bit (buffer ! (sz - 1)) 7" "0 < k" "sz - offset \<le> fuel"
  shows "\<exists>vs. decodeDeltas fuel buffer sz offset acc k = Some (acc @ vs)"
  using assms(3,4)
proof (induction fuel arbitrary: offset acc k)
  case (Suc fuel)
  show ?case
  proof (cases "offset < sz")
    case True
    have "sz - 1 - offset < length (drop offset buffer)" "\<not> bit (drop offset buffer ! (sz - 1 - offset)) 7"
      using True assms(1,2) by auto
    then obtain found val n where v: "varLengthBytesToUInt32 (drop offset buffer) k = Some (found, val, n)" "0 < n"
      using varLengthBytesToUInt32_inside [of "sz - 1 - offset" "drop offset buffer" k] Suc.prems(1) by auto
    then have "\<exists>vs. decodeDeltas fuel buffer sz (offset + n) (acc @ [last acc + val]) n = Some ((acc @ [last acc + val]) @ vs)"
      using Suc.prems(2) by (intro Suc.IH) auto
    then show ?thesis using decodeDeltas_step [OF v(1) True] by auto
  qed simp
qed simp

text \<open>
  C32. When the decoder of position lists returns. An empty buffer and one whose last byte carries the
  continuation flag leave the vector as it is. Otherwise every read stays inside the buffer, and: if
  the first five bytes all carry the flag, \<open>varLenByteArrayToInt32Vector\<close> never returns, since the
  reported failure is ignored and the offset advances by \<open>byteRead = 0\<close> for ever; in every other case
  it returns after at most \<open>sz\<close> rounds and only appends to the vector, also when a later group of five
  bytes is malformed (the offset then advances by the size of the group before it).
\<close>

theorem ULEB128_decoder_returns:
  assumes "sz \<le> length buffer"
  shows "if sz = 0 \<or> bit (buffer ! (sz - 1)) 7 then varLenByteArrayToInt32Vector fuel buffer sz out = Some out
    else if \<forall>i < 5. bit (buffer ! i) 7
    then varLenByteArrayToInt32Vector fuel buffer sz out = None
      \<and> (\<exists>val. varLengthBytesToUInt32 buffer 0 = Some (False, val, 0))
    else sz \<le> fuel \<longrightarrow> (\<exists>vs. vs \<noteq> [] \<and> varLenByteArrayToInt32Vector fuel buffer sz out = Some (out @ vs))"
proof (cases "sz = 0 \<or> bit (buffer ! (sz - 1)) 7")
  case True
  then show ?thesis using assms by (auto simp: varLenByteArrayToInt32Vector_def nth_opt_def continuation_flag)
next
  case last: False
  then have start: "varLenByteArrayToInt32Vector fuel buffer sz out
      = (case varLengthBytesToUInt32 buffer 0 of None \<Rightarrow> None
         | Some (_, v, n) \<Rightarrow> decodeDeltas fuel buffer sz n (out @ [v]) n)"
    using assms by (auto simp: varLenByteArrayToInt32Vector_def nth_opt_def continuation_flag)
  show ?thesis
  proof (cases "\<forall>i < 5. bit (buffer ! i) 7")
    case True
    then have "\<not> sz - 1 < 5" using last by blast
    then have "5 < sz" by arith
    then obtain val where val: "varLengthBytesToUInt32 buffer 0 = Some (False, val, 0)"
      using varLengthBytesToUInt32_five_continuations [of buffer 0] assms True by auto
    have "decodeDeltas fuel buffer sz 0 acc 0 = None" for acc
    proof (induction fuel arbitrary: acc)
      case 0
      then show ?case using \<open>5 < sz\<close> by (subst decodeDeltas.simps) simp
    next
      case (Suc fuel)
      then show ?case
        using decodeDeltas_step [of 0 buffer 0 False val 0 sz fuel acc] val \<open>5 < sz\<close> by simp
    qed
    then show ?thesis using last True val start by simp
  next
    case False
    then obtain found val n where v: "varLengthBytesToUInt32 buffer 0 = Some (found, val, n)" "0 < n"
      using varLengthBytesToUInt32_inside [of "sz - 1" buffer 0] last assms by fastforce
    have "\<exists>vs. decodeDeltas fuel buffer sz n (out @ [val]) n = Some ((out @ [val]) @ vs)" if "sz \<le> fuel"
      using decodeDeltas_returns [OF assms _ v(2), of n fuel "out @ [val]"] last that by simp
    then show ?thesis using last False v start by auto
  qed
qed

theorem ULEB128_decoder_returns_witness:
  "(\<forall>fuel. varLenByteArrayToInt32Vector fuel [0x80, 0x80, 0x80, 0x80, 0x80, 0] 6 [] = None)
    \<and> (\<exists>vs. vs \<noteq> [] \<and> varLenByteArrayToInt32Vector 7 [1, 0x80, 0x80, 0x80, 0x80, 0x80, 0] 7 [] = Some vs)"
proof (intro conjI allI)
  fix fuel
  let ?b = "[0x80, 0x80, 0x80, 0x80, 0x80, 0 :: u8]"
  have "list_all (\<lambda>i. bit (?b ! i) 7) [0..<5]" by code_simp
  then have "\<forall>i < 5. bit (?b ! i) 7" by (simp add: list_all_iff)
  then show "varLenByteArrayToInt32Vector fuel ?b 6 [] = None"
    using ULEB128_decoder_returns [of 6 ?b fuel "[]"] by simp
next
  let ?b = "[1, 0x80, 0x80, 0x80, 0x80, 0x80, 0 :: u8]"
  have "\<not> bit (?b ! 0) 7" by code_simp
  then have "\<not> (\<forall>i < 5. bit (?b ! i) 7)" by (meson zero_less_numeral)
  then show "\<exists>vs. vs \<noteq> [] \<and> varLenByteArrayToInt32Vector 7 ?b 7 [] = Some vs"
    using ULEB128_decoder_returns [of 7 ?b 7 "[]"] by (simp split: if_splits)
qed

end
