(* ===== verification/Record_Stream.thy ===== *)
theory Record_Stream
  imports Srch2_Prelude "HOL-Library.Monad_Syntax"
begin

text \<open>
  The interface of the iterators of the engine: an object with a \<open>getNext\<close> operation that
  hands out its elements one by one and says when there are no more. Record id iterators
  (\<^verbatim>\<open>src/src/core/util/RecordIdSetIterator.h\<close>) and physical operators
  (\<^verbatim>\<open>src/src/core/operation/physical_plan/PhysicalPlan.h\<close>) both have it. A call yields
  \<open>None\<close> when it aborts or does not return, \<open>Some (None, s)\<close> at the end of the stream and
  \<open>Some (Some x, s)\<close> for an element. \<open>view\<close> is the part of an element a client relies on (the
  record id) and \<open>remaining\<close> abstracts the object to what it still has to deliver.
\<close>

type_synonym ('s, 'a) next_fun = "'s \<Rightarrow> ('a option \<times> 's) option"

section \<open>Draining an iterator\<close>

fun drain :: "('s, 'a) next_fun \<Rightarrow> nat \<Rightarrow> 's \<Rightarrow> 'a list option" where
  "drain getNext 0 s = Some []"
| "drain getNext (Suc n) s = do {
     (r, s') \<leftarrow> getNext s;
     case r of None \<Rightarrow> Some [] | Some x \<Rightarrow> map_option (Cons x) (drain getNext n s')
   }"

text \<open>The state after a number of calls, whatever they deliver.\<close>

fun afterCalls :: "('s, 'a) next_fun \<Rightarrow> nat \<Rightarrow> 's \<Rightarrow> 's option" where
  "afterCalls getNext 0 s = Some s"
| "afterCalls getNext (Suc n) s = do { (_, s') \<leftarrow> getNext s; afterCalls getNext n s' }"

text \<open>A loop over all elements with an accumulator.\<close>

partial_function (option) consume :: "('s, 'a) next_fun \<Rightarrow> ('a \<Rightarrow> 'c \<Rightarrow> 'c option) \<Rightarrow> 's \<Rightarrow> 'c \<Rightarrow> 'c option" where
  "consume getNext f s acc = do {
     (r, s) \<leftarrow> getNext s;
     case r of None \<Rightarrow> Some acc | Some x \<Rightarrow> do { acc \<leftarrow> f x acc; consume getNext f s acc }
   }"

declare consume.simps [code]

fun foldItems :: "('a \<Rightarrow> 'c \<Rightarrow> 'c option) \<Rightarrow> 'a list \<Rightarrow> 'c \<Rightarrow> 'c option" where
  "foldItems f [] acc = Some acc"
| "foldItems f (x # xs) acc = do { acc \<leftarrow> f x acc; foldItems f xs acc }"

locale record_stream =
  fixes getNext :: "'s \<Rightarrow> ('a option \<times> 's) option"
    and view :: "'a \<Rightarrow> 'b"
    and remaining :: "'s \<Rightarrow> 'b list"
    and ok :: "'s \<Rightarrow> bool"
  assumes getNext_Nil: "ok s \<Longrightarrow> remaining s = [] \<Longrightarrow>
      \<exists>s'. getNext s = Some (None, s') \<and> ok s' \<and> remaining s' = []"
    and getNext_Cons: "ok s \<Longrightarrow> remaining s = v # vs \<Longrightarrow>
      \<exists>x s'. getNext s = Some (Some x, s') \<and> view x = v \<and> ok s' \<and> remaining s' = vs"
begin

lemma getNext_cases:
  assumes "ok s"
  obtains (finished) s' where "remaining s = []" "getNext s = Some (None, s')" "ok s'" "remaining s' = []"
  | (item) x s' where "remaining s = view x # remaining s'" "getNext s = Some (Some x, s')" "ok s'"
  using assms getNext_Nil getNext_Cons by (cases "remaining s") metis+

lemma drain_take: "ok s \<Longrightarrow> \<exists>xs. drain getNext n s = Some xs \<and> map view xs = take n (remaining s)"
proof (induction n arbitrary: s)
  case (Suc n)
  from Suc.prems show ?case
  proof (cases rule: getNext_cases)
    case (item x s')
    with Suc.IH [of s'] show ?thesis by auto
  qed simp
qed simp

lemma afterCalls_drop: "ok s \<Longrightarrow> \<exists>s'. afterCalls getNext n s = Some s' \<and> ok s' \<and> remaining s' = drop n (remaining s)"
proof (induction n arbitrary: s)
  case (Suc n)
  from Suc.prems show ?case
  proof (cases rule: getNext_cases)
    case (finished s')
    with Suc.IH [of s'] show ?thesis by auto
  next
    case (item x s')
    with Suc.IH [of s'] show ?thesis by auto
  qed
qed simp

lemma consume_all:
  assumes "ok s" "\<And>x acc. f x acc = g (view x) acc"
  shows "consume getNext f s acc = foldItems g (remaining s) acc"
  using assms(1)
proof (induction "remaining s" arbitrary: s acc)
  case Nil
  then obtain s' where "getNext s = Some (None, s')" using getNext_Nil [of s] by auto
  then show ?case using Nil by (simp add: consume.simps)
next
  case (Cons v vs)
  then obtain x s' where x: "getNext s = Some (Some x, s')" "view x = v" "ok s'" "remaining s' = vs" using getNext_Cons [of s v vs] by metis
  have "consume getNext f s acc = g v acc \<bind> consume getNext f s'" using x assms(2) by (subst consume.simps) simp
  also have "\<dots> = g v acc \<bind> foldItems g vs" using Cons.hyps(1) [of s'] x by (cases "g v acc") auto
  finally show ?case using Cons.hyps(2) by (simp flip: Cons.hyps(2))
qed

lemma drain_all: "ok s \<Longrightarrow> length (remaining s) \<le> n \<Longrightarrow>
    \<exists>xs. drain getNext n s = Some xs \<and> map view xs = remaining s"
  using drain_take [of s n] by simp

end

text \<open>A stream that delivers its record ids in ascending order, possibly with repetitions.\<close>

locale sorted_stream = record_stream getNext view remaining ok
  for getNext :: "'s \<Rightarrow> ('a option \<times> 's) option" and view :: "'a \<Rightarrow> 'b::linorder"
    and remaining :: "'s \<Rightarrow> 'b list" and ok :: "'s \<Rightarrow> bool" +
  assumes sorted_remaining: "ok s \<Longrightarrow> sorted (remaining s)"

end
