(* ===== verification/Bit_Set.thy ===== *)
theory Bit_Set
  imports Record_Stream
begin

unbundle bit_operations_syntax

text \<open>
  The bit set of record ids, \<^verbatim>\<open>src/src/core/util/BitSet.h\<close>, and its iterator,
  \<^verbatim>\<open>src/src/core/util/BitSetIterator.h\<close> with the table of \<^verbatim>\<open>BitSetIterator.cpp\<close>.
  An operation returns \<open>None\<close> where the code aborts on an \<^verbatim>\<open>ASSERT\<close> or leaves the allocated
  words. C++ \<^verbatim>\<open>int\<close> indices are integers: the ids of a set stay below the \<^verbatim>\<open>int\<close> \<open>numBits\<close>.
\<close>

section \<open>The set\<close>

record BitSet =
  bits :: "u64 list option"
  numBits :: int
  wordLength :: int

definition getWordNumberForBits :: "int \<Rightarrow> int" where
  "getWordNumberForBits nb =
    (let wordNumber = drop_bit 6 nb in
     if nb AND 0x3f \<noteq> 0 then wordNumber + 1 else wordNumber)"

text \<open>\<open>fresh\<close> is the content of memory returned by \<^verbatim>\<open>new uint64_t[n]\<close>.\<close>

definition alloc :: "(nat \<Rightarrow> u64) \<Rightarrow> int \<Rightarrow> u64 list" where
  "alloc fresh n = map fresh [0..<nat n]"

definition BitSet_empty :: BitSet where
  "BitSet_empty = \<lparr>bits = None, numBits = 0, wordLength = 0\<rparr>"

definition BitSet_of_size :: "(nat \<Rightarrow> u64) \<Rightarrow> int \<Rightarrow> BitSet option" where
  "BitSet_of_size fresh nb =
    (if nb < 0 then None
     else let wl = getWordNumberForBits nb in
       Some \<lparr>bits = Some (alloc fresh wl), numBits = nb, wordLength = wl\<rparr>)"

definition BitSet_of_words :: "u64 list option \<Rightarrow> int \<Rightarrow> BitSet option" where
  "BitSet_of_words storedBits nb =
    (if nb < 0 then None
     else Some \<lparr>bits = storedBits, numBits = nb, wordLength = getWordNumberForBits nb\<rparr>)"

text \<open>
  \<open>memcpy\<close> of \<open>n\<close> bytes into an array of 64-bit words (little endian): word \<open>i\<close> receives its
  low \<open>min 8 (n - 8 * i)\<close> bytes. \<open>None\<close> when the copy leaves one of the blocks.
\<close>

definition copy_low_bytes :: "nat \<Rightarrow> u64 \<Rightarrow> u64 \<Rightarrow> u64" where
  "copy_low_bytes k dst src = take_bit (8 * k) src OR (dst AND NOT (mask (8 * k)))"

definition memcpy_words :: "u64 list \<Rightarrow> u64 list \<Rightarrow> nat \<Rightarrow> u64 list option" where
  "memcpy_words dst src n =
    (if n \<le> 8 * length dst \<and> n \<le> 8 * length src
     then Some (map (\<lambda>i. if 8 * i < n then copy_low_bytes (min 8 (n - 8 * i)) (dst ! i) (src ! i)
                         else dst ! i) [0..<length dst])
     else None)"

definition BitSet_copy :: "(nat \<Rightarrow> u64) \<Rightarrow> BitSet \<Rightarrow> BitSet option" where
  "BitSet_copy fresh other =
    (case bits other of
      None \<Rightarrow> if wordLength other = 0
              then Some \<lparr>bits = Some [], numBits = numBits other, wordLength = wordLength other\<rparr>
              else None
    | Some src \<Rightarrow>
       (case memcpy_words (alloc fresh (wordLength other)) src (nat (wordLength other)) of
         None \<Rightarrow> None
       | Some b \<Rightarrow>
          Some \<lparr>bits = Some b, numBits = numBits other, wordLength = wordLength other\<rparr>))"

definition resize :: "int \<Rightarrow> BitSet \<Rightarrow> BitSet option" where
  "resize nb bs =
    (if nb < 0 then None
     else let wl = getWordNumberForBits nb;
              newBits = replicate (nat wl) 0
       in case bits bs of
         None \<Rightarrow> Some \<lparr>bits = Some newBits, numBits = nb, wordLength = wl\<rparr>
       | Some old \<Rightarrow>
          (case memcpy_words newBits old (nat wl) of
            None \<Rightarrow> None
          | Some b \<Rightarrow> Some \<lparr>bits = Some b, numBits = nb, wordLength = wl\<rparr>))"

definition getBitNumber :: "BitSet \<Rightarrow> int" where
  "getBitNumber bs = numBits bs"

text \<open>
  The common part of the accessors: the \<^verbatim>\<open>ASSERT\<close>, the word number and the mask, and the
  read of the word.
\<close>

definition wordAt :: "int \<Rightarrow> BitSet \<Rightarrow> (u64 list \<times> nat \<times> u64 \<times> u64) option" where
  "wordAt index bs =
    (if 0 \<le> index \<and> index < numBits bs then
       let wordNum = nat (drop_bit 6 index);
           bitmask = push_bit (nat (index AND 0x3f)) 1
       in case bits bs of
         None \<Rightarrow> None
       | Some b \<Rightarrow> (case nth_opt b wordNum of None \<Rightarrow> None
                     | Some w \<Rightarrow> Some (b, wordNum, bitmask, w))
     else None)"

definition get :: "int \<Rightarrow> BitSet \<Rightarrow> bool option" where
  "get index bs = map_option (\<lambda>(b, wordNum, bitmask, w). w AND bitmask \<noteq> 0) (wordAt index bs)"

definition set_bit_at :: "int \<Rightarrow> BitSet \<Rightarrow> BitSet option" where
  "set_bit_at index bs = map_option (\<lambda>(b, wordNum, bitmask, w).
     bs\<lparr>bits := Some (b[wordNum := w OR bitmask])\<rparr>) (wordAt index bs)"

definition getAndSet :: "int \<Rightarrow> BitSet \<Rightarrow> (bool \<times> BitSet) option" where
  "getAndSet index bs = map_option (\<lambda>(b, wordNum, bitmask, w).
     (w AND bitmask \<noteq> 0, bs\<lparr>bits := Some (b[wordNum := w OR bitmask])\<rparr>)) (wordAt index bs)"

definition clear_bit_at :: "int \<Rightarrow> BitSet \<Rightarrow> BitSet option" where
  "clear_bit_at index bs = map_option (\<lambda>(b, wordNum, bitmask, w).
     bs\<lparr>bits := Some (b[wordNum := w AND NOT bitmask])\<rparr>) (wordAt index bs)"

definition getAndClear :: "int \<Rightarrow> BitSet \<Rightarrow> (bool \<times> BitSet) option" where
  "getAndClear index bs = map_option (\<lambda>(b, wordNum, bitmask, w).
     (w AND bitmask \<noteq> 0, bs\<lparr>bits := Some (b[wordNum := w AND NOT bitmask])\<rparr>)) (wordAt index bs)"

section \<open>The iterator\<close>

definition NO_MORE_RECORDS :: int where "NO_MORE_RECORDS = 2147483647"

record BitSetIterator =
  it_bits :: "u64 list"
  words :: int
  pos :: int
  word :: u64
  wordShift :: int
  indexArray :: u32
  curRecordId :: int

text \<open>\<open>bitList\<close>: for each byte, the positions (from 1) of its set bits, one per nibble.
  The entries are read through \<^verbatim>\<open>unsigned indexArray\<close>, modulo \<open>2 ^ 32\<close>.\<close>

definition bitList :: "int list" where
  "bitList = [
    0x0, 0x1, 0x2, 0x21, 0x3, 0x31, 0x32, 0x321, 0x4, 0x41, 0x42, 0x421, 0x43, 0x431, 0x432,
    0x4321, 0x5, 0x51, 0x52, 0x521, 0x53, 0x531, 0x532, 0x5321, 0x54, 0x541, 0x542, 0x5421,
    0x543, 0x5431, 0x5432, 0x54321, 0x6, 0x61, 0x62, 0x621, 0x63, 0x631, 0x632, 0x6321, 0x64,
    0x641, 0x642, 0x6421, 0x643, 0x6431, 0x6432, 0x64321, 0x65, 0x651, 0x652, 0x6521, 0x653,
    0x6531, 0x6532, 0x65321, 0x654, 0x6541, 0x6542, 0x65421, 0x6543, 0x65431, 0x65432, 0x654321,
    0x7, 0x71, 0x72, 0x721, 0x73, 0x731, 0x732, 0x7321, 0x74, 0x741, 0x742, 0x7421, 0x743,
    0x7431, 0x7432, 0x74321, 0x75, 0x751, 0x752, 0x7521, 0x753, 0x7531, 0x7532, 0x75321, 0x754,
    0x7541, 0x7542, 0x75421, 0x7543, 0x75431, 0x75432, 0x754321, 0x76, 0x761, 0x762, 0x7621,
    0x763, 0x7631, 0x7632, 0x76321, 0x764, 0x7641, 0x7642, 0x76421, 0x7643, 0x76431, 0x76432,
    0x764321, 0x765, 0x7651, 0x7652, 0x76521, 0x7653, 0x76531, 0x76532, 0x765321, 0x7654,
    0x76541, 0x76542, 0x765421, 0x76543, 0x765431, 0x765432, 0x7654321, 0x8, 0x81, 0x82, 0x821,
    0x83, 0x831, 0x832, 0x8321, 0x84, 0x841, 0x842, 0x8421, 0x843, 0x8431, 0x8432, 0x84321, 0x85,
    0x851, 0x852, 0x8521, 0x853, 0x8531, 0x8532, 0x85321, 0x854, 0x8541, 0x8542, 0x85421, 0x8543,
    0x85431, 0x85432, 0x854321, 0x86, 0x861, 0x862, 0x8621, 0x863, 0x8631, 0x8632, 0x86321,
    0x864, 0x8641, 0x8642, 0x86421, 0x8643, 0x86431, 0x86432, 0x864321, 0x865, 0x8651, 0x8652,
    0x86521, 0x8653, 0x86531, 0x86532, 0x865321, 0x8654, 0x86541, 0x86542, 0x865421, 0x86543,
    0x865431, 0x865432, 0x8654321, 0x87, 0x871, 0x872, 0x8721, 0x873, 0x8731, 0x8732, 0x87321,
    0x874, 0x8741, 0x8742, 0x87421, 0x8743, 0x87431, 0x87432, 0x874321, 0x875, 0x8751, 0x8752,
    0x87521, 0x8753, 0x87531, 0x87532, 0x875321, 0x8754, 0x87541, 0x87542, 0x875421, 0x87543,
    0x875431, 0x875432, 0x8754321, 0x876, 0x8761, 0x8762, 0x87621, 0x8763, 0x87631, 0x87632,
    0x876321, 0x8764, 0x87641, 0x87642, 0x876421, 0x87643, 0x876431, 0x876432, 0x8764321, 0x8765,
    0x87651, 0x87652, 0x876521, 0x87653, 0x876531, 0x876532, 0x8765321, 0x87654, 0x876541,
    0x876542, 0x8765421, 0x876543, 0x8765431, 0x8765432, 0x87654321]"

definition BitSetIterator_new :: "u64 list \<Rightarrow> int \<Rightarrow> BitSetIterator" where
  "BitSetIterator_new b numWords =
    \<lparr>it_bits = b, words = numWords, pos = -1, word = 0, wordShift = 0, indexArray = 0,
     curRecordId = -1\<rparr>"

definition BitSet_iterator :: "BitSet \<Rightarrow> BitSetIterator option" where
  "BitSet_iterator bs = map_option (\<lambda>b. BitSetIterator_new b (wordLength bs)) (bits bs)"

definition shift :: "BitSetIterator \<Rightarrow> BitSetIterator" where
  "shift it =
    (let it = if (ucast (word it) :: u32) = 0
              then it\<lparr>wordShift := wordShift it + 32, word := drop_bit 32 (word it)\<rparr> else it;
         it = if word it AND 0x0000FFFF = 0
              then it\<lparr>wordShift := wordShift it + 16, word := drop_bit 16 (word it)\<rparr> else it;
         it = if word it AND 0x000000FF = 0
              then it\<lparr>wordShift := wordShift it + 8, word := drop_bit 8 (word it)\<rparr> else it
     in it\<lparr>indexArray := word_of_int (bitList ! unat ((ucast (word it) :: u32) AND 0xff))\<rparr>)"

text \<open>
  The loop \<^verbatim>\<open>while (word == 0)\<close>: \<open>None\<close> is a read outside the words, \<open>Some (True, it)\<close> the
  early return of \<open>NO_MORE_RECORDS\<close>. The loop of \<open>advance\<close> resets \<open>wordShift\<close> only
  after the loop, so that \<open>advance\<close> restores it on the early return.
\<close>

function skipEmptyWords :: "BitSetIterator \<Rightarrow> (bool \<times> BitSetIterator) option" where
  "skipEmptyWords it =
    (if word it \<noteq> 0 then Some (False, it)
     else let it = it\<lparr>pos := pos it + 1\<rparr> in
       if pos it \<ge> words it then Some (True, it\<lparr>curRecordId := NO_MORE_RECORDS\<rparr>)
       else if pos it < 0 then None
       else case nth_opt (it_bits it) (nat (pos it)) of
         None \<Rightarrow> None
       | Some w \<Rightarrow> skipEmptyWords (it\<lparr>word := w, wordShift := -1\<rparr>))"
  by pat_completeness auto
termination
  by (relation "measure (\<lambda>it. nat (words it - pos it))") auto

declare skipEmptyWords.simps [simp del]

definition takeIndex :: "BitSetIterator \<Rightarrow> int \<times> BitSetIterator" where
  "takeIndex it =
    (let bitIndex = uint (indexArray it AND 0x0f) + wordShift it;
         r = push_bit 6 (pos it) + bitIndex
     in (r, it\<lparr>indexArray := drop_bit 4 (indexArray it), curRecordId := r\<rparr>))"

definition getNextRecordId :: "BitSetIterator \<Rightarrow> (int \<times> BitSetIterator) option" where
  "getNextRecordId it =
    (if indexArray it = 0 then
       (let it = if word it \<noteq> 0
                 then it\<lparr>word := drop_bit 8 (word it), wordShift := wordShift it + 8\<rparr> else it
        in case skipEmptyWords it of
          None \<Rightarrow> None
        | Some (True, it) \<Rightarrow> Some (NO_MORE_RECORDS, it)
        | Some (False, it) \<Rightarrow> Some (takeIndex (shift it)))
     else Some (takeIndex it))"

definition advance :: "int \<Rightarrow> BitSetIterator \<Rightarrow> (int \<times> BitSetIterator) option" where
  "advance target it =
    (let it = it\<lparr>indexArray := 0, pos := drop_bit 6 target\<rparr> in
     if pos it \<ge> words it
     then Some (NO_MORE_RECORDS, it\<lparr>word := 0, curRecordId := NO_MORE_RECORDS\<rparr>)
     else if pos it < 0 then None
     else case nth_opt (it_bits it) (nat (pos it)) of
       None \<Rightarrow> None
     | Some w \<Rightarrow>
        let ws = target AND 0x3f;
            it = it\<lparr>wordShift := ws, word := drop_bit (nat ws) w\<rparr>
        in if word it \<noteq> 0 then Some (takeIndex (shift (it\<lparr>wordShift := wordShift it - 1\<rparr>)))
           else case skipEmptyWords it of
             None \<Rightarrow> None
           | Some (True, it) \<Rightarrow> Some (NO_MORE_RECORDS, it\<lparr>wordShift := ws\<rparr>)
           | Some (False, it) \<Rightarrow> Some (takeIndex (shift it)))"

definition getCurrentRecordID :: "BitSetIterator \<Rightarrow> int" where
  "getCurrentRecordID it = curRecordId it"

definition getNumberOfWords :: "BitSetIterator \<Rightarrow> u64" where
  "getNumberOfWords it = word_of_int (words it div 64)"


section \<open>The set as a set of integers\<close>

definition BitSet_ok :: "BitSet \<Rightarrow> bool" where
  "BitSet_ok bs \<longleftrightarrow> 0 \<le> numBits bs \<and> numBits bs < 2 ^ 31 \<and> wordLength bs = getWordNumberForBits (numBits bs)
    \<and> (case bits bs of None \<Rightarrow> False | Some b \<Rightarrow> int (length b) = wordLength bs)"

definition elems :: "BitSet \<Rightarrow> int set" where
  "elems bs = {i. 0 \<le> i \<and> i < numBits bs
    \<and> bit (the (bits bs) ! nat (i div 64)) (nat (i mod 64))}"

lemma int_shift_mask [srch2_bits]:
  "drop_bit 6 (i :: int) = i div 64" "i AND 0x3f = i mod 64" "push_bit 6 i = i * 64"
proof -
  have "i AND 63 = take_bit 6 i"
    using take_bit_eq_mask [of 6 i] by (simp add: mask_eq_exp_minus_1)
  then show "i AND 0x3f = i mod 64" by (simp add: take_bit_eq_mod)
qed (simp_all add: drop_bit_eq_div push_bit_eq_mult)

lemma div_add_63:
  fixes nb q r :: int
  assumes "nb = 64 * q + r" "0 \<le> r" "r < 64"
  shows "(nb + 63) div 64 = (if r = 0 then q else q + 1)"
proof (cases "r = 0")
  case True
  have "nb + 63 = 64 * q + 63" using assms(1) True by linarith
  then have "(nb + 63) div 64 = q" by (rule int_div_pos_eq) simp_all
  then show ?thesis using True by simp
next
  case False
  have "nb + 63 = 64 * (q + 1) + (r - 1)" using assms(1) by (simp add: algebra_simps)
  then have "(nb + 63) div 64 = q + 1" by (rule int_div_pos_eq) (use assms False in linarith)+
  then show ?thesis using False by simp
qed

lemma getWordNumberForBits_eq [srch2_bits]:
  "getWordNumberForBits nb = (nb + 63) div 64"
proof -
  have "(nb + 63) div 64 = (if nb mod 64 = 0 then nb div 64 else nb div 64 + 1)"
    by (rule div_add_63) simp_all
  then show ?thesis by (simp add: getWordNumberForBits_def int_shift_mask Let_def)
qed

lemma and_single_bit [srch2_bits]:
  assumes "n < 64" shows "(w :: u64) AND push_bit n 1 \<noteq> 0 \<longleftrightarrow> bit w n"
proof -
  have "bit (w AND push_bit n 1) k \<longleftrightarrow> bit w k \<and> k = n" for k
    using assms by (auto simp: bit_simps dest: bit_imp_le_length)
  then show ?thesis using assms by (auto simp: word_eq_0_iff_bits)
qed

lemma wordAt_Some:
  assumes "BitSet_ok bs" "0 \<le> index" "index < numBits bs"
  obtains b where "bits bs = Some b" "nat (index div 64) < length b"
    "wordAt index bs = Some (b, nat (index div 64), push_bit (nat (index mod 64)) 1,
       b ! nat (index div 64))"
proof -
  obtain b where b: "bits bs = Some b" "int (length b) = (numBits bs + 63) div 64"
    using assms(1) by (auto simp: BitSet_ok_def srch2_bits split: option.splits)
  have "index div 64 < (numBits bs + 63) div 64" using assms(3) by linarith
  then have "nat (index div 64) < length b" using b assms by linarith
  then show thesis
    by (intro that [OF b(1)]) (use assms b in \<open>simp_all add: wordAt_def srch2_bits nth_opt_def Let_def\<close>)
qed

lemma wordAt_None: "\<not> (0 \<le> index \<and> index < numBits bs) \<Longrightarrow> wordAt index bs = None"
  by (auto simp: wordAt_def)

text \<open>Two indices select the same bit of the words only when they are equal.\<close>

lemma word_bit_index_eq:
  "0 \<le> i \<Longrightarrow> 0 \<le> (j :: int) \<Longrightarrow> nat (i div 64) = nat (j div 64) \<Longrightarrow> nat (i mod 64) = nat (j mod 64)
    \<Longrightarrow> i = j"
  by (metis div_mult_mod_eq eq_nat_nat_iff pos_imp_zdiv_nonneg_iff pos_mod_sign zero_less_numeral)

lemma elems_update:
  fixes b :: "u64 list"
  assumes "bits bs = Some b" "nat (index div 64) < length b" "0 \<le> index" "index < numBits bs"
    and upd: "\<And>n. n < 64 \<Longrightarrow> bit w n \<longleftrightarrow>
      (if n = nat (index mod 64) then on else bit (b ! nat (index div 64)) n)"
  shows "elems (bs\<lparr>bits := Some (b[nat (index div 64) := w])\<rparr>)
    = (if on then insert index (elems bs) else elems bs - {index})"
proof -
  have "bit (b[nat (index div 64) := w] ! nat (j div 64)) (nat (j mod 64)) \<longleftrightarrow>
    (if j = index then on else bit (b ! nat (j div 64)) (nat (j mod 64)))" if j: "0 \<le> j" for j
  proof -
    have m: "nat (j mod 64) < 64" by simp
    show ?thesis
    proof (cases "j = index")
      case True
      then show ?thesis using assms(2) upd [OF m] by simp
    next
      case False
      then show ?thesis
        using word_bit_index_eq [OF j assms(3)] upd [OF m] assms(2)
        by (auto simp: nth_list_update)
    qed
  qed
  then show ?thesis using assms(1,3,4) by (auto simp: elems_def split: if_splits)
qed

lemma BitSet_ok_update:
  "BitSet_ok bs \<Longrightarrow> bits bs = Some b \<Longrightarrow> BitSet_ok (bs\<lparr>bits := Some (b[k := w])\<rparr>)"
  by (simp add: BitSet_ok_def)

text \<open>
  On a well-formed bit set and an index in range every accessor succeeds and has its set
  meaning: \<open>get\<close> is membership; \<open>set\<close> and \<open>getAndSet\<close> insert the index, \<open>clear\<close> and
  \<open>getAndClear\<close> remove it, no other element changes, and the two combined operations return the
  old membership; well-formedness is kept.
\<close>

theorem BitSet_operations:
  assumes "BitSet_ok bs" "0 \<le> index" "index < numBits bs"
  shows "get index bs = Some (index \<in> elems bs)
    \<and> (\<exists>bs'. set_bit_at index bs = Some bs' \<and> getAndSet index bs = Some (index \<in> elems bs, bs')
        \<and> BitSet_ok bs' \<and> numBits bs' = numBits bs \<and> elems bs' = insert index (elems bs))
    \<and> (\<exists>bs'. clear_bit_at index bs = Some bs' \<and> getAndClear index bs = Some (index \<in> elems bs, bs')
        \<and> BitSet_ok bs' \<and> numBits bs' = numBits bs \<and> elems bs' = elems bs - {index})"
proof -
  obtain b where b: "bits bs = Some b" "nat (index div 64) < length b"
    "wordAt index bs = Some (b, nat (index div 64), push_bit (nat (index mod 64)) 1,
       b ! nat (index div 64))"
    using wordAt_Some [OF assms] .
  let ?w = "b ! nat (index div 64)" and ?m = "push_bit (nat (index mod 64)) (1 :: u64)"
  have m: "nat (index mod 64) < 64" by simp
  have mem: "?w AND ?m \<noteq> 0 \<longleftrightarrow> index \<in> elems bs"
    using and_single_bit [OF m] assms b(1) by (simp add: elems_def)
  have "elems (bs\<lparr>bits := Some (b[nat (index div 64) := ?w OR ?m])\<rparr>) = insert index (elems bs)"
    by (subst elems_update [where on = True, OF b(1,2) assms(2,3)]) (auto simp: bit_simps)
  moreover have "elems (bs\<lparr>bits := Some (b[nat (index div 64) := ?w AND NOT ?m])\<rparr>)
    = elems bs - {index}"
    by (subst elems_update [where on = False, OF b(1,2) assms(2,3)]) (auto simp: bit_simps)
  ultimately show ?thesis
    unfolding get_def set_bit_at_def getAndSet_def clear_bit_at_def getAndClear_def b(3)
    using BitSet_ok_update [OF assms(1) b(1)] mem by (simp del: push_bit_of_1)
qed

definition sampleSet :: BitSet where
  "sampleSet = \<lparr>bits = Some [5, 0, 1], numBits = 130, wordLength = 3\<rparr>"

theorem BitSet_operations_witness:
  "get 128 sampleSet = Some True \<and> get 2 sampleSet = Some (2 \<in> elems sampleSet)"
proof -
  have ok: "BitSet_ok sampleSet" by code_simp
  have r: "(0::int) \<le> 2" "2 < numBits sampleSet" by (simp_all add: sampleSet_def)
  have "get 128 sampleSet = Some True" by code_simp
  with BitSet_operations [OF ok r] show ?thesis by blast
qed

lemma bit_copy_low_bytes [srch2_bits]:
  "bit (copy_low_bytes k dst src) n \<longleftrightarrow> (if n < 8 * k then bit src n else bit dst n)"
  by (auto simp: copy_low_bytes_def bit_simps dest: bit_imp_le_length)

lemma memcpy_words_bit:
  assumes "memcpy_words dst src n = Some b" "i < length dst" "m < 64"
  shows "length b = length dst
    \<and> (bit (b ! i) m \<longleftrightarrow> (if 64 * i + m < 8 * n then bit (src ! i) m else bit (dst ! i) m))"
  using assms by (auto simp: memcpy_words_def srch2_bits split: if_splits)

lemma get_eq:
  assumes "0 \<le> index" "index < numBits bs" "bits bs = Some b" "nat (index div 64) < length b"
  shows "get index bs = Some (bit (b ! nat (index div 64)) (nat (index mod 64)))"
proof -
  have "nat (index mod 64) < 64" by simp
  from and_single_bit [OF this] show ?thesis
    using assms by (simp add: get_def wordAt_def int_shift_mask nth_opt_def Let_def del: push_bit_of_1)
qed

text \<open>
  The copy constructor passes a number of words to \<^verbatim>\<open>memcpy\<close>, which counts bytes. The copy
  of a well-formed set of \<open>w\<close> words therefore has the bits of the original only below \<open>8 * w\<close>;
  every later bit is whatever the freshly allocated memory held.
\<close>

theorem BitSet_copy_loses_bits:
  assumes "BitSet_ok bs" "0 \<le> index" "index < numBits bs"
  shows "\<exists>bs'. BitSet_copy fresh bs = Some bs'
    \<and> get index bs' = (if index < 8 * wordLength bs then get index bs
        else Some (bit (fresh (nat (index div 64))) (nat (index mod 64))))"
proof -
  obtain b where b: "bits bs = Some b" "nat (index div 64) < length b"
    using wordAt_Some [OF assms] by blast
  have wl: "wordLength bs = int (length b)"
    using assms(1) b by (simp add: BitSet_ok_def)
  obtain c where c: "memcpy_words (alloc fresh (wordLength bs)) b (nat (wordLength bs)) = Some c"
    by (simp add: memcpy_words_def wl alloc_def)
  let ?i = "nat (index div 64)" and ?m = "nat (index mod 64)"
  let ?bs = "\<lparr>bits = Some c, numBits = numBits bs, wordLength = wordLength bs\<rparr>"
  have "int (64 * ?i + ?m) = index" using assms(2) by (simp add: pos_imp_zdiv_nonneg_iff)
  then have below: "64 * ?i + ?m < 8 * length b \<longleftrightarrow> index < 8 * wordLength bs"
    using wl by linarith
  have "length c = length b
    \<and> (bit (c ! ?i) ?m \<longleftrightarrow> (if index < 8 * wordLength bs then bit (b ! ?i) ?m else bit (fresh ?i) ?m))"
    using memcpy_words_bit [OF c, of ?i ?m] b(2) below by (simp add: alloc_def wl)
  moreover have "BitSet_copy fresh bs = Some ?bs" by (simp add: BitSet_copy_def b c)
  ultimately show ?thesis
    using get_eq [OF assms(2,3) b] get_eq [of index ?bs c] assms b by auto
qed

theorem BitSet_copy_loses_bits_witness:
  "\<exists>bs'. BitSet_copy (\<lambda>_. 0) sampleSet = Some bs' \<and> get 128 sampleSet = Some True
    \<and> get 128 bs' = Some False"
proof -
  have ok: "BitSet_ok sampleSet" by code_simp
  have r: "(0::int) \<le> 128" "128 < numBits sampleSet" by (simp_all add: sampleSet_def)
  have "get 128 sampleSet = Some True" by code_simp
  with BitSet_copy_loses_bits [OF ok r, of "\<lambda>_. 0"] show ?thesis
    by (auto simp: sampleSet_def)
qed

section \<open>The iterator enumerates the set\<close>

text \<open>
  The set bits of a word in ascending order, the positions coded by a table entry, and the ids
  an iterator still has to deliver: those of the current byte (\<open>indexArray\<close>), those of the rest
  of the current word, and those of the later words.
\<close>

definition wbits :: "u64 \<Rightarrow> nat list" where
  "wbits w = filter (bit w) [0..<64]"

fun nibbles :: "nat \<Rightarrow> u32 \<Rightarrow> int list" where
  "nibbles 0 a = []"
| "nibbles (Suc n) a = (if a = 0 then [] else uint (a AND 0x0f) # nibbles n (drop_bit 4 a))"

definition laterIds :: "u64 list \<Rightarrow> int \<Rightarrow> int list" where
  "laterIds b j = concat (map (\<lambda>k. map (\<lambda>n. int k * 64 + int n) (wbits (b ! k))) [nat j..<length b])"

definition pending :: "BitSetIterator \<Rightarrow> int list" where
  "pending it =
    map (\<lambda>d. pos it * 64 + wordShift it + d) (nibbles 8 (indexArray it))
    @ map (\<lambda>k. pos it * 64 + wordShift it + 9 + int k) (wbits (drop_bit 8 (word it)))
    @ laterIds (it_bits it) (pos it + 1)"

definition it_ok :: "BitSetIterator \<Rightarrow> bool" where
  "it_ok it \<longleftrightarrow> words it = int (length (it_bits it)) \<and> -1 \<le> pos it
    \<and> (\<forall>x \<in> set (pending it). x < NO_MORE_RECORDS)"

lemma wbits_split:
  assumes "n \<le> 64"
  shows "wbits w = filter (bit w) [0..<n] @ map (\<lambda>k. n + k) (wbits (drop_bit n w))"
proof -
  have "[0..<64] = [0..<n] @ [n..<64]" using assms upt_add_eq_append [of 0 n "64 - n"] by simp
  moreover have "[n..<64] = map (\<lambda>k. n + k) [0..<64 - n]"
    using assms map_add_upt [of n "64 - n"] by (simp add: add.commute)
  moreover have "wbits (drop_bit n w) = filter (\<lambda>k. bit w (n + k)) [0..<64 - n]"
  proof -
    have "[0..<64] = [0..<64 - n] @ [64 - n..<64]"
      using assms upt_add_eq_append [of 0 "64 - n" n] by simp
    moreover have "filter (bit (drop_bit n w)) [64 - n..<64] = []"
      by (auto simp: filter_empty_conv bit_simps dest!: bit_imp_le_length)
    ultimately show ?thesis by (simp add: wbits_def bit_drop_bit_eq comp_def)
  qed
  ultimately show ?thesis by (simp add: wbits_def filter_map comp_def)
qed

lemma wbits_skip:
  assumes "n \<le> 64" "take_bit n w = 0"
  shows "wbits w = map (\<lambda>k. n + k) (wbits (drop_bit n w))"
proof -
  have "\<not> bit w k" if "k < n" for k
    using that assms bit_take_bit_iff [of n w k] by simp
  then show ?thesis using wbits_split [OF assms(1), of w] by (simp add: filter_empty_conv)
qed

lemma wbits_Nil [simp]: "wbits w = [] \<longleftrightarrow> w = 0"
  by (auto simp: wbits_def filter_empty_conv word_eq_0_iff_bits)

text \<open>
  The table, rebuilt bit by bit: \<open>bitTable n\<close> lists the codes of the numbers whose bits are the
  bits \<open>8 - n, ..., 7\<close> of the byte.
\<close>

fun bitTable :: "nat \<Rightarrow> int list" where
  "bitTable 0 = [0]"
| "bitTable (Suc n) = concat (map (\<lambda>a. [a, 16 * a + int (8 - n)]) (bitTable n))"

lemma bitList_eq: "bitList = bitTable 8"
  by code_simp

fun nibs :: "nat \<Rightarrow> int \<Rightarrow> int list" where
  "nibs 0 a = []"
| "nibs (Suc n) a = (if a = 0 then [] else a mod 16 # nibs n (a div 16))"

lemma nibs_0 [simp]: "nibs n 0 = []" by (cases n) simp_all

lemma nibs_stable: "0 \<le> a \<Longrightarrow> a < 16 ^ n \<Longrightarrow> nibs (Suc n) a = nibs n a"
proof (induction n arbitrary: a)
  case (Suc n)
  then have "a div 16 < 16 ^ n" "0 \<le> a div 16" by (auto simp: div_less_iff_less_mult pos_imp_zdiv_nonneg_iff)
  from Suc.IH [OF this(2,1)] show ?case by (metis nibs.simps(2))
qed simp

lemma nibs_code: "0 \<le> a \<Longrightarrow> 0 < d \<Longrightarrow> d < 16 \<Longrightarrow> nibs (Suc n) (16 * a + d) = d # nibs n a"
  by simp

lemma nth_concat_pairs:
  "b < 2 * length xs \<Longrightarrow>
    concat (map (\<lambda>a. [f a, g a]) xs) ! b = (if even b then f (xs ! (b div 2)) else g (xs ! (b div 2)))"
proof (induction xs arbitrary: b)
  case (Cons x xs)
  consider "b = 0" | "b = 1" | c where "b = c + 2" by (metis One_nat_def add_2_eq_Suc' not0_implies_Suc)
  then show ?case using Cons by cases auto
qed simp

lemma length_concat_pairs: "length (concat (map (\<lambda>a. [f a, g a]) xs)) = 2 * length xs"
  by (induction xs) simp_all

definition setBitsFrom :: "nat \<Rightarrow> nat \<Rightarrow> int list" where
  "setBitsFrom k b = map (\<lambda>j. int j + 1) (filter (\<lambda>j. bit b (j - k)) [k..<8])"

lemma setBitsFrom_step:
  assumes "k < 8"
  shows "setBitsFrom k b = (if odd b then [int k + 1] else []) @ setBitsFrom (Suc k) (b div 2)"
proof -
  have "filter (\<lambda>j. bit b (j - k)) [Suc k..<8] = filter (\<lambda>j. bit (b div 2) (j - Suc k)) [Suc k..<8]"
  proof (rule filter_cong [OF refl])
    fix j assume "j \<in> set [Suc k..<8]"
    then have "j - k = Suc (j - Suc k)" by auto
    then show "bit b (j - k) = bit (b div 2) (j - Suc k)" by (simp add: bit_Suc)
  qed
  moreover have "[k..<8] = k # [Suc k..<8]" using assms by (simp add: upt_conv_Cons)
  ultimately show ?thesis by (simp add: setBitsFrom_def bit_0)
qed

lemma bitTable_nibs:
  assumes "n \<le> 8"
  shows "length (bitTable n) = 2 ^ n
    \<and> (\<forall>b < 2 ^ n. 0 \<le> bitTable n ! b \<and> bitTable n ! b < 16 ^ n
        \<and> nibs n (bitTable n ! b) = setBitsFrom (8 - n) b)"
  using assms
proof (induction n)
  case 0
  then show ?case by (simp add: setBitsFrom_def)
next
  case (Suc n)
  note IH = Suc.IH [OF Suc_leD [OF Suc.prems]]
  have k: "8 - Suc n < 8" "Suc (8 - Suc n) = 8 - n" "int (8 - Suc n) + 1 = int (8 - n)"
    "0 < int (8 - n)" "int (8 - n) < 16"
    using Suc.prems by auto
  have "0 \<le> bitTable (Suc n) ! b \<and> bitTable (Suc n) ! b < 16 ^ Suc n
        \<and> nibs (Suc n) (bitTable (Suc n) ! b) = setBitsFrom (8 - Suc n) b"
    if b: "b < 2 ^ Suc n" for b
  proof -
    let ?a = "bitTable n ! (b div 2)"
    have a: "0 \<le> ?a" "?a < 16 ^ n" "nibs n ?a = setBitsFrom (8 - n) (b div 2)"
      using IH b by auto
    have "bitTable (Suc n) ! b = (if even b then ?a else 16 * ?a + int (8 - n))"
      using nth_concat_pairs [of b "bitTable n" "\<lambda>a. a" "\<lambda>a. 16 * a + int (8 - n)"] IH b by simp
    then show ?thesis
      using a k setBitsFrom_step [OF k(1), of b] nibs_stable [OF a(1,2)]
        nibs_code [OF a(1) k(4,5), of n]
      by (simp del: nibs.simps)
  qed
  then show ?case using IH by (simp add: length_concat_pairs)
qed

lemma uint_low_nibble: "uint (a AND 0x0f :: u32) = uint a mod 16"
proof -
  have "a AND 0x0f = take_bit 4 a" using take_bit_eq_mask [of 4 a] by (simp add: mask_eq_exp_minus_1)
  then show ?thesis by (simp add: take_bit_eq_mod uint_mod)
qed

lemma uint_next_nibble: "uint (drop_bit 4 a :: u32) = uint a div 16"
  by (simp add: drop_bit_eq_div uint_div)

lemma nibbles_nibs: "nibbles n a = nibs n (uint a)"
proof (induction n arbitrary: a)
  case (Suc n)
  show ?case by (simp add: Suc.IH uint_low_nibble uint_next_nibble unsigned_eq_0_iff)
qed simp

lemma nibbles_bitList:
  assumes "b < 256"
  shows "nibbles 8 (word_of_int (bitList ! b)) = setBitsFrom 0 b"
proof -
  have t: "0 \<le> bitList ! b" "bitList ! b < 16 ^ 8" "nibs 8 (bitList ! b) = setBitsFrom 0 b"
    using bitTable_nibs [of 8] assms by (simp_all add: bitList_eq del: bitTable.simps)
  then have "uint (word_of_int (bitList ! b) :: u32) = bitList ! b"
    by (simp add: uint_word_of_int_eq take_bit_int_eq_self)
  then show ?thesis using t by (simp add: nibbles_nibs)
qed

lemma nibbles_unfold:
  assumes "a \<noteq> 0"
  shows "nibbles 8 a = uint (a AND 0x0f) # nibbles 8 (drop_bit 4 a)"
proof -
  have "uint a div 16 < 16 ^ 7" using uint_lt2p [of a] by (simp add: div_less_iff_less_mult)
  then have "nibs (Suc 7) (uint (drop_bit 4 a)) = nibs 7 (uint (drop_bit 4 a))"
    unfolding uint_next_nibble by (intro nibs_stable) (simp_all add: pos_imp_zdiv_nonneg_iff)
  then have "nibbles 8 (drop_bit 4 a) = nibbles 7 (drop_bit 4 a)" by (simp add: nibbles_nibs)
  moreover have "nibbles (Suc 7) a = uint (a AND 0x0f) # nibbles 7 (drop_bit 4 a)"
    using assms by (simp only: nibbles.simps if_False)
  ultimately show ?thesis by simp
qed

lemma nibbles_0 [simp]: "nibbles n 0 = []" by (cases n) simp_all

subsection \<open>The steps of the iterator\<close>

definition wordIds :: "BitSetIterator \<Rightarrow> int list" where
  "wordIds it = map (\<lambda>k. wordShift it + 1 + int k) (wbits (word it))"

definition skipLow :: "nat \<Rightarrow> BitSetIterator \<Rightarrow> BitSetIterator" where
  "skipLow n it = (if take_bit n (word it) = 0
     then it\<lparr>wordShift := wordShift it + int n, word := drop_bit n (word it)\<rparr> else it)"

lemma low_bits_zero:
  "(ucast (w :: u64) :: u32) = 0 \<longleftrightarrow> take_bit 32 w = 0"
  "w AND 0x0000FFFF = 0 \<longleftrightarrow> take_bit 16 w = 0"
  "w AND 0x000000FF = 0 \<longleftrightarrow> take_bit 8 w = 0"
proof -
  show "(ucast w :: u32) = 0 \<longleftrightarrow> take_bit 32 w = 0"
    by (auto simp: bit_eq_iff bit_simps)
qed (simp_all add: take_bit_eq_mask mask_eq_exp_minus_1)

lemma low_byte_index:
  "unat ((ucast (w :: u64) :: u32) AND 0xff) = unat (take_bit 8 w)"
proof -
  have "(ucast w :: u32) AND 0xff = ucast (take_bit 8 w)"
    using take_bit_eq_mask [of 8 "ucast w :: u32"]
    by (simp add: mask_eq_exp_minus_1 unsigned_take_bit_eq)
  then show ?thesis by (simp add: unsigned_ucast_eq unsigned_take_bit_eq)
qed

lemma shift_eq:
  "shift it = (let it = skipLow 8 (skipLow 16 (skipLow 32 it))
     in it\<lparr>indexArray := word_of_int (bitList ! unat (take_bit 8 (word it)))\<rparr>)"
  unfolding shift_def skipLow_def low_bits_zero low_byte_index Let_def by simp

lemma skipLow_frame [simp]:
  "it_bits (skipLow n it) = it_bits it" "words (skipLow n it) = words it"
  "pos (skipLow n it) = pos it" "curRecordId (skipLow n it) = curRecordId it"
  by (simp_all add: skipLow_def)

lemma wordIds_skipLow: "n \<le> 64 \<Longrightarrow> wordIds (skipLow n it) = wordIds it"
  by (auto simp: skipLow_def wordIds_def wbits_skip)

lemma take_bit_eq_0_iff_bits: "take_bit n (w :: u64) = 0 \<longleftrightarrow> (\<forall>k < n. \<not> bit w k)"
  using bit_imp_le_length [of w] by (fastforce simp: bit_eq_iff bit_take_bit_iff)

lemma take_bit_skipLow:
  assumes "take_bit (n + n) (word it) \<noteq> 0"
  shows "take_bit n (word (skipLow n it)) \<noteq> 0"
proof
  assume a: "take_bit n (word (skipLow n it)) = 0"
  then have z: "take_bit n (word it) = 0" by (simp add: skipLow_def split: if_splits)
  have "\<not> bit (word it) k" if "k < n + n" for k
  proof (cases "k < n")
    case False
    then have "bit (word it) k = bit (drop_bit n (word it)) (k - n)" by (simp add: bit_drop_bit_eq)
    then show ?thesis using a z that False by (simp add: skipLow_def take_bit_eq_0_iff_bits)
  qed (use z in \<open>simp add: take_bit_eq_0_iff_bits\<close>)
  then show False using assms by (simp add: take_bit_eq_0_iff_bits)
qed

text \<open>\<open>shift\<close> moves to the lowest non-zero byte of the word and loses no bit.\<close>

lemma shift_correct:
  assumes "word it \<noteq> 0"
  shows "it_bits (shift it) = it_bits it" "words (shift it) = words it" "pos (shift it) = pos it"
    "indexArray (shift it) \<noteq> 0"
    "map (\<lambda>d. wordShift (shift it) + d) (nibbles 8 (indexArray (shift it)))
      @ map (\<lambda>k. wordShift (shift it) + 9 + int k) (wbits (drop_bit 8 (word (shift it))))
      = wordIds it"
proof -
  define it' where "it' = skipLow 8 (skipLow 16 (skipLow 32 it))"
  let ?b = "unat (take_bit 8 (word it'))"
  have s: "shift it = it'\<lparr>indexArray := word_of_int (bitList ! ?b)\<rparr>"
    by (simp add: shift_eq it'_def Let_def)
  show "it_bits (shift it) = it_bits it" "words (shift it) = words it" "pos (shift it) = pos it"
    by (simp_all add: s it'_def)
  have "take_bit (32 + 32) (word it) \<noteq> 0" using assms by (simp add: take_bit_word_eq_self)
  from take_bit_skipLow [OF this] have "take_bit (16 + 16) (word (skipLow 32 it)) \<noteq> 0" by simp
  from take_bit_skipLow [OF this] have "take_bit (8 + 8) (word (skipLow 16 (skipLow 32 it))) \<noteq> 0"
    by simp
  from take_bit_skipLow [OF this] have low: "take_bit 8 (word it') \<noteq> 0" by (simp add: it'_def)
  have "?b < 256"
    using take_bit_nat_less_exp [of 8 "unat (word it')"] by (simp add: unsigned_take_bit_eq)
  from nibbles_bitList [OF this]
  have n: "nibbles 8 (word_of_int (bitList ! ?b)) = map (\<lambda>j. int j + 1) (filter (bit (word it')) [0..<8])"
    by (simp add: setBitsFrom_def unsigned_take_bit_eq bit_take_bit_iff bit_unsigned_iff)
      (rule arg_cong [where f = "map _"], rule filter_cong, simp_all)
  have "filter (bit (word it')) [0..<8] \<noteq> []"
    using low by (auto simp: filter_empty_conv take_bit_eq_0_iff_bits)
  then have "word_of_int (bitList ! ?b) \<noteq> (0 :: u32)" using n by auto
  then show "indexArray (shift it) \<noteq> 0" by (simp add: s)
  have "wordIds it' = wordIds it" by (simp add: it'_def wordIds_skipLow)
  moreover have "wordIds it' = map (\<lambda>k. wordShift it' + 1 + int k) (filter (bit (word it')) [0..<8])
      @ map (\<lambda>k. wordShift it' + 9 + int k) (wbits (drop_bit 8 (word it')))"
    unfolding wordIds_def by (subst wbits_split [of 8]) (simp_all add: comp_def algebra_simps)
  ultimately show "map (\<lambda>d. wordShift (shift it) + d) (nibbles 8 (indexArray (shift it)))
      @ map (\<lambda>k. wordShift (shift it) + 9 + int k) (wbits (drop_bit 8 (word (shift it))))
      = wordIds it"
    by (simp add: s n comp_def algebra_simps)
qed

lemma laterIds_end [simp]: "int (length b) \<le> j \<Longrightarrow> laterIds b j = []"
  by (simp add: laterIds_def)

lemma laterIds_step:
  assumes "0 \<le> j" "j < int (length b)"
  shows "laterIds b j = map (\<lambda>n. j * 64 + int n) (wbits (b ! nat j)) @ laterIds b (j + 1)"
proof -
  have "[nat j..<length b] = nat j # [nat (j + 1)..<length b]"
    using assms by (simp add: upt_conv_Cons nat_add_distrib)
  then show ?thesis using assms by (simp add: laterIds_def)
qed

text \<open>The scan for the next non-empty word ends, stays inside the words and skips no id.\<close>

lemma skipEmptyWords_correct:
  assumes "words it = int (length (it_bits it))" "-1 \<le> pos it"
  shows "\<exists>found it'. skipEmptyWords it = Some (found, it')
    \<and> it_bits it' = it_bits it \<and> words it' = words it \<and> -1 \<le> pos it' \<and> indexArray it' = indexArray it
    \<and> (found \<longleftrightarrow> word it = 0 \<and> laterIds (it_bits it) (pos it + 1) = [])
    \<and> (found \<longrightarrow> word it' = 0 \<and> laterIds (it_bits it) (pos it' + 1) = [])
    \<and> (\<not> found \<longrightarrow> word it' \<noteq> 0
        \<and> map (\<lambda>x. pos it' * 64 + x) (wordIds it') @ laterIds (it_bits it) (pos it' + 1)
          = map (\<lambda>x. pos it * 64 + x) (wordIds it) @ laterIds (it_bits it) (pos it + 1))"
  using assms
proof (induction it rule: skipEmptyWords.induct)
  case (1 it)
  let ?i = "pos it + 1"
  show ?case
  proof (cases "word it \<noteq> 0")
    case True
    then show ?thesis
      using 1 by (intro exI [of _ False] exI [of _ it]) (subst skipEmptyWords.simps, simp)
  next
    case False
    note w0 = False
    show ?thesis
    proof (cases "?i \<ge> words it")
      case True
      then show ?thesis using w0 1 by (subst skipEmptyWords.simps) (auto simp: Let_def)
    next
      case False
      then have r: "0 \<le> ?i" "?i < int (length (it_bits it))" "nat ?i < length (it_bits it)"
        using 1 by auto
      let ?it = "it\<lparr>pos := ?i, word := it_bits it ! nat ?i, wordShift := -1\<rparr>"
      have e: "skipEmptyWords it = skipEmptyWords ?it"
        using w0 r False by (subst skipEmptyWords.simps) (simp add: Let_def nth_opt_def)
      have st: "map (\<lambda>x. pos it * 64 + x) (wordIds it) @ laterIds (it_bits it) ?i
        = map (\<lambda>x. pos ?it * 64 + x) (wordIds ?it) @ laterIds (it_bits it) (pos ?it + 1)"
        using w0 laterIds_step [OF r(1,2)] by (simp add: wordIds_def wbits_def)
      have q: "(word it = 0 \<and> laterIds (it_bits it) ?i = [])
        = (word ?it = 0 \<and> laterIds (it_bits ?it) (pos ?it + 1) = [])"
        using w0 laterIds_step [OF r(1,2)] by simp
      have "nth_opt (it_bits it) (nat ?i) = Some (it_bits it ! nat ?i)" using r by (simp add: nth_opt_def)
      with 1(1) [of "it\<lparr>pos := ?i\<rparr>" "it_bits it ! nat ?i"] show ?thesis
        unfolding e st q using w0 r False 1(2,3) by simp
    qed
  qed
qed

lemma takeIndex_correct:
  assumes "indexArray it \<noteq> 0"
  shows "pending it = fst (takeIndex it) # pending (snd (takeIndex it))"
  using nibbles_unfold [OF assms]
  by (simp add: pending_def takeIndex_def Let_def int_shift_mask algebra_simps)

lemma takeIndex_frame [simp]:
  "it_bits (snd (takeIndex it)) = it_bits it" "words (snd (takeIndex it)) = words it"
  "pos (snd (takeIndex it)) = pos it"
  by (simp_all add: takeIndex_def Let_def)

lemma pending_shift:
  assumes "word it \<noteq> 0"
  shows "pending (shift it) = map (\<lambda>x. pos it * 64 + x) (wordIds it) @ laterIds (it_bits it) (pos it + 1)"
proof -
  have "pending (shift it) = map (\<lambda>x. pos it * 64 + x)
      (map (\<lambda>d. wordShift (shift it) + d) (nibbles 8 (indexArray (shift it)))
        @ map (\<lambda>k. wordShift (shift it) + 9 + int k) (wbits (drop_bit 8 (word (shift it)))))
      @ laterIds (it_bits it) (pos it + 1)"
    by (simp add: pending_def shift_correct(1-3) [OF assms] comp_def algebra_simps)
  then show ?thesis by (simp only: shift_correct(5) [OF assms])
qed

text \<open>What a step delivers, as a relation between the ids expected and the outcome of a call.\<close>

definition delivers :: "BitSetIterator \<Rightarrow> int list \<Rightarrow> (int \<times> BitSetIterator) option \<Rightarrow> bool" where
  "delivers it ids result \<longleftrightarrow> (\<exists>r it'. result = Some (r, it')
    \<and> it_bits it' = it_bits it \<and> words it' = words it \<and> -1 \<le> pos it'
    \<and> pending it' = tl ids \<and> r = (case ids of [] \<Rightarrow> NO_MORE_RECORDS | x # _ \<Rightarrow> x))"

lemma delivers_takeIndex:
  assumes "indexArray it' \<noteq> 0" "pending it' = ids" "it_bits it' = it_bits it"
    "words it' = words it" "-1 \<le> pos it'"
  shows "delivers it ids (Some (takeIndex it'))"
proof -
  obtain r j where j: "takeIndex it' = (r, j)" by (cases "takeIndex it'")
  with takeIndex_correct [OF assms(1)] takeIndex_frame [of it'] assms show ?thesis
    unfolding delivers_def by (intro exI [of _ r] exI [of _ j]) auto
qed

lemma delivers_skipEmptyWords:
  assumes "words it = int (length (it_bits it))" "-1 \<le> pos it" "indexArray it = 0"
    and ids: "ids = map (\<lambda>x. pos it * 64 + x) (wordIds it) @ laterIds (it_bits it) (pos it + 1)"
  shows "delivers it ids (case skipEmptyWords it of
        None \<Rightarrow> None
      | Some (True, it') \<Rightarrow> Some (NO_MORE_RECORDS, it'\<lparr>wordShift := f it'\<rparr>)
      | Some (False, it') \<Rightarrow> Some (takeIndex (shift it')))"
proof -
  obtain found it' where sk: "skipEmptyWords it = Some (found, it')"
    "it_bits it' = it_bits it" "words it' = words it" "-1 \<le> pos it'" "indexArray it' = indexArray it"
    "found \<longleftrightarrow> word it = 0 \<and> laterIds (it_bits it) (pos it + 1) = []"
    "found \<Longrightarrow> word it' = 0 \<and> laterIds (it_bits it) (pos it' + 1) = []"
    "\<not> found \<Longrightarrow> word it' \<noteq> 0
        \<and> map (\<lambda>x. pos it' * 64 + x) (wordIds it') @ laterIds (it_bits it) (pos it' + 1) = ids"
    using skipEmptyWords_correct [OF assms(1,2)] ids by blast
  show ?thesis
  proof (cases found)
    case True
    then have "ids = []" "word it' = 0" "laterIds (it_bits it) (pos it' + 1) = []"
      using sk ids by (simp_all add: wordIds_def wbits_def)
    moreover have "skipEmptyWords it = Some (True, it')" using sk(1) True by simp
    ultimately show ?thesis using sk(2-5) assms(3)
      by (auto simp: delivers_def pending_def wbits_def)
  next
    case False
    then have nz: "word it' \<noteq> 0" using sk(8) by blast
    have "pending (shift it') = ids" using pending_shift [OF nz] sk(2,8) False by simp
    from delivers_takeIndex [OF shift_correct(4) [OF nz] this, of it]
    have "delivers it ids (Some (takeIndex (shift it')))"
      using sk(2-4) by (simp add: shift_correct(1-3) [OF nz])
    moreover have "skipEmptyWords it = Some (False, it')" using sk(1) False by simp
    ultimately show ?thesis by simp
  qed
qed

lemma wordShift_self: "it\<lparr>wordShift := wordShift it\<rparr> = it"
  by simp

lemma getNextRecordId_delivers:
  assumes "words it = int (length (it_bits it))" "-1 \<le> pos it"
  shows "delivers it (pending it) (getNextRecordId it)"
proof (cases "indexArray it = 0")
  case False
  then show ?thesis using assms by (simp add: getNextRecordId_def delivers_takeIndex)
next
  case True
  define it1 where "it1 = (if word it \<noteq> 0
     then it\<lparr>word := drop_bit 8 (word it), wordShift := wordShift it + 8\<rparr> else it)"
  have it1: "it_bits it1 = it_bits it" "words it1 = words it" "pos it1 = pos it" "indexArray it1 = 0"
    using True by (simp_all add: it1_def)
  have p: "pending it = map (\<lambda>x. pos it1 * 64 + x) (wordIds it1) @ laterIds (it_bits it1) (pos it1 + 1)"
    using True by (simp add: pending_def it1_def wordIds_def wbits_def algebra_simps comp_def)
  have e: "getNextRecordId it = (case skipEmptyWords it1 of
        None \<Rightarrow> None
      | Some (True, it') \<Rightarrow> Some (NO_MORE_RECORDS, it'\<lparr>wordShift := wordShift it'\<rparr>)
      | Some (False, it') \<Rightarrow> Some (takeIndex (shift it')))"
    using True
    by (simp add: getNextRecordId_def it1_def [symmetric] Let_def cong: if_cong)
      (simp add: wordShift_self split: option.split prod.split bool.split)
  have "delivers it1 (pending it) (getNextRecordId it)"
    unfolding e by (rule delivers_skipEmptyWords) (use assms it1 p in simp_all)
  then show ?thesis by (simp add: delivers_def it1)
qed

text \<open>The ids of the words from \<open>target\<close> on.\<close>

lemma laterIds_bounds: "x \<in> set (laterIds b j) \<Longrightarrow> 0 \<le> j \<Longrightarrow> j * 64 \<le> x \<and> x < 64 * int (length b)"
  by (auto simp: laterIds_def wbits_def)

lemma div_64_bounds: "t div 64 * 64 \<le> (t :: int)" "t < (t div 64 + 1) * 64"
proof -
  have "q * 64 \<le> t \<and> t < (q + 1) * 64" if "t = 64 * q + r" "0 \<le> r" "r < 64" for q r :: int
    using that by simp
  from this [of "t div 64" "t mod 64"] show "t div 64 * 64 \<le> t" "t < (t div 64 + 1) * 64" by simp_all
qed

lemma filter_word_ids:
  fixes t :: int
  assumes "0 \<le> t"
  shows "filter (\<lambda>x. t \<le> x) (map (\<lambda>n. t div 64 * 64 + int n) (wbits w))
    = map (\<lambda>n. t + int n) (wbits (drop_bit (nat (t mod 64)) w))"
proof -
  let ?m = "nat (t mod 64)"
  have m: "?m \<le> 64" "t = t div 64 * 64 + int ?m" using assms by simp_all
  have "wbits w = filter (bit w) [0..<?m] @ map (\<lambda>k. ?m + k) (wbits (drop_bit ?m w))"
    by (rule wbits_split) (fact m(1))
  then have "map (\<lambda>n. t div 64 * 64 + int n) (wbits w)
    = map (\<lambda>n. t div 64 * 64 + int n) (filter (bit w) [0..<?m])
      @ map (\<lambda>n. t + int n) (wbits (drop_bit ?m w))"
    using m(2) by (simp add: comp_def)
  moreover have "filter (\<lambda>x. t \<le> x) (map (\<lambda>n. t div 64 * 64 + int n) (filter (bit w) [0..<?m])) = []"
  proof -
    have "t div 64 * 64 + int n < t" if "n < ?m" for n
      using that m(2) by (metis add_strict_left_mono of_nat_less_iff)
    then show ?thesis by (force simp: filter_empty_conv)
  qed
  moreover have "filter (\<lambda>x. t \<le> x) (map (\<lambda>n. t + int n) (wbits (drop_bit ?m w)))
      = map (\<lambda>n. t + int n) (wbits (drop_bit ?m w))"
    by (simp add: filter_id_conv)
  ultimately show ?thesis by simp
qed

lemma filter_laterIds:
  assumes "0 \<le> j" "j \<le> t div 64" "t div 64 < int (length b)"
  shows "filter (\<lambda>x. t \<le> x) (laterIds b j)
    = map (\<lambda>n. t + int n) (wbits (drop_bit (nat (t mod 64)) (b ! nat (t div 64))))
      @ laterIds b (t div 64 + 1)"
  using assms
proof (induction "nat (t div 64 - j)" arbitrary: j)
  case 0
  then have j: "j = t div 64" and t: "0 \<le> t" by (auto simp: pos_imp_zdiv_nonneg_iff)
  have "\<forall>x \<in> set (laterIds b (t div 64 + 1)). t \<le> x"
  proof
    fix x assume "x \<in> set (laterIds b (t div 64 + 1))"
    then have "(t div 64 + 1) * 64 \<le> x" using laterIds_bounds 0 j by fastforce
    then show "t \<le> x" using div_64_bounds(2) [of t] by linarith
  qed
  then have "filter (\<lambda>x. t \<le> x) (laterIds b (t div 64 + 1)) = laterIds b (t div 64 + 1)"
    by (rule filter_True)
  then show ?case
    unfolding j using laterIds_step [of "t div 64" b] filter_word_ids [OF t, of "b ! nat (t div 64)"] 0(2,4) j
    by (simp only: filter_append)
next
  case (Suc n)
  then have lt: "j + 1 \<le> t div 64" by auto
  have "j * 64 + int k < t" if "k \<in> set (wbits w)" for k w
  proof -
    have "int k < 64" using that by (auto simp: wbits_def)
    then have "j * 64 + int k < (j + 1) * 64" by simp
    also have "\<dots> \<le> t div 64 * 64" using lt by simp
    also have "\<dots> \<le> t" by (rule div_64_bounds)
    finally show ?thesis .
  qed
  then have "filter (\<lambda>x. t \<le> x) (map (\<lambda>k. j * 64 + int k) (wbits (b ! nat j))) = []"
    by (force simp: filter_empty_conv)
  then have "filter (\<lambda>x. t \<le> x) (laterIds b j) = filter (\<lambda>x. t \<le> x) (laterIds b (j + 1))"
    using laterIds_step [of j b] Suc.prems by simp
  then show ?case using Suc.hyps(1) [of "j + 1"] Suc.hyps(2) Suc.prems lt by simp
qed

lemma advance_delivers:
  assumes "words it = int (length (it_bits it))" "0 \<le> target"
  shows "delivers it (filter (\<lambda>x. target \<le> x) (laterIds (it_bits it) 0)) (advance target it)"
    (is "delivers it ?ids _")
proof (cases "words it \<le> target div 64")
  case True
  have "\<not> target \<le> x" if "x \<in> set (laterIds (it_bits it) 0)" for x
  proof -
    have "x < 64 * int (length (it_bits it))" using laterIds_bounds [OF that] by simp
    then show ?thesis using True assms(1) div_64_bounds(1) [of target] by linarith
  qed
  then have "?ids = []" by (simp add: filter_empty_conv)
  then show ?thesis using True assms
    by (simp add: delivers_def advance_def Let_def int_shift_mask pending_def wbits_def
        pos_imp_zdiv_nonneg_iff order_trans [of "-1" 0])
next
  case False
  have r: "0 \<le> target div 64" "target div 64 < int (length (it_bits it))"
    "nat (target div 64) < length (it_bits it)"
    using False assms by (auto simp: pos_imp_zdiv_nonneg_iff nat_less_iff)
  let ?w = "it_bits it ! nat (target div 64)"
  let ?it = "it\<lparr>indexArray := 0, pos := target div 64, wordShift := target mod 64,
     word := drop_bit (nat (target mod 64)) ?w\<rparr>"
  note ids = filter_laterIds [OF order_refl r(1,2)]
  show ?thesis
  proof (cases "word ?it = 0")
    case True
    have "advance target it = (case skipEmptyWords ?it of
        None \<Rightarrow> None
      | Some (True, it') \<Rightarrow> Some (NO_MORE_RECORDS, it'\<lparr>wordShift := target mod 64\<rparr>)
      | Some (False, it') \<Rightarrow> Some (takeIndex (shift it')))"
      using True r False by (simp add: advance_def Let_def int_shift_mask nth_opt_def)
    moreover have "delivers ?it ?ids \<dots>"
      by (rule delivers_skipEmptyWords) (use True assms r ids in \<open>simp_all add: wordIds_def wbits_def\<close>)
    ultimately show ?thesis by (simp add: delivers_def)
  next
    case nz: False
    define jt where "jt = ?it\<lparr>wordShift := target mod 64 - 1\<rparr>"
    have nz': "word jt \<noteq> 0" using nz by (simp add: jt_def)
    have e: "advance target it = Some (takeIndex (shift jt))"
      using nz r False by (simp add: advance_def Let_def int_shift_mask nth_opt_def jt_def)
    have "pending (shift jt) = ?ids"
      using pending_shift [OF nz'] ids div_mult_mod_eq [of target 64]
      by (simp add: wordIds_def comp_def add.assoc [symmetric] jt_def)
    moreover have "it_bits jt = it_bits it" "words jt = words it" "-1 \<le> pos jt"
      using r(1) by (simp_all add: jt_def)
    ultimately show ?thesis
      unfolding e by (intro delivers_takeIndex) (simp_all add: shift_correct(1-4) [OF nz'])
  qed
qed

subsection \<open>Iterating over a set\<close>

text \<open>
  \<open>getNextRecordId\<close> as the \<open>getNext\<close> of the stream interface: \<open>NO_MORE_RECORDS\<close> is the end.
\<close>

definition nextRecordId :: "BitSetIterator \<Rightarrow> (int option \<times> BitSetIterator) option" where
  "nextRecordId it = map_option (\<lambda>(r, it'). (if r = NO_MORE_RECORDS then None else Some r, it'))
     (getNextRecordId it)"

interpretation bit_set_stream: record_stream nextRecordId id pending it_ok
proof
  fix it assume ok: "it_ok it" and p: "pending it = []"
  with getNextRecordId_delivers [of it] obtain it' where
    "getNextRecordId it = Some (NO_MORE_RECORDS, it')" "it_bits it' = it_bits it"
    "words it' = words it" "-1 \<le> pos it'" "pending it' = []"
    by (auto simp: delivers_def it_ok_def)
  then show "\<exists>s'. nextRecordId it = Some (None, s') \<and> it_ok s' \<and> pending s' = []"
    using ok by (simp add: nextRecordId_def it_ok_def)
next
  fix it x xs assume ok: "it_ok it" and p: "pending it = x # xs"
  with getNextRecordId_delivers [of it] obtain it' where
    "getNextRecordId it = Some (x, it')" "it_bits it' = it_bits it"
    "words it' = words it" "-1 \<le> pos it'" "pending it' = xs"
    by (auto simp: delivers_def it_ok_def)
  moreover have "x \<noteq> NO_MORE_RECORDS" using ok p by (simp add: it_ok_def)
  ultimately show "\<exists>y s'. nextRecordId it = Some (Some y, s') \<and> id y = x \<and> it_ok s' \<and> pending s' = xs"
    using ok p by (simp add: nextRecordId_def it_ok_def)
qed

lemma bit_set_drain: "it_ok it \<Longrightarrow> drain nextRecordId n it = Some (take n (pending it))"
  using bit_set_stream.drain_take [of it n] by auto

text \<open>The padding bits of the last word are zero: what \<open>resize\<close> and the setters keep.\<close>

definition padding_clear :: "BitSet \<Rightarrow> bool" where
  "padding_clear bs \<longleftrightarrow>
    list_all (\<lambda>x. x < numBits bs) (laterIds (case bits bs of None \<Rightarrow> [] | Some b \<Rightarrow> b) 0)"

lemma sorted_laterIds: "sorted_wrt (<) (laterIds b j)"
proof -
  have "sorted_wrt (<) (concat (map (\<lambda>k. map (\<lambda>n. int k * 64 + int n) (wbits (b ! k))) [i..<m]))"
    for i m
  proof (induction m)
    case (Suc m)
    show ?case
    proof (cases "i \<le> m")
      case True
      have "sorted_wrt (<) (wbits w)" for w
        unfolding wbits_def by (rule sorted_wrt_filter) simp
      then have "sorted_wrt (<) (map (\<lambda>n. int m * 64 + int n) (wbits (b ! m)))"
        by (simp add: sorted_wrt_map)
      moreover have "int k * 64 + int n < int m * 64 + int n'"
        if "k < m" "n \<in> set (wbits w)" for k n n' w
      proof -
        have "int n < 64" "int k + 1 \<le> int m" using that by (auto simp: wbits_def)
        then show ?thesis by linarith
      qed
      ultimately show ?thesis using True Suc by (auto simp: sorted_wrt_append)
    qed simp
  qed simp
  then show ?thesis by (simp add: laterIds_def)
qed

lemma laterIds_elems:
  assumes "BitSet_ok bs" "padding_clear bs" "bits bs = Some b"
  shows "laterIds b 0 = sorted_list_of_set (elems bs)"
proof -
  have len: "int (length b) = (numBits bs + 63) div 64"
    using assms(1,3) by (simp add: BitSet_ok_def srch2_bits)
  have "x \<in> elems bs" if x: "x \<in> set (laterIds b 0)" for x
  proof -
    obtain k n where "x = int k * 64 + int n" "k < length b" "n < 64" "bit (b ! k) n"
      using x by (auto simp: laterIds_def wbits_def)
    moreover have "x < numBits bs"
      using x assms(2,3) by (simp add: padding_clear_def list_all_iff)
    ultimately show ?thesis using assms(3) by (simp add: elems_def)
  qed
  moreover have "x \<in> set (laterIds b 0)" if x: "x \<in> elems bs" for x
  proof -
    have r: "0 \<le> x" "x < numBits bs" and bit: "bit (b ! nat (x div 64)) (nat (x mod 64))"
      using x assms(3) by (auto simp: elems_def)
    have "nat (x div 64) < length b" using wordAt_Some [OF assms(1) r] assms(3) by auto
    moreover have "nat (x mod 64) \<in> set (wbits (b ! nat (x div 64)))" using bit by (simp add: wbits_def)
    moreover have "x = int (nat (x div 64)) * 64 + int (nat (x mod 64))"
      using r(1) by (simp add: pos_imp_zdiv_nonneg_iff)
    ultimately show ?thesis unfolding laterIds_def by (simp only: set_concat set_map) force
  qed
  ultimately have "set (laterIds b 0) = elems bs" by blast
  moreover have "sorted (laterIds b 0)" "distinct (laterIds b 0)"
    using sorted_laterIds [of b 0] by (simp_all add: strict_sorted_iff)
  ultimately show ?thesis by (metis sorted_list_of_set.idem_if_sorted_distinct)
qed

lemma elems_bounds: "x \<in> elems bs \<Longrightarrow> 0 \<le> x \<and> x < numBits bs"
  by (simp add: elems_def)

lemma finite_elems: "finite (elems bs)"
  by (rule finite_subset [of _ "{0..<numBits bs}"]) (auto simp: elems_def)

lemma BitSet_iterator_Some:
  assumes "BitSet_ok bs" "padding_clear bs"
  obtains b where "BitSet_iterator bs = Some (BitSetIterator_new b (int (length b)))"
    "laterIds b 0 = sorted_list_of_set (elems bs)"
    "\<And>it. it_bits it = b \<Longrightarrow> words it = int (length b) \<Longrightarrow> -1 \<le> pos it \<Longrightarrow>
      set (pending it) \<subseteq> elems bs \<Longrightarrow> it_ok it"
proof -
  obtain b where b: "bits bs = Some b" "int (length b) = wordLength bs" "numBits bs < 2 ^ 31"
    using assms(1) by (auto simp: BitSet_ok_def split: option.splits)
  show thesis
  proof (rule that)
    show "BitSet_iterator bs = Some (BitSetIterator_new b (int (length b)))"
      by (simp add: BitSet_iterator_def b)
    show "laterIds b 0 = sorted_list_of_set (elems bs)"
      by (rule laterIds_elems [OF assms b(1)])
    show "it_ok it" if "it_bits it = b" "words it = int (length b)" "-1 \<le> pos it"
      "set (pending it) \<subseteq> elems bs" for it
      using that b(3) elems_bounds [of _ bs]
      by (fastforce simp: it_ok_def NO_MORE_RECORDS_def)
  qed
qed

text \<open>
  C30. The iterator of a well-formed bit set whose padding bits are zero delivers exactly the
  elements of the set, in ascending order and without repetition, and then reports the end:
  calling it \<open>n\<close> times yields the first \<open>n\<close> elements.
\<close>

theorem BitSetIterator_enumerates:
  assumes "BitSet_ok bs" "padding_clear bs"
  shows "\<exists>it. BitSet_iterator bs = Some it
    \<and> drain nextRecordId n it = Some (take n (sorted_list_of_set (elems bs)))"
proof -
  obtain b where b: "BitSet_iterator bs = Some (BitSetIterator_new b (int (length b)))"
    "laterIds b 0 = sorted_list_of_set (elems bs)"
    "\<And>it. it_bits it = b \<Longrightarrow> words it = int (length b) \<Longrightarrow> -1 \<le> pos it \<Longrightarrow>
      set (pending it) \<subseteq> elems bs \<Longrightarrow> it_ok it"
    using BitSet_iterator_Some [OF assms] by blast
  let ?it = "BitSetIterator_new b (int (length b))"
  have p: "pending ?it = sorted_list_of_set (elems bs)"
    using b(2) by (simp add: pending_def BitSetIterator_new_def wbits_def)
  have "it_ok ?it"
    by (rule b(3)) (simp_all add: p finite_elems, simp_all add: BitSetIterator_new_def)
  then show ?thesis using b(1) bit_set_drain [of ?it n] p by auto
qed

theorem BitSetIterator_enumerates_witness:
  "\<exists>it. BitSet_iterator sampleSet = Some it
    \<and> drain nextRecordId 2 it = Some (take 2 (sorted_list_of_set (elems sampleSet)))
    \<and> drain nextRecordId 4 (BitSetIterator_new [5, 0, 1] 3) = Some [0, 2, 128]"
proof -
  have "BitSet_ok sampleSet" "padding_clear sampleSet" by code_simp+
  moreover have "drain nextRecordId 4 (BitSetIterator_new [5, 0, 1] 3) = Some [0, 2, 128]" by code_simp
  ultimately show ?thesis using BitSetIterator_enumerates [of sampleSet 2] by blast
qed

text \<open>
  From any position of the iteration, \<open>advance target\<close> returns the least element of the set
  that is at least \<open>target\<close>, or \<open>NO_MORE_RECORDS\<close> when there is none, and the iteration then
  continues with the elements after it.
\<close>

theorem BitSetIterator_advance:
  assumes "BitSet_ok bs" "padding_clear bs" "0 \<le> target"
    and "BitSet_iterator bs = Some it0" "it_bits it = it_bits it0" "words it = words it0"
  shows "\<exists>r it'. advance target it = Some (r, it')
    \<and> (if \<exists>x \<in> elems bs. target \<le> x
       then r = Min {x \<in> elems bs. target \<le> x}
         \<and> drain nextRecordId n it' = Some (take n (sorted_list_of_set {x \<in> elems bs. r < x}))
       else r = NO_MORE_RECORDS \<and> drain nextRecordId n it' = Some [])"
proof -
  obtain b where b: "BitSet_iterator bs = Some (BitSetIterator_new b (int (length b)))"
    "laterIds b 0 = sorted_list_of_set (elems bs)"
    "\<And>it. it_bits it = b \<Longrightarrow> words it = int (length b) \<Longrightarrow> -1 \<le> pos it \<Longrightarrow>
      set (pending it) \<subseteq> elems bs \<Longrightarrow> it_ok it"
    using BitSet_iterator_Some [OF assms(1,2)] by blast
  have it: "it_bits it = b" "words it = int (length b)"
    using b(1) assms(4-6) by (auto simp: BitSetIterator_new_def)
  let ?A = "{x \<in> elems bs. target \<le> x}"
  have fin: "finite ?A" using finite_elems by simp
  have "filter (\<lambda>x. target \<le> x) (laterIds (it_bits it) 0) = sorted_list_of_set ?A"
    unfolding it(1) b(2) by (rule filter_sorted_list_of_set) (rule finite_elems)
  then have "delivers it (sorted_list_of_set ?A) (advance target it)"
    using advance_delivers [of it target] it assms(3) by simp
  then obtain r it' where adv: "advance target it = Some (r, it')"
    "it_bits it' = b" "words it' = int (length b)" "-1 \<le> pos it'"
    "pending it' = tl (sorted_list_of_set ?A)"
    "r = (case sorted_list_of_set ?A of [] \<Rightarrow> NO_MORE_RECORDS | x # _ \<Rightarrow> x)"
    unfolding delivers_def it by blast
  have "set (pending it') \<subseteq> set (sorted_list_of_set ?A)"
    unfolding adv(5) by (cases "sorted_list_of_set ?A") auto
  then have "it_ok it'" using b(3) adv(2-4) fin by auto
  note d = bit_set_drain [OF this, of n, unfolded adv(5)]
  show ?thesis
  proof (cases "?A = {}")
    case True
    then have "r = NO_MORE_RECORDS" "drain nextRecordId n it' = Some []" using adv(6) d unfolding True by simp_all
    then show ?thesis using adv(1) True by auto
  next
    case False
    then have l: "sorted_list_of_set ?A = Min ?A # sorted_list_of_set (?A - {Min ?A})"
      using fin by (rule sorted_list_of_set_nonempty [rotated])
    have "?A - {Min ?A} = {x \<in> elems bs. Min ?A < x}"
      using Min_in [OF fin False] Min_le [OF fin] by (auto simp: less_le dest: order_trans)
    moreover have "\<exists>x \<in> elems bs. target \<le> x" using False by blast
    ultimately show ?thesis using adv(1,6) d l by auto
  qed
qed

theorem BitSetIterator_advance_witness:
  "\<exists>r it'. advance 3 (BitSetIterator_new [5, 0, 1] 3) = Some (r, it') \<and> r = 128
    \<and> drain nextRecordId 5 it' = Some (take 5 (sorted_list_of_set {x \<in> elems sampleSet. 128 < x}))"
proof -
  let ?it = "BitSetIterator_new [5, 0, 1] 3"
  have h: "BitSet_ok sampleSet" "padding_clear sampleSet" by code_simp+
  have i: "BitSet_iterator sampleSet = Some ?it"
    by (simp add: BitSet_iterator_def sampleSet_def BitSetIterator_new_def)
  have "map_option fst (advance 3 ?it) = Some 128" by code_simp
  moreover have "128 \<in> elems sampleSet" by (simp add: elems_def sampleSet_def)
  ultimately show ?thesis
    using BitSetIterator_advance [OF h _ i refl refl, of 3 5] by (auto split: if_splits)
qed

end
