(* ===== verification/Lru_Cache.thy ===== *)
theory Lru_Cache
  imports Srch2_Prelude "HOL-Library.Monad_Syntax"
begin

unbundle bit_operations_syntax

text \<open>
  The LRU cache container, \<^verbatim>\<open>src/src/core/operation/CacheBase.h\<close>. The doubly linked list of
  hashed keys lives in an explicit store from addresses to list elements; \<open>None\<close> as a result is an
  \<^verbatim>\<open>ASSERT\<close> failure, the use of a null or dangling pointer, or a loop that does not end. Every
  public operation holds the unique lock of the container from beginning to end, so operations are
  atomic steps. \<open>objBytes\<close> is \<open>getNumberOfBytes\<close> of the cached object type.
\<close>

section \<open>Entries\<close>

record 'a CacheEntry =
  key :: string
  objectPointer :: 'a
  numberOfBytes :: u32

definition CacheEntry_new :: "string \<Rightarrow> 'a \<Rightarrow> 'a CacheEntry" where
  "CacheEntry_new k obj = \<lparr>key = k, objectPointer = obj, numberOfBytes = 0\<rparr>"

text \<open>Sizes of the types on a 64-bit platform: \<^verbatim>\<open>unsigned\<close>, \<^verbatim>\<open>std::string\<close>, a pointer and the
  list element (two pointers and a padded \<^verbatim>\<open>unsigned\<close>).\<close>

definition sizeof_unsigned :: u32 where "sizeof_unsigned = 4"
definition sizeof_string :: u32 where "sizeof_string = 32"
definition sizeof_pointer :: u32 where "sizeof_pointer = 8"
definition sizeof_ListElement :: u32 where "sizeof_ListElement = 24"

text \<open>The size is computed at the first call and kept in the entry.\<close>

definition getNumberOfBytes :: "('a \<Rightarrow> u32) \<Rightarrow> 'a CacheEntry \<Rightarrow> u32 \<times> 'a CacheEntry" where
  "getNumberOfBytes objBytes e =
    (let e = if numberOfBytes e = 0
             then e\<lparr>numberOfBytes := sizeof_unsigned + sizeof_string + objBytes (objectPointer e)\<rparr>
             else e
     in (numberOfBytes e, e))"

definition getNumberOfBytesUsedByEntry :: "('a \<Rightarrow> u32) \<Rightarrow> 'a CacheEntry \<Rightarrow> u32 \<times> 'a CacheEntry" where
  "getNumberOfBytesUsedByEntry objBytes e =
    (let (n, e) = getNumberOfBytes objBytes e
     in (n + sizeof_unsigned + sizeof_pointer + sizeof_ListElement, e))"

section \<open>The container\<close>

type_synonym addr = nat

record HashedKeyLinkListElement =
  next_elem :: "addr option"
  previous :: "addr option"
  hashedKey :: u32

definition newListElement :: "u32 \<Rightarrow> HashedKeyLinkListElement" where
  "newListElement hk = \<lparr>next_elem = None, previous = None, hashedKey = hk\<rparr>"

record 'a CacheContainer =
  cacheEntries :: "u32 \<rightharpoonup> 'a CacheEntry \<times> addr"
  elementsLinkListFirst :: "addr option"
  elementsLinkListLast :: "addr option"
  cacheTotalByteBudget :: u64
  totalSizeUsed :: u32
  heap :: "addr \<rightharpoonup> HashedKeyLinkListElement"
  brk :: addr

definition CacheContainer_new :: "u64 \<Rightarrow> 'a CacheContainer" where
  "CacheContainer_new byteSizeOfCache =
    \<lparr>cacheEntries = Map.empty, elementsLinkListFirst = None, elementsLinkListLast = None,
     cacheTotalByteBudget = byteSizeOfCache, totalSizeUsed = 0, heap = Map.empty, brk = 0\<rparr>"

text \<open>Pointer accesses. \<open>brk\<close> is the allocator: the next address never handed out.\<close>

definition assert_ok :: "bool \<Rightarrow> unit option" where
  "assert_ok b = (if b then Some () else None)"

definition deref :: "'a CacheContainer \<Rightarrow> addr option \<Rightarrow> HashedKeyLinkListElement option" where
  "deref c p = (case p of None \<Rightarrow> None | Some a \<Rightarrow> heap c a)"

definition set_next :: "addr option \<Rightarrow> addr option \<Rightarrow> 'a CacheContainer \<Rightarrow> 'a CacheContainer option" where
  "set_next p v c = (case p of None \<Rightarrow> None | Some a \<Rightarrow> (case heap c a of None \<Rightarrow> None
     | Some n \<Rightarrow> Some (c\<lparr>heap := (heap c)(a \<mapsto> n\<lparr>next_elem := v\<rparr>)\<rparr>)))"

definition set_previous :: "addr option \<Rightarrow> addr option \<Rightarrow> 'a CacheContainer \<Rightarrow> 'a CacheContainer option" where
  "set_previous p v c = (case p of None \<Rightarrow> None | Some a \<Rightarrow> (case heap c a of None \<Rightarrow> None
     | Some n \<Rightarrow> Some (c\<lparr>heap := (heap c)(a \<mapsto> n\<lparr>previous := v\<rparr>)\<rparr>)))"

definition new_element :: "u32 \<Rightarrow> 'a CacheContainer \<Rightarrow> addr \<times> 'a CacheContainer" where
  "new_element hk c = (brk c, c\<lparr>heap := (heap c)(brk c \<mapsto> newListElement hk), brk := brk c + 1\<rparr>)"

definition delete_element :: "addr option \<Rightarrow> 'a CacheContainer \<Rightarrow> 'a CacheContainer option" where
  "delete_element p c = (case p of None \<Rightarrow> Some c | Some a \<Rightarrow>
     (if a \<in> dom (heap c) then Some (c\<lparr>heap := (heap c)(a := None)\<rparr>) else None))"

section \<open>The linked list\<close>

definition addNewElementToLinkList :: "u32 \<Rightarrow> 'a CacheContainer \<Rightarrow> 'a CacheContainer option" where
  "addNewElementToLinkList hk c = do {
     assert_ok ((elementsLinkListFirst c = None \<and> elementsLinkListLast c = None)
       \<or> (elementsLinkListFirst c \<noteq> None \<and> elementsLinkListLast c \<noteq> None));
     if elementsLinkListFirst c = None \<and> elementsLinkListLast c = None then
       let (a, c) = new_element hk c
       in Some (c\<lparr>elementsLinkListFirst := Some a, elementsLinkListLast := Some a\<rparr>)
     else do {
       l \<leftarrow> deref c (elementsLinkListLast c);
       assert_ok (next_elem l = None);
       let (a, c) = new_element hk c;
       c \<leftarrow> set_next (elementsLinkListLast c) (Some a) c;
       l \<leftarrow> deref c (elementsLinkListLast c);
       c \<leftarrow> set_previous (next_elem l) (elementsLinkListLast c) c;
       l \<leftarrow> deref c (elementsLinkListLast c);
       Some (c\<lparr>elementsLinkListLast := next_elem l\<rparr>)
     }
   }"

text \<open>The result is the returned flag with the out-parameter: \<open>None\<close> for \<open>false\<close>.\<close>

definition removeTheOldestElementFromLinkList ::
  "'a CacheContainer \<Rightarrow> (u32 option \<times> 'a CacheContainer) option" where
  "removeTheOldestElementFromLinkList c = do {
     assert_ok ((elementsLinkListFirst c = None \<and> elementsLinkListLast c = None)
       \<or> (elementsLinkListFirst c \<noteq> None \<and> elementsLinkListLast c \<noteq> None));
     if elementsLinkListFirst c = None \<and> elementsLinkListLast c = None then Some (None, c)
     else if elementsLinkListFirst c = elementsLinkListLast c then do {
       f \<leftarrow> deref c (elementsLinkListFirst c);
       c \<leftarrow> delete_element (elementsLinkListFirst c) c;
       Some (Some (hashedKey f), c\<lparr>elementsLinkListFirst := None, elementsLinkListLast := None\<rparr>)
     } else do {
       f \<leftarrow> deref c (elementsLinkListFirst c);
       let newFirst = next_elem f;
       n \<leftarrow> deref c newFirst;
       assert_ok (previous n = elementsLinkListFirst c);
       c \<leftarrow> set_previous newFirst None c;
       f \<leftarrow> deref c (elementsLinkListFirst c);
       c \<leftarrow> delete_element (elementsLinkListFirst c) c;
       Some (Some (hashedKey f), c\<lparr>elementsLinkListFirst := newFirst\<rparr>)
     }
   }"

definition moveLinkedListElementToLast :: "addr option \<Rightarrow> 'a CacheContainer \<Rightarrow> 'a CacheContainer option" where
  "moveLinkedListElementToLast element c = do {
     assert_ok (element \<noteq> None);
     assert_ok (\<not> (elementsLinkListFirst c = None \<or> elementsLinkListLast c = None));
     if elementsLinkListFirst c = elementsLinkListLast c then Some c
     else if element = elementsLinkListLast c then do {
       e \<leftarrow> deref c element;
       assert_ok (next_elem e = None);
       Some c
     } else if element = elementsLinkListFirst c then do {
       e \<leftarrow> deref c element;
       assert_ok (previous e = None);
       n \<leftarrow> deref c (next_elem e);
       assert_ok (previous n = element);
       let c = c\<lparr>elementsLinkListFirst := next_elem e\<rparr>;
       c \<leftarrow> set_previous (elementsLinkListFirst c) None c;
       l \<leftarrow> deref c (elementsLinkListLast c);
       assert_ok (next_elem l = None);
       c \<leftarrow> set_next (elementsLinkListLast c) element c;
       c \<leftarrow> set_previous element (elementsLinkListLast c) c;
       c \<leftarrow> set_next element None c;
       Some (c\<lparr>elementsLinkListLast := element\<rparr>)
     } else do {
       e \<leftarrow> deref c element;
       c \<leftarrow> set_next (previous e) (next_elem e) c;
       e \<leftarrow> deref c element;
       c \<leftarrow> set_previous (next_elem e) (previous e) c;
       c \<leftarrow> set_previous element None c;
       c \<leftarrow> set_next element None c;
       l \<leftarrow> deref c (elementsLinkListLast c);
       assert_ok (next_elem l = None);
       c \<leftarrow> set_next (elementsLinkListLast c) element c;
       c \<leftarrow> set_previous element (elementsLinkListLast c) c;
       Some (c\<lparr>elementsLinkListLast := element\<rparr>)
     }
   }"

section \<open>Operations\<close>

definition LRUCacheReplacementPolicyKickoutOneEntry ::
  "('a \<Rightarrow> u32) \<Rightarrow> 'a CacheContainer \<Rightarrow> 'a CacheContainer option" where
  "LRUCacheReplacementPolicyKickoutOneEntry objBytes c = do {
     (r, c) \<leftarrow> removeTheOldestElementFromLinkList c;
     case r of
       None \<Rightarrow> Some c
     | Some hashedKeyToRemove \<Rightarrow> do {
         (e, a) \<leftarrow> cacheEntries c hashedKeyToRemove;
         let n = fst (getNumberOfBytesUsedByEntry objBytes e);
         let c = c\<lparr>cacheEntries := (cacheEntries c)(hashedKeyToRemove := None)\<rparr>;
         assert_ok (totalSizeUsed c \<ge> n);
         Some (c\<lparr>totalSizeUsed := totalSizeUsed c - n\<rparr>)
       }
   }"

text \<open>\<^verbatim>\<open>char\<close> is signed: a byte above 127 is sign-extended when it is assigned to \<^verbatim>\<open>unsigned c\<close>.\<close>

definition char_to_unsigned :: "char \<Rightarrow> u32" where
  "char_to_unsigned ch = signed_take_bit 7 (of_char ch)"

fun hashDJB2_loop :: "u32 \<Rightarrow> string \<Rightarrow> u32" where
  "hashDJB2_loop hash [] = (push_bit 5 hash + hash) + 0"
| "hashDJB2_loop hash (ch # str) =
    (let c = char_to_unsigned ch; hash = (push_bit 5 hash + hash) + c
     in if c = 0 then hash else hashDJB2_loop hash str)"

definition hashDJB2 :: "string \<Rightarrow> u32" where
  "hashDJB2 str = hashDJB2_loop 5381 str"

definition fits :: "u32 \<Rightarrow> 'a CacheContainer \<Rightarrow> bool" where
  "fits n c \<longleftrightarrow> (ucast n :: u64) \<le> cacheTotalByteBudget c - ucast (totalSizeUsed c)"

partial_function (option) kickoutLoop :: "('a \<Rightarrow> u32) \<Rightarrow> u32 \<Rightarrow> 'a CacheContainer \<Rightarrow> 'a CacheContainer option" where
  "kickoutLoop objBytes n c = do {
     c \<leftarrow> LRUCacheReplacementPolicyKickoutOneEntry objBytes c;
     if fits n c then Some c else kickoutLoop objBytes n c
   }"

declare kickoutLoop.simps [code]

text \<open>The second half of \<open>put\<close>: the entry replaces the one with its hashed key, or is appended.\<close>

definition insertNewEntry ::
  "('a \<Rightarrow> u32) \<Rightarrow> u32 \<Rightarrow> 'a CacheEntry \<Rightarrow> u32 \<Rightarrow> 'a CacheContainer \<Rightarrow> 'a CacheContainer option" where
  "insertNewEntry objBytes needed newEntry newEntryHashedKey c =
    (case cacheEntries c newEntryHashedKey of
       Some (oldEntry, elem) \<Rightarrow> do {
         let sizeOfEntryToRemove = fst (getNumberOfBytesUsedByEntry objBytes oldEntry);
         let c = c\<lparr>totalSizeUsed := totalSizeUsed c + needed\<rparr>;
         assert_ok (totalSizeUsed c \<ge> sizeOfEntryToRemove);
         let c = c\<lparr>totalSizeUsed := totalSizeUsed c - sizeOfEntryToRemove\<rparr>;
         assert_ok ((ucast (totalSizeUsed c) :: u64) \<le> cacheTotalByteBudget c);
         let c = c\<lparr>cacheEntries := (cacheEntries c)(newEntryHashedKey \<mapsto> (newEntry, elem))\<rparr>;
         moveLinkedListElementToLast (Some elem) c
       }
     | None \<Rightarrow> do {
         c \<leftarrow> addNewElementToLinkList newEntryHashedKey c;
         a \<leftarrow> elementsLinkListLast c;
         let c = c\<lparr>cacheEntries := (cacheEntries c)(newEntryHashedKey \<mapsto> (newEntry, a)),
                   totalSizeUsed := totalSizeUsed c + needed\<rparr>;
         assert_ok ((ucast (totalSizeUsed c) :: u64) \<le> cacheTotalByteBudget c);
         Some c
       })"

definition put :: "('a \<Rightarrow> u32) \<Rightarrow> string \<Rightarrow> 'a \<Rightarrow> 'a CacheContainer \<Rightarrow> (bool \<times> 'a CacheContainer) option" where
  "put objBytes k obj c = do {
     let (needed, newEntry) = getNumberOfBytesUsedByEntry objBytes (CacheEntry_new k obj);
     if (ucast needed :: u64) > cacheTotalByteBudget c then Some (False, c)
     else do {
       c \<leftarrow> (if \<not> fits needed c then kickoutLoop objBytes needed c else Some c);
       c \<leftarrow> insertNewEntry objBytes needed newEntry (hashDJB2 k) c;
       Some (True, c)
     }
   }"

text \<open>The out-parameter is the object of a hit; \<open>None\<close> is the return value \<open>false\<close>.\<close>

definition get_entry :: "string \<Rightarrow> 'a CacheContainer \<Rightarrow> ('a option \<times> 'a CacheContainer) option" where
  "get_entry k c =
    (case cacheEntries c (hashDJB2 k) of
      None \<Rightarrow> Some (None, c)
    | Some (e, elem) \<Rightarrow>
       if key e \<noteq> k then Some (None, c)
       else do {
         c \<leftarrow> moveLinkedListElementToLast (Some elem) c;
         Some (Some (objectPointer e), c)
       })"

text \<open>The loop that deletes the list elements, in \<open>clear\<close> and in the destructor.\<close>

partial_function (option) deleteList :: "addr option \<Rightarrow> 'a CacheContainer \<Rightarrow> 'a CacheContainer option" where
  "deleteList nextToDelete c =
    (if nextToDelete = None then Some c
     else do {
       n \<leftarrow> deref c nextToDelete;
       c \<leftarrow> delete_element nextToDelete c;
       deleteList (next_elem n) c
     })"

declare deleteList.simps [code]

definition clear :: "'a CacheContainer \<Rightarrow> (bool \<times> 'a CacheContainer) option" where
  "clear c = do {
     let c = c\<lparr>cacheEntries := Map.empty\<rparr>;
     c \<leftarrow> deleteList (elementsLinkListFirst c) c;
     Some (True, c\<lparr>elementsLinkListFirst := None, elementsLinkListLast := None, totalSizeUsed := 0\<rparr>)
   }"

definition CacheContainer_destroy :: "'a CacheContainer \<Rightarrow> 'a CacheContainer option" where
  "CacheContainer_destroy c = do {
     c \<leftarrow> deleteList (elementsLinkListFirst c) c;
     Some (c\<lparr>cacheEntries := Map.empty\<rparr>)
   }"

section \<open>The consistency check of the code\<close>

partial_function (option) checkLinks :: "addr option \<Rightarrow> 'a CacheContainer \<Rightarrow> bool option" where
  "checkLinks nextToCheck c =
    (if nextToCheck = None then Some True
     else do {
       n \<leftarrow> deref c nextToCheck;
       okPrevious \<leftarrow> (if previous n = None then Some (nextToCheck = elementsLinkListFirst c)
                      else do { q \<leftarrow> deref c (previous n); Some (next_elem q = nextToCheck) });
       if \<not> okPrevious then Some False
       else do {
         okNext \<leftarrow> (if next_elem n = None then Some (nextToCheck = elementsLinkListLast c)
                    else do { q \<leftarrow> deref c (next_elem n); Some (previous q = nextToCheck) });
         if \<not> okNext then Some False else checkLinks (next_elem n) c
       }
     })"

declare checkLinks.simps [code]

text \<open>The inner loop over the list for one entry of the map; \<open>None\<close> inside is an early \<open>false\<close>.\<close>

partial_function (option) findNode ::
  "u32 \<Rightarrow> addr \<Rightarrow> bool \<Rightarrow> addr option \<Rightarrow> 'a CacheContainer \<Rightarrow> bool option option" where
  "findNode hk elem nodeFound nextToCheck c =
    (if nextToCheck = None then Some (Some nodeFound)
     else do {
       n \<leftarrow> deref c nextToCheck;
       if hk = hashedKey n then
         (if nextToCheck \<noteq> Some elem then Some None
          else if nodeFound then Some None
          else findNode hk elem True (next_elem n) c)
       else findNode hk elem nodeFound (next_elem n) c
     })"

declare findNode.simps [code]

fun checkEntries :: "('a \<Rightarrow> u32) \<Rightarrow> u32 list \<Rightarrow> u32 \<Rightarrow> 'a CacheContainer \<Rightarrow> u32 option option" where
  "checkEntries objBytes [] byteSize c = Some (Some byteSize)"
| "checkEntries objBytes (hk # hks) byteSize c = do {
     (e, elem) \<leftarrow> cacheEntries c hk;
     r \<leftarrow> findNode hk elem False (elementsLinkListFirst c) c;
     if r = Some True
     then checkEntries objBytes hks (byteSize + fst (getNumberOfBytesUsedByEntry objBytes e)) c
     else Some None
   }"

text \<open>The map is visited in the order of its keys.\<close>

definition checkCacheConsistency :: "('a \<Rightarrow> u32) \<Rightarrow> 'a CacheContainer \<Rightarrow> bool option" where
  "checkCacheConsistency objBytes c =
    (if elementsLinkListFirst c = None \<and> elementsLinkListLast c = None then Some True
     else if \<not> (elementsLinkListFirst c \<noteq> None \<and> elementsLinkListLast c \<noteq> None) then Some False
     else do {
       f \<leftarrow> deref c (elementsLinkListFirst c);
       if previous f \<noteq> None then Some False
       else do {
         linksOk \<leftarrow> checkLinks (elementsLinkListFirst c) c;
         if \<not> linksOk then Some False
         else do {
           r \<leftarrow> checkEntries objBytes (sorted_list_of_set (dom (cacheEntries c))) 0 c;
           Some (r = Some (totalSizeUsed c))
         }
       }
     })"

section \<open>The linked list represents a sequence\<close>

definition hd_opt :: "(addr \<times> u32) list \<Rightarrow> addr option \<Rightarrow> addr option" where
  "hd_opt ps n = (case ps of [] \<Rightarrow> n | p # _ \<Rightarrow> Some (fst p))"

definition last_opt :: "addr option \<Rightarrow> (addr \<times> u32) list \<Rightarrow> addr option" where
  "last_opt p ps = (if ps = [] then p else Some (fst (last ps)))"

lemma hd_opt_simps [simp]:
  "hd_opt [] n = n" "hd_opt (q # ps) n = Some (fst q)"
  "hd_opt (ps @ qs) n = hd_opt ps (hd_opt qs n)"
  by (auto simp: hd_opt_def split: list.split)

lemma last_opt_simps [simp]:
  "last_opt p [] = p" "last_opt p (ps @ [q]) = Some (fst q)"
  "last_opt p (q # ps) = last_opt (Some (fst q)) ps"
  "last_opt p (ps @ qs) = last_opt (last_opt p ps) qs"
  by (auto simp: last_opt_def)

lemma opt_None_iff [simp]:
  "hd_opt ps None = None \<longleftrightarrow> ps = []" "last_opt None ps = None \<longleftrightarrow> ps = []"
  by (auto simp: hd_opt_def last_opt_def split: list.split)

lemma opt_Some_ex [simp]: "\<exists>y. hd_opt ps (Some a) = Some y" "\<exists>y. last_opt (Some a) ps = Some y"
  by (auto simp: hd_opt_def last_opt_def split: list.split)

text \<open>\<open>seg h p ps n\<close>: the elements \<open>ps\<close> (address, hashed key) form a segment of the list between
  the element \<open>p\<close> before it and the element \<open>n\<close> after it.\<close>

fun seg :: "(addr \<rightharpoonup> HashedKeyLinkListElement) \<Rightarrow> addr option \<Rightarrow> (addr \<times> u32) list \<Rightarrow> addr option \<Rightarrow> bool"
where
  "seg h p [] n \<longleftrightarrow> True"
| "seg h p ((a, k) # ps) n \<longleftrightarrow>
    h a = Some \<lparr>next_elem = hd_opt ps n, previous = p, hashedKey = k\<rparr> \<and> seg h (Some a) ps n"

lemma seg_append [simp]:
  "seg h p (ps @ qs) n \<longleftrightarrow> seg h p ps (hd_opt qs n) \<and> seg h (last_opt p ps) qs n"
proof (induction ps arbitrary: p)
  case (Cons q ps)
  then show ?case by (cases q) simp
qed simp

lemma seg_frame: "a \<notin> fst ` set ps \<Longrightarrow> seg (h(a := v)) p ps n \<longleftrightarrow> seg h p ps n"
  by (induction ps arbitrary: p) auto

definition dll :: "'a CacheContainer \<Rightarrow> (addr \<times> u32) list \<Rightarrow> bool" where
  "dll c ps \<longleftrightarrow> distinct (map fst ps) \<and> dom (heap c) = fst ` set ps \<and> (\<forall>a k. (a, k) \<in> set ps \<longrightarrow> a < brk c)
    \<and> seg (heap c) None ps None
    \<and> elementsLinkListFirst c = hd_opt ps None \<and> elementsLinkListLast c = last_opt None ps"

text \<open>The fields the list operations leave alone.\<close>

definition sameEntries :: "'a CacheContainer \<Rightarrow> 'a CacheContainer \<Rightarrow> bool" where
  "sameEntries c c' \<longleftrightarrow> cacheEntries c' = cacheEntries c
    \<and> cacheTotalByteBudget c' = cacheTotalByteBudget c \<and> totalSizeUsed c' = totalSizeUsed c"

lemma dll_first_last: "dll c ps \<Longrightarrow>
    (elementsLinkListFirst c = None \<longleftrightarrow> ps = []) \<and> (elementsLinkListLast c = None \<longleftrightarrow> ps = [])"
  by (simp add: dll_def)

lemmas pointer_defs = deref_def set_next_def set_previous_def new_element_def delete_element_def
  assert_ok_def newListElement_def Let_def

lemma dll_brk: "dll c ps \<Longrightarrow> brk c \<notin> fst ` set ps"
  by (fastforce simp: dll_def)

lemma addNewElementToLinkList_dll:
  assumes "dll c ps"
  shows "\<exists>c'. addNewElementToLinkList hk c = Some c' \<and> dll c' (ps @ [(brk c, hk)])
    \<and> sameEntries c c' \<and> elementsLinkListLast c' = Some (brk c)"
proof (cases ps rule: rev_cases)
  case Nil
  then show ?thesis using assms
    by (simp add: addNewElementToLinkList_def dll_def sameEntries_def pointer_defs)
next
  case (snoc qs q)
  obtain l k where q: "q = (l, k)" by (cases q)
  have l: "l < brk c" "l \<notin> fst ` set qs" "brk c \<notin> fst ` set qs"
    "heap c l = Some \<lparr>next_elem = None, previous = last_opt None qs, hashedKey = k\<rparr>"
    "elementsLinkListLast c = Some l" "elementsLinkListFirst c \<noteq> None"
    using assms snoc q dll_brk [OF assms] by (auto simp: dll_def)
  then show ?thesis using assms snoc q
    by (auto simp: addNewElementToLinkList_def dll_def sameEntries_def pointer_defs seg_frame
        intro: less_SucI)
qed

lemma delete_only_element: "dom h = {a} \<Longrightarrow> h(a := None) = Map.empty"
  by (auto simp: fun_eq_iff dom_def)

lemma removeTheOldestElementFromLinkList_dll:
  assumes "dll c ((a, hk) # ps)"
  shows "\<exists>c'. removeTheOldestElementFromLinkList c = Some (Some hk, c') \<and> dll c' ps \<and> sameEntries c c'"
proof (cases ps)
  case Nil
  then show ?thesis using assms
    by (auto simp: removeTheOldestElementFromLinkList_def dll_def sameEntries_def pointer_defs
        delete_only_element)
next
  case (Cons q qs)
  obtain b k where q: "q = (b, k)" by (cases q)
  have "a \<noteq> b" "a \<notin> fst ` set qs" "b \<notin> fst ` set qs"
    "last_opt (Some b) qs \<noteq> Some a"
    using assms Cons q by (auto simp: dll_def last_opt_def split: if_splits)
  then show ?thesis using assms Cons q
    by (auto simp: removeTheOldestElementFromLinkList_def dll_def sameEntries_def pointer_defs seg_frame)
qed

lemma removeTheOldestElementFromLinkList_empty:
  "dll c [] \<Longrightarrow> removeTheOldestElementFromLinkList c = Some (None, c)"
  by (simp add: removeTheOldestElementFromLinkList_def dll_def pointer_defs)

text \<open>Moving an element: it is already last, it is the first of several, or it is in the middle.\<close>

lemma moveToLast_last:
  assumes "dll c (us @ [(x, k)])"
  shows "moveLinkedListElementToLast (Some x) c = Some c"
  using assms by (auto simp: moveLinkedListElementToLast_def dll_def pointer_defs)

lemma moveToLast_first:
  assumes "dll c ((x, k) # (v, kv) # vs)"
  shows "\<exists>c'. moveLinkedListElementToLast (Some x) c = Some c' \<and> dll c' ((v, kv) # vs @ [(x, k)])
    \<and> sameEntries c c'"
proof (cases vs rule: rev_cases)
  case Nil
  then show ?thesis using assms
    by (auto simp: moveLinkedListElementToLast_def dll_def sameEntries_def pointer_defs)
next
  case (snoc ws w)
  obtain l kl where w: "w = (l, kl)" by (cases w)
  have "x \<noteq> v" "x \<noteq> l" "v \<noteq> l" "x \<notin> fst ` set ws" "v \<notin> fst ` set ws" "l \<notin> fst ` set ws"
    using assms snoc w by (auto simp: dll_def)
  then show ?thesis using assms snoc w
    by (auto simp: moveLinkedListElementToLast_def dll_def sameEntries_def pointer_defs seg_frame)
qed

lemma moveToLast_middle:
  assumes "dll c (us @ (u, ku) # (x, k) # (v, kv) # vs)"
  shows "\<exists>c'. moveLinkedListElementToLast (Some x) c = Some c'
    \<and> dll c' (us @ (u, ku) # (v, kv) # vs @ [(x, k)]) \<and> sameEntries c c'"
proof -
  have d: "x \<noteq> u" "x \<noteq> v" "v \<noteq> u" "u \<notin> fst ` set us" "x \<notin> fst ` set us" "v \<notin> fst ` set us"
    "u \<notin> fst ` set vs" "x \<notin> fst ` set vs" "v \<notin> fst ` set vs"
    using assms by (auto simp: dll_def)
  have f: "hd_opt us (Some u) \<noteq> Some x"
    using d by (auto simp: hd_opt_def split: list.splits)
  show ?thesis
  proof (cases vs rule: rev_cases)
    case Nil
    moreover have "hd_opt us (Some u) \<noteq> Some v" using d by (auto simp: hd_opt_def split: list.splits)
    ultimately show ?thesis using assms d f
      by (auto simp: moveLinkedListElementToLast_def dll_def sameEntries_def pointer_defs seg_frame)
  next
    case (snoc ws w)
    obtain l kl where w: "w = (l, kl)" by (cases w)
    have e: "u \<noteq> l" "x \<noteq> l" "v \<noteq> l" "l \<notin> fst ` set us" "l \<notin> fst ` set ws" "u \<notin> fst ` set ws"
      "x \<notin> fst ` set ws" "v \<notin> fst ` set ws"
      using assms snoc w d by (auto simp: dll_def)
    moreover have "hd_opt us (Some u) \<noteq> Some l"
      using d e by (auto simp: hd_opt_def split: list.splits)
    ultimately show ?thesis using assms snoc w d f
      by (auto simp: moveLinkedListElementToLast_def dll_def sameEntries_def pointer_defs seg_frame)
  qed
qed

lemma moveLinkedListElementToLast_dll:
  assumes "dll c (us @ (x, k) # vs)"
  shows "\<exists>c'. moveLinkedListElementToLast (Some x) c = Some c'
    \<and> dll c' (us @ vs @ [(x, k)]) \<and> sameEntries c c'"
proof (cases vs)
  case Nil
  then show ?thesis using moveToLast_last [of c us x k] assms by (simp add: sameEntries_def)
next
  case (Cons v vs')
  obtain va kv where v: "v = (va, kv)" by (cases v)
  show ?thesis
  proof (cases us rule: rev_cases)
    case Nil
    then show ?thesis using moveToLast_first [of c x k va kv vs'] assms Cons v by simp
  next
    case (snoc us' u)
    then show ?thesis
      using moveToLast_middle [of c us' "fst u" "snd u" x k va kv vs'] assms Cons v by simp
  qed
qed

section \<open>The abstract cache\<close>

text \<open>
  The contract of the container: a list of (hashed key, entry), least recently used first. A put
  evicts from the front until the new entry fits, forgets an entry with the same hashed key and
  appends the new one; a hit moves its entry to the end.
\<close>

type_synonym 'a lru = "(u32 \<times> 'a CacheEntry) list"

definition entrySize :: "('a \<Rightarrow> u32) \<Rightarrow> 'a CacheEntry \<Rightarrow> nat" where
  "entrySize ob e = unat (fst (getNumberOfBytesUsedByEntry ob e))"

definition lruSize :: "('a \<Rightarrow> u32) \<Rightarrow> 'a lru \<Rightarrow> nat" where
  "lruSize ob ys = sum_list (map (entrySize ob \<circ> snd) ys)"

fun evict :: "('a \<Rightarrow> u32) \<Rightarrow> nat \<Rightarrow> nat \<Rightarrow> 'a lru \<Rightarrow> 'a lru" where
  "evict ob n budget [] = []"
| "evict ob n budget (y # ys) =
    (if n + lruSize ob (y # ys) \<le> budget then y # ys else evict ob n budget ys)"

definition newEntryFor :: "('a \<Rightarrow> u32) \<Rightarrow> string \<Rightarrow> 'a \<Rightarrow> 'a CacheEntry" where
  "newEntryFor ob k obj = snd (getNumberOfBytesUsedByEntry ob (CacheEntry_new k obj))"

definition abs_put :: "('a \<Rightarrow> u32) \<Rightarrow> nat \<Rightarrow> string \<Rightarrow> 'a \<Rightarrow> 'a lru \<Rightarrow> bool \<times> 'a lru" where
  "abs_put ob budget k obj ys =
    (let e = newEntryFor ob k obj; n = entrySize ob e in
     if budget < n then (False, ys)
     else (True, filter (\<lambda>y. fst y \<noteq> hashDJB2 k) (evict ob n budget ys) @ [(hashDJB2 k, e)]))"

definition abs_get :: "string \<Rightarrow> 'a lru \<Rightarrow> 'a option \<times> 'a lru" where
  "abs_get k ys =
    (case map_of ys (hashDJB2 k) of
      None \<Rightarrow> (None, ys)
    | Some e \<Rightarrow> if key e \<noteq> k then (None, ys)
        else (Some (objectPointer e),
          filter (\<lambda>y. fst y \<noteq> hashDJB2 k) ys @ [(hashDJB2 k, e)]))"

text \<open>\<open>cache_repr ob c xs\<close>: the container holds the triples \<open>xs\<close> (hashed key, entry, list element).\<close>

definition cache_repr :: "('a \<Rightarrow> u32) \<Rightarrow> 'a CacheContainer \<Rightarrow> (u32 \<times> 'a CacheEntry \<times> addr) list \<Rightarrow> bool" where
  "cache_repr ob c xs \<longleftrightarrow> dll c (map (\<lambda>(k, e, a). (a, k)) xs) \<and> cacheEntries c = map_of xs
    \<and> distinct (map fst xs)
    \<and> unat (totalSizeUsed c) = lruSize ob (map (\<lambda>(k, e, a). (k, e)) xs)
    \<and> unat (totalSizeUsed c) \<le> unat (cacheTotalByteBudget c)"

definition lru_repr :: "('a \<Rightarrow> u32) \<Rightarrow> 'a CacheContainer \<Rightarrow> 'a lru \<Rightarrow> bool" where
  "lru_repr ob c ys \<longleftrightarrow> (\<exists>xs. cache_repr ob c xs \<and> map (\<lambda>(k, e, a). (k, e)) xs = ys)"

lemma lruSize_simps [simp]:
  "lruSize ob [] = 0" "lruSize ob (y # ys) = entrySize ob (snd y) + lruSize ob ys"
  "lruSize ob (ys @ zs) = lruSize ob ys + lruSize ob zs"
  by (simp_all add: lruSize_def)

lemma fits_iff:
  assumes "unat (totalSizeUsed c) \<le> unat (cacheTotalByteBudget c)"
  shows "fits n c \<longleftrightarrow> unat n + unat (totalSizeUsed c) \<le> unat (cacheTotalByteBudget c)"
proof -
  have u: "unat (ucast (w :: u32) :: u64) = unat w" for w
    by (simp add: unsigned_ucast_eq take_bit_nat_eq_self_iff) (rule order_less_trans [OF unsigned_less], simp)
  have "unat (cacheTotalByteBudget c - ucast (totalSizeUsed c))
    = unat (cacheTotalByteBudget c) - unat (totalSizeUsed c)"
    using assms by (subst unat_sub) (simp_all add: word_le_nat_alt u)
  then show ?thesis using assms by (auto simp: fits_def word_le_nat_alt u)
qed

lemma kickout_repr:
  assumes "cache_repr ob c (x # xs)"
  shows "\<exists>c'. LRUCacheReplacementPolicyKickoutOneEntry ob c = Some c' \<and> cache_repr ob c' xs
    \<and> cacheTotalByteBudget c' = cacheTotalByteBudget c"
proof -
  obtain k e a where x: "x = (k, e, a)" by (cases x)
  let ?n = "fst (getNumberOfBytesUsedByEntry ob e)"
  from assms x obtain c' where c': "removeTheOldestElementFromLinkList c = Some (Some k, c')"
    "dll c' (map (\<lambda>(k, e, a). (a, k)) xs)" "sameEntries c c'"
    using removeTheOldestElementFromLinkList_dll [of c a k "map (\<lambda>(k, e, a). (a, k)) xs"]
    by (auto simp: cache_repr_def)
  have t: "unat (totalSizeUsed c) = unat ?n + lruSize ob (map (\<lambda>(k, e, a). (k, e)) xs)"
    using assms x by (simp add: cache_repr_def entrySize_def)
  then have le: "?n \<le> totalSizeUsed c" by (simp add: word_le_nat_alt)
  then have "unat (totalSizeUsed c - ?n) = lruSize ob (map (\<lambda>(k, e, a). (k, e)) xs)"
    using t by (simp add: unat_sub)
  moreover have "(map_of (x # xs))(k := None) = map_of xs"
    using assms x by (simp add: cache_repr_def map_of_eq_None_iff [THEN iffD2] fun_upd_idem)
  ultimately show ?thesis using assms c' x t le
    by (auto simp: LRUCacheReplacementPolicyKickoutOneEntry_def cache_repr_def sameEntries_def
        assert_ok_def Let_def dll_def)
qed

text \<open>The eviction loop ends: an entry within the budget fits at the latest in the empty cache.\<close>

lemma kickoutLoop_repr:
  assumes "cache_repr ob c xs" "\<not> fits n c" "unat n \<le> unat (cacheTotalByteBudget c)"
  shows "\<exists>c' xs'. kickoutLoop ob n c = Some c' \<and> cache_repr ob c' xs' \<and> fits n c'
    \<and> cacheTotalByteBudget c' = cacheTotalByteBudget c
    \<and> map (\<lambda>(k, e, a). (k, e)) xs'
      = evict ob (unat n) (unat (cacheTotalByteBudget c)) (map (\<lambda>(k, e, a). (k, e)) xs)"
  using assms
proof (induction xs arbitrary: c)
  case Nil
  then show ?case by (simp add: cache_repr_def fits_iff)
next
  case (Cons x xs)
  obtain c1 where c1: "LRUCacheReplacementPolicyKickoutOneEntry ob c = Some c1"
    "cache_repr ob c1 xs" "cacheTotalByteBudget c1 = cacheTotalByteBudget c"
    using kickout_repr [OF Cons.prems(1)] by blast
  have sz: "fits n c1 \<longleftrightarrow> unat n + lruSize ob (map (\<lambda>(k, e, a). (k, e)) xs)
      \<le> unat (cacheTotalByteBudget c)"
    using c1(2,3) fits_iff [of c1 n] by (simp add: cache_repr_def)
  have nofit: "\<not> unat n + lruSize ob (map (\<lambda>(k, e, a). (k, e)) (x # xs))
      \<le> unat (cacheTotalByteBudget c)"
    using Cons.prems fits_iff [of c n] by (simp add: cache_repr_def)
  show ?case
  proof (cases "fits n c1")
    case True
    have "evict ob (unat n) (unat (cacheTotalByteBudget c)) (map (\<lambda>(k, e, a). (k, e)) xs)
      = map (\<lambda>(k, e, a). (k, e)) xs"
      using True sz by (cases xs) simp_all
    then show ?thesis using c1 True nofit by (subst kickoutLoop.simps) auto
  next
    case False
    then show ?thesis
      using Cons.IH [OF c1(2) False] Cons.prems(3) c1 nofit by (subst kickoutLoop.simps) auto
  qed
qed

lemma cache_repr_move:
  assumes "cache_repr ob c (us @ (k, e, a) # vs)"
  shows "\<exists>c'. moveLinkedListElementToLast (Some a) c = Some c' \<and> sameEntries c c'
    \<and> cache_repr ob c' (us @ vs @ [(k, e, a)])"
proof -
  from moveLinkedListElementToLast_dll [of c "map (\<lambda>(k, e, a). (a, k)) us" a k
      "map (\<lambda>(k, e, a). (a, k)) vs"] assms
  obtain c' where c': "moveLinkedListElementToLast (Some a) c = Some c'" "sameEntries c c'"
    "dll c' (map (\<lambda>(k, e, a). (a, k)) (us @ vs @ [(k, e, a)]))"
    by (auto simp: cache_repr_def)
  moreover have "map_of (us @ vs @ [(k, e, a)]) = map_of (us @ (k, e, a) # vs)"
    using assms by (intro map_of_inject_set [THEN iffD2]) (auto simp: cache_repr_def)
  ultimately show ?thesis using assms
    by (auto simp: cache_repr_def sameEntries_def)
qed

lemma filter_key_split:
  assumes "distinct (map fst (us @ (k, v) # vs))"
  shows "filter (\<lambda>y. fst y \<noteq> k) (us @ (k, v) # vs) = us @ vs"
proof -
  have "filter (\<lambda>y. fst y \<noteq> k) us = us" "filter (\<lambda>y. fst y \<noteq> k) vs = vs"
    by (rule filter_True, use assms in force)+
  then show ?thesis by simp
qed

text \<open>Reading the concrete lookup as a position of the abstract list.\<close>

lemma cache_repr_lookup:
  assumes "cache_repr ob c xs" "cacheEntries c k = Some (e, a)"
  obtains us vs where "xs = us @ (k, e, a) # vs"
    "filter (\<lambda>y. fst y \<noteq> k) (map (\<lambda>(k, e, a). (k, e)) xs) = map (\<lambda>(k, e, a). (k, e)) (us @ vs)"
proof -
  have "(k, e, a) \<in> set xs" using assms by (auto simp: cache_repr_def dest: map_of_SomeD)
  then obtain us vs where xs: "xs = us @ (k, e, a) # vs" by (meson split_list)
  have d: "distinct (map fst (map (\<lambda>(k, e, a). (k, e)) xs))"
    using assms(1) by (simp add: cache_repr_def comp_def case_prod_beta)
  show thesis
    using that [OF xs] filter_key_split [of "map (\<lambda>(k, e, a). (k, e)) us" k e "map (\<lambda>(k, e, a). (k, e)) vs"] d xs
    by simp
qed

lemma size_stable:
  "fst (getNumberOfBytesUsedByEntry ob (snd (getNumberOfBytesUsedByEntry ob e)))
    = fst (getNumberOfBytesUsedByEntry ob e)"
  by (simp add: getNumberOfBytesUsedByEntry_def getNumberOfBytes_def Let_def)

lemma map_of_entries: "map_of (map (\<lambda>(k, e, a). (k, e)) xs) h = map_option fst (map_of xs h)"
  by (induction xs) auto

lemma map_of_replace:
  assumes "k \<notin> fst ` set us"
  shows "(map_of (us @ (k, v) # vs))(k \<mapsto> w) = map_of (us @ (k, w) # vs)"
proof
  have n: "map_of us k = None" using assms by (simp add: map_of_eq_None_iff)
  show "((map_of (us @ (k, v) # vs))(k \<mapsto> w)) x = map_of (us @ (k, w) # vs) x" for x
    by (cases "x = k") (simp_all add: map_add_def n split: option.split)
qed

lemma get_entry_refines:
  assumes "lru_repr ob c ys"
  shows "\<exists>c'. get_entry k c = Some (fst (abs_get k ys), c') \<and> lru_repr ob c' (snd (abs_get k ys))
    \<and> cacheTotalByteBudget c' = cacheTotalByteBudget c"
proof -
  obtain xs where xs: "cache_repr ob c xs" "ys = map (\<lambda>(k, e, a). (k, e)) xs"
    using assms by (auto simp: lru_repr_def)
  have m: "map_of ys h = map_option fst (cacheEntries c h)" for h
    using xs by (simp add: cache_repr_def map_of_entries)
  show ?thesis
  proof (cases "cacheEntries c (hashDJB2 k)")
    case None
    then show ?thesis using assms m by (simp add: get_entry_def abs_get_def)
  next
    case (Some p)
    obtain e a where p: "p = (e, a)" by (cases p)
    show ?thesis
    proof (cases "key e = k")
      case False
      then show ?thesis using assms Some p m by (simp add: get_entry_def abs_get_def)
    next
      case True
      obtain us vs where uv: "xs = us @ (hashDJB2 k, e, a) # vs"
        "filter (\<lambda>y. fst y \<noteq> hashDJB2 k) ys = map (\<lambda>(k, e, a). (k, e)) (us @ vs)"
        using cache_repr_lookup [OF xs(1)] Some p xs(2) by metis
      from cache_repr_move [of ob c us "hashDJB2 k" e a vs] xs(1) uv(1) obtain c' where
        "moveLinkedListElementToLast (Some a) c = Some c'" "sameEntries c c'"
        "cache_repr ob c' (us @ vs @ [(hashDJB2 k, e, a)])" by blast
      then show ?thesis using Some p m True uv(2)
        by (auto simp: get_entry_def abs_get_def lru_repr_def sameEntries_def
            intro!: exI [of _ "us @ vs @ [(hashDJB2 k, e, a)]"])
    qed
  qed
qed

text \<open>Replacing the entry of a hashed key, and appending a new one.\<close>

lemma put_replace_repr:
  assumes "cache_repr ob c (us @ (k, old, a) # vs)" "fits n c" "entrySize ob e = unat n"
    and "unat (cacheTotalByteBudget c) < 2 ^ 32"
  defines "m \<equiv> fst (getNumberOfBytesUsedByEntry ob old)"
  defines "c1 \<equiv> c\<lparr>totalSizeUsed := totalSizeUsed c + n - m, cacheEntries := (cacheEntries c)(k \<mapsto> (e, a))\<rparr>"
  shows "m \<le> totalSizeUsed c + n" "cache_repr ob c1 (us @ (k, e, a) # vs)"
proof -
  have tot: "unat (totalSizeUsed c) = lruSize ob (map (\<lambda>(k, e, a). (k, e)) (us @ vs)) + unat m"
    and le: "unat n + unat (totalSizeUsed c) \<le> unat (cacheTotalByteBudget c)"
    using assms(1,2) fits_iff [of c n] by (auto simp: cache_repr_def entrySize_def m_def)
  have add: "unat (totalSizeUsed c + n) = unat (totalSizeUsed c) + unat n"
    using le assms(4) by (intro unat_add_lem [THEN iffD1]) simp
  then show m: "m \<le> totalSizeUsed c + n" using tot by (simp add: word_le_nat_alt)
  have "unat (totalSizeUsed c + n - m) = lruSize ob (map (\<lambda>(k, e, a). (k, e)) (us @ vs)) + unat n"
    using m add tot by (simp add: unat_sub)
  moreover have "(map_of (us @ (k, old, a) # vs))(k \<mapsto> (e, a)) = map_of (us @ (k, e, a) # vs)"
    by (rule map_of_replace) (use assms(1) in \<open>simp add: cache_repr_def\<close>)
  ultimately show "cache_repr ob c1 (us @ (k, e, a) # vs)"
    using assms(1,3) le tot by (auto simp: cache_repr_def c1_def dll_def)
qed

lemma put_append_repr:
  assumes "cache_repr ob c xs" "fits n c" "entrySize ob e = unat n" "cacheEntries c k = None"
    and "unat (cacheTotalByteBudget c) < 2 ^ 32"
  shows "\<exists>c'. addNewElementToLinkList k c = Some c' \<and> elementsLinkListLast c' = Some (brk c)
    \<and> sameEntries c c' \<and> (let c2 = c'\<lparr>cacheEntries := (cacheEntries c')(k \<mapsto> (e, brk c)),
          totalSizeUsed := totalSizeUsed c' + n\<rparr>
        in cache_repr ob c2 (xs @ [(k, e, brk c)]))"
proof -
  obtain c' where c': "addNewElementToLinkList k c = Some c'" "elementsLinkListLast c' = Some (brk c)"
    "sameEntries c c'" "dll c' (map (\<lambda>(k, e, a). (a, k)) xs @ [(brk c, k)])"
    using addNewElementToLinkList_dll [of c _ k] assms(1) unfolding cache_repr_def by blast
  have le: "unat n + unat (totalSizeUsed c) \<le> unat (cacheTotalByteBudget c)"
    using assms(1,2) fits_iff [of c n] by (auto simp: cache_repr_def)
  have add: "unat (totalSizeUsed c + n) = unat (totalSizeUsed c) + unat n"
    using le assms(5) by (intro unat_add_lem [THEN iffD1]) simp
  have k: "k \<notin> fst ` set xs" using assms(1,4) by (simp add: cache_repr_def map_of_eq_None_iff)
  then have "(map_of xs)(k \<mapsto> (e, brk c)) = map_of (xs @ [(k, e, brk c)])"
    by (simp add: map_add_def fun_eq_iff map_of_eq_None_iff [symmetric] split: option.split)
  then have "cache_repr ob (c'\<lparr>cacheEntries := (cacheEntries c')(k \<mapsto> (e, brk c)),
          totalSizeUsed := totalSizeUsed c' + n\<rparr>) (xs @ [(k, e, brk c)])"
    using assms(1,3) c'(3,4) le add k by (simp add: cache_repr_def sameEntries_def dll_def)
  then show ?thesis using c' by (simp add: Let_def)
qed

lemma unat_ucast_32_64: "unat (ucast (w :: u32) :: u64) = unat w"
  by (simp add: unsigned_ucast_eq take_bit_nat_eq_self_iff) (rule order_less_trans [OF unsigned_less], simp)

lemma evict_fits: "n + lruSize ob ys \<le> budget \<Longrightarrow> evict ob n budget ys = ys"
  by (cases ys) simp_all

lemma budget_assert: "cache_repr ob c xs \<Longrightarrow> (ucast (totalSizeUsed c) :: u64) \<le> cacheTotalByteBudget c"
  by (simp add: cache_repr_def word_le_nat_alt unat_ucast_32_64)

lemma insertNewEntry_repr:
  assumes "cache_repr ob c xs" "fits n c" "entrySize ob e = unat n"
    "unat (cacheTotalByteBudget c) < 2 ^ 32"
  shows "\<exists>c'. insertNewEntry ob n e h c = Some c' \<and> cacheTotalByteBudget c' = cacheTotalByteBudget c
    \<and> lru_repr ob c' (filter (\<lambda>y. fst y \<noteq> h) (map (\<lambda>(k, e, a). (k, e)) xs) @ [(h, e)])"
proof (cases "cacheEntries c h")
  case None
  obtain c2 where c2: "addNewElementToLinkList h c = Some c2"
    "elementsLinkListLast c2 = Some (brk c)" "sameEntries c c2"
    "cache_repr ob (c2\<lparr>cacheEntries := (cacheEntries c2)(h \<mapsto> (e, brk c)),
        totalSizeUsed := totalSizeUsed c2 + n\<rparr>) (xs @ [(h, e, brk c)])"
    using put_append_repr [OF assms(1-3) None assms(4)] unfolding Let_def by blast
  have "h \<notin> fst ` set xs" using None assms(1) by (simp add: cache_repr_def map_of_eq_None_iff)
  then have "filter (\<lambda>y. fst y \<noteq> h) (map (\<lambda>(k, e, a). (k, e)) xs) = map (\<lambda>(k, e, a). (k, e)) xs"
    by (intro filter_True) force
  then show ?thesis using None c2 budget_assert [OF c2(4)]
    by (auto simp: insertNewEntry_def lru_repr_def assert_ok_def sameEntries_def Let_def
        intro!: exI [of _ "xs @ [(h, e, brk c)]"])
next
  case (Some p)
  obtain old a where p: "p = (old, a)" by (cases p)
  obtain us vs where uv: "xs = us @ (h, old, a) # vs"
    "filter (\<lambda>y. fst y \<noteq> h) (map (\<lambda>(k, e, a). (k, e)) xs) = map (\<lambda>(k, e, a). (k, e)) (us @ vs)"
    using cache_repr_lookup [OF assms(1)] Some p by metis
  note rep = put_replace_repr [OF assms(1) [unfolded uv(1)] assms(2-4)]
  obtain c4 where "moveLinkedListElementToLast (Some a)
      (c\<lparr>totalSizeUsed := totalSizeUsed c + n - fst (getNumberOfBytesUsedByEntry ob old),
         cacheEntries := (cacheEntries c)(h \<mapsto> (e, a))\<rparr>) = Some c4"
    "cacheTotalByteBudget c4 = cacheTotalByteBudget c"
    "cache_repr ob c4 (us @ vs @ [(h, e, a)])"
    using cache_repr_move [OF rep(2)] by (auto simp: sameEntries_def)
  then show ?thesis using Some p rep(1) budget_assert [OF rep(2)] unfolding uv(2)
    by (auto simp: insertNewEntry_def lru_repr_def assert_ok_def Let_def
        intro!: exI [of _ "us @ vs @ [(h, e, a)]"])
qed

lemma put_refines:
  assumes "lru_repr ob c ys" "unat (cacheTotalByteBudget c) < 2 ^ 32"
  shows "\<exists>c'. put ob k obj c = Some (fst (abs_put ob (unat (cacheTotalByteBudget c)) k obj ys), c')
    \<and> lru_repr ob c' (snd (abs_put ob (unat (cacheTotalByteBudget c)) k obj ys))
    \<and> cacheTotalByteBudget c' = cacheTotalByteBudget c"
proof -
  define e where "e = newEntryFor ob k obj"
  define n where "n = fst (getNumberOfBytesUsedByEntry ob (CacheEntry_new k obj))"
  define B where "B = unat (cacheTotalByteBudget c)"
  have ne: "getNumberOfBytesUsedByEntry ob (CacheEntry_new k obj) = (n, e)"
    by (simp add: n_def e_def newEntryFor_def)
  have sz: "entrySize ob e = unat n"
    unfolding entrySize_def e_def newEntryFor_def n_def size_stable ..
  have guard: "(ucast n :: u64) > cacheTotalByteBudget c \<longleftrightarrow> B < unat n"
    by (simp add: word_less_nat_alt unat_ucast_32_64 B_def)
  obtain xs where xs: "cache_repr ob c xs" "ys = map (\<lambda>(k, e, a). (k, e)) xs"
    using assms by (auto simp: lru_repr_def)
  show ?thesis
  proof (cases "B < unat n")
    case True
    then show ?thesis using assms(1) guard
      by (simp add: put_def ne abs_put_def e_def [symmetric] B_def [symmetric] sz)
  next
    case False
    obtain c1 xs1 where c1: "(if \<not> fits n c then kickoutLoop ob n c else Some c) = Some c1"
      "cache_repr ob c1 xs1" "fits n c1" "cacheTotalByteBudget c1 = cacheTotalByteBudget c"
      "map (\<lambda>(k, e, a). (k, e)) xs1 = evict ob (unat n) B ys"
    proof (cases "fits n c")
      case True
      then have "unat n + lruSize ob ys \<le> B"
        using xs fits_iff [of c n] by (simp add: cache_repr_def B_def)
      from that [of c xs] True xs evict_fits [OF this] show ?thesis by simp
    next
      case nf: False
      then show ?thesis using kickoutLoop_repr [OF xs(1) nf] False xs(2) that unfolding B_def by auto
    qed
    moreover have "abs_put ob B k obj ys
      = (True, filter (\<lambda>y. fst y \<noteq> hashDJB2 k) (map (\<lambda>(k, e, a). (k, e)) xs1) @ [(hashDJB2 k, e)])"
      using False by (simp add: abs_put_def e_def [symmetric] sz c1(5))
    ultimately show ?thesis
      using insertNewEntry_repr [OF c1(2,3) sz, of "hashDJB2 k"] assms(2) False guard
      by (auto simp: put_def ne B_def [symmetric] cong: if_cong)
  qed
qed

section \<open>Clearing and the consistency check\<close>

lemma deleteList_seg:
  assumes "seg (heap c) p ps None" "distinct (map fst ps)" "dom (heap c) = fst ` set ps"
  shows "\<exists>c'. deleteList (hd_opt ps None) c = Some c' \<and> heap c' = Map.empty \<and> sameEntries c c'"
  using assms
proof (induction ps arbitrary: c p)
  case Nil
  then show ?case by (subst deleteList.simps) (simp add: sameEntries_def)
next
  case (Cons q ps)
  obtain a k where q: "q = (a, k)" by (cases q)
  let ?c = "c\<lparr>heap := (heap c)(a := None)\<rparr>"
  have h: "heap c a = Some \<lparr>next_elem = hd_opt ps None, previous = p, hashedKey = k\<rparr>"
    "seg (heap c) (Some a) ps None" "a \<notin> fst ` set ps" "distinct (map fst ps)"
    using Cons.prems q by auto
  have "dom (heap ?c) = fst ` set ps" using Cons.prems(3) h(3) q by auto
  moreover have "seg (heap ?c) (Some a) ps None" using h(2,3) by (simp add: seg_frame)
  ultimately have "\<exists>c'. deleteList (hd_opt ps None) ?c = Some c' \<and> heap c' = Map.empty \<and> sameEntries ?c c'"
    using h(4) by (intro Cons.IH [of ?c "Some a"])
  moreover have "deleteList (hd_opt (q # ps) None) c = deleteList (hd_opt ps None) ?c"
    using h(1) q by (subst deleteList.simps) (simp add: pointer_defs domI)
  ultimately show ?case by (simp add: sameEntries_def)
qed

lemma clear_refines:
  assumes "lru_repr ob c ys"
  shows "\<exists>c'. clear c = Some (True, c') \<and> lru_repr ob c' [] \<and> heap c' = Map.empty
    \<and> cacheTotalByteBudget c' = cacheTotalByteBudget c"
proof -
  obtain ps where "dll c ps" using assms by (auto simp: lru_repr_def cache_repr_def)
  with deleteList_seg [of "c\<lparr>cacheEntries := Map.empty\<rparr>" None ps]
  obtain c' where "deleteList (hd_opt ps None) (c\<lparr>cacheEntries := Map.empty\<rparr>) = Some c'"
    "heap c' = Map.empty" "sameEntries (c\<lparr>cacheEntries := Map.empty\<rparr>) c'"
    "elementsLinkListFirst c = hd_opt ps None"
    by (auto simp: dll_def)
  then show ?thesis
    by (auto simp: clear_def lru_repr_def cache_repr_def dll_def sameEntries_def)
qed

lemma checkLinks_dll:
  assumes "dll c (rs @ qs)"
  shows "checkLinks (hd_opt qs None) c = Some True"
  using assms
proof (induction qs arbitrary: rs)
  case Nil
  then show ?case by (subst checkLinks.simps) simp
next
  case (Cons q qs)
  obtain a k where q: "q = (a, k)" by (cases q)
  have h: "heap c a = Some \<lparr>next_elem = hd_opt qs None, previous = last_opt None rs, hashedKey = k\<rparr>"
    using Cons.prems q by (auto simp: dll_def)
  have pr: "if rs = [] then elementsLinkListFirst c = Some a
      else \<exists>u n. last_opt None rs = Some u \<and> heap c u = Some n \<and> next_elem n = Some a"
    using Cons.prems q by (cases rs rule: rev_cases) (auto simp: dll_def)
  have nx: "if qs = [] then elementsLinkListLast c = Some a
      else \<exists>v n. hd_opt qs None = Some v \<and> heap c v = Some n \<and> previous n = Some a"
    using Cons.prems q by (cases qs) (auto simp: dll_def)
  have "checkLinks (hd_opt qs None) c = Some True" using Cons.IH [of "rs @ [q]"] Cons.prems by simp
  then show ?case using h pr nx q
    by (subst checkLinks.simps) (auto simp: deref_def split: if_splits)
qed

lemma findNode_seg:
  assumes "seg (heap c) p qs None" "distinct (map snd qs)"
    and "\<And>a. (a, hk) \<in> set qs \<Longrightarrow> a = elem \<and> \<not> found"
  shows "findNode hk elem found (hd_opt qs None) c = Some (Some (found \<or> hk \<in> snd ` set qs))"
  using assms
proof (induction qs arbitrary: p found)
  case Nil
  then show ?case by (subst findNode.simps) simp
next
  case (Cons q qs)
  obtain a k where q: "q = (a, k)" by (cases q)
  have h: "heap c a = Some \<lparr>next_elem = hd_opt qs None, previous = p, hashedKey = k\<rparr>"
    "seg (heap c) (Some a) qs None"
    using Cons.prems(1) q by auto
  have d: "distinct (map snd qs)" using Cons.prems(2) by simp
  show ?case
  proof (cases "hk = k")
    case True
    then have no: "(b, hk) \<notin> set qs" for b using Cons.prems(2) q by force
    have "findNode hk elem True (hd_opt qs None) c = Some (Some True)"
      using Cons.IH [OF h(2) d, of True] no by simp
    then show ?thesis using Cons.prems(3) [of a] True q h(1)
      by (subst findNode.simps) (simp add: deref_def)
  next
    case False
    then show ?thesis using Cons.IH [OF h(2) d, of found] Cons.prems(3) q h(1)
      by (subst findNode.simps) (simp add: deref_def)
  qed
qed

lemma checkEntries_repr:
  assumes "cache_repr ob c xs" "set ks \<subseteq> fst ` set xs"
  shows "checkEntries ob ks b c
    = Some (Some (b + sum_list (map (\<lambda>k. fst (getNumberOfBytesUsedByEntry ob (fst (the (map_of xs k))))) ks)))"
  using assms(2)
proof (induction ks arbitrary: b)
  case (Cons k ks)
  then obtain e a where m: "map_of xs k = Some (e, a)"
    by (metis (no_types, lifting) list.set_intros(1) map_of_eq_None_iff not_None_eq prod.collapse subsetD)
  have r: "dll c (map (\<lambda>(k, e, a). (a, k)) xs)" "cacheEntries c = map_of xs" "distinct (map fst xs)"
    using assms(1) by (simp_all add: cache_repr_def)
  have u: "a' = a" if "(k, e', a') \<in> set xs" for e' a'
    using that m r(3) by (metis map_of_is_SomeI option.inject prod.inject)
  let ?ps = "map (\<lambda>(k, e, a). (a, k)) xs"
  have f: "seg (heap c) None ?ps None" "elementsLinkListFirst c = hd_opt ?ps None"
    using r(1) by (simp_all add: dll_def)
  have d: "distinct (map snd ?ps)" using r(3) by (simp add: comp_def case_prod_beta)
  have "findNode k a False (hd_opt ?ps None) c = Some (Some (False \<or> k \<in> snd ` set ?ps))"
    by (rule findNode_seg [OF f(1) d]) (use u in auto)
  moreover have "k \<in> snd ` set ?ps" using map_of_SomeD [OF m] by force
  ultimately have "findNode k a False (elementsLinkListFirst c) c = Some (Some True)"
    using f(2) by simp
  then show ?case using Cons m r(2) by (simp add: add.assoc)
qed simp

lemma totalSize_sum:
  assumes "cache_repr ob c xs"
  shows "sum_list (map (\<lambda>k. fst (getNumberOfBytesUsedByEntry ob (fst (the (map_of xs k)))))
      (sorted_list_of_set (fst ` set xs))) = totalSizeUsed c"
proof -
  let ?g = "\<lambda>k. fst (getNumberOfBytesUsedByEntry ob (fst (the (map_of xs k))))"
  have d: "distinct (map fst xs)" using assms by (simp add: cache_repr_def)
  have "sum_list (map ?g (sorted_list_of_set (fst ` set xs))) = sum ?g (set (map fst xs))"
    by (simp add: sum_list_distinct_conv_sum_set)
  also have "\<dots> = sum_list (map ?g (map fst xs))"
    using d by (rule sum_list_distinct_conv_sum_set [symmetric])
  also have "map ?g (map fst xs) = map (\<lambda>(k, e, a). fst (getNumberOfBytesUsedByEntry ob e)) xs"
    using d by (auto simp: map_of_is_SomeI)
  also have "sum_list \<dots> = word_of_nat (lruSize ob (map (\<lambda>(k, e, a). (k, e)) xs))"
    by (induction xs) (auto simp: entrySize_def)
  also have "\<dots> = word_of_nat (unat (totalSizeUsed c))" using assms by (simp add: cache_repr_def)
  also have "\<dots> = totalSizeUsed c" by simp
  finally show ?thesis .
qed

lemma checkCacheConsistency_repr:
  assumes "lru_repr ob c ys"
  shows "checkCacheConsistency ob c = Some True"
proof -
  obtain xs where xs: "cache_repr ob c xs" using assms by (auto simp: lru_repr_def)
  let ?ps = "map (\<lambda>(k, e, a). (a, k)) xs"
  have d: "dll c ?ps" "dom (cacheEntries c) = fst ` set xs"
    using xs by (auto simp: cache_repr_def dom_map_of_conv_image_fst)
  have f: "elementsLinkListFirst c = hd_opt ?ps None" using d(1) by (simp add: dll_def)
  have "\<exists>n. deref c (elementsLinkListFirst c) = Some n \<and> previous n = None" if "xs \<noteq> []"
    using d(1) that by (cases xs) (auto simp: dll_def deref_def)
  moreover have "checkLinks (elementsLinkListFirst c) c = Some True"
    unfolding f by (rule checkLinks_dll [of c "[]"]) (simp add: d)
  moreover have "checkEntries ob (sorted_list_of_set (dom (cacheEntries c))) 0 c = Some (Some (totalSizeUsed c))"
    using checkEntries_repr [OF xs, of "sorted_list_of_set (fst ` set xs)" 0] totalSize_sum [OF xs] d(2)
    by simp
  ultimately show ?thesis using dll_first_last [OF d(1)]
    by (auto simp: checkCacheConsistency_def)
qed

section \<open>Every run of the container\<close>

inductive cache_run :: "('a \<Rightarrow> u32) \<Rightarrow> u64 \<Rightarrow> 'a CacheContainer \<Rightarrow> bool" for ob budget where
  start: "cache_run ob budget (CacheContainer_new budget)"
| put: "cache_run ob budget c \<Longrightarrow> put ob k obj c = Some (r, c') \<Longrightarrow> cache_run ob budget c'"
| get: "cache_run ob budget c \<Longrightarrow> get_entry k c = Some (v, c') \<Longrightarrow> cache_run ob budget c'"
| clear: "cache_run ob budget c \<Longrightarrow> clear c = Some (r, c') \<Longrightarrow> cache_run ob budget c'"

lemma lru_repr_new: "lru_repr ob (CacheContainer_new budget) []"
  by (simp add: lru_repr_def cache_repr_def dll_def CacheContainer_new_def)

lemma cache_run_repr:
  assumes "cache_run ob budget c" "unat budget < 2 ^ 32"
  shows "cacheTotalByteBudget c = budget \<and> (\<exists>ys. lru_repr ob c ys)"
  using assms(1)
proof induction
  case start
  show ?case using lru_repr_new [of ob budget] by (auto simp: CacheContainer_new_def)
next
  case (put c k obj r c')
  then show ?case using put_refines [of ob c _ k obj] assms(2) by fastforce
next
  case (get c k v c')
  then show ?case using get_entry_refines [of ob c _ k] by fastforce
next
  case (clear c r c')
  then show ?case using clear_refines [of ob c] by fastforce
qed

text \<open>The contract seen by a client: entry sizes as the code computes them.\<close>

lemma evict_suffix:
  "\<exists>pre. ys = pre @ evict ob n budget ys
    \<and> (pre = [] \<or> budget < n + lruSize ob (last pre # evict ob n budget ys))
    \<and> (n \<le> budget \<longrightarrow> n + lruSize ob (evict ob n budget ys) \<le> budget)"
proof (induction ys)
  case (Cons y ys)
  show ?case
  proof (cases "n + lruSize ob (y # ys) \<le> budget")
    case False
    obtain pre where pre: "ys = pre @ evict ob n budget ys"
      "pre = [] \<or> budget < n + lruSize ob (last pre # evict ob n budget ys)"
      "n \<le> budget \<longrightarrow> n + lruSize ob (evict ob n budget ys) \<le> budget"
      using Cons.IH by blast
    have e: "evict ob n budget (y # ys) = evict ob n budget ys" using False by simp
    have "budget < n + lruSize ob (last (y # pre) # evict ob n budget ys)"
      using pre False by (cases pre) auto
    then show ?thesis using pre e by (intro exI [of _ "y # pre"]) simp
  qed simp
qed simp

lemma evict_cases:
  obtains pre where "ys = pre @ evict ob n budget ys"
    "pre = [] \<or> budget < n + lruSize ob (last pre # evict ob n budget ys)"
    "n \<le> budget \<Longrightarrow> n + lruSize ob (evict ob n budget ys) \<le> budget"
  using evict_suffix [of ys ob n budget] by blast

text \<open>A container of 1000 bytes and one put, on which the properties are instantiated.\<close>

definition sampleBytes :: "nat \<Rightarrow> u32" where "sampleBytes obj = 10"

definition sampleContainer :: "nat CacheContainer" where "sampleContainer = CacheContainer_new 1000"

lemma sample_repr: "lru_repr sampleBytes sampleContainer []"
  and sample_budget: "cacheTotalByteBudget sampleContainer = 1000"
    "unat (cacheTotalByteBudget sampleContainer) < 2 ^ 32"
  by (simp_all add: sampleContainer_def lru_repr_new) (simp_all add: CacheContainer_new_def)

lemma sample_put: obtains c' where "put sampleBytes ''abc'' 7 sampleContainer = Some (True, c')"
proof -
  have "\<exists>c'. put sampleBytes ''abc'' 7 sampleContainer = Some (True, c')"
    by (simp add: put_def sampleContainer_def CacheContainer_new_def insertNewEntry_def fits_def
        addNewElementToLinkList_def sampleBytes_def getNumberOfBytesUsedByEntry_def
        getNumberOfBytes_def pointer_defs CacheEntry_new_def
        sizeof_unsigned_def sizeof_string_def sizeof_pointer_def sizeof_ListElement_def)
  then show thesis using that by blast
qed

text \<open>
  C17. Refinement: with a budget below \<open>2 ^ 32\<close> bytes the container with its hash map, its doubly
  linked list on the heap and its 32-bit size counter implements the abstract LRU list. Each of
  \<open>put\<close>, \<open>get\<close> and \<open>clear\<close> returns (no assertion fails, no dangling pointer is used, the
  eviction loop ends), gives the answer of the abstract operation and represents its result.
\<close>

theorem cache_refines_lru:
  assumes "lru_repr ob c ys" "unat (cacheTotalByteBudget c) < 2 ^ 32"
  shows "(\<exists>c'. put ob k obj c = Some (fst (abs_put ob (unat (cacheTotalByteBudget c)) k obj ys), c')
      \<and> lru_repr ob c' (snd (abs_put ob (unat (cacheTotalByteBudget c)) k obj ys))
      \<and> cacheTotalByteBudget c' = cacheTotalByteBudget c)
    \<and> (\<exists>c'. get_entry k c = Some (fst (abs_get k ys), c') \<and> lru_repr ob c' (snd (abs_get k ys))
      \<and> cacheTotalByteBudget c' = cacheTotalByteBudget c)
    \<and> (\<exists>c'. clear c = Some (True, c') \<and> lru_repr ob c' [] \<and> heap c' = Map.empty
      \<and> cacheTotalByteBudget c' = cacheTotalByteBudget c)"
  using put_refines [OF assms, of k obj] get_entry_refines [OF assms(1), of k]
    clear_refines [OF assms(1)] by blast

theorem cache_refines_lru_witness:
  "\<exists>c'. put sampleBytes ''abc'' 7 sampleContainer = Some (fst (abs_put sampleBytes 1000 ''abc'' 7 []), c')
    \<and> fst (abs_put sampleBytes 1000 ''abc'' 7 [])"
proof -
  have "fst (abs_put sampleBytes 1000 ''abc'' 7 [])" by code_simp
  with cache_refines_lru [OF sample_repr sample_budget(2), of "''abc''" 7] show ?thesis
    by (auto simp: sample_budget)
qed

text \<open>
  C29. Safety of every run: after any sequence of \<open>put\<close>, \<open>get\<close> and \<open>clear\<close> on a new container
  with a budget below \<open>2 ^ 32\<close>, the next operation returns, the bytes accounted for stay within
  the budget, and the container's own \<open>checkCacheConsistency\<close> answers \<open>true\<close>.
\<close>

theorem cache_run_safe:
  assumes "cache_run ob budget c" "unat budget < 2 ^ 32"
  shows "put ob k obj c \<noteq> None \<and> get_entry k c \<noteq> None \<and> clear c \<noteq> None
    \<and> unat (totalSizeUsed c) \<le> unat budget \<and> checkCacheConsistency ob c = Some True"
proof -
  obtain ys where ys: "lru_repr ob c ys" "cacheTotalByteBudget c = budget"
    using cache_run_repr [OF assms] by blast
  have "unat (totalSizeUsed c) \<le> unat budget"
    using ys by (auto simp: lru_repr_def cache_repr_def)
  moreover have "unat (cacheTotalByteBudget c) < 2 ^ 32" using assms(2) ys(2) by simp
  ultimately show ?thesis
    using put_refines [OF ys(1), of k obj] get_entry_refines [OF ys(1), of k]
      clear_refines [OF ys(1)] checkCacheConsistency_repr [OF ys(1)] by auto
qed

theorem cache_run_safe_witness:
  "\<exists>c. put sampleBytes ''abc'' 7 sampleContainer = Some (True, c)
    \<and> checkCacheConsistency sampleBytes c = Some True \<and> put sampleBytes ''xy'' 8 c \<noteq> None"
proof -
  obtain c where p: "put sampleBytes ''abc'' 7 sampleContainer = Some (True, c)" by (rule sample_put)
  have "cache_run sampleBytes 1000 c"
    by (rule cache_run.put [OF cache_run.start p [unfolded sampleContainer_def]])
  from cache_run_safe [OF this, of "''xy''" 8] p show ?thesis by simp
qed

text \<open>
  A value put successfully is returned by the next \<open>get\<close> of its key, and \<open>put\<close> fails only for
  an entry bigger than the whole budget.
\<close>

theorem cache_put_get:
  assumes "lru_repr ob c ys" "unat (cacheTotalByteBudget c) < 2 ^ 32"
    and "put ob k obj c = Some (r, c')"
  shows "(r \<longleftrightarrow> entrySize ob (newEntryFor ob k obj) \<le> unat (cacheTotalByteBudget c))
    \<and> (if r then \<exists>c''. get_entry k c' = Some (Some obj, c'') else c' = c)"
proof (cases "unat (cacheTotalByteBudget c) < entrySize ob (newEntryFor ob k obj)")
  case True
  have "r = False" using put_refines [OF assms(1,2), of k obj] assms(3) True
    by (auto simp: abs_put_def Let_def)
  moreover have "(ucast (fst (getNumberOfBytesUsedByEntry ob (CacheEntry_new k obj))) :: u64)
      > cacheTotalByteBudget c"
    using True by (simp add: entrySize_def newEntryFor_def size_stable word_less_nat_alt unat_ucast_32_64)
  ultimately show ?thesis using assms(3) True
    by (auto simp: put_def Let_def split: prod.splits)
next
  case False
  define zs where "zs = filter (\<lambda>y. fst y \<noteq> hashDJB2 k)
    (evict ob (entrySize ob (newEntryFor ob k obj)) (unat (cacheTotalByteBudget c)) ys)"
  have r: "r" "lru_repr ob c' (zs @ [(hashDJB2 k, newEntryFor ob k obj)])"
    using put_refines [OF assms(1,2), of k obj] assms(3) False
    by (auto simp: abs_put_def Let_def zs_def)
  have "map_of zs (hashDJB2 k) = None" by (auto simp: map_of_eq_None_iff zs_def)
  then have "fst (abs_get k (zs @ [(hashDJB2 k, newEntryFor ob k obj)])) = Some obj"
    by (simp add: abs_get_def map_add_def newEntryFor_def CacheEntry_new_def
        getNumberOfBytesUsedByEntry_def getNumberOfBytes_def Let_def)
  then show ?thesis using get_entry_refines [OF r(2), of k] r(1) False by auto
qed

theorem cache_put_get_witness:
  "\<exists>c' c''. put sampleBytes ''abc'' 7 sampleContainer = Some (True, c')
    \<and> get_entry ''abc'' c' = Some (Some 7, c'')"
proof -
  obtain c' where p: "put sampleBytes ''abc'' 7 sampleContainer = Some (True, c')" by (rule sample_put)
  from cache_put_get [OF sample_repr sample_budget(2) p] p show ?thesis by auto
qed

text \<open>
  Eviction is least recently used first and minimal: a successful \<open>put\<close> drops a prefix of the
  list (its oldest entries), and only as much as needed, in that putting back the youngest dropped
  entry would exceed the budget; what stays, with the new entry, is within the budget.
\<close>

theorem cache_put_evicts_oldest:
  assumes "lru_repr ob c ys" "unat (cacheTotalByteBudget c) < 2 ^ 32"
    and "put ob k obj c = Some (True, c')"
  defines "n \<equiv> entrySize ob (newEntryFor ob k obj)" and "budget \<equiv> unat (cacheTotalByteBudget c)"
  shows "\<exists>dropped kept. ys = dropped @ kept
    \<and> lru_repr ob c' (filter (\<lambda>y. fst y \<noteq> hashDJB2 k) kept @ [(hashDJB2 k, newEntryFor ob k obj)])
    \<and> n + lruSize ob kept \<le> budget
    \<and> (dropped = [] \<or> budget < n + lruSize ob (last dropped # kept))"
proof -
  have "\<not> budget < n \<and> lru_repr ob c' (snd (abs_put ob budget k obj ys))"
    using put_refines [OF assms(1,2), of k obj] assms(3)
    by (auto simp: abs_put_def Let_def n_def budget_def split: if_splits)
  moreover obtain pre where "ys = pre @ evict ob n budget ys"
    "pre = [] \<or> budget < n + lruSize ob (last pre # evict ob n budget ys)"
    "n \<le> budget \<Longrightarrow> n + lruSize ob (evict ob n budget ys) \<le> budget"
    using evict_cases [of ys ob n budget] by metis
  ultimately show ?thesis
    by (intro exI [of _ pre] exI [of _ "evict ob n budget ys"]) (auto simp: abs_put_def Let_def n_def)
qed

theorem cache_put_evicts_oldest_witness:
  "\<exists>c' dropped kept. put sampleBytes ''abc'' 7 sampleContainer = Some (True, c')
    \<and> [] = dropped @ kept \<and> lru_repr sampleBytes c'
        (filter (\<lambda>y. fst y \<noteq> hashDJB2 ''abc'') kept @ [(hashDJB2 ''abc'', newEntryFor sampleBytes ''abc'' 7)])"
proof -
  obtain c' where p: "put sampleBytes ''abc'' 7 sampleContainer = Some (True, c')" by (rule sample_put)
  from cache_put_evicts_oldest [OF sample_repr sample_budget(2) p] p show ?thesis by blast
qed

section \<open>Budgets that the counter cannot count\<close>

text \<open>Puts one after the other; a put that is refused ends the sequence.\<close>

fun putAll :: "('a \<Rightarrow> u32) \<Rightarrow> (string \<times> 'a) list \<Rightarrow> 'a CacheContainer \<Rightarrow> 'a CacheContainer option" where
  "putAll ob [] c = Some c"
| "putAll ob ((k, obj) # kvs) c = do { (ok, c) \<leftarrow> put ob k obj c; if ok then putAll ob kvs c else None }"

definition bytesOf :: "('a \<Rightarrow> u32) \<Rightarrow> (string \<times> 'a) list \<Rightarrow> nat" where
  "bytesOf ob kvs = sum_list (map (\<lambda>(k, obj). entrySize ob (newEntryFor ob k obj)) kvs)"

text \<open>The container with its list, its map and the counter modulo \<open>2 ^ 32\<close>.\<close>

definition wrapped_repr :: "('a \<Rightarrow> u32) \<Rightarrow> 'a CacheContainer \<Rightarrow> (u32 \<times> 'a CacheEntry \<times> addr) list \<Rightarrow> bool" where
  "wrapped_repr ob c xs \<longleftrightarrow> dll c (map (\<lambda>(k, e, a). (a, k)) xs) \<and> cacheEntries c = map_of xs
    \<and> distinct (map fst xs) \<and> totalSizeUsed c = of_nat (lruSize ob (map (\<lambda>(k, e, a). (k, e)) xs))
    \<and> 2 ^ 33 \<le> unat (cacheTotalByteBudget c)"

lemma fits_wide:
  assumes "2 ^ 33 \<le> unat (cacheTotalByteBudget c)"
  shows "fits n c" "\<not> (ucast n :: u64) > cacheTotalByteBudget c" "(ucast n :: u64) \<le> cacheTotalByteBudget c"
proof -
  have w: "unat (ucast (w :: u32) :: u64) < 2 ^ 32" for w
    using unsigned_less [of w] by (simp add: unat_ucast_32_64)
  have "(ucast (totalSizeUsed c) :: u64) \<le> cacheTotalByteBudget c"
    using w [of "totalSizeUsed c"] assms by (simp add: word_le_nat_alt)
  then show "fits n c" using w [of n] w [of "totalSizeUsed c"] assms
    by (simp add: fits_def word_le_nat_alt unat_sub)
  show "(ucast n :: u64) \<le> cacheTotalByteBudget c" using w [of n] assms by (simp add: word_le_nat_alt)
  then show "\<not> (ucast n :: u64) > cacheTotalByteBudget c" by simp
qed

lemma put_wide:
  assumes "wrapped_repr ob c xs" "hashDJB2 k \<notin> fst ` set xs"
  shows "\<exists>c'. put ob k obj c = Some (True, c') \<and> wrapped_repr ob c' (xs @ [(hashDJB2 k, newEntryFor ob k obj, brk c)])"
proof -
  define e where "e = newEntryFor ob k obj"
  define n where "n = fst (getNumberOfBytesUsedByEntry ob (CacheEntry_new k obj))"
  have ne: "getNumberOfBytesUsedByEntry ob (CacheEntry_new k obj) = (n, e)"
    by (simp add: n_def e_def newEntryFor_def)
  have sz: "entrySize ob e = unat n"
    unfolding entrySize_def e_def newEntryFor_def n_def size_stable ..
  obtain c' where c': "addNewElementToLinkList (hashDJB2 k) c = Some c'" "elementsLinkListLast c' = Some (brk c)"
    "sameEntries c c'" "dll c' (map (\<lambda>(k, e, a). (a, k)) xs @ [(brk c, hashDJB2 k)])"
    using addNewElementToLinkList_dll [of c _ "hashDJB2 k"] assms(1) unfolding wrapped_repr_def by blast
  let ?c = "c'\<lparr>cacheEntries := (cacheEntries c')(hashDJB2 k \<mapsto> (e, brk c)), totalSizeUsed := totalSizeUsed c' + n\<rparr>"
  have new: "cacheEntries c (hashDJB2 k) = None" using assms by (simp add: wrapped_repr_def map_of_eq_None_iff)
  have "(map_of xs)(hashDJB2 k \<mapsto> (e, brk c)) = map_of (xs @ [(hashDJB2 k, e, brk c)])"
    using assms(2) by (simp add: map_add_def fun_eq_iff map_of_eq_None_iff [symmetric] split: option.split)
  then have "wrapped_repr ob ?c (xs @ [(hashDJB2 k, e, brk c)])"
    using assms c'(3,4) sz by (simp add: wrapped_repr_def sameEntries_def dll_def add.commute)
  moreover have "put ob k obj c = Some (True, ?c)"
    using fits_wide [of c] fits_wide(3) [of ?c] assms(1) c'(1-3) new
    by (simp add: put_def ne insertNewEntry_def assert_ok_def sameEntries_def wrapped_repr_def)
  ultimately show ?thesis unfolding e_def by blast
qed

lemma putAll_wide:
  assumes "wrapped_repr ob c xs" "distinct (map fst xs @ map (hashDJB2 \<circ> fst) kvs)"
  shows "\<exists>c' ys. putAll ob kvs c = Some c' \<and> wrapped_repr ob c' (xs @ ys)
    \<and> map (\<lambda>(k, e, a). (k, e)) ys = map (\<lambda>(k, obj). (hashDJB2 k, newEntryFor ob k obj)) kvs"
  using assms
proof (induction kvs arbitrary: c xs)
  case (Cons kv kvs)
  obtain k obj where kv: "kv = (k, obj)" by (cases kv)
  have "hashDJB2 k \<notin> fst ` set xs" using Cons.prems(2) kv by auto
  from put_wide [OF Cons.prems(1) this, of obj] obtain c1 where
    c1: "put ob k obj c = Some (True, c1)" "wrapped_repr ob c1 (xs @ [(hashDJB2 k, newEntryFor ob k obj, brk c)])" by blast
  moreover have "distinct (map fst (xs @ [(hashDJB2 k, newEntryFor ob k obj, brk c)]) @ map (hashDJB2 \<circ> fst) kvs)"
    using Cons.prems(2) kv by (auto simp: comp_def)
  ultimately obtain c' ys where "putAll ob kvs c1 = Some c'"
    "wrapped_repr ob c' ((xs @ [(hashDJB2 k, newEntryFor ob k obj, brk c)]) @ ys)"
    "map (\<lambda>(k, e, a). (k, e)) ys = map (\<lambda>(k, obj). (hashDJB2 k, newEntryFor ob k obj)) kvs"
    using Cons.IH by blast
  then show ?case using c1(1) kv
    by (intro exI [of _ c'] exI [of _ "(hashDJB2 k, newEntryFor ob k obj, brk c) # ys"]) simp
qed auto

text \<open>
  C33. The byte budget is not enforced when it is at least \<open>2 ^ 33\<close> bytes (8 GiB; the budget has 64
  bits, the counter of the bytes used 32): any number of entries of any size, under keys with different
  hashes, are all accepted and all kept, whatever they add up to, and the counter shows the sum modulo
  \<open>2 ^ 32\<close>.
\<close>

theorem cache_counter_wraps:
  assumes "2 ^ 33 \<le> unat budget" "distinct (map (hashDJB2 \<circ> fst) kvs)"
  shows "\<exists>c. putAll ob kvs (CacheContainer_new budget) = Some c
    \<and> (\<forall>(k, obj) \<in> set kvs. \<exists>a. cacheEntries c (hashDJB2 k) = Some (newEntryFor ob k obj, a))
    \<and> unat (totalSizeUsed c) = bytesOf ob kvs mod 2 ^ 32"
proof -
  have "wrapped_repr ob (CacheContainer_new budget) []"
    using assms(1) by (simp add: wrapped_repr_def dll_def CacheContainer_new_def)
  from putAll_wide [OF this, of kvs] assms(2) obtain c ys where
    c: "putAll ob kvs (CacheContainer_new budget) = Some c" "wrapped_repr ob c ys"
      "map (\<lambda>(k, e, a). (k, e)) ys = map (\<lambda>(k, obj). (hashDJB2 k, newEntryFor ob k obj)) kvs" by auto
  have "\<exists>a. cacheEntries c (hashDJB2 k) = Some (newEntryFor ob k obj, a)" if "(k, obj) \<in> set kvs" for k obj
  proof -
    have "(hashDJB2 k, newEntryFor ob k obj) \<in> set (map (\<lambda>(k, e, a). (k, e)) ys)" using c(3) that by force
    then obtain a where "(hashDJB2 k, newEntryFor ob k obj, a) \<in> set ys" by auto
    then show ?thesis using c(2) by (auto simp: wrapped_repr_def)
  qed
  moreover have "lruSize ob (map (\<lambda>(k, e, a). (k, e)) ys) = bytesOf ob kvs"
    unfolding c(3) lruSize_def bytesOf_def by (auto intro!: arg_cong [where f = sum_list])
  ultimately show ?thesis using c by (auto simp: wrapped_repr_def unat_of_nat)
qed

text \<open>Three entries of 3,000,000,000 bytes under a budget of 8 GiB.\<close>

theorem cache_counter_wraps_witness:
  "\<exists>c. putAll (\<lambda>_. 3000000000) [(''a'', ()), (''b'', ()), (''c'', ())] (CacheContainer_new 8589934592) = Some c
    \<and> list_all (\<lambda>k. cacheEntries c (hashDJB2 k) \<noteq> None) [''a'', ''b'', ''c'']
    \<and> unat (totalSizeUsed c) = 3 * 3000000072 mod 2 ^ 32"
proof -
  let ?kvs = "[(''a'', ()), (''b'', ()), (''c'', ())]"
  have "hashDJB2 ''a'' = 5863110" "hashDJB2 ''b'' = 5863143" "hashDJB2 ''c'' = 5863176" by code_simp+
  then have "distinct (map (hashDJB2 \<circ> fst) ?kvs)" by simp
  moreover have "bytesOf (\<lambda>_. 3000000000) ?kvs = 3 * 3000000072"
    by (simp add: bytesOf_def entrySize_def newEntryFor_def getNumberOfBytesUsedByEntry_def getNumberOfBytes_def
      CacheEntry_new_def sizeof_unsigned_def sizeof_string_def sizeof_pointer_def sizeof_ListElement_def)
  ultimately show ?thesis
    using cache_counter_wraps [of 8589934592 ?kvs "\<lambda>_. 3000000000"] by fastforce
qed

end
