(* ===== verification/Record_Items.thy ===== *)
theory Record_Items
  imports Srch2_Prelude Complex_Main
begin

text \<open>
  The tuples of the physical plan and their pools,
  \<^verbatim>\<open>src/src/core/operation/PhysicalPlanRecordItemFactory.h\<close>. Scores are real numbers: the rounding
  of \<^verbatim>\<open>float\<close> is not modelled. Pools live in a store from pool addresses to the items they own;
  the public operations of the factory hold its lock and are atomic.
\<close>

section \<open>Record items\<close>

datatype TermType = TERM_TYPE_PREFIX | TERM_TYPE_COMPLETE | TERM_TYPE_NOT_SPECIFIED | TERM_TYPE_PHRASE

record PhysicalPlanRecordItem =
  geoFlag :: bool
  recordId :: u32
  recordStaticScore :: real
  recordRuntimeScore :: real
  matchingPrefixes :: "nat list"
  editDistances :: "u32 list"
  attributeIdsList :: "u32 list list"
  positionIndexOffsets :: "u32 list"
  termTypes :: "TermType list"
  valuesOfParticipatingRefiningAttributes :: "(string \<times> string) list"

text \<open>The constructor sets \<open>geoFlag\<close> and the empty containers; the other fields keep the content
  of the memory, here those of \<open>mem\<close>.\<close>

definition RecordItem_new :: "PhysicalPlanRecordItem \<Rightarrow> PhysicalPlanRecordItem" where
  "RecordItem_new mem = mem\<lparr>geoFlag := False, matchingPrefixes := [], editDistances := [],
     attributeIdsList := [], positionIndexOffsets := [], termTypes := [],
     valuesOfParticipatingRefiningAttributes := []\<rparr>"

definition RecordItem_clear :: "PhysicalPlanRecordItem \<Rightarrow> PhysicalPlanRecordItem" where
  "RecordItem_clear r = r\<lparr>valuesOfParticipatingRefiningAttributes := [], matchingPrefixes := [],
     editDistances := [], attributeIdsList := [], positionIndexOffsets := [], termTypes := []\<rparr>"

text \<open>The copy made by \<open>clone\<close> and \<open>cloneForCache\<close>: the getters append to empty vectors.\<close>

definition copyFields :: "PhysicalPlanRecordItem \<Rightarrow> PhysicalPlanRecordItem \<Rightarrow> PhysicalPlanRecordItem" where
  "copyFields oldObj newObj = newObj\<lparr>recordId := recordId oldObj,
     recordRuntimeScore := recordRuntimeScore oldObj,
     matchingPrefixes := [] @ matchingPrefixes oldObj, editDistances := [] @ editDistances oldObj,
     attributeIdsList := [] @ attributeIdsList oldObj,
     positionIndexOffsets := [] @ positionIndexOffsets oldObj,
     termTypes := termTypes newObj @ termTypes oldObj\<rparr>"

definition cloneForCache :: "PhysicalPlanRecordItem \<Rightarrow> PhysicalPlanRecordItem \<Rightarrow> PhysicalPlanRecordItem" where
  "cloneForCache mem oldObj = copyFields oldObj (RecordItem_new mem)"

section \<open>Pools and their factory\<close>

type_synonym pool = "PhysicalPlanRecordItem list"

definition getNumberOfObjects :: "pool \<Rightarrow> nat" where
  "getNumberOfObjects p = length p"

definition createRecordItem :: "PhysicalPlanRecordItem \<Rightarrow> pool \<Rightarrow> PhysicalPlanRecordItem \<times> pool" where
  "createRecordItem mem p = (let newTuple = RecordItem_new mem in (newTuple, p @ [newTuple]))"

definition clone :: "PhysicalPlanRecordItem \<Rightarrow> PhysicalPlanRecordItem \<Rightarrow> pool \<Rightarrow> PhysicalPlanRecordItem \<times> pool" where
  "clone mem oldObj p =
    (let (newObj, p') = createRecordItem mem p; newObj = copyFields oldObj newObj
     in (newObj, butlast p' @ [newObj]))"

definition refresh :: "pool \<Rightarrow> pool" where "refresh p = []"

definition Pool_clear :: "pool \<Rightarrow> pool" where "Pool_clear p = refresh p"

text \<open>\<open>idlePools\<close> lists the unordered set in its iteration order; \<open>nextPool\<close> is the allocator.\<close>

record RecordItemFactory =
  busyPools :: "u32 \<rightharpoonup> nat"
  idlePools :: "nat list"
  handleCounter :: u32
  pools :: "nat \<Rightarrow> pool"
  nextPool :: nat

definition Factory_new :: "RecordItemFactory" where
  "Factory_new = \<lparr>busyPools = Map.empty, idlePools = [], handleCounter = 0, pools = (\<lambda>_. []), nextPool = 0\<rparr>"

definition Factory_clear :: "RecordItemFactory \<Rightarrow> bool \<times> RecordItemFactory" where
  "Factory_clear f = (True, fold (\<lambda>p f. f\<lparr>pools := (pools f)(p := Pool_clear (pools f p))\<rparr>) (idlePools f) f)"

text \<open>The first idle pool with the most objects.\<close>

fun biggestPool :: "(nat \<Rightarrow> pool) \<Rightarrow> nat \<Rightarrow> nat list \<Rightarrow> nat" where
  "biggestPool ps poolToReturn [] = poolToReturn"
| "biggestPool ps poolToReturn (p # rest) =
    biggestPool ps (if getNumberOfObjects (ps p) > getNumberOfObjects (ps poolToReturn) then p
                    else poolToReturn) rest"

definition openRecordItemPool :: "RecordItemFactory \<Rightarrow> u32 \<times> RecordItemFactory" where
  "openRecordItemPool f =
    (let h = handleCounter f;
         f = f\<lparr>handleCounter := handleCounter f + 1\<rparr>;
         (newBusyPool, f) =
           (case idlePools f of
             p # rest \<Rightarrow> (let b = biggestPool (pools f) p rest
                         in (b, f\<lparr>idlePools := remove1 b (idlePools f)\<rparr>))
           | [] \<Rightarrow> (nextPool f, f\<lparr>pools := (pools f)(nextPool f := []), nextPool := nextPool f + 1\<rparr>))
     in (h, f\<lparr>busyPools := (busyPools f)(h \<mapsto> newBusyPool)\<rparr>))"

definition getRecordItemPool :: "u32 \<Rightarrow> RecordItemFactory \<Rightarrow> nat option" where
  "getRecordItemPool h f = busyPools f h"

definition closeRecordItemPool :: "u32 \<Rightarrow> RecordItemFactory \<Rightarrow> RecordItemFactory option" where
  "closeRecordItemPool h f =
    (case busyPools f h of
      None \<Rightarrow> None
    | Some p \<Rightarrow> Some (f\<lparr>busyPools := (busyPools f)(h := None),
        pools := (pools f)(p := refresh (pools f p)), idlePools := p # idlePools f\<rparr>))"

section \<open>No pool is shared\<close>

text \<open>Every pool belongs to one handle or is idle and empty; handles in use are below the counter.\<close>

definition factory_ok :: "RecordItemFactory \<Rightarrow> bool" where
  "factory_ok f \<longleftrightarrow> inj_on (busyPools f) (dom (busyPools f)) \<and> distinct (idlePools f)
    \<and> set (idlePools f) \<inter> ran (busyPools f) = {}
    \<and> (\<forall>p \<in> set (idlePools f) \<union> ran (busyPools f). p < nextPool f)
    \<and> (\<forall>p \<in> set (idlePools f). pools f p = [])
    \<and> (\<forall>h \<in> dom (busyPools f). h < handleCounter f)"

lemma biggestPool_in: "biggestPool ps p rest \<in> set (p # rest)"
  by (induction ps p rest rule: biggestPool.induct) auto

lemma factory_ok_assign:
  assumes "factory_ok f" "p \<notin> ran (busyPools f)" "p \<notin> set idle" "set idle \<subseteq> set (idlePools f)"
    "distinct idle" "p < np" "nextPool f \<le> np" "handleCounter f < h'"
    "\<forall>q \<in> set idle. ps q = []"
  shows "factory_ok \<lparr>busyPools = (busyPools f)(handleCounter f \<mapsto> p), idlePools = idle,
    handleCounter = h', pools = ps, nextPool = np\<rparr>"
proof -
  have h: "busyPools f (handleCounter f) = None"
    using assms(1) by (fastforce simp: factory_ok_def)
  have "inj_on ((busyPools f)(handleCounter f \<mapsto> p)) (dom ((busyPools f)(handleCounter f \<mapsto> p)))"
    using assms(1,2) by (auto simp: factory_ok_def inj_on_def ran_def split: if_splits)
  moreover have "ran ((busyPools f)(handleCounter f \<mapsto> p)) = insert p (ran (busyPools f))"
    using h by simp
  moreover have "\<forall>k \<in> insert (handleCounter f) (dom (busyPools f)). k < h'"
    using assms(1,8) by (auto simp: factory_ok_def intro: order_less_trans)
  moreover have "\<forall>q \<in> set idle \<union> insert p (ran (busyPools f)). q < np"
    using assms(1,4,6,7) unfolding factory_ok_def by (metis Un_iff insert_iff order_less_le_trans subsetD)
  moreover have "set idle \<inter> insert p (ran (busyPools f)) = {}"
    using assms(1,3,4) by (auto simp: factory_ok_def)
  ultimately show ?thesis using assms(5,9) by (simp add: factory_ok_def)
qed

lemma openRecordItemPool_ok:
  assumes ok: "factory_ok f" and wrap: "unat (handleCounter f) < 2 ^ 32 - 1"
  shows "fst (openRecordItemPool f) \<notin> dom (busyPools f)
    \<and> factory_ok (snd (openRecordItemPool f))
    \<and> (\<exists>p. getRecordItemPool (fst (openRecordItemPool f)) (snd (openRecordItemPool f)) = Some p
        \<and> pools (snd (openRecordItemPool f)) p = [] \<and> p \<notin> ran (busyPools f))"
proof -
  have h: "handleCounter f \<notin> dom (busyPools f)" using ok by (fastforce simp: factory_ok_def)
  have lt: "handleCounter f < handleCounter f + 1"
    using wrap by (simp add: word_less_nat_alt unat_word_ariths)
  show ?thesis
  proof (cases "idlePools f")
    case Nil
    have "nextPool f \<notin> ran (busyPools f)" using ok by (auto simp: factory_ok_def)
    with factory_ok_assign [OF ok this, of "[]" "nextPool f + 1" "handleCounter f + 1"
        "(pools f)(nextPool f := [])"] lt Nil
    have "factory_ok (f\<lparr>handleCounter := handleCounter f + 1, pools := (pools f)(nextPool f := []),
       nextPool := Suc (nextPool f), busyPools := (busyPools f)(handleCounter f \<mapsto> nextPool f)\<rparr>)"
      by (cases f) simp
    then show ?thesis using h Nil \<open>nextPool f \<notin> ran (busyPools f)\<close>
      by (simp add: openRecordItemPool_def getRecordItemPool_def Let_def)
  next
    case (Cons q qs)
    let ?b = "biggestPool (pools f) q qs"
    have b: "?b \<in> set (idlePools f)" using biggestPool_in [of "pools f" q qs] Cons by simp
    then have facts: "?b \<notin> ran (busyPools f)" "?b < nextPool f" "pools f ?b = []"
      "distinct (idlePools f)"
      using ok by (auto simp: factory_ok_def)
    have sub: "set (remove1 ?b (idlePools f)) \<subseteq> set (idlePools f)" by (rule set_remove1_subset)
    then have "\<forall>q \<in> set (remove1 ?b (idlePools f)). pools f q = []"
      using ok by (auto simp: factory_ok_def)
    with factory_ok_assign [OF ok facts(1), of "remove1 ?b (idlePools f)" "nextPool f"
        "handleCounter f + 1" "pools f"] sub facts lt
    have "factory_ok (f\<lparr>handleCounter := handleCounter f + 1, idlePools := remove1 ?b (idlePools f),
       busyPools := (busyPools f)(handleCounter f \<mapsto> ?b)\<rparr>)"
      by (cases f) simp
    then show ?thesis using facts h Cons
      by (simp add: openRecordItemPool_def getRecordItemPool_def Let_def)
  qed
qed

lemma closeRecordItemPool_ok:
  assumes ok: "factory_ok f" and p: "busyPools f h = Some p"
  shows "\<exists>f'. closeRecordItemPool h f = Some f' \<and> factory_ok f' \<and> handleCounter f' = handleCounter f"
proof -
  have "p \<in> ran (busyPools f)" using p by (rule ranI)
  then have facts: "p \<notin> set (idlePools f)" "p < nextPool f" using ok by (auto simp: factory_ok_def)
  have ran: "ran ((busyPools f)(h := None)) \<subseteq> ran (busyPools f) - {p}"
    using ok p by (auto simp: factory_ok_def ran_def inj_on_def dom_def split: if_splits)
  have "inj_on ((busyPools f)(h := None)) (dom ((busyPools f)(h := None)))"
    using ok by (auto simp: factory_ok_def inj_on_def split: if_splits)
  then show ?thesis using ok p facts ran
    by (simp add: closeRecordItemPool_def factory_ok_def refresh_def) blast
qed

lemma Factory_clear_ok:
  assumes "factory_ok f"
  shows "Factory_clear f = (True, f)"
proof -
  have "\<forall>p \<in> set (idlePools f). pools f p = []" using assms by (simp add: factory_ok_def)
  then have "fold (\<lambda>p f. f\<lparr>pools := (pools f)(p := Pool_clear (pools f p))\<rparr>) qs f = f"
    if "set qs \<subseteq> set (idlePools f)" for qs
    using that by (induction qs) (simp_all add: Pool_clear_def refresh_def fun_upd_idem)
  then show ?thesis by (simp add: Factory_clear_def)
qed

text \<open>Items are created, cloned and changed only in the pool of a handle in use.\<close>

lemma busyPool_update_ok:
  assumes "factory_ok f" "busyPools f h = Some p"
  shows "factory_ok (f\<lparr>pools := (pools f)(p := q)\<rparr>)"
proof -
  have "p \<notin> set (idlePools f)" using assms ranI [of "busyPools f" h p] by (auto simp: factory_ok_def)
  then show ?thesis using assms(1) by (auto simp: factory_ok_def)
qed

text \<open>
  Runs of the factory, counting the calls of \<open>openRecordItemPool\<close>. The users of the open pools
  create items in them, clone items into them and call the setters of an item that a pool owns.
\<close>

inductive factory_run :: "nat \<Rightarrow> RecordItemFactory \<Rightarrow> bool" where
  start: "factory_run 0 Factory_new"
| opened: "factory_run n f \<Longrightarrow> factory_run (Suc n) (snd (openRecordItemPool f))"
| closed: "factory_run n f \<Longrightarrow> closeRecordItemPool h f = Some f' \<Longrightarrow> factory_run n f'"
| cleared: "factory_run n f \<Longrightarrow> factory_run n (snd (Factory_clear f))"
| created: "factory_run n f \<Longrightarrow> getRecordItemPool h f = Some p \<Longrightarrow> createRecordItem mem (pools f p) = (r, q) \<Longrightarrow>
    factory_run n (f\<lparr>pools := (pools f)(p := q)\<rparr>)"
| cloned: "factory_run n f \<Longrightarrow> getRecordItemPool h f = Some p \<Longrightarrow> clone mem old (pools f p) = (r, q) \<Longrightarrow>
    factory_run n (f\<lparr>pools := (pools f)(p := q)\<rparr>)"
| changed: "factory_run n f \<Longrightarrow> getRecordItemPool h f = Some p \<Longrightarrow> i < getNumberOfObjects (pools f p) \<Longrightarrow>
    factory_run n (f\<lparr>pools := (pools f)(p := (pools f p)[i := r])\<rparr>)"

lemma handleCounter_open: "handleCounter (snd (openRecordItemPool f)) = handleCounter f + 1"
  by (simp add: openRecordItemPool_def Let_def split: list.split)

lemma factory_run_ok:
  "factory_run n f \<Longrightarrow> n < 2 ^ 32 - 1 \<Longrightarrow> factory_ok f \<and> unat (handleCounter f) = n"
proof (induction rule: factory_run.induct)
  case start
  then show ?case by (simp add: factory_ok_def Factory_new_def)
next
  case (opened n f)
  then have ok: "factory_ok f" "unat (handleCounter f) = n" by auto
  have "unat (handleCounter f) < 2 ^ 32 - 1" using ok(2) opened.prems by simp
  moreover have "unat (handleCounter f + 1) = Suc n"
    using ok(2) opened.prems by (simp add: unat_word_ariths)
  ultimately show ?case using openRecordItemPool_ok [OF ok(1)] by (simp add: handleCounter_open)
next
  case (closed n f h f')
  then obtain p where "busyPools f h = Some p" by (auto simp: closeRecordItemPool_def split: option.splits)
  with closeRecordItemPool_ok [of f h p] closed show ?case by auto
next
  case (cleared n f)
  then show ?case by (simp add: Factory_clear_ok)
qed (auto simp: getRecordItemPool_def intro: busyPool_update_ok)

text \<open>The other handles keep their pools with the items in them.\<close>

definition undisturbed :: "u32 set \<Rightarrow> RecordItemFactory \<Rightarrow> RecordItemFactory \<Rightarrow> bool" where
  "undisturbed hs f f' \<longleftrightarrow> (\<forall>h \<in> hs. getRecordItemPool h f' = getRecordItemPool h f
     \<and> (\<forall>p. getRecordItemPool h f = Some p \<longrightarrow> pools f' p = pools f p))"

lemma openRecordItemPool_undisturbed:
  assumes "factory_ok f"
  shows "undisturbed (dom (busyPools f)) f (snd (openRecordItemPool f))"
proof -
  have "handleCounter f \<notin> dom (busyPools f)" using assms by (fastforce simp: factory_ok_def)
  moreover have "nextPool f \<notin> ran (busyPools f)" using assms by (fastforce simp: factory_ok_def)
  ultimately show ?thesis
    by (auto simp: undisturbed_def getRecordItemPool_def openRecordItemPool_def Let_def ran_def split: list.split)
qed

lemma closeRecordItemPool_undisturbed:
  assumes "factory_ok f" "closeRecordItemPool h f = Some f'"
  shows "undisturbed (- {h}) f f'"
proof -
  obtain p where p: "busyPools f h = Some p" using assms(2) by (auto simp: closeRecordItemPool_def split: option.splits)
  have "busyPools f k \<noteq> Some p" if "k \<noteq> h" for k
    using assms(1) p that by (auto simp: factory_ok_def inj_on_def dom_def)
  then show ?thesis using assms(2) p
    by (auto simp: closeRecordItemPool_def undisturbed_def getRecordItemPool_def)
qed

text \<open>
  C31. In every run of the record item factory with fewer than \<open>2 ^ 32 - 1\<close> opened pools, whose
  users create, clone and change items in the open pools: two handles in use never share a pool;
  \<open>openRecordItemPool\<close> hands out a handle that is not in use, with an empty pool that no other
  reader holds, though the pools it reuses had items; and opening a pool or closing the pool of a handle
  leaves the other handles in use with the pools and the items they had.
\<close>

theorem record_pools_exclusive:
  assumes "factory_run n f" "n < 2 ^ 32 - 1"
  shows "inj_on (busyPools f) (dom (busyPools f))
    \<and> fst (openRecordItemPool f) \<notin> dom (busyPools f)
    \<and> (\<exists>p. getRecordItemPool (fst (openRecordItemPool f)) (snd (openRecordItemPool f)) = Some p
        \<and> pools (snd (openRecordItemPool f)) p = [] \<and> p \<notin> ran (busyPools f))
    \<and> undisturbed (dom (busyPools f)) f (snd (openRecordItemPool f))
    \<and> (\<forall>h f'. closeRecordItemPool h f = Some f' \<longrightarrow> undisturbed (- {h}) f f')"
proof -
  have ok: "factory_ok f" "unat (handleCounter f) = n" using factory_run_ok [OF assms] by auto
  then have "unat (handleCounter f) < 2 ^ 32 - 1" using assms(2) by simp
  from openRecordItemPool_ok [OF ok(1) this] openRecordItemPool_undisturbed [OF ok(1)]
    closeRecordItemPool_undisturbed [OF ok(1)] show ?thesis using ok(1)
    by (simp add: factory_ok_def)
qed

text \<open>Two pools are opened, an item is created in each, the first one is closed: it is handed out again, empty.\<close>

definition someItem :: PhysicalPlanRecordItem where
  "someItem = \<lparr>geoFlag = False, recordId = 7, recordStaticScore = 0, recordRuntimeScore = 0, matchingPrefixes = [],
     editDistances = [], attributeIdsList = [], positionIndexOffsets = [], termTypes = [],
     valuesOfParticipatingRefiningAttributes = []\<rparr>"

definition twoPools :: RecordItemFactory where
  "twoPools = (let f = snd (openRecordItemPool (snd (openRecordItemPool Factory_new)))
     in f\<lparr>pools := (pools f)(0 := snd (createRecordItem someItem (pools f 0)), 1 := snd (createRecordItem someItem (pools f 1)))\<rparr>)"

lemma twoPools_run: "factory_run 2 twoPools"
proof -
  let ?f = "snd (openRecordItemPool (snd (openRecordItemPool Factory_new)))"
  let ?q = "\<lambda>p. snd (createRecordItem someItem (pools ?f p))"
  have 2: "factory_run (Suc (Suc 0)) ?f" by (intro factory_run.intros)
  have h: "getRecordItemPool 0 ?f = Some 0" "getRecordItemPool 1 ?f = Some 1"
    by (simp_all add: getRecordItemPool_def openRecordItemPool_def Factory_new_def Let_def)
  have "factory_run (Suc (Suc 0)) (?f\<lparr>pools := (pools ?f)(0 := ?q 0)\<rparr>)"
    by (rule factory_run.created [OF 2 h(1), where mem = someItem and r = "RecordItem_new someItem"])
      (simp add: createRecordItem_def Let_def)
  from factory_run.created [OF this, of 1 1 someItem "RecordItem_new someItem" "?q 1"] h(2)
  show ?thesis by (simp add: twoPools_def Let_def numeral_2_eq_2 getRecordItemPool_def createRecordItem_def)
qed

theorem record_pools_exclusive_witness:
  "\<exists>f. closeRecordItemPool 0 twoPools = Some f
    \<and> pools (snd (openRecordItemPool f)) 0 = [] \<and> pools f 1 = [RecordItem_new someItem]"
proof -
  have c: "\<exists>f. closeRecordItemPool 0 twoPools = Some f \<and> idlePools f = [0] \<and> handleCounter f = 2
      \<and> getRecordItemPool 1 twoPools = Some 1 \<and> pools twoPools 1 = [RecordItem_new someItem]"
    by (simp add: closeRecordItemPool_def twoPools_def openRecordItemPool_def Factory_new_def Let_def
      getRecordItemPool_def createRecordItem_def)
  then obtain f where f: "closeRecordItemPool 0 twoPools = Some f" "idlePools f = [0]"
    "getRecordItemPool 1 twoPools = Some 1" "pools twoPools 1 = [RecordItem_new someItem]" by blast
  have "undisturbed (- {0}) twoPools f"
    using record_pools_exclusive [OF twoPools_run] f(1) by simp
  then have "pools f 1 = [RecordItem_new someItem]" using f(3,4) by (auto simp: undisturbed_def dest: bspec [of _ _ 1])
  moreover have "factory_run 2 f" using factory_run.closed [OF twoPools_run f(1)] .
  from record_pools_exclusive [OF this] have "pools (snd (openRecordItemPool f)) 0 = []"
    using f(2) by (auto simp: openRecordItemPool_def getRecordItemPool_def Let_def)
  ultimately show ?thesis using f(1) by blast
qed

end
