(* ===== verification/Cache_Manager.thy ===== *)
theory Cache_Manager
  imports Lru_Cache Record_Items
begin

text \<open>
  The caches built on the LRU container, \<^verbatim>\<open>src/src/core/operation/CacheManager.cpp\<close> and
  \<^verbatim>\<open>CacheManager.h\<close>: active nodes by prefix, query results, physical operators. The object types are
  parameters: \<open>thresholdOf\<close> and \<open>prefixOf\<close> are \<open>getEditDistanceThreshold\<close> and the UTF-8 form of
  \<open>getPrefix\<close> of a \<open>PrefixActiveNodeSet\<close>, \<open>ob\<close> is its \<open>getNumberOfBytes\<close>.
\<close>

section \<open>Keys\<close>

text \<open>\<^verbatim>\<open>std::stringstream\<close> prints an unsigned number in decimal.\<close>

definition digit :: "nat \<Rightarrow> char" where
  "digit d = char_of (48 + d)"

fun decimal :: "nat \<Rightarrow> string" where
  "decimal n = (if n < 10 then [digit n] else decimal (n div 10) @ [digit (n mod 10)])"

declare decimal.simps [simp del]

definition findKey :: "nat \<Rightarrow> string \<Rightarrow> string" where
  "findKey termThreshold prefix = prefix @ ''$'' @ (if termThreshold = 0 then ''0'' else ''1'')"

definition setKey :: "nat \<Rightarrow> string \<Rightarrow> string" where
  "setKey threshold prefix = prefix @ ''$'' @ decimal threshold"

section \<open>Active nodes\<close>

text \<open>The loop over the prefixes of the keyword, from the whole keyword down to two bytes.\<close>

fun findPrefixLoop ::
  "('a \<Rightarrow> nat) \<Rightarrow> nat \<Rightarrow> string \<Rightarrow> nat \<Rightarrow> 'a CacheContainer \<Rightarrow> ('a option \<times> 'a CacheContainer) option" where
  "findPrefixLoop thresholdOf termThreshold keyword i c =
    (if i \<ge> 2 then do {
       (cacheHit, c) \<leftarrow> get_entry (findKey termThreshold (take i keyword)) c;
       case cacheHit of
         Some s \<Rightarrow> if thresholdOf s \<ge> termThreshold then Some (Some s, c)
                  else findPrefixLoop thresholdOf termThreshold keyword (i - 1) c
       | None \<Rightarrow> findPrefixLoop thresholdOf termThreshold keyword (i - 1) c
     }
     else Some (None, c))"

declare findPrefixLoop.simps [simp del]

definition findLongestPrefixActiveNodes ::
  "('a \<Rightarrow> nat) \<Rightarrow> nat \<Rightarrow> string \<Rightarrow> 'a CacheContainer \<Rightarrow> ('a option \<times> 'a CacheContainer) option" where
  "findLongestPrefixActiveNodes thresholdOf termThreshold keyword c =
    findPrefixLoop thresholdOf termThreshold keyword (length keyword) c"

definition setPrefixActiveNodeSet ::
  "('a \<Rightarrow> u32) \<Rightarrow> ('a \<Rightarrow> nat) \<Rightarrow> ('a \<Rightarrow> string) \<Rightarrow> 'a \<Rightarrow> 'a CacheContainer \<Rightarrow> (int \<times> 'a CacheContainer) option" where
  "setPrefixActiveNodeSet ob thresholdOf prefixOf s c = do {
     (_, c) \<leftarrow> put ob (setKey (thresholdOf s) (prefixOf s)) s c;
     Some (1, c)
   }"

section \<open>Query results, physical operators and the manager\<close>

definition getQueryResults :: "string \<Rightarrow> 'q CacheContainer \<Rightarrow> ('q option \<times> 'q CacheContainer) option" where
  "getQueryResults k c = get_entry k c"

definition setQueryResults :: "('q \<Rightarrow> u32) \<Rightarrow> string \<Rightarrow> 'q \<Rightarrow> 'q CacheContainer \<Rightarrow> 'q CacheContainer option" where
  "setQueryResults ob k obj c = map_option snd (put ob k obj c)"

text \<open>The physical operators cache is switched off: a lookup fails and a store does nothing.\<close>

definition getPhysicalOperatorsInfo :: "string \<Rightarrow> 'p CacheContainer \<Rightarrow> bool \<times> 'p CacheContainer" where
  "getPhysicalOperatorsInfo k c = (False, c)"

definition setPhysicalOperatosInfo :: "string \<Rightarrow> 'p \<Rightarrow> 'p CacheContainer \<Rightarrow> 'p CacheContainer" where
  "setPhysicalOperatosInfo k obj c = c"

record ('a, 'q, 'p) CacheManager =
  aCache :: "'a CacheContainer"
  qCache :: "'q CacheContainer"
  pCache :: "'p CacheContainer"
  physicalPlanRecordItemFactory :: RecordItemFactory

text \<open>The byte budget is split 3 : 2 : 4; the truncation of the \<^verbatim>\<open>double\<close> quotient is the floor.\<close>

definition CacheManager_new :: "u64 \<Rightarrow> ('a, 'q, 'p) CacheManager" where
  "CacheManager_new byteSizeOfCache =
    \<lparr>aCache = CacheContainer_new (of_nat (unat byteSizeOfCache * 3 div 9)),
     qCache = CacheContainer_new (of_nat (unat byteSizeOfCache * 2 div 9)),
     pCache = CacheContainer_new (of_nat (unat byteSizeOfCache * 4 div 9)),
     physicalPlanRecordItemFactory = Factory_new\<rparr>"

text \<open>\<open>clear\<close> of the manager: a conjunction that stops at the first \<open>false\<close>.\<close>

definition CacheManager_clear :: "('a, 'q, 'p) CacheManager \<Rightarrow> (bool \<times> ('a, 'q, 'p) CacheManager) option" where
  "CacheManager_clear m = do {
     (r, a) \<leftarrow> Lru_Cache.clear (aCache m);
     let m = m\<lparr>aCache := a\<rparr>;
     if \<not> r then Some (False, m) else do {
       (r, q) \<leftarrow> Lru_Cache.clear (qCache m);
       let m = m\<lparr>qCache := q\<rparr>;
       if \<not> r then Some (False, m) else do {
         (r, p) \<leftarrow> Lru_Cache.clear (pCache m);
         let m = m\<lparr>pCache := p\<rparr>;
         if \<not> r then Some (False, m) else
           let (r, f) = Factory_clear (physicalPlanRecordItemFactory m)
           in Some (r, m\<lparr>physicalPlanRecordItemFactory := f\<rparr>)
       }
     }
   }"

section \<open>The keys agree for exact and distance-one searches only\<close>

lemma digit_list: "list_all (\<lambda>d. digit d \<noteq> CHR ''$''
    \<and> (digit d = CHR ''0'' \<longleftrightarrow> d = 0) \<and> (digit d = CHR ''1'' \<longleftrightarrow> d = 1)) [0..<10]"
  by code_simp

lemma digit_facts:
  assumes "d < 10"
  shows "digit d \<noteq> CHR ''$''" "digit d = CHR ''0'' \<longleftrightarrow> d = 0" "digit d = CHR ''1'' \<longleftrightarrow> d = 1"
  using digit_list assms by (auto simp: list_all_iff)

lemma decimal_last: "decimal n \<noteq> [] \<and> (\<exists>d < 10. last (decimal n) = digit d)"
  by (subst (1 2) decimal.simps) (auto intro: exI [of _ "n mod 10"])

text \<open>A key written for a threshold of two or more is read under no threshold at all.\<close>

lemma setKey_findKey: "setKey n prefix = findKey t w \<longleftrightarrow> prefix = w \<and> n = (if t = 0 then 0 else 1)"
proof (cases "n < 10")
  case True
  then have "decimal n = [digit n]" by (simp add: decimal.simps)
  then show ?thesis using digit_facts [OF True] by (auto simp: setKey_def findKey_def)
next
  case False
  let ?c = "if t = 0 then CHR ''0'' else CHR ''1''"
  have "setKey n prefix = (prefix @ ''$'' @ decimal (n div 10)) @ [digit (n mod 10)]"
    using False by (simp add: setKey_def decimal.simps [of n])
  moreover have "findKey t w = (w @ ''$'') @ [?c]" by (simp add: findKey_def)
  moreover have "prefix @ ''$'' @ decimal (n div 10) \<noteq> w @ ''$''"
  proof
    assume "prefix @ ''$'' @ decimal (n div 10) = w @ ''$''"
    from arg_cong [OF this, of last] show False
      using decimal_last [of "n div 10"] digit_facts(1) by fastforce
  qed
  ultimately show ?thesis using False by auto
qed

text \<open>With the keys distinct, a lookup by prefixes finds nothing else.\<close>

lemma findPrefixLoop_miss:
  assumes "lru_repr ob c [(h, e)]" "\<And>w. key e \<noteq> findKey t w"
  shows "\<exists>c'. findPrefixLoop th t keyword i c = Some (None, c')"
  using assms(1)
proof (induction i arbitrary: c)
  case 0
  then show ?case by (simp add: findPrefixLoop.simps)
next
  case (Suc i)
  let ?k = "findKey t (take (Suc i) keyword)"
  have "abs_get ?k [(h, e)] = (None, [(h, e)])" using assms(2) by (simp add: abs_get_def)
  then obtain c1 where "get_entry ?k c = Some (None, c1)" "lru_repr ob c1 [(h, e)]"
    using get_entry_refines [OF Suc.prems, of ?k] by auto
  with Suc.IH [of c1] show ?case by (subst findPrefixLoop.simps) simp
qed

text \<open>
  The active nodes of a fuzzy term are found again only for an edit distance threshold of at
  most one: after \<open>setPrefixActiveNodeSet\<close> of a set that fits into an empty cache, the lookup
  with the set's own prefix and threshold returns the set when the threshold is 0 or 1, but misses
  for every threshold of two or more, because the key is written with the number and read with
  \<open>1\<close>.
\<close>

theorem activeNodes_found_iff_threshold:
  assumes "unat (cacheTotalByteBudget c) < 2 ^ 32" "lru_repr ob c []" "2 \<le> length (prefixOf s)"
    and "entrySize ob (newEntryFor ob (setKey (thresholdOf s) (prefixOf s)) s) \<le> unat (cacheTotalByteBudget c)"
  shows "\<exists>c' c''. setPrefixActiveNodeSet ob thresholdOf prefixOf s c = Some (1, c')
    \<and> findLongestPrefixActiveNodes thresholdOf (thresholdOf s) (prefixOf s) c'
      = Some (if thresholdOf s \<le> 1 then Some s else None, c'')"
proof -
  let ?k = "setKey (thresholdOf s) (prefixOf s)" let ?e = "newEntryFor ob ?k s"
  have e: "key ?e = ?k" "objectPointer ?e = s"
    by (simp_all add: newEntryFor_def CacheEntry_new_def getNumberOfBytesUsedByEntry_def
        getNumberOfBytes_def Let_def)
  obtain c' where c': "put ob ?k s c = Some (True, c')" "lru_repr ob c' [(hashDJB2 ?k, ?e)]"
    using put_refines [OF assms(2,1), of ?k s] assms(4) by (auto simp: abs_put_def Let_def)
  have s: "setPrefixActiveNodeSet ob thresholdOf prefixOf s c = Some (1, c')"
    by (simp add: setPrefixActiveNodeSet_def c'(1))
  show ?thesis
  proof (cases "thresholdOf s \<le> 1")
    case True
    then have k: "findKey (thresholdOf s) (prefixOf s) = ?k"
      using setKey_findKey [of "thresholdOf s" "prefixOf s" "thresholdOf s" "prefixOf s"]
      by (auto split: if_splits)
    obtain c'' where "get_entry ?k c' = Some (Some s, c'')"
      using get_entry_refines [OF c'(2), of ?k] e by (auto simp: abs_get_def)
    then have "findLongestPrefixActiveNodes thresholdOf (thresholdOf s) (prefixOf s) c' = Some (Some s, c'')"
      unfolding findLongestPrefixActiveNodes_def
      by (subst findPrefixLoop.simps) (use assms(3) k in simp)
    then show ?thesis using s True by auto
  next
    case False
    then have "key ?e \<noteq> findKey (thresholdOf s) w" for w
      unfolding e(1) by (simp add: setKey_findKey)
    from findPrefixLoop_miss [OF c'(2) this] obtain c'' where
      "findLongestPrefixActiveNodes thresholdOf (thresholdOf s) (prefixOf s) c' = Some (None, c'')"
      unfolding findLongestPrefixActiveNodes_def by blast
    then show ?thesis using s False by auto
  qed
qed

theorem activeNodes_found_iff_threshold_witness:
  "\<exists>c' c''. setPrefixActiveNodeSet sampleBytes (\<lambda>_. 2) (\<lambda>_. ''term'') 7 sampleContainer = Some (1, c')
    \<and> findLongestPrefixActiveNodes (\<lambda>_. 2) 2 ''term'' c' = Some (None, c'')"
proof -
  have "entrySize sampleBytes (newEntryFor sampleBytes (setKey 2 ''term'') 7)
      \<le> unat (cacheTotalByteBudget sampleContainer)"
    unfolding sample_budget(1) by code_simp
  from activeNodes_found_iff_threshold [OF sample_budget(2) sample_repr _ this] show ?thesis by simp
qed

text \<open>
  Clearing the manager of three representable caches and a factory in a run always succeeds,
  returns \<open>true\<close> and leaves every cache empty.
\<close>

theorem CacheManager_clear_empties:
  assumes "lru_repr oa (aCache m) ya" "lru_repr oq (qCache m) yq" "lru_repr op (pCache m) yp"
    and "factory_ok (physicalPlanRecordItemFactory m)"
  shows "\<exists>m'. CacheManager_clear m = Some (True, m') \<and> lru_repr oa (aCache m') []
    \<and> lru_repr oq (qCache m') [] \<and> lru_repr op (pCache m') []
    \<and> physicalPlanRecordItemFactory m' = physicalPlanRecordItemFactory m"
  using clear_refines [OF assms(1)] clear_refines [OF assms(2)] clear_refines [OF assms(3)]
    Factory_clear_ok [OF assms(4)]
  by (auto simp: CacheManager_clear_def)

theorem CacheManager_clear_empties_witness:
  "\<exists>m'. CacheManager_clear (CacheManager_new 134217728 :: (nat, nat, nat) CacheManager) = Some (True, m')"
proof -
  let ?m = "CacheManager_new 134217728 :: (nat, nat, nat) CacheManager"
  have "lru_repr sampleBytes (aCache ?m) []" "lru_repr sampleBytes (qCache ?m) []"
    "lru_repr sampleBytes (pCache ?m) []" "factory_ok (physicalPlanRecordItemFactory ?m)"
    by (simp_all add: CacheManager_new_def lru_repr_new) (simp add: factory_ok_def Factory_new_def)
  from CacheManager_clear_empties [OF this] show ?thesis by blast
qed

end
