(* ===== verification/Ranking.thy ===== *)
theory Ranking
  imports Record_Items
begin

text \<open>
  The ranking functions, \<^verbatim>\<open>src/src/core/ranking/Ranker.cpp\<close>, over the reals (rounding of
  \<^verbatim>\<open>float\<close> and the not-a-number results of a division by zero are not modelled), and the order on
  records by score and id as a linear order.
\<close>

section \<open>Scores\<close>

definition computeTextRelevance :: "real \<Rightarrow> real \<Rightarrow> real" where
  "computeTextRelevance tfBoostProdcut idf = tfBoostProdcut * idf"

definition computeRecordTfBoostProdcut :: "real \<Rightarrow> real \<Rightarrow> real" where
  "computeRecordTfBoostProdcut tf sumOfFieldBoosts = tf * sumOfFieldBoosts"

definition computeTermRecordRuntimeScore ::
  "real \<Rightarrow> nat \<Rightarrow> nat \<Rightarrow> bool \<Rightarrow> real \<Rightarrow> real \<Rightarrow> real" where
  "computeTermRecordRuntimeScore termRecordStaticScore editDistance termLength isPrefixMatch
      prefixMatchPenalty termSimilarityBoost =
    (let ed = editDistance; ed = (if ed > termLength then termLength else ed);
         normalizedEdSimilarity = (1 - real ed / real termLength) * termSimilarityBoost ^ ed;
         prefixMatchingNormalizer = (if isPrefixMatch then prefixMatchPenalty else 1)
     in termRecordStaticScore * normalizedEdSimilarity * prefixMatchingNormalizer)"

definition aggregateBoostedTermRuntimeScore :: "real \<Rightarrow> real \<Rightarrow> real \<Rightarrow> real" where
  "aggregateBoostedTermRuntimeScore oldRecordScore termBoost termRecordRuntimeScore =
    oldRecordScore + termBoost * termRecordRuntimeScore"

text \<open>\<open>None\<close>: the \<^verbatim>\<open>ASSERT\<close> on the number of scores fails. The first list holds the term boosts.\<close>

definition computeOverallRecordScore :: "real list \<Rightarrow> real list \<Rightarrow> real option" where
  "computeOverallRecordScore termBoosts queryResultTermScores =
    (if length termBoosts = length queryResultTermScores
     then Some (fold (\<lambda>(boost, score) overallScore.
       aggregateBoostedTermRuntimeScore overallScore boost score) (zip termBoosts queryResultTermScores) 0)
     else None)"

definition compareRecordsLessThan :: "real \<Rightarrow> u32 \<Rightarrow> real \<Rightarrow> u32 \<Rightarrow> bool" where
  "compareRecordsLessThan leftRecordScore leftRecordId rightRecordScore rightRecordId =
    (if leftRecordScore = rightRecordScore then leftRecordId > rightRecordId
     else leftRecordScore < rightRecordScore)"

definition compareRecordsGreaterThan :: "real \<Rightarrow> u32 \<Rightarrow> real \<Rightarrow> u32 \<Rightarrow> bool" where
  "compareRecordsGreaterThan leftRecordScore leftRecordId rightRecordScore rightRecordId =
    (if leftRecordScore = rightRecordScore then leftRecordId < rightRecordId
     else leftRecordScore > rightRecordScore)"

definition computeAggregatedRuntimeScoreForAnd :: "real list \<Rightarrow> real" where
  "computeAggregatedRuntimeScoreForAnd runTimeTermRecordScores =
    fold (\<lambda>score resultScore. resultScore + score) runTimeTermRecordScores 0"

definition computeAggregatedRuntimeScoreForOr :: "real list \<Rightarrow> real" where
  "computeAggregatedRuntimeScoreForOr runTimeTermRecordScores =
    fold (\<lambda>score resultScore. if score > resultScore then score else resultScore)
      runTimeTermRecordScores (-1)"

definition computeScoreForNot :: "real \<Rightarrow> real" where
  "computeScoreForNot score = 1 - score"

text \<open>The squared radius of the query shape and the squared distance of the record to it are
  arguments; the constants are those of \<^verbatim>\<open>QuadTreeNode.h\<close>.\<close>

definition computeScoreforGeo :: "real \<Rightarrow> real \<Rightarrow> real \<Rightarrow> real \<Rightarrow> real" where
  "computeScoreforGeo minSearchRangeSquare minDistanceScore searchRadius2 resultMinDist2 =
    (let minDist2UpperBound = max searchRadius2 minSearchRangeSquare;
         distanceRatio = (sqrt minDist2UpperBound - sqrt resultMinDist2) / sqrt minDist2UpperBound
     in max (distanceRatio * distanceRatio) minDistanceScore)"

definition computeFeedbackBoost :: "nat \<Rightarrow> nat \<Rightarrow> real" where
  "computeFeedbackBoost feedbackRecencyInSecs feedbackFrequency =
    (let recencyFactor = 1 - (real feedbackRecencyInSecs / 7776000) ^ 2;
         frequencyFactor = sqrt (real feedbackFrequency)
     in 1 + recencyFactor * frequencyFactor)"

definition computeFeedbackBoostedScore :: "real \<Rightarrow> real \<Rightarrow> real" where
  "computeFeedbackBoostedScore score boost = score * boost"

section \<open>The rank of a record\<close>

datatype RankKey = RankKey (rk_score: real) (rk_id: u32)

instantiation RankKey :: linorder
begin

definition less_RankKey :: "RankKey \<Rightarrow> RankKey \<Rightarrow> bool" where
  "less_RankKey a b = compareRecordsLessThan (rk_score a) (rk_id a) (rk_score b) (rk_id b)"

definition less_eq_RankKey :: "RankKey \<Rightarrow> RankKey \<Rightarrow> bool" where
  "less_eq_RankKey a b = (a = b \<or> a < b)"

instance
  by standard
    (auto simp: less_RankKey_def less_eq_RankKey_def compareRecordsLessThan_def RankKey.expand
      split: if_splits)

end

definition rankKey :: "PhysicalPlanRecordItem \<Rightarrow> RankKey" where
  "rankKey r = RankKey (recordRuntimeScore r) (recordId r)"

text \<open>
  The two comparison functions of the ranker are each other's converse and order records
  strictly and totally: exactly one of less, equal, greater holds for any two (score, id) pairs,
  and less is transitive. Records with equal scores are ranked by ascending id.
\<close>

theorem ranker_comparisons_total_order:
  "compareRecordsGreaterThan s i t j = compareRecordsLessThan t j s i
    \<and> (if s = t \<and> i = j
       then \<not> compareRecordsLessThan s i t j \<and> \<not> compareRecordsGreaterThan s i t j
       else compareRecordsLessThan s i t j = (\<not> compareRecordsGreaterThan s i t j))
    \<and> \<not> (compareRecordsLessThan s i t j \<and> compareRecordsLessThan t j u k
         \<and> \<not> compareRecordsLessThan s i u k)"
  by (auto simp: compareRecordsLessThan_def compareRecordsGreaterThan_def)

text \<open>
  The aggregation functions: a conjunction is scored by the sum, a disjunction of non-negative
  scores by the maximum, and the overall score is the boost-weighted sum of the term scores.
\<close>

theorem ranker_aggregation:
  assumes "scores \<noteq> []" "\<forall>s \<in> set scores. 0 \<le> s" "length boosts = length scores"
  shows "computeAggregatedRuntimeScoreForAnd scores = sum_list scores
    \<and> computeAggregatedRuntimeScoreForOr scores = Max (set scores)
    \<and> computeOverallRecordScore boosts scores = Some (sum_list (map2 (*) boosts scores))"
proof -
  have "fold (\<lambda>score result. result + score) xs a = a + sum_list xs" for xs :: "real list" and a
    by (induction xs arbitrary: a) (auto simp: add.assoc)
  then have "computeAggregatedRuntimeScoreForAnd scores = sum_list scores"
    by (simp add: computeAggregatedRuntimeScoreForAnd_def)
  moreover have "fold (\<lambda>score result. if score > result then score else result) xs a = Max (insert a (set xs))"
    for xs :: "real list" and a
  proof (induction xs arbitrary: a)
    case (Cons x xs)
    have "insert a (set (x # xs)) = insert a (insert x (set xs))" by simp
    also have "Max \<dots> = Max (insert (if x > a then x else a) (set xs))"
      by (cases "xs = []") (auto simp: max_def)
    finally show ?case using Cons by (simp only: fold_simps comp_def)
  qed simp
  then have "computeAggregatedRuntimeScoreForOr scores = Max (insert (-1) (set scores))"
    by (simp add: computeAggregatedRuntimeScoreForOr_def)
  moreover have "\<dots> = Max (set scores)"
  proof -
    have "0 \<le> Max (set scores)" using assms(1,2) Max_in [of "set scores"] by auto
    then show ?thesis using assms(1) by (simp add: max_def)
  qed
  moreover have "fold (\<lambda>(boost, score) a. aggregateBoostedTermRuntimeScore a boost score) (zip bs ss) a
      = a + sum_list (map2 (*) bs ss)" for bs ss :: "real list" and a
    by (induction bs ss arbitrary: a rule: list_induct2')
      (auto simp: aggregateBoostedTermRuntimeScore_def)
  ultimately show ?thesis using assms(3) by (simp add: computeOverallRecordScore_def)
qed

theorem ranker_aggregation_witness:
  "computeAggregatedRuntimeScoreForOr [2, 5, 3] = Max (set [2, 5, 3])
    \<and> computeOverallRecordScore [1, 1, 2] [2, 5, 3] = Some 13"
  using ranker_aggregation [of "[2, 5, 3]" "[1, 1, 2]"] by simp

end
