(* ===== verification/Sort_Operators.thy ===== *)
theory Sort_Operators
  imports Record_Stream Ranking
begin

text \<open>
  The two sorting operators of the physical plan,
  \<^verbatim>\<open>src/src/core/operation/physical_plan/SortByIdOperator.cpp\<close> and
  \<^verbatim>\<open>SortByScoreOperator.cpp\<close>. The child is an arbitrary state with a \<open>getNext\<close> function. Of the
  heap algorithms of the standard library the operators rely on this: after \<^verbatim>\<open>make_heap\<close> the
  first element of the range is one that the comparator puts below no other; \<^verbatim>\<open>pop_heap\<close> moves
  the first element of a heap to the end and leaves a heap before it; \<^verbatim>\<open>push_heap\<close> makes a heap
  of a heap and the element after it. How the other elements are arranged, and which of several
  equivalent elements comes first, is not specified; the model keeps the order where it can.
\<close>

section \<open>Heaps and sorting of the standard library\<close>

fun heapTop :: "('a \<Rightarrow> 'a \<Rightarrow> bool) \<Rightarrow> 'a \<Rightarrow> 'a list \<Rightarrow> 'a" where
  "heapTop cmp m [] = m"
| "heapTop cmp m (x # xs) = heapTop cmp (if cmp m x then x else m) xs"

definition make_heap :: "('a \<Rightarrow> 'a \<Rightarrow> bool) \<Rightarrow> 'a list \<Rightarrow> 'a list" where
  "make_heap cmp xs = (case xs of [] \<Rightarrow> []
     | x # xs' \<Rightarrow> let m = heapTop cmp x xs' in m # remove1 m xs)"

definition pop_heap :: "('a \<Rightarrow> 'a \<Rightarrow> bool) \<Rightarrow> 'a list \<Rightarrow> 'a list" where
  "pop_heap cmp xs = (case xs of [] \<Rightarrow> [] | x # xs' \<Rightarrow> make_heap cmp xs' @ [x])"

definition push_heap :: "('a \<Rightarrow> 'a \<Rightarrow> bool) \<Rightarrow> 'a list \<Rightarrow> 'a list" where
  "push_heap cmp xs = (if xs \<noteq> [] \<and> cmp (hd xs) (last xs) then last xs # butlast xs else xs)"

definition isHeap :: "('a \<Rightarrow> 'a \<Rightarrow> bool) \<Rightarrow> 'a list \<Rightarrow> bool" where
  "isHeap cmp xs \<longleftrightarrow> (\<forall>y \<in> set (tl xs). \<not> cmp (hd xs) y)"

fun insertBy :: "('a \<Rightarrow> 'a \<Rightarrow> bool) \<Rightarrow> 'a \<Rightarrow> 'a list \<Rightarrow> 'a list" where
  "insertBy cmp x [] = [x]"
| "insertBy cmp x (y # ys) = (if cmp y x then y # insertBy cmp x ys else x # y # ys)"

definition std_sort :: "('a \<Rightarrow> 'a \<Rightarrow> bool) \<Rightarrow> 'a list \<Rightarrow> 'a list" where
  "std_sort cmp xs = foldr (insertBy cmp) xs []"

lemma heapTop_in: "heapTop cmp m xs \<in> set (m # xs)"
proof (induction xs arbitrary: m)
  case (Cons x xs)
  from Cons [of "if cmp m x then x else m"] show ?case by (auto split: if_splits)
qed simp

lemma mset_make_heap [simp]: "mset (make_heap cmp xs) = mset xs"
proof (cases xs)
  case (Cons x xs')
  then have "mset (make_heap cmp xs) = add_mset (heapTop cmp x xs') (mset xs - {#heapTop cmp x xs'#})"
    by (simp add: make_heap_def Let_def)
  moreover have "heapTop cmp x xs' \<in># mset xs" using heapTop_in [of cmp x xs'] Cons by simp
  ultimately show ?thesis by (simp only: insert_DiffM)
qed (simp add: make_heap_def)

lemma set_make_heap [simp]: "set (make_heap cmp xs) = set xs"
  by (simp flip: set_mset_mset)

lemma length_make_heap [simp]: "length (make_heap cmp xs) = length xs"
  by (simp flip: size_mset)

lemma make_heap_single [simp]: "make_heap cmp [] = []" "make_heap cmp [x] = [x]"
  by (simp_all add: make_heap_def)

lemma mset_push_heap [simp]: "mset (push_heap cmp xs) = mset xs"
  by (cases xs rule: rev_cases) (simp_all add: push_heap_def)

lemma set_push_heap [simp]: "set (push_heap cmp xs) = set xs"
  by (simp flip: set_mset_mset)

lemma length_push_heap [simp]: "length (push_heap cmp xs) = length xs"
  by (simp flip: size_mset)

lemma isHeap_Nil [simp]: "isHeap cmp []"
  by (simp add: isHeap_def)

text \<open>What the standard library asks of a comparator: a strict weak order.\<close>

locale heap_order =
  fixes cmp :: "'a \<Rightarrow> 'a \<Rightarrow> bool"
  assumes asym: "cmp a b \<Longrightarrow> \<not> cmp b a"
    and not_less_trans: "\<not> cmp a b \<Longrightarrow> \<not> cmp b c \<Longrightarrow> \<not> cmp a c"
begin

lemma irrefl: "\<not> cmp a a"
  using asym by blast

lemma heapTop_max: "y \<in> set (m # xs) \<Longrightarrow> \<not> cmp (heapTop cmp m xs) y"
proof (induction xs arbitrary: m y)
  case Nil
  then show ?case by (simp add: irrefl)
next
  case (Cons x xs)
  let ?m = "if cmp m x then x else m"
  have m: "\<not> cmp ?m m" "\<not> cmp ?m x" using asym irrefl by auto
  have top: "\<not> cmp (heapTop cmp ?m xs) ?m" by (rule Cons.IH) simp
  show ?case
  proof (cases "y \<in> set xs")
    case True
    then show ?thesis using Cons.IH [of y ?m] by simp
  next
    case False
    then have "y = m \<or> y = x" using Cons.prems by auto
    then show ?thesis using not_less_trans [OF top] m by auto
  qed
qed

lemma isHeap_make_heap: "isHeap cmp (make_heap cmp xs)"
proof (cases xs)
  case (Cons x xs')
  have "set (remove1 (heapTop cmp x xs') xs) \<subseteq> set (x # xs')" unfolding Cons by (rule set_remove1_subset)
  then have "\<forall>y \<in> set (remove1 (heapTop cmp x xs') xs). \<not> cmp (heapTop cmp x xs') y" using heapTop_max by blast
  then show ?thesis by (simp add: make_heap_def isHeap_def Let_def Cons del: remove1.simps)
qed simp

lemma isHeap_push_heap:
  assumes "isHeap cmp xs"
  shows "isHeap cmp (push_heap cmp (xs @ [x]))"
proof (cases xs)
  case (Cons h t)
  have h: "\<not> cmp h y" if "y \<in> set t" for y using assms that by (simp add: isHeap_def Cons)
  show ?thesis
  proof (cases "cmp h x")
    case True
    then have "\<not> cmp x y" if "y \<in> set (h # t)" for y using that asym h not_less_trans [of x h y] by auto
    then show ?thesis using True by (simp add: push_heap_def isHeap_def Cons)
  next
    case False
    then show ?thesis using h by (auto simp: push_heap_def isHeap_def Cons)
  qed
qed (simp add: push_heap_def isHeap_def)

lemma heap_pop:
  assumes "isHeap cmp (x # xs)"
  shows "mset (x # xs) = add_mset x (mset (butlast (pop_heap cmp (x # xs))))"
    "isHeap cmp (butlast (pop_heap cmp (x # xs)))" "\<forall>y \<in> set (x # xs). \<not> cmp x y"
  using assms irrefl by (simp_all add: pop_heap_def isHeap_make_heap) (auto simp: isHeap_def)

end

lemma heap_orderI:
  fixes key :: "'a \<Rightarrow> 'k::linorder"
  assumes "\<And>a b. cmp a b \<longleftrightarrow> key a < key b"
  shows "heap_order cmp"
  by standard (auto simp: assms not_less)

lemma mset_insertBy: "mset (insertBy cmp x ys) = add_mset x (mset ys)"
  by (induction ys) auto

lemma mset_std_sort: "mset (std_sort cmp xs) = mset xs"
  by (induction xs) (simp_all add: std_sort_def mset_insertBy)

lemma set_insertBy [simp]: "set (insertBy cmp x ys) = insert x (set ys)"
  by (induction ys) auto

lemma sorted_insertBy:
  fixes key :: "'a \<Rightarrow> 'k::linorder"
  assumes "\<And>a b. cmp a b \<longleftrightarrow> key a < key b" "sorted (map key ys)"
  shows "sorted (map key (insertBy cmp x ys))"
  using assms(2)
proof (induction ys)
  case (Cons y ys)
  then show ?case using Cons assms(1) by (auto simp: not_less)
qed simp

lemma sorted_std_sort:
  fixes key :: "'a \<Rightarrow> 'k::linorder"
  assumes "\<And>a b. cmp a b \<longleftrightarrow> key a < key b"
  shows "map key (std_sort cmp xs) = sort (map key xs)"
proof (rule properties_for_sort [symmetric])
  show "mset (map key (std_sort cmp xs)) = mset (map key xs)" by (simp add: mset_std_sort)
  show "sorted (map key (std_sort cmp xs))"
    by (induction xs) (simp_all add: std_sort_def sorted_insertBy [OF assms])
qed

lemma sort_max_last:
  fixes x :: "'k::linorder"
  assumes "\<forall>y \<in> set ys. y \<le> x"
  shows "sort (x # ys) = sort ys @ [x]"
  by (rule properties_for_sort) (use assms in \<open>auto simp: sorted_append\<close>)

section \<open>Fetching all records of the child\<close>

partial_function (option) fetchAll :: "('s, 'a) next_fun \<Rightarrow> 's \<Rightarrow> 'a list \<Rightarrow> ('a list \<times> 's) option" where
  "fetchAll getNext s records = do {
     (nextRecord, s) \<leftarrow> getNext s;
     case nextRecord of None \<Rightarrow> Some (records, s) | Some r \<Rightarrow> fetchAll getNext s (records @ [r])
   }"

declare fetchAll.simps [code]

context record_stream
begin

lemma fetchAll_remaining:
  assumes "ok s"
  shows "\<exists>xs s'. fetchAll getNext s acc = Some (acc @ xs, s') \<and> map view xs = remaining s
    \<and> ok s' \<and> remaining s' = [] \<and> drain getNext (Suc (length xs)) s = Some xs"
  using assms
proof (induction "remaining s" arbitrary: s acc)
  case Nil
  then obtain s' where "getNext s = Some (None, s')" "ok s'" "remaining s' = []"
    using getNext_Nil by metis
  then show ?case using Nil by (subst fetchAll.simps) auto
next
  case (Cons v vs)
  then obtain x s1 where s1: "getNext s = Some (Some x, s1)" "view x = v" "ok s1" "remaining s1 = vs"
    using getNext_Cons by metis
  obtain xs s' where "fetchAll getNext s1 (acc @ [x]) = Some ((acc @ [x]) @ xs, s')" "map view xs = vs"
    "ok s'" "remaining s' = []" "drain getNext (Suc (length xs)) s1 = Some xs"
    using Cons.hyps(1) [of s1 "acc @ [x]"] s1 by auto
  then show ?case using s1 Cons.hyps(2) by (subst fetchAll.simps) (auto intro!: exI [of _ "x # xs"])
qed

end

section \<open>Sort by id\<close>

record 's SortByIdOperator =
  si_child :: 's
  records :: "PhysicalPlanRecordItem list"

definition SortByIdRecordMinHeapComparator :: "PhysicalPlanRecordItem \<Rightarrow> PhysicalPlanRecordItem \<Rightarrow> bool" where
  "SortByIdRecordMinHeapComparator left right =
    (if recordId left = recordId right then recordRuntimeScore left < recordRuntimeScore right
     else recordId left > recordId right)"

text \<open>\<open>openChild\<close> and \<open>closeChild\<close> are the child's \<open>open\<close> and \<open>close\<close>.\<close>

definition SortById_open ::
  "('s \<Rightarrow> 's option) \<Rightarrow> ('s, PhysicalPlanRecordItem) next_fun \<Rightarrow> 's SortByIdOperator \<Rightarrow>
    (bool \<times> 's SortByIdOperator) option" where
  "SortById_open openChild getNext s = do {
     c \<leftarrow> openChild (si_child s);
     (rs, c) \<leftarrow> fetchAll getNext c (records s);
     Some (True, s\<lparr>si_child := c, records := make_heap SortByIdRecordMinHeapComparator rs\<rparr>)
   }"

definition SortById_getNext :: "('s SortByIdOperator, PhysicalPlanRecordItem) next_fun" where
  "SortById_getNext s =
    (case records s of
      [] \<Rightarrow> Some (None, s)
    | toReturn # _ \<Rightarrow>
       Some (Some toReturn, s\<lparr>records := butlast (pop_heap SortByIdRecordMinHeapComparator (records s))\<rparr>))"

definition SortById_close ::
  "('s \<Rightarrow> 's option) \<Rightarrow> 's SortByIdOperator \<Rightarrow> (bool \<times> 's SortByIdOperator) option" where
  "SortById_close closeChild s = do {
     c \<leftarrow> closeChild (si_child s);
     Some (True, s\<lparr>si_child := c, records := []\<rparr>)
   }"

interpretation idOrder: heap_order SortByIdRecordMinHeapComparator
  by standard (auto simp: SortByIdRecordMinHeapComparator_def split: if_splits)

definition idHeap :: "'s SortByIdOperator \<Rightarrow> bool" where
  "idHeap s \<longleftrightarrow> isHeap SortByIdRecordMinHeapComparator (records s)"

lemma idHeap_sorted: "sorted_wrt (<) (map recordId (records s)) \<Longrightarrow> idHeap s"
  by (cases "records s") (auto simp: idHeap_def isHeap_def SortByIdRecordMinHeapComparator_def)

lemma sort_min_first:
  fixes x :: "'k::linorder"
  assumes "\<forall>y \<in> set ys. x \<le> y"
  shows "sort (x # ys) = x # sort ys"
  by (rule properties_for_sort) (use assms in auto)

lemma SortById_getNext_step:
  assumes "idHeap s" "records s = x # xs"
  shows "\<exists>s'. SortById_getNext s = Some (Some x, s') \<and> idHeap s'
    \<and> mset (records s) = add_mset x (mset (records s'))
    \<and> sort (map recordId (records s)) = recordId x # sort (map recordId (records s'))"
proof -
  let ?rest = "butlast (pop_heap SortByIdRecordMinHeapComparator (x # xs))"
  have heap: "isHeap SortByIdRecordMinHeapComparator (x # xs)" using assms by (simp add: idHeap_def)
  note pop = idOrder.heap_pop [OF heap]
  have "set ?rest \<subseteq> set (x # xs)" using arg_cong [OF pop(1), of set_mset] by auto
  moreover have "\<forall>y \<in> set (x # xs). recordId x \<le> recordId y"
    using pop(3) by (auto simp: SortByIdRecordMinHeapComparator_def split: if_splits)
  ultimately have "\<forall>y \<in> set ?rest. recordId x \<le> recordId y" by blast
  then have "sort (recordId x # map recordId ?rest) = recordId x # sort (map recordId ?rest)"
    by (intro sort_min_first) auto
  moreover have "sort (map recordId (x # xs)) = sort (recordId x # map recordId ?rest)"
    by (rule properties_for_sort [symmetric]) (use arg_cong [OF pop(1), of "image_mset recordId"] in \<open>simp_all add: sorted_insort\<close>)
  ultimately show ?thesis using assms(2) pop(1,2) by (simp add: SortById_getNext_def idHeap_def)
qed

lemma sort_records_Nil: "sort (map recordId xs) = [] \<longleftrightarrow> xs = []"
  by (metis map_is_Nil_conv mset_sort mset_zero_iff sort_key_simps(1))

interpretation sortById: sorted_stream SortById_getNext recordId
  "\<lambda>s. sort (map recordId (records s))" idHeap
proof
  fix s :: "'s SortByIdOperator"
  assume "idHeap s"
  show "\<exists>s'. SortById_getNext s = Some (None, s') \<and> idHeap s' \<and> sort (map recordId (records s')) = []"
    if "sort (map recordId (records s)) = []"
    using that \<open>idHeap s\<close> by (simp add: sort_records_Nil SortById_getNext_def)
  show "\<exists>x s'. SortById_getNext s = Some (Some x, s') \<and> recordId x = v \<and> idHeap s'
      \<and> sort (map recordId (records s')) = vs"
    if v: "sort (map recordId (records s)) = v # vs" for v vs
  proof -
    obtain x xs where x: "records s = x # xs" using v by (cases "records s") auto
    show ?thesis using SortById_getNext_step [OF \<open>idHeap s\<close> x] v by auto
  qed
  show "sorted (sort (map recordId (records s)))" by simp
qed

section \<open>Sort by score\<close>

record 's SortByScoreOperator =
  ss_child :: 's
  recordsAfterTopK :: "PhysicalPlanRecordItem list"
  isRecordsAfterTopKVectorSorted :: bool
  topKBestRecords :: "PhysicalPlanRecordItem list"

definition SortByScoreRecordMaxHeapComparator :: "PhysicalPlanRecordItem \<Rightarrow> PhysicalPlanRecordItem \<Rightarrow> bool" where
  "SortByScoreRecordMaxHeapComparator left right =
    (if recordRuntimeScore left = recordRuntimeScore right then recordId left > recordId right
     else recordRuntimeScore left < recordRuntimeScore right)"

definition SortByScoreRecordMinHeapComparator :: "PhysicalPlanRecordItem \<Rightarrow> PhysicalPlanRecordItem \<Rightarrow> bool" where
  "SortByScoreRecordMinHeapComparator left right =
    (if recordRuntimeScore left = recordRuntimeScore right then recordId left < recordId right
     else recordRuntimeScore left > recordRuntimeScore right)"

text \<open>\<open>feedback\<close> is \<open>getFeedbackBoostForRecord\<close> of the feedback ranker, when there is one.\<close>

definition boostRecord :: "(u32 \<Rightarrow> real) option \<Rightarrow> PhysicalPlanRecordItem \<Rightarrow> PhysicalPlanRecordItem" where
  "boostRecord feedback r = (case feedback of None \<Rightarrow> r
     | Some f \<Rightarrow> r\<lparr>recordRuntimeScore := computeFeedbackBoostedScore (recordRuntimeScore r) (f (recordId r))\<rparr>)"

text \<open>One record: into the top K, or aside, or in place of the worst of the top K. \<open>None\<close> is
  \<^verbatim>\<open>front()\<close> of an empty vector.\<close>

definition addToTopK ::
  "nat \<Rightarrow> PhysicalPlanRecordItem \<Rightarrow> PhysicalPlanRecordItem list \<times> PhysicalPlanRecordItem list \<Rightarrow>
    (PhysicalPlanRecordItem list \<times> PhysicalPlanRecordItem list) option" where
  "addToTopK k r ta = (case ta of (tops, after) \<Rightarrow>
    if length tops < k
    then let tops = tops @ [r] in
      Some (if length tops = k then make_heap SortByScoreRecordMinHeapComparator tops else tops, after)
    else case tops of
      [] \<Rightarrow> None
    | kthBestRecordSoFar # _ \<Rightarrow>
       if SortByScoreRecordMinHeapComparator kthBestRecordSoFar r then Some (tops, after @ [r])
       else let tops = butlast (pop_heap SortByScoreRecordMinHeapComparator tops) in
         Some (push_heap SortByScoreRecordMinHeapComparator (tops @ [r]), after @ [kthBestRecordSoFar]))"

partial_function (option) fetchTopK ::
  "('s, PhysicalPlanRecordItem) next_fun \<Rightarrow> (u32 \<Rightarrow> real) option \<Rightarrow> nat \<Rightarrow> 's \<Rightarrow>
    PhysicalPlanRecordItem list \<times> PhysicalPlanRecordItem list \<Rightarrow>
    ((PhysicalPlanRecordItem list \<times> PhysicalPlanRecordItem list) \<times> 's) option" where
  "fetchTopK getNext feedback k s ta = do {
     (nextRecord, s) \<leftarrow> getNext s;
     case nextRecord of
       None \<Rightarrow> Some (ta, s)
     | Some r \<Rightarrow> do { ta \<leftarrow> addToTopK k (boostRecord feedback r) ta; fetchTopK getNext feedback k s ta }
   }"

declare fetchTopK.simps [code]

definition SortByScore_open ::
  "('s \<Rightarrow> 's option) \<Rightarrow> ('s, PhysicalPlanRecordItem) next_fun \<Rightarrow> (u32 \<Rightarrow> real) option \<Rightarrow> nat \<Rightarrow>
    's SortByScoreOperator \<Rightarrow> (bool \<times> 's SortByScoreOperator) option" where
  "SortByScore_open openChild getNext feedback k s = do {
     c \<leftarrow> openChild (ss_child s);
     ((tops, after), c) \<leftarrow> fetchTopK getNext feedback k c (topKBestRecords s, recordsAfterTopK s);
     Some (True, s\<lparr>ss_child := c, topKBestRecords := std_sort SortByScoreRecordMaxHeapComparator tops,
       recordsAfterTopK := after, isRecordsAfterTopKVectorSorted := False\<rparr>)
   }"

definition SortByScore_getNext :: "('s SortByScoreOperator, PhysicalPlanRecordItem) next_fun" where
  "SortByScore_getNext s =
    (if topKBestRecords s \<noteq> []
     then Some (Some (last (topKBestRecords s)), s\<lparr>topKBestRecords := butlast (topKBestRecords s)\<rparr>)
     else let s = (if isRecordsAfterTopKVectorSorted s then s
         else s\<lparr>recordsAfterTopK := make_heap SortByScoreRecordMaxHeapComparator (recordsAfterTopK s),
           isRecordsAfterTopKVectorSorted := True\<rparr>) in
       case recordsAfterTopK s of
         [] \<Rightarrow> Some (None, s)
       | toReturn # _ \<Rightarrow>
          Some (Some toReturn,
            s\<lparr>recordsAfterTopK := butlast (pop_heap SortByScoreRecordMaxHeapComparator (recordsAfterTopK s))\<rparr>))"

definition SortByScore_close ::
  "('s \<Rightarrow> 's option) \<Rightarrow> 's SortByScoreOperator \<Rightarrow> (bool \<times> 's SortByScoreOperator) option" where
  "SortByScore_close closeChild s = do {
     c \<leftarrow> closeChild (ss_child s);
     Some (True, s\<lparr>ss_child := c, recordsAfterTopK := []\<rparr>)
   }"

lemma score_comparators:
  "SortByScoreRecordMaxHeapComparator a b \<longleftrightarrow> rankKey a < rankKey b"
  "SortByScoreRecordMinHeapComparator a b \<longleftrightarrow> rankKey b < rankKey a"
  by (auto simp: SortByScoreRecordMaxHeapComparator_def SortByScoreRecordMinHeapComparator_def
      less_RankKey_def rankKey_def compareRecordsLessThan_def)

interpretation scoreMaxOrder: heap_order SortByScoreRecordMaxHeapComparator
  by (rule heap_orderI [of _ rankKey]) (rule score_comparators(1))

interpretation scoreMinOrder: heap_order SortByScoreRecordMinHeapComparator
  by standard (auto simp: score_comparators(2) not_less)

text \<open>The top K records dominate the others, they are a heap once there are K, and no record is lost.\<close>

definition topK_inv :: "nat \<Rightarrow> PhysicalPlanRecordItem multiset \<Rightarrow>
    PhysicalPlanRecordItem list \<times> PhysicalPlanRecordItem list \<Rightarrow> bool" where
  "topK_inv k seen ta \<longleftrightarrow> mset (fst ta) + mset (snd ta) = seen \<and> (snd ta \<noteq> [] \<longrightarrow> k \<le> length (fst ta))
    \<and> (k \<le> length (fst ta) \<longrightarrow> isHeap SortByScoreRecordMinHeapComparator (fst ta))
    \<and> (\<forall>a \<in> set (snd ta). \<forall>t \<in> set (fst ta). rankKey a \<le> rankKey t)"

lemma addToTopK_inv:
  assumes "0 < k" "topK_inv k seen ta"
  shows "\<exists>ta'. addToTopK k r ta = Some ta' \<and> topK_inv k (add_mset r seen) ta'"
proof -
  obtain tops after where ta: "ta = (tops, after)" by (cases ta)
  show ?thesis
  proof (cases "length tops < k")
    case True
    then have "after = []" using assms(2) ta by (auto simp: topK_inv_def)
    then show ?thesis using True assms(2) ta
      by (simp add: addToTopK_def topK_inv_def Let_def scoreMinOrder.isHeap_make_heap)
  next
    case False
    then obtain w ws where tops: "tops = w # ws" using assms(1) by (cases tops) auto
    have heap: "isHeap SortByScoreRecordMinHeapComparator (w # ws)"
      using False assms(2) ta tops by (auto simp: topK_inv_def)
    note pop = scoreMinOrder.heap_pop [OF heap]
    let ?rest = "butlast (pop_heap SortByScoreRecordMinHeapComparator (w # ws))"
    have min: "\<forall>t \<in> set tops. rankKey w \<le> rankKey t"
      using pop(3) tops by (auto simp: score_comparators not_less)
    have sub: "set ?rest \<subseteq> set tops" using arg_cong [OF pop(1), of set_mset] tops by auto
    have len: "length ?rest = length ws" using arg_cong [OF pop(1), of size] by simp
    show ?thesis
    proof (cases "SortByScoreRecordMinHeapComparator w r")
      case True
      then have "rankKey r < rankKey w" by (simp add: score_comparators)
      then show ?thesis using True False tops assms(2) ta min
        by (fastforce simp: addToTopK_def topK_inv_def)
    next
      case nc: False
      then have r: "rankKey w \<le> rankKey r" by (simp add: score_comparators)
      let ?tops = "push_heap SortByScoreRecordMinHeapComparator (?rest @ [r])"
      have add: "addToTopK k r ta = Some (?tops, after @ [w])"
        using nc False by (simp add: addToTopK_def ta tops Let_def)
      have "\<forall>a \<in> set after. rankKey a \<le> rankKey w" using assms(2) ta tops by (auto simp: topK_inv_def)
      then have "\<forall>a \<in> set (after @ [w]). \<forall>t \<in> set ?tops. rankKey a \<le> rankKey t"
        using r min sub by (auto intro: order_trans)
      moreover have "mset ?tops + mset (after @ [w]) = add_mset r seen"
        using assms(2) pop(1) by (auto simp: topK_inv_def ta tops)
      moreover have "k \<le> length ?tops" using False len tops by simp
      ultimately have "topK_inv k (add_mset r seen) (?tops, after @ [w])"
        using scoreMinOrder.isHeap_push_heap [OF pop(2)] by (simp add: topK_inv_def)
      then show ?thesis using add by blast
    qed
  qed
qed

text \<open>The streams of record items, as operators see their children.\<close>

locale item_stream = record_stream getNext view remaining ok
  for getNext :: "'s \<Rightarrow> (PhysicalPlanRecordItem option \<times> 's) option"
    and view :: "PhysicalPlanRecordItem \<Rightarrow> 'b" and remaining :: "'s \<Rightarrow> 'b list" and ok :: "'s \<Rightarrow> bool"
begin

lemma fetchTopK_remaining:
  assumes "0 < k" "ok s" "topK_inv k seen ta"
  shows "\<exists>xs ta' s'. fetchTopK getNext feedback k s ta = Some (ta', s')
    \<and> drain getNext (Suc (length xs)) s = Some xs
    \<and> topK_inv k (mset (map (boostRecord feedback) xs) + seen) ta'"
  using assms(2,3)
proof (induction "remaining s" arbitrary: s seen ta)
  case Nil
  then obtain s' where "getNext s = Some (None, s')" using getNext_Nil by metis
  then show ?case using Nil by (subst fetchTopK.simps) (auto intro: exI [of _ "[]"])
next
  case (Cons v vs)
  then obtain x s1 where s1: "getNext s = Some (Some x, s1)" "ok s1" "remaining s1 = vs"
    using getNext_Cons by metis
  obtain ta1 where ta1: "addToTopK k (boostRecord feedback x) ta = Some ta1"
    "topK_inv k (add_mset (boostRecord feedback x) seen) ta1"
    using addToTopK_inv [OF assms(1) Cons.prems(2)] by blast
  obtain xs ta' s' where r: "fetchTopK getNext feedback k s1 ta1 = Some (ta', s')"
    "drain getNext (Suc (length xs)) s1 = Some xs"
    "topK_inv k (mset (map (boostRecord feedback) xs) + add_mset (boostRecord feedback x) seen) ta'"
    using Cons.hyps(1) [OF s1(3) [symmetric] s1(2) ta1(2)] by blast
  have "drain getNext (Suc (length (x # xs))) s = Some (x # xs)" using s1(1) r(2) by simp
  moreover have "fetchTopK getNext feedback k s ta = Some (ta', s')"
    using s1(1) ta1(1) r(1) by (subst fetchTopK.simps) simp
  ultimately show ?case using r(3) by (intro exI [of _ "x # xs"]) auto
qed

end

lemma sort_pop_max:
  assumes "isHeap SortByScoreRecordMaxHeapComparator (x # xs)"
  shows "rev (sort (map rankKey (x # xs)))
      = rankKey x # rev (sort (map rankKey (butlast (pop_heap SortByScoreRecordMaxHeapComparator (x # xs)))))"
proof -
  let ?rest = "butlast (pop_heap SortByScoreRecordMaxHeapComparator (x # xs))"
  note pop = scoreMaxOrder.heap_pop [OF assms]
  have "set ?rest \<subseteq> set (x # xs)" using arg_cong [OF pop(1), of set_mset] by auto
  then have "\<forall>y \<in> set ?rest. rankKey y \<le> rankKey x" using pop(3) by (auto simp: score_comparators not_less)
  then have "sort (rankKey x # map rankKey ?rest) = sort (map rankKey ?rest) @ [rankKey x]"
    by (intro sort_max_last) auto
  moreover have "sort (map rankKey (x # xs)) = sort (rankKey x # map rankKey ?rest)"
    by (rule properties_for_sort [symmetric]) (use arg_cong [OF pop(1), of "image_mset rankKey"] in \<open>simp_all add: sorted_insort\<close>)
  ultimately show ?thesis by simp
qed

definition scoreRemaining :: "'s SortByScoreOperator \<Rightarrow> RankKey list" where
  "scoreRemaining s = rev (map rankKey (topKBestRecords s)) @ rev (sort (map rankKey (recordsAfterTopK s)))"

text \<open>The flag of the operator says that the other records are a heap.\<close>

definition scoreHeap :: "'s SortByScoreOperator \<Rightarrow> bool" where
  "scoreHeap s \<longleftrightarrow> (isRecordsAfterTopKVectorSorted s \<longrightarrow>
     isHeap SortByScoreRecordMaxHeapComparator (recordsAfterTopK s))"

lemma SortByScore_getNext_step:
  assumes "scoreHeap s"
  shows "if topKBestRecords s = [] \<and> recordsAfterTopK s = []
   then \<exists>s'. SortByScore_getNext s = Some (None, s') \<and> scoreHeap s' \<and> topKBestRecords s' = [] \<and> recordsAfterTopK s' = []
   else \<exists>x s'. SortByScore_getNext s = Some (Some x, s') \<and> scoreHeap s'
     \<and> scoreRemaining s = rankKey x # scoreRemaining s'
     \<and> mset (topKBestRecords s @ recordsAfterTopK s)
       = add_mset x (mset (topKBestRecords s' @ recordsAfterTopK s'))"
proof (cases "topKBestRecords s" rule: rev_cases)
  case (snoc ts t)
  then show ?thesis using assms by (simp add: SortByScore_getNext_def scoreRemaining_def scoreHeap_def)
next
  case Nil
  define s1 where "s1 = (if isRecordsAfterTopKVectorSorted s then s
    else s\<lparr>recordsAfterTopK := make_heap SortByScoreRecordMaxHeapComparator (recordsAfterTopK s),
      isRecordsAfterTopKVectorSorted := True\<rparr>)"
  have s1: "isRecordsAfterTopKVectorSorted s1" "topKBestRecords s1 = []"
    "mset (recordsAfterTopK s1) = mset (recordsAfterTopK s)"
    "isHeap SortByScoreRecordMaxHeapComparator (recordsAfterTopK s1)"
    using assms Nil by (auto simp: s1_def scoreHeap_def scoreMaxOrder.isHeap_make_heap)
  have next1: "SortByScore_getNext s = (case recordsAfterTopK s1 of [] \<Rightarrow> Some (None, s1)
    | toReturn # _ \<Rightarrow> Some (Some toReturn,
        s1\<lparr>recordsAfterTopK := butlast (pop_heap SortByScoreRecordMaxHeapComparator (recordsAfterTopK s1))\<rparr>))"
    using Nil by (simp only: SortByScore_getNext_def s1_def Let_def if_False simp_thms)
  have keys: "sort (map rankKey (recordsAfterTopK s)) = sort (map rankKey (recordsAfterTopK s1))"
    by (rule properties_for_sort) (simp_all add: s1(3))
  show ?thesis
  proof (cases "recordsAfterTopK s1")
    case empty: Nil
    then have "recordsAfterTopK s = []" using s1(3) by simp
    then show ?thesis using Nil empty s1 by (simp add: next1 scoreHeap_def)
  next
    case (Cons x xs)
    let ?s = "s1\<lparr>recordsAfterTopK := butlast (pop_heap SortByScoreRecordMaxHeapComparator (recordsAfterTopK s1))\<rparr>"
    note heap = s1(4) [unfolded Cons]
    have "recordsAfterTopK s \<noteq> []" using s1(3) Cons by auto
    moreover have "SortByScore_getNext s = Some (Some x, ?s)" by (simp add: next1 Cons)
    moreover have "scoreHeap ?s" using scoreMaxOrder.heap_pop(2) [OF heap] by (simp add: scoreHeap_def Cons)
    moreover have "scoreRemaining s = rankKey x # scoreRemaining ?s"
      unfolding scoreRemaining_def keys using sort_pop_max [OF heap] Nil s1(2) by (simp add: Cons)
    moreover have "mset (recordsAfterTopK s) = add_mset x (mset (recordsAfterTopK ?s))"
      using scoreMaxOrder.heap_pop(1) [OF heap] s1(3) by (simp add: Cons)
    ultimately show ?thesis using Nil s1(2) by auto
  qed
qed

lemma scoreRemaining_Nil: "scoreRemaining s = [] \<longleftrightarrow> topKBestRecords s = [] \<and> recordsAfterTopK s = []"
  by (auto simp: scoreRemaining_def) (metis map_is_Nil_conv mset_sort mset_zero_iff)

interpretation sortByScore: item_stream SortByScore_getNext rankKey scoreRemaining scoreHeap
proof
  fix s :: "'s SortByScoreOperator"
  assume ok: "scoreHeap s"
  show "\<exists>s'. SortByScore_getNext s = Some (None, s') \<and> scoreHeap s' \<and> scoreRemaining s' = []"
    if "scoreRemaining s = []"
    using SortByScore_getNext_step [OF ok] that by (auto simp: scoreRemaining_Nil)
  show "\<exists>x s'. SortByScore_getNext s = Some (Some x, s') \<and> rankKey x = v \<and> scoreHeap s' \<and> scoreRemaining s' = vs"
    if v: "scoreRemaining s = v # vs" for v vs
  proof -
    have "\<not> (topKBestRecords s = [] \<and> recordsAfterTopK s = [])"
      using scoreRemaining_Nil [of s] v by simp
    then show ?thesis using SortByScore_getNext_step [OF ok] v by (auto split: if_splits)
  qed
qed

lemma SortByScore_drain_mset:
  "scoreHeap s \<Longrightarrow> length (topKBestRecords s @ recordsAfterTopK s) \<le> n \<Longrightarrow>
    \<exists>ys. drain SortByScore_getNext n s = Some ys \<and> mset ys = mset (topKBestRecords s @ recordsAfterTopK s)"
proof (induction n arbitrary: s)
  case (Suc n)
  note step = SortByScore_getNext_step [OF Suc.prems(1)]
  show ?case
  proof (cases "topKBestRecords s = [] \<and> recordsAfterTopK s = []")
    case True
    then show ?thesis using step by auto
  next
    case False
    then obtain x s' where x: "SortByScore_getNext s = Some (Some x, s')" "scoreHeap s'"
      "mset (topKBestRecords s @ recordsAfterTopK s) = add_mset x (mset (topKBestRecords s' @ recordsAfterTopK s'))"
      using step by (auto split: if_splits)
    have "length (topKBestRecords s' @ recordsAfterTopK s') \<le> n"
      using arg_cong [OF x(3), of size] Suc.prems(2) by simp
    from Suc.IH [OF x(2) this] show ?thesis using x by auto
  qed
qed simp

text \<open>The final \<^verbatim>\<open>std::sort\<close> of the top K puts the two parts in rank order.\<close>

lemma topK_sorted:
  assumes "topK_inv k seen (tops, after)" "mset xs = seen"
  shows "rev (sort (map rankKey tops)) @ rev (sort (map rankKey after)) = rev (sort (map rankKey xs))"
proof -
  have "sort (map rankKey xs) = sort (map rankKey after) @ sort (map rankKey tops)"
  proof (rule properties_for_sort)
    have "mset (map rankKey xs) = image_mset rankKey (mset tops + mset after)"
      using assms by (simp add: topK_inv_def)
    then show "mset (sort (map rankKey after) @ sort (map rankKey tops)) = mset (map rankKey xs)" by simp
    show "sorted (sort (map rankKey after) @ sort (map rankKey tops))"
      using assms(1) by (auto simp: sorted_append topK_inv_def)
  qed
  then show ?thesis by simp
qed

text \<open>
  C25. \<open>SortByScoreOperator\<close> over any child and any \<open>k > 0\<close>: opening it fetches every record of the
  child (boosted by the feedback ranker, if there is one) and the calls of \<open>getNext\<close> deliver
  exactly these records in descending order of rank, beyond the first \<open>k\<close> as well; no record is lost
  or repeated.
\<close>

theorem SortByScore_sorts:
  assumes "item_stream getNext view remaining ok" "openChild (ss_child s) = Some c" "ok c" "0 < k"
    and "topKBestRecords s = []" "recordsAfterTopK s = []"
  shows "\<exists>xs s'. drain getNext (Suc (length xs)) c = Some xs
    \<and> SortByScore_open openChild getNext feedback k s = Some (True, s')
    \<and> (\<forall>n \<ge> length xs. \<exists>ys. drain SortByScore_getNext n s' = Some ys
        \<and> mset ys = mset (map (boostRecord feedback) xs)
        \<and> map rankKey ys = rev (sort (map (rankKey \<circ> boostRecord feedback) xs)))"
proof -
  have "topK_inv k {#} ([], [])" by (simp add: topK_inv_def)
  then obtain xs tops after c' where f:
    "fetchTopK getNext feedback k c (topKBestRecords s, recordsAfterTopK s) = Some ((tops, after), c')"
    "drain getNext (Suc (length xs)) c = Some xs"
    "topK_inv k (mset (map (boostRecord feedback) xs)) (tops, after)"
    using item_stream.fetchTopK_remaining [OF assms(1,4,3), of "{#}" "([], [])" feedback] assms(5,6)
    by auto
  define s' where "s' = s\<lparr>ss_child := c', topKBestRecords := std_sort SortByScoreRecordMaxHeapComparator tops,
    recordsAfterTopK := after, isRecordsAfterTopKVectorSorted := False\<rparr>"
  have o: "SortByScore_open openChild getNext feedback k s = Some (True, s')"
    by (simp add: SortByScore_open_def assms(2) f(1) s'_def)
  have m: "mset (topKBestRecords s' @ recordsAfterTopK s') = mset (map (boostRecord feedback) xs)"
    using f(3) by (simp add: s'_def mset_std_sort topK_inv_def)
  have "scoreRemaining s' = rev (sort (map rankKey tops)) @ rev (sort (map rankKey after))"
    by (simp add: scoreRemaining_def s'_def sorted_std_sort [OF score_comparators(1)])
  also have "\<dots> = rev (sort (map rankKey (map (boostRecord feedback) xs)))"
    using topK_sorted [OF f(3) refl] .
  finally have r: "scoreRemaining s' = rev (sort (map (rankKey \<circ> boostRecord feedback) xs))" by simp
  have ok: "scoreHeap s'" by (simp add: scoreHeap_def s'_def)
  have len: "length (topKBestRecords s' @ recordsAfterTopK s') = length xs"
    using arg_cong [OF m, of size] by simp
  have "\<exists>ys. drain SortByScore_getNext n s' = Some ys \<and> mset ys = mset (map (boostRecord feedback) xs)
        \<and> map rankKey ys = rev (sort (map (rankKey \<circ> boostRecord feedback) xs))"
    if "length xs \<le> n" for n
    using SortByScore_drain_mset [OF ok, of n] sortByScore.drain_all [OF ok, of n] m r len that by auto
  then show ?thesis using f(2) o by blast
qed

lemma SortById_drain_mset:
  "idHeap s \<Longrightarrow> length (records s) \<le> n \<Longrightarrow>
    \<exists>ys. drain SortById_getNext n s = Some ys \<and> mset ys = mset (records s)"
proof (induction n arbitrary: s)
  case (Suc n)
  show ?case
  proof (cases "records s")
    case Nil
    then show ?thesis by (simp add: SortById_getNext_def)
  next
    case (Cons x xs)
    then obtain s' where s': "SortById_getNext s = Some (Some x, s')" "idHeap s'"
      "mset (records s) = add_mset x (mset (records s'))"
      using SortById_getNext_step [OF Suc.prems(1)] by blast
    have "length (records s') \<le> n" using arg_cong [OF s'(3), of size] Suc.prems(2) by simp
    with Suc.IH [OF s'(2)] s' show ?thesis by auto
  qed
qed simp

text \<open>
  \<open>SortByIdOperator\<close> over any child: opening it fetches every record of the child and the calls
  of \<open>getNext\<close> deliver exactly these records in ascending order of record id.
\<close>

theorem SortById_sorts:
  assumes "item_stream getNext view remaining ok" "openChild (si_child s) = Some c" "ok c" "records s = []"
  shows "\<exists>xs s'. drain getNext (Suc (length xs)) c = Some xs
    \<and> SortById_open openChild getNext s = Some (True, s')
    \<and> (\<forall>n \<ge> length xs. \<exists>ys. drain SortById_getNext n s' = Some ys
        \<and> mset ys = mset xs \<and> map recordId ys = sort (map recordId xs))"
proof -
  obtain xs c' where f: "fetchAll getNext c (records s) = Some (xs, c')"
    "drain getNext (Suc (length xs)) c = Some xs"
    using record_stream.fetchAll_remaining [OF assms(1) [unfolded item_stream_def] assms(3), of "[]"] assms(4)
    by auto
  let ?s = "s\<lparr>si_child := c', records := make_heap SortByIdRecordMinHeapComparator xs\<rparr>"
  have ok: "idHeap ?s" by (simp add: idHeap_def idOrder.isHeap_make_heap)
  have ids: "sort (map recordId (records ?s)) = sort (map recordId xs)"
    by (rule properties_for_sort) simp_all
  have "SortById_open openChild getNext s = Some (True, ?s)"
    by (simp add: SortById_open_def assms(2) f(1))
  moreover have "\<exists>ys. drain SortById_getNext n ?s = Some ys \<and> mset ys = mset xs
      \<and> map recordId ys = sort (map recordId xs)" if "length xs \<le> n" for n
    using SortById_drain_mset [OF ok, of n] sortById.drain_all [OF ok, of n] ids that by auto
  ultimately show ?thesis using f(2) by blast
qed

text \<open>A small plan: sort by score over sort by id over three records.\<close>

definition sampleItem :: "u32 \<Rightarrow> real \<Rightarrow> PhysicalPlanRecordItem" where
  "sampleItem i score = \<lparr>geoFlag = False, recordId = i, recordStaticScore = 0, recordRuntimeScore = score,
     matchingPrefixes = [], editDistances = [], attributeIdsList = [], positionIndexOffsets = [],
     termTypes = [], valuesOfParticipatingRefiningAttributes = []\<rparr>"

definition sampleById :: "unit SortByIdOperator" where
  "sampleById = \<lparr>si_child = (), records = [sampleItem 3 5, sampleItem 7 1, sampleItem 9 2]\<rparr>"

lemma sampleById_heap: "idHeap sampleById"
  by (rule idHeap_sorted) (simp add: sampleById_def sampleItem_def)

lemma sortById_item_stream:
  "item_stream SortById_getNext recordId (\<lambda>s. sort (map recordId (records s))) idHeap"
  unfolding item_stream_def by (rule sortById.record_stream_axioms)

theorem SortByScore_sorts_witness:
  "\<exists>xs s'. SortByScore_open Some SortById_getNext None 2
      \<lparr>ss_child = sampleById, recordsAfterTopK = [], isRecordsAfterTopKVectorSorted = False,
        topKBestRecords = []\<rparr> = Some (True, s')
    \<and> (\<exists>ys. drain SortByScore_getNext (length xs) s' = Some ys
        \<and> map rankKey ys = rev (sort (map (rankKey \<circ> boostRecord None) xs)))
    \<and> drain SortById_getNext (Suc (length xs)) sampleById = Some xs"
proof -
  let ?s = "\<lparr>ss_child = sampleById, recordsAfterTopK = [], isRecordsAfterTopKVectorSorted = False,
        topKBestRecords = []\<rparr>"
  from SortByScore_sorts [of SortById_getNext recordId "\<lambda>s. sort (map recordId (records s))"
      idHeap Some ?s sampleById 2 None, OF sortById_item_stream] sampleById_heap
  obtain xs s' where r: "drain SortById_getNext (Suc (length xs)) sampleById = Some xs"
    "SortByScore_open Some SortById_getNext None 2 ?s = Some (True, s')"
    and d: "\<forall>n \<ge> length xs. \<exists>ys. drain SortByScore_getNext n s' = Some ys
        \<and> mset ys = mset (map (boostRecord None) xs)
        \<and> map rankKey ys = rev (sort (map (rankKey \<circ> boostRecord None) xs))"
    by auto
  from d [rule_format, of "length xs"] r show ?thesis by blast
qed

theorem SortById_sorts_witness:
  "\<exists>xs s'. SortById_open Some SortById_getNext \<lparr>si_child = sampleById, records = []\<rparr> = Some (True, s')
    \<and> (\<exists>ys. drain SortById_getNext (length xs) s' = Some ys \<and> map recordId ys = sort (map recordId xs))
    \<and> drain SortById_getNext (Suc (length xs)) sampleById = Some xs"
proof -
  let ?s = "\<lparr>si_child = sampleById, records = []\<rparr>"
  from SortById_sorts [of SortById_getNext recordId "\<lambda>s. sort (map recordId (records s))"
      idHeap Some ?s sampleById, OF sortById_item_stream] sampleById_heap
  obtain xs s' where r: "drain SortById_getNext (Suc (length xs)) sampleById = Some xs"
    "SortById_open Some SortById_getNext ?s = Some (True, s')"
    and d: "\<forall>n \<ge> length xs. \<exists>ys. drain SortById_getNext n s' = Some ys
        \<and> mset ys = mset xs \<and> map recordId ys = sort (map recordId xs)"
    by auto
  from d [rule_format, of "length xs"] r show ?thesis by blast
qed

end
