(* ===== verification/Merge_Operators.thy ===== *)
theory Merge_Operators
  imports Sort_Operators
begin

text \<open>
  The intersection and the union of children sorted by record id,
  \<^verbatim>\<open>src/src/core/operation/physical_plan/MergeSortedByIDOperator.cpp\<close> and
  \<^verbatim>\<open>UnionSortedByIDOperator.cpp\<close>. The children of an operator are a list of states with a
  common \<open>getNext\<close>; \<open>None\<close> is a failed assertion, an access out of range or a call that does
  not return. The loops that fetch records are \<open>partial_function\<close>s and are shown to return
  over every sorted stream. Both operators are again sorted streams.
\<close>

section \<open>Access to the children\<close>

definition childNext :: "('s, 'a) next_fun \<Rightarrow> nat \<Rightarrow> 's list \<Rightarrow> ('a option \<times> 's list) option" where
  "childNext getNext i cs = do {
     c \<leftarrow> nth_opt cs i;
     (r, c) \<leftarrow> getNext c;
     Some (r, cs[i := c])
   }"

fun forChildren :: "('s \<Rightarrow> 's option) \<Rightarrow> 's list \<Rightarrow> 's list option" where
  "forChildren f [] = Some []"
| "forChildren f (c # cs) = do { c \<leftarrow> f c; cs \<leftarrow> forChildren f cs; Some (c # cs) }"

text \<open>The fields of a result: the matches in the order of the children, aggregated.\<close>

definition combineMatches ::
  "(real list \<Rightarrow> real) \<Rightarrow> PhysicalPlanRecordItem \<Rightarrow> PhysicalPlanRecordItem list \<Rightarrow> PhysicalPlanRecordItem" where
  "combineMatches aggregate r recordMatches = r\<lparr>
     recordRuntimeScore := aggregate (map recordRuntimeScore recordMatches),
     matchingPrefixes := concat (map matchingPrefixes recordMatches),
     editDistances := concat (map editDistances recordMatches),
     attributeIdsList := concat (map attributeIdsList recordMatches),
     positionIndexOffsets := concat (map positionIndexOffsets recordMatches),
     termTypes := concat (map termTypes recordMatches)\<rparr>"

lemma recordId_combineMatches [simp]: "recordId (combineMatches aggregate r ms) = recordId r"
  by (simp add: combineMatches_def)

section \<open>Merging children sorted by id\<close>

record 's MergeSortedByIDOperator =
  ms_children :: "'s list"
  ms_listsHaveMoreRecordsInThem :: bool
  previousResultsFound :: "u32 list"

definition MergeSortedByID_open ::
  "('s \<Rightarrow> 's option) \<Rightarrow> 's MergeSortedByIDOperator \<Rightarrow> (bool \<times> 's MergeSortedByIDOperator) option" where
  "MergeSortedByID_open openChild s = do {
     cs \<leftarrow> forChildren openChild (ms_children s);
     Some (True, s\<lparr>ms_children := cs, ms_listsHaveMoreRecordsInThem := True, previousResultsFound := []\<rparr>)
   }"

text \<open>The loops that call \<open>getNext\<close> of one child until it ends or has a record to stop at: the
  next record that is not a previous result, and the first record whose id is at least \<open>v\<close>
  (step 2.1).\<close>

partial_function (option) fetchUntil ::
  "('s, 'a) next_fun \<Rightarrow> ('a \<Rightarrow> bool) \<Rightarrow> nat \<Rightarrow> 's list \<Rightarrow> ('a option \<times> 's list) option" where
  "fetchUntil getNext stop i cs = do {
     (r, cs) \<leftarrow> childNext getNext i cs;
     case r of
       None \<Rightarrow> Some (None, cs)
     | Some record \<Rightarrow> if stop record then Some (Some record, cs) else fetchUntil getNext stop i cs
   }"

declare fetchUntil.simps [code]

definition fetchUnseen ::
  "('s, PhysicalPlanRecordItem) next_fun \<Rightarrow> u32 list \<Rightarrow> nat \<Rightarrow> 's list \<Rightarrow>
    (PhysicalPlanRecordItem option \<times> 's list) option" where
  "fetchUnseen getNext previous = fetchUntil getNext (\<lambda>record. recordId record \<notin> set previous)"

definition advanceTo ::
  "('s, PhysicalPlanRecordItem) next_fun \<Rightarrow> u32 \<Rightarrow> nat \<Rightarrow> 's list \<Rightarrow>
    (PhysicalPlanRecordItem option \<times> 's list) option" where
  "advanceTo getNext v =
     fetchUntil getNext (\<lambda>nextRecord. recordId nextRecord = v \<or> recordId nextRecord > v)"

datatype MatchResult = Exhausted | NextRound PhysicalPlanRecordItem nat | Matched "PhysicalPlanRecordItem list"

fun matchChildren ::
  "('s, PhysicalPlanRecordItem) next_fun \<Rightarrow> nat \<Rightarrow> PhysicalPlanRecordItem \<Rightarrow> PhysicalPlanRecordItem list \<Rightarrow>
    nat list \<Rightarrow> 's list \<Rightarrow> (MatchResult \<times> 's list) option" where
  "matchChildren getNext i record recordMatches [] cs = Some (Matched recordMatches, cs)"
| "matchChildren getNext i record recordMatches (j # js) cs =
    (if j = i then matchChildren getNext i record (recordMatches @ [record]) js cs
     else do {
       (r, cs) \<leftarrow> advanceTo getNext (recordId record) j cs;
       case r of
         None \<Rightarrow> Some (Exhausted, cs)
       | Some nextRecord \<Rightarrow>
           if recordId nextRecord = recordId record
           then matchChildren getNext i record (recordMatches @ [nextRecord]) js cs
           else Some (NextRound nextRecord j, cs)
     })"

partial_function (option) mergeLoop ::
  "('s, PhysicalPlanRecordItem) next_fun \<Rightarrow> u32 list \<Rightarrow> nat \<Rightarrow> PhysicalPlanRecordItem \<Rightarrow> 's list \<Rightarrow>
    (PhysicalPlanRecordItem option \<times> 's list) option" where
  "mergeLoop getNext previous i record cs = do {
     (m, cs) \<leftarrow> matchChildren getNext i record [] [0..<length cs] cs;
     case m of
       Exhausted \<Rightarrow> Some (None, cs)
     | NextRound nextRecord j \<Rightarrow> mergeLoop getNext previous j nextRecord cs
     | Matched recordMatches \<Rightarrow>
         if length recordMatches = length cs
         then Some (Some (combineMatches computeAggregatedRuntimeScoreForAnd record recordMatches), cs)
         else do {
           (r, cs) \<leftarrow> fetchUnseen getNext previous ((i + 1) mod length cs) cs;
           case r of
             None \<Rightarrow> Some (None, cs)
           | Some record \<Rightarrow> mergeLoop getNext previous ((i + 1) mod length cs) record cs
         }
   }"

declare mergeLoop.simps [code]

definition MergeSortedByID_getNext ::
  "('s, PhysicalPlanRecordItem) next_fun \<Rightarrow> ('s MergeSortedByIDOperator, PhysicalPlanRecordItem) next_fun" where
  "MergeSortedByID_getNext getNext s =
    (if \<not> ms_listsHaveMoreRecordsInThem s then Some (None, s)
     else do {
       (r, cs) \<leftarrow> fetchUnseen getNext (previousResultsFound s) 0 (ms_children s);
       case r of
         None \<Rightarrow> Some (None, s\<lparr>ms_children := cs, ms_listsHaveMoreRecordsInThem := False\<rparr>)
       | Some record \<Rightarrow> do {
           (r, cs) \<leftarrow> mergeLoop getNext (previousResultsFound s) 0 record cs;
           case r of
             None \<Rightarrow> Some (None, s\<lparr>ms_children := cs, ms_listsHaveMoreRecordsInThem := False\<rparr>)
           | Some record \<Rightarrow> Some (Some record,
               s\<lparr>ms_children := cs, previousResultsFound := previousResultsFound s @ [recordId record]\<rparr>)
         }
     })"

definition MergeSortedByID_close ::
  "('s \<Rightarrow> 's option) \<Rightarrow> 's MergeSortedByIDOperator \<Rightarrow> (bool \<times> 's MergeSortedByIDOperator) option" where
  "MergeSortedByID_close closeChild s = do {
     cs \<leftarrow> forChildren closeChild (ms_children s);
     Some (True, s\<lparr>ms_children := cs, ms_listsHaveMoreRecordsInThem := False\<rparr>)
   }"

section \<open>Where the matches of a result come from\<close>

text \<open>The records that calls of \<open>getNext\<close> of an object deliver, sooner or later.\<close>

inductive delivers :: "('s, 'a) next_fun \<Rightarrow> 's \<Rightarrow> 'a \<Rightarrow> bool" for getNext :: "('s, 'a) next_fun" where
  now: "getNext c = Some (Some r, c') \<Longrightarrow> delivers getNext c r"
| later: "getNext c = Some (x, c') \<Longrightarrow> delivers getNext c' r \<Longrightarrow> delivers getNext c r"

text \<open>
  The record \<open>y\<close> is aggregated from one match of each of the children \<open>js\<close>, in this order: a
  record with the id of \<open>y\<close> that the child has. One of the matches gives the other fields of \<open>y\<close>.
\<close>

definition merges :: "('c \<Rightarrow> PhysicalPlanRecordItem \<Rightarrow> bool) \<Rightarrow> (real list \<Rightarrow> real) \<Rightarrow> 'c list \<Rightarrow> nat list \<Rightarrow>
    PhysicalPlanRecordItem \<Rightarrow> bool" where
  "merges has aggregate cs js y \<longleftrightarrow> (\<exists>r ms. y = combineMatches aggregate r ms \<and> r \<in> set ms
     \<and> list_all2 (\<lambda>j m. recordId m = recordId y \<and> has (cs ! j) m) js ms)"

lemma merges_mono:
  assumes "merges has aggregate cs js y" "\<And>j m. j \<in> set js \<Longrightarrow> has (cs ! j) m \<Longrightarrow> has' (cs' ! j) m"
  shows "merges has' aggregate cs' js y"
proof -
  obtain r ms where r: "y = combineMatches aggregate r ms" "r \<in> set ms"
    "list_all2 (\<lambda>j m. recordId m = recordId y \<and> has (cs ! j) m) js ms"
    using assms(1) unfolding merges_def by blast
  from r(3) have "list_all2 (\<lambda>j m. recordId m = recordId y \<and> has' (cs' ! j) m) js ms"
    by (rule list.rel_mono_strong) (use assms(2) in auto)
  then show ?thesis using r(1,2) unfolding merges_def by blast
qed

text \<open>The children \<open>cs'\<close> are states that the children \<open>cs\<close> reach: they deliver nothing else.\<close>

definition reached :: "('s, 'a) next_fun \<Rightarrow> 's list \<Rightarrow> 's list \<Rightarrow> bool" where
  "reached getNext cs' cs \<longleftrightarrow> length cs' = length cs
     \<and> (\<forall>j < length cs. \<forall>r. delivers getNext (cs' ! j) r \<longrightarrow> delivers getNext (cs ! j) r)"

lemma reached_refl [simp]: "reached getNext cs cs"
  by (simp add: reached_def)

lemma reached_trans: "reached getNext cs2 cs1 \<Longrightarrow> reached getNext cs1 cs \<Longrightarrow> reached getNext cs2 cs"
  by (simp add: reached_def)

lemma childNext_reached:
  assumes "childNext getNext i cs = Some (x, cs')"
  shows "i < length cs \<and> reached getNext cs' cs \<and> (\<forall>r. x = Some r \<longrightarrow> delivers getNext (cs ! i) r)"
proof -
  obtain c where c: "i < length cs" "getNext (cs ! i) = Some (x, c)" "cs' = cs[i := c]"
    using assms by (auto simp: childNext_def nth_opt_Some_iff split: bind_splits)
  then show ?thesis by (auto simp: reached_def nth_list_update intro: delivers.intros)
qed

lemma fetchUntil_reached:
  assumes "fetchUntil getNext stop i cs = Some (x, cs')"
  shows "i < length cs \<and> reached getNext cs' cs \<and> (\<forall>r. x = Some r \<longrightarrow> delivers getNext (cs ! i) r)"
proof -
  have "i < length cs \<and> reached getNext (snd (x, cs')) cs
    \<and> (\<forall>r. fst (x, cs') = Some r \<longrightarrow> delivers getNext (cs ! i) r)"
    using assms
  proof (rule fetchUntil.raw_induct [where P = "\<lambda>getNext stop i cs z. i < length cs \<and> reached getNext (snd z) cs
      \<and> (\<forall>r. fst z = Some r \<longrightarrow> delivers getNext (cs ! i) r)", rotated])
    fix fetch :: "('s, 'a) next_fun \<Rightarrow> ('a \<Rightarrow> bool) \<Rightarrow> nat \<Rightarrow> 's list \<Rightarrow> ('a option \<times> 's list) option"
      and getNext :: "('s, 'a) next_fun" and stop i cs z
    assume ih: "\<And>getNext stop i cs z. fetch getNext stop i cs = Some z \<Longrightarrow> i < length cs \<and> reached getNext (snd z) cs
        \<and> (\<forall>r. fst z = Some r \<longrightarrow> delivers getNext (cs ! i) r)"
      and "childNext getNext i cs \<bind> (\<lambda>(r, cs). case r of None \<Rightarrow> Some (None, cs)
        | Some record \<Rightarrow> if stop record then Some (Some record, cs) else fetch getNext stop i cs) = Some z"
    then obtain x cs1 where x: "childNext getNext i cs = Some (x, cs1)"
      "z = (x, cs1) \<or> fetch getNext stop i cs1 = Some z"
      by (auto split: bind_splits option.splits if_splits)
    note c = childNext_reached [OF x(1)]
    from x(2) show "i < length cs \<and> reached getNext (snd z) cs
        \<and> (\<forall>r. fst z = Some r \<longrightarrow> delivers getNext (cs ! i) r)"
    proof
      assume "fetch getNext stop i cs1 = Some z"
      from ih [OF this] show ?thesis using c by (auto simp: reached_def)
    qed (use c in simp)
  qed
  then show ?thesis by simp
qed

text \<open>A round: every match is the record itself or comes from the child that is asked for it.\<close>

definition matchOf :: "('s, PhysicalPlanRecordItem) next_fun \<Rightarrow> nat \<Rightarrow> PhysicalPlanRecordItem \<Rightarrow> 's list \<Rightarrow> nat \<Rightarrow>
    PhysicalPlanRecordItem \<Rightarrow> bool" where
  "matchOf getNext i r cs j m \<longleftrightarrow> recordId m = recordId r
     \<and> (if j = i then m = r else j < length cs \<and> delivers getNext (cs ! j) m)"

lemma matchOf_reached: "matchOf getNext i r cs' j m \<Longrightarrow> reached getNext cs' cs \<Longrightarrow> matchOf getNext i r cs j m"
  by (auto simp: matchOf_def reached_def split: if_splits)

lemma matchChildren_reached:
  "matchChildren getNext i r ms js cs = Some (m, cs') \<Longrightarrow> reached getNext cs' cs \<and>
    (case m of
      Exhausted \<Rightarrow> True
    | NextRound x k \<Rightarrow> k \<in> set js \<and> k < length cs \<and> delivers getNext (cs ! k) x
    | Matched ms' \<Rightarrow> \<exists>ms2. ms' = ms @ ms2 \<and> list_all2 (matchOf getNext i r cs) js ms2)"
proof (induction getNext i r ms js cs rule: matchChildren.induct)
  case (2 getNext i r ms j js cs)
  show ?case
  proof (cases "j = i")
    case True
    with "2.prems" "2.IH"(1) show ?thesis
      by (auto split: MatchResult.splits simp: matchOf_def list_all2_Cons1)
  next
    case False
    with "2.prems" obtain x cs1 where x: "advanceTo getNext (recordId r) j cs = Some (x, cs1)"
      "(case x of None \<Rightarrow> Some (Exhausted, cs1)
        | Some nextRecord \<Rightarrow> if recordId nextRecord = recordId r
            then matchChildren getNext i r (ms @ [nextRecord]) js cs1 else Some (NextRound nextRecord j, cs1))
       = Some (m, cs')" by (auto split: bind_splits)
    note c = fetchUntil_reached [OF x(1) [unfolded advanceTo_def]]
    show ?thesis
    proof (cases "\<exists>y. x = Some y \<and> recordId y = recordId r")
      case True
      then obtain y where y: "x = Some y" "recordId y = recordId r" by blast
      have "matchChildren getNext i r (ms @ [y]) js cs1 = Some (m, cs')" using x(2) y by simp
      note ih = "2.IH"(2) [OF False x(1) refl y this]
      have "reached getNext cs' cs" using ih c reached_trans by blast
      moreover have "matchOf getNext i r cs j y" using False y c by (simp add: matchOf_def)
      moreover have "list_all2 (matchOf getNext i r cs1) js ms2 \<Longrightarrow> list_all2 (matchOf getNext i r cs) js ms2" for ms2
        using c by (auto elim!: list_all2_mono matchOf_reached)
      moreover have "k < length cs \<and> delivers getNext (cs ! k) z" if "k < length cs1" "delivers getNext (cs1 ! k) z" for k z
        using c that by (simp add: reached_def)
      ultimately show ?thesis using ih by (auto split: MatchResult.splits simp: list_all2_Cons1)
    next
      case False
      then show ?thesis using x(2) c by (auto split: option.splits if_splits)
    qed
  qed
qed auto

lemma merges_matched:
  assumes "list_all2 (matchOf getNext i r cs) [0..<length cs] ms" "reached getNext cs cs0" "i < length cs0"
    "delivers getNext (cs0 ! i) r"
  shows "merges (delivers getNext) aggregate cs0 [0..<length cs0] (combineMatches aggregate r ms)"
proof -
  have len: "length cs = length cs0" using assms(2) by (simp add: reached_def)
  have "ms ! i = r" "length ms = length cs0"
    using assms(1,3) len by (auto simp: list_all2_conv_all_nth matchOf_def)
  then have "r \<in> set ms" using assms(3) nth_mem by metis
  moreover have "list_all2 (\<lambda>j m. recordId m = recordId r \<and> delivers getNext (cs0 ! j) m) [0..<length cs0] ms"
    using assms unfolding list_all2_conv_all_nth matchOf_def reached_def by (auto split: if_splits)
  ultimately show ?thesis unfolding merges_def recordId_combineMatches by blast
qed

lemma mergeLoop_reached:
  assumes "mergeLoop getNext ps i r cs = Some (x, cs')" "reached getNext cs cs0" "i < length cs0"
    "delivers getNext (cs0 ! i) r"
  shows "reached getNext cs' cs0
    \<and> (\<forall>y. x = Some y \<longrightarrow> merges (delivers getNext) computeAggregatedRuntimeScoreForAnd cs0 [0..<length cs0] y)"
proof -
  let ?P = "\<lambda>getNext ps i r cs z. \<forall>cs0. reached getNext cs cs0 \<longrightarrow> i < length cs0 \<longrightarrow> delivers getNext (cs0 ! i) r
    \<longrightarrow> reached getNext (snd z) cs0 \<and> (\<forall>y. fst z = Some y
      \<longrightarrow> merges (delivers getNext) computeAggregatedRuntimeScoreForAnd cs0 [0..<length cs0] y)"
  have "?P getNext ps i r cs (x, cs')"
    using assms(1)
  proof (rule mergeLoop.raw_induct [where P = ?P, rotated], intro allI impI)
    fix merge and getNext :: "('s, PhysicalPlanRecordItem) next_fun" and ps i r cs z cs0
    assume ih: "\<And>getNext ps i r cs z. merge getNext ps i r cs = Some z \<Longrightarrow> ?P getNext ps i r cs z"
      and body: "matchChildren getNext i r [] [0..<length cs] cs \<bind> (\<lambda>(m, cs). case m of
        Exhausted \<Rightarrow> Some (None, cs)
      | NextRound nextRecord j \<Rightarrow> merge getNext ps j nextRecord cs
      | Matched ms \<Rightarrow> if length ms = length cs
          then Some (Some (combineMatches computeAggregatedRuntimeScoreForAnd r ms), cs)
          else fetchUnseen getNext ps ((i + 1) mod length cs) cs \<bind> (\<lambda>(r, cs). case r of
            None \<Rightarrow> Some (None, cs)
          | Some r \<Rightarrow> merge getNext ps ((i + 1) mod length cs) r cs)) = Some z"
      and r: "reached getNext cs cs0" "i < length cs0" "delivers getNext (cs0 ! i) r"
    from body obtain m cs1 where m: "matchChildren getNext i r [] [0..<length cs] cs = Some (m, cs1)"
      by (auto split: bind_splits)
    note m1 = matchChildren_reached [OF m]
    have r1: "reached getNext cs1 cs0" using reached_trans [OF _ r(1)] m1 by blast
    have from_cs: "k < length cs0 \<and> delivers getNext (cs0 ! k) x" if "k < length c" "delivers getNext (c ! k) x"
      "reached getNext c cs0" for k x c using that by (simp add: reached_def)
    show "reached getNext (snd z) cs0 \<and> (\<forall>y. fst z = Some y
      \<longrightarrow> merges (delivers getNext) computeAggregatedRuntimeScoreForAnd cs0 [0..<length cs0] y)"
    proof (cases m)
      case Exhausted
      then show ?thesis using body m r1 by auto
    next
      case (NextRound x k)
      then have "merge getNext ps k x cs1 = Some z" using body m by simp
      from ih [OF this] show ?thesis using r1 m1 NextRound from_cs r(1) by auto
    next
      case (Matched ms)
      show ?thesis
      proof (cases "length ms = length cs1")
        case True
        then have "z = (Some (combineMatches computeAggregatedRuntimeScoreForAnd r ms), cs1)"
          using body m Matched by auto
        then show ?thesis using m1 Matched r1 merges_matched [OF _ r] by auto
      next
        case False
        let ?k = "(i + 1) mod length cs1"
        obtain x cs2 where x: "fetchUnseen getNext ps ?k cs1 = Some (x, cs2)"
          "case x of None \<Rightarrow> z = (None, cs2) | Some r \<Rightarrow> merge getNext ps ((i + 1) mod length cs2) r cs2 = Some z"
          using body m Matched False by (auto split: bind_splits option.splits)
        note c = fetchUntil_reached [OF x(1) [unfolded fetchUnseen_def]]
        have r2: "reached getNext cs2 cs0" using reached_trans c r1 by blast
        show ?thesis
        proof (cases x)
          case None
          then show ?thesis using x(2) r2 by simp
        next
          case (Some y)
          then have "merge getNext ps ?k y cs2 = Some z" using x(2) c by (simp add: reached_def)
          from ih [OF this] show ?thesis using r2 Some c from_cs [OF _ _ r1] by blast
        qed
      qed
    qed
  qed
  then show ?thesis using assms(2-4) by simp
qed

lemma merge_drain_merges:
  assumes "drain (MergeSortedByID_getNext getNext) n s = Some ys" "reached getNext (ms_children s) cs0"
  shows "\<forall>y \<in> set ys. merges (delivers getNext) computeAggregatedRuntimeScoreForAnd cs0 [0..<length cs0] y"
  using assms
proof (induction n arbitrary: s ys)
  case (Suc n)
  from Suc.prems(1) obtain x s1 where x: "MergeSortedByID_getNext getNext s = Some (x, s1)"
    "ys = [] \<or> (\<exists>y zs. x = Some y \<and> ys = y # zs \<and> drain (MergeSortedByID_getNext getNext) n s1 = Some zs)"
    by (auto split: bind_splits option.splits)
  have "reached getNext (ms_children s1) cs0 \<and> merges (delivers getNext) computeAggregatedRuntimeScoreForAnd cs0 [0..<length cs0] y"
    if y: "x = Some y" for y
  proof -
    obtain r cs1 cs2 where f: "fetchUnseen getNext (previousResultsFound s) 0 (ms_children s) = Some (Some r, cs1)"
      "mergeLoop getNext (previousResultsFound s) 0 r cs1 = Some (Some y, cs2)" "ms_children s1 = cs2"
      using x(1) y by (auto simp: MergeSortedByID_getNext_def split: if_splits bind_splits option.splits)
    note c = fetchUntil_reached [OF f(1) [unfolded fetchUnseen_def]]
    have "reached getNext cs1 cs0" using c Suc.prems(2) reached_trans by blast
    moreover have "0 < length cs0" "delivers getNext (cs0 ! 0) r"
      using c Suc.prems(2) by (metis reached_def)+
    ultimately have "reached getNext cs2 cs0 \<and> merges (delivers getNext) computeAggregatedRuntimeScoreForAnd cs0 [0..<length cs0] y"
      using mergeLoop_reached [OF f(2)] by blast
    then show ?thesis using f(3) by simp
  qed
  then show ?case using x(2) Suc.IH by auto
qed auto

section \<open>Correctness of the merge\<close>

locale sorted_children = sorted_stream getNext recordId remaining ok
  for getNext :: "'s \<Rightarrow> (PhysicalPlanRecordItem option \<times> 's) option"
    and remaining :: "'s \<Rightarrow> u32 list" and ok :: "'s \<Rightarrow> bool"
begin

text \<open>Progress of the operators: what the children have left in all.\<close>

definition left :: "'s list \<Rightarrow> nat" where
  "left cs = sum_list (map (\<lambda>c. length (remaining c)) cs)"

lemma left_update:
  "j < length cs \<Longrightarrow> left (cs[j := c]) + length (remaining (cs ! j)) = left cs + length (remaining c)"
  unfolding left_def by (induction cs arbitrary: j) (auto split: nat.splits)

lemma childNext_cases:
  assumes "j < length cs" "ok (cs ! j)"
  obtains (finished) c where "childNext getNext j cs = Some (None, cs[j := c])" "ok c"
      "remaining (cs ! j) = []" "remaining c = []"
  | (item) x c where "childNext getNext j cs = Some (Some x, cs[j := c])" "ok c"
      "remaining (cs ! j) = recordId x # remaining c"
  using assms(2)
proof (cases rule: getNext_cases)
  case (finished s')
  then show thesis using that(1) assms(1) by (simp add: childNext_def nth_opt_def)
next
  case (item x s')
  then show thesis using that(2) assms(1) by (simp add: childNext_def nth_opt_def)
qed

text \<open>What a fetching loop leaves out is a prefix of ids none of which stops it.\<close>

lemma fetchUntil_spec:
  assumes "j < length cs" "ok (cs ! j)" "\<And>x. stop x \<longleftrightarrow> Q (recordId x)"
  shows "\<exists>r c d. fetchUntil getNext stop j cs = Some (r, cs[j := c]) \<and> ok c \<and> (\<forall>y \<in> set d. \<not> Q y)
    \<and> (case r of None \<Rightarrow> remaining (cs ! j) = d \<and> remaining c = []
       | Some x \<Rightarrow> Q (recordId x) \<and> remaining (cs ! j) = d @ recordId x # remaining c)"
  using assms(1,2)
proof (induction "length (remaining (cs ! j))" arbitrary: cs rule: less_induct)
  case less
  from less.prems show ?case
  proof (cases rule: childNext_cases)
    case finished
    then show ?thesis by (subst fetchUntil.simps) (auto intro!: exI [of _ "[]"])
  next
    case (item x c)
    show ?thesis
    proof (cases "stop x")
      case True
      then show ?thesis using item assms(3)
        by (subst fetchUntil.simps) (auto intro!: exI [of _ "Some x"] exI [of _ c] exI [of _ "[]"])
    next
      case False
      have "length (remaining (cs[j := c] ! j)) < length (remaining (cs ! j))"
        "j < length (cs[j := c])" "ok (cs[j := c] ! j)"
        using item less.prems(1) by auto
      from less.hyps [OF this] obtain r c' d where r:
        "fetchUntil getNext stop j (cs[j := c]) = Some (r, cs[j := c'])" "ok c'" "\<forall>y \<in> set d. \<not> Q y"
        "case r of None \<Rightarrow> remaining c = d \<and> remaining c' = []
          | Some x \<Rightarrow> Q (recordId x) \<and> remaining c = d @ recordId x # remaining c'"
        using less.prems(1) by (simp only: list_update_overwrite nth_list_update_eq) blast
      have "fetchUntil getNext stop j cs = Some (r, cs[j := c'])"
        using item(1) r(1) False by (subst fetchUntil.simps) auto
      then show ?thesis using r(2-4) item(3) False assms(3)
        by (intro exI [of _ r] exI [of _ c'] exI [of _ "recordId x # d"]) (auto split: option.splits)
    qed
  qed
qed

lemma advanceTo_cases:
  assumes "j < length cs" "ok (cs ! j)"
  obtains (finished) c where "advanceTo getNext v j cs = Some (None, cs[j := c])" "ok c"
      "\<forall>y \<in> set (remaining (cs ! j)). y < v"
  | (item) x c d where "advanceTo getNext v j cs = Some (Some x, cs[j := c])" "ok c" "v \<le> recordId x"
      "remaining (cs ! j) = d @ recordId x # remaining c" "\<forall>y \<in> set d. y < v"
proof -
  have "recordId x = v \<or> v < recordId x \<longleftrightarrow> v \<le> recordId x" for x by auto
  from fetchUntil_spec [OF assms, of "\<lambda>x. recordId x = v \<or> recordId x > v" "\<lambda>y. v \<le> y", OF this]
  obtain r c d where "advanceTo getNext v j cs = Some (r, cs[j := c])" "ok c" "\<forall>y \<in> set d. \<not> v \<le> y"
    "case r of None \<Rightarrow> remaining (cs ! j) = d \<and> remaining c = []
       | Some x \<Rightarrow> v \<le> recordId x \<and> remaining (cs ! j) = d @ recordId x # remaining c"
    unfolding advanceTo_def by blast
  then show thesis using that by (cases r) (auto simp: not_le)
qed

lemma fetchUnseen_cases:
  assumes "j < length cs" "ok (cs ! j)"
  obtains (finished) c where "fetchUnseen getNext ps j cs = Some (None, cs[j := c])" "ok c"
      "set (remaining (cs ! j)) \<subseteq> set ps" "remaining c = []"
  | (item) x c d where "fetchUnseen getNext ps j cs = Some (Some x, cs[j := c])" "ok c"
      "recordId x \<notin> set ps" "remaining (cs ! j) = d @ recordId x # remaining c" "set d \<subseteq> set ps"
proof -
  from fetchUntil_spec [OF assms, of "\<lambda>x. recordId x \<notin> set ps" "\<lambda>y. y \<notin> set ps", OF refl]
  obtain r c d where "fetchUnseen getNext ps j cs = Some (r, cs[j := c])" "ok c" "\<forall>y \<in> set d. \<not> y \<notin> set ps"
    "case r of None \<Rightarrow> remaining (cs ! j) = d \<and> remaining c = []
       | Some x \<Rightarrow> recordId x \<notin> set ps \<and> remaining (cs ! j) = d @ recordId x # remaining c"
    unfolding fetchUnseen_def by blast
  then show thesis using that by (cases r) auto
qed

text \<open>
  The state within a call: \<open>v\<close> is the id all children are to have, and the children in \<open>P\<close> have
  delivered it already. \<open>targets\<close> is the intersection of what the children have, with \<open>v\<close> put back.
\<close>

definition targets :: "nat set \<Rightarrow> u32 \<Rightarrow> 's list \<Rightarrow> u32 set" where
  "targets P v cs = {x. \<forall>k < length cs. x \<in> set (remaining (cs ! k)) \<or> k \<in> P \<and> x = v}"

definition aligned :: "nat set \<Rightarrow> u32 \<Rightarrow> 's list \<Rightarrow> bool" where
  "aligned P v cs \<longleftrightarrow> (\<forall>k < length cs. ok (cs ! k) \<and> (k \<in> P \<longrightarrow> (\<forall>x \<in> set (remaining (cs ! k)). v \<le> x)))"

lemma targets_ge: "aligned P v cs \<Longrightarrow> i \<in> P \<Longrightarrow> i < length cs \<Longrightarrow> x \<in> targets P v cs \<Longrightarrow> v \<le> x"
  by (auto simp: targets_def aligned_def)

lemma targets_update:
  assumes "j < length cs"
  shows "x \<in> targets P v (cs[j := c]) \<longleftrightarrow> (x \<in> set (remaining c) \<or> j \<in> P \<and> x = v)
    \<and> (\<forall>k < length cs. k \<noteq> j \<longrightarrow> x \<in> set (remaining (cs ! k)) \<or> k \<in> P \<and> x = v)"
  using all_nth_update [OF assms, of "\<lambda>c k. x \<in> set (remaining c) \<or> k \<in> P \<and> x = v" c]
  by (simp add: targets_def)

lemma targets_at:
  "j < length cs \<Longrightarrow> x \<in> targets P v cs \<longleftrightarrow> (x \<in> set (remaining (cs ! j)) \<or> j \<in> P \<and> x = v)
    \<and> (\<forall>k < length cs. k \<noteq> j \<longrightarrow> x \<in> set (remaining (cs ! k)) \<or> k \<in> P \<and> x = v)"
  using targets_update [of j cs x P v "cs ! j"] by simp

lemma aligned_update:
  assumes "aligned P v cs" "j < length cs" "ok c" "v \<le> w" "\<forall>x \<in> set (remaining c). w \<le> x"
    and "Q \<subseteq> insert j P" "w = v \<or> Q = {j}"
  shows "aligned Q w (cs[j := c])"
  using assms by (auto simp: aligned_def nth_list_update)

lemma rest_sorted:
  "j < length cs \<Longrightarrow> aligned P v cs \<Longrightarrow> remaining (cs ! j) = d @ w # ws \<Longrightarrow> \<forall>x \<in> set ws. w \<le> x"
  using sorted_remaining [of "cs ! j"] by (auto simp: aligned_def sorted_append)

lemma targets_match:
  assumes "aligned P v cs" "i \<in> P" "i < length cs" "j \<notin> P" "j < length cs" "ok c"
    and rem: "remaining (cs ! j) = d @ v # remaining c" "\<forall>y \<in> set d. y < v"
  shows "aligned (insert j P) v (cs[j := c])" "targets (insert j P) v (cs[j := c]) = targets P v cs"
proof -
  show al: "aligned (insert j P) v (cs[j := c])"
    by (rule aligned_update [OF assms(1,5,6)]) (use rest_sorted [OF assms(5,1) rem(1)] in auto)
  have "x \<in> targets (insert j P) v (cs[j := c]) \<longleftrightarrow> x \<in> targets P v cs" if "v \<le> x" for x
  proof -
    have "x \<in> set (remaining (cs ! j)) \<longleftrightarrow> x = v \<or> x \<in> set (remaining c)"
      using rem that by (auto simp: not_less [symmetric])
    then show ?thesis using assms(4) unfolding targets_update [OF assms(5)] targets_at [OF assms(5), of x P]
      by blast
  qed
  moreover have "v \<le> x" if "x \<in> targets (insert j P) v (cs[j := c])" for x
    using targets_ge [OF al _ _ that, of j] assms(5) by simp
  ultimately show "targets (insert j P) v (cs[j := c]) = targets P v cs"
    using targets_ge [OF assms(1-3)] by blast
qed

lemma targets_next:
  assumes "aligned P v cs" "i \<in> P" "i < length cs" "j \<notin> P" "j < length cs" "ok c" "v < w"
    and rem: "remaining (cs ! j) = d @ w # remaining c" "\<forall>y \<in> set d. y < v"
  shows "aligned {j} w (cs[j := c])" "targets {j} w (cs[j := c]) = targets P v cs"
proof -
  note ge = rest_sorted [OF assms(5,1) rem(1)]
  show al: "aligned {j} w (cs[j := c])"
    by (rule aligned_update [OF assms(1,5,6)]) (use ge assms(7) in auto)
  have "x \<in> targets {j} w (cs[j := c]) \<longleftrightarrow> x \<in> targets P v cs" if "v < x" for x
  proof -
    have "x \<in> set (remaining (cs ! j)) \<longleftrightarrow> x = w \<or> x \<in> set (remaining c)"
      using rem that by auto
    then show ?thesis using assms(4) that
      unfolding targets_update [OF assms(5)] targets_at [OF assms(5), of x P] by blast
  qed
  moreover have "v < x" if "x \<in> targets {j} w (cs[j := c])" for x
    using targets_ge [OF al _ _ that, of j] assms(5,7) by simp
  moreover have "v < x" if "x \<in> targets P v cs" for x
  proof -
    have "x \<in> set (remaining (cs ! j))" using that assms(4,5) by (auto simp: targets_def)
    then show ?thesis using targets_ge [OF assms(1-3) that] rem ge assms(7) by auto
  qed
  ultimately show "targets {j} w (cs[j := c]) = targets P v cs" by blast
qed

lemma targets_empty:
  assumes "aligned P v cs" "i \<in> P" "i < length cs" "j \<notin> P" "j < length cs"
    "\<forall>y \<in> set (remaining (cs ! j)). y < v"
  shows "targets P v cs = {}"
proof -
  have "v \<le> x" "x \<in> set (remaining (cs ! j))" if "x \<in> targets P v cs" for x
    using that targets_ge [OF assms(1-3)] assms(4,5) by (auto simp: targets_def)
  then show ?thesis using assms(6) by fastforce
qed

lemma left_less:
  "j < length cs \<Longrightarrow> remaining (cs ! j) = d @ w # remaining c \<Longrightarrow> left (cs[j := c]) < left cs"
  using left_update [of j cs c] by simp

text \<open>The outcomes of a round for the record \<open>r\<close>, when \<open>T\<close> is what is left to deliver.\<close>

definition round_spec :: "PhysicalPlanRecordItem \<Rightarrow> u32 set \<Rightarrow> 's list \<Rightarrow> MatchResult \<Rightarrow> 's list \<Rightarrow> bool" where
  "round_spec r T cs m cs' \<longleftrightarrow> length cs' = length cs \<and>
    (case m of
      Exhausted \<Rightarrow> T = {}
    | NextRound x k \<Rightarrow> k < length cs \<and> recordId r < recordId x \<and> left cs' < left cs
        \<and> aligned {k} (recordId x) cs' \<and> targets {k} (recordId x) cs' = T
    | Matched ms \<Rightarrow> aligned {..<length cs} (recordId r) cs' \<and> targets {..<length cs} (recordId r) cs' = T)"

lemma matchChildren_spec:
  assumes "aligned (insert i {..<j}) (recordId r) cs" "i < length cs" "j \<le> length cs"
  shows "\<exists>m cs'. matchChildren getNext i r ms [j..<length cs] cs = Some (m, cs')
    \<and> round_spec r (targets (insert i {..<j}) (recordId r) cs) cs m cs'"
  using assms
proof (induction "length cs - j" arbitrary: j cs ms)
  case 0
  then have "insert i {..<j} = {..<length cs}" by auto
  then show ?case using 0 by (auto simp: round_spec_def)
next
  case (Suc n)
  then have j: "j < length cs" and n: "n = length cs - Suc j" by simp_all
  then have up: "[j..<length cs] = j # [Suc j..<length cs]" by (simp add: upt_rec)
  have P: "insert i {..<Suc j} = insert j (insert i {..<j})" by auto
  show ?case
  proof (cases "j = i")
    case True
    then have "insert i {..<Suc j} = insert i {..<j}" by auto
    then show ?thesis using Suc.hyps(1) [OF n, of "ms @ [r]"] Suc.prems j up True by simp
  next
    case False
    then have notin: "j \<notin> insert i {..<j}" by simp
    have "ok (cs ! j)" using Suc.prems(1) j by (auto simp: aligned_def)
    with j show ?thesis
    proof (cases rule: advanceTo_cases [where v = "recordId r"])
      case (finished c)
      have "targets (insert i {..<j}) (recordId r) cs = {}"
        by (rule targets_empty [OF Suc.prems(1) _ Suc.prems(2) notin j finished(3)]) simp
      then show ?thesis using finished up False by (simp add: round_spec_def)
    next
      case (item x c d)
      show ?thesis
      proof (cases "recordId x = recordId r")
        case True
        note m = targets_match [OF Suc.prems(1) insertI1 Suc.prems(2) notin j item(2) item(4,5) [unfolded True]]
        have n': "n = length (cs[j := c]) - Suc j" using n by simp
        obtain m cs' where r: "matchChildren getNext i r (ms @ [x]) [Suc j..<length cs] (cs[j := c]) = Some (m, cs')"
          "round_spec r (targets (insert i {..<j}) (recordId r) cs) (cs[j := c]) m cs'"
          using Suc.hyps(1) [OF n', of "ms @ [x]"] m Suc.prems(2) j by (auto simp: P)
        have "round_spec r (targets (insert i {..<j}) (recordId r) cs) cs m cs'"
          using r(2) left_less [OF j item(4)] by (auto simp: round_spec_def split: MatchResult.splits)
        then show ?thesis using r(1) up False item(1) True by simp
      next
        case gt: False
        then have "recordId r < recordId x" using item(3) by simp
        from targets_next [OF Suc.prems(1) insertI1 Suc.prems(2) notin j item(2) this item(4,5)]
        show ?thesis using up False item(1) gt j \<open>recordId r < recordId x\<close> left_less [OF j item(4)]
          by (simp add: round_spec_def)
      qed
    qed
  qed
qed

end

context sorted_children
begin

lemma mergeLoop_spec:
  assumes "aligned {i} (recordId r) cs" "i < length cs"
  shows "\<exists>res cs'. mergeLoop getNext ps i r cs = Some (res, cs') \<and>
    (case res of
      None \<Rightarrow> targets {i} (recordId r) cs = {}
    | Some y \<Rightarrow> length cs' = length cs \<and> recordId r \<le> recordId y
        \<and> aligned {..<length cs} (recordId y) cs'
        \<and> targets {..<length cs} (recordId y) cs' = targets {i} (recordId r) cs)"
  using assms
proof (induction "left cs" arbitrary: i r cs rule: less_induct)
  case less
  have P: "insert i {..<0 :: nat} = {i}" by simp
  obtain m cs1 where m: "matchChildren getNext i r [] [0..<length cs] cs = Some (m, cs1)"
    "round_spec r (targets {i} (recordId r) cs) cs m cs1"
    using matchChildren_spec [of i 0 r cs "[]"] less.prems by auto
  show ?case
  proof (cases m)
    case Exhausted
    then show ?thesis using m by (subst mergeLoop.simps) (simp add: round_spec_def)
  next
    case (NextRound x k)
    then have x: "left cs1 < left cs" "aligned {k} (recordId x) cs1" "k < length cs1" "length cs1 = length cs"
      "recordId r < recordId x" "targets {k} (recordId x) cs1 = targets {i} (recordId r) cs"
      using m(2) by (simp_all add: round_spec_def)
    have "mergeLoop getNext ps i r cs = mergeLoop getNext ps k x cs1"
      using m(1) NextRound by (subst mergeLoop.simps) simp
    moreover obtain res cs' where "mergeLoop getNext ps k x cs1 = Some (res, cs')"
      "case res of None \<Rightarrow> targets {k} (recordId x) cs1 = {}
        | Some y \<Rightarrow> length cs' = length cs1 \<and> recordId x \<le> recordId y
          \<and> aligned {..<length cs1} (recordId y) cs'
          \<and> targets {..<length cs1} (recordId y) cs' = targets {k} (recordId x) cs1"
      using less.hyps [OF x(1-3)] by blast
    ultimately show ?thesis using x(4-6)
      by (intro exI [of _ res] exI [of _ cs']) (auto split: option.splits)
  next
    case (Matched ms)
    then have c: "length cs1 = length cs" "aligned {..<length cs} (recordId r) cs1"
      "targets {..<length cs} (recordId r) cs1 = targets {i} (recordId r) cs"
      using m(2) by (simp_all add: round_spec_def)
    have ms: "length ms = length cs"
      using matchChildren_reached [OF m(1) [unfolded Matched]] by (auto dest: list_all2_lengthD)
    then show ?thesis using m(1) Matched c ms by (subst mergeLoop.simps) simp
  qed
qed

definition mergeTargets :: "'s MergeSortedByIDOperator \<Rightarrow> u32 set" where
  "mergeTargets s = {x. ms_listsHaveMoreRecordsInThem s \<and> x \<notin> set (previousResultsFound s)
     \<and> (\<forall>k < length (ms_children s). x \<in> set (remaining (ms_children s ! k)))}"

definition mergeOk :: "'s MergeSortedByIDOperator \<Rightarrow> bool" where
  "mergeOk s \<longleftrightarrow> (ms_listsHaveMoreRecordsInThem s \<longrightarrow> ms_children s \<noteq> []
     \<and> (\<forall>k < length (ms_children s). ok (ms_children s ! k)
         \<and> (\<forall>x \<in> set (remaining (ms_children s ! k)). \<forall>p \<in> set (previousResultsFound s). p \<le> x)))"

lemma finite_mergeTargets: "mergeOk s \<Longrightarrow> finite (mergeTargets s)"
proof (cases "ms_listsHaveMoreRecordsInThem s")
  case True
  moreover assume "mergeOk s"
  ultimately have "mergeTargets s \<subseteq> set (remaining (ms_children s ! 0))"
    by (auto simp: mergeOk_def mergeTargets_def)
  then show ?thesis by (rule finite_subset) simp
qed (simp add: mergeTargets_def)

lemma mergeOk_finished [simp]:
  "\<not> ms_listsHaveMoreRecordsInThem s \<Longrightarrow> mergeOk s \<and> mergeTargets s = {}"
  by (simp add: mergeOk_def mergeTargets_def)

lemma MergeSortedByID_getNext_cases:
  assumes "mergeOk s"
  obtains (finished) s' where "MergeSortedByID_getNext getNext s = Some (None, s')" "mergeTargets s = {}"
      "\<not> ms_listsHaveMoreRecordsInThem s'"
  | (item) y s' where "MergeSortedByID_getNext getNext s = Some (Some y, s')" "mergeOk s'"
      "recordId y \<in> mergeTargets s" "\<forall>x \<in> mergeTargets s. recordId y \<le> x"
      "mergeTargets s' = mergeTargets s - {recordId y}"
proof (cases "ms_listsHaveMoreRecordsInThem s")
  case False
  then show thesis using finished by (simp add: MergeSortedByID_getNext_def mergeTargets_def)
next
  case True
  let ?cs = "ms_children s" and ?ps = "previousResultsFound s"
  have ok: "0 < length ?cs" "ok (?cs ! 0)" using assms True by (auto simp: mergeOk_def)
  then show thesis
  proof (cases rule: fetchUnseen_cases [where ps = ?ps])
    case (finished c)
    then have "mergeTargets s = {}" using ok by (auto simp: mergeTargets_def)
    then show thesis using that(1) finished(1) True by (simp add: MergeSortedByID_getNext_def)
  next
    case (item r c d)
    have sub: "set (remaining c) \<subseteq> set (remaining (?cs ! 0))" using item(4) by auto
    have prev: "p < recordId r" if "p \<in> set ?ps" for p
    proof -
      have "p \<le> recordId r" using assms True ok item(4) that by (auto simp: mergeOk_def)
      then show ?thesis using item(3) that by (auto simp: less_le)
    qed
    have okc: "\<forall>k < length ?cs. ok (?cs ! k)" using assms True by (simp add: mergeOk_def)
    then have "aligned {} (recordId r) ?cs" by (simp add: aligned_def)
    then have al: "aligned {0} (recordId r) (?cs[0 := c])"
      by (rule aligned_update [OF _ ok(1) item(2)])
        (use rest_sorted [OF ok(1) \<open>aligned {} (recordId r) ?cs\<close> item(4)] in auto)
    have T: "targets {0} (recordId r) (?cs[0 := c]) = mergeTargets s"
    proof (rule set_eqI)
      fix x
      have "x \<in> mergeTargets s \<longleftrightarrow> x \<notin> set ?ps \<and> x \<in> targets {} (recordId r) ?cs"
        using True by (auto simp: mergeTargets_def targets_def)
      moreover have "x \<notin> set ?ps \<and> x \<in> set (remaining (?cs ! 0))
          \<longleftrightarrow> x \<in> set (remaining c) \<or> x = recordId r"
        if "recordId r \<le> x \<or> x \<notin> set ?ps"
        using that item(3-5) prev by (auto simp: not_less [symmetric])
      moreover have "recordId r \<le> x" if "x \<in> targets {0} (recordId r) (?cs[0 := c])"
        using targets_ge [OF al _ _ that, of 0] ok(1) by simp
      ultimately show "x \<in> targets {0} (recordId r) (?cs[0 := c]) \<longleftrightarrow> x \<in> mergeTargets s"
        using targets_at [OF ok(1), of x "{}"] targets_update [OF ok(1), of x "{0}" "recordId r" c]
        by blast
    qed
    obtain res cs' where r: "mergeLoop getNext ?ps 0 r (?cs[0 := c]) = Some (res, cs')"
      "case res of None \<Rightarrow> mergeTargets s = {}
      | Some y \<Rightarrow> length cs' = length ?cs \<and> recordId r \<le> recordId y
        \<and> aligned {..<length ?cs} (recordId y) cs'
        \<and> targets {..<length ?cs} (recordId y) cs' = mergeTargets s"
      using mergeLoop_spec [OF al, of ?ps] ok(1) unfolding T length_list_update by blast
    show thesis
    proof (cases res)
      case None
      then show thesis using that(1) r True item(1) by (simp add: MergeSortedByID_getNext_def)
    next
      case (Some y)
      let ?s = "s\<lparr>ms_children := cs', previousResultsFound := ?ps @ [recordId y]\<rparr>"
      have y: "length cs' = length ?cs" "recordId r \<le> recordId y" "aligned {..<length ?cs} (recordId y) cs'"
        "targets {..<length ?cs} (recordId y) cs' = mergeTargets s" using r(2) Some by simp_all
      have ge: "recordId y \<le> x" if "x \<in> targets {..<length ?cs} (recordId y) cs'" for x
        using targets_ge [OF y(3) _ _ that, of 0] ok(1) y(1) by simp
      have "mergeOk ?s"
        using y ok(1) True prev unfolding mergeOk_def aligned_def by fastforce
      moreover have "mergeTargets ?s = mergeTargets s - {recordId y}"
      proof -
        have "x \<notin> set ?ps" if "recordId y \<le> x" for x using prev y(2) that by fastforce
        then show ?thesis using y(1) ge True unfolding y(4) [symmetric]
          by (auto simp: mergeTargets_def targets_def)
      qed
      moreover have "recordId y \<in> mergeTargets s" unfolding y(4) [symmetric] using y(1) by (simp add: targets_def)
      moreover have "MergeSortedByID_getNext getNext s = Some (Some y, ?s)"
        using r(1) Some True item(1) by (simp add: MergeSortedByID_getNext_def)
      ultimately show thesis using that(2) [of y ?s] ge y by auto
    qed
  qed
qed

text \<open>The merge of sorted children is a sorted stream of the intersection.\<close>

sublocale merge: sorted_stream "MergeSortedByID_getNext getNext" recordId
  "\<lambda>s. sorted_list_of_set (mergeTargets s)" mergeOk
proof
  fix s assume s: "mergeOk s" "sorted_list_of_set (mergeTargets s) = []"
  then have e: "mergeTargets s = {}" using finite_mergeTargets by auto
  from s(1) show "\<exists>s'. MergeSortedByID_getNext getNext s = Some (None, s') \<and> mergeOk s'
      \<and> sorted_list_of_set (mergeTargets s') = []"
    by (cases rule: MergeSortedByID_getNext_cases) (use e in auto)
next
  fix s v vs assume s: "mergeOk s" "sorted_list_of_set (mergeTargets s) = v # vs"
  from s(1) show "\<exists>x s'. MergeSortedByID_getNext getNext s = Some (Some x, s') \<and> recordId x = v
      \<and> mergeOk s' \<and> sorted_list_of_set (mergeTargets s') = vs"
  proof (cases rule: MergeSortedByID_getNext_cases)
    case (item y s')
    then show ?thesis using s sorted_list_of_set_min [OF finite_mergeTargets [OF s(1)] item(3,4)] by auto
  qed (use s in auto)
qed simp

end

section \<open>Union of children sorted by id\<close>

record 's UnionSortedByIDOperator =
  us_children :: "'s list"
  nextItemsFromChildren :: "PhysicalPlanRecordItem option list"
  us_listsHaveMoreRecordsInThem :: bool
  visitedRecords :: "u32 list"

fun firstItems :: "('s, 'a) next_fun \<Rightarrow> 's list \<Rightarrow> ('a option list \<times> 's list) option" where
  "firstItems getNext [] = Some ([], [])"
| "firstItems getNext (c # cs) = do {
     (r, c) \<leftarrow> getNext c;
     (rs, cs) \<leftarrow> firstItems getNext cs;
     Some (r # rs, c # cs)
   }"

text \<open>The first items are appended to \<open>nextItemsFromChildren\<close>, which neither \<open>open\<close> nor \<open>close\<close>
  clears.\<close>

definition UnionSortedByID_open ::
  "('s \<Rightarrow> 's option) \<Rightarrow> ('s, PhysicalPlanRecordItem) next_fun \<Rightarrow> 's UnionSortedByIDOperator \<Rightarrow>
    (bool \<times> 's UnionSortedByIDOperator) option" where
  "UnionSortedByID_open openChild getNext s = do {
     cs \<leftarrow> forChildren openChild (us_children s);
     (rs, cs) \<leftarrow> firstItems getNext cs;
     Some (True, s\<lparr>us_children := cs, nextItemsFromChildren := nextItemsFromChildren s @ rs,
       us_listsHaveMoreRecordsInThem := True, visitedRecords := []\<rparr>)
   }"

partial_function (option) skipVisited ::
  "('s, PhysicalPlanRecordItem) next_fun \<Rightarrow> u32 list \<Rightarrow> PhysicalPlanRecordItem option \<Rightarrow> 's \<Rightarrow>
    (PhysicalPlanRecordItem option \<times> 's) option" where
  "skipVisited getNext visited recordItem c =
    (case recordItem of
      None \<Rightarrow> Some (None, c)
    | Some x \<Rightarrow>
        if recordId x \<notin> set visited then Some (Some x, c)
        else do { (recordItem, c) \<leftarrow> getNext c; skipVisited getNext visited recordItem c })"

declare skipVisited.simps [code]

fun skipAllVisited ::
  "('s, PhysicalPlanRecordItem) next_fun \<Rightarrow> u32 list \<Rightarrow> PhysicalPlanRecordItem option list \<Rightarrow> 's list \<Rightarrow>
    (PhysicalPlanRecordItem option list \<times> 's list) option" where
  "skipAllVisited getNext visited ns [] = Some (ns, [])"
| "skipAllVisited getNext visited [] (c # cs) = None"
| "skipAllVisited getNext visited (n # ns) (c # cs) = do {
     (n, c) \<leftarrow> skipVisited getNext visited n c;
     (ns, cs) \<leftarrow> skipAllVisited getNext visited ns cs;
     Some (n # ns, c # cs)
   }"

fun findMinID ::
  "PhysicalPlanRecordItem option \<Rightarrow> PhysicalPlanRecordItem option list \<Rightarrow> PhysicalPlanRecordItem option" where
  "findMinID minIDRecord [] = minIDRecord"
| "findMinID minIDRecord (None # ns) = findMinID minIDRecord ns"
| "findMinID minIDRecord (Some recordItem # ns) =
    (case minIDRecord of
      None \<Rightarrow> findMinID (Some recordItem) ns
    | Some m \<Rightarrow>
        if recordId m > recordId recordItem
          \<or> recordId m = recordId recordItem \<and> recordRuntimeScore m < recordRuntimeScore recordItem
        then findMinID (Some recordItem) ns else findMinID (Some m) ns)"

fun removeMinID ::
  "('s, PhysicalPlanRecordItem) next_fun \<Rightarrow> u32 \<Rightarrow> PhysicalPlanRecordItem option list \<Rightarrow> 's list \<Rightarrow>
    (PhysicalPlanRecordItem list \<times> PhysicalPlanRecordItem option list \<times> 's list) option" where
  "removeMinID getNext v ns [] = Some ([], ns, [])"
| "removeMinID getNext v [] (c # cs) = None"
| "removeMinID getNext v (n # ns) (c # cs) =
    (case n of
      Some x \<Rightarrow>
        if recordId x = v then do {
          (n, c) \<leftarrow> getNext c;
          (ms, ns, cs) \<leftarrow> removeMinID getNext v ns cs;
          Some (x # ms, n # ns, c # cs)
        } else do { (ms, ns, cs) \<leftarrow> removeMinID getNext v ns cs; Some (ms, n # ns, c # cs) }
    | None \<Rightarrow> do { (ms, ns, cs) \<leftarrow> removeMinID getNext v ns cs; Some (ms, n # ns, c # cs) })"

definition UnionSortedByID_getNext ::
  "('s, PhysicalPlanRecordItem) next_fun \<Rightarrow> ('s UnionSortedByIDOperator, PhysicalPlanRecordItem) next_fun" where
  "UnionSortedByID_getNext getNext s =
    (if \<not> us_listsHaveMoreRecordsInThem s then Some (None, s)
     else do {
       (ns, cs) \<leftarrow> skipAllVisited getNext (visitedRecords s) (nextItemsFromChildren s) (us_children s);
       case findMinID None (take (length cs) ns) of
         None \<Rightarrow> Some (None, s\<lparr>us_children := cs, nextItemsFromChildren := ns,
           us_listsHaveMoreRecordsInThem := False\<rparr>)
       | Some minIDRecord \<Rightarrow> do {
           (ms, ns, cs) \<leftarrow> removeMinID getNext (recordId minIDRecord) ns cs;
           Some (Some (combineMatches computeAggregatedRuntimeScoreForOr minIDRecord ms),
             s\<lparr>us_children := cs, nextItemsFromChildren := ns,
               visitedRecords := visitedRecords s @ [recordId minIDRecord]\<rparr>)
         }
     })"

definition UnionSortedByID_close ::
  "('s \<Rightarrow> 's option) \<Rightarrow> 's UnionSortedByIDOperator \<Rightarrow> (bool \<times> 's UnionSortedByIDOperator) option" where
  "UnionSortedByID_close closeChild s = do {
     cs \<leftarrow> forChildren closeChild (us_children s);
     Some (True, s\<lparr>us_children := cs, us_listsHaveMoreRecordsInThem := True, visitedRecords := []\<rparr>)
   }"

section \<open>Correctness of the union\<close>

lemma findMinID_spec:
  "(case findMinID m ns of
     None \<Rightarrow> m = None \<and> (\<forall>n \<in> set ns. n = None)
   | Some y \<Rightarrow> Some y \<in> set (m # ns) \<and> (\<forall>x. Some x \<in> set (m # ns) \<longrightarrow> recordId y \<le> recordId x))"
proof (induction m ns rule: findMinID.induct)
  case (3 m recordItem ns)
  show ?case
  proof (cases m)
    case None
    then show ?thesis using 3(1) [OF None] by (auto split: option.splits)
  next
    case (Some x)
    show ?thesis
    proof (cases "recordId x > recordId recordItem
          \<or> recordId x = recordId recordItem \<and> recordRuntimeScore x < recordRuntimeScore recordItem")
      case True
      then have "recordId recordItem \<le> recordId x" by auto
      then show ?thesis using 3(2) [OF Some True] Some True by (auto split: option.splits)
    next
      case False
      then have "recordId x \<le> recordId recordItem" by auto
      then show ?thesis using 3(3) [OF Some False] Some False by (auto split: option.splits)
    qed
  qed
qed (auto split: option.splits)

context sorted_children
begin

text \<open>A child with the item held for it.\<close>

fun heldIds :: "PhysicalPlanRecordItem option \<times> 's \<Rightarrow> u32 set" where
  "heldIds (None, c) = {}"
| "heldIds (Some x, c) = insert (recordId x) (set (remaining c))"

fun heldOk :: "PhysicalPlanRecordItem option \<times> 's \<Rightarrow> bool" where
  "heldOk (None, c) \<longleftrightarrow> ok c"
| "heldOk (Some x, c) \<longleftrightarrow> ok c \<and> (\<forall>v \<in> set (remaining c). recordId x \<le> v)"

text \<open>
  A held item or a later one of the child; and \<open>p\<close> turns into \<open>p'\<close> when only ids of \<open>vs\<close> are dropped
  and every record that is left is one of \<open>p\<close>.
\<close>

fun heldItem :: "PhysicalPlanRecordItem option \<times> 's \<Rightarrow> PhysicalPlanRecordItem \<Rightarrow> bool" where
  "heldItem (n, c) r \<longleftrightarrow> n = Some r \<or> delivers getNext c r"

definition since :: "u32 set \<Rightarrow> PhysicalPlanRecordItem option \<times> 's \<Rightarrow> PhysicalPlanRecordItem option \<times> 's \<Rightarrow> bool" where
  "since vs p' p \<longleftrightarrow> heldIds p' - vs = heldIds p - vs \<and> (\<forall>r. heldItem p' r \<longrightarrow> heldItem p r)"

lemma since_refl [simp]: "since vs p p"
  by (simp add: since_def)

lemma since_trans: "since vs p2 p1 \<Longrightarrow> since ws p1 p \<Longrightarrow> since (vs \<union> ws) p2 p"
  unfolding since_def by blast

lemma since_all_trans:
  "list_all2 (since vs) ps2 ps1 \<Longrightarrow> list_all2 (since ws) ps1 ps \<Longrightarrow> list_all2 (since (vs \<union> ws)) ps2 ps"
  using list_all2_trans [of "since vs" "since ws" "since (vs \<union> ws)"] since_trans by blast

lemma heldNext:
  assumes "ok c"
  obtains n c' where "getNext c = Some (n, c')" "heldOk (n, c')" "heldIds (n, c') = set (remaining c)"
    "length (remaining c') < length (remaining c) \<or> n = None" "\<forall>r. heldItem (n, c') r \<longrightarrow> delivers getNext c r"
  using assms
proof (cases rule: getNext_cases)
  case (finished s')
  then show thesis using that [of None s'] by (auto intro: delivers.intros)
next
  case (item x s')
  then show thesis using that [of "Some x" s'] sorted_remaining [OF assms] by (auto intro: delivers.intros)
qed

lemma skipVisited_spec:
  assumes "heldOk (n, c)"
  shows "\<exists>n' c'. skipVisited getNext vs n c = Some (n', c') \<and> heldOk (n', c')
    \<and> since (set vs) (n', c') (n, c) \<and> (\<forall>x. n' = Some x \<longrightarrow> recordId x \<notin> set vs)"
  using assms
proof (induction "length (remaining c)" arbitrary: n c rule: less_induct)
  case less
  show ?case
  proof (cases "\<exists>x. n = Some x \<and> recordId x \<in> set vs")
    case False
    then show ?thesis using less.prems by (subst skipVisited.simps) (auto split: option.splits)
  next
    case True
    then obtain x where x: "n = Some x" "recordId x \<in> set vs" by blast
    then have "ok c" using less.prems by simp
    then obtain n1 c1 where n1: "getNext c = Some (n1, c1)" "heldOk (n1, c1)"
      "heldIds (n1, c1) = set (remaining c)" "length (remaining c1) < length (remaining c) \<or> n1 = None"
      "\<forall>r. heldItem (n1, c1) r \<longrightarrow> delivers getNext c r"
      by (rule heldNext)
    have s: "skipVisited getNext vs n c = skipVisited getNext vs n1 c1"
      using x n1(1) by (subst skipVisited.simps) simp
    have i: "since (set vs) (n1, c1) (n, c)" using x n1(3,5) by (auto simp: since_def)
    show ?thesis
    proof (cases n1)
      case None
      then show ?thesis using s i n1(2) by (subst s, subst skipVisited.simps) simp
    next
      case (Some y)
      then obtain p where "skipVisited getNext vs n1 c1 = Some p" "heldOk p" "since (set vs) p (n1, c1)"
        "\<forall>x. fst p = Some x \<longrightarrow> recordId x \<notin> set vs" using less.hyps [OF _ n1(2)] n1(4) by auto
      then show ?thesis unfolding s using since_trans [OF _ i, of "set vs" p] by (cases p) auto
    qed
  qed
qed

lemma skipAllVisited_spec:
  assumes "length ns = length cs" "\<forall>p \<in> set (zip ns cs). heldOk p"
  shows "\<exists>ns' cs'. skipAllVisited getNext vs ns cs = Some (ns', cs')
    \<and> length ns' = length cs \<and> length cs' = length cs \<and> (\<forall>p \<in> set (zip ns' cs'). heldOk p)
    \<and> list_all2 (since (set vs)) (zip ns' cs') (zip ns cs)
    \<and> (\<forall>x. Some x \<in> set ns' \<longrightarrow> recordId x \<notin> set vs)"
  using assms
proof (induction ns cs rule: list_induct2)
  case (Cons n ns c cs)
  obtain n' c' where 1: "skipVisited getNext vs n c = Some (n', c')" "heldOk (n', c')"
    "since (set vs) (n', c') (n, c)" "\<forall>x. n' = Some x \<longrightarrow> recordId x \<notin> set vs"
    using skipVisited_spec [of n c vs] Cons.prems by auto
  obtain ns' cs' where 2: "skipAllVisited getNext vs ns cs = Some (ns', cs')"
    "length ns' = length cs" "length cs' = length cs" "\<forall>p \<in> set (zip ns' cs'). heldOk p"
    "list_all2 (since (set vs)) (zip ns' cs') (zip ns cs)" "\<forall>x. Some x \<in> set ns' \<longrightarrow> recordId x \<notin> set vs"
    using Cons.IH Cons.prems by auto
  from 1 2 show ?case by auto
qed simp

lemma since_Union: "list_all2 (since vs) ps' ps \<Longrightarrow> (\<Union>p \<in> set ps'. heldIds p) - vs = (\<Union>p \<in> set ps. heldIds p) - vs"
  by (induction ps' ps rule: list_all2_induct) (auto simp: since_def Un_Diff)

definition hasId :: "u32 \<Rightarrow> PhysicalPlanRecordItem option \<Rightarrow> bool" where
  "hasId v n \<longleftrightarrow> (\<exists>x. n = Some x \<and> recordId x = v)"

lemma removeMinID_spec:
  assumes "length ns = length cs" "\<forall>p \<in> set (zip ns cs). heldOk p"
  shows "\<exists>ms ns' cs'. removeMinID getNext v ns cs = Some (ms, ns', cs')
    \<and> length ns' = length cs \<and> length cs' = length cs \<and> (\<forall>p \<in> set (zip ns' cs'). heldOk p)
    \<and> list_all2 (since {v}) (zip ns' cs') (zip ns cs) \<and> ms = map the (filter (hasId v) ns)"
  using assms
proof (induction ns cs rule: list_induct2)
  case (Cons n ns c cs)
  obtain ms ns' cs' where 2: "removeMinID getNext v ns cs = Some (ms, ns', cs')"
    "length ns' = length cs" "length cs' = length cs" "\<forall>p \<in> set (zip ns' cs'). heldOk p"
    "list_all2 (since {v}) (zip ns' cs') (zip ns cs)" "ms = map the (filter (hasId v) ns)"
    using Cons.IH Cons.prems by auto
  show ?case
  proof (cases "hasId v n")
    case True
    then obtain x where x: "n = Some x" "recordId x = v" by (auto simp: hasId_def)
    then have "ok c" using Cons.prems by simp
    then obtain n1 c1 where n1: "getNext c = Some (n1, c1)" "heldOk (n1, c1)"
      "heldIds (n1, c1) = set (remaining c)" "\<forall>r. heldItem (n1, c1) r \<longrightarrow> delivers getNext c r" by (rule heldNext)
    have "since {v} (n1, c1) (n, c)" using x n1(3,4) by (auto simp: since_def)
    moreover have "removeMinID getNext v (n # ns) (c # cs) = Some (x # ms, n1 # ns', c1 # cs')"
      using x n1(1) 2(1) by simp
    ultimately show ?thesis using n1(2) 2(2-6) True x
      by (intro exI [of _ "x # ms"] exI [of _ "n1 # ns'"] exI [of _ "c1 # cs'"]) simp
  next
    case False
    then have "removeMinID getNext v (n # ns) (c # cs) = Some (ms, n # ns', c # cs')"
      using 2(1) by (auto split: option.splits simp: hasId_def)
    then show ?thesis using 2(2-6) Cons.prems False
      by (intro exI [of _ ms] exI [of _ "n # ns'"] exI [of _ "c # cs'"]) simp
  qed
qed simp

abbreviation heldPairs :: "'s UnionSortedByIDOperator \<Rightarrow> (PhysicalPlanRecordItem option \<times> 's) list" where
  "heldPairs s \<equiv> zip (nextItemsFromChildren s) (us_children s)"

definition unionTargets :: "'s UnionSortedByIDOperator \<Rightarrow> u32 set" where
  "unionTargets s = (if us_listsHaveMoreRecordsInThem s
     then (\<Union>p \<in> set (zip (nextItemsFromChildren s) (us_children s)). heldIds p) - set (visitedRecords s)
     else {})"

definition unionOk :: "'s UnionSortedByIDOperator \<Rightarrow> bool" where
  "unionOk s \<longleftrightarrow> length (nextItemsFromChildren s) = length (us_children s)
     \<and> (\<forall>p \<in> set (zip (nextItemsFromChildren s) (us_children s)). heldOk p)"

lemma finite_unionTargets: "finite (unionTargets s)"
proof -
  have "finite (heldIds p)" for p by (cases p rule: heldIds.cases) auto
  then show ?thesis by (simp add: unionTargets_def)
qed

lemma matched_children:
  assumes "length ns = length cs" "\<forall>p \<in> set (zip ns cs). heldOk p" "\<And>x. Some x \<in> set ns \<Longrightarrow> v \<le> recordId x"
    "list_all2 (since vs) (zip ns cs) ps" "v \<notin> vs" "Some m \<in> set ns" "recordId m = v"
  shows "merges heldItem aggregate ps (filter (\<lambda>j. v \<in> heldIds (ps ! j)) [0..<length ps])
    (combineMatches aggregate m (map the (filter (hasId v) ns)))"
proof -
  let ?js = "filter (\<lambda>j. v \<in> heldIds (ps ! j)) [0..<length ps]"
  have len: "length ps = length ns" using assms(1,4) by (auto dest: list_all2_lengthD)
  have has: "hasId v (ns ! j) \<longleftrightarrow> v \<in> heldIds (ps ! j)" if "j < length ns" for j
  proof -
    have p: "(ns ! j, cs ! j) \<in> set (zip ns cs)" using that assms(1) by (auto simp: set_zip)
    have "since vs (ns ! j, cs ! j) (ps ! j)"
      using list_all2_nthD [OF assms(4), of j] that assms(1) by simp
    then have "v \<in> heldIds (ps ! j) \<longleftrightarrow> v \<in> heldIds (ns ! j, cs ! j)" using assms(5) by (auto simp: since_def)
    also have "\<dots> \<longleftrightarrow> hasId v (ns ! j)"
    proof (cases "ns ! j")
      case (Some x)
      then have "v \<le> recordId x" using assms(3) nth_mem [OF that] by metis
      moreover have "\<forall>u \<in> set (remaining (cs ! j)). recordId x \<le> u" using assms(2) p Some by fastforce
      ultimately show ?thesis using Some by (auto simp: hasId_def dest: order.antisym)
    qed (simp add: hasId_def)
    finally show ?thesis by simp
  qed
  have "filter (hasId v) ns = map ((!) ns) (filter (\<lambda>j. hasId v (ns ! j)) [0..<length ns])"
    by (subst (1) map_nth [of ns, symmetric], subst filter_map) (simp add: comp_def)
  also have "filter (\<lambda>j. hasId v (ns ! j)) [0..<length ns] = ?js"
    using has len by (intro filter_cong) auto
  finally have ms: "map the (filter (hasId v) ns) = map (\<lambda>j. the (ns ! j)) ?js" by (simp add: comp_def)
  have "recordId (the (ns ! j)) = v \<and> heldItem (ps ! j) (the (ns ! j))" if "j \<in> set ?js" for j
  proof -
    have j: "j < length ns" "hasId v (ns ! j)" using that has len by auto
    then obtain x where x: "ns ! j = Some x" "recordId x = v" by (auto simp: hasId_def)
    have "since vs (ns ! j, cs ! j) (ps ! j)"
      using list_all2_nthD [OF assms(4), of j] j(1) assms(1) by simp
    then show ?thesis using x by (simp add: since_def)
  qed
  then have "list_all2 (\<lambda>j m. recordId m = v \<and> heldItem (ps ! j) m) ?js (map the (filter (hasId v) ns))"
    unfolding ms list_all2_map2 list_all2_same by blast
  moreover have "m \<in> set (map the (filter (hasId v) ns))" using assms(6,7) by (force simp: hasId_def)
  ultimately show ?thesis unfolding merges_def recordId_combineMatches assms(7) by blast
qed

lemma UnionSortedByID_getNext_cases:
  assumes "unionOk s"
  obtains (finished) s' where "UnionSortedByID_getNext getNext s = Some (None, s')" "unionTargets s = {}"
      "unionOk s'" "\<not> us_listsHaveMoreRecordsInThem s'"
  | (item) y s' where "UnionSortedByID_getNext getNext s = Some (Some y, s')" "unionOk s'"
      "recordId y \<in> unionTargets s" "\<forall>x \<in> unionTargets s. recordId y \<le> x"
      "unionTargets s' = unionTargets s - {recordId y}"
      "merges heldItem computeAggregatedRuntimeScoreForOr (heldPairs s)
        (filter (\<lambda>j. recordId y \<in> heldIds (heldPairs s ! j)) [0..<length (heldPairs s)]) y"
      "list_all2 (since (insert (recordId y) (set (visitedRecords s)))) (heldPairs s') (heldPairs s)"
      "visitedRecords s' = visitedRecords s @ [recordId y]"
proof (cases "us_listsHaveMoreRecordsInThem s")
  case False
  then show thesis using finished assms by (simp add: UnionSortedByID_getNext_def unionTargets_def)
next
  case True
  let ?vs = "visitedRecords s"
  obtain ns cs where k: "skipAllVisited getNext ?vs (nextItemsFromChildren s) (us_children s) = Some (ns, cs)"
    "length ns = length cs" "\<forall>p \<in> set (zip ns cs). heldOk p"
    "(\<Union>p \<in> set (zip ns cs). heldIds p) - set ?vs = unionTargets s"
    "\<forall>x. Some x \<in> set ns \<longrightarrow> recordId x \<notin> set ?vs" "list_all2 (since (set ?vs)) (zip ns cs) (heldPairs s)"
    using skipAllVisited_spec [of "nextItemsFromChildren s" "us_children s" ?vs] assms True since_Union
    unfolding unionOk_def unionTargets_def by (auto simp del: set_zip)
  show thesis
  proof (cases "findMinID None ns")
    case None
    then have "\<forall>n \<in> set ns. n = None" using findMinID_spec [of None ns] by simp
    then have "heldIds p = {}" if "p \<in> set (zip ns cs)" for p
      using that set_zip_leftD [of "fst p" "snd p" ns cs] by (cases p) auto
    then have "unionTargets s = {}" unfolding k(4) [symmetric] by simp
    then show thesis using finished k None True by (simp add: UnionSortedByID_getNext_def unionOk_def)
  next
    case (Some m)
    then have m: "Some m \<in> set ns" "\<And>x. Some x \<in> set ns \<Longrightarrow> recordId m \<le> recordId x"
      using findMinID_spec [of None ns] by auto
    obtain ms ns' cs' where r: "removeMinID getNext (recordId m) ns cs = Some (ms, ns', cs')"
      "length ns' = length cs" "length cs' = length cs" "\<forall>p \<in> set (zip ns' cs'). heldOk p"
      "list_all2 (since {recordId m}) (zip ns' cs') (zip ns cs)" "ms = map the (filter (hasId (recordId m)) ns)"
      using removeMinID_spec [OF k(2,3), of "recordId m"] by (elim exE conjE) (rule that)
    let ?y = "combineMatches computeAggregatedRuntimeScoreForOr m ms"
    let ?s = "s\<lparr>us_children := cs', nextItemsFromChildren := ns', visitedRecords := ?vs @ [recordId m]\<rparr>"
    have "UnionSortedByID_getNext getNext s = Some (Some ?y, ?s)"
      using k r(1) Some True by (simp add: UnionSortedByID_getNext_def)
    moreover have "unionOk ?s" using r by (simp add: unionOk_def)
    moreover have "recordId ?y \<in> unionTargets s"
    proof -
      obtain c where "(Some m, c) \<in> set (zip ns cs)" using m(1) k(2) by (metis in_set_impl_in_set_zip1)
      then have "recordId m \<in> (\<Union>p \<in> set (zip ns cs). heldIds p)" by (intro UN_I [of "(Some m, c)"]) auto
      then show ?thesis using k(4,5) m(1) by auto
    qed
    moreover have "\<forall>x \<in> unionTargets s. recordId ?y \<le> x"
    proof
      fix x assume "x \<in> unionTargets s"
      then obtain n c where p: "(n, c) \<in> set (zip ns cs)" "x \<in> heldIds (n, c)"
        unfolding k(4) [symmetric] by auto
      then obtain z where z: "n = Some z" by (cases n) auto
      then have "recordId m \<le> recordId z" using m(2) p(1) by (auto dest: set_zip_leftD)
      moreover have "recordId z \<le> x" using k(3) p z by fastforce
      ultimately show "recordId ?y \<le> x" by simp
    qed
    moreover have "unionTargets ?s = unionTargets s - {recordId ?y}"
    proof -
      have "unionTargets ?s = ((\<Union>p \<in> set (zip ns' cs'). heldIds p) - {recordId m}) - set ?vs"
        using True by (simp add: unionTargets_def Diff_insert2 [of _ _ "set ?vs"])
      also have "\<dots> = ((\<Union>p \<in> set (zip ns cs). heldIds p) - set ?vs) - {recordId m}" unfolding since_Union [OF r(5)] by blast
      finally show ?thesis unfolding k(4) by simp
    qed
    moreover have "merges heldItem computeAggregatedRuntimeScoreForOr (heldPairs s)
        (filter (\<lambda>j. recordId ?y \<in> heldIds (heldPairs s ! j)) [0..<length (heldPairs s)]) ?y"
      using matched_children [OF k(2,3) m(2) k(6) _ m(1) refl] k(5) m(1) unfolding r(6) recordId_combineMatches
      by blast
    moreover have "list_all2 (since (insert (recordId ?y) (set ?vs))) (heldPairs ?s) (heldPairs s)"
      using since_all_trans [OF r(5) k(6)] by simp
    moreover have "visitedRecords ?s = ?vs @ [recordId ?y]" by simp
    ultimately show thesis by (rule item)
  qed
qed

text \<open>The union of sorted children is a sorted stream.\<close>

sublocale union: sorted_stream "UnionSortedByID_getNext getNext" recordId
  "\<lambda>s. sorted_list_of_set (unionTargets s)" unionOk
proof
  fix s assume s: "unionOk s" "sorted_list_of_set (unionTargets s) = []"
  then have e: "unionTargets s = {}" using finite_unionTargets by auto
  from s(1) show "\<exists>s'. UnionSortedByID_getNext getNext s = Some (None, s') \<and> unionOk s'
      \<and> sorted_list_of_set (unionTargets s') = []"
    by (cases rule: UnionSortedByID_getNext_cases) (use e in \<open>auto simp: unionTargets_def\<close>)
next
  fix s v vs assume s: "unionOk s" "sorted_list_of_set (unionTargets s) = v # vs"
  from s(1) show "\<exists>x s'. UnionSortedByID_getNext getNext s = Some (Some x, s') \<and> recordId x = v
      \<and> unionOk s' \<and> sorted_list_of_set (unionTargets s') = vs"
  proof (cases rule: UnionSortedByID_getNext_cases)
    case (item y s')
    then show ?thesis using s sorted_list_of_set_min [OF finite_unionTargets item(3,4)] by auto
  qed (use s in auto)
qed simp

lemma union_drain_merges:
  assumes "unionOk s" "drain (UnionSortedByID_getNext getNext) n s = Some ys"
    "list_all2 (since (set (visitedRecords s))) (heldPairs s) ps"
  shows "\<forall>y \<in> set ys. merges heldItem computeAggregatedRuntimeScoreForOr ps
    (filter (\<lambda>j. recordId y \<in> heldIds (ps ! j)) [0..<length ps]) y"
  using assms
proof (induction n arbitrary: s ys)
  case (Suc n)
  from Suc.prems(1) show ?case
  proof (cases rule: UnionSortedByID_getNext_cases)
    case (item y s')
    have len: "length ps = length (heldPairs s)" using Suc.prems(3) by (auto dest: list_all2_lengthD)
    have y: "recordId y \<notin> set (visitedRecords s)" using item(3) by (simp add: unionTargets_def split: if_splits)
    have at: "since (set (visitedRecords s)) (heldPairs s ! j) (ps ! j)" if "j < length ps" for j
      using list_all2_nthD2 [OF Suc.prems(3) that] .
    have same: "recordId y \<in> heldIds (heldPairs s ! j) \<longleftrightarrow> recordId y \<in> heldIds (ps ! j)" if "j < length ps" for j
      using at [OF that] y unfolding since_def by blast
    have "filter (\<lambda>j. recordId y \<in> heldIds (heldPairs s ! j)) [0..<length (heldPairs s)]
        = filter (\<lambda>j. recordId y \<in> heldIds (ps ! j)) [0..<length ps]"
      by (rule filter_cong) (simp_all only: len [symmetric] same set_upt atLeastLessThan_iff)
    from item(6) [unfolded this] have "merges heldItem computeAggregatedRuntimeScoreForOr ps
        (filter (\<lambda>j. recordId y \<in> heldIds (ps ! j)) [0..<length ps]) y"
    proof (rule merges_mono)
      fix j m assume j: "j \<in> set (filter (\<lambda>j. recordId y \<in> heldIds (ps ! j)) [0..<length ps])" "heldItem (heldPairs s ! j) m"
      then have "j < length ps" by simp
      from at [OF this] j(2) show "heldItem (ps ! j) m" unfolding since_def by blast
    qed
    moreover have "list_all2 (since (set (visitedRecords s'))) (heldPairs s') ps"
      using since_all_trans [OF item(7) Suc.prems(3)] item(8) by simp
    moreover obtain zs where "ys = y # zs" "drain (UnionSortedByID_getNext getNext) n s' = Some zs"
      using Suc.prems(2) item(1) by auto
    ultimately show ?thesis using Suc.IH [OF item(2)] by simp
  qed (use Suc.prems(2) in auto)
qed auto

lemma firstItems_spec:
  assumes "\<forall>c \<in> set cs. ok c"
  shows "\<exists>ns cs'. firstItems getNext cs = Some (ns, cs') \<and> length ns = length cs \<and> length cs' = length cs
    \<and> (\<forall>p \<in> set (zip ns cs'). heldOk p)
    \<and> list_all2 (\<lambda>p c. heldIds p = set (remaining c) \<and> (\<forall>r. heldItem p r \<longrightarrow> delivers getNext c r)) (zip ns cs') cs"
  using assms
proof (induction cs)
  case (Cons c cs)
  then have "ok c" by simp
  then obtain n c' where "getNext c = Some (n, c')" "heldOk (n, c')" "heldIds (n, c') = set (remaining c)"
    "\<forall>r. heldItem (n, c') r \<longrightarrow> delivers getNext c r" by (rule heldNext)
  then show ?case using Cons by auto
qed simp

text \<open>The union after \<open>open\<close>, and what it delivers.\<close>

lemma unionOpened:
  assumes "\<forall>c \<in> set cs. ok c" "firstItems getNext cs = Some (ns, cs')"
    "s = s0\<lparr>us_children := cs', nextItemsFromChildren := ns, us_listsHaveMoreRecordsInThem := True, visitedRecords := []\<rparr>"
  shows "unionOk s" "unionTargets s = (\<Union>c \<in> set cs. set (remaining c))"
    "drain (UnionSortedByID_getNext getNext) n s = Some ys \<Longrightarrow> y \<in> set ys \<Longrightarrow>
      merges (delivers getNext) computeAggregatedRuntimeScoreForOr cs
        (filter (\<lambda>j. recordId y \<in> set (remaining (cs ! j))) [0..<length cs]) y"
proof -
  let ?R = "\<lambda>p c. heldIds p = set (remaining c) \<and> (\<forall>r. heldItem p r \<longrightarrow> delivers getNext c r)"
  have f: "length ns = length cs" "length cs' = length cs" "\<forall>p \<in> set (zip ns cs'). heldOk p"
    "list_all2 ?R (zip ns cs') cs" using firstItems_spec [OF assms(1)] assms(2) by auto
  show ok: "unionOk s" using f assms(3) by (simp add: unionOk_def)
  have "list_all2 ?R ps cs \<Longrightarrow> (\<Union>p \<in> set ps. heldIds p) = (\<Union>c \<in> set cs. set (remaining c))" for ps cs
    by (induction ps cs rule: list_all2_induct) auto
  from this [OF f(4)] show "unionTargets s = (\<Union>c \<in> set cs. set (remaining c))"
    using assms(3) by (simp add: unionTargets_def)
  assume d: "drain (UnionSortedByID_getNext getNext) n s = Some ys" "y \<in> set ys"
  have "list_all2 (since (set (visitedRecords s))) (heldPairs s) (zip ns cs')"
    using assms(3) by (simp add: list_all2_same)
  from union_drain_merges [OF ok d(1) this] d(2)
  have u: "merges heldItem computeAggregatedRuntimeScoreForOr (zip ns cs')
    (filter (\<lambda>j. recordId y \<in> heldIds (zip ns cs' ! j)) [0..<length (zip ns cs')]) y" by blast
  have at: "?R (zip ns cs' ! j) (cs ! j)" if "j < length cs" for j
    using list_all2_nthD2 [OF f(4) that] .
  have len: "length (zip ns cs') = length cs" using f(1,2) by simp
  have same: "recordId y \<in> heldIds (zip ns cs' ! j) \<longleftrightarrow> recordId y \<in> set (remaining (cs ! j))" if "j < length cs" for j
    using at [OF that] by blast
  have "filter (\<lambda>j. recordId y \<in> heldIds (zip ns cs' ! j)) [0..<length (zip ns cs')]
      = filter (\<lambda>j. recordId y \<in> set (remaining (cs ! j))) [0..<length cs]"
    by (rule filter_cong) (simp_all only: len same set_upt atLeastLessThan_iff)
  from u [unfolded this] show "merges (delivers getNext) computeAggregatedRuntimeScoreForOr cs
        (filter (\<lambda>j. recordId y \<in> set (remaining (cs ! j))) [0..<length cs]) y"
  proof (rule merges_mono)
    fix j m assume j: "j \<in> set (filter (\<lambda>j. recordId y \<in> set (remaining (cs ! j))) [0..<length cs])"
      "heldItem (zip ns cs' ! j) m"
    then have "j < length cs" by simp
    from at [OF this] j(2) show "delivers getNext (cs ! j) m" by blast
  qed
qed

lemma mergeOpened:
  assumes "cs \<noteq> []" "\<forall>c \<in> set cs. ok c" "ms_children s = cs" "ms_listsHaveMoreRecordsInThem s"
    "previousResultsFound s = []"
  shows "mergeOk s \<and> mergeTargets s = (\<Inter>c \<in> set cs. set (remaining c))"
proof -
  have "(\<forall>k < length cs. x \<in> set (remaining (cs ! k))) \<longleftrightarrow> (\<forall>c \<in> set cs. x \<in> set (remaining c))" for x
    by (simp add: all_set_conv_all_nth)
  then have "mergeTargets s = (\<Inter>c \<in> set cs. set (remaining c))" using assms by (auto simp: mergeTargets_def)
  then show ?thesis using assms by (simp add: mergeOk_def)
qed

lemmas merge_drain_all = merge.drain_all
lemmas union_drain_all = union.drain_all

end

interpretation byIdChildren: sorted_children SortById_getNext "\<lambda>s. sort (map recordId (records s))" idHeap
  by (simp add: sorted_children_def sortById.sorted_stream_axioms)

lemma forChildren_length: "forChildren f cs = Some cs' \<Longrightarrow> length cs' = length cs"
  by (induction f cs arbitrary: cs' rule: forChildren.induct) (auto split: bind_splits)

text \<open>
  C22. \<open>MergeSortedByIDOperator\<close> over children that deliver their records in ascending order of id,
  possibly with repetitions: opening it succeeds, every call of \<open>getNext\<close> returns, and the records
  it delivers are exactly the ids that all children have, in strictly ascending order. Each of them
  is aggregated from one match per child, in the order of the children: a record with its id that
  this child delivers.
\<close>

theorem MergeSortedByID_intersects:
  assumes "sorted_stream getNext recordId remaining ok" "ms_children s \<noteq> []"
    "forChildren openChild (ms_children s) = Some cs" "\<forall>c \<in> set cs. ok c"
  shows "\<exists>s'. MergeSortedByID_open openChild s = Some (True, s')
    \<and> (\<forall>n \<ge> card (\<Inter>c \<in> set cs. set (remaining c)). \<exists>ys. drain (MergeSortedByID_getNext getNext) n s' = Some ys
        \<and> map recordId ys = sorted_list_of_set (\<Inter>c \<in> set cs. set (remaining c))
        \<and> (\<forall>y \<in> set ys. merges (delivers getNext) computeAggregatedRuntimeScoreForAnd cs [0..<length cs] y))"
proof -
  have sc: "sorted_children getNext remaining ok" using assms(1) by (simp add: sorted_children_def)
  let ?s = "s\<lparr>ms_children := cs, ms_listsHaveMoreRecordsInThem := True, previousResultsFound := []\<rparr>"
  have "cs \<noteq> []" using forChildren_length [OF assms(3)] assms(2) by auto
  then have s: "sorted_children.mergeOk remaining ok ?s"
    "sorted_children.mergeTargets remaining ?s = (\<Inter>c \<in> set cs. set (remaining c))"
    using sorted_children.mergeOpened [OF sc, of cs ?s] assms(4) by auto
  have "MergeSortedByID_open openChild s = Some (True, ?s)"
    using assms(3) by (simp add: MergeSortedByID_open_def)
  moreover have "\<exists>ys. drain (MergeSortedByID_getNext getNext) n ?s = Some ys
      \<and> map recordId ys = sorted_list_of_set (\<Inter>c \<in> set cs. set (remaining c))
      \<and> (\<forall>y \<in> set ys. merges (delivers getNext) computeAggregatedRuntimeScoreForAnd cs [0..<length cs] y)"
    if "card (\<Inter>c \<in> set cs. set (remaining c)) \<le> n" for n
    using sorted_children.merge_drain_all [OF sc s(1), of n] merge_drain_merges [of getNext n ?s _ cs]
      that s(2) by auto
  ultimately show ?thesis by blast
qed

text \<open>
  C23. \<open>UnionSortedByIDOperator\<close>, opened for the first time over children sorted by id: every call
  of \<open>getNext\<close> returns, and the records delivered are exactly the ids that some child has, in
  strictly ascending order. Each of them is aggregated from one match of every child that has its id
  and from no other child.
\<close>

theorem UnionSortedByID_unites:
  assumes "sorted_stream getNext recordId remaining ok" "nextItemsFromChildren s = []"
    "forChildren openChild (us_children s) = Some cs" "\<forall>c \<in> set cs. ok c"
  shows "\<exists>s'. UnionSortedByID_open openChild getNext s = Some (True, s')
    \<and> (\<forall>n \<ge> card (\<Union>c \<in> set cs. set (remaining c)). \<exists>ys. drain (UnionSortedByID_getNext getNext) n s' = Some ys
        \<and> map recordId ys = sorted_list_of_set (\<Union>c \<in> set cs. set (remaining c))
        \<and> (\<forall>y \<in> set ys. merges (delivers getNext) computeAggregatedRuntimeScoreForOr cs
            (filter (\<lambda>j. recordId y \<in> set (remaining (cs ! j))) [0..<length cs]) y))"
proof -
  have sc: "sorted_children getNext remaining ok" using assms(1) by (simp add: sorted_children_def)
  obtain ns cs' where f: "firstItems getNext cs = Some (ns, cs')"
    using sorted_children.firstItems_spec [OF sc assms(4)] by blast
  let ?s = "s\<lparr>us_children := cs', nextItemsFromChildren := ns, us_listsHaveMoreRecordsInThem := True,
    visitedRecords := []\<rparr>"
  note s = sorted_children.unionOpened [OF sc assms(4) f refl, where ?s0.0 = s]
  have "UnionSortedByID_open openChild getNext s = Some (True, ?s)"
    using assms(2,3) f by (simp add: UnionSortedByID_open_def)
  moreover have "\<exists>ys. drain (UnionSortedByID_getNext getNext) n ?s = Some ys
      \<and> map recordId ys = sorted_list_of_set (\<Union>c \<in> set cs. set (remaining c))
      \<and> (\<forall>y \<in> set ys. merges (delivers getNext) computeAggregatedRuntimeScoreForOr cs
            (filter (\<lambda>j. recordId y \<in> set (remaining (cs ! j))) [0..<length cs]) y)"
    if "card (\<Union>c \<in> set cs. set (remaining c)) \<le> n" for n
    using sorted_children.union_drain_all [OF sc s(1), of n] s(3) [of n] that s(2) by auto
  ultimately show ?thesis by blast
qed

text \<open>
  A union operator that was drained, closed and opened again delivers nothing, whatever its
  children have: the items of the first run are still in front of the vector of next items.
\<close>

theorem UnionSortedByID_reopen_empty:
  assumes "nextItemsFromChildren s = replicate (length (us_children s)) None"
    "UnionSortedByID_close closeChild s = Some (b, s1)" "UnionSortedByID_open openChild getNext s1 = Some (b', s2)"
  shows "\<exists>s3. UnionSortedByID_getNext getNext s2 = Some (None, s3)"
proof -
  have skip: "skipAllVisited getNext [] (replicate (length cs) None @ rs) cs = Some (replicate (length cs) None @ rs, cs)"
    for rs and cs :: "'a list" by (induction cs) (simp_all add: skipVisited.simps)
  have "findMinID None (replicate n None) = None" for n by (induction n) simp_all
  moreover have "length (us_children s2) = length (us_children s)"
    "\<exists>rs. nextItemsFromChildren s2 = replicate (length (us_children s)) None @ rs"
    "visitedRecords s2 = []" "us_listsHaveMoreRecordsInThem s2"
  proof -
    have len: "firstItems getNext cs = Some (rs, cs') \<Longrightarrow> length cs' = length cs" for cs rs cs'
      by (induction getNext cs arbitrary: rs cs' rule: firstItems.induct) (auto split: bind_splits)
    show "length (us_children s2) = length (us_children s)"
      using assms(2,3) by (auto simp: UnionSortedByID_open_def UnionSortedByID_close_def
        split: bind_splits dest!: forChildren_length len)
  qed (use assms in \<open>auto simp: UnionSortedByID_open_def UnionSortedByID_close_def split: bind_splits\<close>)
  ultimately show ?thesis using skip [of "us_children s2"] by (auto simp: UnionSortedByID_getNext_def)
qed

definition sampleChildren :: "unit SortByIdOperator list" where
  "sampleChildren = [\<lparr>si_child = (), records = [sampleItem 3 5, sampleItem 7 1, sampleItem 9 2, sampleItem 3 4]\<rparr>,
     \<lparr>si_child = (), records = [sampleItem 3 3, sampleItem 4 2, sampleItem 9 1]\<rparr>]"

lemma sampleChildren_heaps: "\<forall>c \<in> set sampleChildren. idHeap c"
  by (simp add: idHeap_def isHeap_def sampleChildren_def sampleItem_def SortByIdRecordMinHeapComparator_def)

theorem MergeSortedByID_intersects_witness:
  "\<exists>s' ys. MergeSortedByID_open Some \<lparr>ms_children = sampleChildren, ms_listsHaveMoreRecordsInThem = False,
      previousResultsFound = []\<rparr> = Some (True, s')
    \<and> drain (MergeSortedByID_getNext SortById_getNext) 2 s' = Some ys \<and> map recordId ys = [3, 9]"
proof -
  let ?s = "\<lparr>ms_children = sampleChildren, ms_listsHaveMoreRecordsInThem = False, previousResultsFound = []\<rparr>"
  have i: "(\<Inter>c \<in> set sampleChildren. set (sort (map recordId (records c)))) = {3, 9}"
    by (auto simp: sampleChildren_def sampleItem_def)
  have l: "sorted_list_of_set {3, 9 :: u32} = [3, 9]" by (simp add: sorted_list_of_set_insert_remove)
  have f: "ms_children ?s \<noteq> []" "forChildren Some (ms_children ?s) = Some sampleChildren"
    by (simp_all add: sampleChildren_def)
  obtain s' where s': "MergeSortedByID_open Some ?s = Some (True, s')"
    "\<forall>n \<ge> card {3, 9 :: u32}. \<exists>ys. drain (MergeSortedByID_getNext SortById_getNext) n s' = Some ys
      \<and> map recordId ys = sorted_list_of_set {3, 9}
      \<and> (\<forall>y \<in> set ys. merges (delivers SortById_getNext) computeAggregatedRuntimeScoreForAnd
          sampleChildren [0..<length sampleChildren] y)"
    using MergeSortedByID_intersects [of SortById_getNext "\<lambda>s. sort (map recordId (records s))" idHeap
        ?s Some sampleChildren, OF sortById.sorted_stream_axioms f, unfolded i] sampleChildren_heaps by blast
  from s'(2) [rule_format, of 2] s'(1) l show ?thesis by auto
qed

theorem UnionSortedByID_unites_witness:
  "\<exists>s' ys. UnionSortedByID_open Some SortById_getNext \<lparr>us_children = sampleChildren,
      nextItemsFromChildren = [], us_listsHaveMoreRecordsInThem = False, visitedRecords = []\<rparr> = Some (True, s')
    \<and> drain (UnionSortedByID_getNext SortById_getNext) 4 s' = Some ys \<and> map recordId ys = [3, 4, 7, 9]"
proof -
  let ?s = "\<lparr>us_children = sampleChildren, nextItemsFromChildren = [], us_listsHaveMoreRecordsInThem = False,
    visitedRecords = []\<rparr>"
  have i: "(\<Union>c \<in> set sampleChildren. set (sort (map recordId (records c)))) = {3, 4, 7, 9}"
    by (auto simp: sampleChildren_def sampleItem_def)
  have l: "sorted_list_of_set {3, 4, 7, 9 :: u32} = [3, 4, 7, 9]" by (simp add: sorted_list_of_set_insert_remove)
  have f: "nextItemsFromChildren ?s = []" "forChildren Some (us_children ?s) = Some sampleChildren"
    by (simp_all add: sampleChildren_def)
  obtain s' where s': "UnionSortedByID_open Some SortById_getNext ?s = Some (True, s')"
    "\<forall>n \<ge> card {3, 4, 7, 9 :: u32}. \<exists>ys. drain (UnionSortedByID_getNext SortById_getNext) n s' = Some ys
      \<and> map recordId ys = sorted_list_of_set {3, 4, 7, 9}
      \<and> (\<forall>y \<in> set ys. merges (delivers SortById_getNext) computeAggregatedRuntimeScoreForOr sampleChildren
          (filter (\<lambda>j. recordId y \<in> set (sort (map recordId (records (sampleChildren ! j)))))
            [0..<length sampleChildren]) y)"
    using UnionSortedByID_unites [of SortById_getNext "\<lambda>s. sort (map recordId (records s))" idHeap
        ?s Some sampleChildren, OF sortById.sorted_stream_axioms f, unfolded i] sampleChildren_heaps by blast
  from s'(2) [rule_format, of 4] s'(1) l show ?thesis by auto
qed

theorem UnionSortedByID_reopen_empty_witness:
  "\<exists>s1 s2 s3. UnionSortedByID_close Some \<lparr>us_children = [sampleById], nextItemsFromChildren = [None],
      us_listsHaveMoreRecordsInThem = False, visitedRecords = [3]\<rparr> = Some (True, s1)
    \<and> UnionSortedByID_open Some SortById_getNext s1 = Some (True, s2)
    \<and> UnionSortedByID_getNext SortById_getNext s2 = Some (None, s3)"
proof -
  let ?s = "\<lparr>us_children = [sampleById], nextItemsFromChildren = [None], us_listsHaveMoreRecordsInThem = False,
    visitedRecords = [3]\<rparr>"
  obtain s1 where 1: "UnionSortedByID_close Some ?s = Some (True, s1)"
    by (simp add: UnionSortedByID_close_def)
  moreover have "us_children s1 = [sampleById]" using 1 by (auto simp: UnionSortedByID_close_def)
  moreover obtain n c where "SortById_getNext sampleById = Some (n, c)"
    by (cases "SortById_getNext sampleById")
      (auto simp: SortById_getNext_def split: list.splits)
  ultimately obtain s2 where "UnionSortedByID_open Some SortById_getNext s1 = Some (True, s2)"
    by (simp add: UnionSortedByID_open_def)
  then show ?thesis using 1 UnionSortedByID_reopen_empty [of ?s Some True s1 Some SortById_getNext True s2] by auto
qed

end
