(* ===== verification/Forward_List.thy ===== *)
theory Forward_List
  imports Uleb128 Complex_Main "HOL-Library.Monad_Syntax"
begin

text \<open>
  The forward list of a record, \<^verbatim>\<open>src/src/core/index/ForwardIndex.h\<close> and \<^verbatim>\<open>ForwardIndex.cpp\<close>: one
  byte array with the keyword ids, the scores and the variable-length sections with the attributes
  of every keyword, the positions, the offsets and the synonym data. A pointer into the array is an
  offset, a read outside of it is \<open>None\<close>, and so is a failed assertion. Integers are stored little
  endian; \<open>halfToFloat\<close> is the conversion of the half-precision library. Byte counts are natural
  numbers: the sections of a record are far below four gigabytes.
\<close>

section \<open>Layout\<close>

datatype PositionIndexType = POSITION_INDEX_FULL | POSITION_INDEX_WORD | POSITION_INDEX_CHAR
  | POSITION_INDEX_FIELDBIT | POSITION_INDEX_NONE

definition isEnabledAttributeBasedSearch :: "PositionIndexType \<Rightarrow> bool" where
  "isEnabledAttributeBasedSearch t \<longleftrightarrow> t = POSITION_INDEX_FIELDBIT \<or> t = POSITION_INDEX_WORD
     \<or> t = POSITION_INDEX_CHAR \<or> t = POSITION_INDEX_FULL"

datatype ATTRIBUTES_OP = ATTRIBUTES_OP_AND | ATTRIBUTES_OP_OR | ATTRIBUTES_OP_NAND

record ForwardList =
  externalRecordId :: string
  recordBoost :: real
  numberOfKeywords :: nat
  fl_data :: "u8 list"
  attributeIdsIndexSize :: nat
  positionIndexSize :: nat
  offsetIndexSize :: nat
  charLenIndexSize :: nat
  synonymBitMapSize :: nat
  dataSize :: nat

definition getKeywordIdsSizeInBytes :: "ForwardList \<Rightarrow> nat" where
  "getKeywordIdsSizeInBytes fl = numberOfKeywords fl * 4"

definition getKeywordTfBoostProductsSizeInBytes :: "ForwardList \<Rightarrow> nat" where
  "getKeywordTfBoostProductsSizeInBytes fl = numberOfKeywords fl * 2"

definition getKeywordRecordStaticScoresSizeInBytes :: "ForwardList \<Rightarrow> nat" where
  "getKeywordRecordStaticScoresSizeInBytes fl = numberOfKeywords fl * 2"

definition getKeywordRecordStaticScoresPointer :: "ForwardList \<Rightarrow> nat" where
  "getKeywordRecordStaticScoresPointer fl =
     getKeywordIdsSizeInBytes fl + getKeywordTfBoostProductsSizeInBytes fl"

definition getKeywordAttributeIdsPointer :: "ForwardList \<Rightarrow> nat" where
  "getKeywordAttributeIdsPointer fl = getKeywordIdsSizeInBytes fl
     + getKeywordTfBoostProductsSizeInBytes fl + getKeywordRecordStaticScoresSizeInBytes fl"

definition getPositionIndexPointer :: "ForwardList \<Rightarrow> nat" where
  "getPositionIndexPointer fl = getKeywordIdsSizeInBytes fl + getKeywordTfBoostProductsSizeInBytes fl
     + getKeywordRecordStaticScoresSizeInBytes fl + attributeIdsIndexSize fl"

definition getOffsetIndexPointer :: "ForwardList \<Rightarrow> nat" where
  "getOffsetIndexPointer fl = getPositionIndexPointer fl + positionIndexSize fl"

definition getSynonymBitMapPointer :: "ForwardList \<Rightarrow> nat" where
  "getSynonymBitMapPointer fl = getOffsetIndexPointer fl + offsetIndexSize fl"

definition getCharLenIndexPointer :: "ForwardList \<Rightarrow> nat" where
  "getCharLenIndexPointer fl = getSynonymBitMapPointer fl + synonymBitMapSize fl"

lemmas layout_defs = getKeywordIdsSizeInBytes_def getKeywordTfBoostProductsSizeInBytes_def
  getKeywordRecordStaticScoresSizeInBytes_def getKeywordRecordStaticScoresPointer_def
  getKeywordAttributeIdsPointer_def getPositionIndexPointer_def getOffsetIndexPointer_def
  getSynonymBitMapPointer_def getCharLenIndexPointer_def

text \<open>\<open>copy(v.begin(), v.end(), data + off)\<close>; \<open>None\<close> when it leaves the array.\<close>

definition copyTo :: "u8 list \<Rightarrow> nat \<Rightarrow> u8 list \<Rightarrow> u8 list option" where
  "copyTo v off buf = (if off + length v \<le> length buf
     then Some (take off buf @ v @ drop (off + length v) buf) else None)"

text \<open>\<open>mem\<close> is the content of the newly allocated array of the size asked for.\<close>

definition allocateSpaceAndSetNSAValuesAndPosIndex ::
  "(nat \<Rightarrow> u8 list) \<Rightarrow> u8 list \<Rightarrow> u8 list \<Rightarrow> u8 list \<Rightarrow> u8 list \<Rightarrow> u8 list \<Rightarrow> ForwardList \<Rightarrow> ForwardList option" where
  "allocateSpaceAndSetNSAValuesAndPosIndex mem attributeIds positions offsets charLens synonyms fl = do {
     let fl = fl\<lparr>attributeIdsIndexSize := length attributeIds, positionIndexSize := length positions,
       offsetIndexSize := length offsets, charLenIndexSize := length charLens,
       synonymBitMapSize := length synonyms\<rparr>;
     let d0 = getKeywordIdsSizeInBytes fl + getKeywordTfBoostProductsSizeInBytes fl
       + getKeywordRecordStaticScoresSizeInBytes fl;
     let buf = mem (d0 + length attributeIds + length positions + length offsets + length synonyms + length charLens);
     buf \<leftarrow> copyTo attributeIds d0 buf;
     let d1 = d0 + length attributeIds;
     buf \<leftarrow> copyTo positions d1 buf;
     let d2 = d1 + length positions;
     buf \<leftarrow> copyTo offsets d2 buf;
     let d3 = d2 + length offsets;
     buf \<leftarrow> copyTo synonyms d3 buf;
     let d4 = d3 + length synonyms;
     buf \<leftarrow> copyTo charLens d4 buf;
     Some (fl\<lparr>fl_data := buf, dataSize := d4 + length charLens\<rparr>)
   }"

text \<open>The result is the list after the copies and whether the last assertion holds.\<close>

definition copyByteArraysToForwardList ::
  "u8 list \<Rightarrow> u8 list \<Rightarrow> u8 list \<Rightarrow> u8 list \<Rightarrow> u8 list \<Rightarrow> ForwardList \<Rightarrow> (ForwardList \<times> bool) option" where
  "copyByteArraysToForwardList attributeIds positions offsets synonyms charLens fl =
    (if attributeIdsIndexSize fl = length attributeIds \<and> positionIndexSize fl = length positions
       \<and> offsetIndexSize fl = length offsets \<and> synonymBitMapSize fl = length synonyms
       \<and> charLenIndexSize fl = length charLens
     then do {
       let d0 = getKeywordIdsSizeInBytes fl + getKeywordRecordStaticScoresSizeInBytes fl;
       buf \<leftarrow> copyTo attributeIds d0 (fl_data fl);
       let d1 = d0 + attributeIdsIndexSize fl;
       buf \<leftarrow> copyTo positions d1 buf;
       let d2 = d1 + positionIndexSize fl;
       buf \<leftarrow> copyTo offsets d2 buf;
       let d3 = d2 + offsetIndexSize fl;
       buf \<leftarrow> copyTo synonyms d3 buf;
       let d4 = d3 + synonymBitMapSize fl;
       buf \<leftarrow> copyTo charLens d4 buf;
       Some (fl\<lparr>fl_data := buf\<rparr>, d4 + charLenIndexSize fl = dataSize fl)
     }
     else None)"

section \<open>Keyword ids and scores\<close>

definition readU16 :: "u8 list \<Rightarrow> nat \<Rightarrow> u16 option" where
  "readU16 buf off = do {
     b0 \<leftarrow> nth_opt buf off; b1 \<leftarrow> nth_opt buf (off + 1);
     Some (ucast b0 OR push_bit 8 (ucast b1))
   }"

definition readU32 :: "u8 list \<Rightarrow> nat \<Rightarrow> u32 option" where
  "readU32 buf off = do {
     b0 \<leftarrow> nth_opt buf off; b1 \<leftarrow> nth_opt buf (off + 1); b2 \<leftarrow> nth_opt buf (off + 2); b3 \<leftarrow> nth_opt buf (off + 3);
     Some (ucast b0 OR push_bit 8 (ucast b1) OR push_bit 16 (ucast b2) OR push_bit 24 (ucast b3))
   }"

definition getKeywordId :: "ForwardList \<Rightarrow> nat \<Rightarrow> u32 option" where
  "getKeywordId fl i = readU32 (fl_data fl) (4 * i)"

fun readKeywordIds :: "ForwardList \<Rightarrow> nat list \<Rightarrow> u32 list option" where
  "readKeywordIds fl [] = Some []"
| "readKeywordIds fl (i # is) = do { x \<leftarrow> getKeywordId fl i; xs \<leftarrow> readKeywordIds fl is; Some (x # xs) }"

definition getKeywordIds :: "ForwardList \<Rightarrow> u32 list option" where
  "getKeywordIds fl = readKeywordIds fl [0..<numberOfKeywords fl]"

definition getKeywordRecordStaticScore :: "(u16 \<Rightarrow> real) \<Rightarrow> ForwardList \<Rightarrow> nat \<Rightarrow> real option" where
  "getKeywordRecordStaticScore halfToFloat fl i =
     map_option halfToFloat (readU16 (fl_data fl) (getKeywordRecordStaticScoresPointer fl + 2 * i))"

text \<open>
  The file's own binary search \<open>lower_bound\<close>: \<open>first\<close> is the offset of the pointer in the array \<open>ids\<close>,
  \<open>cnt\<close> the number of elements that are left.
\<close>

function lowerBoundLoop :: "u32 list \<Rightarrow> u32 \<Rightarrow> nat \<Rightarrow> nat \<Rightarrow> nat" where
  "lowerBoundLoop ids val first cnt =
    (if cnt = 0 then first
     else let step = cnt div 2; it = first + step in
       if ids ! it < val then lowerBoundLoop ids val (it + 1) (cnt - (step + 1))
       else lowerBoundLoop ids val first step)"
  by pat_completeness auto
termination by (relation "measure (\<lambda>(ids, val, first, cnt). cnt)") auto

declare lowerBoundLoop.simps [simp del]

definition lowerBound :: "u32 list \<Rightarrow> u32 \<Rightarrow> nat" where
  "lowerBound ids val = lowerBoundLoop ids val 0 (length ids)"

definition getKeywordOffset :: "ForwardList \<Rightarrow> u32 \<Rightarrow> nat option" where
  "getKeywordOffset fl keywordId = do { ids \<leftarrow> getKeywordIds fl; Some (lowerBound ids keywordId) }"

fun linearScan :: "u32 \<Rightarrow> u32 list \<Rightarrow> nat \<Rightarrow> nat" where
  "linearScan keywordId [] i = i"
| "linearScan keywordId (x # xs) i = (if x = keywordId then i else linearScan keywordId xs (i + 1))"

definition getKeywordOffsetByLinearScan :: "ForwardList \<Rightarrow> u32 \<Rightarrow> nat option" where
  "getKeywordOffsetByLinearScan fl keywordId = do { ids \<leftarrow> getKeywordIds fl; Some (linearScan keywordId ids 0) }"

section \<open>Variable-length sections\<close>

text \<open>Appending an encoded vector with its size in front. \<open>g\<close> and \<open>vlb\<close> are uninitialised local arrays
  of five bytes.\<close>

definition convertToVarLengthArray :: "u8 list \<Rightarrow> u8 list \<Rightarrow> u32 list \<Rightarrow> u8 list \<Rightarrow> u8 list" where
  "convertToVarLengthArray g vlb positionListVector grandBuffer =
    (let (lengthOfDeltas, buffer) = uInt32VectorToVarLenArray g positionListVector
     in case uInt32ToVarLengthBytes (of_nat lengthOfDeltas) (Some vlb) (Some 0) of
       (_, Some vlb, Some numberOfBytesForLength) \<Rightarrow>
         grandBuffer @ take numberOfBytesForLength vlb
           @ (case buffer of None \<Rightarrow> [] | Some buffer \<Rightarrow> take lengthOfDeltas buffer)
     | _ \<Rightarrow> grandBuffer)"

definition convertToVarLengthBitMap :: "u8 list \<Rightarrow> u8 list \<Rightarrow> u8 list \<Rightarrow> u8 list" where
  "convertToVarLengthBitMap vlb bitMapVector grandBuffer =
    (case uInt32ToVarLengthBytes (of_nat (length bitMapVector)) (Some vlb) (Some 0) of
       (_, Some vlb, Some numberOfBytesForLength) \<Rightarrow>
         grandBuffer @ take numberOfBytesForLength vlb @ bitMapVector
     | _ \<Rightarrow> grandBuffer)"

text \<open>
  The loops that jump over \<open>count\<close> encoded vectors: \<open>piOffset\<close> and \<open>byteRead\<close> after them. The
  result of the decoder is ignored; \<open>byteRead\<close> keeps its last value when it fails.
\<close>

fun skipVLBs :: "nat \<Rightarrow> u8 list \<Rightarrow> nat \<Rightarrow> nat \<Rightarrow> (nat \<times> nat) option" where
  "skipVLBs 0 piPtr piOffset byteRead = Some (piOffset, byteRead)"
| "skipVLBs (Suc n) piPtr piOffset byteRead =
    (case varLengthBytesToUInt32 (drop piOffset piPtr) byteRead of
      None \<Rightarrow> None
    | Some (_, v, byteRead) \<Rightarrow> skipVLBs n piPtr (piOffset + byteRead + unat v) byteRead)"

text \<open>Decoding a vector of \<open>n\<close> bytes takes at most \<open>n\<close> rounds when every round reads a byte.\<close>

definition decodeVLB :: "u8 list \<Rightarrow> nat \<Rightarrow> u32 list \<Rightarrow> u32 list option" where
  "decodeVLB buf n out = varLenByteArrayToInt32Vector n buf n out"

definition getKeywordAttributeIdsList :: "ForwardList \<Rightarrow> nat \<Rightarrow> u32 list \<Rightarrow> u32 list option" where
  "getKeywordAttributeIdsList fl keywordOffset attributeIdsList =
    (if attributeIdsIndexSize fl = 0 then Some attributeIdsList
     else do {
       let piPtr = drop (getKeywordAttributeIdsPointer fl) (fl_data fl);
       lastByte \<leftarrow> nth_opt piPtr (attributeIdsIndexSize fl - 1);
       if lastByte AND 0x80 \<noteq> 0 then Some attributeIdsList
       else do {
         (piOffset, byteRead) \<leftarrow> skipVLBs keywordOffset piPtr 0 0;
         (_, v, byteRead) \<leftarrow> varLengthBytesToUInt32 (drop piOffset piPtr) byteRead;
         decodeVLB (drop (piOffset + byteRead) piPtr) (unat v) []
       }
     })"

fun attributeIdsListsLoop :: "nat \<Rightarrow> u8 list \<Rightarrow> nat \<Rightarrow> nat \<Rightarrow> u32 list list \<Rightarrow> u32 list list option" where
  "attributeIdsListsLoop 0 piPtr piOffset byteRead idLists = Some idLists"
| "attributeIdsListsLoop (Suc n) piPtr piOffset byteRead idLists = do {
     (_, v, byteRead) \<leftarrow> varLengthBytesToUInt32 (drop piOffset piPtr) byteRead;
     attributeIdsPerKeyword \<leftarrow> decodeVLB (drop (piOffset + byteRead) piPtr) (unat v) [];
     attributeIdsListsLoop n piPtr (piOffset + byteRead + unat v) byteRead (idLists @ [attributeIdsPerKeyword])
   }"

definition getKeywordAttributeIdsLists :: "ForwardList \<Rightarrow> nat \<Rightarrow> u32 list list option" where
  "getKeywordAttributeIdsLists fl numOfKeywords =
    (if attributeIdsIndexSize fl = 0 then Some (replicate numOfKeywords [])
     else do {
       let piPtr = drop (getKeywordAttributeIdsPointer fl) (fl_data fl);
       lastByte \<leftarrow> nth_opt piPtr (attributeIdsIndexSize fl - 1);
       if lastByte AND 0x80 \<noteq> 0 then Some (replicate numOfKeywords [])
       else attributeIdsListsLoop numOfKeywords piPtr 0 0 []
     })"

definition getKeywordAttributeIdsByteArray :: "ForwardList \<Rightarrow> nat \<Rightarrow> u8 list \<Rightarrow> u8 list option" where
  "getKeywordAttributeIdsByteArray fl keywordOffset attributesVLBarray =
    (if attributeIdsIndexSize fl = 0 then Some attributesVLBarray
     else do {
       let piPtr = drop (getKeywordAttributeIdsPointer fl) (fl_data fl);
       lastByte \<leftarrow> nth_opt piPtr (attributeIdsIndexSize fl - 1);
       if lastByte AND 0x80 \<noteq> 0 then Some attributesVLBarray
       else do {
         (piOffset, byteRead) \<leftarrow> skipVLBs keywordOffset piPtr 0 0;
         (_, v, byteRead) \<leftarrow> varLengthBytesToUInt32 (drop piOffset piPtr) byteRead;
         if piOffset + byteRead + unat v \<le> length piPtr
         then Some (take (byteRead + unat v) (drop piOffset piPtr)) else None
       }
     })"

text \<open>The offset, in a section with one vector per keyword and attribute, of a keyword's first vector.\<close>

fun skipKeywords :: "ForwardList \<Rightarrow> u8 list \<Rightarrow> nat list \<Rightarrow> nat \<Rightarrow> nat option" where
  "skipKeywords fl piPtr [] piOffset = Some piOffset"
| "skipKeywords fl piPtr (j # js) piOffset = do {
     attributeIds \<leftarrow> getKeywordAttributeIdsList fl j [];
     (piOffset, _) \<leftarrow> skipVLBs (length attributeIds) piPtr piOffset 0;
     skipKeywords fl piPtr js piOffset
   }"

fun findAttribute :: "u32 \<Rightarrow> u8 list \<Rightarrow> u32 list \<Rightarrow> nat \<Rightarrow> u32 list \<Rightarrow> u32 list option" where
  "findAttribute attributeId piPtr [] piOffset pl = Some pl"
| "findAttribute attributeId piPtr (a # as) piOffset pl = do {
     (_, v, byteRead) \<leftarrow> varLengthBytesToUInt32 (drop piOffset piPtr) 0;
     if attributeId = a then decodeVLB (drop (piOffset + byteRead) piPtr) (unat v) pl
     else findAttribute attributeId piPtr as (piOffset + byteRead + unat v) pl
   }"

definition fetchDataFromVLBArray :: "ForwardList \<Rightarrow> nat \<Rightarrow> u32 \<Rightarrow> u32 list \<Rightarrow> u8 list \<Rightarrow> u32 list option" where
  "fetchDataFromVLBArray fl keyOffset attributeId pl piPtr = do {
     piOffset \<leftarrow> skipKeywords fl piPtr [0..<keyOffset] 0;
     attributeIds \<leftarrow> getKeywordAttributeIdsList fl keyOffset [];
     if attributeIds = [] \<or> attributeId \<notin> set attributeIds then Some pl
     else findAttribute attributeId piPtr attributeIds piOffset pl
   }"

definition getKeyWordPostionsInRecordField :: "ForwardList \<Rightarrow> nat \<Rightarrow> u32 \<Rightarrow> u32 list \<Rightarrow> u32 list option" where
  "getKeyWordPostionsInRecordField fl keyOffset attributeId pl =
    (if positionIndexSize fl = 0 then Some pl
     else do {
       let piPtr = drop (getPositionIndexPointer fl) (fl_data fl);
       lastByte \<leftarrow> nth_opt piPtr (positionIndexSize fl - 1);
       if lastByte AND 0x80 \<noteq> 0 then Some pl
       else fetchDataFromVLBArray fl keyOffset attributeId pl piPtr
     })"

definition getKeyWordOffsetInRecordField :: "ForwardList \<Rightarrow> nat \<Rightarrow> u32 \<Rightarrow> u32 list \<Rightarrow> u32 list option" where
  "getKeyWordOffsetInRecordField fl keyOffset attributeId pl =
    (if offsetIndexSize fl = 0 then Some pl
     else do {
       let piPtr = drop (getOffsetIndexPointer fl) (fl_data fl);
       lastByte \<leftarrow> nth_opt piPtr (offsetIndexSize fl - 1);
       if lastByte AND 0x80 \<noteq> 0 then Some pl
       else fetchDataFromVLBArray fl keyOffset attributeId pl piPtr
     })"

definition getSynonymCharLenInRecordField :: "ForwardList \<Rightarrow> nat \<Rightarrow> u32 \<Rightarrow> u32 list \<Rightarrow> u32 list option" where
  "getSynonymCharLenInRecordField fl keyOffset attributeId pl =
    (if offsetIndexSize fl = 0 \<or> charLenIndexSize fl = 0 then Some pl
     else do {
       let piPtr = drop (getCharLenIndexPointer fl) (fl_data fl);
       lastByte \<leftarrow> nth_opt piPtr (charLenIndexSize fl - 1);
       if lastByte AND 0x80 \<noteq> 0 then Some pl
       else fetchDataFromVLBArray fl keyOffset attributeId pl piPtr
     })"

fun copyVLBs :: "nat \<Rightarrow> u8 list \<Rightarrow> nat \<Rightarrow> u8 list \<Rightarrow> u8 list option" where
  "copyVLBs 0 piPtr piOffset vlbArray = Some vlbArray"
| "copyVLBs (Suc n) piPtr piOffset vlbArray = do {
     (_, v, byteRead) \<leftarrow> varLengthBytesToUInt32 (drop piOffset piPtr) 0;
     if piOffset + byteRead + unat v \<le> length piPtr
     then copyVLBs n piPtr (piOffset + byteRead + unat v)
       (vlbArray @ take (byteRead + unat v) (drop piOffset piPtr))
     else None
   }"

definition fetchVLBArrayForKeyword :: "ForwardList \<Rightarrow> nat \<Rightarrow> u8 list \<Rightarrow> u8 list \<Rightarrow> u8 list option" where
  "fetchVLBArrayForKeyword fl keyOffset piPtr vlbArray = do {
     piOffset \<leftarrow> skipKeywords fl piPtr [0..<keyOffset] 0;
     attributeIds \<leftarrow> getKeywordAttributeIdsList fl keyOffset [];
     copyVLBs (length attributeIds) piPtr piOffset vlbArray
   }"

definition getKeyWordPostionsByteArray :: "ForwardList \<Rightarrow> nat \<Rightarrow> u8 list \<Rightarrow> u8 list option" where
  "getKeyWordPostionsByteArray fl keywordOffset positionsVLBarray =
    (if positionIndexSize fl = 0 then Some positionsVLBarray
     else do {
       let piPtr = drop (getPositionIndexPointer fl) (fl_data fl);
       lastByte \<leftarrow> nth_opt piPtr (positionIndexSize fl - 1);
       if lastByte AND 0x80 \<noteq> 0 then Some positionsVLBarray
       else fetchVLBArrayForKeyword fl keywordOffset piPtr positionsVLBarray
     })"

text \<open>Occurrences of one keyword over its attributes, and the term frequencies of all keywords.\<close>

fun countOccurrences :: "nat \<Rightarrow> u8 list \<Rightarrow> nat \<Rightarrow> nat \<Rightarrow> (nat \<times> nat) option" where
  "countOccurrences 0 piPtr piOffset occurrences = Some (piOffset, occurrences)"
| "countOccurrences (Suc k) piPtr piOffset occurrences = do {
     (_, v, byteRead) \<leftarrow> varLengthBytesToUInt32 (drop piOffset piPtr) 0;
     pl \<leftarrow> decodeVLB (drop (piOffset + byteRead) piPtr) (unat v) [];
     countOccurrences k piPtr (piOffset + byteRead + unat v) (occurrences + length pl)
   }"

fun tfLoop :: "u32 list list \<Rightarrow> u8 list \<Rightarrow> nat \<Rightarrow> real list \<Rightarrow> real list option" where
  "tfLoop [] piPtr piOffset keywordTfList = Some keywordTfList"
| "tfLoop (attributeIds # rest) piPtr piOffset keywordTfList = do {
     (piOffset, occurrences) \<leftarrow> countOccurrences (length attributeIds) piPtr piOffset 0;
     tfLoop rest piPtr piOffset (keywordTfList @ [sqrt (real occurrences)])
   }"

definition getKeywordTfListInRecordField :: "ForwardList \<Rightarrow> real list \<Rightarrow> real list option" where
  "getKeywordTfListInRecordField fl keywordTfList =
    (if positionIndexSize fl = 0 then Some (keywordTfList @ replicate (numberOfKeywords fl) 1)
     else do {
       let piPtr = drop (getPositionIndexPointer fl) (fl_data fl);
       lastByte \<leftarrow> nth_opt piPtr (positionIndexSize fl - 1);
       if lastByte AND 0x80 \<noteq> 0 then Some (keywordTfList @ replicate (numberOfKeywords fl) 0)
       else do {
         idLists \<leftarrow> getKeywordAttributeIdsLists fl (numberOfKeywords fl);
         tfLoop idLists piPtr 0 keywordTfList
       }
     })"

definition computeTermFrequencies :: "ForwardList \<Rightarrow> nat \<Rightarrow> real list \<Rightarrow> real list option" where
  "computeTermFrequencies fl numOfKeywords keywordTfList =
    (if numOfKeywords \<le> numberOfKeywords fl
     then do {
       tfs \<leftarrow> getKeywordTfListInRecordField fl keywordTfList;
       Some (tfs @ replicate (numOfKeywords - length tfs) 0)
     }
     else None)"

section \<open>Building the list of a record\<close>

definition isEnabledWordPositionIndex :: "PositionIndexType \<Rightarrow> bool" where
  "isEnabledWordPositionIndex t \<longleftrightarrow> t = POSITION_INDEX_WORD \<or> t = POSITION_INDEX_FULL"

definition isEnabledCharPositionIndex :: "PositionIndexType \<Rightarrow> bool" where
  "isEnabledCharPositionIndex t \<longleftrightarrow> t = POSITION_INDEX_CHAR \<or> t = POSITION_INDEX_FULL"

text \<open>The entries of \<open>TokenAttributeHits\<close> at one index.\<close>

record TokenHit =
  attributeIdOf :: u32
  positionOf :: u32
  charOffsetOf :: u32
  isSynonym :: bool
  charLenOf :: u32

text \<open>The local vectors of the loop over the hits of a keyword and the four temporary buffers.\<close>

record HitBuffers =
  positionListVector :: "u32 list"
  offsetVector :: "u32 list"
  synonymOriginalTokenLenArray :: "u32 list"
  synonymBitFlagArray :: "u8 list"
  bitMapCursor :: nat
  tempPositionIndexBuffer :: "u8 list"
  tempOffsetBuffer :: "u8 list"
  tempcharLenBuffer :: "u8 list"
  tempSynonymBitMapBuffer :: "u8 list"

definition pushHit :: "PositionIndexType \<Rightarrow> TokenHit \<Rightarrow> HitBuffers \<Rightarrow> HitBuffers" where
  "pushHit t h st =
    (let st = (if isEnabledWordPositionIndex t
           then st\<lparr>positionListVector := positionListVector st @ [positionOf h]\<rparr> else st)
     in if isEnabledCharPositionIndex t then
       (let flags = (if bitMapCursor st div 8 \<ge> length (synonymBitFlagArray st)
              then synonymBitFlagArray st @ [0] else synonymBitFlagArray st);
            byte = bitMapCursor st div 8;
            st = st\<lparr>offsetVector := offsetVector st @ [charOffsetOf h], synonymBitFlagArray := flags\<rparr>;
            st = (if isSynonym h
              then st\<lparr>synonymBitFlagArray := flags[byte := flags ! byte OR push_bit (bitMapCursor st mod 8) 1],
                synonymOriginalTokenLenArray := synonymOriginalTokenLenArray st @ [charLenOf h]\<rparr>
              else st)
        in st\<lparr>bitMapCursor := bitMapCursor st + 1\<rparr>)
     else st)"

definition flushHits :: "u8 list \<Rightarrow> u8 list \<Rightarrow> PositionIndexType \<Rightarrow> HitBuffers \<Rightarrow> HitBuffers" where
  "flushHits g vlb t st =
    (let st = (if isEnabledWordPositionIndex t
           then st\<lparr>tempPositionIndexBuffer :=
             convertToVarLengthArray g vlb (positionListVector st) (tempPositionIndexBuffer st)\<rparr> else st);
         st = (if isEnabledCharPositionIndex t
           then st\<lparr>tempOffsetBuffer := convertToVarLengthArray g vlb (offsetVector st) (tempOffsetBuffer st),
             tempcharLenBuffer :=
               convertToVarLengthArray g vlb (synonymOriginalTokenLenArray st) (tempcharLenBuffer st),
             tempSynonymBitMapBuffer :=
               convertToVarLengthBitMap vlb (synonymBitFlagArray st) (tempSynonymBitMapBuffer st)\<rparr> else st)
     in st\<lparr>positionListVector := [], offsetVector := [], synonymOriginalTokenLenArray := [],
       synonymBitFlagArray := [], bitMapCursor := 0\<rparr>)"

fun hitsLoop :: "u8 list \<Rightarrow> u8 list \<Rightarrow> PositionIndexType \<Rightarrow> TokenHit list \<Rightarrow> u32 \<Rightarrow> bool \<Rightarrow> HitBuffers \<Rightarrow> HitBuffers" where
  "hitsLoop g vlb t [] prevAttributeId isFirst st = st"
| "hitsLoop g vlb t (h # hs) prevAttributeId isFirst st =
    hitsLoop g vlb t hs (attributeIdOf h) False
      (if isFirst \<or> prevAttributeId = attributeIdOf h then pushHit t h st
       else pushHit t h (flushHits g vlb t st))"

definition keywordHits :: "u8 list \<Rightarrow> u8 list \<Rightarrow> PositionIndexType \<Rightarrow> TokenHit list \<Rightarrow> HitBuffers \<Rightarrow> HitBuffers" where
  "keywordHits g vlb t hits st = flushHits g vlb t (hitsLoop g vlb t hits 0 True st)"

fun attributeRuns :: "TokenHit list \<Rightarrow> u32 \<Rightarrow> bool \<Rightarrow> u32 list \<Rightarrow> u32 list" where
  "attributeRuns [] prevAttrId isFirst attributeIds = attributeIds"
| "attributeRuns (h # hs) prevAttrId isFirst attributeIds =
    (if isFirst \<or> attributeIdOf h \<noteq> prevAttrId
     then attributeRuns hs (attributeIdOf h) False (attributeIds @ [attributeIdOf h])
     else attributeRuns hs prevAttrId False attributeIds)"

definition KEYWORD_THRESHOLD :: nat where "KEYWORD_THRESHOLD = 2 ^ 24 - 1"

fun hitsOf :: "(string \<rightharpoonup> TokenHit list) \<Rightarrow> (u32 \<times> string) list \<Rightarrow> TokenHit list list option" where
  "hitsOf tokenAttributeHitsMap [] = Some []"
| "hitsOf tokenAttributeHitsMap ((_, keyword) # rest) = do {
     hits \<leftarrow> tokenAttributeHitsMap keyword;
     hitss \<leftarrow> hitsOf tokenAttributeHitsMap rest;
     Some (hits # hitss)
   }"

definition u32Bytes :: "u32 \<Rightarrow> u8 list" where
  "u32Bytes v = [ucast v, ucast (drop_bit 8 v), ucast (drop_bit 16 v), ucast (drop_bit 24 v)]"

definition setKeywordId :: "nat \<Rightarrow> u32 \<Rightarrow> ForwardList \<Rightarrow> ForwardList option" where
  "setKeywordId i keywordId fl =
    (if i \<le> KEYWORD_THRESHOLD then do {
       buf \<leftarrow> copyTo (u32Bytes keywordId) (4 * i) (fl_data fl);
       Some (fl\<lparr>fl_data := buf\<rparr>)
     }
     else Some fl)"

fun setKeywordIds :: "nat \<Rightarrow> u32 list \<Rightarrow> ForwardList \<Rightarrow> ForwardList option" where
  "setKeywordIds i [] fl = Some fl"
| "setKeywordIds i (x # xs) fl = do { fl \<leftarrow> setKeywordId i x fl; setKeywordIds (i + 1) xs fl }"

text \<open>The part of \<open>addRecord\<close> that builds the forward list, up to the keyword ids: the products of
  term frequency and boosts and the static scores are set afterwards.\<close>

definition buildForwardList ::
  "(nat \<Rightarrow> u8 list) \<Rightarrow> u8 list \<Rightarrow> u8 list \<Rightarrow> PositionIndexType \<Rightarrow> (u32 \<times> string) list \<Rightarrow> (string \<rightharpoonup> TokenHit list) \<Rightarrow>
    string \<Rightarrow> real \<Rightarrow> ForwardList option" where
  "buildForwardList mem g vlb t uniqueKeywordIdList tokenAttributeHitsMap primaryKey boost = do {
     let keywords = (if length uniqueKeywordIdList \<ge> KEYWORD_THRESHOLD
       then take KEYWORD_THRESHOLD uniqueKeywordIdList else uniqueKeywordIdList);
     let fl = \<lparr>externalRecordId = primaryKey, recordBoost = boost, numberOfKeywords = length keywords,
       fl_data = [], attributeIdsIndexSize = 0, positionIndexSize = 0, offsetIndexSize = 0,
       charLenIndexSize = 0, synonymBitMapSize = 0, dataSize = 0\<rparr>;
     hitss \<leftarrow> hitsOf tokenAttributeHitsMap keywords;
     let st = \<lparr>positionListVector = [], offsetVector = [], synonymOriginalTokenLenArray = [],
       synonymBitFlagArray = [], bitMapCursor = 0, tempPositionIndexBuffer = [], tempOffsetBuffer = [],
       tempcharLenBuffer = [], tempSynonymBitMapBuffer = []\<rparr>;
     let st = (if isEnabledWordPositionIndex t \<or> isEnabledCharPositionIndex t
       then fold (keywordHits g vlb t) hitss st else st);
     let attributeIdBuffer = (if isEnabledAttributeBasedSearch t
       then fold (\<lambda>hits. convertToVarLengthArray g vlb (attributeRuns hits 0 True [])) hitss [] else []);
     fl \<leftarrow> allocateSpaceAndSetNSAValuesAndPosIndex mem attributeIdBuffer (tempPositionIndexBuffer st)
       (tempOffsetBuffer st) (tempcharLenBuffer st) (tempSynonymBitMapBuffer st) fl;
     setKeywordIds 0 (map fst keywords) fl
   }"

section \<open>Attribute lists and term hits\<close>

text \<open>\<^verbatim>\<open>std::set_intersection\<close> and \<^verbatim>\<open>std::set_difference\<close>.\<close>

fun set_intersection :: "u32 list \<Rightarrow> u32 list \<Rightarrow> u32 list" where
  "set_intersection (a # as) (b # bs) =
    (if a < b then set_intersection as (b # bs)
     else if b < a then set_intersection (a # as) bs
     else a # set_intersection as bs)"
| "set_intersection as bs = []"

fun set_difference :: "u32 list \<Rightarrow> u32 list \<Rightarrow> u32 list" where
  "set_difference (a # as) (b # bs) =
    (if a < b then a # set_difference as (b # bs)
     else if b < a then set_difference (a # as) bs
     else set_difference as bs)"
| "set_difference as bs = as"

definition fetchCommonAttributes :: "u32 list \<Rightarrow> u32 list \<Rightarrow> u32 list" where
  "fetchCommonAttributes list1 list2 =
    (if list1 = [] then list2 else if list2 = [] then list1 else set_intersection list1 list2)"

fun isAttributesListsMatching :: "u32 list \<Rightarrow> u32 list \<Rightarrow> bool" where
  "isAttributesListsMatching list1 list2 =
    (length list1 = length list2 \<and> (\<forall>i < length list1. list1 ! i = list2 ! i))"

text \<open>The result, the matching attributes after the call and the score of the keyword.\<close>

definition isValidRecordTermHit ::
  "(u16 \<Rightarrow> real) \<Rightarrow> PositionIndexType \<Rightarrow> ForwardList \<Rightarrow> nat \<Rightarrow> u32 list \<Rightarrow> ATTRIBUTES_OP \<Rightarrow> u32 list \<Rightarrow>
    (bool \<times> u32 list \<times> real) option" where
  "isValidRecordTermHit halfToFloat positionIndexType fl keywordOffset filteringAttributesList attrOp
      matchingKeywordAttributesList = do {
     score \<leftarrow> getKeywordRecordStaticScore halfToFloat fl keywordOffset;
     if \<not> isEnabledAttributeBasedSearch positionIndexType then Some (True, matchingKeywordAttributesList, score)
     else if filteringAttributesList = [] then
       (case attrOp of
         ATTRIBUTES_OP_NAND \<Rightarrow> Some (False, matchingKeywordAttributesList, score)
       | ATTRIBUTES_OP_OR \<Rightarrow> Some (True, matchingKeywordAttributesList, score)
       | ATTRIBUTES_OP_AND \<Rightarrow> None)
     else if keywordOffset < numberOfKeywords fl then do {
       attributeIds \<leftarrow> getKeywordAttributeIdsList fl keywordOffset matchingKeywordAttributesList;
       Some (case attrOp of
         ATTRIBUTES_OP_AND \<Rightarrow>
           (let common = fetchCommonAttributes attributeIds filteringAttributesList
            in (isAttributesListsMatching common filteringAttributesList, common, score))
       | ATTRIBUTES_OP_NAND \<Rightarrow>
           (let difference = set_difference attributeIds filteringAttributesList
            in (length difference \<noteq> 0, difference, score))
       | ATTRIBUTES_OP_OR \<Rightarrow>
           (let common = fetchCommonAttributes attributeIds filteringAttributesList
            in (length common \<noteq> 0, common, score)))
     }
     else None
   }"

text \<open>The scan of \<open>haveWordInRange\<close> from the lower bound on; the result is the matching keyword id
  with its attributes and score, when there is one.\<close>

fun haveWordLoop ::
  "(nat \<Rightarrow> u32 list \<Rightarrow> (bool \<times> u32 list \<times> real) option) \<Rightarrow> u32 \<Rightarrow> u32 list \<Rightarrow> nat \<Rightarrow> u32 list \<Rightarrow>
    (u32 \<times> u32 list \<times> real) option option" where
  "haveWordLoop hit maxId [] i matched = Some None"
| "haveWordLoop hit maxId (keywordId # rest) i matched =
    (if keywordId \<le> maxId then do {
       (isHit, matched, tempScore) \<leftarrow> hit i matched;
       if isHit then Some (if tempScore \<ge> 0 then Some (keywordId, matched, tempScore) else None)
       else haveWordLoop hit maxId rest (i + 1) matched
     }
     else Some None)"

definition haveWordInRange ::
  "(u16 \<Rightarrow> real) \<Rightarrow> PositionIndexType \<Rightarrow> ForwardList \<Rightarrow> u32 \<Rightarrow> u32 \<Rightarrow> u32 list \<Rightarrow> ATTRIBUTES_OP \<Rightarrow>
    (u32 \<times> u32 list \<times> real) option option" where
  "haveWordInRange halfToFloat positionIndexType fl minId maxId filteringAttributesList attrOp = do {
     ids \<leftarrow> getKeywordIds fl;
     let i = lowerBound ids minId;
     haveWordLoop (\<lambda>i matched. isValidRecordTermHit halfToFloat positionIndexType fl i
       filteringAttributesList attrOp matched) maxId (drop i ids) i []
   }"

fun getWordsLoop ::
  "(nat \<Rightarrow> u32 list \<Rightarrow> (bool \<times> u32 list \<times> real) option) \<Rightarrow> u32 \<Rightarrow> u32 list \<Rightarrow> nat \<Rightarrow> u32 list \<Rightarrow> u32 list \<Rightarrow>
    u32 list option" where
  "getWordsLoop hit maxId [] i matched keywordIdsVector = Some keywordIdsVector"
| "getWordsLoop hit maxId (keywordId # rest) i matched keywordIdsVector =
    (if keywordId \<le> maxId then do {
       (isHit, matched, _) \<leftarrow> hit i matched;
       getWordsLoop hit maxId rest (i + 1) matched
         (if isHit then keywordIdsVector @ [keywordId] else keywordIdsVector)
     }
     else Some keywordIdsVector)"

text \<open>The return value says whether a keyword was appended.\<close>

definition getWordsInRange ::
  "(u16 \<Rightarrow> real) \<Rightarrow> PositionIndexType \<Rightarrow> ForwardList \<Rightarrow> u32 \<Rightarrow> u32 \<Rightarrow> u32 list \<Rightarrow> ATTRIBUTES_OP \<Rightarrow>
    u32 list \<Rightarrow> (bool \<times> u32 list) option" where
  "getWordsInRange halfToFloat positionIndexType fl minId maxId filteringAttributesList attrOp keywordIdsVector = do {
     ids \<leftarrow> getKeywordIds fl;
     let i = lowerBound ids minId;
     ws \<leftarrow> getWordsLoop (\<lambda>i matched. isValidRecordTermHit halfToFloat positionIndexType fl i
       filteringAttributesList attrOp matched) maxId (drop i ids) i [] [];
     Some (ws \<noteq> [], keywordIdsVector @ ws)
   }"

section \<open>Encoded vectors\<close>

text \<open>A chunk of bytes that holds a vector with its size in front, whatever follows.\<close>

definition holds_vector :: "u32 list \<Rightarrow> u8 list \<Rightarrow> bool" where
  "holds_vector ps chunk \<longleftrightarrow> (\<exists>n v. 1 \<le> n \<and> length chunk = n + unat v \<and> \<not> bit (last chunk) 7
     \<and> (\<forall>rest br. varLengthBytesToUInt32 (chunk @ rest) br = Some (True, v, n))
     \<and> (\<forall>rest out. decodeVLB (drop n chunk @ rest) (unat v) out = Some (out @ ps)))"

lemma convertToVarLengthArray_holds:
  assumes "length g = 5" "length vlb = 5" "fst (uInt32VectorToVarLenArray g ps) < 2 ^ 32"
  obtains chunk where "holds_vector ps chunk" "\<And>grand. convertToVarLengthArray g vlb ps grand = grand @ chunk"
proof -
  let ?l = "fst (uInt32VectorToVarLenArray g ps)"
  obtain b' n where enc: "uInt32ToVarLengthBytes (of_nat ?l) (Some vlb) (Some 0) = (True, Some b', Some n)"
    and b': "length b' = 5" "1 \<le> n" "n \<le> 5" "\<not> bit (b' ! (n - 1)) 7"
    and dec: "\<And>rest k. varLengthBytesToUInt32 (take n b' @ rest) k = Some (True, of_nat ?l, n)"
    using uInt32ToVarLengthBytes_decodes [OF assms(2), of "of_nat ?l" 0] by metis
  have u: "unat (of_nat ?l :: u32) = ?l" using assms(3) by (simp add: unat_of_nat)
  have last: "last (take n b') = b' ! (n - 1)" using b' by (intro last_take) auto
  have ln: "length (take n b') = n" using b' by simp
  show thesis
  proof (cases "ps = []")
    case True
    then have z: "uInt32VectorToVarLenArray g ps = (0, None)" by (simp add: uInt32VectorToVarLenArray_def)
    have "holds_vector ps (take n b')" unfolding holds_vector_def
      by (rule exI [of _ n], rule exI [of _ 0])
        (use z dec ln last b' True in \<open>auto simp: decodeVLB_def varLenByteArrayToInt32Vector_def\<close>)
    then show thesis using that enc z by (simp add: convertToVarLengthArray_def)
  next
    case False
    obtain v where v: "uInt32VectorToVarLenArray g ps = (length v, Some v)" "v \<noteq> []" "length ps \<le> length v"
      "\<not> bit (last v) 7" "\<And>fuel post out. length ps \<le> fuel \<Longrightarrow>
        varLenByteArrayToInt32Vector fuel (v @ post) (length v) out = Some (out @ ps)"
      using uInt32VectorToVarLenArray_decodes [OF assms(1) False] by metis
    have "holds_vector ps (take n b' @ v)" unfolding holds_vector_def
      by (rule exI [of _ n], rule exI [of _ "of_nat ?l"])
        (use v u dec ln b' in \<open>auto simp: decodeVLB_def\<close>)
    then show thesis using that [of "take n b' @ v"] enc v(1) by (simp add: convertToVarLengthArray_def)
  qed
qed

lemma holds_vectorE:
  assumes "holds_vector ps chunk"
  obtains n v where "1 \<le> n" "length chunk = n + unat v" "\<not> bit (last chunk) 7"
    "\<And>rest br. varLengthBytesToUInt32 (chunk @ rest) br = Some (True, v, n)"
    "\<And>rest out. decodeVLB (drop n chunk @ rest) (unat v) out = Some (out @ ps)"
  using assms unfolding holds_vector_def by blast

lemma skipVLBs_chunks:
  assumes "list_all2 holds_vector pss chunks" "k \<le> length chunks"
  shows "\<exists>br'. skipVLBs k (pre @ concat chunks @ rest) (length pre) br
    = Some (length pre + length (concat (take k chunks)), br')"
  using assms
proof (induction k arbitrary: pss chunks pre br)
  case (Suc k)
  then obtain c cs p ps where c: "chunks = c # cs" "pss = p # ps" "holds_vector p c" "list_all2 holds_vector ps cs"
    by (cases chunks; cases pss) auto
  obtain n v where n: "length c = n + unat v"
    "\<And>rest br. varLengthBytesToUInt32 (c @ rest) br = Some (True, v, n)"
    using c(3) by (rule holds_vectorE) blast
  have "k \<le> length cs" using Suc.prems(2) c(1) by simp
  from Suc.IH [OF c(4) this, of "pre @ c" n] show ?case
    using c(1) n(2) [of "concat cs @ rest" br] n(1) by (auto simp: add.assoc)
qed simp

text \<open>A section of the array: the encodings of the vectors one after the other.\<close>

definition holds_section :: "u32 list list \<Rightarrow> u8 list \<Rightarrow> nat \<Rightarrow> bool" where
  "holds_section pss buf sz \<longleftrightarrow> (\<exists>chunks rest. list_all2 holds_vector pss chunks
     \<and> buf = concat chunks @ rest \<and> sz = length (concat chunks))"

lemma holds_vector_nonempty: "holds_vector ps chunk \<Longrightarrow> chunk \<noteq> []"
  by (auto simp: holds_vector_def)

lemma chunks_last:
  assumes "list_all2 holds_vector pss chunks" "pss \<noteq> []"
  shows "concat chunks \<noteq> []" "\<not> bit (last (concat chunks)) 7"
proof -
  obtain cs c where c: "chunks = cs @ [c]" using assms by (cases chunks rule: rev_cases) auto
  then obtain p where "holds_vector p c"
    using assms list_all2_nthD2 [OF assms(1), of "length cs"] by auto
  then have "c \<noteq> []" "\<not> bit (last c) 7" by (auto simp: holds_vector_def)
  then show "concat chunks \<noteq> []" "\<not> bit (last (concat chunks)) 7" using c by auto
qed

lemma holds_sectionE:
  assumes "holds_section pss buf sz"
  obtains chunks rest where "list_all2 holds_vector pss chunks" "buf = concat chunks @ rest"
    "sz = length (concat chunks)"
  using assms by (auto simp: holds_section_def)

lemma holds_section_last:
  assumes "holds_section pss buf sz" "pss \<noteq> []"
  shows "sz \<noteq> 0 \<and> (\<exists>b. nth_opt buf (sz - 1) = Some b \<and> b AND 0x80 = 0)"
proof -
  obtain chunks rest where c: "list_all2 holds_vector pss chunks" "buf = concat chunks @ rest"
    "sz = length (concat chunks)" using assms(1) by (rule holds_sectionE)
  note l = chunks_last [OF c(1) assms(2)]
  have "nth_opt buf (sz - 1) = Some (last (concat chunks))" unfolding c(2,3) by (rule nth_opt_last [OF l(1)])
  moreover have "sz \<noteq> 0" using l(1) by (simp add: c(3))
  ultimately show ?thesis using l(2) by (auto simp: continuation_flag)
qed

lemma chunk_at:
  assumes "list_all2 holds_vector pss chunks" "k < length pss" "buf = pre @ concat chunks @ rest"
    "base = length pre" "off = base + length (concat (take k chunks))"
  obtains n v br where "skipVLBs k buf base start = Some (off, br)"
    "\<And>br. varLengthBytesToUInt32 (drop off buf) br = Some (True, v, n)"
    "\<And>out. decodeVLB (drop (off + n) buf) (unat v) out = Some (out @ pss ! k)"
    "take (n + unat v) (drop off buf) = chunks ! k" "length (chunks ! k) = n + unat v"
    "off + n + unat v \<le> length buf"
proof -
  have len: "length chunks = length pss" using assms(1) by (simp add: list_all2_lengthD)
  have h: "holds_vector (pss ! k) (chunks ! k)" using assms(1,2) list_all2_nthD by blast
  then obtain n v where n: "1 \<le> n" "length (chunks ! k) = n + unat v"
    "\<And>rest br. varLengthBytesToUInt32 (chunks ! k @ rest) br = Some (True, v, n)"
    "\<And>rest out. decodeVLB (drop n (chunks ! k) @ rest) (unat v) out = Some (out @ pss ! k)"
    by (rule holds_vectorE) blast
  let ?tail = "concat (drop (Suc k) chunks) @ rest"
  have split: "concat chunks = concat (take k chunks) @ chunks ! k @ concat (drop (Suc k) chunks)"
    using id_take_nth_drop [of k chunks] assms(2) len by (metis concat.simps(2) concat_append)
  have d: "drop off buf = chunks ! k @ ?tail" using assms(3-5) by (simp add: split)
  have d': "drop (off + n) buf = drop n (chunks ! k) @ ?tail"
    using n(1,2) assms(3-5) by (simp add: split)
  have "off + n + unat v \<le> length buf" using assms(3-5) n(2) by (simp add: split)
  moreover obtain br where "skipVLBs k buf base start = Some (off, br)"
    using skipVLBs_chunks [OF assms(1), of k pre rest start] assms(2-5) len by auto
  ultimately show thesis
    by (intro that [of br v n]) (simp_all add: d d' n)
qed

lemma chunk_at_start:
  assumes "list_all2 holds_vector pss chunks" "k < length pss" "buf = concat chunks @ rest"
  obtains n v br where "skipVLBs k buf 0 0 = Some (length (concat (take k chunks)), br)"
    "\<And>br. varLengthBytesToUInt32 (drop (length (concat (take k chunks))) buf) br = Some (True, v, n)"
    "\<And>out. decodeVLB (drop (length (concat (take k chunks)) + n) buf) (unat v) out = Some (out @ pss ! k)"
    "take (n + unat v) (drop (length (concat (take k chunks))) buf) = chunks ! k"
    "length (concat (take k chunks)) + n + unat v \<le> length buf"
proof -
  have b: "buf = [] @ concat chunks @ rest" "0 = length ([] :: u8 list)"
    "length (concat (take k chunks)) = 0 + length (concat (take k chunks))"
    using assms(3) by simp_all
  show thesis by (rule chunk_at [where start = 0, OF assms(1,2) b]) (rule that)
qed

lemma getKeywordAttributeIdsList_section:
  assumes "holds_section attrss (drop (getKeywordAttributeIdsPointer fl) (fl_data fl)) (attributeIdsIndexSize fl)"
    "k < length attrss"
  shows "getKeywordAttributeIdsList fl k acc = Some (attrss ! k)"
proof -
  let ?buf = "drop (getKeywordAttributeIdsPointer fl) (fl_data fl)"
  obtain chunks rest where c: "list_all2 holds_vector attrss chunks" "?buf = concat chunks @ rest"
    using assms(1) by (rule holds_sectionE)
  have "attrss \<noteq> []" using assms(2) by auto
  note l = holds_section_last [OF assms(1) this]
  obtain n v br where "skipVLBs k ?buf 0 0 = Some (length (concat (take k chunks)), br)"
    "\<And>br. varLengthBytesToUInt32 (drop (length (concat (take k chunks))) ?buf) br = Some (True, v, n)"
    "\<And>out. decodeVLB (drop (length (concat (take k chunks)) + n) ?buf) (unat v) out = Some (out @ attrss ! k)"
    by (rule chunk_at_start [OF c(1) assms(2) c(2)]) (rule that)
  then show ?thesis using l by (auto simp: getKeywordAttributeIdsList_def Let_def)
qed

lemma getKeywordAttributeIdsByteArray_section:
  assumes "list_all2 holds_vector attrss chunks"
    "drop (getKeywordAttributeIdsPointer fl) (fl_data fl) = concat chunks @ rest"
    "attributeIdsIndexSize fl = length (concat chunks)" "k < length attrss"
  shows "getKeywordAttributeIdsByteArray fl k acc = Some (chunks ! k)"
proof -
  let ?buf = "drop (getKeywordAttributeIdsPointer fl) (fl_data fl)"
  have "attrss \<noteq> []" using assms(4) by auto
  have "holds_section attrss ?buf (attributeIdsIndexSize fl)"
    using assms(1-3) by (auto simp: holds_section_def)
  note l = holds_section_last [OF this \<open>attrss \<noteq> []\<close>]
  obtain n v br where r: "skipVLBs k ?buf 0 0 = Some (length (concat (take k chunks)), br)"
    "\<And>br. varLengthBytesToUInt32 (drop (length (concat (take k chunks))) ?buf) br = Some (True, v, n)"
    "take (n + unat v) (drop (length (concat (take k chunks))) ?buf) = chunks ! k"
    "length (concat (take k chunks)) + n + unat v \<le> length ?buf"
    by (rule chunk_at_start [OF assms(1,4,2)]) (rule that)
  then show ?thesis using l by (auto simp: getKeywordAttributeIdsByteArray_def Let_def)
qed

section \<open>Sections with one vector per keyword and attribute\<close>

lemma findAttribute_chunks:
  assumes "list_all2 holds_vector ps chunks" "length as = length ps" "i < length as" "distinct as"
  shows "findAttribute (as ! i) (pre @ concat chunks @ rest) as (length pre) pl = Some (pl @ ps ! i)"
  using assms
proof (induction as arbitrary: i ps chunks pre)
  case (Cons a as)
  obtain p ps' c cs where c: "ps = p # ps'" "chunks = c # cs" "holds_vector p c" "list_all2 holds_vector ps' cs"
    using Cons.prems(1,2) by (cases ps; cases chunks) auto
  obtain n v where n: "1 \<le> n" "length c = n + unat v"
    "\<And>rest br. varLengthBytesToUInt32 (c @ rest) br = Some (True, v, n)"
    "\<And>rest out. decodeVLB (drop n c @ rest) (unat v) out = Some (out @ p)"
    using c(3) by (rule holds_vectorE) blast
  show ?case
  proof (cases i)
    case 0
    then show ?thesis using c n by simp
  next
    case (Suc i')
    have "as ! i' \<noteq> a" using Cons.prems(3,4) Suc by auto
    moreover have "findAttribute (as ! i') ((pre @ c) @ concat cs @ rest) as (length (pre @ c)) pl = Some (pl @ ps' ! i')"
      by (rule Cons.IH [OF c(4)]) (use Cons.prems Suc c(1) in auto)
    ultimately show ?thesis using c(1,2) n Suc by (simp add: add.assoc)
  qed
qed simp

text \<open>What the record holds: the attributes of every keyword, and per keyword a list of vectors, one
  for each of its attributes.\<close>

definition holds_attributes :: "u32 list list \<Rightarrow> ForwardList \<Rightarrow> bool" where
  "holds_attributes attrss fl \<longleftrightarrow>
     holds_section attrss (drop (getKeywordAttributeIdsPointer fl) (fl_data fl)) (attributeIdsIndexSize fl)"

lemma skipKeywords_chunks:
  assumes "holds_attributes attrss fl" "list_all2 (list_all2 holds_vector) posss chunkss"
    "map length posss = map length attrss" "j \<le> k" "k \<le> length attrss"
  shows "skipKeywords fl (concat (concat chunkss) @ rest) [j..<k] (length (concat (concat (take j chunkss))))
    = Some (length (concat (concat (take k chunkss))))"
  using assms(4)
proof (induction "k - j" arbitrary: j)
  case (Suc n)
  then have jk: "j < k" "n = k - Suc j" "Suc j \<le> k" by simp_all
  have lp: "length posss = length attrss" using assms(3) by (rule map_eq_imp_length_eq)
  have len: "length chunkss = length attrss" "j < length attrss"
    using list_all2_lengthD [OF assms(2)] lp assms(5) jk(1) by auto
  have vs: "list_all2 holds_vector (posss ! j) (chunkss ! j)"
    using assms(2) len lp list_all2_nthD by metis
  have "length (posss ! j) = length (attrss ! j)"
    using assms(3) len(2) lp by (metis nth_map)
  then have lc: "length (chunkss ! j) = length (attrss ! j)" using vs by (auto dest: list_all2_lengthD)
  have split: "concat (concat chunkss) = concat (concat (take j chunkss)) @ concat (chunkss ! j)
      @ concat (concat (drop (Suc j) chunkss))"
    using id_take_nth_drop [of j chunkss] len by (metis concat.simps(2) concat_append)
  have take_Suc: "length (concat (concat (take (Suc j) chunkss)))
      = length (concat (concat (take j chunkss))) + length (concat (chunkss ! j))"
    using len by (simp add: take_Suc_conv_app_nth)
  obtain br where "skipVLBs (length (attrss ! j)) (concat (concat chunkss) @ rest)
      (length (concat (concat (take j chunkss)))) 0
      = Some (length (concat (concat (take (Suc j) chunkss))), br)"
    using skipVLBs_chunks [OF vs, of "length (attrss ! j)" "concat (concat (take j chunkss))"
        "concat (concat (drop (Suc j) chunkss)) @ rest" 0] lc
    by (auto simp: split take_Suc)
  then show ?case using Suc.hyps(1) [OF jk(2,3)] jk(1) len(2) assms(1)
    by (simp add: upt_conv_Cons getKeywordAttributeIdsList_section holds_attributes_def)
qed simp

lemma fetchDataFromVLBArray_chunks:
  assumes "holds_attributes attrss fl" "list_all2 (list_all2 holds_vector) posss chunkss"
    "map length posss = map length attrss" "k < length attrss" "i < length (attrss ! k)" "distinct (attrss ! k)"
  shows "fetchDataFromVLBArray fl k (attrss ! k ! i) pl (concat (concat chunkss) @ rest) = Some (pl @ posss ! k ! i)"
proof -
  have lp: "length posss = length attrss" "length (posss ! k) = length (attrss ! k)"
    using assms(3,4) map_eq_imp_length_eq [OF assms(3)] by (auto, metis nth_map)
  then have vs: "list_all2 holds_vector (posss ! k) (chunkss ! k)" "length chunkss = length attrss"
    using assms(2,4) by (auto dest: list_all2_lengthD intro: list_all2_nthD)
  have split: "concat (concat chunkss) = concat (concat (take k chunkss)) @ concat (chunkss ! k)
      @ concat (concat (drop (Suc k) chunkss))"
    using id_take_nth_drop [of k chunkss] vs(2) assms(4) by (metis concat.simps(2) concat_append)
  have "findAttribute (attrss ! k ! i) (concat (concat chunkss) @ rest) (attrss ! k)
      (length (concat (concat (take k chunkss)))) pl = Some (pl @ posss ! k ! i)"
    using findAttribute_chunks [OF vs(1) lp(2) [symmetric] assms(5,6), of "concat (concat (take k chunkss))"
        "concat (concat (drop (Suc k) chunkss)) @ rest" pl] by (simp add: split)
  moreover have "skipKeywords fl (concat (concat chunkss) @ rest) [0..<k] 0
      = Some (length (concat (concat (take k chunkss))))"
    using skipKeywords_chunks [OF assms(1-3), of 0 k rest] assms(4) by simp
  moreover have "getKeywordAttributeIdsList fl k [] = Some (attrss ! k)"
    using assms(1,4) by (simp add: getKeywordAttributeIdsList_section holds_attributes_def)
  ultimately show ?thesis using assms(5) by (auto simp: fetchDataFromVLBArray_def)
qed

section \<open>The loop over the hits of a keyword\<close>

text \<open>The vectors the loop encodes: one per run of equal attributes.\<close>

fun groupsBy :: "(TokenHit \<Rightarrow> 'p) \<Rightarrow> TokenHit list \<Rightarrow> u32 \<Rightarrow> 'p list \<Rightarrow> 'p list list" where
  "groupsBy f [] prev cur = [cur]"
| "groupsBy f (h # hs) prev cur =
    (if prev = attributeIdOf h then groupsBy f hs prev (cur @ [f h])
     else cur # groupsBy f hs (attributeIdOf h) [f h])"

fun runsFrom :: "TokenHit list \<Rightarrow> u32 \<Rightarrow> u32 list" where
  "runsFrom [] prev = []"
| "runsFrom (h # hs) prev =
    (if attributeIdOf h \<noteq> prev then attributeIdOf h # runsFrom hs (attributeIdOf h) else runsFrom hs prev)"

lemma attributeRuns_runsFrom: "attributeRuns hs prev False acc = acc @ runsFrom hs prev"
  by (induction hs arbitrary: prev acc) auto

lemma hitsLoop_positions:
  assumes "isEnabledWordPositionIndex t"
  shows "tempPositionIndexBuffer (flushHits g vlb t (hitsLoop g vlb t hs prev False st))
    = fold (convertToVarLengthArray g vlb) (groupsBy positionOf hs prev (positionListVector st)) (tempPositionIndexBuffer st)"
proof (induction hs arbitrary: prev st)
  case Nil
  then show ?case using assms by (simp add: flushHits_def Let_def)
next
  case (Cons h hs)
  have "positionListVector (pushHit t h st) = positionListVector st @ [positionOf h]"
    "tempPositionIndexBuffer (pushHit t h st) = tempPositionIndexBuffer st" for st
    using assms by (simp_all add: pushHit_def Let_def)
  moreover have "positionListVector (flushHits g vlb t st) = []"
    "tempPositionIndexBuffer (flushHits g vlb t st)
      = convertToVarLengthArray g vlb (positionListVector st) (tempPositionIndexBuffer st)"
    using assms by (simp_all add: flushHits_def Let_def)
  ultimately show ?case using Cons.IH by simp
qed

lemma keywordHits_positions:
  assumes "isEnabledWordPositionIndex t" "hits \<noteq> []" "positionListVector st = []"
  shows "tempPositionIndexBuffer (keywordHits g vlb t hits st)
      = fold (convertToVarLengthArray g vlb)
          (groupsBy positionOf (tl hits) (attributeIdOf (hd hits)) [positionOf (hd hits)]) (tempPositionIndexBuffer st)
    \<and> positionListVector (keywordHits g vlb t hits st) = []"
proof -
  obtain h hs where "hits = h # hs" using assms(2) by (cases hits) auto
  moreover have "positionListVector (pushHit t h st) = [positionOf h]"
    "tempPositionIndexBuffer (pushHit t h st) = tempPositionIndexBuffer st"
    using assms(1,3) by (simp_all add: pushHit_def Let_def)
  ultimately show ?thesis using assms(1)
    by (simp add: keywordHits_def hitsLoop_positions) (simp add: flushHits_def Let_def)
qed

lemma groupsBy_sorted:
  assumes "sorted (prev # map attributeIdOf hs)"
  shows "groupsBy f hs prev cur = (cur @ map f (filter (\<lambda>h. attributeIdOf h = prev) hs))
      # map (\<lambda>a. map f (filter (\<lambda>h. attributeIdOf h = a) hs)) (runsFrom hs prev)
    \<and> sorted_wrt (<) (prev # runsFrom hs prev)"
  using assms
proof (induction hs arbitrary: prev cur)
  case (Cons h hs)
  show ?case
  proof (cases "prev = attributeIdOf h")
    case True
    have "map (\<lambda>a. map f (filter (\<lambda>h. attributeIdOf h = a) (h # hs))) (runsFrom hs prev)
      = map (\<lambda>a. map f (filter (\<lambda>h. attributeIdOf h = a) hs)) (runsFrom hs prev)"
      using Cons.IH [of prev] Cons.prems True by auto
    then show ?thesis using Cons.IH [of prev "cur @ [f h]"] Cons.prems True by auto
  next
    case False
    then have lt: "prev < attributeIdOf h" using Cons.prems by (simp add: less_le)
    then have e: "filter (\<lambda>h. attributeIdOf h = prev) (h # hs) = []"
      using Cons.prems by (fastforce simp: filter_empty_conv)
    have ih: "groupsBy f hs (attributeIdOf h) [f h]
        = ([f h] @ map f (filter (\<lambda>h'. attributeIdOf h' = attributeIdOf h) hs))
        # map (\<lambda>a. map f (filter (\<lambda>h. attributeIdOf h = a) hs)) (runsFrom hs (attributeIdOf h))"
      and s: "sorted_wrt (<) (attributeIdOf h # runsFrom hs (attributeIdOf h))"
      using Cons.IH [of "attributeIdOf h" "[f h]"] Cons.prems by auto
    have "map (\<lambda>a. map f (filter (\<lambda>h. attributeIdOf h = a) (h # hs))) (runsFrom hs (attributeIdOf h))
      = map (\<lambda>a. map f (filter (\<lambda>h. attributeIdOf h = a) hs)) (runsFrom hs (attributeIdOf h))"
      using s by auto
    then show ?thesis using ih s lt e False by auto
  qed
qed simp

text \<open>The vectors of one keyword, and what they are when its hits come attribute by attribute.\<close>

definition attributesOf :: "TokenHit list \<Rightarrow> u32 list" where
  "attributesOf hits = attributeRuns hits 0 True []"

definition positionGroups :: "TokenHit list \<Rightarrow> u32 list list" where
  "positionGroups hits = groupsBy positionOf (tl hits) (attributeIdOf (hd hits)) [positionOf (hd hits)]"

lemma runsFrom_set: "insert prev (set (runsFrom hs prev)) = insert prev (attributeIdOf ` set hs)"
  by (induction hs arbitrary: prev) auto

lemma attributesOf_sorted:
  assumes "hits \<noteq> []" "sorted (map attributeIdOf hits)"
  shows "attributesOf hits = sorted_list_of_set (attributeIdOf ` set hits)"
    "positionGroups hits = map (\<lambda>a. map positionOf (filter (\<lambda>h. attributeIdOf h = a) hits)) (attributesOf hits)"
    "distinct (attributesOf hits)"
proof -
  obtain h hs where h: "hits = h # hs" using assms(1) by (cases hits) auto
  have a: "attributesOf hits = attributeIdOf h # runsFrom hs (attributeIdOf h)"
    by (simp add: h attributesOf_def attributeRuns_runsFrom)
  have s: "sorted (attributeIdOf h # map attributeIdOf hs)" using assms(2) h by simp
  note g = groupsBy_sorted [OF s, of positionOf "[positionOf h]"]
  have sw: "sorted_wrt (<) (attributesOf hits)" using g a by simp
  then show d: "distinct (attributesOf hits)" by (simp add: strict_sorted_iff)
  have "set (attributesOf hits) = attributeIdOf ` set hits" using runsFrom_set a h by simp
  then show "attributesOf hits = sorted_list_of_set (attributeIdOf ` set hits)"
    using sw by (metis sorted_list_of_set.idem_if_sorted_distinct strict_sorted_iff)
  have "map (\<lambda>a. map positionOf (filter (\<lambda>h. attributeIdOf h = a) (h # hs))) (runsFrom hs (attributeIdOf h))
    = map (\<lambda>a. map positionOf (filter (\<lambda>h. attributeIdOf h = a) hs)) (runsFrom hs (attributeIdOf h))"
    using sw a by auto
  then show "positionGroups hits
      = map (\<lambda>a. map positionOf (filter (\<lambda>h. attributeIdOf h = a) hits)) (attributesOf hits)"
    using g unfolding a unfolding h positionGroups_def by simp
qed

lemma keywordHits_fold:
  assumes "isEnabledWordPositionIndex t" "\<forall>hits \<in> set hitss. hits \<noteq> []" "positionListVector st = []"
  shows "tempPositionIndexBuffer (fold (keywordHits g vlb t) hitss st)
    = fold (convertToVarLengthArray g vlb) (concat (map positionGroups hitss)) (tempPositionIndexBuffer st)"
  using assms(2,3)
proof (induction hitss arbitrary: st)
  case (Cons hits hitss)
  then show ?case using keywordHits_positions [OF assms(1), of hits st g vlb]
    by (simp add: positionGroups_def)
qed simp

lemma uInt32VectorToVarLenArray_small:
  assumes "length g = 5" shows "fst (uInt32VectorToVarLenArray g ps) \<le> 5 * length ps"
proof -
  have e: "length (encodeDeltas prev qs buf temp) \<le> length temp + 5 * length qs" if "length buf = 5"
    for prev qs buf temp
    using that
  proof (induction qs arbitrary: prev buf temp)
    case (Cons q qs)
    obtain b' n where "uInt32ToVarLengthBytes (q - prev) (Some buf) (Some 0) = (True, Some b', Some n)"
      "length b' = 5" "n \<le> 5"
      using uInt32ToVarLengthBytes_decodes [OF Cons.prems, of "q - prev" 0] by metis
    then show ?case using Cons.IH [of b' q "temp @ take n b'"] by simp
  qed simp
  show ?thesis
  proof (cases ps)
    case (Cons p qs)
    obtain b' n where "uInt32ToVarLengthBytes p (Some g) (Some 0) = (True, Some b', Some n)"
      "length b' = 5" "n \<le> 5"
      using uInt32ToVarLengthBytes_decodes [OF assms, of p 0] by metis
    then show ?thesis using e [of b' p qs "take n b'"] by (simp add: uInt32VectorToVarLenArray_def Cons Let_def)
  qed (simp add: uInt32VectorToVarLenArray_def)
qed

lemma convertToVarLengthArray_fold:
  assumes "length g = 5" "length vlb = 5" "\<forall>ps \<in> set pss. length ps < 2 ^ 29"
  obtains chunks where "list_all2 holds_vector pss chunks"
    "\<And>grand. fold (convertToVarLengthArray g vlb) pss grand = grand @ concat chunks"
  using assms(3)
proof (induction pss arbitrary: thesis)
  case (Cons ps pss)
  have "fst (uInt32VectorToVarLenArray g ps) < 2 ^ 32"
    using uInt32VectorToVarLenArray_small [OF assms(1), of ps] Cons.prems(2) by simp
  then obtain c where c: "holds_vector ps c" "\<And>grand. convertToVarLengthArray g vlb ps grand = grand @ c"
    using convertToVarLengthArray_holds [OF assms(1,2), of ps] by blast
  obtain cs where cs: "list_all2 holds_vector pss cs"
    "\<And>grand. fold (convertToVarLengthArray g vlb) pss grand = grand @ concat cs"
    using Cons.IH Cons.prems(2) by auto
  show ?case by (rule Cons.prems(1) [of "c # cs"]) (use c cs in auto)
qed auto

section \<open>Allocation and keyword ids\<close>

lemma copyTo_over:
  "length pre = off \<Longrightarrow> length old = length v \<Longrightarrow> copyTo v off (pre @ old @ post) = Some (pre @ v @ post)"
  by (simp add: copyTo_def)

lemma split_at_length:
  assumes "length m = a + b" obtains x y where "m = x @ y" "length x = a" "length y = b"
  using assms that [of "take a m" "drop a m"] by simp

lemma copy_sections:
  assumes "length pre = n" "length a0 = length as" "length p0 = length ps" "length o0 = length os"
    "length y0 = length ys" "length l0 = length ls"
  shows "copyTo as n (pre @ a0 @ p0 @ o0 @ y0 @ l0 @ post) = Some (pre @ as @ p0 @ o0 @ y0 @ l0 @ post)"
    "copyTo ps (n + length as) (pre @ as @ p0 @ o0 @ y0 @ l0 @ post) = Some (pre @ as @ ps @ o0 @ y0 @ l0 @ post)"
    "copyTo os (n + length as + length ps) (pre @ as @ ps @ o0 @ y0 @ l0 @ post)
      = Some (pre @ as @ ps @ os @ y0 @ l0 @ post)"
    "copyTo ys (n + length as + length ps + length os) (pre @ as @ ps @ os @ y0 @ l0 @ post)
      = Some (pre @ as @ ps @ os @ ys @ l0 @ post)"
    "copyTo ls (n + length as + length ps + length os + length ys) (pre @ as @ ps @ os @ ys @ l0 @ post)
      = Some (pre @ as @ ps @ os @ ys @ ls @ post)"
  using copyTo_over [of pre n a0 as "p0 @ o0 @ y0 @ l0 @ post"]
    copyTo_over [of "pre @ as" "n + length as" p0 ps "o0 @ y0 @ l0 @ post"]
    copyTo_over [of "pre @ as @ ps" "n + length as + length ps" o0 os "y0 @ l0 @ post"]
    copyTo_over [of "pre @ as @ ps @ os" "n + length as + length ps + length os" y0 ys "l0 @ post"]
    copyTo_over [of "pre @ as @ ps @ os @ ys" "n + length as + length ps + length os + length ys" l0 ls post] assms
  by simp_all

lemma allocate_layout:
  assumes "\<And>n. length (mem n) = n"
  obtains pre fl' where
    "allocateSpaceAndSetNSAValuesAndPosIndex mem as ps os ls ys fl = Some fl'"
    "fl_data fl' = pre @ as @ ps @ os @ ys @ ls" "length pre = 8 * numberOfKeywords fl"
    "numberOfKeywords fl' = numberOfKeywords fl" "attributeIdsIndexSize fl' = length as"
    "positionIndexSize fl' = length ps" "offsetIndexSize fl' = length os" "charLenIndexSize fl' = length ls"
    "synonymBitMapSize fl' = length ys" "dataSize fl' = length (fl_data fl')"
proof -
  define n where "n = 8 * numberOfKeywords fl"
  let ?m = "mem (n + length as + length ps + length os + length ys + length ls)"
  have l: "length ?m = n + (length as + (length ps + (length os + (length ys + length ls))))"
    by (simp add: assms)
  obtain pre a0 p0 o0 y0 l0 where m: "?m = pre @ a0 @ p0 @ o0 @ y0 @ l0" and len: "length pre = n"
    "length a0 = length as" "length p0 = length ps" "length o0 = length os" "length y0 = length ys" "length l0 = length ls"
    using l by (elim split_at_length) metis
  have d0: "getKeywordIdsSizeInBytes (fl\<lparr>attributeIdsIndexSize := x1, positionIndexSize := x2, offsetIndexSize := x3,
      charLenIndexSize := x4, synonymBitMapSize := x5\<rparr>)
    + getKeywordTfBoostProductsSizeInBytes (fl\<lparr>attributeIdsIndexSize := x1, positionIndexSize := x2, offsetIndexSize := x3,
      charLenIndexSize := x4, synonymBitMapSize := x5\<rparr>)
    + getKeywordRecordStaticScoresSizeInBytes (fl\<lparr>attributeIdsIndexSize := x1, positionIndexSize := x2, offsetIndexSize := x3,
      charLenIndexSize := x4, synonymBitMapSize := x5\<rparr>) = n" for x1 x2 x3 x4 x5
    by (simp add: layout_defs n_def)
  note c = copy_sections [OF len, of "[]", unfolded append_Nil2]
  have "allocateSpaceAndSetNSAValuesAndPosIndex mem as ps os ls ys fl
    = Some (fl\<lparr>attributeIdsIndexSize := length as, positionIndexSize := length ps, offsetIndexSize := length os,
        charLenIndexSize := length ls, synonymBitMapSize := length ys,
        fl_data := pre @ as @ ps @ os @ ys @ ls,
        dataSize := n + length as + length ps + length os + length ys + length ls\<rparr>)"
    unfolding allocateSpaceAndSetNSAValuesAndPosIndex_def Let_def d0 m c bind.bind_lunit ..
  then show thesis
  proof (rule that)
    show "length pre = 8 * numberOfKeywords fl" using len(1) unfolding n_def .
  qed (simp_all add: len)
qed

lemma length_u32Bytes [simp]: "length (u32Bytes v) = 4"
  by (simp add: u32Bytes_def)

lemma length_concat_u32Bytes [simp]: "length (concat (map u32Bytes xs)) = 4 * length xs"
  by (induction xs) simp_all

lemma readU32_bytes: "readU32 (pre @ u32Bytes v @ post) (length pre) = Some v"
proof -
  have "ucast (ucast v :: u8) OR push_bit 8 (ucast (ucast (drop_bit 8 v) :: u8))
      OR push_bit 16 (ucast (ucast (drop_bit 16 v) :: u8)) OR push_bit 24 (ucast (ucast (drop_bit 24 v) :: u8)) = v"
  proof (rule bit_word_eqI)
    fix n assume "n < LENGTH(32)"
    then consider "n < 8" | "8 \<le> n" "n < 16" | "16 \<le> n" "n < 24" | "24 \<le> n" "n < 32" by force
    then show "bit (ucast (ucast v :: u8) OR push_bit 8 (ucast (ucast (drop_bit 8 v) :: u8))
      OR push_bit 16 (ucast (ucast (drop_bit 16 v) :: u8)) OR push_bit 24 (ucast (ucast (drop_bit 24 v) :: u8)) :: u32) n = bit v n"
      by cases (auto simp: bit_simps)
  qed
  then show ?thesis by (simp add: readU32_def u32Bytes_def nth_opt_append numeral_eq_Suc)
qed

lemma setKeywordIds_written:
  assumes "fl_data fl = concat (map u32Bytes xs) @ old @ post" "length old = 4 * length ys"
    "length xs + length ys \<le> KEYWORD_THRESHOLD"
  shows "setKeywordIds (length xs) ys fl = Some (fl\<lparr>fl_data := concat (map u32Bytes (xs @ ys)) @ post\<rparr>)"
  using assms
proof (induction ys arbitrary: xs old fl)
  case (Cons y ys)
  obtain o1 o2 where o: "old = o1 @ o2" "length o1 = 4" "length o2 = 4 * length ys"
    using Cons.prems(2) split_at_length [of old 4 "4 * length ys"] by auto
  have "copyTo (u32Bytes y) (4 * length xs) (fl_data fl) = Some (concat (map u32Bytes xs) @ u32Bytes y @ o2 @ post)"
    using copyTo_over [of "concat (map u32Bytes xs)" "4 * length xs" o1 "u32Bytes y" "o2 @ post"] o Cons.prems(1)
    by simp
  then have "setKeywordId (length xs) y fl
      = Some (fl\<lparr>fl_data := concat (map u32Bytes (xs @ [y])) @ o2 @ post\<rparr>)"
    using Cons.prems(3) by (simp add: setKeywordId_def)
  moreover have "setKeywordIds (length (xs @ [y])) ys (fl\<lparr>fl_data := concat (map u32Bytes (xs @ [y])) @ o2 @ post\<rparr>)
      = Some (fl\<lparr>fl_data := concat (map u32Bytes ((xs @ [y]) @ ys)) @ post\<rparr>)"
    using Cons.IH [of "fl\<lparr>fl_data := concat (map u32Bytes (xs @ [y])) @ o2 @ post\<rparr>" "xs @ [y]" o2] o(3) Cons.prems(3)
    by simp
  ultimately show ?case by simp
qed simp

lemma getKeywordIds_written:
  assumes "fl_data fl = concat (map u32Bytes xs) @ post" "numberOfKeywords fl = length xs"
  shows "getKeywordIds fl = Some xs"
proof -
  have "readKeywordIds fl [j..<length xs] = Some (drop j xs)" if "j \<le> length xs" for j
    using that
  proof (induction "length xs - j" arbitrary: j)
    case (Suc n)
    have "concat (map u32Bytes xs) = concat (map u32Bytes (take j xs)) @ u32Bytes (xs ! j)
        @ concat (map u32Bytes (drop (Suc j) xs))"
      using id_take_nth_drop [of j xs] Suc.hyps(2)
      by (metis (no_types, lifting) concat.simps(2) concat_append list.simps(9) map_append zero_less_Suc zero_less_diff)
    then have "getKeywordId fl j = Some (xs ! j)"
      using readU32_bytes [of "concat (map u32Bytes (take j xs))" "xs ! j"] Suc.prems assms(1)
      by (simp add: getKeywordId_def min_absorb2)
    then show ?case using Suc.hyps(1) [of "Suc j"] Suc.hyps(2)
      by (simp add: upt_conv_Cons Cons_nth_drop_Suc)
  qed simp
  from this [of 0] show ?thesis using assms(2) by (simp add: getKeywordIds_def)
qed

lemma list_all2_concat_regroup:
  assumes "list_all2 P (concat xss) ys"
  obtains yss where "list_all2 (list_all2 P) xss yss" "concat yss = ys"
  using assms
proof (induction xss arbitrary: ys thesis)
  case (Cons xs xss)
  then obtain us vs where u: "ys = us @ vs" "list_all2 P xs us" "list_all2 P (concat xss) vs"
    by (auto simp: list_all2_append1)
  obtain yss where "list_all2 (list_all2 P) xss yss" "concat yss = vs" using Cons.IH [OF _ u(3)] by blast
  then show ?case using Cons.prems(1) [of "us # yss"] u by simp
qed simp

lemma list_all2_concatI: "list_all2 (list_all2 P) xss yss \<Longrightarrow> list_all2 P (concat xss) (concat yss)"
  by (induction rule: list_all2_induct) (auto intro: list_all2_appendI)

section \<open>What is stored is read back\<close>

text \<open>The hits of the keywords as the analyzer delivers them: every keyword occurs, attribute by
  attribute, and fewer than \<open>2 ^ 29\<close> times.\<close>

definition hits_ok :: "TokenHit list list \<Rightarrow> bool" where
  "hits_ok hitss \<longleftrightarrow> (\<forall>hits \<in> set hitss. hits \<noteq> [] \<and> sorted (map attributeIdOf hits) \<and> length hits < 2 ^ 29)"

lemma length_hitsOf: "hitsOf m kws = Some hitss \<Longrightarrow> length hitss = length kws"
  by (induction m kws arbitrary: hitss rule: hitsOf.induct) (auto split: bind_splits)

lemma attributesOf_length: "length (attributesOf hits) \<le> length hits"
proof (cases hits)
  case (Cons h hs)
  have "length (runsFrom hs p) \<le> length hs" for p by (induction hs arbitrary: p) (auto intro: le_SucI)
  then show ?thesis by (simp add: attributesOf_def Cons attributeRuns_runsFrom)
qed (simp add: attributesOf_def)

lemma built_sections:
  assumes len: "length g = 5" "length vlb = 5" "\<And>n. length (mem n) = n"
    and h: "hitsOf m kws = Some hitss" "hits_ok hitss" "length kws < KEYWORD_THRESHOLD"
    and t: "isEnabledWordPositionIndex t"
  obtains fl chunks chunkss tl4 rest where "buildForwardList mem g vlb t kws m key boost = Some fl"
    "list_all2 holds_vector (map attributesOf hitss) chunks"
    "list_all2 (list_all2 holds_vector) (map positionGroups hitss) chunkss"
    "fl_data fl = concat (map u32Bytes (map fst kws)) @ tl4 @ concat chunks @ concat (concat chunkss) @ rest"
    "length tl4 = 4 * length kws" "numberOfKeywords fl = length kws"
    "attributeIdsIndexSize fl = length (concat chunks)" "positionIndexSize fl = length (concat (concat chunkss))"
proof -
  have small: "\<forall>ps \<in> set (map attributesOf hitss). length ps < 2 ^ 29"
    using h(2) attributesOf_length by (auto simp: hits_ok_def intro: le_less_trans)
  have "length ps < 2 ^ 29" if "hits \<in> set hitss" "ps \<in> set (positionGroups hits)" for hits ps
  proof -
    have "hits \<noteq> []" "sorted (map attributeIdOf hits)" "length hits < 2 ^ 29" using h(2) that(1) by (auto simp: hits_ok_def)
    with attributesOf_sorted(2) [of hits] that(2) obtain a where
      "ps = map positionOf (filter (\<lambda>h. attributeIdOf h = a) hits)" by auto
    then have "length ps \<le> length hits" by simp
    then show ?thesis using \<open>length hits < 2 ^ 29\<close> by linarith
  qed
  then have small': "\<forall>ps \<in> set (concat (map positionGroups hitss)). length ps < 2 ^ 29" by auto
  obtain chunks where c: "list_all2 holds_vector (map attributesOf hitss) chunks"
    "\<And>grand. fold (convertToVarLengthArray g vlb) (map attributesOf hitss) grand = grand @ concat chunks"
    using convertToVarLengthArray_fold [OF len(1,2) small] by blast
  obtain flat where f: "list_all2 holds_vector (concat (map positionGroups hitss)) flat"
    "\<And>grand. fold (convertToVarLengthArray g vlb) (concat (map positionGroups hitss)) grand = grand @ concat flat"
    using convertToVarLengthArray_fold [OF len(1,2) small'] by blast
  obtain chunkss where cs: "list_all2 (list_all2 holds_vector) (map positionGroups hitss) chunkss" "concat chunkss = flat"
    using list_all2_concat_regroup [OF f(1)] by blast
  define st where "st = fold (keywordHits g vlb t) hitss \<lparr>positionListVector = [], offsetVector = [],
    synonymOriginalTokenLenArray = [], synonymBitFlagArray = [], bitMapCursor = 0, tempPositionIndexBuffer = [],
    tempOffsetBuffer = [], tempcharLenBuffer = [], tempSynonymBitMapBuffer = []\<rparr>"
  have pos: "tempPositionIndexBuffer st = concat flat"
    using h(2) f(2) by (simp add: st_def keywordHits_fold [OF t] hits_ok_def)
  have att: "fold (\<lambda>hits. convertToVarLengthArray g vlb (attributeRuns hits 0 True [])) hitss [] = concat chunks"
    using c(2) [of "[]"] by (simp add: fold_map attributesOf_def comp_def)
  define fl0 where "fl0 = \<lparr>externalRecordId = key, recordBoost = boost, numberOfKeywords = length kws,
    fl_data = [], attributeIdsIndexSize = 0, positionIndexSize = 0, offsetIndexSize = 0,
    charLenIndexSize = 0, synonymBitMapSize = 0, dataSize = 0\<rparr>"
  obtain pre fl1 where a: "allocateSpaceAndSetNSAValuesAndPosIndex mem (concat chunks) (concat flat)
      (tempOffsetBuffer st) (tempcharLenBuffer st) (tempSynonymBitMapBuffer st) fl0 = Some fl1"
    "fl_data fl1 = pre @ concat chunks @ concat flat @ tempOffsetBuffer st @ tempSynonymBitMapBuffer st @ tempcharLenBuffer st"
    "length pre = 8 * numberOfKeywords fl0" "numberOfKeywords fl1 = numberOfKeywords fl0"
    "attributeIdsIndexSize fl1 = length (concat chunks)" "positionIndexSize fl1 = length (concat flat)"
    by (rule allocate_layout [OF len(3), where as = "concat chunks" and ps = "concat flat" and fl = fl0])
  have "length pre = 4 * length kws + 4 * length kws" using a(3) by (simp add: fl0_def)
  then obtain old tl4 where pre: "pre = old @ tl4" "length old = 4 * length kws" "length tl4 = 4 * length kws"
    by (rule split_at_length)
  let ?rest = "tempOffsetBuffer st @ tempSynonymBitMapBuffer st @ tempcharLenBuffer st"
  let ?fl = "fl1\<lparr>fl_data := concat (map u32Bytes (map fst kws)) @ tl4 @ concat chunks @ concat flat @ ?rest\<rparr>"
  have "setKeywordIds 0 (map fst kws) fl1 = Some ?fl"
    using setKeywordIds_written [of fl1 "[]" old "tl4 @ concat chunks @ concat flat @ ?rest" "map fst kws"] a(2) pre h(3)
    by simp
  moreover have "isEnabledAttributeBasedSearch t"
    using t by (auto simp: isEnabledWordPositionIndex_def isEnabledAttributeBasedSearch_def)
  ultimately have "buildForwardList mem g vlb t kws m key boost = Some ?fl"
    using h(1,3) t a(1) by (simp add: buildForwardList_def Let_def att pos st_def [symmetric] fl0_def [symmetric])
  then show thesis
    by (rule that [OF _ c(1) cs(1), of _ tl4 ?rest]) (use a pre cs(2) in \<open>simp_all add: fl0_def\<close>)
qed

text \<open>
  C18. What \<open>addRecord\<close> stores in the forward list of a record is what the readers get: for every
  keyword, \<open>getKeywordAttributeIdsList\<close> returns the sorted attributes it occurs in, and
  \<open>getKeyWordPostionsInRecordField\<close> returns, for each of these attributes, exactly the positions
  of the keyword in it; the keyword ids are read back as well. The building of the byte array succeeds,
  whatever the allocated memory holds.
\<close>

theorem forward_list_roundtrip:
  assumes "length g = 5" "length vlb = 5" "\<And>n. length (mem n) = n"
    and "hitsOf m kws = Some hitss" "hits_ok hitss" "length kws < KEYWORD_THRESHOLD"
    and "isEnabledWordPositionIndex t"
  shows "\<exists>fl. buildForwardList mem g vlb t kws m key boost = Some fl
    \<and> getKeywordIds fl = Some (map fst kws)
    \<and> (\<forall>k < length kws. \<forall>out.
        getKeywordAttributeIdsList fl k out = Some (sorted_list_of_set (attributeIdOf ` set (hitss ! k)))
        \<and> (\<forall>a \<in> attributeIdOf ` set (hitss ! k).
            getKeyWordPostionsInRecordField fl k a out
              = Some (out @ map positionOf (filter (\<lambda>h. attributeIdOf h = a) (hitss ! k)))))"
proof -
  obtain fl chunks chunkss tl4 rest where b: "buildForwardList mem g vlb t kws m key boost = Some fl"
    "list_all2 holds_vector (map attributesOf hitss) chunks"
    "list_all2 (list_all2 holds_vector) (map positionGroups hitss) chunkss"
    "fl_data fl = concat (map u32Bytes (map fst kws)) @ tl4 @ concat chunks @ concat (concat chunkss) @ rest"
    "length tl4 = 4 * length kws" "numberOfKeywords fl = length kws"
    "attributeIdsIndexSize fl = length (concat chunks)" "positionIndexSize fl = length (concat (concat chunkss))"
    by (rule built_sections [OF assms])
  have ids: "getKeywordIds fl = Some (map fst kws)"
    by (rule getKeywordIds_written [OF b(4)]) (simp add: b(6))
  define ib where "ib = concat (map u32Bytes (map fst kws)) @ tl4"
  have d: "fl_data fl = ib @ concat chunks @ concat (concat chunkss) @ rest" "length ib = 8 * length kws"
    using b(4,5) by (simp_all only: ib_def append_assoc length_append length_concat_u32Bytes) simp
  have ha: "holds_attributes (map attributesOf hitss) fl"
    unfolding holds_attributes_def holds_section_def using b(2,6,7) d
    by (intro exI [of _ chunks] exI [of _ "concat (concat chunkss) @ rest"]) (simp add: layout_defs)
  have pp: "drop (getPositionIndexPointer fl) (fl_data fl) = concat (concat chunkss) @ rest"
    using b(6-8) d by (simp add: layout_defs)
  have lh: "length hitss = length kws" by (rule length_hitsOf [OF assms(4)])
  have read: "getKeywordAttributeIdsList fl k out = Some (sorted_list_of_set (attributeIdOf ` set (hitss ! k)))
      \<and> (\<forall>a \<in> attributeIdOf ` set (hitss ! k). getKeyWordPostionsInRecordField fl k a out
          = Some (out @ map positionOf (filter (\<lambda>h. attributeIdOf h = a) (hitss ! k))))"
    if k: "k < length kws" for k out
  proof -
    have ok: "hitss ! k \<noteq> []" "sorted (map attributeIdOf (hitss ! k))"
      using assms(5) k lh by (auto simp: hits_ok_def)
    note at = attributesOf_sorted [OF ok]
    have "positionGroups (hitss ! k) \<noteq> []" unfolding at(2)
      using ok(1) at(1) by (auto simp: sorted_list_of_set_eq_Nil_iff)
    then have "concat (map positionGroups hitss) \<noteq> []" using k lh by (auto simp: set_conv_nth)
    moreover have "holds_section (concat (map positionGroups hitss)) (concat (concat chunkss) @ rest) (positionIndexSize fl)"
      unfolding holds_section_def using b(3,8) list_all2_concatI by blast
    ultimately have l: "positionIndexSize fl \<noteq> 0" "\<exists>x. nth_opt (concat (concat chunkss) @ rest) (positionIndexSize fl - 1) = Some x \<and> x AND 0x80 = 0"
      using holds_section_last by blast+
    have len: "map length (map positionGroups hitss) = map length (map attributesOf hitss)"
      using assms(5) attributesOf_sorted(2) by (auto simp: hits_ok_def)
    have "getKeyWordPostionsInRecordField fl k a out
        = Some (out @ map positionOf (filter (\<lambda>h. attributeIdOf h = a) (hitss ! k)))"
      if "a \<in> attributeIdOf ` set (hitss ! k)" for a
    proof -
      have "a \<in> set (attributesOf (hitss ! k))" using that by (simp add: at(1))
      then obtain i where i: "i < length (attributesOf (hitss ! k))" "attributesOf (hitss ! k) ! i = a"
        by (auto simp: in_set_conv_nth)
      have "fetchDataFromVLBArray fl k (map attributesOf hitss ! k ! i) out (concat (concat chunkss) @ rest)
        = Some (out @ map positionGroups hitss ! k ! i)"
        by (rule fetchDataFromVLBArray_chunks [OF ha b(3) len]) (use k lh i at(3) in auto)
      then show ?thesis using l i k lh pp by (auto simp: getKeyWordPostionsInRecordField_def at(2))
    qed
    moreover have "getKeywordAttributeIdsList fl k out = Some (attributesOf (hitss ! k))"
      using getKeywordAttributeIdsList_section [of "map attributesOf hitss" fl k out] ha k lh
      by (simp add: holds_attributes_def)
    ultimately show ?thesis by (simp add: at(1))
  qed
  then show ?thesis using b(1) ids by blast
qed

theorem forward_list_roundtrip_witness:
  "\<exists>fl. buildForwardList (\<lambda>n. replicate n 0) [0, 0, 0, 0, 0] [0, 0, 0, 0, 0] POSITION_INDEX_FULL [(7, ''a'')]
      [''a'' \<mapsto> [\<lparr>attributeIdOf = 1, positionOf = 4, charOffsetOf = 20, isSynonym = False, charLenOf = 3\<rparr>,
        \<lparr>attributeIdOf = 1, positionOf = 9, charOffsetOf = 50, isSynonym = True, charLenOf = 3\<rparr>]] ''k'' 1 = Some fl
    \<and> getKeyWordPostionsInRecordField fl 0 1 [] = Some [4, 9]"
proof -
  let ?hits = "[\<lparr>attributeIdOf = 1, positionOf = 4, charOffsetOf = 20, isSynonym = False, charLenOf = 3\<rparr>,
        \<lparr>attributeIdOf = 1, positionOf = 9, charOffsetOf = 50, isSynonym = True, charLenOf = 3\<rparr>]"
  have h: "hitsOf [''a'' \<mapsto> ?hits] [(7, ''a'')] = Some [?hits]" "hits_ok [?hits]"
    "length [(7 :: u32, ''a'')] < KEYWORD_THRESHOLD" "isEnabledWordPositionIndex POSITION_INDEX_FULL"
    by (simp_all add: hits_ok_def KEYWORD_THRESHOLD_def isEnabledWordPositionIndex_def)
  show ?thesis
    using forward_list_roundtrip [of "[0, 0, 0, 0, 0]" "[0, 0, 0, 0, 0]" "\<lambda>n. replicate n 0", OF _ _ _ h,
        of "''k''" 1] by fastforce
qed

section \<open>Term hits\<close>

lemma set_intersection_sorted:
  assumes "sorted_wrt (<) as" "sorted_wrt (<) bs"
  shows "set_intersection as bs = filter (\<lambda>x. x \<in> set bs) as"
  using assms
proof (induction as bs rule: set_intersection.induct)
  case (1 a as b bs)
  then show ?case by (auto intro!: filter_cong)
qed auto

lemma set_difference_sorted:
  assumes "sorted_wrt (<) as" "sorted_wrt (<) bs"
  shows "set_difference as bs = filter (\<lambda>x. x \<notin> set bs) as"
  using assms
proof (induction as bs rule: set_difference.induct)
  case (1 a as b bs)
  then show ?case by (auto intro!: filter_cong)
qed auto

text \<open>What a filter on attributes asks of the attributes of a keyword, and the attributes it reports.\<close>

fun admits :: "ATTRIBUTES_OP \<Rightarrow> u32 list \<Rightarrow> u32 list \<Rightarrow> bool" where
  "admits ATTRIBUTES_OP_AND filt attrs \<longleftrightarrow> set filt \<subseteq> set attrs"
| "admits ATTRIBUTES_OP_OR filt attrs \<longleftrightarrow> set filt \<inter> set attrs \<noteq> {}"
| "admits ATTRIBUTES_OP_NAND filt attrs \<longleftrightarrow> \<not> set attrs \<subseteq> set filt"

definition reported :: "ATTRIBUTES_OP \<Rightarrow> u32 list \<Rightarrow> u32 list \<Rightarrow> u32 list" where
  "reported attrOp filt attrs = filter (\<lambda>a. a \<in> set filt \<longleftrightarrow> attrOp \<noteq> ATTRIBUTES_OP_NAND) attrs"

lemma isAttributesListsMatching_iff: "isAttributesListsMatching xs ys \<longleftrightarrow> xs = ys"
  by (auto simp: list_eq_iff_nth_eq)

lemma filter_eq_iff_subset:
  assumes "sorted_wrt (<) as" "sorted_wrt (<) bs"
  shows "filter (\<lambda>x. x \<in> set bs) as = bs \<longleftrightarrow> set bs \<subseteq> set (as :: u32 list)"
proof
  assume "set bs \<subseteq> set as"
  then have "set (filter (\<lambda>x. x \<in> set bs) as) = set bs" by auto
  moreover have "sorted_wrt (<) (filter (\<lambda>x. x \<in> set bs) as)" using assms(1) by (rule sorted_wrt_filter)
  ultimately show "filter (\<lambda>x. x \<in> set bs) as = bs" using assms(2) strict_sorted_equal by blast
qed (metis filter_is_subset)

lemma isValidRecordTermHit_spec:
  assumes "holds_attributes attrss fl" "k < length attrss" "numberOfKeywords fl = length attrss"
    "getKeywordRecordStaticScore halfToFloat fl k = Some score" "isEnabledAttributeBasedSearch t"
    "attrss ! k \<noteq> []" "sorted_wrt (<) (attrss ! k)" "filt \<noteq> []" "sorted_wrt (<) filt"
  shows "isValidRecordTermHit halfToFloat t fl k filt attrOp matched
    = Some (admits attrOp filt (attrss ! k), reported attrOp filt (attrss ! k), score)"
proof -
  let ?as = "attrss ! k"
  have a: "getKeywordAttributeIdsList fl k matched = Some ?as"
    using getKeywordAttributeIdsList_section assms(1,2) by (simp add: holds_attributes_def)
  have c: "fetchCommonAttributes ?as filt = filter (\<lambda>x. x \<in> set filt) ?as"
    using assms(6-9) by (simp add: fetchCommonAttributes_def set_intersection_sorted)
  have m: "isAttributesListsMatching (filter (\<lambda>x. x \<in> set filt) ?as) filt \<longleftrightarrow> set filt \<subseteq> set ?as"
    unfolding isAttributesListsMatching_iff by (rule filter_eq_iff_subset [OF assms(7,9)])
  show ?thesis using assms(2-5,8) a c m set_difference_sorted [OF assms(7,9)]
    by (cases attrOp) (auto simp: isValidRecordTermHit_def reported_def Let_def filter_empty_conv
      simp del: isAttributesListsMatching.simps)
qed

section \<open>Search in a range of keyword ids\<close>

lemma above_sorted:
  fixes x :: u32
  assumes "sorted (x # xs)" "\<not> x \<le> v" "j < length xs" shows "\<not> xs ! j \<le> v"
proof -
  have "x \<le> xs ! j" using assms(1,3) by simp
  then show ?thesis using assms(2) order_trans by blast
qed

lemma haveWordLoop_spec:
  assumes "\<And>j m. j < length xs \<Longrightarrow> hit (i + j) m = Some (valid (i + j), rep (i + j), sc (i + j))"
    "\<And>j. j < length xs \<Longrightarrow> 0 \<le> sc (i + j)" "sorted xs"
  shows "\<exists>r. haveWordLoop hit maxId xs i m = Some r \<and>
    (case r of
      None \<Rightarrow> \<forall>j < length xs. xs ! j \<le> maxId \<longrightarrow> \<not> valid (i + j)
    | Some (x, as, s) \<Rightarrow> \<exists>j < length xs. x = xs ! j \<and> x \<le> maxId \<and> valid (i + j) \<and> as = rep (i + j) \<and> s = sc (i + j)
        \<and> (\<forall>l < j. \<not> valid (i + l)))"
  using assms
proof (induction xs arbitrary: i m)
  case (Cons x xs)
  show ?case
  proof (cases "x \<le> maxId")
    case False
    then have "\<not> (x # xs) ! j \<le> maxId" if "j < length (x # xs)" for j
      using above_sorted [OF Cons.prems(3) False] that False by (cases j) auto
    then show ?thesis using False by auto
  next
    case True
    have hx: "hit i m = Some (valid i, rep i, sc i)" "0 \<le> sc i"
      using Cons.prems(1) [of 0 m] Cons.prems(2) [of 0] by simp_all
    show ?thesis
    proof (cases "valid i")
      case v: True
      then show ?thesis using True hx by (auto intro!: exI [of _ 0])
    next
      case v: False
      obtain r where r: "haveWordLoop hit maxId xs (i + 1) (rep i) = Some r"
        "case r of None \<Rightarrow> \<forall>j < length xs. xs ! j \<le> maxId \<longrightarrow> \<not> valid (i + 1 + j)
          | Some (y, as, s) \<Rightarrow> \<exists>j < length xs. y = xs ! j \<and> y \<le> maxId \<and> valid (i + 1 + j)
              \<and> as = rep (i + 1 + j) \<and> s = sc (i + 1 + j) \<and> (\<forall>l < j. \<not> valid (i + 1 + l))"
        using Cons.IH [of "i + 1" "rep i"] Cons.prems(1) [of "Suc _"] Cons.prems(2) [of "Suc _"] Cons.prems(3)
        by auto
      have step: "haveWordLoop hit maxId (x # xs) i m = Some r" using True hx v r(1) by simp
      show ?thesis
      proof (cases r)
        case None
        then have "\<not> valid (i + j)" if "j < length (x # xs)" "(x # xs) ! j \<le> maxId" for j
          using r(2) v that by (cases j) auto
        then show ?thesis using step None by auto
      next
        case (Some p)
        obtain y as s where p: "p = (y, as, s)" by (cases p) auto
        then obtain j where j: "j < length xs" "y = xs ! j" "y \<le> maxId" "valid (i + 1 + j)"
          "as = rep (i + 1 + j)" "s = sc (i + 1 + j)" "\<forall>l < j. \<not> valid (i + 1 + l)" using r(2) Some by auto
        have "\<not> valid (i + l)" if "l < Suc j" for l using j(7) v that by (cases l) auto
        then show ?thesis using step Some p j by (auto intro!: exI [of _ "Suc j"])
      qed
    qed
  qed
qed simp

lemma getWordsLoop_spec:
  assumes "\<And>j m. j < length xs \<Longrightarrow> hit (i + j) m = Some (valid (i + j), rep (i + j), sc (i + j))" "sorted xs"
  shows "getWordsLoop hit maxId xs i m ws
    = Some (ws @ map ((!) xs) (filter (\<lambda>j. xs ! j \<le> maxId \<and> valid (i + j)) [0..<length xs]))"
  using assms
proof (induction xs arbitrary: i m ws)
  case (Cons x xs)
  have split: "[0..<length (x # xs)] = 0 # map Suc [0..<length xs]"
    by (simp add: map_Suc_upt upt_conv_Cons del: upt_Suc)
  have hx: "hit i m = Some (valid i, rep i, sc i)" using Cons.prems(1) [of 0 m] by simp
  show ?case
  proof (cases "x \<le> maxId")
    case False
    have "\<forall>j \<in> set [0..<length xs]. \<not> xs ! j \<le> maxId" using above_sorted [OF Cons.prems(2) False] by simp
    then show ?thesis using False unfolding split by (simp add: filter_map comp_def filter_empty_conv)
  next
    case True
    have "getWordsLoop hit maxId xs (i + 1) (rep i) ws'
      = Some (ws' @ map ((!) xs) (filter (\<lambda>j. xs ! j \<le> maxId \<and> valid (i + 1 + j)) [0..<length xs]))" for ws'
      using Cons.IH [of "i + 1" "rep i" ws'] Cons.prems(1) [of "Suc _"] Cons.prems(2) by simp
    then show ?thesis using True hx unfolding split by (simp add: filter_map comp_def)
  qed
qed simp

text \<open>
  The binary search stays inside its range, and on a sorted array it separates the smaller elements from
  the others.
\<close>

lemma lowerBoundLoop_range: "lowerBoundLoop ids val first cnt \<in> {first..first + cnt}"
proof (induction ids val first cnt rule: lowerBoundLoop.induct)
  case (1 ids val first cnt)
  then show ?case by (subst lowerBoundLoop.simps) (fastforce simp: Let_def)
qed

lemma lowerBoundLoop_splits:
  assumes "sorted ids" "first + cnt \<le> length ids" "\<forall>j < first. ids ! j < val"
    "\<forall>j < length ids. first + cnt \<le> j \<longrightarrow> val \<le> ids ! j"
  shows "(\<forall>j < lowerBoundLoop ids val first cnt. ids ! j < val)
    \<and> (\<forall>j < length ids. lowerBoundLoop ids val first cnt \<le> j \<longrightarrow> val \<le> ids ! j)"
  using assms
proof (induction ids val first cnt rule: lowerBoundLoop.induct)
  case (1 ids val first cnt)
  let ?step = "cnt div 2"
  show ?case
  proof (cases "cnt = 0")
    case True
    then show ?thesis using "1.prems" by (subst (1 2) lowerBoundLoop.simps) simp
  next
    case cnt: False
    show ?thesis
    proof (cases "ids ! (first + ?step) < val")
      case True
      have "ids ! j < val" if "j < first + ?step + 1" for j
      proof -
        have "first + ?step < length ids" using cnt "1.prems"(2) by linarith
        then show ?thesis using sorted_nth_mono [OF "1.prems"(1), of j "first + ?step"] that True by simp
      qed
      moreover have "first + ?step + 1 + (cnt - (?step + 1)) = first + cnt" using cnt by linarith
      ultimately have "(\<forall>j < lowerBoundLoop ids val (first + ?step + 1) (cnt - (?step + 1)). ids ! j < val)
        \<and> (\<forall>j < length ids. lowerBoundLoop ids val (first + ?step + 1) (cnt - (?step + 1)) \<le> j \<longrightarrow> val \<le> ids ! j)"
        using "1.IH"(1) [OF cnt refl refl True "1.prems"(1)] "1.prems"(2,4) by metis
      moreover have "lowerBoundLoop ids val first cnt = lowerBoundLoop ids val (first + ?step + 1) (cnt - (?step + 1))"
        using cnt True by (subst lowerBoundLoop.simps) (simp add: Let_def)
      ultimately show ?thesis by metis
    next
      case False
      have "val \<le> ids ! j" if "j < length ids" "first + ?step \<le> j" for j
        using sorted_nth_mono [OF "1.prems"(1) that(2,1)] False by simp
      moreover have "first + ?step \<le> length ids" using "1.prems"(2) by linarith
      ultimately have "(\<forall>j < lowerBoundLoop ids val first ?step. ids ! j < val)
        \<and> (\<forall>j < length ids. lowerBoundLoop ids val first ?step \<le> j \<longrightarrow> val \<le> ids ! j)"
        using "1.IH"(2) [OF cnt refl refl False "1.prems"(1)] "1.prems"(3) by metis
      moreover have "lowerBoundLoop ids val first cnt = lowerBoundLoop ids val first ?step"
        using cnt False by (subst lowerBoundLoop.simps) (simp add: Let_def)
      ultimately show ?thesis by metis
    qed
  qed
qed

lemma lowerBound_spec:
  assumes "sorted ids"
  shows "lowerBound ids v \<le> length ids" "j < lowerBound ids v \<Longrightarrow> ids ! j < v"
    "j < length ids \<Longrightarrow> lowerBound ids v \<le> j \<Longrightarrow> v \<le> ids ! j"
  using lowerBoundLoop_range [of ids v 0 "length ids"] lowerBoundLoop_splits [OF assms, of 0 "length ids" v]
  by (auto simp: lowerBound_def)

lemma lowerBound_takeWhile:
  assumes "sorted ids"
  shows "lowerBound ids v = length (takeWhile (\<lambda>x. x < v) ids)"
proof -
  note lb = lowerBound_spec [OF assms, where v = v]
  have "takeWhile (\<lambda>x. x < v) ids = take (lowerBound ids v) ids"
    using lb(1,2) lb(3) [of "lowerBound ids v"] by (intro takeWhile_eq_take_P_nth) (auto simp: not_less)
  then show ?thesis using lb(1) by simp
qed

lemma linearScan_takeWhile: "linearScan v ids i = i + length (takeWhile (\<lambda>x. x \<noteq> v) ids)"
  by (induction v ids i rule: linearScan.induct) auto

lemma lowerBound_member:
  assumes "sorted ids" "v \<in> set ids"
  shows "lowerBound ids v = length (takeWhile (\<lambda>x. x \<noteq> v) ids)"
  using assms
proof (induction ids)
  case (Cons x xs)
  have "x \<le> v" using Cons.prems by auto
  then show ?case using Cons lowerBound_takeWhile [OF Cons.prems(1)] lowerBound_takeWhile [of xs v] by auto
qed simp

lemma lowerBound_hit:
  assumes "sorted ids" "v \<in> set ids"
  shows "lowerBound ids v < length ids" "ids ! lowerBound ids v = v"
proof -
  show "lowerBound ids v < length ids" unfolding lowerBound_member [OF assms]
    using assms(2) by (induction ids) auto
  then show "ids ! lowerBound ids v = v" unfolding lowerBound_member [OF assms]
    using nth_length_takeWhile [of "\<lambda>x. x \<noteq> v" ids] by simp
qed

text \<open>
  The two lookups of a keyword in a forward list with sorted ids agree: for a keyword of the record the
  linear scan finds the offset that the binary search finds, and for any other keyword it returns the
  number of keywords.
\<close>

theorem keyword_lookups_agree:
  assumes "getKeywordIds fl = Some ids" "sorted ids"
  shows "getKeywordOffsetByLinearScan fl keywordId
    = (if keywordId \<in> set ids then getKeywordOffset fl keywordId else Some (length ids))"
proof -
  have "length (takeWhile (\<lambda>x. x \<noteq> keywordId) ids) = length ids" if "keywordId \<notin> set ids"
    using that by (induction ids) auto
  then show ?thesis using assms lowerBound_member [OF assms(2)]
    by (simp add: getKeywordOffsetByLinearScan_def getKeywordOffset_def linearScan_takeWhile)
qed

text \<open>A forward list whose keywords have the ids \<open>ids\<close>, the attributes \<open>attrss\<close> and the scores \<open>sc\<close>.\<close>

definition holds_keywords :: "(u16 \<Rightarrow> real) \<Rightarrow> u32 list \<Rightarrow> u32 list list \<Rightarrow> (nat \<Rightarrow> real) \<Rightarrow> ForwardList \<Rightarrow> bool" where
  "holds_keywords halfToFloat ids attrss sc fl \<longleftrightarrow> holds_attributes attrss fl \<and> getKeywordIds fl = Some ids \<and> sorted ids
     \<and> length attrss = length ids \<and> numberOfKeywords fl = length ids
     \<and> (\<forall>k < length ids. attrss ! k \<noteq> [] \<and> sorted_wrt (<) (attrss ! k) \<and> 0 \<le> sc k
         \<and> getKeywordRecordStaticScore halfToFloat fl k = Some (sc k))"

lemma holds_keywords_hit:
  assumes "holds_keywords halfToFloat ids attrss sc fl" "k < length ids" "isEnabledAttributeBasedSearch t"
    "filt \<noteq> []" "sorted_wrt (<) filt"
  shows "isValidRecordTermHit halfToFloat t fl k filt attrOp matched
    = Some (admits attrOp filt (attrss ! k), reported attrOp filt (attrss ! k), sc k)"
  using assms by (intro isValidRecordTermHit_spec) (auto simp: holds_keywords_def)

lemma haveWordInRange_spec:
  assumes "holds_keywords halfToFloat ids attrss sc fl" "isEnabledAttributeBasedSearch t"
    "filt \<noteq> []" "sorted_wrt (<) filt"
  shows "\<exists>r. haveWordInRange halfToFloat t fl minId maxId filt attrOp = Some r \<and>
    (case r of
      None \<Rightarrow> \<forall>k < length ids. ids ! k \<in> {minId..maxId} \<longrightarrow> \<not> admits attrOp filt (attrss ! k)
    | Some (keywordId, attributes, score) \<Rightarrow> \<exists>k < length ids. keywordId = ids ! k \<and> keywordId \<in> {minId..maxId}
        \<and> admits attrOp filt (attrss ! k) \<and> attributes = reported attrOp filt (attrss ! k) \<and> score = sc k
        \<and> (\<forall>j < k. minId \<le> ids ! j \<longrightarrow> \<not> admits attrOp filt (attrss ! j)))"
proof -
  have ids: "getKeywordIds fl = Some ids" "sorted ids" and sc: "\<And>k. k < length ids \<Longrightarrow> 0 \<le> sc k"
    using assms(1) by (auto simp: holds_keywords_def)
  let ?i = "lowerBound ids minId"
  note lb = lowerBound_spec [OF ids(2), where v = minId]
  have hit: "isValidRecordTermHit halfToFloat t fl (?i + j) filt attrOp m
      = Some (admits attrOp filt (attrss ! (?i + j)), reported attrOp filt (attrss ! (?i + j)), sc (?i + j))"
    if "j < length (drop ?i ids)" for j m
    using holds_keywords_hit [OF assms(1) _ assms(2-4)] that by simp
  obtain r where r: "haveWordLoop (\<lambda>i m. isValidRecordTermHit halfToFloat t fl i filt attrOp m) maxId (drop ?i ids) ?i [] = Some r"
    "case r of None \<Rightarrow> \<forall>j < length (drop ?i ids). drop ?i ids ! j \<le> maxId \<longrightarrow> \<not> admits attrOp filt (attrss ! (?i + j))
      | Some (x, as, s) \<Rightarrow> \<exists>j < length (drop ?i ids). x = drop ?i ids ! j \<and> x \<le> maxId
          \<and> admits attrOp filt (attrss ! (?i + j)) \<and> as = reported attrOp filt (attrss ! (?i + j)) \<and> s = sc (?i + j)
          \<and> (\<forall>l < j. \<not> admits attrOp filt (attrss ! (?i + l)))"
    using haveWordLoop_spec [of "drop ?i ids" "\<lambda>i m. isValidRecordTermHit halfToFloat t fl i filt attrOp m" ?i
        "\<lambda>k. admits attrOp filt (attrss ! k)" "\<lambda>k. reported attrOp filt (attrss ! k)" sc maxId "[]", OF hit]
      sc sorted_wrt_drop [OF ids(2)] by auto
  have "haveWordInRange halfToFloat t fl minId maxId filt attrOp = Some r"
    using r(1) ids(1) by (simp add: haveWordInRange_def Let_def)
  moreover have "\<not> admits attrOp filt (attrss ! k)" if "r = None" "k < length ids" "ids ! k \<in> {minId..maxId}" for k
  proof -
    have "?i \<le> k" using lb(2) [of k] that(3) by (meson atLeastAtMost_iff leD leI)
    then show ?thesis using r(2) that by (auto dest: spec [of _ "k - ?i"])
  qed
  moreover have "\<exists>k < length ids. x = ids ! k \<and> x \<in> {minId..maxId}
        \<and> admits attrOp filt (attrss ! k) \<and> as = reported attrOp filt (attrss ! k) \<and> s = sc k
        \<and> (\<forall>j < k. minId \<le> ids ! j \<longrightarrow> \<not> admits attrOp filt (attrss ! j))" if rs: "r = Some (x, as, s)" for x as s
  proof -
    obtain j where j: "j < length ids - ?i" "x = ids ! (?i + j)" "x \<le> maxId" "admits attrOp filt (attrss ! (?i + j))"
      "as = reported attrOp filt (attrss ! (?i + j))" "s = sc (?i + j)" "\<forall>l < j. \<not> admits attrOp filt (attrss ! (?i + l))"
      using r(2) rs lb(1) by auto
    have "\<not> admits attrOp filt (attrss ! l)" if "l < ?i + j" "minId \<le> ids ! l" for l
    proof -
      have "?i \<le> l" using lb(2) [of l] that(2) by (meson leD leI)
      then show ?thesis using j(7) [rule_format, of "l - ?i"] that(1) by auto
    qed
    then show ?thesis using j lb(3) [of "?i + j"] by (intro exI [of _ "?i + j"]) auto
  qed
  ultimately show ?thesis by (auto split: option.splits)
qed

text \<open>
  C27. \<open>haveWordInRange\<close> on the forward list of a record, in an index with attribute-based search and with a
  non-empty filter of ascending attribute ids: its binary search finds the start of the range, and it reports a
  keyword exactly when one with an id in the closed range satisfies the filter (all, some, or not
  only the filtered attributes, for the three operators), and then the first such keyword
  with its score and the attributes that satisfy the filter.
\<close>

theorem haveWordInRange_correct:
  assumes "holds_keywords halfToFloat ids attrss sc fl" "isEnabledAttributeBasedSearch t"
    "filt \<noteq> []" "sorted_wrt (<) filt"
  shows "\<exists>r. haveWordInRange halfToFloat t fl minId maxId filt attrOp = Some r \<and>
    (case r of
      None \<Rightarrow> \<forall>k < length ids. ids ! k \<in> {minId..maxId} \<longrightarrow> \<not> admits attrOp filt (attrss ! k)
    | Some (keywordId, attributes, score) \<Rightarrow> \<exists>k < length ids. keywordId = ids ! k \<and> keywordId \<in> {minId..maxId}
        \<and> admits attrOp filt (attrss ! k) \<and> attributes = reported attrOp filt (attrss ! k) \<and> score = sc k
        \<and> (\<forall>j < k. minId \<le> ids ! j \<longrightarrow> \<not> admits attrOp filt (attrss ! j)))"
  by (rule haveWordInRange_spec [OF assms])

text \<open>
  \<open>getWordsInRange\<close> appends exactly the keyword ids of the closed range that satisfy the
  filter, in ascending order, and returns whether there is one.
\<close>

theorem getWordsInRange_correct:
  assumes "holds_keywords halfToFloat ids attrss sc fl" "isEnabledAttributeBasedSearch t"
    "filt \<noteq> []" "sorted_wrt (<) filt"
  shows "getWordsInRange halfToFloat t fl minId maxId filt attrOp out =
    (let ws = map ((!) ids) (filter (\<lambda>k. ids ! k \<in> {minId..maxId} \<and> admits attrOp filt (attrss ! k)) [0..<length ids])
     in Some (ws \<noteq> [], out @ ws))"
proof -
  have ids: "getKeywordIds fl = Some ids" "sorted ids" using assms(1) by (auto simp: holds_keywords_def)
  let ?i = "lowerBound ids minId" and ?ok = "\<lambda>k. admits attrOp filt (attrss ! k)"
  note lb = lowerBound_spec [OF ids(2), where v = minId]
  have up: "[0..<length ids] = [0..<?i] @ map ((+) ?i) [0..<length ids - ?i]"
    using lb(1) by (intro nth_equalityI) (auto simp: nth_append)
  have low: "filter (\<lambda>k. ids ! k \<in> {minId..maxId} \<and> ?ok k) [0..<?i] = []"
    using lb(2) by (auto simp: filter_empty_conv not_le)
  have high: "map ((!) ids) (filter (\<lambda>k. ids ! k \<in> {minId..maxId} \<and> ?ok k) (map ((+) ?i) [0..<length ids - ?i]))
      = map ((!) (drop ?i ids)) (filter (\<lambda>j. drop ?i ids ! j \<le> maxId \<and> ?ok (?i + j)) [0..<length (drop ?i ids)])"
    using lb(1,3) by (auto simp: filter_map comp_def intro!: map_cong filter_cong)
  have hit: "isValidRecordTermHit halfToFloat t fl (?i + j) filt attrOp m
      = Some (?ok (?i + j), reported attrOp filt (attrss ! (?i + j)), sc (?i + j))"
    if "j < length (drop ?i ids)" for j m
    using holds_keywords_hit [OF assms(1) _ assms(2-4)] that by simp
  have "getWordsLoop (\<lambda>i m. isValidRecordTermHit halfToFloat t fl i filt attrOp m) maxId (drop ?i ids) ?i [] []
      = Some (map ((!) ids) (filter (\<lambda>k. ids ! k \<in> {minId..maxId} \<and> ?ok k) [0..<length ids]))"
    using getWordsLoop_spec [of "drop ?i ids" "\<lambda>i m. isValidRecordTermHit halfToFloat t fl i filt attrOp m" ?i ?ok
        "\<lambda>k. reported attrOp filt (attrss ! k)" sc maxId "[]" "[]", OF hit] sorted_wrt_drop [OF ids(2)]
    unfolding up filter_append map_append low high by simp
  then show ?thesis using ids(1) by (simp add: getWordsInRange_def Let_def)
qed

text \<open>One keyword with id 7 that occurs in the attributes 1 and 2.\<close>

definition sampleList :: ForwardList where
  "sampleList = (let chunk = convertToVarLengthArray [0, 0, 0, 0, 0] [0, 0, 0, 0, 0] [1, 2] [] in
     \<lparr>externalRecordId = ''k'', recordBoost = 1, numberOfKeywords = 1,
      fl_data = u32Bytes 7 @ [0, 0] @ [0, 0] @ chunk, attributeIdsIndexSize = length chunk, positionIndexSize = 0,
      offsetIndexSize = 0, charLenIndexSize = 0, synonymBitMapSize = 0, dataSize = 8 + length chunk\<rparr>)"

lemma sampleList_holds: "holds_keywords (\<lambda>_. 1) [7] [[1, 2]] (\<lambda>_. 1) sampleList"
proof -
  let ?z = "[0, 0, 0, 0, 0] :: u8 list"
  have "fst (uInt32VectorToVarLenArray ?z [1, 2]) < 2 ^ 32"
    using uInt32VectorToVarLenArray_small [of ?z "[1, 2]"] by simp
  then obtain chunk where c: "holds_vector [1, 2] chunk" "convertToVarLengthArray ?z ?z [1, 2] [] = chunk"
  proof -
    fix thesis
    assume "fst (uInt32VectorToVarLenArray ?z [1, 2]) < 2 ^ 32"
      and that: "\<And>chunk. holds_vector [1, 2] chunk \<Longrightarrow> convertToVarLengthArray ?z ?z [1, 2] [] = chunk \<Longrightarrow> thesis"
    then show thesis
      by (elim convertToVarLengthArray_holds [of ?z ?z "[1, 2]", rotated 2]) simp_all
  qed
  have d: "fl_data sampleList = u32Bytes 7 @ [0, 0] @ [0, 0] @ chunk" "numberOfKeywords sampleList = 1"
    "attributeIdsIndexSize sampleList = length chunk" by (simp_all add: sampleList_def Let_def c(2))
  have "holds_attributes [[1, 2]] sampleList" unfolding holds_attributes_def holds_section_def
    by (intro exI [of _ "[chunk]"] exI [of _ "[]"]) (simp add: d layout_defs u32Bytes_def c(1))
  moreover have "getKeywordIds sampleList = Some [7]"
    by (rule getKeywordIds_written [of _ _ "[0, 0] @ [0, 0] @ chunk"]) (simp_all add: d)
  moreover have "getKeywordRecordStaticScore (\<lambda>_. 1) sampleList 0 = Some 1"
    by (simp add: getKeywordRecordStaticScore_def layout_defs readU16_def d nth_opt_append u32Bytes_def)
  ultimately show ?thesis by (simp add: holds_keywords_def d(2))
qed

theorem keyword_lookups_agree_witness:
  "getKeywordOffsetByLinearScan sampleList 7 = getKeywordOffset sampleList 7
    \<and> getKeywordOffsetByLinearScan sampleList 6 = Some 1"
  using keyword_lookups_agree [of sampleList "[7]"] sampleList_holds by (simp add: holds_keywords_def)

theorem haveWordInRange_correct_witness:
  "\<exists>r. haveWordInRange (\<lambda>_. 1) POSITION_INDEX_FULL sampleList 5 9 [2] ATTRIBUTES_OP_OR = Some r \<and> r \<noteq> None"
proof -
  have "isEnabledAttributeBasedSearch POSITION_INDEX_FULL" by (simp add: isEnabledAttributeBasedSearch_def)
  from haveWordInRange_correct [OF sampleList_holds this, of "[2]" 5 9 ATTRIBUTES_OP_OR] show ?thesis
    by (auto split: option.splits)
qed

theorem getWordsInRange_correct_witness:
  "getWordsInRange (\<lambda>_. 1) POSITION_INDEX_FULL sampleList 5 9 [2] ATTRIBUTES_OP_NAND [] = Some (True, [7])"
proof -
  have "isEnabledAttributeBasedSearch POSITION_INDEX_FULL" by (simp add: isEnabledAttributeBasedSearch_def)
  from getWordsInRange_correct [OF sampleList_holds this, of "[2]" 5 9 ATTRIBUTES_OP_NAND "[]"] show ?thesis
    by simp
qed

section \<open>Writing back a reordered list\<close>

text \<open>
  C34. \<open>copyByteArraysToForwardList\<close>, which writes back a reordered list, leaves out the block of the
  term frequency products when it computes its offset: in a list with at least one keyword its last
  assertion fails, and the bytes of the attributes are written over the static scores instead of
  the section the readers look at.
\<close>

theorem copyByteArrays_misplaced:
  assumes "\<And>n. length (mem n) = n" "0 < numberOfKeywords fl0"
    "allocateSpaceAndSetNSAValuesAndPosIndex mem as ps os ls ys fl0 = Some fl"
    "length as' = length as" "length ps' = length ps" "length os' = length os" "length ys' = length ys"
    "length ls' = length ls"
  shows "\<exists>fl'. copyByteArraysToForwardList as' ps' os' ys' ls' fl = Some (fl', False)
    \<and> take (length as') (drop (getKeywordRecordStaticScoresPointer fl') (fl_data fl')) = as'"
proof -
  let ?n = "numberOfKeywords fl"
  obtain pre where fl: "fl_data fl = pre @ as @ ps @ os @ ys @ ls" "length pre = 8 * numberOfKeywords fl0"
    "?n = numberOfKeywords fl0" "attributeIdsIndexSize fl = length as"
    "positionIndexSize fl = length ps" "offsetIndexSize fl = length os" "charLenIndexSize fl = length ls"
    "synonymBitMapSize fl = length ys" "dataSize fl = length (fl_data fl)"
    using allocate_layout [OF assms(1), of as ps os ls ys fl0] assms(3) by auto
  have "length (fl_data fl) = 6 * ?n + (length as' + (length ps' + (length os' + (length ys' + (length ls' + 2 * ?n)))))"
    using fl assms(4-8) by simp
  then obtain p a0 p0 o0 y0 l0 post where d: "fl_data fl = p @ a0 @ p0 @ o0 @ y0 @ l0 @ post"
    and len: "length p = 6 * ?n" "length a0 = length as'" "length p0 = length ps'" "length o0 = length os'"
      "length y0 = length ys'" "length l0 = length ls'"
    by (elim split_at_length) metis
  note c = copy_sections [OF len, of post]
  have o: "getKeywordIdsSizeInBytes fl + getKeywordRecordStaticScoresSizeInBytes fl = 6 * ?n"
    by (simp add: layout_defs)
  have "copyByteArraysToForwardList as' ps' os' ys' ls' fl
    = Some (fl\<lparr>fl_data := p @ as' @ ps' @ os' @ ys' @ ls' @ post\<rparr>, False)"
    using c fl(4-8) assms(2,4-8) fl(1-3,9)
    by (simp add: copyByteArraysToForwardList_def Let_def o d)
  then show ?thesis using len by (simp add: layout_defs)
qed

theorem copyByteArrays_misplaced_witness:
  "\<exists>fl fl'. allocateSpaceAndSetNSAValuesAndPosIndex (\<lambda>n. replicate n 0) [1, 5] [] [] [] [] sampleList = Some fl
    \<and> copyByteArraysToForwardList [1, 6] [] [] [] [] fl = Some (fl', False)"
proof -
  obtain fl where fl: "allocateSpaceAndSetNSAValuesAndPosIndex (\<lambda>n. replicate n 0) [1, 5] [] [] [] [] sampleList = Some fl"
    using allocate_layout [of "\<lambda>n. replicate n 0" "[1, 5]" "[]" "[]" "[]" "[]" sampleList] by auto
  have "0 < numberOfKeywords sampleList" by (simp add: sampleList_def Let_def)
  from copyByteArrays_misplaced [OF _ this fl, of "[1, 6]" "[]" "[]" "[]" "[]"] fl show ?thesis by auto
qed

end
