(* ===== verification/Forward_Index.thy ===== *)
theory Forward_Index
  imports Forward_List
begin

text \<open>
  The readers of the forward index, \<^verbatim>\<open>src/src/core/index/ForwardIndex.cpp\<close>, and the lookups that the inverted
  index passes on to it, \<^verbatim>\<open>src/src/core/index/InvertedIndex.cpp\<close>. A read view is the list of its elements:
  a pointer to a forward list and a flag that is false for deleted records. \<open>None\<close> is a failed
  assertion or the use of a null pointer.
\<close>

section \<open>Readers\<close>

type_synonym ForwardListPtr = "ForwardList option \<times> bool"

definition FORWARDLIST_NOTVALID :: u32 where "FORWARDLIST_NOTVALID = - 1"

definition getForwardList :: "ForwardListPtr list \<Rightarrow> u32 \<Rightarrow> ForwardList option \<times> bool" where
  "getForwardList readView recordId =
    (if unat recordId \<ge> length readView then (None, False) else readView ! unat recordId)"

definition ForwardIndex_haveWordInRange ::
  "(u16 \<Rightarrow> real) \<Rightarrow> PositionIndexType \<Rightarrow> ForwardListPtr list \<Rightarrow> u32 \<Rightarrow> u32 \<Rightarrow> u32 \<Rightarrow> u32 list \<Rightarrow> ATTRIBUTES_OP \<Rightarrow>
    (u32 \<times> u32 list \<times> real) option option" where
  "ForwardIndex_haveWordInRange halfToFloat positionIndexType readView recordId minId maxId filteringAttributesList attrOp =
    (if minId \<le> maxId \<and> unat recordId < length readView
     then (case getForwardList readView recordId of (fl, valid) \<Rightarrow>
       if \<not> valid then Some None
       else do { fl \<leftarrow> fl; haveWordInRange halfToFloat positionIndexType fl minId maxId filteringAttributesList attrOp })
     else None)"

text \<open>For an invalid record the score is left as it was, which the callers do not read.\<close>

definition ForwardIndex_isValidRecordTermHit ::
  "(u16 \<Rightarrow> real) \<Rightarrow> PositionIndexType \<Rightarrow> ForwardListPtr list \<Rightarrow> u32 \<Rightarrow> u32 \<Rightarrow> u32 list \<Rightarrow> ATTRIBUTES_OP \<Rightarrow> u32 list \<Rightarrow>
    (bool \<times> u32 list \<times> real) option" where
  "ForwardIndex_isValidRecordTermHit halfToFloat positionIndexType readView forwardIndexId keywordOffset
      filterAttributesList attrOp matchingKeywordAttributesList =
    (case getForwardList readView forwardIndexId of
      (Some fl, True) \<Rightarrow> isValidRecordTermHit halfToFloat positionIndexType fl (unat keywordOffset)
        filterAttributesList attrOp matchingKeywordAttributesList
    | _ \<Rightarrow> Some (False, matchingKeywordAttributesList, 0))"

definition ForwardIndex_getKeywordOffset :: "ForwardListPtr list \<Rightarrow> u32 \<Rightarrow> u32 \<Rightarrow> u32 option" where
  "ForwardIndex_getKeywordOffset readView forwardListId keywordId =
    (case getForwardList readView forwardListId of (fl, valid) \<Rightarrow>
      if \<not> valid then Some FORWARDLIST_NOTVALID
      else do { fl \<leftarrow> fl; off \<leftarrow> getKeywordOffset fl keywordId; Some (of_nat off) })"

definition getTermRecordStaticScore :: "(u16 \<Rightarrow> real) \<Rightarrow> ForwardListPtr list \<Rightarrow> u32 \<Rightarrow> u32 \<Rightarrow> real option" where
  "getTermRecordStaticScore halfToFloat readView forwardIndexId keywordOffset =
    (case getForwardList readView forwardIndexId of (fl, valid) \<Rightarrow>
      if \<not> valid then Some 0
      else do { fl \<leftarrow> fl; getKeywordRecordStaticScore halfToFloat fl (unat keywordOffset) })"

text \<open>The inverted index translates the offset of an inverted list to a keyword id first.\<close>

definition InvertedIndex_getKeywordOffset :: "ForwardListPtr list \<Rightarrow> u32 list \<Rightarrow> u32 \<Rightarrow> u32 \<Rightarrow> u32 option" where
  "InvertedIndex_getKeywordOffset readView keywordIds forwardListId listOffset = do {
     keywordId \<leftarrow> nth_opt keywordIds (unat listOffset);
     ForwardIndex_getKeywordOffset readView forwardListId keywordId
   }"

definition InvertedIndex_isValidTermPositionHit ::
  "(u16 \<Rightarrow> real) \<Rightarrow> PositionIndexType \<Rightarrow> ForwardListPtr list \<Rightarrow> u32 \<Rightarrow> u32 \<Rightarrow> u32 list \<Rightarrow> ATTRIBUTES_OP \<Rightarrow> u32 list \<Rightarrow>
    (bool \<times> u32 list \<times> real) option" where
  "InvertedIndex_isValidTermPositionHit = ForwardIndex_isValidRecordTermHit"

section \<open>The records a read view represents\<close>

text \<open>A live record by its keyword ids, the attributes and the scores of its keywords.\<close>

type_synonym record_content = "u32 list \<times> u32 list list \<times> (nat \<Rightarrow> real)"

definition represents :: "(u16 \<Rightarrow> real) \<Rightarrow> ForwardListPtr list \<Rightarrow> (u32 \<Rightarrow> record_content option) \<Rightarrow> bool" where
  "represents halfToFloat readView contents \<longleftrightarrow> length readView \<le> 2 ^ 32 \<and>
    (\<forall>rid. case contents rid of
       None \<Rightarrow> \<not> snd (getForwardList readView rid)
     | Some (ids, attrss, sc) \<Rightarrow> \<exists>fl. getForwardList readView rid = (Some fl, True)
         \<and> holds_keywords halfToFloat ids attrss sc fl \<and> distinct ids \<and> length ids < 2 ^ 32 - 1)"

text \<open>A keyword id of a record in a set that the filter on attributes admits.\<close>

definition hasKeyword ::
  "(u32 \<Rightarrow> record_content option) \<Rightarrow> u32 set \<Rightarrow> u32 list \<Rightarrow> ATTRIBUTES_OP \<Rightarrow> u32 \<Rightarrow> bool" where
  "hasKeyword contents keywords filt attrOp rid \<longleftrightarrow>
    (\<exists>ids attrss sc k. contents rid = Some (ids, attrss, sc) \<and> k < length ids \<and> ids ! k \<in> keywords
      \<and> admits attrOp filt (attrss ! k))"

definition filterOk :: "PositionIndexType \<Rightarrow> u32 list \<Rightarrow> bool" where
  "filterOk positionIndexType filt \<longleftrightarrow> isEnabledAttributeBasedSearch positionIndexType \<and> filt \<noteq> [] \<and> sorted_wrt (<) filt"

lemma representsD:
  assumes "represents halfToFloat readView contents"
  shows "contents rid = None \<Longrightarrow> \<not> snd (getForwardList readView rid)"
    "contents rid = Some (ids, attrss, sc) \<Longrightarrow>
      \<exists>fl. getForwardList readView rid = (Some fl, True) \<and> holds_keywords halfToFloat ids attrss sc fl \<and> distinct ids \<and> length ids < 2 ^ 32 - 1"
  using assms unfolding represents_def by (auto dest: spec [of _ rid])

lemma getForwardList_live: "snd (getForwardList readView rid) \<Longrightarrow> unat rid < length readView"
  by (simp add: getForwardList_def split: if_splits)

lemma haveWordInRange_represents:
  assumes "represents halfToFloat readView contents" "filterOk t filt" "minId \<le> maxId" "unat rid < length readView"
  shows "\<exists>r. ForwardIndex_haveWordInRange halfToFloat t readView rid minId maxId filt attrOp = Some r
    \<and> (r \<noteq> None \<longleftrightarrow> hasKeyword contents {minId..maxId} filt attrOp rid)"
proof (cases "contents rid")
  case None
  then show ?thesis using representsD(1) [OF assms(1) None] assms(3,4)
    by (auto simp: ForwardIndex_haveWordInRange_def hasKeyword_def split: prod.splits)
next
  case (Some c)
  obtain ids attrss sc where c: "c = (ids, attrss, sc)" by (cases c) auto
  then obtain fl where fl: "getForwardList readView rid = (Some fl, True)" "holds_keywords halfToFloat ids attrss sc fl"
    using representsD(2) [OF assms(1), of rid] Some by blast
  obtain r where r: "haveWordInRange halfToFloat t fl minId maxId filt attrOp = Some r"
    "case r of None \<Rightarrow> \<forall>k < length ids. ids ! k \<in> {minId..maxId} \<longrightarrow> \<not> admits attrOp filt (attrss ! k)
      | Some (keywordId, attributes, score) \<Rightarrow> \<exists>k < length ids. keywordId = ids ! k \<and> keywordId \<in> {minId..maxId}
        \<and> admits attrOp filt (attrss ! k) \<and> attributes = reported attrOp filt (attrss ! k) \<and> score = sc k
        \<and> (\<forall>j < k. minId \<le> ids ! j \<longrightarrow> \<not> admits attrOp filt (attrss ! j))"
    using haveWordInRange_spec [OF fl(2), of t filt minId maxId attrOp] assms(2) by (auto simp: filterOk_def)
  have "r \<noteq> None \<longleftrightarrow> hasKeyword contents {minId..maxId} filt attrOp rid"
    using r(2) Some c by (cases r) (auto simp: hasKeyword_def)
  then show ?thesis using r(1) fl(1) assms(3,4) by (simp add: ForwardIndex_haveWordInRange_def)
qed

lemma termHit_represents:
  assumes "represents halfToFloat readView contents" "filterOk t filt"
    "contents rid = Some (ids, attrss, sc)" "keywordId \<in> set ids"
  shows "\<exists>off. ForwardIndex_getKeywordOffset readView rid keywordId = Some off \<and> off \<noteq> FORWARDLIST_NOTVALID
    \<and> ForwardIndex_isValidRecordTermHit halfToFloat t readView rid off filt attrOp matched
      = Some (admits attrOp filt (attrss ! unat off), reported attrOp filt (attrss ! unat off), sc (unat off))
    \<and> unat off < length ids \<and> ids ! unat off = keywordId"
proof -
  obtain fl where fl: "getForwardList readView rid = (Some fl, True)" "holds_keywords halfToFloat ids attrss sc fl"
      "length ids < 2 ^ 32 - 1"
    using representsD(2) [OF assms(1,3)] by blast
  have ids: "getKeywordIds fl = Some ids" "sorted ids" using fl(2) by (auto simp: holds_keywords_def)
  let ?k = "lowerBound ids keywordId"
  note k = lowerBound_hit [OF ids(2) assms(4)]
  have u: "unat (of_nat ?k :: u32) = ?k" using k(1) fl(3) by (simp add: unat_of_nat)
  have "unat (- 1 :: u32) = 2 ^ 32 - 1" by (simp add: unsigned_minus_1_eq_mask mask_eq_exp_minus_1)
  then have "(of_nat ?k :: u32) \<noteq> - 1" using u k(1) fl(3) by force
  then show ?thesis
    using fl(1) ids(1) k u holds_keywords_hit [OF fl(2) k(1), of t filt attrOp matched] assms(2)
    by (auto simp: ForwardIndex_getKeywordOffset_def ForwardIndex_isValidRecordTermHit_def getKeywordOffset_def
        FORWARDLIST_NOTVALID_def filterOk_def)
qed

lemma termHit_deleted:
  assumes "represents halfToFloat readView contents" "contents rid = None"
  shows "ForwardIndex_getKeywordOffset readView rid keywordId = Some FORWARDLIST_NOTVALID"
  using representsD(1) [OF assms] by (cases "getForwardList readView rid") (simp add: ForwardIndex_getKeywordOffset_def)

end
