(* ===== verification/Random_Access.thy ===== *)
theory Random_Access
  imports Record_Stream Ranking Forward_List
begin

text \<open>
  Verification of a record by random access: the helpers of
  \<^verbatim>\<open>src/src/core/operation/physical_plan/PhysicalOperatorsHelper.cpp\<close> and the operators
  \<^verbatim>\<open>RandomAccessVerificationTermOperator\<close>, \<^verbatim>\<open>...And...\<close>, \<^verbatim>\<open>...Or...\<close>, \<^verbatim>\<open>...Not...\<close> and
  \<^verbatim>\<open>...Geo...\<close>. The out-parameters are a record that the calls thread; its scores are uninitialised
  when it is created, which the constructor's argument \<open>mem\<close> stands for.
\<close>

section \<open>Parameters and leaves\<close>

record VerificationParameters =
  v_geoFlag :: bool
  runTimeTermRecordScore :: real
  staticTermRecordScore :: real
  geoScore :: real
  termRecordMatchingPrefixes :: "nat list"
  v_attributeIdsList :: "u32 list list"
  prefixEditDistances :: "u32 list"
  v_positionIndexOffsets :: "u32 list"
  v_termTypes :: "TermType list"
  recordToVerify :: u32
  prefixMatchPenalty :: real

definition newParameters :: "VerificationParameters \<Rightarrow> u32 \<Rightarrow> real \<Rightarrow> VerificationParameters" where
  "newParameters mem rid penalty = mem\<lparr>v_geoFlag := False, termRecordMatchingPrefixes := [],
     v_attributeIdsList := [], prefixEditDistances := [], v_positionIndexOffsets := [], v_termTypes := [],
     recordToVerify := rid, prefixMatchPenalty := penalty\<rparr>"

record TrieNode =
  nodeId :: nat
  minId :: u32
  maxId :: u32
  isTerminalNode :: bool
  invertedListOffset :: u32

record QueryTerm =
  termType :: TermType
  keywordSize :: nat
  similarityBoost :: real
  boost :: real
  attributesToFilter :: "u32 list"
  filterAttrOperation :: ATTRIBUTES_OP

text \<open>\<open>haveWordInRange\<close> of the index for a record id, a range of keyword ids and a filter.\<close>

type_synonym have_word =
  "u32 \<Rightarrow> u32 \<Rightarrow> u32 \<Rightarrow> u32 list \<Rightarrow> ATTRIBUTES_OP \<Rightarrow> (u32 \<times> u32 list \<times> real) option"

definition recordMatch ::
  "QueryTerm \<Rightarrow> TrieNode \<Rightarrow> u32 \<Rightarrow> u32 \<times> u32 list \<times> real \<Rightarrow> VerificationParameters \<Rightarrow> VerificationParameters" where
  "recordMatch term node distance hit p = (case hit of (matchingKeywordId, attributes, staticScore) \<Rightarrow>
     p\<lparr>termRecordMatchingPrefixes := termRecordMatchingPrefixes p @ [nodeId node],
       v_attributeIdsList := v_attributeIdsList p @ [attributes],
       prefixEditDistances := prefixEditDistances p @ [distance],
       runTimeTermRecordScore := computeTermRecordRuntimeScore staticScore (unat distance) (keywordSize term)
         (\<not> isTerminalNode node \<or> minId node \<noteq> matchingKeywordId) (prefixMatchPenalty p)
         (similarityBoost term * boost term),
       staticTermRecordScore := staticScore,
       v_termTypes := v_termTypes p @ [termType term]\<rparr>)"

text \<open>\<open>nodes\<close> is what the iterator over the active nodes of the term yields, leaf nodes only when the term
  is complete. \<open>None\<close>: the assertion on terminal nodes fails.\<close>

fun verifyByRandomAccessHelper ::
  "have_word \<Rightarrow> QueryTerm \<Rightarrow> (TrieNode \<times> u32) list \<Rightarrow> VerificationParameters \<Rightarrow>
    (bool \<times> VerificationParameters) option" where
  "verifyByRandomAccessHelper haveWord term [] p = Some (False, p)"
| "verifyByRandomAccessHelper haveWord term ((node, distance) # nodes) p =
    (if termType term = TERM_TYPE_COMPLETE \<and> \<not> isTerminalNode node then None
     else
       (case haveWord (recordToVerify p) (minId node)
               (if termType term = TERM_TYPE_COMPLETE then minId node else maxId node)
               (attributesToFilter term) (filterAttrOperation term) of
         Some hit \<Rightarrow> Some (True, recordMatch term node distance hit p)
       | None \<Rightarrow> verifyByRandomAccessHelper haveWord term nodes p))"

text \<open>A region of a geographical query: the test of a point and the score of a point.\<close>

record GeoShape =
  contains_point :: "real \<times> real \<Rightarrow> bool"
  scoreOf :: "real \<times> real \<Rightarrow> real"

text \<open>\<open>locate\<close> is the forward list lookup with the two coordinates, \<open>None\<close> for an invalid record.\<close>

definition verifyByRandomAccessGeoHelper ::
  "(u32 \<Rightarrow> (real \<times> real) option) \<Rightarrow> GeoShape \<Rightarrow> VerificationParameters \<Rightarrow> bool \<times> VerificationParameters" where
  "verifyByRandomAccessGeoHelper locate queryShape p =
    (case locate (recordToVerify p) of
      None \<Rightarrow> (False, p)
    | Some point \<Rightarrow>
        if contains_point queryShape point
        then (True, p\<lparr>v_geoFlag := True, geoScore := scoreOf queryShape point\<rparr>)
        else (False, p))"

section \<open>Operators\<close>

datatype RandomAccessNode =
  RandomAccessTerm QueryTerm "(TrieNode \<times> u32) list"
| RandomAccessAnd "RandomAccessNode list"
| RandomAccessOr "RandomAccessNode list"
| RandomAccessNot RandomAccessNode
| RandomAccessGeo GeoShape

text \<open>The children of a node are given by their \<open>verifyByRandomAccess\<close>. The loops carry the scores
  pushed so far.\<close>

type_synonym verifier = "VerificationParameters \<Rightarrow> (bool \<times> VerificationParameters) option"

fun andLoop :: "verifier list \<Rightarrow> real list \<Rightarrow> VerificationParameters \<Rightarrow>
    (bool \<times> real list \<times> VerificationParameters) option" where
  "andLoop [] runtimeScore p = Some (True, runtimeScore, p)"
| "andLoop (verify # children) runtimeScore p = do {
     (resultOfThisChild, p) \<leftarrow> verify p;
     let runtimeScore = runtimeScore @ [runTimeTermRecordScore p];
     if resultOfThisChild then andLoop children runtimeScore p else Some (False, runtimeScore, p)
   }"

definition verifyByRandomAccessAndHelper :: "verifier list \<Rightarrow> verifier" where
  "verifyByRandomAccessAndHelper children p = do {
     (verified, runtimeScore, p) \<leftarrow> andLoop children [] p;
     if verified
     then Some (True, p\<lparr>runTimeTermRecordScore := computeAggregatedRuntimeScoreForAnd runtimeScore\<rparr>)
     else Some (False, p)
   }"

fun orLoop :: "verifier list \<Rightarrow> bool \<Rightarrow> real list \<Rightarrow> VerificationParameters \<Rightarrow>
    (bool \<times> real list \<times> VerificationParameters) option" where
  "orLoop [] verified runtimeScore p = Some (verified, runtimeScore, p)"
| "orLoop (verify # children) verified runtimeScore p = do {
     (resultOfThisChild, p) \<leftarrow> verify p;
     orLoop children (verified \<or> resultOfThisChild) (runtimeScore @ [runTimeTermRecordScore p]) p
   }"

definition verifyByRandomAccessOrHelper :: "verifier list \<Rightarrow> verifier" where
  "verifyByRandomAccessOrHelper children p = do {
     (verified, runtimeScore, p) \<leftarrow> orLoop children False [] p;
     if verified
     then Some (True, p\<lparr>runTimeTermRecordScore := computeAggregatedRuntimeScoreForOr runtimeScore\<rparr>)
     else Some (False, p)
   }"

text \<open>All lists but the term types are cleared.\<close>

definition verifyByRandomAccessNot :: "verifier \<Rightarrow> verifier" where
  "verifyByRandomAccessNot child p = do {
     (resultFromChild, p) \<leftarrow> child p;
     if resultFromChild then Some (False, p)
     else Some (True, p\<lparr>v_attributeIdsList := [], v_positionIndexOffsets := [], prefixEditDistances := [],
       termRecordMatchingPrefixes := [], runTimeTermRecordScore := 0, staticTermRecordScore := 0\<rparr>)
   }"

fun verifyByRandomAccess :: "have_word \<Rightarrow> (u32 \<Rightarrow> (real \<times> real) option) \<Rightarrow> RandomAccessNode \<Rightarrow> verifier" where
  "verifyByRandomAccess haveWord locate (RandomAccessTerm term nodes) p =
     verifyByRandomAccessHelper haveWord term nodes p"
| "verifyByRandomAccess haveWord locate (RandomAccessAnd children) p =
     verifyByRandomAccessAndHelper (map (verifyByRandomAccess haveWord locate) children) p"
| "verifyByRandomAccess haveWord locate (RandomAccessOr children) p =
     verifyByRandomAccessOrHelper (map (verifyByRandomAccess haveWord locate) children) p"
| "verifyByRandomAccess haveWord locate (RandomAccessNot child) p =
     verifyByRandomAccessNot (verifyByRandomAccess haveWord locate child) p"
| "verifyByRandomAccess haveWord locate (RandomAccessGeo queryShape) p =
     Some (verifyByRandomAccessGeoHelper locate queryShape p)"

section \<open>The boolean meaning\<close>

definition matchesTerm :: "have_word \<Rightarrow> QueryTerm \<Rightarrow> (TrieNode \<times> u32) list \<Rightarrow> u32 \<Rightarrow> bool" where
  "matchesTerm haveWord term nodes rid \<longleftrightarrow> (\<exists>(node, distance) \<in> set nodes.
     haveWord rid (minId node) (if termType term = TERM_TYPE_COMPLETE then minId node else maxId node)
       (attributesToFilter term) (filterAttrOperation term) \<noteq> None)"

fun holds :: "have_word \<Rightarrow> (u32 \<Rightarrow> (real \<times> real) option) \<Rightarrow> RandomAccessNode \<Rightarrow> u32 \<Rightarrow> bool" where
  "holds haveWord locate (RandomAccessTerm term nodes) rid \<longleftrightarrow> matchesTerm haveWord term nodes rid"
| "holds haveWord locate (RandomAccessAnd children) rid \<longleftrightarrow> (\<forall>c \<in> set children. holds haveWord locate c rid)"
| "holds haveWord locate (RandomAccessOr children) rid \<longleftrightarrow> (\<exists>c \<in> set children. holds haveWord locate c rid)"
| "holds haveWord locate (RandomAccessNot child) rid \<longleftrightarrow> \<not> holds haveWord locate child rid"
| "holds haveWord locate (RandomAccessGeo queryShape) rid \<longleftrightarrow>
     (\<exists>point. locate rid = Some point \<and> contains_point queryShape point)"

text \<open>The leaves of complete terms have terminal nodes only, as their iterator promises.\<close>

fun leavesOk :: "RandomAccessNode \<Rightarrow> bool" where
  "leavesOk (RandomAccessTerm term nodes) \<longleftrightarrow>
     (termType term = TERM_TYPE_COMPLETE \<longrightarrow> (\<forall>(node, distance) \<in> set nodes. isTerminalNode node))"
| "leavesOk (RandomAccessAnd children) \<longleftrightarrow> (\<forall>c \<in> set children. leavesOk c)"
| "leavesOk (RandomAccessOr children) \<longleftrightarrow> (\<forall>c \<in> set children. leavesOk c)"
| "leavesOk (RandomAccessNot child) \<longleftrightarrow> leavesOk child"
| "leavesOk (RandomAccessGeo queryShape) \<longleftrightarrow> True"

text \<open>A verifier decides a property of the record id and keeps the id in the parameters.\<close>

locale decides =
  fixes verify :: "VerificationParameters \<Rightarrow> (bool \<times> VerificationParameters) option"
    and meaning :: "u32 \<Rightarrow> bool"
  assumes verify_meaning: "\<exists>q. verify p = Some (meaning (recordToVerify p), q) \<and> recordToVerify q = recordToVerify p"

interpretation geoLeaf: decides "verifyByRandomAccess haveWord locate (RandomAccessGeo queryShape)"
  "holds haveWord locate (RandomAccessGeo queryShape)" for haveWord locate queryShape
  by standard (auto simp: verifyByRandomAccessGeoHelper_def split: option.splits)

lemma matchesTerm_simps [simp]:
  "\<not> matchesTerm haveWord t [] rid"
  "matchesTerm haveWord t ((node, d) # nodes) rid \<longleftrightarrow>
     haveWord rid (minId node) (if termType t = TERM_TYPE_COMPLETE then minId node else maxId node)
       (attributesToFilter t) (filterAttrOperation t) \<noteq> None \<or> matchesTerm haveWord t nodes rid"
  by (simp_all add: matchesTerm_def)

lemma recordToVerify_recordMatch [simp]: "recordToVerify (recordMatch t node d hit p) = recordToVerify p"
  by (simp add: recordMatch_def split: prod.splits)

lemma decides_term:
  assumes "leavesOk (RandomAccessTerm t nodes)"
  shows "decides (verifyByRandomAccessHelper haveWord t nodes) (matchesTerm haveWord t nodes)"
proof
  fix p show "\<exists>q. verifyByRandomAccessHelper haveWord t nodes p = Some (matchesTerm haveWord t nodes (recordToVerify p), q)
    \<and> recordToVerify q = recordToVerify p"
    using assms by (induction haveWord t nodes p rule: verifyByRandomAccessHelper.induct) (auto split: option.splits)
qed

lemma andLoop_decides:
  assumes "list_all2 decides vs ms"
  shows "\<exists>scores' q. andLoop vs scores p = Some (\<forall>m \<in> set ms. m (recordToVerify p), scores', q)
    \<and> recordToVerify q = recordToVerify p"
  using assms
proof (induction arbitrary: scores p rule: list_all2_induct)
  case (Cons v vs m ms)
  obtain q where "v p = Some (m (recordToVerify p), q)" "recordToVerify q = recordToVerify p"
    using decides.verify_meaning [OF Cons.hyps(1)] by blast
  then show ?case using Cons.IH [of "scores @ [runTimeTermRecordScore q]" q] by (auto simp: Let_def)
qed simp

lemma orLoop_decides:
  assumes "list_all2 decides vs ms"
  shows "\<exists>scores' q. orLoop vs b scores p = Some (b \<or> (\<exists>m \<in> set ms. m (recordToVerify p)), scores', q)
    \<and> recordToVerify q = recordToVerify p"
  using assms
proof (induction arbitrary: b scores p rule: list_all2_induct)
  case (Cons v vs m ms)
  obtain q where "v p = Some (m (recordToVerify p), q)" "recordToVerify q = recordToVerify p"
    using decides.verify_meaning [OF Cons.hyps(1)] by blast
  then show ?case
    using Cons.IH [of "b \<or> m (recordToVerify p)" "scores @ [runTimeTermRecordScore q]" q] by (auto simp: disj_assoc)
qed simp

lemma decides_and:
  assumes "list_all2 decides vs ms"
  shows "decides (verifyByRandomAccessAndHelper vs) (\<lambda>rid. \<forall>m \<in> set ms. m rid)"
proof
  fix p show "\<exists>q. verifyByRandomAccessAndHelper vs p = Some (\<forall>m \<in> set ms. m (recordToVerify p), q)
    \<and> recordToVerify q = recordToVerify p"
    using andLoop_decides [OF assms, of "[]" p] by (auto simp: verifyByRandomAccessAndHelper_def)
qed

lemma decides_or:
  assumes "list_all2 decides vs ms"
  shows "decides (verifyByRandomAccessOrHelper vs) (\<lambda>rid. \<exists>m \<in> set ms. m rid)"
proof
  fix p show "\<exists>q. verifyByRandomAccessOrHelper vs p = Some (\<exists>m \<in> set ms. m (recordToVerify p), q)
    \<and> recordToVerify q = recordToVerify p"
    using orLoop_decides [OF assms, of False "[]" p] by (auto simp: verifyByRandomAccessOrHelper_def)
qed

lemma decides_tree: "leavesOk node \<Longrightarrow> decides (verifyByRandomAccess haveWord locate node) (holds haveWord locate node)"
proof (induction node)
  case (RandomAccessTerm t nodes)
  then show ?case using decides_term [of t nodes haveWord] by (simp add: decides_def)
next
  case (RandomAccessAnd children)
  then have "list_all2 decides (map (verifyByRandomAccess haveWord locate) children) (map (holds haveWord locate) children)"
    by (auto simp: list_all2_conv_all_nth)
  from decides_and [OF this] show ?case by (simp add: decides_def)
next
  case (RandomAccessOr children)
  then have "list_all2 decides (map (verifyByRandomAccess haveWord locate) children) (map (holds haveWord locate) children)"
    by (auto simp: list_all2_conv_all_nth)
  from decides_or [OF this] show ?case by (simp add: decides_def)
next
  case (RandomAccessNot child)
  then have d: "decides (verifyByRandomAccess haveWord locate child) (holds haveWord locate child)" by simp
  show ?case
  proof
    fix p
    obtain q where "verifyByRandomAccess haveWord locate child p = Some (holds haveWord locate child (recordToVerify p), q)"
      "recordToVerify q = recordToVerify p" using decides.verify_meaning [OF d] by blast
    then show "\<exists>q. verifyByRandomAccess haveWord locate (RandomAccessNot child) p
        = Some (holds haveWord locate (RandomAccessNot child) (recordToVerify p), q) \<and> recordToVerify q = recordToVerify p"
      by (simp add: verifyByRandomAccessNot_def)
  qed
next
  case (RandomAccessGeo shape)
  show ?case by (rule geoLeaf.decides_axioms)
qed


text \<open>
  C24. Whatever the uninitialised parameters hold, \<open>verifyByRandomAccess\<close> of a tree of random access
  operators returns, and accepts the record exactly when the boolean query of the tree holds of it: a term
  when one of its active nodes has a keyword of the record in its range, a region when it contains the
  location of the record.
\<close>

theorem verifyByRandomAccess_decides:
  assumes "leavesOk node"
  shows "\<exists>q. verifyByRandomAccess haveWord locate node p = Some (holds haveWord locate node (recordToVerify p), q)
    \<and> recordToVerify q = recordToVerify p"
  using decides.verify_meaning [OF decides_tree [OF assms]] .

definition sampleTerm :: "TermType \<Rightarrow> QueryTerm" where
  "sampleTerm ty = \<lparr>termType = ty, keywordSize = 4, similarityBoost = 1, boost = 1,
     attributesToFilter = [], filterAttrOperation = ATTRIBUTES_OP_OR\<rparr>"

definition sampleNode :: "u32 \<Rightarrow> u32 \<Rightarrow> TrieNode" where
  "sampleNode lo hi = \<lparr>nodeId = unat lo, minId = lo, maxId = hi, isTerminalNode = True, invertedListOffset = lo\<rparr>"

text \<open>An index with one record, number 7, whose only keyword is number 3.\<close>

definition sampleHaveWord :: have_word where
  "sampleHaveWord rid lo hi filterAttributes operation =
     (if rid = 7 \<and> lo \<le> 3 \<and> 3 \<le> hi then Some (3, [], 1) else None)"

definition samplePrefix :: "u32 \<Rightarrow> u32 \<Rightarrow> RandomAccessNode" where
  "samplePrefix lo hi = RandomAccessTerm (sampleTerm TERM_TYPE_PREFIX) [(sampleNode lo hi, 0)]"

lemmas sample_defs = sampleTerm_def sampleNode_def sampleHaveWord_def samplePrefix_def

theorem verifyByRandomAccess_decides_witness:
  "\<exists>q. verifyByRandomAccess sampleHaveWord (\<lambda>_. None)
      (RandomAccessAnd [samplePrefix 2 5, RandomAccessNot (samplePrefix 4 9)]) (undefined\<lparr>recordToVerify := 7\<rparr>)
    = Some (True, q) \<and> recordToVerify q = 7"
  using verifyByRandomAccess_decides [of "RandomAccessAnd [samplePrefix 2 5, RandomAccessNot (samplePrefix 4 9)]"
      sampleHaveWord "\<lambda>_. None" "undefined\<lparr>recordToVerify := 7\<rparr>"]
  by (simp add: sample_defs)

section \<open>The matches that are collected\<close>

text \<open>One entry per matching term in each of the four lists that describe the matches.\<close>

definition aligned :: "VerificationParameters \<Rightarrow> bool" where
  "aligned p \<longleftrightarrow> length (v_attributeIdsList p) = length (termRecordMatchingPrefixes p)
    \<and> length (prefixEditDistances p) = length (termRecordMatchingPrefixes p)
    \<and> length (v_termTypes p) = length (termRecordMatchingPrefixes p)"

definition preserves :: "(VerificationParameters \<Rightarrow> bool) \<Rightarrow> verifier \<Rightarrow> bool" where
  "preserves I v \<longleftrightarrow> (\<forall>p b q. I p \<longrightarrow> v p = Some (b, q) \<longrightarrow> I q)"

fun negationFree :: "RandomAccessNode \<Rightarrow> bool" where
  "negationFree (RandomAccessAnd children) \<longleftrightarrow> (\<forall>c \<in> set children. negationFree c)"
| "negationFree (RandomAccessOr children) \<longleftrightarrow> (\<forall>c \<in> set children. negationFree c)"
| "negationFree (RandomAccessNot child) \<longleftrightarrow> False"
| "negationFree node \<longleftrightarrow> True"

lemma preservesD: "preserves I v \<Longrightarrow> I p \<Longrightarrow> v p = Some (b, q) \<Longrightarrow> I q"
  unfolding preserves_def by blast

lemma andLoop_preserves:
  "\<forall>v \<in> set vs. preserves I v \<Longrightarrow> I p \<Longrightarrow> andLoop vs scores p = Some (b, scores', q) \<Longrightarrow> I q"
proof (induction vs arbitrary: scores p)
  case (Cons v vs)
  obtain c r where r: "v p = Some (c, r)" using Cons.prems(3) by (cases "v p") auto
  then have "I r" using Cons.prems(1,2) preservesD [of I v p c r] by simp
  then show ?case using Cons.IH [of r] Cons.prems(1,3) r by (cases c) (auto simp: Let_def)
qed simp

lemma orLoop_preserves:
  "\<forall>v \<in> set vs. preserves I v \<Longrightarrow> I p \<Longrightarrow> orLoop vs verified scores p = Some (b, scores', q) \<Longrightarrow> I q"
proof (induction vs arbitrary: verified scores p)
  case (Cons v vs)
  obtain c r where r: "v p = Some (c, r)" using Cons.prems(3) by (cases "v p") auto
  then have "I r" using Cons.prems(1,2) preservesD [of I v p c r] by simp
  then show ?case using Cons.IH [of r] Cons.prems(1,3) r by auto
qed simp

lemma aligned_score [simp]:
  "aligned (p\<lparr>runTimeTermRecordScore := x\<rparr>) = aligned p" "aligned (p\<lparr>v_geoFlag := g, geoScore := x\<rparr>) = aligned p"
  by (simp_all add: aligned_def)

lemma aligned_recordMatch [simp]: "aligned (recordMatch t node d hit p) = aligned p"
  by (simp add: aligned_def recordMatch_def split: prod.splits)

lemma verifyByRandomAccessHelper_outcome:
  "verifyByRandomAccessHelper haveWord t nodes p = Some (b, q) \<Longrightarrow>
    (b \<longrightarrow> (\<exists>node d hit. q = recordMatch t node d hit p)) \<and> (\<not> b \<longrightarrow> q = p)"
proof (induction haveWord t nodes p rule: verifyByRandomAccessHelper.induct)
  case (2 haveWord t node d nodes p)
  let ?hit = "haveWord (recordToVerify p) (minId node)
    (if termType t = TERM_TYPE_COMPLETE then minId node else maxId node) (attributesToFilter t) (filterAttrOperation t)"
  show ?case
  proof (cases ?hit)
    case None
    with 2 show ?thesis by (simp split: if_splits)
  next
    case (Some hit)
    with 2 have "b" "q = recordMatch t node d hit p" by (simp_all split: if_splits)
    then show ?thesis by blast
  qed
qed simp

lemma verifyByRandomAccessHelper_preserves:
  "aligned p \<Longrightarrow> verifyByRandomAccessHelper haveWord t nodes p = Some (b, q) \<Longrightarrow> aligned q"
  using verifyByRandomAccessHelper_outcome [of haveWord t nodes p b q] by (cases b) auto

lemma tree_preserves: "negationFree node \<Longrightarrow> preserves aligned (verifyByRandomAccess haveWord locate node)"
proof (induction node)
  case (RandomAccessTerm t nodes)
  then show ?case using verifyByRandomAccessHelper_preserves by (simp add: preserves_def)
next
  case (RandomAccessAnd children)
  then have c: "\<forall>v \<in> set (map (verifyByRandomAccess haveWord locate) children). preserves aligned v" by auto
  show ?case unfolding preserves_def
    by (auto simp: verifyByRandomAccessAndHelper_def bind_eq_Some_conv split: if_splits
        dest: andLoop_preserves [OF c, rotated])
next
  case (RandomAccessOr children)
  then have c: "\<forall>v \<in> set (map (verifyByRandomAccess haveWord locate) children). preserves aligned v" by auto
  show ?case unfolding preserves_def
    by (auto simp: verifyByRandomAccessOrHelper_def bind_eq_Some_conv split: if_splits
        dest: orLoop_preserves [OF c, rotated])
next
  case (RandomAccessGeo shape)
  show ?case
    by (auto simp: preserves_def verifyByRandomAccessGeoHelper_def split: option.splits if_splits)
qed simp

text \<open>
  C35. Verification with a tree without negations adds one entry per match to the matching prefixes, the
  attribute lists, the edit distances and the term types, so that the four lists stay aligned.
\<close>

theorem matches_stay_aligned:
  assumes "negationFree node" "aligned p" "verifyByRandomAccess haveWord locate node p = Some (b, q)"
  shows "aligned q"
  using tree_preserves [OF assms(1)] assms(2,3) unfolding preserves_def by blast

theorem matches_stay_aligned_witness:
  "\<exists>q. verifyByRandomAccess sampleHaveWord (\<lambda>_. None) (RandomAccessOr [samplePrefix 2 5, samplePrefix 3 3])
      (newParameters undefined 7 1) = Some (True, q) \<and> aligned q"
proof -
  obtain q where q: "verifyByRandomAccess sampleHaveWord (\<lambda>_. None) (RandomAccessOr [samplePrefix 2 5, samplePrefix 3 3])
      (newParameters undefined 7 1) = Some (True, q)"
    by (simp add: sample_defs verifyByRandomAccessOrHelper_def newParameters_def)
  have "aligned q"
    by (rule matches_stay_aligned [OF _ _ q]) (simp_all add: sample_defs aligned_def newParameters_def)
  with q show ?thesis by blast
qed

text \<open>
  A negation breaks the alignment: after a conjunction of a matching term and of the negation of a term
  that does not match, the matching prefixes and edit distances are gone and the types of the matching
  term are still there, since \<open>termTypes\<close> is not among the lists the operator clears.
\<close>

theorem negation_misaligns:
  assumes "leavesOk (RandomAccessTerm t nodes)" "leavesOk (RandomAccessTerm u others)"
    "matchesTerm haveWord t nodes rid" "\<not> matchesTerm haveWord u others rid"
  shows "\<exists>q. verifyByRandomAccess haveWord locate
      (RandomAccessAnd [RandomAccessTerm t nodes, RandomAccessNot (RandomAccessTerm u others)])
      (newParameters mem rid penalty) = Some (True, q)
    \<and> v_termTypes q = [termType t] \<and> termRecordMatchingPrefixes q = [] \<and> prefixEditDistances q = []"
proof -
  let ?p = "newParameters mem rid penalty"
  have rid: "recordToVerify ?p = rid" by (simp add: newParameters_def)
  obtain q where q: "verifyByRandomAccessHelper haveWord t nodes ?p = Some (True, q)" "recordToVerify q = rid"
    using decides.verify_meaning [OF decides_term [OF assms(1)], of haveWord ?p] assms(3) rid by auto
  then obtain node d hit where hit: "q = recordMatch t node d hit ?p"
    using verifyByRandomAccessHelper_outcome [OF q(1)] by auto
  obtain r where r: "verifyByRandomAccessHelper haveWord u others q = Some (False, r)"
    using decides.verify_meaning [OF decides_term [OF assms(2)], of haveWord q] assms(4) q(2) by auto
  then have "r = q" using verifyByRandomAccessHelper_outcome [OF r] by simp
  then show ?thesis using q(1) r
    by (simp add: verifyByRandomAccessAndHelper_def verifyByRandomAccessNot_def Let_def)
      (simp add: hit recordMatch_def newParameters_def split: prod.splits)
qed

theorem negation_misaligns_witness:
  "\<exists>q. verifyByRandomAccess sampleHaveWord (\<lambda>_. None)
      (RandomAccessAnd [samplePrefix 2 5, RandomAccessNot (samplePrefix 4 9)]) (newParameters undefined 7 1) = Some (True, q)
    \<and> v_termTypes q = [TERM_TYPE_PREFIX] \<and> termRecordMatchingPrefixes q = [] \<and> prefixEditDistances q = []"
  using negation_misaligns [of "sampleTerm TERM_TYPE_PREFIX" "[(sampleNode 2 5, 0)]" "sampleTerm TERM_TYPE_PREFIX"
      "[(sampleNode 4 9, 0)]" sampleHaveWord 7 "\<lambda>_. None" undefined 1]
  by (simp add: sample_defs)

text \<open>
  C36. The score of a disjunction is the maximum over all its children, also of those that refused the record:
  a first child that refuses contributes what the parameters held before the call, which the caller
  has not initialised.
\<close>

theorem or_takes_stale_score:
  assumes "v p = Some (False, p)" "w p = Some (True, q)"
  shows "verifyByRandomAccessOrHelper [v, w] p
    = Some (True, q\<lparr>runTimeTermRecordScore := max (-1) (max (runTimeTermRecordScore p) (runTimeTermRecordScore q))\<rparr>)"
  using assms by (simp add: verifyByRandomAccessOrHelper_def computeAggregatedRuntimeScoreForOr_def max_def)

theorem or_takes_stale_score_witness:
  "map_option (runTimeTermRecordScore \<circ> snd) (verifyByRandomAccessOrHelper
      [verifyByRandomAccess sampleHaveWord (\<lambda>_. None) (samplePrefix 4 9),
       verifyByRandomAccess sampleHaveWord (\<lambda>_. None) (samplePrefix 3 3)]
      (newParameters (undefined\<lparr>runTimeTermRecordScore := 1000\<rparr>) 7 1)) = Some 1000"
  by (subst or_takes_stale_score
      [where q = "recordMatch (sampleTerm TERM_TYPE_PREFIX) (sampleNode 3 3) 0 (3, [], 1)
          (newParameters (undefined\<lparr>runTimeTermRecordScore := 1000\<rparr>) 7 1)"])
    (simp_all add: sample_defs newParameters_def recordMatch_def computeTermRecordRuntimeScore_def)

end
