(* ===== verification/Simple_Scan.thy ===== *)
theory Simple_Scan
  imports Random_Access Forward_Index
begin

text \<open>
  The scan of the inverted lists of a term,
  \<^verbatim>\<open>src/src/core/operation/physical_plan/UnionLowestLevelSimpleScanOperator.cpp\<close>. The five vectors of the
  operator, which are filled and cleared together, are one list of entries. The inverted index, the
  lookup of a keyword in a record and the test of a hit are arguments; so is \<open>mem\<close>, the content of a
  fresh record item. The operator is a record stream, and its cache entry resumes it.
\<close>

section \<open>The operator\<close>

record InvertedListEntry =
  invertedList :: "u32 list"
  listPrefix :: TrieNode
  listLeafNode :: TrieNode
  listDistance :: u32
  invertedListID :: u32

record SimpleScanOperator =
  invertedLists :: "InvertedListEntry list"
  listOffset :: nat
  cursorOnInvertedList :: nat
  parentIsCacheEnabled :: bool

record SimpleScanCacheEntry =
  e_invertedListOffset :: nat
  e_cursorOnInvertedList :: nat

definition SimpleScan_new :: SimpleScanOperator where
  "SimpleScan_new = \<lparr>invertedLists = [], listOffset = 0, cursorOnInvertedList = 0, parentIsCacheEnabled = False\<rparr>"

text \<open>\<open>leaves\<close> is what the iterator over the leaf nodes yields: the prefix node, the leaf node and the edit
  distance. For a complete term the two nodes are the same.\<close>

fun collectLists ::
  "(u32 \<Rightarrow> u32 list) \<Rightarrow> (TrieNode \<times> TrieNode \<times> u32) list \<Rightarrow> InvertedListEntry list \<Rightarrow> InvertedListEntry list" where
  "collectLists getInvertedListReadView [] entries = entries"
| "collectLists getInvertedListReadView ((prefixNode, leafNode, distance) # leaves) entries =
    (let invertedListReadView = getInvertedListReadView (invertedListOffset leafNode)
     in if invertedListReadView = [] then collectLists getInvertedListReadView leaves entries
        else collectLists getInvertedListReadView leaves (entries @ [\<lparr>invertedList = invertedListReadView,
          listPrefix = prefixNode, listLeafNode = leafNode, listDistance = distance,
          invertedListID = invertedListOffset leafNode\<rparr>]))"

text \<open>\<open>cacheObject\<close> is the cache entry that the parent hands down, when it enables the cache.\<close>

definition SimpleScan_open ::
  "(u32 \<Rightarrow> u32 list) \<Rightarrow> (TrieNode \<times> TrieNode \<times> u32) list \<Rightarrow> bool \<Rightarrow> SimpleScanCacheEntry option \<Rightarrow>
    SimpleScanOperator \<Rightarrow> SimpleScanOperator" where
  "SimpleScan_open getInvertedListReadView leaves enabled cacheObject s =
    (let s = s\<lparr>invertedLists := collectLists getInvertedListReadView leaves (invertedLists s)\<rparr>
     in case cacheObject of
          None \<Rightarrow> s\<lparr>listOffset := 0, cursorOnInvertedList := 0\<rparr>
        | Some cacheEntry \<Rightarrow>
            if \<not> enabled then s\<lparr>listOffset := 0, cursorOnInvertedList := 0\<rparr>
            else s\<lparr>listOffset := e_invertedListOffset cacheEntry,
                   cursorOnInvertedList := e_cursorOnInvertedList cacheEntry, parentIsCacheEnabled := True\<rparr>)"

text \<open>The test of a record of an inverted list with the matched attributes so far: whether the hit is
  valid, the matched attributes after the test and the static score.\<close>

type_synonym scan_hit = "u32 \<Rightarrow> u32 \<Rightarrow> u32 list \<Rightarrow> (bool \<times> u32 list \<times> real) option"

definition termPositionHit ::
  "(u32 \<Rightarrow> u32 \<Rightarrow> u32 option) \<Rightarrow>
    (u32 \<Rightarrow> u32 \<Rightarrow> u32 list \<Rightarrow> ATTRIBUTES_OP \<Rightarrow> u32 list \<Rightarrow> (bool \<times> u32 list \<times> real) option) \<Rightarrow>
    QueryTerm \<Rightarrow> scan_hit" where
  "termPositionHit getOffset isValidTermPositionHit t recordID listID matched = do {
     keywordOffset \<leftarrow> getOffset recordID listID;
     if keywordOffset \<noteq> FORWARDLIST_NOTVALID
     then isValidTermPositionHit recordID keywordOffset (attributesToFilter t) (filterAttrOperation t) matched
     else Some (False, matched, 0)
   }"

text \<open>The loop of \<open>getNext\<close>: the record of the next valid hit and the position where it was found.\<close>

partial_function (option) findHit ::
  "scan_hit \<Rightarrow> InvertedListEntry list \<Rightarrow> nat \<Rightarrow> nat \<Rightarrow> u32 list \<Rightarrow>
    ((u32 \<times> u32 list \<times> real) option \<times> nat \<times> nat) option" where
  "findHit hit entries i cursor matched = do {
     entry \<leftarrow> nth_opt entries i;
     recordID \<leftarrow> nth_opt (invertedList entry) cursor;
     (isHit, matched, staticScore) \<leftarrow> hit recordID (invertedListID entry) matched;
     if isHit then Some (Some (recordID, matched, staticScore), i, cursor)
     else if cursor + 1 < length (invertedList entry) then findHit hit entries i (cursor + 1) matched
     else if i + 1 < length entries then findHit hit entries (i + 1) 0 matched
     else Some (None, i + 1, 0)
   }"

declare findHit.simps [code]

definition scanItem ::
  "PhysicalPlanRecordItem \<Rightarrow> real \<Rightarrow> QueryTerm \<Rightarrow> InvertedListEntry \<Rightarrow> u32 \<times> u32 list \<times> real \<Rightarrow> PhysicalPlanRecordItem" where
  "scanItem mem penalty t entry hit = (case hit of (recordID, attributes, staticScore) \<Rightarrow>
    (RecordItem_new mem)\<lparr>recordId := recordID, editDistances := [listDistance entry],
      matchingPrefixes := [nodeId (listPrefix entry)],
      recordRuntimeScore := computeTermRecordRuntimeScore staticScore (unat (listDistance entry)) (keywordSize t)
        (nodeId (listPrefix entry) \<noteq> nodeId (listLeafNode entry)) penalty (similarityBoost t) * boost t,
      recordStaticScore := staticScore, attributeIdsList := [attributes],
      termTypes := [termType t]\<rparr>)"

definition SimpleScan_getNext ::
  "PhysicalPlanRecordItem \<Rightarrow> real \<Rightarrow> QueryTerm \<Rightarrow> scan_hit \<Rightarrow>
    (SimpleScanOperator, PhysicalPlanRecordItem) next_fun" where
  "SimpleScan_getNext mem penalty t hit s =
    (if listOffset s \<ge> length (invertedLists s) then Some (None, s)
     else do {
       entry \<leftarrow> nth_opt (invertedLists s) (listOffset s);
       if cursorOnInvertedList s < length (invertedList entry)
       then do {
         (found, i, cursor) \<leftarrow> findHit hit (invertedLists s) (listOffset s) (cursorOnInvertedList s) [];
         case found of
           None \<Rightarrow> Some (None, s\<lparr>listOffset := i, cursorOnInvertedList := cursor\<rparr>)
         | Some m \<Rightarrow> do {
             entry \<leftarrow> nth_opt (invertedLists s) i;
             let newItem = scanItem mem penalty t entry m;
             Some (Some newItem,
               if cursor + 1 \<ge> length (invertedList entry) then s\<lparr>listOffset := i + 1, cursorOnInvertedList := 0\<rparr>
               else s\<lparr>listOffset := i, cursorOnInvertedList := cursor + 1\<rparr>)
           }
       }
       else None
     })"

definition SimpleScan_close :: "SimpleScanOperator \<Rightarrow> SimpleScanCacheEntry option \<times> SimpleScanOperator" where
  "SimpleScan_close s =
    (if parentIsCacheEnabled s
     then Some \<lparr>e_invertedListOffset = listOffset s, e_cursorOnInvertedList = cursorOnInvertedList s\<rparr> else None,
     s\<lparr>invertedLists := [], cursorOnInvertedList := 0, listOffset := 0\<rparr>)"

section \<open>The scan is a record stream\<close>

text \<open>What the scan relies on: on the records of the lists the test returns, and its verdict does not
  depend on the attributes that earlier tests left behind.\<close>

locale hit_test =
  fixes hit :: "u32 \<Rightarrow> u32 \<Rightarrow> u32 list \<Rightarrow> (bool \<times> u32 list \<times> real) option"
    and good :: "u32 \<Rightarrow> u32 \<Rightarrow> bool"
    and valid :: "u32 \<Rightarrow> u32 \<Rightarrow> bool"
  assumes hit_valid: "good rid listID \<Longrightarrow> \<exists>matched' sc. hit rid listID matched = Some (valid rid listID, matched', sc)"

definition validIn :: "(u32 \<Rightarrow> u32 \<Rightarrow> bool) \<Rightarrow> InvertedListEntry \<Rightarrow> u32 list \<Rightarrow> u32 list" where
  "validIn valid entry = filter (\<lambda>rid. valid rid (invertedListID entry))"

definition validRecords :: "(u32 \<Rightarrow> u32 \<Rightarrow> bool) \<Rightarrow> InvertedListEntry list \<Rightarrow> u32 list" where
  "validRecords valid entries = concat (map (\<lambda>entry. validIn valid entry (invertedList entry)) entries)"

fun pendingFrom :: "(u32 \<Rightarrow> u32 \<Rightarrow> bool) \<Rightarrow> InvertedListEntry list \<Rightarrow> nat \<Rightarrow> u32 list" where
  "pendingFrom valid [] cursor = []"
| "pendingFrom valid (entry # entries) cursor =
    validIn valid entry (drop cursor (invertedList entry)) @ validRecords valid entries"

definition scanRemaining :: "(u32 \<Rightarrow> u32 \<Rightarrow> bool) \<Rightarrow> SimpleScanOperator \<Rightarrow> u32 list" where
  "scanRemaining valid s = pendingFrom valid (drop (listOffset s) (invertedLists s)) (cursorOnInvertedList s)"

definition positionOk :: "(u32 \<Rightarrow> u32 \<Rightarrow> bool) \<Rightarrow> InvertedListEntry list \<Rightarrow> nat \<Rightarrow> nat \<Rightarrow> bool" where
  "positionOk good entries i cursor \<longleftrightarrow>
    (\<forall>entry \<in> set entries. invertedList entry \<noteq> [] \<and> (\<forall>rid \<in> set (invertedList entry). good rid (invertedListID entry)))
    \<and> (i < length entries \<longrightarrow> cursor < length (invertedList (entries ! i)))
    \<and> (i \<ge> length entries \<longrightarrow> cursor = 0)"

definition scanOk :: "(u32 \<Rightarrow> u32 \<Rightarrow> bool) \<Rightarrow> SimpleScanOperator \<Rightarrow> bool" where
  "scanOk good s \<longleftrightarrow> positionOk good (invertedLists s) (listOffset s) (cursorOnInvertedList s)"

lemma pendingFrom_0: "pendingFrom valid entries 0 = validRecords valid entries"
  by (cases entries) (simp_all add: validRecords_def)

text \<open>The records after a position, when the position is moved on by one record.\<close>

definition advance :: "(u32 \<Rightarrow> u32 \<Rightarrow> bool) \<Rightarrow> InvertedListEntry list \<Rightarrow> nat \<Rightarrow> nat \<Rightarrow> u32 list" where
  "advance valid entries i cursor =
    (if cursor + 1 < length (invertedList (entries ! i)) then pendingFrom valid (drop i entries) (cursor + 1)
     else pendingFrom valid (drop (i + 1) entries) 0)"

lemma pendingFrom_step:
  assumes "i < length entries" "cursor < length (invertedList (entries ! i))"
  shows "pendingFrom valid (drop i entries) cursor =
    (if valid (invertedList (entries ! i) ! cursor) (invertedListID (entries ! i))
     then [invertedList (entries ! i) ! cursor] else []) @ advance valid entries i cursor"
proof -
  have "drop i entries = entries ! i # drop (i + 1) entries" using assms(1) by (simp add: Cons_nth_drop_Suc)
  moreover have "drop cursor (invertedList (entries ! i))
      = invertedList (entries ! i) ! cursor # drop (cursor + 1) (invertedList (entries ! i))"
    using assms(2) by (simp add: Cons_nth_drop_Suc)
  ultimately show ?thesis by (auto simp: validIn_def pendingFrom_0 advance_def)
qed

lemma positionOk_step:
  assumes "positionOk good entries i cursor" "i < length entries"
  shows "cursor + 1 < length (invertedList (entries ! i)) \<Longrightarrow> positionOk good entries i (cursor + 1)"
    "positionOk good entries (i + 1) 0"
  using assms by (auto simp: positionOk_def)

text \<open>The search returns: at the first valid record, or past the last list when there is none.\<close>

context hit_test
begin

definition found where
  "found entries i cursor r \<longleftrightarrow>
    (\<exists>m j c. r = Some (Some m, j, c) \<and> j < length entries \<and> c < length (invertedList (entries ! j))
      \<and> pendingFrom valid (drop i entries) cursor = fst m # advance valid entries j c)
    \<or> (r = Some (None, length entries, 0) \<and> pendingFrom valid (drop i entries) cursor = [])"

lemma findHit_finds:
  assumes "positionOk good entries i cursor" "i < length entries"
  shows "found entries i cursor (findHit hit entries i cursor matched)"
  using assms
proof (induction "sum_list (map (length \<circ> invertedList) (drop i entries)) - cursor"
    arbitrary: i cursor matched rule: less_induct)
  case less
  let ?l = "invertedList (entries ! i)"
  let ?n = "\<lambda>i. sum_list (map (length \<circ> invertedList) (drop i entries))"
  have c: "cursor < length ?l" using less.prems by (simp add: positionOk_def)
  note step = pendingFrom_step [OF less.prems(2) c, of valid]
  have sum: "?n i = length ?l + ?n (i + 1)"
    using less.prems(2) by (simp add: Cons_nth_drop_Suc [symmetric])
  have "good (?l ! cursor) (invertedListID (entries ! i))"
    using less.prems c by (simp add: positionOk_def)
  then obtain matched' sc where hit: "hit (?l ! cursor) (invertedListID (entries ! i)) matched
      = Some (valid (?l ! cursor) (invertedListID (entries ! i)), matched', sc)"
    using hit_valid by blast
  have unfold: "findHit hit entries i cursor matched = (if valid (?l ! cursor) (invertedListID (entries ! i))
     then Some (Some (?l ! cursor, matched', sc), i, cursor)
     else if cursor + 1 < length ?l then findHit hit entries i (cursor + 1) matched'
     else if i + 1 < length entries then findHit hit entries (i + 1) 0 matched'
     else Some (None, i + 1, 0))"
    using less.prems(2) c hit by (subst findHit.simps) (simp add: nth_opt_def)
  show ?case
  proof (cases "valid (?l ! cursor) (invertedListID (entries ! i))")
    case True
    then show ?thesis using step unfold c less.prems(2) by (auto simp: found_def)
  next
    case False
    consider (next_record) "cursor + 1 < length ?l"
      | (next_list) "\<not> cursor + 1 < length ?l" "i + 1 < length entries"
      | (last) "\<not> cursor + 1 < length ?l" "i + 1 = length entries"
      using less.prems(2) by linarith
    then show ?thesis
    proof cases
      case next_record
      have "?n i - (cursor + 1) < ?n i - cursor" using c sum by linarith
      from less.hyps [OF this positionOk_step(1) [OF less.prems next_record] less.prems(2), of matched']
      show ?thesis using False next_record step unfold by (simp add: found_def advance_def)
    next
      case next_list
      have "?n (i + 1) - 0 < ?n i - cursor" using c sum by linarith
      from less.hyps [OF this positionOk_step(2) [OF less.prems] next_list(2), of matched']
      show ?thesis using False next_list step unfold by (simp add: found_def advance_def)
    next
      case last
      then show ?thesis using False step unfold by (simp add: found_def advance_def)
    qed
  qed
qed

lemma SimpleScan_getNext_cases:
  assumes "scanOk good s"
  shows "(\<exists>s'. SimpleScan_getNext mem penalty t hit s = Some (None, s') \<and> scanRemaining valid s = []
      \<and> scanRemaining valid s' = [] \<and> scanOk good s')
    \<or> (\<exists>x s'. SimpleScan_getNext mem penalty t hit s = Some (Some x, s')
      \<and> scanRemaining valid s = recordId x # scanRemaining valid s' \<and> scanOk good s')"
proof (cases "listOffset s < length (invertedLists s)")
  case False
  then show ?thesis using assms by (simp add: SimpleScan_getNext_def scanRemaining_def)
next
  case True
  let ?es = "invertedLists s"
  have pos: "positionOk good ?es (listOffset s) (cursorOnInvertedList s)" using assms by (simp add: scanOk_def)
  have c: "cursorOnInvertedList s < length (invertedList (?es ! listOffset s))"
    using pos True by (simp add: positionOk_def)
  have lists: "positionOk good ?es j 0" "k < length (invertedList (?es ! j)) \<Longrightarrow> j < length ?es \<Longrightarrow> positionOk good ?es j k"
    for j k using pos by (auto simp: positionOk_def)
  from findHit_finds [OF pos True, of "[]"] consider
    m j k where "findHit hit ?es (listOffset s) (cursorOnInvertedList s) [] = Some (Some m, j, k)" "j < length ?es"
      "k < length (invertedList (?es ! j))" "scanRemaining valid s = fst m # advance valid ?es j k"
  | "findHit hit ?es (listOffset s) (cursorOnInvertedList s) [] = Some (None, length ?es, 0)" "scanRemaining valid s = []"
    unfolding found_def scanRemaining_def by blast
  then show ?thesis
  proof cases
    case (1 m j k)
    then show ?thesis using True c lists [of "Suc j"] lists(2) [of "Suc k" j]
      by (auto simp: SimpleScan_getNext_def nth_opt_def Let_def scanItem_def scanRemaining_def advance_def
          scanOk_def split: prod.splits)
  next
    case 2
    then show ?thesis using True c lists(1) [of "length ?es"]
      by (simp add: SimpleScan_getNext_def nth_opt_def scanRemaining_def scanOk_def)
  qed
qed

sublocale scan: record_stream "SimpleScan_getNext mem penalty t hit" recordId "scanRemaining valid" "scanOk good"
proof
  fix s assume ok: "scanOk good s"
  show "\<exists>s'. SimpleScan_getNext mem penalty t hit s = Some (None, s') \<and> scanOk good s' \<and> scanRemaining valid s' = []"
    if "scanRemaining valid s = []" using SimpleScan_getNext_cases [OF ok, of mem penalty t] that by auto
  show "\<exists>x s'. SimpleScan_getNext mem penalty t hit s = Some (Some x, s') \<and> recordId x = v \<and> scanOk good s' \<and> scanRemaining valid s' = vs"
    if "scanRemaining valid s = v # vs" for v vs using SimpleScan_getNext_cases [OF ok, of mem penalty t] that by auto
qed

lemmas scan_stream = scan.record_stream_axioms
lemmas scan_drain_all = scan.drain_all

end

section \<open>Opening, closing and resuming\<close>

definition entryOf :: "(u32 \<Rightarrow> u32 list) \<Rightarrow> TrieNode \<times> TrieNode \<times> u32 \<Rightarrow> InvertedListEntry" where
  "entryOf view leaf = (case leaf of (prefixNode, leafNode, distance) \<Rightarrow>
    \<lparr>invertedList = view (invertedListOffset leafNode), listPrefix = prefixNode, listLeafNode = leafNode,
     listDistance = distance, invertedListID = invertedListOffset leafNode\<rparr>)"

lemma collectLists_filter:
  "collectLists view leaves entries = entries @ filter (\<lambda>e. invertedList e \<noteq> []) (map (entryOf view) leaves)"
  by (induction view leaves entries rule: collectLists.induct) (auto simp: entryOf_def Let_def)

lemma validRecords_nonempty:
  "validRecords valid (filter (\<lambda>e. invertedList e \<noteq> []) entries) = validRecords valid entries"
  by (induction entries) (auto simp: validRecords_def validIn_def)

text \<open>The records of the inverted lists of the leaf nodes that the test accepts.\<close>

definition recordsOf :: "(u32 \<Rightarrow> u32 \<Rightarrow> bool) \<Rightarrow> (u32 \<Rightarrow> u32 list) \<Rightarrow> (TrieNode \<times> TrieNode \<times> u32) list \<Rightarrow> u32 list" where
  "recordsOf valid view leaves = validRecords valid (map (entryOf view) leaves)"

definition leavesGood :: "(u32 \<Rightarrow> u32 \<Rightarrow> bool) \<Rightarrow> (u32 \<Rightarrow> u32 list) \<Rightarrow> (TrieNode \<times> TrieNode \<times> u32) list \<Rightarrow> bool" where
  "leavesGood good view leaves \<longleftrightarrow>
    (\<forall>leaf \<in> set leaves. \<forall>rid \<in> set (invertedList (entryOf view leaf)). good rid (invertedListID (entryOf view leaf)))"

lemma positionOk_start:
  "\<forall>entry \<in> set entries. invertedList entry \<noteq> [] \<and> (\<forall>rid \<in> set (invertedList entry). good rid (invertedListID entry))
    \<Longrightarrow> positionOk good entries 0 0"
  by (cases entries) (auto simp: positionOk_def)

lemma SimpleScan_open_fresh:
  assumes "leavesGood good view leaves" "invertedLists s = []"
  shows "scanOk good (SimpleScan_open view leaves enabled None s)"
    "scanRemaining valid (SimpleScan_open view leaves enabled None s) = recordsOf valid view leaves"
  using assms
  by (auto simp: scanOk_def SimpleScan_open_def collectLists_filter leavesGood_def
      scanRemaining_def pendingFrom_0 validRecords_nonempty recordsOf_def Let_def intro!: positionOk_start)

lemma SimpleScan_getNext_keeps:
  assumes "SimpleScan_getNext mem penalty t hit s = Some (r, s')"
  shows "invertedLists s' = invertedLists s \<and> parentIsCacheEnabled s' = parentIsCacheEnabled s"
  using assms
  by (auto simp: SimpleScan_getNext_def bind_eq_Some_conv Let_def split: if_splits option.splits)

lemma afterCalls_keeps:
  assumes "afterCalls (SimpleScan_getNext mem penalty t hit) n s = Some s'"
  shows "invertedLists s' = invertedLists s \<and> parentIsCacheEnabled s' = parentIsCacheEnabled s"
  using assms
proof (induction n arbitrary: s)
  case (Suc n)
  then obtain r s1 where "SimpleScan_getNext mem penalty t hit s = Some (r, s1)"
    "afterCalls (SimpleScan_getNext mem penalty t hit) n s1 = Some s'" by (auto simp: bind_eq_Some_conv)
  then show ?case using Suc.IH SimpleScan_getNext_keeps by metis
qed simp

text \<open>A scan that resumes from a cache entry continues where the entry was taken.\<close>

lemma SimpleScan_resume:
  assumes "invertedLists s' = collectLists view leaves []" "invertedLists s = []"
    "fst (SimpleScan_close s') = Some entry"
  shows "scanRemaining valid (SimpleScan_open view leaves True (Some entry) s) = scanRemaining valid s'"
    "scanOk good s' \<Longrightarrow> scanOk good (SimpleScan_open view leaves True (Some entry) s)"
  using assms
  by (auto simp: SimpleScan_close_def SimpleScan_open_def scanRemaining_def scanOk_def split: if_splits)

section \<open>The scan over the index\<close>

definition indexHit ::
  "(u16 \<Rightarrow> real) \<Rightarrow> PositionIndexType \<Rightarrow> ForwardListPtr list \<Rightarrow> u32 list \<Rightarrow> QueryTerm \<Rightarrow> scan_hit" where
  "indexHit halfToFloat positionIndexType readView keywordIds =
    termPositionHit (InvertedIndex_getKeywordOffset readView keywordIds)
      (InvertedIndex_isValidTermPositionHit halfToFloat positionIndexType readView)"

text \<open>The test returns with the same verdict whatever was matched before, and this verdict.\<close>

definition steady :: "scan_hit \<Rightarrow> u32 \<Rightarrow> u32 \<Rightarrow> bool" where
  "steady hit rid listID \<longleftrightarrow> (\<exists>b. \<forall>matched. \<exists>matched' sc. hit rid listID matched = Some (b, matched', sc))"

definition verdict :: "scan_hit \<Rightarrow> u32 \<Rightarrow> u32 \<Rightarrow> bool" where
  "verdict hit rid listID \<longleftrightarrow> (\<exists>matched' sc. hit rid listID [] = Some (True, matched', sc))"

lemma steadyI:
  assumes "\<And>matched. \<exists>matched' sc. hit rid listID matched = Some (b, matched', sc)"
  shows "steady hit rid listID" "verdict hit rid listID = b"
proof -
  show "steady hit rid listID" using assms by (auto simp: steady_def)
  show "verdict hit rid listID = b" using assms [of "[]"] by (auto simp: verdict_def)
qed

interpretation indexHits: hit_test "indexHit halfToFloat positionIndexType readView keywordIds t"
  "steady (indexHit halfToFloat positionIndexType readView keywordIds t)"
  "verdict (indexHit halfToFloat positionIndexType readView keywordIds t)"
proof
  fix rid listID matched
  assume "steady (indexHit halfToFloat positionIndexType readView keywordIds t) rid listID"
  then obtain b where b: "\<And>m. \<exists>m' sc. indexHit halfToFloat positionIndexType readView keywordIds t rid listID m = Some (b, m', sc)"
    unfolding steady_def by blast
  then show "\<exists>m' sc. indexHit halfToFloat positionIndexType readView keywordIds t rid listID matched
      = Some (verdict (indexHit halfToFloat positionIndexType readView keywordIds t) rid listID, m', sc)"
    using steadyI(2) [of "indexHit halfToFloat positionIndexType readView keywordIds t" rid listID b] b by simp
qed

text \<open>An inverted list holds deleted records and records with its keyword.\<close>

definition listOk :: "(u32 \<Rightarrow> record_content option) \<Rightarrow> u32 list \<Rightarrow> u32 \<Rightarrow> u32 list \<Rightarrow> bool" where
  "listOk contents keywordIds listID records \<longleftrightarrow> unat listID < length keywordIds \<and>
    (\<forall>rid \<in> set records. \<forall>ids attrss sc. contents rid = Some (ids, attrss, sc) \<longrightarrow> keywordIds ! unat listID \<in> set ids)"

text \<open>The static score that a record keeps for one of its keywords.\<close>

definition keywordScore :: "(u32 \<Rightarrow> record_content option) \<Rightarrow> u32 \<Rightarrow> u32 \<Rightarrow> real" where
  "keywordScore contents keyword rid = (case contents rid of None \<Rightarrow> 0 | Some (ids, attrss, sc) \<Rightarrow>
    case find (\<lambda>k. ids ! k = keyword) [0..<length ids] of None \<Rightarrow> 0 | Some k \<Rightarrow> sc k)"

lemma keywordScore_unique:
  assumes "contents rid = Some (ids, attrss, sc)" "k < length ids" "ids ! k = keyword"
    "\<And>j. j < length ids \<Longrightarrow> ids ! j = keyword \<Longrightarrow> j = k"
  shows "keywordScore contents keyword rid = sc k"
proof (cases "find (\<lambda>k. ids ! k = keyword) [0..<length ids]")
  case None
  then show ?thesis using assms(2,3) by (auto simp: find_None_iff)
next
  case (Some j)
  then have "j < length ids" "ids ! j = keyword" by (auto simp: find_Some_iff)
  then show ?thesis using Some assms(1,4) by (simp add: keywordScore_def)
qed

lemma indexHit_represents:
  assumes "represents halfToFloat readView contents" "filterOk positionIndexType (attributesToFilter t)"
    "listOk contents keywordIds listID records" "rid \<in> set records"
  shows "\<exists>matched' sc. indexHit halfToFloat positionIndexType readView keywordIds t rid listID matched
    = Some (hasKeyword contents {keywordIds ! unat listID} (attributesToFilter t) (filterAttrOperation t) rid, matched', sc)
    \<and> (hasKeyword contents {keywordIds ! unat listID} (attributesToFilter t) (filterAttrOperation t) rid \<longrightarrow>
      sc = keywordScore contents (keywordIds ! unat listID) rid)"
proof (cases "contents rid")
  case None
  then show ?thesis using termHit_deleted [OF assms(1) None] assms(3)
    by (simp add: indexHit_def termPositionHit_def InvertedIndex_getKeywordOffset_def nth_opt_def listOk_def hasKeyword_def)
next
  case (Some c)
  obtain ids attrss sc where c: "contents rid = Some (ids, attrss, sc)" using Some by (cases c) auto
  let ?kid = "keywordIds ! unat listID"
  have mem: "?kid \<in> set ids" and len: "unat listID < length keywordIds" using assms(3,4) c by (auto simp: listOk_def)
  obtain off where off: "ForwardIndex_getKeywordOffset readView rid ?kid = Some off" "off \<noteq> FORWARDLIST_NOTVALID"
    "ForwardIndex_isValidRecordTermHit halfToFloat positionIndexType readView rid off (attributesToFilter t)
        (filterAttrOperation t) matched
      = Some (admits (filterAttrOperation t) (attributesToFilter t) (attrss ! unat off),
          reported (filterAttrOperation t) (attributesToFilter t) (attrss ! unat off), sc (unat off))"
    "unat off < length ids" "ids ! unat off = ?kid"
    using termHit_represents [OF assms(1,2) c mem] by blast
  have "distinct ids" using representsD(2) [OF assms(1) c] by blast
  then have uniq: "k = unat off" if "k < length ids" "ids ! k = ?kid" for k
    using nth_eq_iff_index_eq [of ids k "unat off"] that off(4,5) by simp
  have "hasKeyword contents {?kid} (attributesToFilter t) (filterAttrOperation t) rid
      \<longleftrightarrow> admits (filterAttrOperation t) (attributesToFilter t) (attrss ! unat off)"
  proof
    assume "hasKeyword contents {?kid} (attributesToFilter t) (filterAttrOperation t) rid"
    then obtain k where k: "k < length ids" "ids ! k = ?kid"
        "admits (filterAttrOperation t) (attributesToFilter t) (attrss ! k)"
      using c by (auto simp: hasKeyword_def)
    then show "admits (filterAttrOperation t) (attributesToFilter t) (attrss ! unat off)"
      using uniq [OF k(1,2)] by simp
  next
    assume "admits (filterAttrOperation t) (attributesToFilter t) (attrss ! unat off)"
    then show "hasKeyword contents {?kid} (attributesToFilter t) (filterAttrOperation t) rid"
      unfolding hasKeyword_def using off(4,5) c by blast
  qed
  moreover have "keywordScore contents ?kid rid = sc (unat off)" by (rule keywordScore_unique [where contents = contents, OF c off(4,5)]) (rule uniq)
  ultimately show ?thesis using off(1-3) len
    by (simp add: indexHit_def termPositionHit_def InvertedIndex_getKeywordOffset_def
        InvertedIndex_isValidTermPositionHit_def nth_opt_def)
qed

text \<open>
  C20. A freshly opened scan returns and delivers, list by list and in the order of the inverted lists of the
  leaf nodes, exactly the records that are not deleted and whose keyword of that list satisfies the
  attribute filter of the term.
\<close>

theorem SimpleScan_delivers:
  assumes "represents halfToFloat readView contents" "filterOk positionIndexType (attributesToFilter t)"
    "\<forall>(prefixNode, leafNode, distance) \<in> set leaves.
       listOk contents keywordIds (invertedListOffset leafNode) (getInvertedListReadView (invertedListOffset leafNode))"
    "sum_list (map (\<lambda>(prefixNode, leafNode, distance). length (getInvertedListReadView (invertedListOffset leafNode))) leaves) \<le> m"
  shows "\<exists>xs. drain (SimpleScan_getNext mem penalty t (indexHit halfToFloat positionIndexType readView keywordIds t)) m
      (SimpleScan_open getInvertedListReadView leaves enabled None SimpleScan_new) = Some xs
    \<and> map recordId xs = concat (map (\<lambda>(prefixNode, leafNode, distance).
        filter (hasKeyword contents {keywordIds ! unat (invertedListOffset leafNode)} (attributesToFilter t) (filterAttrOperation t))
          (getInvertedListReadView (invertedListOffset leafNode))) leaves)"
proof -
  let ?hit = "indexHit halfToFloat positionIndexType readView keywordIds t" and ?view = getInvertedListReadView
  let ?ok = "\<lambda>listID. hasKeyword contents {keywordIds ! unat listID} (attributesToFilter t) (filterAttrOperation t)"
  have hits: "steady ?hit rid listID \<and> verdict ?hit rid listID = ?ok listID rid"
    if "listOk contents keywordIds listID records" "rid \<in> set records" for rid listID records
    using steadyI [of ?hit rid listID "?ok listID rid"] indexHit_represents [OF assms(1,2) that] by blast
  have leaf_hits: "steady ?hit rid (invertedListOffset l)" "verdict ?hit rid (invertedListOffset l) = ?ok (invertedListOffset l) rid"
    if "(p, l, d) \<in> set leaves" "rid \<in> set (?view (invertedListOffset l))" for p l d rid
    using hits [OF _ that(2)] bspec [OF assms(3) that(1)] by auto
  have good: "leavesGood (steady ?hit) ?view leaves"
    using leaf_hits(1) by (auto simp: leavesGood_def entryOf_def)
  have lens: "length (recordsOf (verdict ?hit) ?view ls)
      \<le> sum_list (map (\<lambda>(p, l, d). length (?view (invertedListOffset l))) ls)" for ls
    by (induction ls) (auto simp: recordsOf_def validRecords_def validIn_def entryOf_def add_mono length_filter_le)
  have recs: "recordsOf (verdict ?hit) ?view leaves = concat (map (\<lambda>(p, l, d).
        filter (hasKeyword contents {keywordIds ! unat (invertedListOffset l)} (attributesToFilter t) (filterAttrOperation t))
          (?view (invertedListOffset l))) leaves)"
    using leaf_hits(2)
    by (auto simp: recordsOf_def validRecords_def validIn_def entryOf_def intro!: arg_cong [where f = concat] map_cong filter_cong)
  let ?s = "SimpleScan_open ?view leaves enabled None SimpleScan_new"
  have o: "scanOk (steady ?hit) ?s" "scanRemaining (verdict ?hit) ?s = recordsOf (verdict ?hit) ?view leaves"
    using SimpleScan_open_fresh [OF good, of SimpleScan_new] by (simp_all add: SimpleScan_new_def)
  then have "length (scanRemaining (verdict ?hit) ?s) \<le> m" using lens [of leaves] assms(4) by simp
  from indexHits.scan_drain_all [OF o(1) this, of mem penalty t] show ?thesis using o(2) recs by simp
qed

text \<open>
  The position of a first scan is lost: a scan opened without a cache object, as every first run of a
  query is, never hands out a cache entry when it is closed, although its parent has enabled the cache,
  and the next scan of the lists starts from the beginning. Only the branch that receives a cache
  object sets \<open>parentIsCacheEnabled\<close>.
\<close>

theorem scan_position_lost:
  assumes "afterCalls (SimpleScan_getNext mem penalty t hit) n
      (SimpleScan_open getInvertedListReadView leaves True None SimpleScan_new) = Some s"
  shows "fst (SimpleScan_close s) = None
    \<and> scanRemaining valid (SimpleScan_open getInvertedListReadView leaves True (fst (SimpleScan_close s)) (snd (SimpleScan_close s)))
      = recordsOf valid getInvertedListReadView leaves"
proof -
  have "\<not> parentIsCacheEnabled s"
    using afterCalls_keeps [OF assms] by (simp add: SimpleScan_open_def SimpleScan_new_def Let_def)
  then have "fst (SimpleScan_close s) = None" "invertedLists (snd (SimpleScan_close s)) = []"
    by (simp_all add: SimpleScan_close_def)
  then show ?thesis
    by (simp add: SimpleScan_open_def collectLists_filter scanRemaining_def pendingFrom_0 validRecords_nonempty recordsOf_def Let_def)
qed

text \<open>An index with one live record, number 0 with keyword 7, and a deleted one.\<close>

definition sampleView :: "ForwardListPtr list" where
  "sampleView = [(Some sampleList, True), (Some sampleList, False)]"

definition sampleContents :: "u32 \<Rightarrow> record_content option" where
  "sampleContents rid = (if rid = 0 then Some ([7], [[1, 2]], \<lambda>_. 1) else None)"

definition sampleFilter :: QueryTerm where
  "sampleFilter = (sampleTerm TERM_TYPE_PREFIX)\<lparr>attributesToFilter := [2]\<rparr>"

definition sampleLeaf :: "TrieNode \<times> TrieNode \<times> u32" where
  "sampleLeaf = (sampleNode 0 0, sampleNode 0 0, 0)"

lemma sampleView_represents: "represents (\<lambda>_. 1) sampleView sampleContents"
proof -
  have "\<not> snd (getForwardList sampleView rid)" if "rid \<noteq> 0" for rid
  proof (cases "unat rid < length sampleView")
    case True
    moreover have "unat rid \<noteq> 0" using that by (simp add: unat_eq_0)
    ultimately have "unat rid = 1" by (simp add: sampleView_def)
    then show ?thesis by (simp add: getForwardList_def sampleView_def)
  qed (simp add: getForwardList_def)
  then show ?thesis using sampleList_holds
    by (auto simp: represents_def sampleContents_def getForwardList_def sampleView_def)
qed

lemma sample_lists: "listOk sampleContents [7] (invertedListOffset (sampleNode 0 0)) [0, 1]"
  by (auto simp: listOk_def sampleContents_def sampleNode_def)

lemma sample_filterOk: "filterOk POSITION_INDEX_FULL (attributesToFilter sampleFilter)"
  by (simp add: filterOk_def isEnabledAttributeBasedSearch_def sampleFilter_def)

lemma sample_hasKeyword:
  "hasKeyword sampleContents {7} [2] ATTRIBUTES_OP_OR 0" "\<not> hasKeyword sampleContents {7} [2] ATTRIBUTES_OP_OR 1"
  by (auto simp: hasKeyword_def sampleContents_def)

theorem SimpleScan_delivers_witness:
  "\<exists>xs. drain (SimpleScan_getNext undefined 1 sampleFilter (indexHit (\<lambda>_. 1) POSITION_INDEX_FULL sampleView [7] sampleFilter)) 5
      (SimpleScan_open (\<lambda>_. [0, 1]) [sampleLeaf] True None SimpleScan_new) = Some xs \<and> map recordId xs = [0]"
  using SimpleScan_delivers [OF sampleView_represents sample_filterOk, of "[sampleLeaf]" "[7]" "\<lambda>_. [0, 1]" 5 undefined 1 True]
    sample_lists sample_hasKeyword
  by (simp add: sampleLeaf_def sampleNode_def sampleFilter_def sampleTerm_def)

theorem scan_position_lost_witness:
  "\<exists>s. afterCalls (SimpleScan_getNext undefined 1 sampleFilter (\<lambda>_ _ m. Some (True, m, 1))) 1
      (SimpleScan_open (\<lambda>_. [4, 6]) [sampleLeaf] True None SimpleScan_new) = Some s
    \<and> scanRemaining (\<lambda>_ _. True) s = [6]
    \<and> scanRemaining (\<lambda>_ _. True) (SimpleScan_open (\<lambda>_. [4, 6]) [sampleLeaf] True (fst (SimpleScan_close s)) (snd (SimpleScan_close s)))
      = [4, 6]"
proof -
  obtain s where s: "afterCalls (SimpleScan_getNext undefined 1 sampleFilter (\<lambda>_ _ m. Some (True, m, 1))) 1
      (SimpleScan_open (\<lambda>_. [4, 6]) [sampleLeaf] True None SimpleScan_new) = Some s"
    "scanRemaining (\<lambda>_ _. True) s = [6]"
    by (simp add: SimpleScan_open_def SimpleScan_new_def sampleLeaf_def sampleNode_def SimpleScan_getNext_def
        findHit.simps Let_def scanRemaining_def validRecords_def validIn_def)
  have "recordsOf (\<lambda>_ _. True) (\<lambda>_. [4, 6]) [sampleLeaf] = [4, 6]"
    by (simp add: recordsOf_def validRecords_def validIn_def sampleLeaf_def entryOf_def)
  with scan_position_lost [OF s(1), of "\<lambda>_ _. True"] s show ?thesis by metis
qed

end
