(* ===== verification/Shortest_List.thy ===== *)
theory Shortest_List
  imports Simple_Scan Merge_Operators
begin

text \<open>
  The merge that scans its shortest list and verifies the other children by random access,
  \<^verbatim>\<open>src/src/core/operation/physical_plan/MergeByShortestListOperator.cpp\<close>. The children are a list of
  states with a common \<open>getNext\<close>, and a list of their \<open>verifyByRandomAccess\<close> functions; the cache object
  of a child has a type of its own. \<open>mem\<close> and \<open>vmem\<close> stand for the content of fresh record items and
  verification parameters.
\<close>

section \<open>The operator\<close>

record 's MergeByShortestListOperator =
  sl_children :: "'s list"
  hasQueryEvaluator :: bool
  indexOfShortestListChild :: nat
  isShortestListFinished :: bool
  indexOfCandidateListFromCache :: nat
  candidateListFromCache :: "PhysicalPlanRecordItem list"
  candidateListForCache :: "PhysicalPlanRecordItem list"

record 'c MergeByShortestListCacheEntry =
  ce_indexOfShortestListChild :: nat
  ce_isShortestListFinished :: bool
  candidatesList :: "PhysicalPlanRecordItem list"
  ce_children :: "'c option list"

fun openChildren :: "('c option \<Rightarrow> 's \<Rightarrow> 's option) \<Rightarrow> 'c option list \<Rightarrow> 's list \<Rightarrow> 's list option" where
  "openChildren openChild objects [] = Some []"
| "openChildren openChild objects (c # cs) = do {
     c \<leftarrow> openChild (case objects of [] \<Rightarrow> None | cacheObject # _ \<Rightarrow> cacheObject) c;
     cs \<leftarrow> openChildren openChild (tl objects) cs;
     Some (c # cs)
   }"

text \<open>\<open>cacheHit\<close> is what the cache has for the key of the query without its last leaf, \<open>shortest\<close> the
  offset that the optimiser's node computes. In this version of the program \<open>cacheHit\<close> is always \<open>None\<close>: the lookup,
  \<open>getPhysicalOperatorsInfo\<close> of theory Cache_Manager, is disabled and answers \<open>false\<close>, so that every run is a fresh one.\<close>

definition MergeByShortestList_open ::
  "PhysicalPlanRecordItem \<Rightarrow> ('c option \<Rightarrow> 's \<Rightarrow> 's option) \<Rightarrow> nat \<Rightarrow> 'c MergeByShortestListCacheEntry option \<Rightarrow>
    's MergeByShortestListOperator \<Rightarrow> (bool \<times> 's MergeByShortestListOperator) option" where
  "MergeByShortestList_open mem openChild shortest cacheHit s =
    (case (if hasQueryEvaluator s then cacheHit else None) of
      Some entry \<Rightarrow>
        if shortest = ce_indexOfShortestListChild entry
        then do {
          cs \<leftarrow> openChildren openChild (ce_children entry) (sl_children s);
          Some (True, s\<lparr>isShortestListFinished := ce_isShortestListFinished entry,
            indexOfShortestListChild := ce_indexOfShortestListChild entry,
            indexOfCandidateListFromCache := 0, sl_children := cs,
            candidateListFromCache := candidateListFromCache s
              @ map (\<lambda>c. copyFields c (RecordItem_new mem)) (candidatesList entry)\<rparr>)
        }
        else None
    | None \<Rightarrow> do {
        cs \<leftarrow> openChildren openChild [] (sl_children s);
        Some (True, s\<lparr>isShortestListFinished := False, indexOfCandidateListFromCache := 0,
          indexOfShortestListChild := shortest, sl_children := cs\<rparr>)
      })"

record MatchInfo =
  runTimeTermRecordScores :: "real list"
  staticTermRecordScores :: "real list"
  termRecordMatchingKeywords :: "nat list"
  mi_attributeIdsList :: "u32 list list"
  mi_prefixEditDistances :: "u32 list"
  mi_positionIndexOffsets :: "u32 list"
  mi_termTypes :: "TermType list"

definition noMatches :: MatchInfo where
  "noMatches = \<lparr>runTimeTermRecordScores = [], staticTermRecordScores = [], termRecordMatchingKeywords = [],
     mi_attributeIdsList = [], mi_prefixEditDistances = [], mi_positionIndexOffsets = [], mi_termTypes = []\<rparr>"

text \<open>The matches of a candidate from the cache: its position index offsets are not copied.\<close>

definition candidateMatches :: "PhysicalPlanRecordItem \<Rightarrow> MatchInfo" where
  "candidateMatches r = \<lparr>runTimeTermRecordScores = [recordRuntimeScore r],
     staticTermRecordScores = [recordStaticScore r], termRecordMatchingKeywords = matchingPrefixes r,
     mi_attributeIdsList = attributeIdsList r, mi_prefixEditDistances = editDistances r,
     mi_positionIndexOffsets = [], mi_termTypes = termTypes r\<rparr>"

definition addItemMatches :: "PhysicalPlanRecordItem \<Rightarrow> MatchInfo \<Rightarrow> MatchInfo" where
  "addItemMatches r i = \<lparr>runTimeTermRecordScores = runTimeTermRecordScores i @ [recordRuntimeScore r],
     staticTermRecordScores = staticTermRecordScores i @ [recordStaticScore r],
     termRecordMatchingKeywords = termRecordMatchingKeywords i @ matchingPrefixes r,
     mi_attributeIdsList = mi_attributeIdsList i @ attributeIdsList r,
     mi_prefixEditDistances = mi_prefixEditDistances i @ editDistances r,
     mi_positionIndexOffsets = mi_positionIndexOffsets i @ positionIndexOffsets r,
     mi_termTypes = mi_termTypes i @ termTypes r\<rparr>"

definition addVerifiedMatches :: "VerificationParameters \<Rightarrow> MatchInfo \<Rightarrow> MatchInfo" where
  "addVerifiedMatches p i = \<lparr>runTimeTermRecordScores = runTimeTermRecordScores i @ [runTimeTermRecordScore p],
     staticTermRecordScores = staticTermRecordScores i @ [staticTermRecordScore p],
     termRecordMatchingKeywords = termRecordMatchingKeywords i @ termRecordMatchingPrefixes p,
     mi_attributeIdsList = mi_attributeIdsList i @ v_attributeIdsList p,
     mi_prefixEditDistances = mi_prefixEditDistances i @ prefixEditDistances p,
     mi_positionIndexOffsets = mi_positionIndexOffsets i @ v_positionIndexOffsets p,
     mi_termTypes = mi_termTypes i @ v_termTypes p\<rparr>"

fun verifyLoop ::
  "verifier list \<Rightarrow> nat \<Rightarrow> VerificationParameters \<Rightarrow> real \<Rightarrow> PhysicalPlanRecordItem \<Rightarrow> nat list \<Rightarrow> MatchInfo \<Rightarrow>
    (bool \<times> MatchInfo) option" where
  "verifyLoop verifiers shortest vmem penalty r [] i = Some (True, i)"
| "verifyLoop verifiers shortest vmem penalty r (childOffset # offsets) i =
    (if childOffset = shortest then verifyLoop verifiers shortest vmem penalty r offsets (addItemMatches r i)
     else do {
       verify \<leftarrow> nth_opt verifiers childOffset;
       (resultOfThisChild, parameters) \<leftarrow> verify (newParameters vmem (recordId r) penalty);
       if resultOfThisChild
       then verifyLoop verifiers shortest vmem penalty r offsets (addVerifiedMatches parameters i)
       else Some (False, i)
     })"

definition verifyRecordWithChildren ::
  "verifier list \<Rightarrow> nat \<Rightarrow> VerificationParameters \<Rightarrow> real \<Rightarrow> PhysicalPlanRecordItem \<Rightarrow> MatchInfo \<Rightarrow> u32 \<Rightarrow>
    (bool \<times> MatchInfo) option" where
  "verifyRecordWithChildren verifiers shortest vmem penalty r i onlyThisChild =
    (let startChildOffset = (if onlyThisChild \<noteq> - 1 then unat onlyThisChild else 0);
         endChildOffset = (if onlyThisChild \<noteq> - 1 then unat (onlyThisChild + 1) else length verifiers)
     in verifyLoop verifiers shortest vmem penalty r [startChildOffset..<endChildOffset] i)"

definition setMatches :: "MatchInfo \<Rightarrow> PhysicalPlanRecordItem \<Rightarrow> PhysicalPlanRecordItem" where
  "setMatches i r = r\<lparr>attributeIdsList := mi_attributeIdsList i, editDistances := mi_prefixEditDistances i,
     matchingPrefixes := termRecordMatchingKeywords i, positionIndexOffsets := mi_positionIndexOffsets i,
     termTypes := mi_termTypes i,
     recordRuntimeScore := computeAggregatedRuntimeScoreForAnd (runTimeTermRecordScores i)\<rparr>"

text \<open>The next record with whether it comes from the cache.\<close>

definition nextCandidate ::
  "('s, PhysicalPlanRecordItem) next_fun \<Rightarrow> 's MergeByShortestListOperator \<Rightarrow>
    (PhysicalPlanRecordItem option \<times> bool \<times> 's MergeByShortestListOperator) option" where
  "nextCandidate getNext s =
    (if indexOfCandidateListFromCache s < length (candidateListFromCache s)
     then Some (Some (candidateListFromCache s ! indexOfCandidateListFromCache s), True,
       s\<lparr>indexOfCandidateListFromCache := indexOfCandidateListFromCache s + 1\<rparr>)
     else do {
       (r, cs) \<leftarrow> childNext getNext (indexOfShortestListChild s) (sl_children s);
       Some (r, False, s\<lparr>sl_children := cs\<rparr>)
     })"

partial_function (option) shortestListLoop ::
  "('s, PhysicalPlanRecordItem) next_fun \<Rightarrow> verifier list \<Rightarrow> VerificationParameters \<Rightarrow> real \<Rightarrow>
    's MergeByShortestListOperator \<Rightarrow> (PhysicalPlanRecordItem option \<times> 's MergeByShortestListOperator) option" where
  "shortestListLoop getNext verifiers vmem penalty s = do {
     (nextRecord, recordComesFromCache, s) \<leftarrow> nextCandidate getNext s;
     case nextRecord of
       None \<Rightarrow> Some (None, s\<lparr>isShortestListFinished := True\<rparr>)
     | Some r \<Rightarrow> do {
         (verified, i) \<leftarrow> (if recordComesFromCache
           then verifyRecordWithChildren verifiers (indexOfShortestListChild s) vmem penalty r (candidateMatches r)
             (of_nat (length verifiers) - 1)
           else verifyRecordWithChildren verifiers (indexOfShortestListChild s) vmem penalty r noMatches (- 1));
         if verified
         then Some (Some (setMatches i r), s\<lparr>candidateListForCache := candidateListForCache s @ [setMatches i r]\<rparr>)
         else shortestListLoop getNext verifiers vmem penalty s
       }
   }"

declare shortestListLoop.simps [code]

definition MergeByShortestList_getNext ::
  "('s, PhysicalPlanRecordItem) next_fun \<Rightarrow> verifier list \<Rightarrow> VerificationParameters \<Rightarrow> real \<Rightarrow>
    ('s MergeByShortestListOperator, PhysicalPlanRecordItem) next_fun" where
  "MergeByShortestList_getNext getNext verifiers vmem penalty s =
    (if isShortestListFinished s \<and> indexOfCandidateListFromCache s \<ge> length (candidateListFromCache s)
     then Some (None, s)
     else shortestListLoop getNext verifiers vmem penalty s)"

text \<open>The children hand out their cache objects; the entry goes to the cache.\<close>

fun closeChildren :: "('s \<Rightarrow> 'c option \<times> 's) \<Rightarrow> 's list \<Rightarrow> 'c option list \<times> 's list" where
  "closeChildren closeChild [] = ([], [])"
| "closeChildren closeChild (c # cs) =
    (let (cacheObject, c) = closeChild c; (objects, cs) = closeChildren closeChild cs
     in (cacheObject # objects, c # cs))"

definition MergeByShortestList_close ::
  "PhysicalPlanRecordItem \<Rightarrow> ('s \<Rightarrow> 'c option \<times> 's) \<Rightarrow> 's MergeByShortestListOperator \<Rightarrow>
    'c MergeByShortestListCacheEntry option \<times> 's MergeByShortestListOperator" where
  "MergeByShortestList_close mem closeChild s =
    (let (childrenCacheEntries, cs) = closeChildren closeChild (sl_children s);
         entry = (if hasQueryEvaluator s
           then Some \<lparr>ce_indexOfShortestListChild = indexOfShortestListChild s,
             ce_isShortestListFinished = isShortestListFinished s,
             candidatesList = map (cloneForCache mem) (candidateListForCache s), ce_children = childrenCacheEntries\<rparr>
           else None)
     in (entry, s\<lparr>sl_children := cs, isShortestListFinished := False\<rparr>))"

definition MergeByShortestList_verifyByRandomAccess :: "verifier list \<Rightarrow> verifier" where
  "MergeByShortestList_verifyByRandomAccess verifiers = verifyByRandomAccessAndHelper verifiers"

section \<open>What the operator delivers\<close>

definition passes :: "(nat \<Rightarrow> u32 \<Rightarrow> bool) \<Rightarrow> nat \<Rightarrow> nat list \<Rightarrow> u32 \<Rightarrow> bool" where
  "passes meanings shortest offsets rid \<longleftrightarrow> (\<forall>i \<in> set offsets. i \<noteq> shortest \<longrightarrow> meanings i rid)"

text \<open>Candidates from the cache are verified with the last child, other records with all children.\<close>

definition slRemaining ::
  "('s \<Rightarrow> u32 list) \<Rightarrow> (nat \<Rightarrow> u32 \<Rightarrow> bool) \<Rightarrow> nat \<Rightarrow> nat \<Rightarrow> 's MergeByShortestListOperator \<Rightarrow> u32 list" where
  "slRemaining remaining meanings n shortest s =
    filter (passes meanings shortest [n - 1])
      (map recordId (drop (indexOfCandidateListFromCache s) (candidateListFromCache s)))
    @ filter (passes meanings shortest [0..<n]) (remaining (sl_children s ! shortest))"

text \<open>The verifiers of the children other than the shortest list decide the properties \<open>meanings\<close>.\<close>

definition childrenDecide :: "verifier list \<Rightarrow> (nat \<Rightarrow> u32 \<Rightarrow> bool) \<Rightarrow> nat \<Rightarrow> bool" where
  "childrenDecide verifiers meanings shortest \<longleftrightarrow> shortest < length verifiers \<and> length verifiers < 2 ^ 32
    \<and> (\<forall>i < length verifiers. i \<noteq> shortest \<longrightarrow> decides (verifiers ! i) (meanings i))"

definition slOk ::
  "('s \<Rightarrow> u32 list) \<Rightarrow> ('s \<Rightarrow> bool) \<Rightarrow> verifier list \<Rightarrow> (nat \<Rightarrow> u32 \<Rightarrow> bool) \<Rightarrow> nat \<Rightarrow>
    's MergeByShortestListOperator \<Rightarrow> bool" where
  "slOk remaining ok verifiers meanings shortest s \<longleftrightarrow> childrenDecide verifiers meanings shortest
    \<and> length (sl_children s) = length verifiers \<and> indexOfShortestListChild s = shortest
    \<and> ok (sl_children s ! shortest) \<and> (isShortestListFinished s \<longrightarrow> remaining (sl_children s ! shortest) = [])"

locale shortest_list = child: record_stream getNext recordId remaining ok
  for getNext :: "'s \<Rightarrow> (PhysicalPlanRecordItem option \<times> 's) option" and remaining :: "'s \<Rightarrow> u32 list"
    and ok :: "'s \<Rightarrow> bool" +
  fixes verifiers :: "(VerificationParameters \<Rightarrow> (bool \<times> VerificationParameters) option) list"
    and meanings :: "nat \<Rightarrow> u32 \<Rightarrow> bool" and shortest :: nat
begin

abbreviation "n \<equiv> length verifiers"
abbreviation "left s \<equiv> slRemaining remaining meanings n shortest s"
abbreviation "okay s \<equiv> slOk remaining ok verifiers meanings shortest s"
abbreviation "deciding \<equiv> childrenDecide verifiers meanings shortest"

lemma okay_deciding: "okay s \<Longrightarrow> deciding"
  by (simp add: slOk_def)

lemma verifyLoop_decides:
  "deciding \<Longrightarrow> \<forall>i \<in> set offsets. i < n \<Longrightarrow>
    \<exists>info'. verifyLoop verifiers shortest vmem penalty r offsets info = Some (passes meanings shortest offsets (recordId r), info')"
proof (induction offsets arbitrary: info)
  case (Cons i offsets)
  show ?case
  proof (cases "i = shortest")
    case True
    then show ?thesis using Cons by (simp add: passes_def)
  next
    case False
    then have "decides (verifiers ! i) (meanings i)" using Cons.prems by (simp add: childrenDecide_def)
    from decides.verify_meaning [OF this, of "newParameters vmem (recordId r) penalty"]
    obtain q where "(verifiers ! i) (newParameters vmem (recordId r) penalty) = Some (meanings i (recordId r), q)"
      by (auto simp: newParameters_def)
    then show ?thesis using False Cons by (simp add: nth_opt_def passes_def)
  qed
qed (simp add: passes_def)

lemma last_offset:
  assumes deciding
  shows "of_nat n - 1 \<noteq> (- 1 :: u32)" "unat (of_nat n - 1 :: u32) = n - 1" "unat (of_nat n - 1 + 1 :: u32) = n"
proof -
  have "unat (of_nat n :: u32) = n" using assms by (simp add: unat_of_nat childrenDecide_def)
  moreover have nz: "(of_nat n :: u32) \<noteq> 0"
    using calculation assms unfolding childrenDecide_def by (metis gr_implies_not0 unat_0)
  ultimately show "unat (of_nat n - 1 :: u32) = n - 1" "unat (of_nat n - 1 + 1 :: u32) = n"
    by (simp_all add: unat_minus_one)
  show "of_nat n - 1 \<noteq> (- 1 :: u32)" using nz by simp
qed

lemma verifyRecord_all:
  "deciding \<Longrightarrow> \<exists>info'. verifyRecordWithChildren verifiers shortest vmem penalty r info (- 1)
    = Some (passes meanings shortest [0..<n] (recordId r), info')"
  using verifyLoop_decides [of "[0..<n]"] by (simp add: verifyRecordWithChildren_def)

lemma verifyRecord_last:
  assumes deciding
  shows "\<exists>info'. verifyRecordWithChildren verifiers shortest vmem penalty r info (of_nat n - 1)
    = Some (passes meanings shortest [n - 1] (recordId r), info')"
proof -
  have n: "0 < n" using assms by (auto simp: childrenDecide_def)
  then have "[n - 1..<n] = [n - 1]" using upt_rec [of "n - 1" n] by simp
  then show ?thesis using verifyLoop_decides [OF assms, of "[n - 1]"] n last_offset [OF assms]
    by (simp add: verifyRecordWithChildren_def)
qed

text \<open>One step of the loop: the end, or the next record with its verdict.\<close>

lemma nextCandidate_cases:
  assumes "okay s"
  obtains (finished) s' where "nextCandidate getNext s = Some (None, False, s')" "left s = []" "left s' = []"
      "okay (s'\<lparr>isShortestListFinished := True\<rparr>)"
  | (candidate) r s' b where "nextCandidate getNext s = Some (Some r, b, s')" "okay s' \<or> \<not> b"
      "ok (sl_children s' ! shortest)" "length (sl_children s') = n" "indexOfShortestListChild s' = shortest"
      "isShortestListFinished s' = isShortestListFinished s"
      "left s = (if passes meanings shortest (if b then [n - 1] else [0..<n]) (recordId r) then [recordId r] else []) @ left s'"
      "length (drop (indexOfCandidateListFromCache s') (candidateListFromCache s')) + length (remaining (sl_children s' ! shortest))
        < length (drop (indexOfCandidateListFromCache s) (candidateListFromCache s)) + length (remaining (sl_children s ! shortest))"
      "\<not> b \<Longrightarrow> remaining (sl_children s ! shortest) \<noteq> []"
proof (cases "indexOfCandidateListFromCache s < length (candidateListFromCache s)")
  case True
  let ?c = "candidateListFromCache s" and ?i = "indexOfCandidateListFromCache s"
  have "drop ?i ?c = ?c ! ?i # drop (?i + 1) ?c" using True by (simp add: Cons_nth_drop_Suc)
  then show ?thesis using True assms
    by (intro candidate [of "?c ! ?i" True "s\<lparr>indexOfCandidateListFromCache := ?i + 1\<rparr>"])
      (auto simp: nextCandidate_def slRemaining_def slOk_def)
next
  case False
  have o: "ok (sl_children s ! shortest)" "length (sl_children s) = n" "indexOfShortestListChild s = shortest"
    "shortest < n" using assms by (auto simp: slOk_def childrenDecide_def)
  show ?thesis using o(1)
  proof (cases rule: child.getNext_cases)
    case (finished c)
    let ?s = "s\<lparr>sl_children := (sl_children s)[shortest := c]\<rparr>"
    show ?thesis using False finished o assms
      by (intro that(1) [of ?s]) (auto simp: nextCandidate_def childNext_def nth_opt_def slRemaining_def slOk_def)
  next
    case (item r c)
    let ?s = "s\<lparr>sl_children := (sl_children s)[shortest := c]\<rparr>"
    show ?thesis using False item o assms
      by (intro candidate [of r False ?s]) (auto simp: nextCandidate_def childNext_def nth_opt_def slRemaining_def slOk_def)
  qed
qed

lemma loop_delivers:
  assumes "okay s"
  shows "(\<exists>s'. shortestListLoop getNext verifiers vmem penalty s = Some (None, s') \<and> left s = [] \<and> left s' = [] \<and> okay s')
    \<or> (\<exists>x s'. shortestListLoop getNext verifiers vmem penalty s = Some (Some x, s') \<and> left s = recordId x # left s' \<and> okay s')"
  using assms
proof (induction "length (drop (indexOfCandidateListFromCache s) (candidateListFromCache s))
    + length (remaining (sl_children s ! shortest))" arbitrary: s rule: less_induct)
  case less
  from less.prems show ?case
  proof (cases rule: nextCandidate_cases)
    case (finished s')
    then show ?thesis by (subst shortestListLoop.simps, simp) (simp add: slRemaining_def)
  next
    case (candidate r s' b)
    have ok': "okay s'"
    proof (cases b)
      case False
      then have "\<not> isShortestListFinished s" using less.prems candidate(9) by (auto simp: slOk_def)
      then show ?thesis using candidate(3-6) okay_deciding [OF less.prems] by (simp add: slOk_def)
    qed (use candidate(2) in simp)
    let ?verify = "if b
      then verifyRecordWithChildren verifiers shortest vmem penalty r (candidateMatches r) (of_nat n - 1)
      else verifyRecordWithChildren verifiers shortest vmem penalty r noMatches (- 1)"
    obtain info where v: "?verify = Some (passes meanings shortest (if b then [n - 1] else [0..<n]) (recordId r), info)"
      using verifyRecord_all [OF okay_deciding [OF less.prems], of vmem penalty r noMatches]
        verifyRecord_last [OF okay_deciding [OF less.prems], of vmem penalty r "candidateMatches r"]
      by (cases b) auto
    note unfold = shortestListLoop.simps [of getNext verifiers vmem penalty s]
    show ?thesis
    proof (cases "passes meanings shortest (if b then [n - 1] else [0..<n]) (recordId r)")
      case True
      then show ?thesis using candidate v ok' unfold by (auto simp: setMatches_def slRemaining_def slOk_def)
    next
      case False
      then have "shortestListLoop getNext verifiers vmem penalty s = shortestListLoop getNext verifiers vmem penalty s'"
        using candidate(1,5) v unfold by (cases b) simp_all
      then show ?thesis using less.hyps [OF candidate(8) ok'] candidate(7) False by simp
    qed
  qed
qed

sublocale merged: record_stream "MergeByShortestList_getNext getNext verifiers vmem penalty" recordId
  "slRemaining remaining meanings n shortest" "slOk remaining ok verifiers meanings shortest"
proof
  fix s assume o: "okay s"
  have fin: "left s = []" if "isShortestListFinished s" "indexOfCandidateListFromCache s \<ge> length (candidateListFromCache s)"
    using o that by (simp add: slOk_def slRemaining_def)
  show "\<exists>s'. MergeByShortestList_getNext getNext verifiers vmem penalty s = Some (None, s') \<and> okay s' \<and> left s' = []"
    if "left s = []" using loop_delivers [OF o, of vmem penalty] that o
    by (cases "isShortestListFinished s \<and> indexOfCandidateListFromCache s \<ge> length (candidateListFromCache s)")
      (auto simp: MergeByShortestList_getNext_def)
  show "\<exists>x s'. MergeByShortestList_getNext getNext verifiers vmem penalty s = Some (Some x, s') \<and> recordId x = v \<and> okay s' \<and> left s' = vs"
    if "left s = v # vs" for v vs using loop_delivers [OF o, of vmem penalty] that fin
    by (cases "isShortestListFinished s \<and> indexOfCandidateListFromCache s \<ge> length (candidateListFromCache s)")
      (auto simp: MergeByShortestList_getNext_def)
qed

lemmas merged_drain_all = merged.drain_all
lemmas merged_stream = merged.record_stream_axioms

end

section \<open>Fresh and incremental runs\<close>

lemma openChildren_length: "openChildren openChild objects cs = Some cs' \<Longrightarrow> length cs' = length cs"
  by (induction openChild objects cs arbitrary: cs' rule: openChildren.induct) (auto simp: bind_eq_Some_conv)

lemma open_fresh:
  assumes "MergeByShortestList_open mem openChild shortest None s0 = Some (b, s)"
  shows "candidateListFromCache s = candidateListFromCache s0" "indexOfCandidateListFromCache s = 0"
    "\<not> isShortestListFinished s" "indexOfShortestListChild s = shortest" "length (sl_children s) = length (sl_children s0)"
  using assms by (auto simp: MergeByShortestList_open_def bind_eq_Some_conv dest: openChildren_length)

text \<open>
  C21. A fresh run returns and delivers, in the order of the shortest list, exactly those of its records
  that every other child accepts by random access.
\<close>

theorem MergeByShortestList_delivers:
  assumes "record_stream getNext recordId remaining ok" "childrenDecide verifiers meanings shortest"
    "MergeByShortestList_open mem openChild shortest None s0 = Some (b, s)"
    "candidateListFromCache s0 = []" "length (sl_children s0) = length verifiers"
    "ok (sl_children s ! shortest)" "length (remaining (sl_children s ! shortest)) \<le> m"
  shows "\<exists>xs. drain (MergeByShortestList_getNext getNext verifiers vmem penalty) m s = Some xs
    \<and> map recordId xs = filter (passes meanings shortest [0..<length verifiers]) (remaining (sl_children s ! shortest))"
proof -
  have loc: "shortest_list getNext remaining ok" by (rule shortest_list.intro [OF assms(1)])
  let ?left = "slRemaining remaining meanings (length verifiers) shortest s"
  have left: "?left = filter (passes meanings shortest [0..<length verifiers]) (remaining (sl_children s ! shortest))"
    using open_fresh [OF assms(3)] assms(4) by (simp add: slRemaining_def)
  have "slOk remaining ok verifiers meanings shortest s"
    using open_fresh [OF assms(3)] assms(2,5,6) by (simp add: slOk_def)
  moreover have "length ?left \<le> m" unfolding left using assms(7) length_filter_le order_trans by blast
  ultimately show ?thesis using shortest_list.merged_drain_all [OF loc, of verifiers meanings shortest s m vmem penalty] left by simp
qed

interpretation byIdScan: shortest_list SortById_getNext "\<lambda>s. sort (map recordId (records s))" idHeap
  verifiers meanings shortest for verifiers meanings shortest
  by (rule shortest_list.intro) (rule sortById.record_stream_axioms)

text \<open>Two children: records 2, 4 and 7 sorted by id, and a prefix that only record 7 has.\<close>

definition sampleItem :: "u32 \<Rightarrow> PhysicalPlanRecordItem" where
  "sampleItem rid = (RecordItem_new undefined)\<lparr>recordId := rid\<rparr>"

definition sampleMerge :: "u32 list \<Rightarrow> unit SortByIdOperator MergeByShortestListOperator" where
  "sampleMerge rids = (let c = \<lparr>si_child = (), records = map sampleItem rids\<rparr> in \<lparr>sl_children = [c, c],
     hasQueryEvaluator = True, indexOfShortestListChild = 0, isShortestListFinished = False,
     indexOfCandidateListFromCache = 0, candidateListFromCache = [], candidateListForCache = []\<rparr>)"

definition sampleVerifiers :: "verifier list" where
  "sampleVerifiers = (let v = verifyByRandomAccess sampleHaveWord (\<lambda>_. None) (samplePrefix 2 5) in [v, v])"

definition sampleMeanings :: "nat \<Rightarrow> u32 \<Rightarrow> bool" where
  "sampleMeanings i = holds sampleHaveWord (\<lambda>_. None) (samplePrefix 2 5)"

lemma sampleVerifiers_decide: "childrenDecide sampleVerifiers sampleMeanings 0"
proof -
  have "decides (verifyByRandomAccess sampleHaveWord (\<lambda>_. None) (samplePrefix 2 5)) (sampleMeanings i)" for i
    unfolding sampleMeanings_def by (rule decides_tree) (simp add: samplePrefix_def sampleTerm_def)
  then show ?thesis by (auto simp: childrenDecide_def sampleVerifiers_def Let_def less_Suc_eq)
qed

lemma length_sample: "length sampleVerifiers = 2"
  by (simp add: sampleVerifiers_def Let_def)

lemma sample_passes: "passes sampleMeanings 0 [0..<length sampleVerifiers] rid \<longleftrightarrow> rid = 7"
  by (simp add: passes_def sampleMeanings_def sampleVerifiers_def sample_defs Let_def)

theorem MergeByShortestList_delivers_witness:
  "\<exists>s xs. MergeByShortestList_open undefined (\<lambda>_ c. Some c) 0 (None :: unit MergeByShortestListCacheEntry option) (sampleMerge [2, 4, 7])
      = Some (True, s)
    \<and> drain (MergeByShortestList_getNext SortById_getNext sampleVerifiers undefined 1) 3 s = Some xs \<and> map recordId xs = [7]"
proof -
  obtain s where s: "MergeByShortestList_open undefined (\<lambda>_ c. Some c) 0 (None :: unit MergeByShortestListCacheEntry option) (sampleMerge [2, 4, 7])
      = Some (True, s)" and c: "sl_children s = sl_children (sampleMerge [2, 4, 7])"
    by (simp add: MergeByShortestList_open_def sampleMerge_def Let_def)
  have "sort (map recordId (records (sl_children s ! 0))) = [2, 4, 7]"
    by (simp add: c sampleMerge_def sampleItem_def Let_def comp_def)
  moreover have "idHeap (sl_children s ! 0)"
    by (rule idHeap_sorted) (simp add: c sampleMerge_def sampleItem_def Let_def comp_def)
  ultimately show ?thesis using MergeByShortestList_delivers [OF sortById.record_stream_axioms sampleVerifiers_decide s, of 3 undefined 1] s sample_passes
    by (auto simp: sampleMerge_def sample_passes length_sample Let_def)
qed

end
