(* ===== verification/Keyword_Search.thy ===== *)
theory Keyword_Search
  imports Sort_Operators
begin

text \<open>
  The operator that runs the core plan of a query,
  \<^verbatim>\<open>src/src/core/operation/physical_plan/KeywordSearchOperator.cpp\<close>: the exact plan first, then the fuzzy
  one when there are not enough results, without repeating a record. Building a plan (annotation by the
  histogram manager and optimisation) is an argument: for a value of the fuzzy flag it yields the
  opened plan, or no plan.
\<close>

section \<open>The operator\<close>

datatype QueryType = SearchTypeTopKQuery | SearchTypeGetAllResultsQuery | SearchTypeRetrieveById

text \<open>The offset and the number of rows are of type \<^verbatim>\<open>int\<close>; their sum is converted to 32 bits without sign.\<close>

record LogicalPlan =
  queryType :: QueryType
  lp_offset :: u32
  numberOfResultsToRetrieve :: u32
  fuzzy :: bool

record KeywordSearchOperator =
  logicalPlan :: "LogicalPlan option"
  results :: "PhysicalPlanRecordItem list"
  cursorOnResults :: nat

record RuntimeParameters =
  getAllMaximumNumberOfResults :: u32
  getAllTopKReplacementK :: u32

definition numberOfResultsToRetrievePolicy :: "RuntimeParameters \<Rightarrow> u32 \<Rightarrow> LogicalPlan \<Rightarrow> u32" where
  "numberOfResultsToRetrievePolicy runtime estimated plan =
    (case queryType plan of
      SearchTypeTopKQuery \<Rightarrow> lp_offset plan + numberOfResultsToRetrieve plan
    | SearchTypeGetAllResultsQuery \<Rightarrow>
        if estimated > getAllMaximumNumberOfResults runtime then getAllTopKReplacementK runtime else - 1
    | SearchTypeRetrieveById \<Rightarrow> 0)"

partial_function (option) collectLoop ::
  "('s, PhysicalPlanRecordItem) next_fun \<Rightarrow> u32 \<Rightarrow> u32 list \<Rightarrow> PhysicalPlanRecordItem list \<Rightarrow> 's \<Rightarrow>
    (u32 list \<times> PhysicalPlanRecordItem list) option" where
  "collectLoop getNext k resultIds rs s = do {
     (newRecord, s) \<leftarrow> getNext s;
     case newRecord of
       None \<Rightarrow> Some (resultIds, rs)
     | Some r \<Rightarrow>
         if recordId r \<in> set resultIds then collectLoop getNext k resultIds rs s
         else if length (resultIds @ [recordId r]) \<ge> unat k then Some (resultIds @ [recordId r], rs @ [r])
         else collectLoop getNext k (resultIds @ [recordId r]) (rs @ [r]) s
   }"

declare collectLoop.simps [code]

text \<open>One round of the policy: the plan for the fuzzy flag in force; no plan ends the search.\<close>

definition searchRound ::
  "RuntimeParameters \<Rightarrow> (bool \<Rightarrow> 's option) \<Rightarrow> (bool \<Rightarrow> u32) \<Rightarrow> ('s, PhysicalPlanRecordItem) next_fun \<Rightarrow>
    LogicalPlan \<Rightarrow> u32 list \<Rightarrow> PhysicalPlanRecordItem list \<Rightarrow>
    (u32 \<times> (u32 list \<times> PhysicalPlanRecordItem list) option) option" where
  "searchRound runtime buildPlan estimated getNext plan resultIds rs =
    (let k = numberOfResultsToRetrievePolicy runtime (estimated (fuzzy plan)) plan
     in case buildPlan (fuzzy plan) of
          None \<Rightarrow> Some (k, None)
        | Some s \<Rightarrow> do { found \<leftarrow> collectLoop getNext k resultIds rs s; Some (k, Some found) })"

definition KeywordSearch_open ::
  "RuntimeParameters \<Rightarrow> (bool \<Rightarrow> 's option) \<Rightarrow> (bool \<Rightarrow> u32) \<Rightarrow> ('s, PhysicalPlanRecordItem) next_fun \<Rightarrow>
    KeywordSearchOperator \<Rightarrow> (bool \<times> KeywordSearchOperator) option" where
  "KeywordSearch_open runtime buildPlan estimated getNext op = do {
     plan \<leftarrow> logicalPlan op;
     let isFuzzy = fuzzy plan;
     let getAll = (queryType plan = SearchTypeGetAllResultsQuery);
     let plan = plan\<lparr>fuzzy := getAll \<and> isFuzzy\<rparr>;
     (k, found) \<leftarrow> searchRound runtime buildPlan estimated getNext plan [] (results op);
     case found of
       None \<Rightarrow> Some (True, op\<lparr>logicalPlan := Some plan\<rparr>)
     | Some (resultIds, rs) \<Rightarrow>
         if getAll \<or> \<not> (isFuzzy \<and> length rs < unat k)
         then Some (True, op\<lparr>logicalPlan := Some plan, results := rs, cursorOnResults := 0\<rparr>)
         else do {
           let plan = plan\<lparr>fuzzy := True\<rparr>;
           (k, found) \<leftarrow> searchRound runtime buildPlan estimated getNext plan resultIds rs;
           case found of
             None \<Rightarrow> Some (True, op\<lparr>logicalPlan := Some plan, results := rs\<rparr>)
           | Some (resultIds, rs) \<Rightarrow>
               Some (True, op\<lparr>logicalPlan := Some plan, results := rs, cursorOnResults := 0\<rparr>)
         }
   }"

definition KeywordSearch_getNext :: "(KeywordSearchOperator, PhysicalPlanRecordItem) next_fun" where
  "KeywordSearch_getNext op =
    (if cursorOnResults op \<ge> length (results op) then Some (None, op)
     else Some (Some (results op ! cursorOnResults op), op\<lparr>cursorOnResults := cursorOnResults op + 1\<rparr>))"

definition KeywordSearch_close :: "KeywordSearchOperator \<Rightarrow> bool \<times> KeywordSearchOperator" where
  "KeywordSearch_close op = (True, op\<lparr>results := [], cursorOnResults := 0, logicalPlan := None\<rparr>)"

section \<open>The results as a stream\<close>

interpretation keywordSearch: record_stream KeywordSearch_getNext id
  "\<lambda>op. drop (cursorOnResults op) (results op)" "\<lambda>_. True"
proof
  fix op :: KeywordSearchOperator and v vs
  assume v: "drop (cursorOnResults op) (results op) = v # vs"
  then have c: "cursorOnResults op < length (results op)" by (metis drop_all linorder_not_less list.distinct(1))
  then have "v = results op ! cursorOnResults op" "vs = drop (Suc (cursorOnResults op)) (results op)"
    using v by (simp_all add: Cons_nth_drop_Suc [symmetric])
  then show "\<exists>x op'. KeywordSearch_getNext op = Some (Some x, op') \<and> id x = v \<and> True \<and> drop (cursorOnResults op') (results op') = vs"
    using c by (simp add: KeywordSearch_getNext_def)
qed (simp add: KeywordSearch_getNext_def)

section \<open>First occurrences\<close>

fun addFirsts :: "'b list \<Rightarrow> 'b list \<Rightarrow> 'b list" where
  "addFirsts seen [] = seen"
| "addFirsts seen (x # xs) = addFirsts (if x \<in> set seen then seen else seen @ [x]) xs"

abbreviation firsts :: "'b list \<Rightarrow> 'b list" where
  "firsts \<equiv> addFirsts []"

lemma addFirsts_append: "addFirsts seen (xs @ ys) = addFirsts (addFirsts seen xs) ys"
  by (induction seen xs rule: addFirsts.induct) auto

lemma set_addFirsts: "set (addFirsts seen xs) = set seen \<union> set xs"
  by (induction seen xs rule: addFirsts.induct) auto

lemma distinct_addFirsts: "distinct seen \<Longrightarrow> distinct (addFirsts seen xs)"
  by (induction seen xs rule: addFirsts.induct) auto

lemma addFirsts_prefix: "\<exists>ys. addFirsts seen xs = seen @ ys"
  by (induction seen xs rule: addFirsts.induct) (auto simp: append_assoc)

lemma take_addFirsts: "length seen \<ge> k \<Longrightarrow> take k (addFirsts seen xs) = take k seen"
  using addFirsts_prefix [of seen xs] by auto

section \<open>What a search finds\<close>

locale search_plan = record_stream getNext recordId remaining ok
  for getNext :: "'s \<Rightarrow> (PhysicalPlanRecordItem option \<times> 's) option" and remaining :: "'s \<Rightarrow> u32 list"
    and ok :: "'s \<Rightarrow> bool"
begin

text \<open>The loop stops at the first new record that completes \<open>k\<close> results: it always takes one.\<close>

lemma collectLoop_firsts:
  assumes "ok s"
  shows "\<exists>rs'. collectLoop getNext k (map recordId rs) rs s = Some (map recordId rs', rs')
    \<and> map recordId rs' = take (max (unat k) (length rs + 1)) (addFirsts (map recordId rs) (remaining s))"
  using assms
proof (induction "remaining s" arbitrary: s rs rule: length_induct)
  case 1
  note unfold = collectLoop.simps [of getNext k "map recordId rs" rs s]
  from 1(2) show ?case
  proof (cases rule: getNext_cases)
    case (finished s')
    then show ?thesis using unfold by (simp add: max_def)
  next
    case (item r s')
    have less: "length (remaining s') < length (remaining s)" using item(1) by simp
    show ?thesis
    proof (cases "recordId r \<in> set (map recordId rs)")
      case True
      then show ?thesis using 1(1) less item unfold by auto
    next
      case new: False
      show ?thesis
      proof (cases "length (map recordId rs @ [recordId r]) \<ge> unat k")
        case True
        then have m: "max (unat k) (length rs + 1) = length (map recordId (rs @ [r]))" by simp
        have "take (length (map recordId (rs @ [r]))) (addFirsts (map recordId (rs @ [r])) (remaining s')) = map recordId (rs @ [r])"
          by (subst take_addFirsts) simp_all
        then show ?thesis using True new item unfold m by (intro exI [of _ "rs @ [r]"]) simp
      next
        case False
        then have m: "max (unat k) (length (rs @ [r]) + 1) = unat k" "max (unat k) (length rs + 1) = unat k" by simp_all
        have "\<exists>rs'. collectLoop getNext k (map recordId (rs @ [r])) (rs @ [r]) s' = Some (map recordId rs', rs')
          \<and> map recordId rs' = take (max (unat k) (length (rs @ [r]) + 1)) (addFirsts (map recordId (rs @ [r])) (remaining s'))"
          using 1(1) less item(3) by blast
        then show ?thesis using False new item unfold m by auto
      qed
    qed
  qed
qed

lemma searchRound_firsts:
  assumes "buildPlan (fuzzy plan) = Some s" "ok s"
    "k = numberOfResultsToRetrievePolicy runtime (estimated (fuzzy plan)) plan"
  shows "\<exists>rs'. searchRound runtime buildPlan estimated getNext plan (map recordId rs) rs
      = Some (k, Some (map recordId rs', rs'))
    \<and> map recordId rs' = take (max (unat k) (length rs + 1)) (addFirsts (map recordId rs) (remaining s))"
  using collectLoop_firsts [OF assms(2), of k rs] assms by (auto simp: searchRound_def Let_def)

end

interpretation byIdPlan: search_plan SortById_getNext "\<lambda>s. sort (map recordId (records s))" idHeap
  by (rule search_plan.intro) (rule sortById.record_stream_axioms)

text \<open>
  C26. A top-k search with a positive number of wanted results returns, and its results are the first \<open>k\<close>
  distinct records of the exact plan followed, when the query is fuzzy, by those of the fuzzy plan:
  exact matches come first and no record is repeated.
\<close>

theorem keyword_search_results:
  assumes "record_stream getNext recordId remaining ok"
    "logicalPlan op = Some plan" "queryType plan = SearchTypeTopKQuery" "results op = []"
    "buildPlan False = Some e" "ok e" "buildPlan True = Some f" "ok f"
    "0 < unat (lp_offset plan + numberOfResultsToRetrieve plan)"
  shows "\<exists>op'. KeywordSearch_open runtime buildPlan estimated getNext op = Some (True, op') \<and> cursorOnResults op' = 0
    \<and> map recordId (results op') = take (unat (lp_offset plan + numberOfResultsToRetrieve plan))
        (firsts (remaining e @ (if fuzzy plan then remaining f else [])))"
proof -
  let ?k = "lp_offset plan + numberOfResultsToRetrieve plan"
  let ?p = "plan\<lparr>fuzzy := False\<rparr>" and ?q = "plan\<lparr>fuzzy := True\<rparr>"
  note search = search_plan.searchRound_firsts [OF search_plan.intro [OF assms(1)]]
  have k: "?k = numberOfResultsToRetrievePolicy runtime x (plan\<lparr>fuzzy := b\<rparr>)" for x b
    using assms(3) by (simp add: numberOfResultsToRetrievePolicy_def)
  obtain rs where rs: "searchRound runtime buildPlan estimated getNext ?p [] [] = Some (?k, Some (map recordId rs, rs))"
    "map recordId rs = take (unat ?k) (firsts (remaining e))"
  proof -
    have "max (unat ?k) (length [] + 1) = unat ?k" using assms(9) by simp
    then show thesis using search [of buildPlan ?p e ?k runtime estimated "[]"] assms(5,6) k that by auto
  qed
  show ?thesis
  proof (cases "fuzzy plan \<and> length rs < unat ?k")
    case False
    have "take (unat ?k) (firsts (remaining e @ remaining f)) = take (unat ?k) (firsts (remaining e))" if "fuzzy plan"
    proof -
      have "length (firsts (remaining e)) \<ge> unat ?k"
        using False that arg_cong [OF rs(2), of length] by (simp add: min_def split: if_splits)
      then show ?thesis unfolding addFirsts_append by (rule take_addFirsts)
    qed
    then show ?thesis using rs False assms(2-4) by (auto simp: KeywordSearch_open_def Let_def)
  next
    case True
    have all: "map recordId rs = firsts (remaining e)"
    proof -
      have "length rs = min (length (firsts (remaining e))) (unat ?k)" using arg_cong [OF rs(2), of length] by simp
      then have "length (firsts (remaining e)) \<le> unat ?k" using True by linarith
      then show ?thesis using rs(2) by simp
    qed
    obtain rs' where "searchRound runtime buildPlan estimated getNext ?q (map recordId rs) rs
        = Some (?k, Some (map recordId rs', rs'))"
      "map recordId rs' = take (unat ?k) (addFirsts (map recordId rs) (remaining f))"
    proof -
      have "max (unat ?k) (length rs + 1) = unat ?k" using True by simp
      then show thesis using search [of buildPlan ?q f ?k runtime estimated rs] assms(7,8) k that by auto
    qed
    then show ?thesis using rs True assms(2-4) all
      by (auto simp: KeywordSearch_open_def Let_def addFirsts_append)
  qed
qed

text \<open>
  When offset plus rows is zero modulo \<open>2 ^ 32\<close>, a top-k search still delivers one record, if the exact
  plan has one: the number of results is compared only after a record has been added.
\<close>

theorem keyword_search_zero_rows:
  assumes "record_stream getNext recordId remaining ok"
    "logicalPlan op = Some plan" "queryType plan = SearchTypeTopKQuery" "results op = []"
    "buildPlan False = Some e" "ok e" "lp_offset plan + numberOfResultsToRetrieve plan = 0"
  shows "\<exists>op'. KeywordSearch_open runtime buildPlan estimated getNext op = Some (True, op')
    \<and> map recordId (results op') = take 1 (remaining e)"
proof -
  let ?p = "plan\<lparr>fuzzy := False\<rparr>"
  have k: "0 = numberOfResultsToRetrievePolicy runtime x ?p" for x
    using assms(3,7) by (simp add: numberOfResultsToRetrievePolicy_def)
  have "take 1 (firsts (remaining e)) = take 1 (remaining e)"
    by (cases "remaining e") (simp_all add: take_addFirsts)
  then obtain rs where "searchRound runtime buildPlan estimated getNext ?p [] [] = Some (0, Some (map recordId rs, rs))"
    "map recordId rs = take 1 (remaining e)"
    using search_plan.searchRound_firsts [OF search_plan.intro [OF assms(1)], of buildPlan ?p e 0 runtime estimated "[]"]
      assms(5,6) k by auto
  then show ?thesis using assms(2-4) by (auto simp: KeywordSearch_open_def Let_def)
qed

definition samplePlan :: "u32 list \<Rightarrow> unit SortByIdOperator" where
  "samplePlan rids = \<lparr>si_child = (), records = map (\<lambda>rid. (RecordItem_new undefined)\<lparr>recordId := rid\<rparr>) rids\<rparr>"

definition sampleSearch :: "u32 \<Rightarrow> KeywordSearchOperator" where
  "sampleSearch rows = \<lparr>logicalPlan = Some \<lparr>queryType = SearchTypeTopKQuery, lp_offset = 0,
     numberOfResultsToRetrieve = rows, fuzzy = True\<rparr>, results = [], cursorOnResults = 5\<rparr>"

theorem keyword_search_results_witness:
  "\<exists>op'. KeywordSearch_open undefined (\<lambda>b. Some (samplePlan (if b then [1, 4, 6, 8] else [4, 9]))) undefined SortById_getNext
      (sampleSearch 4) = Some (True, op') \<and> map recordId (results op') = [4, 9, 1, 6]"
  using keyword_search_results [OF sortById.record_stream_axioms, of "sampleSearch 4" "the (logicalPlan (sampleSearch 4))"
      "\<lambda>b. Some (samplePlan (if b then [1, 4, 6, 8] else [4, 9]))" "samplePlan [4, 9]" "samplePlan [1, 4, 6, 8]" undefined undefined]
  by (auto simp: sampleSearch_def samplePlan_def comp_def idHeap_sorted)

theorem keyword_search_zero_rows_witness:
  "\<exists>op'. KeywordSearch_open undefined (\<lambda>b. Some (samplePlan [4, 9])) undefined SortById_getNext
      (sampleSearch 0) = Some (True, op') \<and> map recordId (results op') = [4]"
  using keyword_search_zero_rows [OF sortById.record_stream_axioms, of "sampleSearch 0" "the (logicalPlan (sampleSearch 0))"
      "\<lambda>b. Some (samplePlan [4, 9])" "samplePlan [4, 9]" undefined undefined]
  by (auto simp: sampleSearch_def samplePlan_def comp_def idHeap_sorted)

end
