(* ===== verification/Cow_Vector.thy ===== *)
theory Cow_Vector
  imports Record_Stream
begin

text \<open>
  The copy-on-write vector of the indexes, \<^verbatim>\<open>src/src/core/util/cowvector/cowvector.h\<close>: readers hold shared
  read views while the one writer appends to its write view, and the views share arrays until the writer
  has to reallocate. Arrays and views live in stores from addresses; \<open>None\<close> stands for an address that is
  not allocated, and as a result for a failed assertion, a use after free or a double free.
  \<open>readers\<close> counts the shared pointers that readers hold. The operations that hold the spin lock are
  atomic, and so are the others, each of which the one writer or one reader runs.
\<close>

section \<open>Size and flags\<close>

text \<open>A view keeps its size in 30 bits and two flags above. The masks \<open>1 << 31\<close> are negative integers,
  which the conversion to 64 bits extends by their sign.\<close>

definition needToFreeMask :: u64 where "needToFreeMask = 0x40000000"
definition writeViewMask :: u64 where "writeViewMask = 0xFFFFFFFF80000000"
definition sizeMask :: u64 where "sizeMask = 0x3FFFFFFF"
definition flagsMask :: u64 where "flagsMask = 0xC0000000"

definition getNeedToFreeArray :: "u64 \<Rightarrow> bool" where
  "getNeedToFreeArray f \<longleftrightarrow> f AND needToFreeMask \<noteq> 0"

definition setNeedToFreeArray :: "bool \<Rightarrow> u64 \<Rightarrow> u64" where
  "setNeedToFreeArray flag f = (if flag then f OR needToFreeMask else f AND NOT needToFreeMask)"

definition setWriteView :: "u64 \<Rightarrow> u64" where
  "setWriteView f = f OR writeViewMask"

definition setReadView :: "u64 \<Rightarrow> u64" where
  "setReadView f = f AND NOT writeViewMask"

definition isWriteView :: "u64 \<Rightarrow> bool" where
  "isWriteView f \<longleftrightarrow> f AND writeViewMask \<noteq> 0"

definition isReadView :: "u64 \<Rightarrow> bool" where
  "isReadView f \<longleftrightarrow> \<not> isWriteView f"

definition view_size :: "u64 \<Rightarrow> nat" where
  "view_size f = unat (f AND sizeMask)"

definition setSize :: "nat \<Rightarrow> u64 \<Rightarrow> u64" where
  "setSize n f = (f AND flagsMask) OR (of_nat n AND sizeMask)"

lemma sizeMask_mask: "sizeMask = mask 30"
  by (simp add: sizeMask_def mask_eq_exp_minus_1)

lemma mask_bits:
  "bit needToFreeMask i \<longleftrightarrow> i = 30" "bit writeViewMask i \<longleftrightarrow> 31 \<le> i \<and> i < 64"
  "bit sizeMask i \<longleftrightarrow> i < 30" "bit flagsMask i \<longleftrightarrow> i = 30 \<or> i = 31"
proof -
  have "needToFreeMask = push_bit 30 1" "writeViewMask = push_bit 31 (mask 33)" "flagsMask = push_bit 30 (mask 2)"
    by (simp_all add: needToFreeMask_def writeViewMask_def flagsMask_def push_bit_eq_mult mask_eq_exp_minus_1)
  note e = this
  show "bit needToFreeMask i \<longleftrightarrow> i = 30" by (simp only: e bit_push_bit_iff bit_1_iff) auto
  show "bit writeViewMask i \<longleftrightarrow> 31 \<le> i \<and> i < 64" by (simp only: e bit_push_bit_iff bit_mask_iff) auto
  show "bit sizeMask i \<longleftrightarrow> i < 30" by (simp only: sizeMask_mask bit_mask_iff) auto
  show "bit flagsMask i \<longleftrightarrow> i = 30 \<or> i = 31" by (simp only: e bit_push_bit_iff bit_mask_iff) auto
qed

lemma and_nonzero_iff: "f AND m \<noteq> 0 \<longleftrightarrow> (\<exists>i. bit f i \<and> bit m i)" for f m :: u64
  unfolding word_eq_0_iff_bits bit_and_iff using bit_imp_le_length [of f] by blast

lemma getNeedToFreeArray_bit: "getNeedToFreeArray f \<longleftrightarrow> bit f 30"
  by (auto simp: getNeedToFreeArray_def and_nonzero_iff mask_bits)

lemma isWriteView_bit: "bit f 31 \<Longrightarrow> isWriteView f"
  by (auto simp: isWriteView_def and_nonzero_iff mask_bits intro!: exI [of _ 31])

lemma view_size_take_bit: "view_size f = unat (take_bit 30 f)"
  by (simp add: view_size_def sizeMask_mask take_bit_eq_mask)

lemma view_size_eqI: "(\<And>i. i < 30 \<Longrightarrow> bit f i = bit g i) \<Longrightarrow> view_size f = view_size g"
  unfolding view_size_take_bit by (rule arg_cong [where f = unat], rule bit_eqI) (auto simp: bit_take_bit_iff)

lemma flag_simps [simp]:
  "getNeedToFreeArray (setNeedToFreeArray b f) = b" "getNeedToFreeArray (setWriteView f) = getNeedToFreeArray f"
  "getNeedToFreeArray (setReadView f) = getNeedToFreeArray f" "getNeedToFreeArray (setSize n f) = getNeedToFreeArray f"
  "view_size (setNeedToFreeArray b f) = view_size f" "view_size (setWriteView f) = view_size f"
  "view_size (setReadView f) = view_size f"
  "bit (setNeedToFreeArray b f) 31 = bit f 31" "bit (setWriteView f) 31" "bit (setSize n f) 31 = bit f 31"
  by (auto simp: getNeedToFreeArray_bit setNeedToFreeArray_def setWriteView_def setReadView_def setSize_def
      bit_or_iff bit_and_iff bit_not_iff mask_bits intro!: view_size_eqI)

lemma isReadView_setReadView [simp]: "isReadView (setReadView f)"
  by (auto simp: isReadView_def isWriteView_def setReadView_def and_nonzero_iff bit_and_iff bit_not_iff mask_bits)

lemma view_size_setSize [simp]: "n < 2 ^ 30 \<Longrightarrow> view_size (setSize n f) = n"
proof -
  assume n: "n < 2 ^ 30"
  have "view_size (setSize n f) = view_size (of_nat n)"
    by (rule view_size_eqI) (auto simp: setSize_def bit_or_iff bit_and_iff mask_bits)
  also have "\<dots> = n" using n by (simp add: view_size_take_bit unat_of_nat unsigned_take_bit_eq take_bit_nat_eq_self_iff)
  finally show ?thesis .
qed

section \<open>Views and arrays\<close>

record vectorview =
  m_array :: nat
  m_sizeAndFlags :: u64

text \<open>The views of a reader and of the writer, the generations of kept read views, and the stores.\<close>

record 'a cowvector =
  arrays :: "nat \<Rightarrow> 'a list option"
  views :: "nat \<Rightarrow> vectorview option"
  m_readView :: nat
  m_writeView :: nat
  readers :: "nat \<Rightarrow> nat"
  readViewGenerations :: "nat list list"
  nextArray :: nat
  nextView :: nat

text \<open>\<open>mem\<close> is the content of fresh memory and \<open>g\<close> the content of a field before its first assignment.\<close>

definition deleteArray :: "nat \<Rightarrow> 'a cowvector \<Rightarrow> 'a cowvector option" where
  "deleteArray a s = (case arrays s a of None \<Rightarrow> None | Some _ \<Rightarrow> Some (s\<lparr>arrays := (arrays s)(a := None)\<rparr>))"

definition deleteView :: "nat \<Rightarrow> 'a cowvector \<Rightarrow> 'a cowvector option" where
  "deleteView v s = do {
     view \<leftarrow> views s v;
     let s = s\<lparr>views := (views s)(v := None)\<rparr>;
     if isReadView (m_sizeAndFlags view) \<and> getNeedToFreeArray (m_sizeAndFlags view)
     then deleteArray (m_array view) s else Some s
   }"

text \<open>The number of shared pointers to a view, and the release of one.\<close>

definition useCount :: "nat \<Rightarrow> 'a cowvector \<Rightarrow> nat" where
  "useCount v s = readers s v + (if v = m_readView s then 1 else 0) + count_list (concat (readViewGenerations s)) v"

definition dropIfUnused :: "nat \<Rightarrow> 'a cowvector \<Rightarrow> 'a cowvector option" where
  "dropIfUnused v s = (if useCount v s = 0 then deleteView v s else Some s)"

definition newView :: "nat \<Rightarrow> u64 \<Rightarrow> vectorview" where
  "newView a g = \<lparr>m_array = a, m_sizeAndFlags = setNeedToFreeArray True (setWriteView (setSize 0 g))\<rparr>"

definition copyView :: "u64 \<Rightarrow> vectorview \<Rightarrow> vectorview" where
  "copyView g vv = \<lparr>m_array = m_array vv,
     m_sizeAndFlags = setNeedToFreeArray False (setWriteView (setSize (view_size (m_sizeAndFlags vv)) g))\<rparr>"

definition cow_new :: "(nat \<Rightarrow> 'a) \<Rightarrow> u64 \<Rightarrow> nat \<Rightarrow> 'a cowvector" where
  "cow_new mem g capacity = \<lparr>arrays = [0 \<mapsto> map mem [0..<capacity]], views = [0 \<mapsto> newView 0 g],
     m_readView = 0, m_writeView = 0, readers = (\<lambda>_. 0), readViewGenerations = [[]], nextArray = 1, nextView = 1\<rparr>"

section \<open>The write view\<close>

function growCapacity :: "nat \<Rightarrow> nat \<Rightarrow> nat" where
  "growCapacity i capacity = (if i \<ge> capacity then growCapacity i (capacity * 2 + 1) else capacity)"
  by auto
termination by (relation "measure (\<lambda>(i, capacity). Suc i - capacity)") auto

declare growCapacity.simps [simp del]

text \<open>\<open>at\<close> returns the array of the element. Arrays are copied with \<^verbatim>\<open>memcpy\<close>, the rest of the new array is
  uninitialised.\<close>

definition reallocate :: "(nat \<Rightarrow> 'a) \<Rightarrow> nat \<Rightarrow> vectorview \<Rightarrow> 'a list \<Rightarrow> 'a cowvector \<Rightarrow> (vectorview \<times> 'a cowvector) option" where
  "reallocate mem capacity w extent s =
    (let n = view_size (m_sizeAndFlags w); acopy = nextArray s;
         s = s\<lparr>arrays := (arrays s)(acopy \<mapsto> take n extent @ map mem [n..<capacity]), nextArray := nextArray s + 1\<rparr>
     in if \<not> getNeedToFreeArray (m_sizeAndFlags w)
        then Some (w\<lparr>m_array := acopy, m_sizeAndFlags := setNeedToFreeArray True (m_sizeAndFlags w)\<rparr>, s)
        else do { s \<leftarrow> deleteArray (m_array w) s; Some (w\<lparr>m_array := acopy\<rparr>, s) })"

definition cow_at :: "(nat \<Rightarrow> 'a) \<Rightarrow> nat \<Rightarrow> 'a cowvector \<Rightarrow> (nat \<times> 'a cowvector) option" where
  "cow_at mem i s = do {
     w \<leftarrow> views s (m_writeView s);
     extent \<leftarrow> arrays s (m_array w);
     if isWriteView (m_sizeAndFlags w) \<or> i < view_size (m_sizeAndFlags w)
     then do {
       (w, s) \<leftarrow> (if i \<ge> length extent then reallocate mem (growCapacity i (length extent)) w extent s else Some (w, s));
       let w = (if i \<ge> view_size (m_sizeAndFlags w) then w\<lparr>m_sizeAndFlags := setSize (i + 1) (m_sizeAndFlags w)\<rparr> else w);
       Some (m_array w, s\<lparr>views := (views s)(m_writeView s \<mapsto> w)\<rparr>)
     }
     else None
   }"

definition cow_assign :: "(nat \<Rightarrow> 'a) \<Rightarrow> nat \<Rightarrow> 'a \<Rightarrow> 'a cowvector \<Rightarrow> 'a cowvector option" where
  "cow_assign mem i x s = do {
     (a, s) \<leftarrow> cow_at mem i s;
     extent \<leftarrow> arrays s a;
     if i < length extent then Some (s\<lparr>arrays := (arrays s)(a \<mapsto> extent[i := x])\<rparr>) else None
   }"

definition push_back :: "(nat \<Rightarrow> 'a) \<Rightarrow> 'a \<Rightarrow> 'a cowvector \<Rightarrow> 'a cowvector option" where
  "push_back mem x s = do {
     w \<leftarrow> views s (m_writeView s);
     if isWriteView (m_sizeAndFlags w) then cow_assign mem (view_size (m_sizeAndFlags w)) x s else None
   }"

definition forceCreateCopy :: "(nat \<Rightarrow> 'a) \<Rightarrow> 'a cowvector \<Rightarrow> 'a cowvector option" where
  "forceCreateCopy mem s = do {
     w \<leftarrow> views s (m_writeView s);
     extent \<leftarrow> arrays s (m_array w);
     (w, s) \<leftarrow> reallocate mem (length extent) w extent s;
     Some (s\<lparr>views := (views s)(m_writeView s \<mapsto> w)\<rparr>)
   }"

section \<open>Readers\<close>

definition getReadView :: "'a cowvector \<Rightarrow> nat \<times> 'a cowvector" where
  "getReadView s = (m_readView s, s\<lparr>readers := (readers s)(m_readView s := readers s (m_readView s) + 1)\<rparr>)"

definition releaseView :: "nat \<Rightarrow> 'a cowvector \<Rightarrow> 'a cowvector option" where
  "releaseView v s = (if readers s v = 0 then None
     else dropIfUnused v (s\<lparr>readers := (readers s)(v := readers s v - 1)\<rparr>))"

definition getElement :: "nat \<Rightarrow> nat \<Rightarrow> 'a cowvector \<Rightarrow> 'a option" where
  "getElement v i s = do { view \<leftarrow> views s v; extent \<leftarrow> arrays s (m_array view); nth_opt extent i }"

section \<open>Commit and merge\<close>

definition commit :: "u64 \<Rightarrow> 'a cowvector \<Rightarrow> 'a cowvector option" where
  "commit g s = do {
     r \<leftarrow> views s (m_readView s);
     let r = r\<lparr>m_sizeAndFlags := setReadView (m_sizeAndFlags r)\<rparr>;
     Some (s\<lparr>views := (views s)(m_readView s \<mapsto> r, nextView s \<mapsto> copyView g r), m_writeView := nextView s,
       nextView := nextView s + 1\<rparr>)
   }"

text \<open>The generations before the last are cleared when no reader holds one of their views.\<close>

fun deleteViews :: "nat list \<Rightarrow> 'a cowvector \<Rightarrow> 'a cowvector option" where
  "deleteViews [] s = Some s"
| "deleteViews (v # vs) s = do { s \<leftarrow> deleteView v s; deleteViews vs s }"

fun cleanGenerations :: "nat list list \<Rightarrow> 'a cowvector \<Rightarrow> (nat list list \<times> 'a cowvector) option" where
  "cleanGenerations [] s = Some ([], s)"
| "cleanGenerations (readViewGroups # generations) s =
    (if generations = [] then Some ([readViewGroups], s)
     else if \<forall>v \<in> set readViewGroups. useCount v s = 1
     then do {
       s \<leftarrow> deleteViews readViewGroups s;
       (generations, s) \<leftarrow> cleanGenerations generations s;
       Some ([] # generations, s)
     }
     else do {
       (generations, s) \<leftarrow> cleanGenerations generations s;
       Some (readViewGroups # generations, s)
     })"

definition cleanReadViews :: "'a cowvector \<Rightarrow> 'a cowvector option" where
  "cleanReadViews s = do {
     (generations, s) \<leftarrow> cleanGenerations (readViewGenerations s) s;
     Some (s\<lparr>readViewGenerations := generations\<rparr>)
   }"

definition storeReadView :: "nat \<Rightarrow> 'a cowvector \<Rightarrow> 'a cowvector" where
  "storeReadView v s = s\<lparr>readViewGenerations :=
     butlast (readViewGenerations s) @ [last (readViewGenerations s) @ [v]]\<rparr>"

definition incrementGeneration :: "'a cowvector \<Rightarrow> 'a cowvector" where
  "incrementGeneration s = s\<lparr>readViewGenerations := readViewGenerations s @ [[]]\<rparr>"

text \<open>\<open>managed\<close> says whether the caller passes a read view manager.\<close>

definition retireReadView :: "bool \<Rightarrow> 'a cowvector \<Rightarrow> 'a cowvector option" where
  "retireReadView managed s = do {
     r \<leftarrow> views s (m_readView s);
     w \<leftarrow> views s (m_writeView s);
     if m_array r = m_array w
     then do {
       let s = s\<lparr>views := (views s)(m_readView s \<mapsto> r\<lparr>m_sizeAndFlags := setNeedToFreeArray False (m_sizeAndFlags r)\<rparr>)\<rparr>;
       Some (if managed \<and> useCount (m_readView s) s \<noteq> 1 then storeReadView (m_readView s) s else s)
     }
     else do {
       let s = s\<lparr>views := (views s)(m_readView s \<mapsto> r\<lparr>m_sizeAndFlags := setNeedToFreeArray True (m_sizeAndFlags r)\<rparr>)\<rparr>;
       Some (if managed then incrementGeneration (storeReadView (m_readView s) s) else s)
     }
   }"

text \<open>The read view becomes the write view, which gets a successor.\<close>

definition finishMerge :: "u64 \<Rightarrow> 'a cowvector \<Rightarrow> 'a cowvector option" where
  "finishMerge g s = do {
     s \<leftarrow> dropIfUnused (m_readView s) (s\<lparr>m_readView := m_writeView s\<rparr>);
     r \<leftarrow> views s (m_readView s);
     let r = r\<lparr>m_sizeAndFlags := setReadView (m_sizeAndFlags r)\<rparr>;
     Some (s\<lparr>views := (views s)(m_readView s \<mapsto> r, nextView s \<mapsto> copyView g r), m_writeView := nextView s,
       nextView := nextView s + 1\<rparr>)
   }"

definition merge :: "bool \<Rightarrow> u64 \<Rightarrow> 'a cowvector \<Rightarrow> 'a cowvector option" where
  "merge managed g s =
    (if m_readView s = m_writeView s then None
     else do {
       s \<leftarrow> retireReadView managed s;
       s \<leftarrow> (if managed then cleanReadViews s else Some s);
       finishMerge g s
     })"

section \<open>The invariant\<close>

definition arr :: "'a cowvector \<Rightarrow> nat \<Rightarrow> nat" where
  "arr s v = m_array (the (views s v))"

definition flag :: "'a cowvector \<Rightarrow> nat \<Rightarrow> bool" where
  "flag s v = getNeedToFreeArray (m_sizeAndFlags (the (views s v)))"

definition vsize :: "'a cowvector \<Rightarrow> nat \<Rightarrow> nat" where
  "vsize s v = view_size (m_sizeAndFlags (the (views s v)))"

text \<open>A live view: its array is allocated and has the elements of the view.\<close>

definition live :: "'a cowvector \<Rightarrow> nat \<Rightarrow> bool" where
  "live s v \<longleftrightarrow> v < nextView s \<and> views s v \<noteq> None \<and> arr s v < nextArray s
    \<and> (\<exists>xs. arrays s (arr s v) = Some xs \<and> vsize s v \<le> length xs)"

text \<open>The views of one generation share an array, which only the last of them frees.\<close>

definition groupOk :: "'a cowvector \<Rightarrow> nat list \<Rightarrow> bool" where
  "groupOk s g \<longleftrightarrow> (\<forall>v \<in> set g. arr s v = arr s (last g) \<and> (flag s v \<longleftrightarrow> v = last g))"

definition apart :: "'a cowvector \<Rightarrow> nat list \<Rightarrow> nat list \<Rightarrow> bool" where
  "apart s g h \<longleftrightarrow> (\<forall>v \<in> set g. \<forall>w \<in> set h. arr s v \<noteq> arr s w)"

definition cleanable :: "'a cowvector \<Rightarrow> nat list list \<Rightarrow> bool" where
  "cleanable s gs \<longleftrightarrow> distinct (concat gs) \<and> (\<forall>v \<in> set (concat gs). live s v)
    \<and> (\<forall>g \<in> set gs. groupOk s g) \<and> sorted_wrt (apart s) gs"

definition current :: "'a cowvector \<Rightarrow> nat list" where
  "current s = last (readViewGenerations s)"

definition past :: "'a cowvector \<Rightarrow> nat list list" where
  "past s = butlast (readViewGenerations s)"

definition writerOk :: "'a cowvector \<Rightarrow> bool" where
  "writerOk s \<longleftrightarrow> (if arr s (m_writeView s) = arr s (m_readView s)
     then \<not> flag s (m_writeView s) \<and> (\<forall>v \<in> set (m_readView s # current s). vsize s v \<le> vsize s (m_writeView s))
     else flag s (m_writeView s))"

text \<open>The views other than the write view.\<close>

definition members :: "'a cowvector \<Rightarrow> nat list" where
  "members s = m_readView s # current s @ concat (past s)"

definition cow_inv :: "'a cowvector \<Rightarrow> bool" where
  "cow_inv s \<longleftrightarrow> readViewGenerations s \<noteq> []
    \<and> distinct (m_writeView s # members s)
    \<and> (\<forall>v. views s v \<noteq> None \<longrightarrow> v \<in> set (m_writeView s # members s))
    \<and> (\<forall>v \<in> set (m_writeView s # members s). live s v)
    \<and> (\<forall>v. 0 < readers s v \<longrightarrow> v \<in> set (members s))
    \<and> (\<forall>v \<in> set (current s). arr s v = arr s (m_readView s) \<and> \<not> flag s v)
    \<and> cleanable s (past s)
    \<and> (\<forall>v \<in> set (concat (past s)). arr s v \<noteq> arr s (m_readView s) \<and> arr s v \<noteq> arr s (m_writeView s))
    \<and> writerOk s
    \<and> bit (m_sizeAndFlags (the (views s (m_writeView s)))) 31"

lemma cow_inv_parts:
  assumes "cow_inv s"
  shows "readViewGenerations s \<noteq> []" "distinct (m_writeView s # members s)"
    "\<And>v. views s v \<noteq> None \<Longrightarrow> v \<in> set (m_writeView s # members s)"
    "\<And>v. v \<in> set (m_writeView s # members s) \<Longrightarrow> live s v"
    "\<And>v. 0 < readers s v \<Longrightarrow> v \<in> set (members s)"
    "\<And>v. v \<in> set (current s) \<Longrightarrow> arr s v = arr s (m_readView s) \<and> \<not> flag s v"
    "cleanable s (past s)"
    "\<And>v. v \<in> set (concat (past s)) \<Longrightarrow> arr s v \<noteq> arr s (m_readView s) \<and> arr s v \<noteq> arr s (m_writeView s)"
    "writerOk s" "bit (m_sizeAndFlags (the (views s (m_writeView s)))) 31"
  using assms unfolding cow_inv_def by blast+

lemma cow_invI:
  assumes "readViewGenerations s \<noteq> []" "distinct (m_writeView s # members s)"
    "\<And>v. views s v \<noteq> None \<Longrightarrow> v \<in> set (m_writeView s # members s)"
    "\<And>v. v \<in> set (m_writeView s # members s) \<Longrightarrow> live s v"
    "\<And>v. 0 < readers s v \<Longrightarrow> v \<in> set (members s)"
    "\<And>v. v \<in> set (current s) \<Longrightarrow> arr s v = arr s (m_readView s) \<and> \<not> flag s v"
    "cleanable s (past s)"
    "\<And>v. v \<in> set (concat (past s)) \<Longrightarrow> arr s v \<noteq> arr s (m_readView s) \<and> arr s v \<noteq> arr s (m_writeView s)"
    "writerOk s" "bit (m_sizeAndFlags (the (views s (m_writeView s)))) 31"
  shows "cow_inv s"
  using assms unfolding cow_inv_def by blast

section \<open>Clearing past generations\<close>

text \<open>Views and arrays are deleted, and nothing else changes.\<close>

definition shrunk :: "nat set \<Rightarrow> nat set \<Rightarrow> 'a cowvector \<Rightarrow> 'a cowvector" where
  "shrunk D A s = s\<lparr>views := (views s) |` (- D), arrays := (arrays s) |` (- A)\<rparr>"

lemma restrict_UNIV [simp]: "m |` UNIV = m"
  by (simp add: restrict_map_def)

lemma shrunk_simps [simp]:
  "readers (shrunk D A s) = readers s" "m_readView (shrunk D A s) = m_readView s"
  "m_writeView (shrunk D A s) = m_writeView s" "readViewGenerations (shrunk D A s) = readViewGenerations s"
  "nextArray (shrunk D A s) = nextArray s" "nextView (shrunk D A s) = nextView s"
  "shrunk D A (shrunk E B s) = shrunk (D \<union> E) (A \<union> B) s" "shrunk {} {} s = s"
  "useCount v (shrunk D A s) = useCount v s"
  by (simp_all add: shrunk_def useCount_def Int_commute)

lemma shrunk_accessors [simp]:
  "v \<notin> D \<Longrightarrow> arr (shrunk D A s) v = arr s v" "v \<notin> D \<Longrightarrow> flag (shrunk D A s) v = flag s v"
  "v \<notin> D \<Longrightarrow> vsize (shrunk D A s) v = vsize s v" "v \<notin> D \<Longrightarrow> views (shrunk D A s) v = views s v"
  by (simp_all add: shrunk_def arr_def flag_def vsize_def)

lemma live_shrunk: "live s v \<Longrightarrow> v \<notin> D \<Longrightarrow> arr s v \<notin> A \<Longrightarrow> live (shrunk D A s) v"
  by (auto simp: live_def) (simp_all add: shrunk_def)

lemma deleteView_unflagged:
  assumes "views s v \<noteq> None" "\<not> flag s v" shows "deleteView v s = Some (shrunk {v} {} s)"
  using assms by (auto simp: deleteView_def flag_def shrunk_def Let_def restrict_complement_singleton_eq)

lemma deleteView_live:
  assumes "live s v" shows "\<exists>A \<subseteq> {arr s v}. deleteView v s = Some (shrunk {v} A s)"
proof -
  obtain view xs where v: "views s v = Some view" "arrays s (m_array view) = Some xs"
    using assms by (auto simp: live_def arr_def)
  have e: "\<exists>A \<subseteq> {arr s v}. Some (s\<lparr>views := (views s)(v := None)\<rparr>) = Some (shrunk {v} A s)"
    by (rule exI [of _ "{}"]) (simp add: shrunk_def restrict_complement_singleton_eq)
  have f: "\<exists>A \<subseteq> {arr s v}. Some (s\<lparr>views := (views s)(v := None), arrays := (arrays s)(m_array view := None)\<rparr>) = Some (shrunk {v} A s)"
    by (rule exI [of _ "{arr s v}"]) (simp add: shrunk_def arr_def v restrict_complement_singleton_eq)
  show ?thesis using v e f by (simp add: deleteView_def deleteArray_def Let_def)
qed

lemma deleteViews_unflagged:
  assumes "\<forall>v \<in> set vs. views s v \<noteq> None \<and> \<not> flag s v" "distinct vs"
  shows "deleteViews vs s = Some (shrunk (set vs) {} s)"
  using assms
proof (induction vs arbitrary: s)
  case (Cons v vs)
  have "\<forall>w \<in> set vs. views (shrunk {v} {} s) w \<noteq> None \<and> \<not> flag (shrunk {v} {} s) w"
  proof
    fix w assume "w \<in> set vs"
    then have "w \<notin> {v}" "views s w \<noteq> None" "\<not> flag s w" using Cons.prems by auto
    then show "views (shrunk {v} {} s) w \<noteq> None \<and> \<not> flag (shrunk {v} {} s) w" by simp
  qed
  then show ?case using Cons by (simp add: deleteView_unflagged Un_commute)
qed simp

lemma deleteViews_append: "deleteViews (vs @ ws) s = deleteViews vs s \<bind> deleteViews ws"
  by (induction vs arbitrary: s) (auto simp: bind_eq_None_conv split: bind_splits)

lemma deleteViews_group:
  assumes "groupOk s g" "distinct g" "\<forall>v \<in> set g. live s v"
  shows "\<exists>A \<subseteq> arr s ` set g. deleteViews g s = Some (shrunk (set g) A s)"
proof (cases g rule: rev_cases)
  case (snoc ys z)
  have "\<forall>v \<in> set ys. views s v \<noteq> None \<and> \<not> flag s v"
    using assms snoc by (auto simp: groupOk_def live_def)
  then have d: "deleteViews ys s = Some (shrunk (set ys) {} s)" using assms(2) snoc by (intro deleteViews_unflagged) auto
  have "live (shrunk (set ys) {} s) z" using assms snoc by (intro live_shrunk) auto
  then obtain A where "A \<subseteq> {arr (shrunk (set ys) {} s) z}" "deleteView z (shrunk (set ys) {} s) = Some (shrunk {z} A (shrunk (set ys) {} s))"
    using deleteView_live by blast
  then show ?thesis using d assms(2) snoc by (intro exI [of _ A]) (auto simp: deleteViews_append)
qed (auto intro!: exI [of _ "{}"])

definition cleared :: "'a cowvector \<Rightarrow> nat list \<Rightarrow> bool" where
  "cleared s g \<longleftrightarrow> (\<forall>v \<in> set g. useCount v s = 1)"

definition clearedViews :: "'a cowvector \<Rightarrow> nat list list \<Rightarrow> nat set" where
  "clearedViews s gs = (\<Union>g \<in> set gs. if cleared s g then set g else {})"

lemma cleanable_cong:
  assumes "cleanable s gs" "\<And>v. v \<in> set (concat gs) \<Longrightarrow> arr s' v = arr s v \<and> flag s' v = flag s v \<and> live s' v"
  shows "cleanable s' gs"
proof -
  have eq: "arr s' v = arr s v" "flag s' v = flag s v" if "g \<in> set gs" "v \<in> set g" for g v
    using assms(2) [of v] that by auto
  have "groupOk s' g" if g: "g \<in> set gs" for g
  proof (cases "g = []")
    case False
    then have "arr s' (last g) = arr s (last g)" using eq(1) [OF g] by simp
    then show ?thesis using assms(1) g eq [OF g] by (simp add: cleanable_def groupOk_def)
  qed (simp add: groupOk_def)
  moreover have "sorted_wrt (apart s') gs"
    by (rule sorted_wrt_mono_rel [where P = "apart s"])
      (use eq assms(1) in \<open>simp_all add: apart_def cleanable_def\<close>)
  ultimately show ?thesis using assms unfolding cleanable_def by blast
qed

lemma cleanable_shrunk:
  assumes "cleanable s (g # gs)" "A \<subseteq> arr s ` set g"
  shows "cleanable (shrunk (set g) A s) gs"
proof (rule cleanable_cong)
  show "cleanable s gs" using assms(1) by (auto simp: cleanable_def)
  fix v assume v: "v \<in> set (concat gs)"
  then obtain h where h: "h \<in> set gs" "v \<in> set h" by auto
  have out: "v \<notin> set g" using assms(1) v by (auto simp: cleanable_def)
  have "apart s g h" using assms(1) h(1) by (simp add: cleanable_def)
  then have "arr s v \<notin> arr s ` set g" using h(2) by (fastforce simp: apart_def)
  then have "arr s v \<notin> A" using assms(2) by blast
  moreover have "live s v" using assms(1) v by (auto simp: cleanable_def)
  ultimately show "arr (shrunk (set g) A s) v = arr s v \<and> flag (shrunk (set g) A s) v = flag s v \<and> live (shrunk (set g) A s) v"
    using out by (simp add: live_shrunk)
qed

lemma cleanGenerations_spec:
  assumes "cleanable s gs"
  shows "\<exists>A \<subseteq> arr s ` clearedViews s gs. cleanGenerations (gs @ [l]) s
    = Some (map (\<lambda>g. if cleared s g then [] else g) gs @ [l], shrunk (clearedViews s gs) A s)"
  using assms
proof (induction gs arbitrary: s)
  case Nil
  show ?case by (intro exI [of _ "{}"]) (simp add: clearedViews_def)
next
  case (Cons g gs)
  have same: "cleared (shrunk D A s) = cleared s" for D A by (simp add: cleared_def fun_eq_iff)
  have rest: "cleanable s gs" using Cons.prems by (auto simp: cleanable_def)
  show ?case
  proof (cases "cleared s g")
    case False
    then show ?thesis using Cons.IH [OF rest] by (auto simp: cleared_def clearedViews_def)
  next
    case True
    have "groupOk s g" "distinct g" "\<forall>v \<in> set g. live s v" using Cons.prems by (auto simp: cleanable_def)
    then obtain A where A: "A \<subseteq> arr s ` set g" "deleteViews g s = Some (shrunk (set g) A s)"
      using deleteViews_group by blast
    let ?s = "shrunk (set g) A s"
    have views: "clearedViews ?s gs = clearedViews s gs" by (simp add: clearedViews_def same)
    obtain B where B: "B \<subseteq> arr ?s ` clearedViews s gs"
      "cleanGenerations (gs @ [l]) ?s = Some (map (\<lambda>g. if cleared s g then [] else g) gs @ [l], shrunk (clearedViews s gs) B ?s)"
      using Cons.IH [OF cleanable_shrunk [OF Cons.prems A(1)]] unfolding views same by blast
    have "clearedViews s gs \<subseteq> set (concat gs)" by (auto simp: clearedViews_def split: if_splits)
    then have "v \<notin> set g" if "v \<in> clearedViews s gs" for v using that Cons.prems by (auto simp: cleanable_def)
    then have "arr ?s ` clearedViews s gs = arr s ` clearedViews s gs" by (intro image_cong) simp_all
    moreover have "clearedViews s (g # gs) = set g \<union> clearedViews s gs" using True by (simp add: clearedViews_def)
    moreover have "\<forall>v \<in> set g. useCount v s = 1" using True by (simp add: cleared_def)
    ultimately show ?thesis using True A B
      by (intro exI [of _ "B \<union> A"]) (auto simp: Un_commute image_Un)
  qed
qed

section \<open>Writing\<close>

lemma growCapacity_gt: "i < growCapacity i capacity"
proof (induction i capacity rule: growCapacity.induct)
  case (1 i capacity)
  then show ?case by (subst growCapacity.simps) simp
qed

lemma members_not_writer: "cow_inv s \<Longrightarrow> v \<in> set (members s) \<Longrightarrow> v \<noteq> m_writeView s"
  using cow_inv_parts(2) [of s] by auto

lemma past_member: "v \<in> set (concat (past s)) \<Longrightarrow> v \<in> set (members s)"
  "v \<in> set (current s) \<Longrightarrow> v \<in> set (members s)" "m_readView s \<in> set (members s)"
  by (simp_all add: members_def)

lemma flag_writer: "cow_inv s \<Longrightarrow> flag s (m_writeView s) \<longleftrightarrow> arr s (m_writeView s) \<noteq> arr s (m_readView s)"
  using cow_inv_parts(9) [of s] by (simp add: writerOk_def split: if_splits)

text \<open>The views that share the array of the write view are not larger.\<close>

lemma writer_larger:
  assumes "cow_inv s" "v \<in> set (members s)" "arr s v = arr s (m_writeView s)"
  shows "vsize s v \<le> vsize s (m_writeView s)"
proof -
  have "v \<notin> set (concat (past s))" using cow_inv_parts(8) [OF assms(1)] assms(3) by auto
  then have v: "v \<in> set (m_readView s # current s)" using assms(2) by (auto simp: members_def)
  then have "arr s v = arr s (m_readView s)" using cow_inv_parts(6) [OF assms(1)] by auto
  then show ?thesis using cow_inv_parts(9) [OF assms(1)] assms(3) v by (auto simp: writerOk_def)
qed

text \<open>A write either stores in the array of the write view or moves the write view to a new array; the
  old one is freed when only the write view used it.\<close>

definition storedInPlace :: "nat \<Rightarrow> 'a \<Rightarrow> 'a cowvector \<Rightarrow> vectorview \<Rightarrow> 'a list \<Rightarrow> 'a cowvector" where
  "storedInPlace i x s w xs = s\<lparr>views := (views s)(m_writeView s \<mapsto> w),
     arrays := (arrays s)(arr s (m_writeView s) \<mapsto> xs[i := x])\<rparr>"

definition movedTo :: "'a cowvector \<Rightarrow> vectorview \<Rightarrow> 'a list \<Rightarrow> (nat \<Rightarrow> 'a list option) \<Rightarrow> 'a cowvector" where
  "movedTo s w ys A = s\<lparr>views := (views s)(m_writeView s \<mapsto> w), arrays := A(nextArray s \<mapsto> ys), nextArray := nextArray s + 1\<rparr>"

lemma cow_assign_writer:
  assumes "live s (m_writeView s)" "bit (m_sizeAndFlags (the (views s (m_writeView s)))) 31"
    "i \<le> vsize s (m_writeView s)" "vsize s (m_writeView s) + 1 < 2 ^ 30"
  obtains (inplace) w xs where "cow_assign mem i x s = Some (storedInPlace i x s w xs)" "m_array w = arr s (m_writeView s)"
      "getNeedToFreeArray (m_sizeAndFlags w) = flag s (m_writeView s)" "bit (m_sizeAndFlags w) 31"
      "view_size (m_sizeAndFlags w) = max (vsize s (m_writeView s)) (i + 1)"
      "arrays s (arr s (m_writeView s)) = Some xs" "i < length xs"
  | (moved) w ys xs A where "cow_assign mem i x s = Some (movedTo s w ys A)" "m_array w = nextArray s"
      "getNeedToFreeArray (m_sizeAndFlags w)" "bit (m_sizeAndFlags w) 31" "view_size (m_sizeAndFlags w) = i + 1"
      "i + 1 \<le> length ys" "i = vsize s (m_writeView s)" "arrays s (arr s (m_writeView s)) = Some xs" "take i ys = take i xs"
      "A = (if flag s (m_writeView s) then (arrays s)(arr s (m_writeView s) := None) else arrays s)" "ys ! i = x"
proof -
  let ?W = "m_writeView s"
  obtain w xs where w: "views s ?W = Some w" "arrays s (m_array w) = Some xs" "view_size (m_sizeAndFlags w) \<le> length xs"
      "m_array w < nextArray s"
    using assms(1) by (auto simp: live_def arr_def vsize_def)
  have acc: "arr s ?W = m_array w" "vsize s ?W = view_size (m_sizeAndFlags w)" "flag s ?W = getNeedToFreeArray (m_sizeAndFlags w)"
    using w by (simp_all add: arr_def vsize_def flag_def)
  have b: "bit (m_sizeAndFlags w) 31" "isWriteView (m_sizeAndFlags w)"
    using assms(2) w(1) isWriteView_bit by auto
  let ?grow = "\<lambda>u. if i \<ge> view_size (m_sizeAndFlags u) then u\<lparr>m_sizeAndFlags := setSize (i + 1) (m_sizeAndFlags u)\<rparr> else u"
  have small: "i + 1 < 2 ^ 30" using assms(3,4) by simp
  show thesis
  proof (cases "i < length xs")
    case True
    have "cow_assign mem i x s = Some (storedInPlace i x s (?grow w) xs)"
      using w b True by (simp add: cow_assign_def cow_at_def Let_def storedInPlace_def acc)
    then show thesis using w True acc b small assms(3) by (intro inplace [of "?grow w" xs]) (auto simp: max_def)
  next
    case False
    then have i: "i = view_size (m_sizeAndFlags w)" "i = length xs" using assms(3) w(3) acc by auto
    let ?w = "?grow (w\<lparr>m_array := nextArray s, m_sizeAndFlags := setNeedToFreeArray True (m_sizeAndFlags w)\<rparr>)"
    let ?zs = "xs @ map mem [i..<growCapacity i i]"
    let ?A = "if flag s ?W then (arrays s)(m_array w := None) else arrays s"
    have z: "i < length ?zs" using i growCapacity_gt [of i i] by simp
    have same: "setNeedToFreeArray True f = f" if "getNeedToFreeArray f" for f
      using that by (intro bit_word_eqI) (auto simp: setNeedToFreeArray_def getNeedToFreeArray_bit bit_or_iff mask_bits)
    have "cow_assign mem i x s = Some (movedTo s ?w (?zs[i := x]) ?A)"
      using w b i z False acc
      by (auto simp: cow_assign_def cow_at_def reallocate_def deleteArray_def Let_def movedTo_def same fun_upd_twist)
    then show thesis using w acc b small i z by (intro moved [of ?w "?zs[i := x]" ?A xs]) auto
  qed
qed

lemma cow_assign_cases:
  assumes "cow_inv s" "i \<le> vsize s (m_writeView s)" "vsize s (m_writeView s) + 1 < 2 ^ 30"
  obtains (inplace) w xs where "cow_assign mem i x s = Some (storedInPlace i x s w xs)" "m_array w = arr s (m_writeView s)"
      "getNeedToFreeArray (m_sizeAndFlags w) = flag s (m_writeView s)" "bit (m_sizeAndFlags w) 31"
      "view_size (m_sizeAndFlags w) = max (vsize s (m_writeView s)) (i + 1)"
      "arrays s (arr s (m_writeView s)) = Some xs" "i < length xs"
  | (moved) w ys xs A where "cow_assign mem i x s = Some (movedTo s w ys A)" "m_array w = nextArray s"
      "getNeedToFreeArray (m_sizeAndFlags w)" "bit (m_sizeAndFlags w) 31" "view_size (m_sizeAndFlags w) = i + 1"
      "i + 1 \<le> length ys" "i = vsize s (m_writeView s)" "arrays s (arr s (m_writeView s)) = Some xs" "take i ys = take i xs"
      "A = (if flag s (m_writeView s) then (arrays s)(arr s (m_writeView s) := None) else arrays s)" "ys ! i = x"
  using cow_assign_writer [OF _ cow_inv_parts(10) [OF assms(1)] assms(2,3), of mem x thesis] cow_inv_parts(4) [OF assms(1), of "m_writeView s"]
    inplace moved by simp

lemma same_view:
  assumes "views s' v = views s v"
  shows "arr s' v = arr s v" "flag s' v = flag s v" "vsize s' v = vsize s v"
  using assms by (simp_all add: arr_def flag_def vsize_def)

lemma cow_inv_write:
  assumes inv: "cow_inv s" and views: "views s' = (views s)(m_writeView s \<mapsto> w)"
    and same: "m_readView s' = m_readView s" "m_writeView s' = m_writeView s" "readers s' = readers s"
      "readViewGenerations s' = readViewGenerations s" "nextView s' = nextView s" "nextArray s \<le> nextArray s'"
    and others: "\<And>v. v \<in> set (members s) \<Longrightarrow> \<exists>ys. arrays s' (arr s v) = Some ys \<and> vsize s v \<le> length ys"
    and fresh: "live s' (m_writeView s)" "\<And>v. v \<in> set (concat (past s)) \<Longrightarrow> arr s v \<noteq> m_array w"
    and writer: "if m_array w = arr s (m_readView s)
        then \<not> getNeedToFreeArray (m_sizeAndFlags w) \<and> (\<forall>v \<in> set (m_readView s # current s). vsize s v \<le> view_size (m_sizeAndFlags w))
        else getNeedToFreeArray (m_sizeAndFlags w)"
    and bits: "bit (m_sizeAndFlags w) 31"
  shows "cow_inv s'"
proof -
  let ?R = "m_readView s" and ?W = "m_writeView s"
  have cp: "current s' = current s" "past s' = past s" "members s' = members s"
    by (simp_all add: current_def past_def members_def same)
  have acc: "arr s' v = arr s v" "flag s' v = flag s v" "vsize s' v = vsize s v" "views s' v = views s v" if "v \<in> set (members s)" for v
    using same_view [of s' v s] members_not_writer [OF inv that] views by simp_all
  have W: "arr s' ?W = m_array w" "flag s' ?W = getNeedToFreeArray (m_sizeAndFlags w)" "vsize s' ?W = view_size (m_sizeAndFlags w)"
    by (simp_all add: arr_def flag_def vsize_def views)
  have live: "live s' v" if v: "v \<in> set (members s)" for v
  proof -
    have "live s v" using cow_inv_parts(4) [OF inv] v by simp
    then show ?thesis using others [OF v] acc [OF v] same(5,6) by (auto simp: live_def)
  qed
  show ?thesis
  proof (rule cow_invI, unfold cp same)
    show "readViewGenerations s \<noteq> []" "distinct (?W # members s)" using cow_inv_parts(1,2) [OF inv] by auto
    show "v \<in> set (?W # members s)" if "views s' v \<noteq> None" for v
      using that cow_inv_parts(3) [OF inv, of v] views by (auto split: if_splits)
    show "live s' v" if "v \<in> set (?W # members s)" for v using that fresh(1) live by auto
    show "v \<in> set (members s)" if "0 < readers s v" for v using that by (rule cow_inv_parts(5) [OF inv])
    show "arr s' v = arr s' ?R \<and> \<not> flag s' v" if "v \<in> set (current s)" for v
      using cow_inv_parts(6) [OF inv that] acc past_member(2) [OF that] past_member(3) [of s] by simp
    show "cleanable s' (past s)"
      by (rule cleanable_cong [OF cow_inv_parts(7) [OF inv]]) (use acc live past_member(1) in blast)
    show "arr s' v \<noteq> arr s' ?R \<and> arr s' v \<noteq> arr s' ?W" if "v \<in> set (concat (past s))" for v
      using cow_inv_parts(8) [OF inv that] acc(1) past_member(1) [OF that] past_member(3) [of s] W(1) fresh(2) [OF that] by simp
    have "arr s' ?R = arr s ?R" using acc(1) [OF past_member(3)] .
    moreover have "\<forall>v \<in> set (?R # current s). vsize s' v = vsize s v"
      using acc(3) [OF past_member(2)] acc(3) [OF past_member(3)] by simp
    ultimately show "writerOk s'" using writer W unfolding writerOk_def cp same by (simp split: if_splits)
    show "bit (m_sizeAndFlags (the (views s' ?W))) 31" using bits views by simp
  qed
qed

lemma flag_writer_alone:
  assumes inv: "cow_inv s" and v: "v \<in> set (members s)" and f: "flag s (m_writeView s)"
  shows "arr s v \<noteq> arr s (m_writeView s)"
proof -
  have "arr s (m_writeView s) \<noteq> arr s (m_readView s)" using flag_writer [OF inv] f by simp
  then show ?thesis using v cow_inv_parts(6) [OF inv, of v] cow_inv_parts(8) [OF inv, of v] by (auto simp: members_def)
qed

lemma movedTo_inv:
  assumes inv: "cow_inv s" and w: "m_array w = nextArray s" "getNeedToFreeArray (m_sizeAndFlags w)" "bit (m_sizeAndFlags w) 31"
    "view_size (m_sizeAndFlags w) \<le> length ys"
    and A: "A = (if flag s (m_writeView s) then (arrays s)(arr s (m_writeView s) := None) else arrays s)"
  shows "cow_inv (movedTo s w ys A)"
proof (rule cow_inv_write [OF inv, of _ w])
  let ?s = "movedTo s w ys A" and ?W = "m_writeView s"
  have live: "live s v" if "v \<in> set (?W # members s)" for v using cow_inv_parts(4) [OF inv that] .
  then have old: "arr s v < nextArray s" if "v \<in> set (members s)" for v using that by (simp add: live_def)
  show "\<exists>ys. arrays ?s (arr s v) = Some ys \<and> vsize s v \<le> length ys" if v: "v \<in> set (members s)" for v
    using flag_writer_alone [OF inv v] live [of v] v old [OF v] by (auto simp: movedTo_def A live_def)
  show "live ?s ?W" using live [of ?W] w by (auto simp: live_def movedTo_def arr_def vsize_def)
  show "arr s v \<noteq> m_array w" if "v \<in> set (concat (past s))" for v
    using old [OF past_member(1) [OF that]] w(1) by simp
  show "if m_array w = arr s (m_readView s)
      then \<not> getNeedToFreeArray (m_sizeAndFlags w) \<and> (\<forall>v \<in> set (m_readView s # current s). vsize s v \<le> view_size (m_sizeAndFlags w))
      else getNeedToFreeArray (m_sizeAndFlags w)"
    using old [OF past_member(3)] w(1,2) by simp
qed (simp_all add: movedTo_def w(3))

lemma cow_assign_inv:
  assumes inv: "cow_inv s" and i: "i \<le> vsize s (m_writeView s)" "vsize s (m_writeView s) + 1 < 2 ^ 30"
  shows "\<exists>s'. cow_assign mem i x s = Some s' \<and> cow_inv s' \<and> readers s' = readers s \<and> m_readView s' = m_readView s
    \<and> (\<forall>v \<in> set (members s). views s' v = views s v)"
  using inv i
proof (cases rule: cow_assign_cases [where mem = mem and x = x])
  case (inplace w xs)
  let ?s = "storedInPlace i x s w xs" and ?W = "m_writeView s"
  have "cow_inv ?s"
  proof (rule cow_inv_write [OF inv, of ?s w])
    show "\<exists>ys. arrays ?s (arr s v) = Some ys \<and> vsize s v \<le> length ys" if v: "v \<in> set (members s)" for v
    proof -
      have "live s v" using cow_inv_parts(4) [OF inv] v by simp
      then show ?thesis using inplace(6) by (auto simp: storedInPlace_def live_def)
    qed
    have "live s ?W" using cow_inv_parts(4) [OF inv] by simp
    then show "live ?s ?W" using inplace by (auto simp: live_def storedInPlace_def arr_def vsize_def)
    show "arr s v \<noteq> m_array w" if "v \<in> set (concat (past s))" for v
      using cow_inv_parts(8) [OF inv that] inplace(2) by simp
    show "if m_array w = arr s (m_readView s)
        then \<not> getNeedToFreeArray (m_sizeAndFlags w) \<and> (\<forall>v \<in> set (m_readView s # current s). vsize s v \<le> view_size (m_sizeAndFlags w))
        else getNeedToFreeArray (m_sizeAndFlags w)"
      using cow_inv_parts(9) [OF inv] inplace(2,3,5) unfolding writerOk_def by (auto simp: max_def split: if_splits)
  qed (simp_all add: storedInPlace_def inplace(4))
  then show ?thesis using inplace(1) members_not_writer [OF inv] by (auto simp: storedInPlace_def)
next
  case (moved w ys xs A)
  have "cow_inv (movedTo s w ys A)" using moved by (intro movedTo_inv [OF inv]) simp_all
  then show ?thesis using moved(1) members_not_writer [OF inv] by (auto simp: movedTo_def)
qed

section \<open>Merging\<close>

definition dropCleared :: "'a cowvector \<Rightarrow> nat list list \<Rightarrow> nat list list" where
  "dropCleared s gs = map (\<lambda>g. if cleared s g then [] else g) gs"

lemma set_dropCleared:
  "distinct (concat gs) \<Longrightarrow> set (concat (dropCleared s gs)) = set (concat gs) - clearedViews s gs"
  by (induction gs) (auto simp: dropCleared_def clearedViews_def)

lemma distinct_dropCleared: "distinct (concat gs) \<Longrightarrow> distinct (concat (dropCleared s gs))"
proof (induction gs)
  case (Cons g gs)
  have "set (concat (dropCleared s gs)) \<subseteq> set (concat gs)" by (auto simp: dropCleared_def split: if_splits)
  then show ?case using Cons by (auto simp: dropCleared_def)
qed (simp add: dropCleared_def)

lemma cleanable_dropCleared:
  assumes "cleanable s gs" shows "cleanable s (dropCleared s' gs)"
proof -
  have "set (concat (dropCleared s' gs)) \<subseteq> set (concat gs)" by (auto simp: dropCleared_def split: if_splits)
  moreover have "\<forall>g \<in> set (dropCleared s' gs). groupOk s g"
    using assms by (auto simp: cleanable_def dropCleared_def groupOk_def)
  moreover have "sorted_wrt (apart s) (dropCleared s' gs)"
    unfolding dropCleared_def sorted_wrt_map
    by (rule sorted_wrt_mono_rel [where P = "apart s"]) (use assms in \<open>auto simp: cleanable_def apart_def\<close>)
  ultimately show ?thesis using assms distinct_dropCleared [of gs s'] by (auto simp: cleanable_def)
qed

text \<open>What a reader sees of a view.\<close>

definition snapshot :: "'a cowvector \<Rightarrow> nat \<Rightarrow> 'a list option" where
  "snapshot s v = do { view \<leftarrow> views s v; extent \<leftarrow> arrays s (m_array view); Some (take (view_size (m_sizeAndFlags view)) extent) }"

lemma view_size_less: "view_size f < 2 ^ 30"
proof -
  have "take_bit 30 (unat f) < 2 ^ 30" by (rule take_bit_nat_less_exp)
  then show ?thesis by (simp add: view_size_take_bit unsigned_take_bit_eq)
qed

lemma view_size_copyView [simp]:
  "view_size (m_sizeAndFlags (copyView g r)) = view_size (m_sizeAndFlags r)" "m_array (copyView g r) = m_array r"
  "\<not> getNeedToFreeArray (m_sizeAndFlags (copyView g r))" "bit (m_sizeAndFlags (copyView g r)) 31"
  using view_size_less [of "m_sizeAndFlags r"] by (simp_all add: copyView_def)

text \<open>The state in which the old read view is retired: it is stored with the kept views, unless no reader
  holds it.\<close>

definition retired :: "'a cowvector \<Rightarrow> 'a cowvector \<Rightarrow> vectorview \<Rightarrow> nat list list \<Rightarrow> nat list \<Rightarrow> bool" where
  "retired s s1 r1 past1 cur1 \<longleftrightarrow> cow_inv s
    \<and> s1 = s\<lparr>views := (views s)(m_readView s \<mapsto> r1), readViewGenerations := past1 @ [cur1]\<rparr>
    \<and> m_array r1 = arr s (m_readView s) \<and> view_size (m_sizeAndFlags r1) = vsize s (m_readView s)
    \<and> cleanable s1 past1 \<and> distinct (cur1 @ concat past1)
    \<and> set cur1 \<union> set (concat past1) \<union> {m_readView s} = set (members s)
    \<and> (\<forall>v \<in> set cur1. arr s v = arr s (m_writeView s) \<and> \<not> flag s1 v \<and> vsize s v \<le> vsize s (m_writeView s))
    \<and> (\<forall>v \<in> set (concat past1). arr s v \<noteq> arr s (m_writeView s))
    \<and> (m_readView s \<notin> set cur1 \<union> set (concat past1) \<longrightarrow> readers s (m_readView s) = 0 \<and> \<not> flag s1 (m_readView s))"

lemma retired_parts:
  assumes "retired s s1 r1 past1 cur1"
  shows "cow_inv s" "s1 = s\<lparr>views := (views s)(m_readView s \<mapsto> r1), readViewGenerations := past1 @ [cur1]\<rparr>"
    "m_array r1 = arr s (m_readView s)" "view_size (m_sizeAndFlags r1) = vsize s (m_readView s)"
    "cleanable s1 past1" "distinct (cur1 @ concat past1)"
    "set cur1 \<union> set (concat past1) \<union> {m_readView s} = set (members s)"
    "\<And>v. v \<in> set cur1 \<Longrightarrow> arr s v = arr s (m_writeView s) \<and> \<not> flag s1 v \<and> vsize s v \<le> vsize s (m_writeView s)"
    "\<And>v. v \<in> set (concat past1) \<Longrightarrow> arr s v \<noteq> arr s (m_writeView s)"
    "m_readView s \<notin> set cur1 \<union> set (concat past1) \<Longrightarrow> readers s (m_readView s) = 0 \<and> \<not> flag s1 (m_readView s)"
  using assms unfolding retired_def by blast+

lemma retired_accessors:
  assumes "retired s s1 r1 past1 cur1"
  shows "arr s1 v = arr s v" "vsize s1 v = vsize s v" "live s1 v \<longleftrightarrow> live s v"
    "v \<noteq> m_readView s \<Longrightarrow> views s1 v = views s v" "arrays s1 = arrays s" "readers s1 = readers s"
    "m_readView s1 = m_readView s" "m_writeView s1 = m_writeView s" "nextView s1 = nextView s"
    "nextArray s1 = nextArray s" "readViewGenerations s1 = past1 @ [cur1]"
proof -
  note p = retired_parts(2-4) [OF assms]
  have R: "views s (m_readView s) \<noteq> None"
    using cow_inv_parts(4) [OF retired_parts(1) [OF assms], of "m_readView s"] by (simp add: live_def members_def)
  show a: "arr s1 v = arr s v" "vsize s1 v = vsize s v" using p R by (auto simp: arr_def vsize_def)
  show "live s1 v \<longleftrightarrow> live s v" unfolding live_def a using p(1) R by auto
qed (simp_all add: retired_parts(2) [OF assms])

lemma clearedViews_sub: "clearedViews s gs \<subseteq> set (concat gs)"
  by (auto simp: clearedViews_def split: if_splits)

text \<open>A view that a reader or the vector itself holds is not cleared.\<close>

lemma held_not_cleared:
  assumes ret: "retired s s1 r1 past1 cur1" and v: "0 < readers s v \<or> v = m_readView s"
  shows "v \<notin> clearedViews s1 past1"
proof
  assume "v \<in> clearedViews s1 past1"
  then obtain g where g: "g \<in> set past1" "cleared s1 g" "v \<in> set g" by (auto simp: clearedViews_def split: if_splits)
  then have "useCount v s1 = 1" by (simp add: cleared_def)
  moreover have "count_list (concat (readViewGenerations s1)) v \<noteq> 0"
    using g(1,3) retired_accessors(11) [OF ret] by (auto simp: count_list_0_iff)
  ultimately show False using v retired_accessors(6,7) [OF ret] by (auto simp: useCount_def split: if_splits)
qed

text \<open>The state after the merge: \<open>E\<close> are the deleted views and \<open>A\<close> the freed arrays.\<close>

definition mergedState :: "u64 \<Rightarrow> nat set \<Rightarrow> nat set \<Rightarrow> 'a cowvector \<Rightarrow> nat list list \<Rightarrow> 'a cowvector" where
  "mergedState g E A s1 gens = (let w = the (views s1 (m_writeView s1)); r = w\<lparr>m_sizeAndFlags := setReadView (m_sizeAndFlags w)\<rparr> in
     (shrunk E A s1)\<lparr>readViewGenerations := gens, m_readView := m_writeView s1,
       views := (views (shrunk E A s1))(m_writeView s1 \<mapsto> r, nextView s1 \<mapsto> copyView g r),
       m_writeView := nextView s1, nextView := nextView s1 + 1\<rparr>)"

definition erased :: "'a cowvector \<Rightarrow> nat list list \<Rightarrow> nat list \<Rightarrow> nat set" where
  "erased s1 past1 cur1 = clearedViews s1 past1
    \<union> (if m_readView s1 \<in> set cur1 \<union> set (concat past1) then {} else {m_readView s1})"

definition merged :: "u64 \<Rightarrow> nat set \<Rightarrow> 'a cowvector \<Rightarrow> nat list list \<Rightarrow> nat list \<Rightarrow> 'a cowvector" where
  "merged g A s1 past1 cur1 = mergedState g (erased s1 past1 cur1) A s1 (dropCleared s1 past1 @ [cur1])"

lemma retired_merge:
  assumes ret: "retired s s1 r1 past1 cur1"
  shows "\<exists>A \<subseteq> arr s ` clearedViews s1 past1. cleanReadViews s1 \<bind> finishMerge g = Some (merged g A s1 past1 cur1)"
proof -
  let ?E = "erased s1 past1 cur1"
  let ?D = "clearedViews s1 past1" and ?R = "m_readView s" and ?W = "m_writeView s"
  let ?gens = "dropCleared s1 past1 @ [cur1]"
  note acc = retired_accessors [OF ret] and inv = retired_parts(1) [OF ret]
  obtain A where A: "A \<subseteq> arr s ` ?D" "cleanGenerations (past1 @ [cur1]) s1 = Some (?gens, shrunk ?D A s1)"
    using cleanGenerations_spec [OF retired_parts(5) [OF ret], of cur1] acc(1) by (auto simp: dropCleared_def)
  let ?s2 = "(shrunk ?D A s1)\<lparr>readViewGenerations := ?gens\<rparr>"
  have s2: "cleanReadViews s1 = Some ?s2" using A(2) by (simp add: cleanReadViews_def acc(11))
  have RW: "?R \<noteq> ?W" using members_not_writer [OF inv past_member(3)] .
  have RD: "?R \<notin> ?D" using held_not_cleared [OF ret] by simp
  have WD: "?W \<notin> ?D" using clearedViews_sub [of s1 past1] retired_parts(7) [OF ret] members_not_writer [OF inv] by blast
  have W: "views s ?W \<noteq> None" "views s1 ?W = views s ?W"
    using cow_inv_parts(4) [OF inv, of ?W] acc(4) [of ?W] RW by (auto simp: live_def)
  have stored: "?R \<in> set (concat ?gens) \<longleftrightarrow> ?R \<in> set cur1 \<union> set (concat past1)"
    using set_dropCleared [of past1 s1] retired_parts(6) [OF ret] RD by auto
  have "dropIfUnused ?R (?s2\<lparr>m_readView := ?W\<rparr>) = Some ((shrunk ?E A s1)\<lparr>readViewGenerations := ?gens, m_readView := ?W\<rparr>)"
  proof (cases "?R \<in> set cur1 \<union> set (concat past1)")
    case True
    then have "count_list (concat ?gens) ?R \<noteq> 0" using stored by (simp add: count_list_0_iff)
    then show ?thesis using True by (auto simp: dropIfUnused_def useCount_def erased_def acc(7))
  next
    case False
    have "count_list (concat ?gens) ?R = 0" using False stored by (simp add: count_list_0_iff)
    then have "useCount ?R (?s2\<lparr>m_readView := ?W\<rparr>) = 0"
      using retired_parts(10) [OF ret False] RW acc(6) by (simp add: useCount_def)
    moreover have "deleteView ?R (?s2\<lparr>m_readView := ?W\<rparr>) = Some (shrunk {?R} {} (?s2\<lparr>m_readView := ?W\<rparr>))"
    proof (rule deleteView_unflagged)
      have "views s1 ?R \<noteq> None" by (simp add: retired_parts(2) [OF ret])
      then show "views (?s2\<lparr>m_readView := ?W\<rparr>) ?R \<noteq> None" using RD by simp
      show "\<not> flag (?s2\<lparr>m_readView := ?W\<rparr>) ?R"
        using retired_parts(10) [OF ret False] RD by (simp add: flag_def)
    qed
    moreover have "shrunk {?R} {} (?s2\<lparr>m_readView := ?W\<rparr>) = (shrunk ?E A s1)\<lparr>readViewGenerations := ?gens, m_readView := ?W\<rparr>"
    proof -
      have "- ?D \<inter> - {?R} = - ?E" using False by (auto simp: erased_def acc(7))
      then show ?thesis by (intro cowvector.equality) (simp_all add: shrunk_def)
    qed
    ultimately show ?thesis by (simp add: dropIfUnused_def)
  qed
  moreover have "views (shrunk ?E A s1) ?W = views s1 ?W" using RW WD by (simp add: erased_def acc(7))
  ultimately have "finishMerge g ?s2 = Some (mergedState g ?E A s1 ?gens)"
    using W by (auto simp: finishMerge_def mergedState_def Let_def acc)
  then show ?thesis using s2 A(1) by (auto simp: merged_def)
qed

lemma cow_inv_retired:
  assumes inv: "cow_inv s" shows "\<exists>s1 r1 past1 cur1. retireReadView True s = Some s1 \<and> retired s s1 r1 past1 cur1"
proof -
  let ?R = "m_readView s" and ?W = "m_writeView s"
  obtain r w where r: "views s ?R = Some r" and w: "views s ?W = Some w"
    using cow_inv_parts(4) [OF inv, of ?R] cow_inv_parts(4) [OF inv, of ?W] past_member(3) [of s] by (auto simp: live_def)
  have acc: "m_array r = arr s ?R" "m_array w = arr s ?W" "view_size (m_sizeAndFlags r) = vsize s ?R"
    by (simp_all add: arr_def vsize_def r w)
  have gens: "readViewGenerations s = past s @ [current s]"
    using cow_inv_parts(1) [OF inv] by (simp add: past_def current_def)
  have dist: "distinct (?R # current s @ concat (past s))" using cow_inv_parts(2) [OF inv] by (simp add: members_def)
  let ?r = "\<lambda>b. r\<lparr>m_sizeAndFlags := setNeedToFreeArray b (m_sizeAndFlags r)\<rparr>"
  have flags: "flag (s\<lparr>views := (views s)(?R \<mapsto> ?r b), readViewGenerations := gs\<rparr>) v = (if v = ?R then b else flag s v)" for b gs v
    by (simp add: flag_def)
  have arrs: "arr (s\<lparr>views := (views s)(?R \<mapsto> ?r b), readViewGenerations := gs\<rparr>) v = arr s v" for b gs v
    using r by (simp add: arr_def)
  have lives: "live (s\<lparr>views := (views s)(?R \<mapsto> ?r b), readViewGenerations := gs\<rparr>) v = live s v" for b gs v
    using r by (auto simp: live_def arr_def vsize_def)
  have past: "cleanable (s\<lparr>views := (views s)(?R \<mapsto> ?r b), readViewGenerations := gs\<rparr>) (past s)" for b gs
    by (rule cleanable_cong [OF cow_inv_parts(7) [OF inv]])
      (use dist cow_inv_parts(4) [OF inv] in \<open>auto simp: flags arrs lives members_def\<close>)
  show ?thesis
  proof (cases "arr s ?W = arr s ?R")
    case True
    let ?cur = "if useCount ?R s \<noteq> 1 then current s @ [?R] else current s"
    let ?s = "s\<lparr>views := (views s)(?R \<mapsto> ?r False), readViewGenerations := past s @ [?cur]\<rparr>"
    have uses: "useCount ?R (s\<lparr>views := V\<rparr>) = useCount ?R s" for V by (simp add: useCount_def)
    have "retireReadView True s = Some ?s"
      using r w acc True gens by (simp add: retireReadView_def storeReadView_def Let_def uses past_def current_def)
    moreover have "retired s ?s (?r False) (past s) ?cur"
      unfolding retired_def
    proof (intro conjI)
      have "vsize s ?R \<le> vsize s ?W" using writer_larger [OF inv past_member(3)] True by simp
      then show "\<forall>v \<in> set ?cur. arr s v = arr s ?W \<and> \<not> flag ?s v \<and> vsize s v \<le> vsize s ?W"
        using True dist cow_inv_parts(6) [OF inv] writer_larger [OF inv] past_member(2) by (auto simp: flags)
      show "?R \<notin> set ?cur \<union> set (concat (past s)) \<longrightarrow> readers s ?R = 0 \<and> \<not> flag ?s ?R"
        by (auto simp: flags useCount_def)
    qed (use inv acc past dist cow_inv_parts(8) [OF inv] in \<open>auto simp: members_def\<close>)
    ultimately show ?thesis by blast
  next
    case False
    let ?s = "s\<lparr>views := (views s)(?R \<mapsto> ?r True), readViewGenerations := (past s @ [current s @ [?R]]) @ [[]]\<rparr>"
    have "retireReadView True s = Some ?s"
      using r w acc False gens by (simp add: retireReadView_def storeReadView_def incrementGeneration_def Let_def past_def current_def)
    moreover have "retired s ?s (?r True) (past s @ [current s @ [?R]]) []"
      unfolding retired_def
    proof (intro conjI)
      have "groupOk ?s (current s @ [?R])"
        using dist cow_inv_parts(6) [OF inv] by (auto simp: groupOk_def flags arrs)
      moreover have "\<forall>g \<in> set (past s). apart ?s g (current s @ [?R])"
        using cow_inv_parts(6,8) [OF inv] by (fastforce simp: apart_def arrs)
      moreover have "\<forall>v \<in> set (current s @ [?R]). live ?s v"
        using cow_inv_parts(4) [OF inv] by (auto simp: lives members_def)
      ultimately show "cleanable ?s (past s @ [current s @ [?R]])"
        using past [where b = True and gs = "(past s @ [current s @ [?R]]) @ [[]]"] dist by (auto simp: cleanable_def sorted_wrt_append)
      show "\<forall>v \<in> set (concat (past s @ [current s @ [?R]])). arr s v \<noteq> arr s ?W"
        using False cow_inv_parts(6,8) [OF inv] by auto
    qed (use inv acc dist in \<open>auto simp: members_def\<close>)
    ultimately show ?thesis by blast
  qed
qed

lemma cleanable_same_array:
  assumes "cleanable s gs" "g \<in> set gs" "h \<in> set gs" "v \<in> set g" "u \<in> set h" "arr s v = arr s u"
  shows "g = h"
proof -
  obtain i j where ij: "i < length gs" "gs ! i = g" "j < length gs" "gs ! j = h" using assms(2,3) by (metis in_set_conv_nth)
  have ap: "apart s (gs ! m) (gs ! n)" if "m < n" "n < length gs" for m n
    using assms(1) that by (simp add: cleanable_def sorted_wrt_iff_nth_less)
  have "\<not> i < j" using ap [of i j] ij assms(4-6) by (auto simp: apart_def)
  moreover have "\<not> j < i" using ap [of j i] ij assms(4-6) by (force simp: apart_def)
  ultimately show ?thesis using ij by (metis nat_neq_iff)
qed

text \<open>The views that survive a merge, and the arrays that it must not free.\<close>

definition survives :: "'a cowvector \<Rightarrow> nat list list \<Rightarrow> nat list \<Rightarrow> nat \<Rightarrow> bool" where
  "survives s1 past1 cur1 v \<longleftrightarrow> v \<in> set cur1 \<union> set (concat (dropCleared s1 past1))"

lemma survives_facts:
  assumes ret: "retired s s1 r1 past1 cur1" and v: "survives s1 past1 cur1 v" and A: "A \<subseteq> arr s ` clearedViews s1 past1"
  shows "v \<notin> clearedViews s1 past1" "v \<in> set cur1 \<union> set (concat past1)" "v \<in> set (members s)"
    "v \<noteq> m_writeView s" "v < nextView s" "arr s v \<notin> A"
proof -
  have dist: "distinct (concat past1)" "set cur1 \<inter> set (concat past1) = {}" using retired_parts(6) [OF ret] by auto
  have drop: "set (concat (dropCleared s1 past1)) = set (concat past1) - clearedViews s1 past1"
    by (rule set_dropCleared [OF dist(1)])
  show out: "v \<notin> clearedViews s1 past1" using v drop dist(2) clearedViews_sub [of s1 past1] by (auto simp: survives_def)
  show stay: "v \<in> set cur1 \<union> set (concat past1)" using v drop by (auto simp: survives_def)
  then show mem: "v \<in> set (members s)" using retired_parts(7) [OF ret] by blast
  then show "v \<noteq> m_writeView s" by (rule members_not_writer [OF retired_parts(1) [OF ret]])
  show "v < nextView s" using cow_inv_parts(4) [OF retired_parts(1) [OF ret]] mem by (simp add: live_def)
  show "arr s v \<notin> A"
  proof
    assume "arr s v \<in> A"
    then obtain u where u: "u \<in> clearedViews s1 past1" "arr s v = arr s u" using A by blast
    then obtain h where h: "h \<in> set past1" "cleared s1 h" "u \<in> set h" by (auto simp: clearedViews_def split: if_splits)
    have "arr s u \<noteq> arr s (m_writeView s)" using retired_parts(9) [OF ret, of u] h by auto
    then have "v \<notin> set cur1" using retired_parts(8) [OF ret, of v] u(2) by auto
    then obtain g where g: "g \<in> set past1" "v \<in> set g" using stay by auto
    then have "g = h" using cleanable_same_array [OF retired_parts(5) [OF ret] g(1) h(1) g(2) h(3)]
      u(2) retired_accessors(1) [OF ret] by simp
    then show False using out g(1,2) h(2) by (auto simp: clearedViews_def)
  qed
qed

lemma writer_array_kept:
  assumes "retired s s1 r1 past1 cur1" "A \<subseteq> arr s ` clearedViews s1 past1"
  shows "arr s (m_writeView s) \<notin> A"
proof
  assume "arr s (m_writeView s) \<in> A"
  then obtain u where "u \<in> clearedViews s1 past1" "arr s u = arr s (m_writeView s)" using assms(2) by auto
  then show False using retired_parts(9) [OF assms(1), of u] subsetD [OF clearedViews_sub [of s1 past1]] by simp
qed

lemma mergedState_simps [simp]:
  "readers (mergedState g E A s1 gens) = readers s1" "m_readView (mergedState g E A s1 gens) = m_writeView s1"
  "m_writeView (mergedState g E A s1 gens) = nextView s1" "readViewGenerations (mergedState g E A s1 gens) = gens"
  "nextView (mergedState g E A s1 gens) = Suc (nextView s1)" "nextArray (mergedState g E A s1 gens) = nextArray s1"
  by (simp_all add: mergedState_def Let_def)

lemma mergedState_maps:
  "arrays (mergedState g E A s1 gens) = (\<lambda>a. if a \<in> A then None else arrays s1 a)"
  "v \<noteq> m_writeView s1 \<Longrightarrow> v \<noteq> nextView s1 \<Longrightarrow> views (mergedState g E A s1 gens) v = (if v \<in> E then None else views s1 v)"
  unfolding mergedState_def Let_def shrunk_def restrict_map_def by (simp_all add: fun_eq_iff)

lemma mergedState_store:
  "a \<notin> A \<Longrightarrow> arrays (mergedState g E A s1 gens) a = arrays s1 a"
  "v \<notin> E \<Longrightarrow> v \<noteq> m_writeView s1 \<Longrightarrow> v \<noteq> nextView s1 \<Longrightarrow> views (mergedState g E A s1 gens) v = views s1 v"
  "v \<in> E \<Longrightarrow> v \<noteq> m_writeView s1 \<Longrightarrow> v \<noteq> nextView s1 \<Longrightarrow> views (mergedState g E A s1 gens) v = None"
  by (simp_all add: mergedState_maps)

lemma mergedState_writer:
  assumes "m_writeView s1 \<noteq> nextView s1"
  shows "views (mergedState g E A s1 gens) (m_writeView s1)
      = Some ((the (views s1 (m_writeView s1)))\<lparr>m_sizeAndFlags := setReadView (m_sizeAndFlags (the (views s1 (m_writeView s1))))\<rparr>)"
    "views (mergedState g E A s1 gens) (nextView s1)
      = Some (copyView g ((the (views s1 (m_writeView s1)))\<lparr>m_sizeAndFlags := setReadView (m_sizeAndFlags (the (views s1 (m_writeView s1))))\<rparr>))"
  using assms by (simp_all add: mergedState_def Let_def)

lemma merged_simps [simp]:
  "readers (merged g A s1 past1 cur1) = readers s1" "m_readView (merged g A s1 past1 cur1) = m_writeView s1"
  "m_writeView (merged g A s1 past1 cur1) = nextView s1" "nextView (merged g A s1 past1 cur1) = Suc (nextView s1)"
  "nextArray (merged g A s1 past1 cur1) = nextArray s1" "current (merged g A s1 past1 cur1) = cur1"
  "past (merged g A s1 past1 cur1) = dropCleared s1 past1"
  "members (merged g A s1 past1 cur1) = m_writeView s1 # cur1 @ concat (dropCleared s1 past1)"
  "readViewGenerations (merged g A s1 past1 cur1) = dropCleared s1 past1 @ [cur1]"
  by (simp_all add: merged_def current_def past_def members_def)

lemma snapshot_live:
  "views t v \<noteq> None \<Longrightarrow> snapshot t v = map_option (take (vsize t v)) (arrays t (arr t v))"
  by (cases "arrays t (arr t v)") (auto simp: snapshot_def arr_def vsize_def)

text \<open>A view that survives keeps its fields, and its array stays allocated.\<close>

lemma merged_survivor:
  assumes ret: "retired s s1 r1 past1 cur1" and A: "A \<subseteq> arr s ` clearedViews s1 past1" and v: "survives s1 past1 cur1 v"
  shows "arr (merged g A s1 past1 cur1) v = arr s v" "flag (merged g A s1 past1 cur1) v = flag s1 v"
    "vsize (merged g A s1 past1 cur1) v = vsize s v" "live (merged g A s1 past1 cur1) v"
    "snapshot (merged g A s1 past1 cur1) v = snapshot s v"
proof -
  let ?s = "merged g A s1 past1 cur1"
  note acc = retired_accessors [OF ret] and sv = survives_facts [OF ret v A]
  have "v \<notin> erased s1 past1 cur1" using sv(1,2) acc(7) by (auto simp: erased_def)
  then have view: "views ?s v = views s1 v" using sv(4,5) acc by (simp add: merged_def mergedState_store)
  note same = same_view [OF view]
  show eq: "arr ?s v = arr s v" "flag ?s v = flag s1 v" "vsize ?s v = vsize s v" using same acc(1,2) by simp_all
  have arrays: "arrays ?s (arr s v) = arrays s (arr s v)" using sv(6) by (simp add: merged_def mergedState_store acc)
  have old: "live s v" using cow_inv_parts(4) [OF retired_parts(1) [OF ret]] sv(3) by simp
  then have "live s1 v" using acc(3) by blast
  then have some: "views s v \<noteq> None" "views ?s v \<noteq> None" using old view by (simp_all add: live_def)
  show "live ?s v" using old some(2) arrays eq acc by (simp add: live_def)
  show "snapshot ?s v = snapshot s v" unfolding snapshot_live [OF some(1)] snapshot_live [OF some(2)] eq arrays ..
qed

text \<open>The write view becomes the read view and gets a successor that shares its array.\<close>

lemma merged_writer:
  fixes g assumes ret: "retired s s1 r1 past1 cur1" and A: "A \<subseteq> arr s ` clearedViews s1 past1"
  defines "s' \<equiv> merged g A s1 past1 cur1"
  shows "arr s' (m_writeView s) = arr s (m_writeView s)" "arr s' (nextView s) = arr s (m_writeView s)"
    "vsize s' (m_writeView s) = vsize s (m_writeView s)" "vsize s' (nextView s) = vsize s (m_writeView s)"
    "live s' (m_writeView s)" "live s' (nextView s)" "\<not> flag s' (nextView s)"
    "bit (m_sizeAndFlags (the (views s' (nextView s)))) 31" "snapshot s' (m_writeView s) = snapshot s (m_writeView s)"
proof -
  let ?W = "m_writeView s" and ?N = "nextView s"
  note acc = retired_accessors [OF ret] and inv = retired_parts(1) [OF ret]
  have W: "?W < ?N" "views s ?W \<noteq> None" "live s ?W" using cow_inv_parts(4) [OF inv, of ?W] by (simp_all add: live_def)
  obtain w where w: "views s ?W = Some w" "views s1 ?W = Some w"
    using W(2) acc(4) [of ?W] members_not_writer [OF inv past_member(3)] by fastforce
  let ?r = "w\<lparr>m_sizeAndFlags := setReadView (m_sizeAndFlags w)\<rparr>"
  have new: "views s' ?W = Some ?r" "views s' ?N = Some (copyView g ?r)"
    using mergedState_writer [of s1] w(2) W(1) acc(8,9) by (simp_all add: s'_def merged_def)
  show eq: "arr s' ?W = arr s ?W" "arr s' ?N = arr s ?W" "vsize s' ?W = vsize s ?W" "vsize s' ?N = vsize s ?W"
    "\<not> flag s' ?N" "bit (m_sizeAndFlags (the (views s' ?N))) 31"
    using new w(1) by (simp_all add: arr_def vsize_def flag_def)
  have arrays: "arrays s' (arr s ?W) = arrays s (arr s ?W)"
    using writer_array_kept [OF ret A] by (simp add: s'_def merged_def mergedState_store acc)
  show "live s' ?W" "live s' ?N" using W arrays eq new acc by (simp_all add: live_def s'_def)
  show "snapshot s' ?W = snapshot s ?W" using new(1) w(1) arrays by (simp add: snapshot_def arr_def)
qed

lemma held_survives:
  assumes ret: "retired s s1 r1 past1 cur1" and v: "0 < readers s v"
  shows "survives s1 past1 cur1 v"
proof -
  have "v \<in> set cur1 \<union> set (concat past1)"
    using cow_inv_parts(5) [OF retired_parts(1) [OF ret] v] retired_parts(7) [OF ret] retired_parts(10) [OF ret] v
    by (metis UnE gr_implies_not0 singletonD)
  moreover have "v \<notin> clearedViews s1 past1" using held_not_cleared [OF ret] v by blast
  ultimately show ?thesis using set_dropCleared [of past1 s1] retired_parts(6) [OF ret] by (auto simp: survives_def)
qed

text \<open>No view leaks: what is allocated after the merge is the writer, the read view or a survivor.\<close>

lemma merged_no_leak:
  assumes ret: "retired s s1 r1 past1 cur1" and v: "views (merged g A s1 past1 cur1) v \<noteq> None"
    and new: "v \<noteq> m_writeView s" "v \<noteq> nextView s"
  shows "survives s1 past1 cur1 v"
proof -
  let ?E = "erased s1 past1 cur1"
  note acc = retired_accessors [OF ret] and inv = retired_parts(1) [OF ret]
  have n: "v \<notin> ?E" "views s1 v \<noteq> None" using v new acc mergedState_maps(2) [of v s1 g ?E A]
    by (auto simp: merged_def split: if_splits)
  then have "v \<in> set (members s)" using cow_inv_parts(3) [OF inv, of v] acc(4) [of v] new(1) past_member(3) [of s]
    by (cases "v = m_readView s") auto
  then have "v \<in> set cur1 \<union> set (concat past1) \<union> {m_readView s}" using retired_parts(7) [OF ret] by simp
  then have "v \<in> set cur1 \<union> set (concat past1)" "v \<notin> clearedViews s1 past1"
    using n(1) acc(7) unfolding erased_def by (auto simp only: Un_iff singleton_iff split: if_splits)
  then show ?thesis using set_dropCleared [of past1 s1] retired_parts(6) [OF ret] by (auto simp: survives_def)
qed

lemma merged_inv:
  fixes g assumes ret: "retired s s1 r1 past1 cur1" and A: "A \<subseteq> arr s ` clearedViews s1 past1"
  defines "s' \<equiv> merged g A s1 past1 cur1"
  shows "cow_inv s'"
proof -
  let ?W = "m_writeView s" and ?N = "nextView s"
  note acc = retired_accessors [OF ret] and inv = retired_parts(1) [OF ret]
  note sv = survives_facts [OF ret _ A] and kept = merged_survivor [OF ret A, of _ g, folded s'_def]
  note wr = merged_writer [OF ret A, of g, folded s'_def]
  have names: "m_readView s' = ?W" "m_writeView s' = ?N" "readers s' = readers s" "current s' = cur1"
      "past s' = dropCleared s1 past1" "members s' = ?W # cur1 @ concat (dropCleared s1 past1)"
    by (simp_all add: s'_def acc)
  have memb: "v \<in> set (members s') \<longleftrightarrow> v = ?W \<or> survives s1 past1 cur1 v" for v by (auto simp: names survives_def)
  have WN: "?W < ?N" using cow_inv_parts(4) [OF inv, of ?W] by (simp add: live_def)
  show "cow_inv s'"
  proof (rule cow_invI, unfold names(1-5))
    show "readViewGenerations s' \<noteq> []" by (simp add: s'_def)
    have "?N \<notin> set (members s')" using memb sv(5) WN by auto
    moreover have "?W \<notin> set (cur1 @ concat (dropCleared s1 past1))" using sv(4) by (auto simp: survives_def)
    moreover have "distinct (cur1 @ concat (dropCleared s1 past1))"
      using retired_parts(6) [OF ret] distinct_dropCleared [of past1 s1] set_dropCleared [of past1 s1] by auto
    ultimately show "distinct (?N # members s')" by (simp add: names)
    show "v \<in> set (?N # members s')" if "views s' v \<noteq> None" for v
      using merged_no_leak [OF ret that [unfolded s'_def]] memb by auto
    show "live s' v" if "v \<in> set (?N # members s')" for v using that wr(5,6) kept(4) memb by auto
    show "v \<in> set (members s')" if "0 < readers s v" for v using held_survives [OF ret that] memb by simp
    show "arr s' v = arr s' ?W \<and> \<not> flag s' v" if "v \<in> set cur1" for v
      using retired_parts(8) [OF ret that] kept(1,2) [of v] that wr(1) by (simp add: survives_def)
    show "cleanable s' (dropCleared s1 past1)"
      by (rule cleanable_cong [OF cleanable_dropCleared [OF retired_parts(5) [OF ret]]])
        (use kept(1,2,4) acc(1) in \<open>simp add: survives_def\<close>)
    show "arr s' v \<noteq> arr s' ?W \<and> arr s' v \<noteq> arr s' ?N" if v: "v \<in> set (concat (dropCleared s1 past1))" for v
    proof -
      have "v \<in> set (concat past1)" using survives_facts(1) v set_dropCleared [of past1 s1] retired_parts(6) [OF ret] by auto
      then show ?thesis using retired_parts(9) [OF ret] kept(1) [of v] v wr(1,2) by (simp add: survives_def)
    qed
    have "vsize s' v \<le> vsize s ?W" if "v \<in> set cur1" for v
      using retired_parts(8) [OF ret that] kept(3) [of v] that by (simp add: survives_def)
    then show "writerOk s'" using wr by (simp add: writerOk_def names)
    show "bit (m_sizeAndFlags (the (views s' ?N))) 31" by (rule wr)
  qed
qed

lemma merge_ok:
  assumes inv: "cow_inv s"
  shows "\<exists>s'. merge True g s = Some s' \<and> cow_inv s' \<and> readers s' = readers s
    \<and> (\<forall>v. 0 < readers s v \<longrightarrow> snapshot s' v = snapshot s v)
    \<and> snapshot s' (m_readView s') = snapshot s (m_writeView s) \<and> snapshot s' (m_writeView s') = snapshot s (m_writeView s)"
proof -
  obtain s1 r1 past1 cur1 where s1: "retireReadView True s = Some s1" and ret: "retired s s1 r1 past1 cur1"
    using cow_inv_retired [OF inv] by blast
  obtain A where A: "A \<subseteq> arr s ` clearedViews s1 past1"
      and fin: "cleanReadViews s1 \<bind> finishMerge g = Some (merged g A s1 past1 cur1)"
    using retired_merge [OF ret] by blast
  let ?s = "merged g A s1 past1 cur1"
  note acc = retired_accessors [OF ret] and wr = merged_writer [OF ret A, of g]
  have "m_readView s \<noteq> m_writeView s" by (rule members_not_writer [OF inv past_member(3)])
  then have "merge True g s = Some ?s" using s1 fin by (simp add: merge_def)
  moreover have "snapshot ?s (nextView s) = snapshot ?s (m_writeView s)"
    using wr(1-6) by (simp add: live_def snapshot_live)
  ultimately show ?thesis using merged_inv [OF ret A] merged_survivor(5) [OF ret A held_survives [OF ret]] wr(9) acc
    by (intro exI [of _ ?s]) simp
qed

section \<open>Snapshots under writes and readers\<close>

lemma live_snapshot: "live s v \<Longrightarrow> snapshot s v \<noteq> None"
  by (auto simp: live_def snapshot_live)

text \<open>A write at the end of the write view, or in an array that only the write view uses, changes no read
  view.\<close>

definition unshared :: "nat \<Rightarrow> 'a cowvector \<Rightarrow> bool" where
  "unshared i s \<longleftrightarrow> i = vsize s (m_writeView s) \<or> i < vsize s (m_writeView s) \<and> arr s (m_writeView s) \<noteq> arr s (m_readView s)"

lemma movedTo_snapshot:
  assumes inv: "cow_inv s" and v: "v \<in> set (members s)"
    and A: "A = (if flag s (m_writeView s) then (arrays s)(arr s (m_writeView s) := None) else arrays s)"
  shows "snapshot (movedTo s w ys A) v = snapshot s v"
proof -
  have "live s v" using cow_inv_parts(4) [OF inv] v by simp
  then show ?thesis using flag_writer_alone [OF inv v] members_not_writer [OF inv v] A
    by (auto simp: snapshot_def movedTo_def arr_def live_def)
qed

lemma storedInPlace_snapshot:
  assumes inv: "cow_inv s" and v: "v \<in> set (members s)" and i: "unshared i s"
    and xs: "arrays s (arr s (m_writeView s)) = Some xs"
  shows "snapshot (storedInPlace i x s w xs) v = snapshot s v"
proof (cases "arr s v = arr s (m_writeView s)")
  case True
  then have "\<not> flag s (m_writeView s)" using flag_writer_alone [OF inv v] by blast
  then have "i = vsize s (m_writeView s)" using i flag_writer [OF inv] by (simp add: unshared_def)
  then have "vsize s v \<le> i" using writer_larger [OF inv v True] by simp
  moreover obtain view where "views s v = Some view"
    using cow_inv_parts(4) [OF inv, of v] v by (auto simp: live_def)
  ultimately show ?thesis using True members_not_writer [OF inv v] xs
    by (simp add: snapshot_def storedInPlace_def arr_def vsize_def take_update_cancel)
next
  case False
  then show ?thesis using members_not_writer [OF inv v] cow_inv_parts(4) [OF inv, of v] v
    by (auto simp: snapshot_def storedInPlace_def arr_def live_def)
qed

lemma cow_assign_ok:
  assumes inv: "cow_inv s" and i: "unshared i s" "vsize s (m_writeView s) + 1 < 2 ^ 30" and w: "snapshot s (m_writeView s) = Some zs"
  shows "\<exists>s'. cow_assign mem i x s = Some s' \<and> cow_inv s' \<and> readers s' = readers s \<and> m_readView s' = m_readView s
    \<and> (\<forall>v \<in> set (members s). snapshot s' v = snapshot s v)
    \<and> snapshot s' (m_writeView s') = Some (if i < length zs then zs[i := x] else zs @ [x])"
proof -
  let ?W = "m_writeView s"
  have le: "i \<le> vsize s ?W" using i(1) by (auto simp: unshared_def)
  obtain s' where s': "cow_assign mem i x s = Some s'" "cow_inv s'" "readers s' = readers s" "m_readView s' = m_readView s"
    using cow_assign_inv [OF inv le i(2)] by blast
  have live: "live s ?W" using cow_inv_parts(4) [OF inv] by simp
  have "(\<forall>v \<in> set (members s). snapshot s' v = snapshot s v)
      \<and> snapshot s' (m_writeView s') = Some (if i < length zs then zs[i := x] else zs @ [x])"
    using inv le i(2)
  proof (cases rule: cow_assign_cases [where mem = mem and x = x])
    case (inplace u xs)
    have zs: "zs = take (vsize s ?W) xs" "length zs = vsize s ?W"
      using w live inplace(6) by (auto simp: snapshot_live live_def)
    have "take (max (vsize s ?W) (i + 1)) (xs[i := x]) = (if i < length zs then zs[i := x] else zs @ [x])"
    proof (cases "i = vsize s ?W")
      case True
      then show ?thesis using zs inplace(7) by (simp add: max_def take_Suc_conv_app_nth take_update_cancel)
    next
      case False
      then have "i < vsize s ?W" "max (vsize s ?W) (i + 1) = vsize s ?W" using le by auto
      then show ?thesis using zs by (simp add: take_update_swap)
    qed
    then show ?thesis using inplace s'(1) storedInPlace_snapshot [OF inv _ i(1) inplace(6)]
      by (simp add: storedInPlace_def snapshot_def)
  next
    case (moved u ys xs A)
    have "zs = take i xs" "length zs = i" using w live moved(7,8) by (auto simp: snapshot_live live_def)
    moreover have "take (i + 1) ys = take i xs @ [x]" using moved(6,9,11) by (simp add: take_Suc_conv_app_nth)
    ultimately show ?thesis using moved(1,2,5) s'(1) movedTo_snapshot [OF inv _ moved(10)]
      by (simp add: movedTo_def snapshot_def)
  qed
  then show ?thesis using s' by blast
qed

lemma push_back_ok:
  assumes inv: "cow_inv s" and n: "vsize s (m_writeView s) + 1 < 2 ^ 30" and w: "snapshot s (m_writeView s) = Some zs"
  shows "\<exists>s'. push_back mem x s = Some s' \<and> cow_inv s' \<and> readers s' = readers s \<and> m_readView s' = m_readView s
    \<and> (\<forall>v \<in> set (members s). snapshot s' v = snapshot s v) \<and> snapshot s' (m_writeView s') = Some (zs @ [x])"
proof -
  let ?W = "m_writeView s"
  have live: "live s ?W" using cow_inv_parts(4) [OF inv] by simp
  then obtain u where u: "views s ?W = Some u" by (auto simp: live_def)
  then have "push_back mem x s = cow_assign mem (vsize s ?W) x s"
    using isWriteView_bit cow_inv_parts(10) [OF inv] by (simp add: push_back_def vsize_def)
  moreover have "length zs = vsize s ?W" using w live by (auto simp: snapshot_live live_def)
  ultimately show ?thesis using cow_assign_ok [OF inv _ n w, of "vsize s ?W" mem x] by (simp add: unshared_def)
qed

lemma forceCreateCopy_ok:
  assumes inv: "cow_inv s"
  shows "\<exists>s'. forceCreateCopy mem s = Some s' \<and> cow_inv s' \<and> readers s' = readers s \<and> m_readView s' = m_readView s
    \<and> (\<forall>v \<in> set (members s). snapshot s' v = snapshot s v) \<and> snapshot s' (m_writeView s') = snapshot s (m_writeView s)
    \<and> arr s' (m_writeView s') \<noteq> arr s' (m_readView s')"
proof -
  let ?W = "m_writeView s"
  obtain w xs where w: "views s ?W = Some w" "arrays s (m_array w) = Some xs" "view_size (m_sizeAndFlags w) \<le> length xs"
      "m_array w < nextArray s"
    using cow_inv_parts(4) [OF inv, of ?W] by (auto simp: live_def arr_def vsize_def)
  let ?n = "view_size (m_sizeAndFlags w)"
  let ?w = "w\<lparr>m_array := nextArray s, m_sizeAndFlags := setNeedToFreeArray True (m_sizeAndFlags w)\<rparr>"
  let ?ys = "take ?n xs @ map mem [?n..<length xs]"
  let ?A = "if flag s ?W then (arrays s)(arr s ?W := None) else arrays s"
  have same: "setNeedToFreeArray True f = f" if "getNeedToFreeArray f" for f
    using that by (intro bit_word_eqI) (auto simp: setNeedToFreeArray_def getNeedToFreeArray_bit bit_or_iff mask_bits)
  have "forceCreateCopy mem s = Some (movedTo s ?w ?ys ?A)"
    using w by (auto simp: forceCreateCopy_def reallocate_def deleteArray_def Let_def movedTo_def same fun_upd_twist arr_def flag_def)
  moreover have i: "cow_inv (movedTo s ?w ?ys ?A)"
    by (rule movedTo_inv [OF inv]) (use cow_inv_parts(10) [OF inv] w in simp_all)
  moreover have "snapshot (movedTo s ?w ?ys ?A) ?W = snapshot s ?W"
    using w by (simp add: snapshot_def movedTo_def)
  moreover have "flag (movedTo s ?w ?ys ?A) (m_writeView (movedTo s ?w ?ys ?A))" by (simp add: flag_def movedTo_def)
  moreover have "readers (movedTo s ?w ?ys ?A) = readers s" "m_readView (movedTo s ?w ?ys ?A) = m_readView s"
      "m_writeView (movedTo s ?w ?ys ?A) = ?W" by (simp_all add: movedTo_def)
  ultimately show ?thesis using movedTo_snapshot [OF inv] flag_writer [OF i] by (intro exI [of _ "movedTo s ?w ?ys ?A"]) simp
qed

text \<open>Counting readers changes nothing but the counts: a held view is a kept view, so that the release of
  the last shared pointer of a reader deletes nothing.\<close>

lemma readers_inv:
  assumes inv: "cow_inv s" and r: "\<And>v. 0 < R v \<Longrightarrow> v \<in> set (members s)"
  shows "cow_inv (s\<lparr>readers := R\<rparr>)"
proof -
  let ?s = "s\<lparr>readers := R\<rparr>"
  have acc: "members ?s = members s" "current ?s = current s" "past ?s = past s" "arr ?s = arr s" "flag ?s = flag s"
      "vsize ?s = vsize s" "live ?s = live s"
    by (auto simp: fun_eq_iff members_def current_def past_def arr_def flag_def vsize_def live_def)
  have "cleanable ?s gs = cleanable s gs" for gs
    by (simp add: cleanable_def groupOk_def apart_def [abs_def] acc)
  moreover have "writerOk ?s = writerOk s" by (simp add: writerOk_def acc)
  ultimately show ?thesis using inv r unfolding cow_inv_def acc by simp
qed

lemma getReadView_ok:
  assumes "cow_inv s" shows "cow_inv (snd (getReadView s))"
  unfolding getReadView_def snd_conv
  by (rule readers_inv [OF assms]) (use cow_inv_parts(5) [OF assms] past_member(3) [of s] in \<open>auto split: if_splits\<close>)

lemma releaseView_ok:
  assumes inv: "cow_inv s" and v: "0 < readers s v"
  shows "releaseView v s = Some (s\<lparr>readers := (readers s)(v := readers s v - 1)\<rparr>)"
    "cow_inv (s\<lparr>readers := (readers s)(v := readers s v - 1)\<rparr>)"
proof -
  have "v \<in> set (members s)" by (rule cow_inv_parts(5) [OF inv v])
  moreover have "set (concat (readViewGenerations s)) = set (concat (past s)) \<union> set (current s)"
  proof -
    have "readViewGenerations s = past s @ [current s]" using cow_inv_parts(1) [OF inv] by (simp add: past_def current_def)
    then show ?thesis by (simp only: concat_append set_append) simp
  qed
  ultimately have "v = m_readView s \<or> count_list (concat (readViewGenerations s)) v \<noteq> 0"
    by (auto simp: members_def count_list_0_iff)
  then show "releaseView v s = Some (s\<lparr>readers := (readers s)(v := readers s v - 1)\<rparr>)"
    using v by (auto simp: releaseView_def dropIfUnused_def useCount_def)
  show "cow_inv (s\<lparr>readers := (readers s)(v := readers s v - 1)\<rparr>)"
    by (rule readers_inv [OF inv]) (use cow_inv_parts(5) [OF inv] v in \<open>auto split: if_splits\<close>)
qed

section \<open>Before the first commit\<close>

fun pushAll :: "(nat \<Rightarrow> 'a) \<Rightarrow> 'a list \<Rightarrow> 'a cowvector \<Rightarrow> 'a cowvector option" where
  "pushAll mem [] s = Some s"
| "pushAll mem (x # xs) s = do { s \<leftarrow> push_back mem x s; pushAll mem xs s }"

text \<open>A vector that is filled and committed. One view reads and writes until the commit.\<close>

definition committed :: "(nat \<Rightarrow> 'a) \<Rightarrow> u64 \<Rightarrow> nat \<Rightarrow> 'a list \<Rightarrow> 'a cowvector option" where
  "committed mem g capacity xs = do { s \<leftarrow> pushAll mem xs (cow_new mem g capacity); commit g s }"

definition fresh :: "'a cowvector \<Rightarrow> vectorview \<Rightarrow> 'a list \<Rightarrow> bool" where
  "fresh s w ys \<longleftrightarrow> m_readView s = 0 \<and> m_writeView s = 0 \<and> views s = [0 \<mapsto> w] \<and> readers s = (\<lambda>_. 0)
    \<and> readViewGenerations s = [[]] \<and> nextView s = 1 \<and> m_array w < nextArray s \<and> getNeedToFreeArray (m_sizeAndFlags w)
    \<and> bit (m_sizeAndFlags w) 31 \<and> arrays s (m_array w) = Some ys \<and> view_size (m_sizeAndFlags w) \<le> length ys"

lemma fresh_new: "\<exists>w ys. fresh (cow_new mem g capacity) w ys \<and> view_size (m_sizeAndFlags w) = 0"
  by (intro exI) (auto simp: fresh_def cow_new_def newView_def)

lemma push_back_fresh:
  assumes f: "fresh s w ys" and n: "view_size (m_sizeAndFlags w) + 1 < 2 ^ 30"
  shows "\<exists>s' w' ys'. push_back mem x s = Some s' \<and> fresh s' w' ys'
    \<and> view_size (m_sizeAndFlags w') = view_size (m_sizeAndFlags w) + 1
    \<and> take (view_size (m_sizeAndFlags w')) ys' = take (view_size (m_sizeAndFlags w)) ys @ [x]"
proof -
  let ?n = "view_size (m_sizeAndFlags w)"
  note d = f [unfolded fresh_def]
  have b: "isWriteView (m_sizeAndFlags w)" using d isWriteView_bit by simp
  let ?w = "w\<lparr>m_sizeAndFlags := setSize (?n + 1) (m_sizeAndFlags w)\<rparr>"
  show ?thesis
  proof (cases "?n < length ys")
    case True
    let ?s = "s\<lparr>views := (views s)(0 \<mapsto> ?w), arrays := (arrays s)(m_array w \<mapsto> ys[?n := x])\<rparr>"
    have "push_back mem x s = Some ?s"
      using d b True by (simp add: push_back_def cow_assign_def cow_at_def Let_def)
    moreover have "fresh ?s ?w (ys[?n := x])" using d n True by (simp add: fresh_def)
    ultimately show ?thesis using True n
      by (intro exI [of _ ?s] exI [of _ ?w] exI [of _ "ys[?n := x]"]) (simp add: take_Suc_conv_app_nth)
  next
    case False
    then have l: "?n = length ys" using d by simp
    let ?zs = "(ys @ map mem [?n..<growCapacity ?n ?n])[?n := x]"
    let ?v = "w\<lparr>m_array := nextArray s, m_sizeAndFlags := setSize (?n + 1) (m_sizeAndFlags w)\<rparr>"
    let ?s = "s\<lparr>nextArray := nextArray s + 1, views := (views s)(0 \<mapsto> ?v),
        arrays := (arrays s)(m_array w := None, nextArray s \<mapsto> ?zs)\<rparr>"
    have z: "?n < length ?zs" using l growCapacity_gt [of ?n ?n] by simp
    have "push_back mem x s = Some ?s"
      using d b False l z
      by (simp add: push_back_def cow_assign_def cow_at_def reallocate_def deleteArray_def Let_def fun_upd_twist)
    moreover have "fresh ?s ?v ?zs" using d n z by (simp add: fresh_def)
    moreover have "take (?n + 1) ?zs = ys @ [x]" using l z by (simp add: take_Suc_conv_app_nth)
    ultimately show ?thesis using l n by (intro exI [of _ ?s] exI [of _ ?v] exI [of _ ?zs]) simp
  qed
qed

lemma pushAll_fresh:
  assumes "fresh s w ys" "view_size (m_sizeAndFlags w) + length xs < 2 ^ 30"
  shows "\<exists>s' w' ys'. pushAll mem xs s = Some s' \<and> fresh s' w' ys'
    \<and> take (view_size (m_sizeAndFlags w')) ys' = take (view_size (m_sizeAndFlags w)) ys @ xs"
  using assms
proof (induction xs arbitrary: s w ys)
  case (Cons x xs)
  have n: "view_size (m_sizeAndFlags w) + 1 < 2 ^ 30" using Cons.prems(2) by simp
  obtain s1 w1 ys1 where 1: "push_back mem x s = Some s1" "fresh s1 w1 ys1"
      "view_size (m_sizeAndFlags w1) = view_size (m_sizeAndFlags w) + 1"
      "take (view_size (m_sizeAndFlags w1)) ys1 = take (view_size (m_sizeAndFlags w)) ys @ [x]"
    using push_back_fresh [OF Cons.prems(1) n] by blast
  then show ?case using Cons.IH [OF 1(2)] Cons.prems(2) by simp
qed auto

lemma commit_ok:
  assumes "fresh s w ys"
  shows "\<exists>s'. commit g s = Some s' \<and> cow_inv s' \<and> readers s' = (\<lambda>_. 0) \<and> readViewGenerations s' = [[]]
    \<and> snapshot s' (m_readView s') = Some (take (view_size (m_sizeAndFlags w)) ys)
    \<and> snapshot s' (m_writeView s') = Some (take (view_size (m_sizeAndFlags w)) ys)"
proof -
  note d = assms [unfolded fresh_def]
  let ?r = "w\<lparr>m_sizeAndFlags := setReadView (m_sizeAndFlags w)\<rparr>"
  let ?s = "s\<lparr>views := [0 \<mapsto> ?r, 1 \<mapsto> copyView g ?r], m_writeView := 1, nextView := 2\<rparr>"
  have "commit g s = Some ?s" using d by (simp add: commit_def Let_def numeral_2_eq_2)
  moreover have "cow_inv ?s"
    by (rule cow_invI)
      (use d in \<open>auto simp: members_def current_def past_def cleanable_def live_def arr_def vsize_def flag_def writerOk_def split: if_splits\<close>)
  ultimately show ?thesis using d by (intro exI [of _ ?s]) (simp add: snapshot_def)
qed

lemma committed_ok:
  assumes "length xs < 2 ^ 30"
  shows "\<exists>s. committed mem g capacity xs = Some s \<and> cow_inv s \<and> readers s = (\<lambda>_. 0) \<and> readViewGenerations s = [[]]
    \<and> snapshot s (m_readView s) = Some xs \<and> snapshot s (m_writeView s) = Some xs"
proof -
  obtain w ys where 1: "fresh (cow_new mem g capacity) w ys" "view_size (m_sizeAndFlags w) = 0" using fresh_new by blast
  obtain s w' ys' where 2: "pushAll mem xs (cow_new mem g capacity) = Some s" "fresh s w' ys'"
      "take (view_size (m_sizeAndFlags w')) ys' = xs"
    using pushAll_fresh [OF 1(1), of xs mem] 1(2) assms by auto
  then show ?thesis using commit_ok [OF 2(2), of g] by (auto simp: committed_def)
qed

section \<open>Runs\<close>

text \<open>What the writer and the readers do, in any order. Only the writer calls the first three and \<open>Merge\<close>.\<close>

datatype 'a cow_op = PushBack 'a | Assign nat 'a | ForceCreateCopy | GetReadView | Release nat | Merge

fun cow_exec :: "bool \<Rightarrow> (nat \<Rightarrow> 'a) \<Rightarrow> u64 \<Rightarrow> 'a cow_op \<Rightarrow> 'a cowvector \<Rightarrow> 'a cowvector option" where
  "cow_exec managed mem g (PushBack x) s = push_back mem x s"
| "cow_exec managed mem g (Assign i x) s = cow_assign mem i x s"
| "cow_exec managed mem g ForceCreateCopy s = forceCreateCopy mem s"
| "cow_exec managed mem g GetReadView s = Some (snd (getReadView s))"
| "cow_exec managed mem g (Release v) s = releaseView v s"
| "cow_exec managed mem g Merge s = merge managed g s"

text \<open>The obligations of the callers: the size fits its 30 bits, the writer overwrites elements only in an
  array of its own, and a reader releases a view that it holds.\<close>

fun allowed :: "'a cow_op \<Rightarrow> 'a cowvector \<Rightarrow> bool" where
  "allowed (PushBack x) s \<longleftrightarrow> vsize s (m_writeView s) + 1 < 2 ^ 30"
| "allowed (Assign i x) s \<longleftrightarrow> vsize s (m_writeView s) + 1 < 2 ^ 30 \<and> unshared i s"
| "allowed (Release v) s \<longleftrightarrow> 0 < readers s v"
| "allowed op s \<longleftrightarrow> True"

fun runOps :: "('op \<Rightarrow> 's \<Rightarrow> 's option) \<Rightarrow> 'op list \<Rightarrow> 's \<Rightarrow> 's option" where
  "runOps exec [] s = Some s"
| "runOps exec (op # ops) s = do { s \<leftarrow> exec op s; runOps exec ops s }"

text \<open>A condition on the state before each operation of a run, for as long as it returns.\<close>

fun throughout :: "('op \<Rightarrow> 's \<Rightarrow> 's option) \<Rightarrow> ('op \<Rightarrow> 's \<Rightarrow> bool) \<Rightarrow> 'op list \<Rightarrow> 's \<Rightarrow> bool" where
  "throughout exec P [] s \<longleftrightarrow> True"
| "throughout exec P (op # ops) s \<longleftrightarrow> P op s
    \<and> (case exec op s of None \<Rightarrow> True | Some s \<Rightarrow> throughout exec P ops s)"

text \<open>The contract of a vector with its clients: operations return, and what is held can be read and stays as it is
  for as long as it is held. \<open>content\<close> is what the writer has published and what it has pending, and \<open>effect\<close> the
  abstract effect of an operation on it.\<close>

locale counted_store =
  fixes inv :: "'s \<Rightarrow> bool" and exec :: "'op \<Rightarrow> 's \<Rightarrow> 's option" and permitted :: "'op \<Rightarrow> 's \<Rightarrow> bool"
    and held :: "'s \<Rightarrow> 'v \<Rightarrow> bool" and view :: "'s \<Rightarrow> 'v \<Rightarrow> 'c option"
    and content :: "'s \<Rightarrow> 'c \<times> 'c" and effect :: "'op \<Rightarrow> 'c \<times> 'c \<Rightarrow> 'c \<times> 'c"
  assumes exec_ok: "inv s \<Longrightarrow> permitted op s \<Longrightarrow> \<exists>s'. exec op s = Some s' \<and> inv s' \<and> content s' = effect op (content s)
      \<and> (\<forall>v. held s v \<longrightarrow> held s' v \<longrightarrow> view s' v = view s v)"
    and held_readable: "inv s \<Longrightarrow> held s v \<Longrightarrow> view s v \<noteq> None"
begin

lemma run_ok:
  assumes "inv s" "throughout exec permitted ops s"
  shows "\<exists>s'. runOps exec ops s = Some s' \<and> inv s' \<and> content s' = fold effect ops (content s)"
  using assms
proof (induction ops arbitrary: s)
  case (Cons op ops)
  obtain s1 where 1: "exec op s = Some s1" "inv s1" "content s1 = effect op (content s)"
    using exec_ok [OF Cons.prems(1)] Cons.prems(2) by fastforce
  then show ?case using Cons.IH [OF 1(2)] Cons.prems(2) by simp
qed simp

lemma run_held:
  assumes "inv s" "throughout exec permitted ops s" "throughout exec (\<lambda>op s. held s v) ops s" "runOps exec ops s = Some s'" "held s' v"
  shows "view s' v = view s v"
  using assms
proof (induction ops arbitrary: s)
  case (Cons op ops)
  obtain s1 where 1: "exec op s = Some s1" "inv s1" "held s v \<longrightarrow> held s1 v \<longrightarrow> view s1 v = view s v"
    using exec_ok [OF Cons.prems(1)] Cons.prems(2) by fastforce
  have "held s1 v" using Cons.prems(3-5) 1(1) by (cases ops) auto
  then show ?case using Cons.IH [OF 1(2)] Cons.prems(2-5) 1 by simp
qed simp

end

text \<open>A vector with a manager keeps a view beyond its release.\<close>

locale versioned_store = counted_store inv exec permitted held view content effect
  for inv :: "'s \<Rightarrow> bool" and exec :: "'op \<Rightarrow> 's \<Rightarrow> 's option" and permitted :: "'op \<Rightarrow> 's \<Rightarrow> bool"
    and held :: "'s \<Rightarrow> 'v \<Rightarrow> bool" and view :: "'s \<Rightarrow> 'v \<Rightarrow> 'c option"
    and content :: "'s \<Rightarrow> 'c \<times> 'c" and effect :: "'op \<Rightarrow> 'c \<times> 'c \<Rightarrow> 'c \<times> 'c" +
  assumes exec_keeps: "inv s \<Longrightarrow> permitted op s \<Longrightarrow> exec op s = Some s' \<Longrightarrow> held s v \<Longrightarrow> view s' v = view s v"
begin

lemma run_keeps:
  assumes "inv s" "throughout exec permitted ops s" "throughout exec (\<lambda>op s. held s v) ops s" "runOps exec ops s = Some s'"
  shows "view s' v = view s v"
  using assms
proof (induction ops arbitrary: s)
  case (Cons op ops)
  obtain s1 where 1: "exec op s = Some s1" "inv s1"
    using exec_ok [OF Cons.prems(1)] Cons.prems(2) by fastforce
  have "view s1 v = view s v" using exec_keeps [OF Cons.prems(1) _ 1(1)] Cons.prems(2,3) by simp
  then show ?case using Cons.IH [OF 1(2)] Cons.prems(2-4) 1(1) by simp
qed simp

end

definition cow_content :: "'a cowvector \<Rightarrow> 'a list \<times> 'a list" where
  "cow_content s = (the (snapshot s (m_readView s)), the (snapshot s (m_writeView s)))"

fun cow_effect :: "'a cow_op \<Rightarrow> 'a list \<times> 'a list \<Rightarrow> 'a list \<times> 'a list" where
  "cow_effect (PushBack x) (published, pending) = (published, pending @ [x])"
| "cow_effect (Assign i x) (published, pending) = (published, if i < length pending then pending[i := x] else pending @ [x])"
| "cow_effect Merge (published, pending) = (pending, pending)"
| "cow_effect op (published, pending) = (published, pending)"

lemma cow_exec_ok:
  assumes inv: "cow_inv s" and op: "allowed op s"
  shows "\<exists>s'. cow_exec True mem g op s = Some s' \<and> cow_inv s' \<and> cow_content s' = cow_effect op (cow_content s)
    \<and> (\<forall>v. 0 < readers s v \<longrightarrow> snapshot s' v = snapshot s v)"
proof -
  obtain zs where w: "snapshot s (m_writeView s) = Some zs"
    using live_snapshot cow_inv_parts(4) [OF inv, of "m_writeView s"] by fastforce
  have held: "v \<in> set (members s)" if "0 < readers s v" for v using cow_inv_parts(5) [OF inv that] .
  have snap: "snapshot (s\<lparr>readers := R\<rparr>) v = snapshot s v" for R v by (simp add: snapshot_def)
  show ?thesis
  proof (cases op)
    case (PushBack x)
    then show ?thesis using push_back_ok [OF inv _ w, of mem x] op held past_member(3) [of s] w
      by (fastforce simp: cow_content_def)
  next
    case (Assign i x)
    then show ?thesis using cow_assign_ok [OF inv _ _ w, of i mem x] op held past_member(3) [of s] w
      by (fastforce simp: cow_content_def)
  next
    case ForceCreateCopy
    then show ?thesis using forceCreateCopy_ok [OF inv, of mem] held past_member(3) [of s] by (fastforce simp: cow_content_def)
  next
    case GetReadView
    then show ?thesis using getReadView_ok [OF inv] by (simp add: getReadView_def cow_content_def snap)
  next
    case (Release v)
    then show ?thesis using releaseView_ok [OF inv] op by (simp add: cow_content_def snap)
  next
    case Merge
    then show ?thesis using merge_ok [OF inv, of g] by (auto simp: cow_content_def)
  qed
qed

interpretation cow: versioned_store cow_inv "cow_exec True mem g" allowed "\<lambda>s v. 0 < readers s v" snapshot cow_content cow_effect
  for mem :: "nat \<Rightarrow> 'a" and g
proof
  fix s s' :: "'a cowvector" and op :: "'a cow_op" and v
  assume ok: "cow_inv s" "allowed op s"
  then show "\<exists>s'. cow_exec True mem g op s = Some s' \<and> cow_inv s' \<and> cow_content s' = cow_effect op (cow_content s)
      \<and> (\<forall>v. 0 < readers s v \<longrightarrow> 0 < readers s' v \<longrightarrow> snapshot s' v = snapshot s v)" using cow_exec_ok by blast
  show "snapshot s' v = snapshot s v" if "cow_exec True mem g op s = Some s'" "0 < readers s v"
    using cow_exec_ok [OF ok, of mem g] that by auto
next
  fix s :: "'a cowvector" and v
  assume inv: "cow_inv s" and "0 < readers s v"
  then have "live s v" using cow_inv_parts(4,5) [OF inv] by simp
  then show "snapshot s v \<noteq> None" by (rule live_snapshot)
qed

definition cow_history :: "bool \<Rightarrow> (nat \<Rightarrow> 'a) \<Rightarrow> u64 \<Rightarrow> nat \<Rightarrow> 'a list \<Rightarrow> 'a cow_op list \<Rightarrow> 'a cowvector option" where
  "cow_history managed mem g capacity xs ops = do { s \<leftarrow> committed mem g capacity xs; runOps (cow_exec managed mem g) ops s }"

definition wellUsed :: "(nat \<Rightarrow> 'a) \<Rightarrow> u64 \<Rightarrow> nat \<Rightarrow> 'a list \<Rightarrow> 'a cow_op list \<Rightarrow> bool" where
  "wellUsed mem g capacity xs ops \<longleftrightarrow> length xs < 2 ^ 30
    \<and> (case committed mem g capacity xs of None \<Rightarrow> True | Some s \<Rightarrow> throughout (cow_exec True mem g) allowed ops s)"

text \<open>The reader that gets a view after \<open>before\<close> holds it during \<open>after\<close>.\<close>

definition holds :: "(nat \<Rightarrow> 'a) \<Rightarrow> u64 \<Rightarrow> nat \<Rightarrow> 'a list \<Rightarrow> 'a cow_op list \<Rightarrow> 'a cow_op list \<Rightarrow> nat \<Rightarrow> bool" where
  "holds mem g capacity xs before after v \<longleftrightarrow> (case cow_history True mem g capacity xs before of None \<Rightarrow> True
     | Some s \<Rightarrow> v = fst (getReadView s) \<and> throughout (cow_exec True mem g) (\<lambda>op s. 0 < readers s v) after (snd (getReadView s)))"

lemma runOps_append: "runOps exec (xs @ ys) s = runOps exec xs s \<bind> runOps exec ys"
  by (induction xs arbitrary: s) (auto split: bind_splits)

lemma throughout_append:
  "throughout exec P (xs @ ys) s \<longleftrightarrow> throughout exec P xs s
    \<and> (case runOps exec xs s of None \<Rightarrow> True | Some s \<Rightarrow> throughout exec P ys s)"
  by (induction xs arbitrary: s) (auto split: option.splits)

lemma cow_history_ok:
  assumes "wellUsed mem g capacity xs ops"
  shows "\<exists>s. cow_history True mem g capacity xs ops = Some s \<and> cow_inv s \<and> cow_content s = fold cow_effect ops (xs, xs)"
proof -
  obtain s0 where s0: "committed mem g capacity xs = Some s0" "cow_inv s0" "cow_content s0 = (xs, xs)"
    using committed_ok [of xs mem g capacity] assms by (auto simp: wellUsed_def cow_content_def)
  then show ?thesis using cow.run_ok [OF s0(2), of mem g ops] assms by (auto simp: cow_history_def wellUsed_def)
qed

text \<open>Evaluation of concrete runs.\<close>

lemma isWriteView_iff: "isWriteView f \<longleftrightarrow> (\<exists>i. bit f i \<and> 31 \<le> i \<and> i < 64)"
  unfolding isWriteView_def and_nonzero_iff mask_bits ..

lemma view_kind_simps [simp]:
  "isWriteView (setNeedToFreeArray b f) = isWriteView f" "isReadView (setNeedToFreeArray b f) = isReadView f"
  "isWriteView (setWriteView f)" "\<not> isReadView (setWriteView f)"
proof -
  show "isWriteView (setNeedToFreeArray b f) = isWriteView f"
    unfolding isWriteView_iff by (rule arg_cong [where f = Ex]) (auto simp: fun_eq_iff setNeedToFreeArray_def bit_or_iff bit_and_iff bit_not_iff mask_bits)
  then show "isReadView (setNeedToFreeArray b f) = isReadView f" by (simp add: isReadView_def)
  show "isWriteView (setWriteView f)" by (rule isWriteView_bit) simp
  then show "\<not> isReadView (setWriteView f)" by (simp add: isReadView_def)
qed

lemma isWriteView_setSize [simp]: "isWriteView (setSize n (setWriteView f))" "isWriteView (setSize n (setNeedToFreeArray b (setWriteView f)))"
  by (rule isWriteView_bit, simp)+

lemmas cow_eval = cow_history_def wellUsed_def holds_def committed_def cow_new_def newView_def copyView_def commit_def
  push_back_def cow_assign_def cow_at_def reallocate_def deleteArray_def deleteView_def dropIfUnused_def useCount_def
  forceCreateCopy_def getReadView_def releaseView_def merge_def retireReadView_def finishMerge_def cleanReadViews_def
  storeReadView_def incrementGeneration_def vsize_def arr_def unshared_def snapshot_def Let_def growCapacity.simps

text \<open>
  C13. Memory safety. However the writer and any number of readers interleave their operations on a
  committed vector, every operation returns, without a failed assertion, a use after free or a double free,
  as long as merges are given a read view manager; every view that a reader holds can be read; and what the
  vector has published and has pending are those of the abstract vector.\<close>

theorem cow_run_safe:
  assumes "wellUsed mem g capacity xs ops"
  shows "\<exists>s. cow_history True mem g capacity xs ops = Some s \<and> cow_content s = fold cow_effect ops (xs, xs)
    \<and> (\<forall>v. 0 < readers s v \<longrightarrow> snapshot s v \<noteq> None)"
  using cow_history_ok [OF assms] cow.held_readable by blast

theorem cow_run_safe_witness:
  "\<exists>s. cow_history True (\<lambda>_. 0 :: nat) 0 1 [7] [GetReadView, PushBack 8, Merge, GetReadView, ForceCreateCopy, Assign 0 5, Merge, Release 0, Merge] = Some s
    \<and> cow_content s = ([5, 8], [5, 8])"
proof -
  have "wellUsed (\<lambda>_. 0 :: nat) 0 1 [7] [GetReadView, PushBack 8, Merge, GetReadView, ForceCreateCopy, Assign 0 5, Merge, Release 0, Merge]"
    by (simp add: cow_eval)
  from cow_run_safe [OF this] show ?thesis by auto
qed

text \<open>
  C12. Snapshot isolation. A reader that gets a read view sees the elements that were published at that
  moment, for as long as it holds the view, whatever the writer appends, overwrites, copies and merges and
  other readers get and release in the meantime.\<close>

theorem cow_reader_isolated:
  assumes "wellUsed mem g capacity xs (before @ GetReadView # after)" "holds mem g capacity xs before after v"
  shows "\<exists>s. cow_history True mem g capacity xs (before @ GetReadView # after) = Some s
    \<and> snapshot s v = Some (fst (fold cow_effect before (xs, xs)))"
proof -
  let ?run = "cow_exec True mem g"
  have "wellUsed mem g capacity xs before" using assms(1) by (auto simp: wellUsed_def throughout_append split: option.splits)
  then obtain s1 where s1: "cow_history True mem g capacity xs before = Some s1" "cow_inv s1"
      "cow_content s1 = fold cow_effect before (xs, xs)" using cow_history_ok by blast
  obtain s2 where s2: "cow_history True mem g capacity xs (before @ GetReadView # after) = Some s2"
    using cow_history_ok [OF assms(1)] by blast
  let ?s = "snd (getReadView s1)"
  have "v = fst (getReadView s1)" and v2: "throughout ?run (\<lambda>op s. 0 < readers s v) after ?s"
    using assms(2) unfolding holds_def s1(1) option.case by blast+
  then have v: "v = m_readView s1" by (simp add: getReadView_def)
  have run: "throughout ?run allowed after ?s" "runOps ?run after ?s = Some s2"
    using assms(1) s1(1) s2 by (auto simp: wellUsed_def cow_history_def throughout_append runOps_append split: bind_splits option.splits)
  have "snapshot s2 v = snapshot ?s v" by (rule cow.run_keeps [OF getReadView_ok [OF s1(2)] run(1) v2 run(2)])
  moreover have "snapshot ?s v = snapshot s1 v" by (simp add: snapshot_def getReadView_def)
  moreover have "live s1 v" using cow_inv_parts(4) [OF s1(2)] past_member(3) [of s1] v by simp
  ultimately show ?thesis using s2 s1(3) [symmetric] live_snapshot [of s1 v] v by (auto simp: cow_content_def)
qed

theorem cow_reader_isolated_witness:
  "\<exists>s. cow_history True (\<lambda>_. 0 :: nat) 0 1 [7] ([PushBack 8, Merge] @ GetReadView # [ForceCreateCopy, Assign 0 5, Merge, PushBack 6, Merge, Merge]) = Some s
    \<and> snapshot s 1 = Some [7, 8]"
proof -
  have "wellUsed (\<lambda>_. 0 :: nat) 0 1 [7] ([PushBack 8, Merge] @ GetReadView # [ForceCreateCopy, Assign 0 5, Merge, PushBack 6, Merge, Merge])"
    by (simp add: cow_eval)
  moreover have "holds (\<lambda>_. 0 :: nat) 0 1 [7] [PushBack 8, Merge] [ForceCreateCopy, Assign 0 5, Merge, PushBack 6, Merge, Merge] 1"
    by (simp add: cow_eval)
  ultimately show ?thesis using cow_reader_isolated by fastforce
qed

section \<open>Merges without a read view manager\<close>

text \<open>
  A reader holds the view \<open>v\<close> whose array \<open>a\<close> is also that of the current read view, which nobody holds.
\<close>

definition orphaned :: "nat \<Rightarrow> nat \<Rightarrow> 'a cowvector \<Rightarrow> bool" where
  "orphaned v a s \<longleftrightarrow> views s v \<noteq> None \<and> v < nextView s \<and> arr s v = a \<and> v \<noteq> m_readView s \<and> v \<noteq> m_writeView s
    \<and> m_readView s \<noteq> m_writeView s \<and> views s (m_readView s) \<noteq> None \<and> arr s (m_readView s) = a
    \<and> isReadView (m_sizeAndFlags (the (views s (m_readView s))))
    \<and> useCount (m_readView s) s = 1 \<and> readers s (m_writeView s) = 0 \<and> m_writeView s \<notin> set (concat (readViewGenerations s))
    \<and> a < nextArray s \<and> arrays s a \<noteq> None
    \<and> live s (m_writeView s) \<and> bit (m_sizeAndFlags (the (views s (m_writeView s)))) 31
    \<and> (arr s (m_writeView s) = a \<longrightarrow> \<not> flag s (m_writeView s))"

text \<open>The first merge, while the writer shares the array of a held read view.\<close>

lemma merge_orphans:
  assumes inv: "cow_inv s" and same: "arr s (m_writeView s) = arr s (m_readView s)" and held: "0 < readers s (m_readView s)"
  shows "\<exists>s'. merge False g s = Some s' \<and> orphaned (m_readView s) (arr s (m_readView s)) s' \<and> readers s' = readers s"
proof -
  let ?R = "m_readView s" and ?W = "m_writeView s"
  obtain r w xs where v: "views s ?R = Some r" "views s ?W = Some w" "m_array r = m_array w"
      "arrays s (m_array w) = Some xs" "view_size (m_sizeAndFlags w) \<le> length xs" "m_array w < nextArray s"
      "?R < nextView s" "?W < nextView s"
    using cow_inv_parts(4) [OF inv, of ?R] cow_inv_parts(4) [OF inv, of ?W] past_member(3) [of s] same
    by (auto simp: live_def arr_def vsize_def)
  have new: "nextView s \<notin> set (members s)"
    using cow_inv_parts(4) [OF inv, of "nextView s"] by (auto simp: live_def)
  have d: "?W \<noteq> ?R" "?W \<notin> set (concat (readViewGenerations s))" "readers s ?W = 0"
    and fresh: "readers s (nextView s) = 0" "nextView s \<notin> set (concat (readViewGenerations s))"
  proof -
    have gens: "concat (readViewGenerations s) = concat (past s) @ current s"
      using cow_inv_parts(1) [OF inv] unfolding past_def current_def by (metis append_Nil2 append_butlast_last_id concat.simps concat_append)
    show "?W \<noteq> ?R" "?W \<notin> set (concat (readViewGenerations s))"
      using cow_inv_parts(2) [OF inv] by (auto simp: members_def gens)
    show "readers s ?W = 0" using cow_inv_parts(5) [OF inv, of ?W] members_not_writer [OF inv, of ?W] by blast
    show "readers s (nextView s) = 0" using cow_inv_parts(5) [OF inv, of "nextView s"] new by blast
    show "nextView s \<notin> set (concat (readViewGenerations s))" using new by (auto simp: members_def gens)
  qed
  let ?r = "r\<lparr>m_sizeAndFlags := setNeedToFreeArray False (m_sizeAndFlags r)\<rparr>"
  let ?w = "w\<lparr>m_sizeAndFlags := setReadView (m_sizeAndFlags w)\<rparr>"
  let ?s = "s\<lparr>views := (views s)(?R \<mapsto> ?r, ?W \<mapsto> ?w, nextView s \<mapsto> copyView g ?w), m_readView := ?W,
    m_writeView := nextView s, nextView := nextView s + 1\<rparr>"
  have "merge False g s = Some ?s"
    using v d held by (simp add: merge_def retireReadView_def finishMerge_def dropIfUnused_def useCount_def Let_def)
  moreover have "orphaned ?R (arr s ?R) ?s"
    using v d held fresh by (auto simp: orphaned_def arr_def vsize_def flag_def live_def useCount_def count_list_0_iff)
  ultimately show ?thesis by auto
qed

text \<open>The writer then appends elements and copies its array.\<close>

lemma orphaned_movedTo:
  assumes o: "orphaned v a s" and w: "m_array w = nextArray s" "bit (m_sizeAndFlags w) 31" "view_size (m_sizeAndFlags w) \<le> length ys"
    and A: "A = (if flag s (m_writeView s) then (arrays s)(arr s (m_writeView s) := None) else arrays s)"
  shows "orphaned v a (movedTo s w ys A) \<and> arr (movedTo s w ys A) (m_writeView s) \<noteq> a"
proof -
  have "arr s (m_writeView s) \<noteq> a" if "flag s (m_writeView s)" using o that by (auto simp: orphaned_def)
  moreover have "a < nextArray s" using o by (simp add: orphaned_def)
  ultimately show ?thesis using o w A
    by (auto simp: orphaned_def movedTo_def arr_def vsize_def flag_def live_def useCount_def)
qed

lemma forceCreateCopy_moved:
  assumes "live s (m_writeView s)" "bit (m_sizeAndFlags (the (views s (m_writeView s)))) 31"
  obtains w ys A where "forceCreateCopy mem s = Some (movedTo s w ys A)" "m_array w = nextArray s"
    "bit (m_sizeAndFlags w) 31" "view_size (m_sizeAndFlags w) \<le> length ys"
    "A = (if flag s (m_writeView s) then (arrays s)(arr s (m_writeView s) := None) else arrays s)"
proof -
  obtain w xs where w: "views s (m_writeView s) = Some w" "arrays s (m_array w) = Some xs" "view_size (m_sizeAndFlags w) \<le> length xs"
      "m_array w < nextArray s"
    using assms(1) by (auto simp: live_def arr_def vsize_def)
  let ?n = "view_size (m_sizeAndFlags w)"
  let ?w = "w\<lparr>m_array := nextArray s, m_sizeAndFlags := setNeedToFreeArray True (m_sizeAndFlags w)\<rparr>"
  let ?ys = "take ?n xs @ map mem [?n..<length xs]"
  have same: "setNeedToFreeArray True f = f" if "getNeedToFreeArray f" for f
    using that by (intro bit_word_eqI) (auto simp: setNeedToFreeArray_def getNeedToFreeArray_bit bit_or_iff mask_bits)
  have "forceCreateCopy mem s = Some (movedTo s ?w ?ys
      (if flag s (m_writeView s) then (arrays s)(arr s (m_writeView s) := None) else arrays s))"
    using w by (auto simp: forceCreateCopy_def reallocate_def deleteArray_def Let_def movedTo_def same fun_upd_twist arr_def flag_def)
  then show thesis using that [of ?w ?ys] w assms(2) by simp
qed

lemma orphaned_writer:
  assumes o: "orphaned v a s" and op: "op = ForceCreateCopy \<or> (\<exists>x. op = PushBack x)" and ok: "allowed op s"
  shows "\<exists>s'. cow_exec False mem g op s = Some s' \<and> orphaned v a s' \<and> readers s' = readers s
    \<and> (op = ForceCreateCopy \<or> arr s (m_writeView s) \<noteq> a \<longrightarrow> arr s' (m_writeView s') \<noteq> a)"
proof -
  have W: "live s (m_writeView s)" "bit (m_sizeAndFlags (the (views s (m_writeView s)))) 31" using o by (simp_all add: orphaned_def)
  have moves: ?thesis if "cow_exec False mem g op s = Some (movedTo s w ys A)" "m_array w = nextArray s"
    "bit (m_sizeAndFlags w) 31" "view_size (m_sizeAndFlags w) \<le> length ys"
    "A = (if flag s (m_writeView s) then (arrays s)(arr s (m_writeView s) := None) else arrays s)" for w ys A
    using orphaned_movedTo [OF o that(2-5)] that(1) by (auto simp: movedTo_def)
  show ?thesis
  proof (cases "op = ForceCreateCopy")
    case True
    show ?thesis by (rule forceCreateCopy_moved [OF W, of mem]) (use True moves in simp)
  next
    case False
    then obtain x where x: "op = PushBack x" using op by blast
    have push: "cow_exec False mem g op s = cow_assign mem (vsize s (m_writeView s)) x s"
      using W isWriteView_bit x by (auto simp: push_back_def vsize_def live_def)
    have "vsize s (m_writeView s) + 1 < 2 ^ 30" using ok x by simp
    from W order.refl this show ?thesis
    proof (cases rule: cow_assign_writer [where mem = mem and x = x])
      case (inplace w xs)
      let ?s = "storedInPlace (vsize s (m_writeView s)) x s w xs"
      have "orphaned v a ?s" using o inplace(2-7)
        by (auto simp: orphaned_def storedInPlace_def arr_def vsize_def flag_def live_def useCount_def)
      moreover have "arr ?s (m_writeView ?s) = arr s (m_writeView s)" "readers ?s = readers s"
        using inplace(2) by (simp_all add: storedInPlace_def arr_def)
      ultimately show ?thesis using inplace(1) push False by auto
    next
      case (moved w ys xs A)
      show ?thesis by (rule moves [OF _ moved(2,4) _ moved(10)]) (use moved push in simp_all)
    qed
  qed
qed

lemma orphaned_run:
  assumes "orphaned v a s" "\<forall>op \<in> set ops. op = ForceCreateCopy \<or> (\<exists>x. op = PushBack x)"
    "throughout (cow_exec False mem g) allowed ops s"
  shows "\<exists>s'. runOps (cow_exec False mem g) ops s = Some s' \<and> orphaned v a s' \<and> readers s' = readers s
    \<and> (ForceCreateCopy \<in> set ops \<or> arr s (m_writeView s) \<noteq> a \<longrightarrow> arr s' (m_writeView s') \<noteq> a)"
  using assms
proof (induction ops arbitrary: s)
  case (Cons op ops)
  obtain s1 where 1: "cow_exec False mem g op s = Some s1" "orphaned v a s1" "readers s1 = readers s"
    "op = ForceCreateCopy \<or> arr s (m_writeView s) \<noteq> a \<longrightarrow> arr s1 (m_writeView s1) \<noteq> a"
    using orphaned_writer [OF Cons.prems(1), of op mem g] Cons.prems(2,3) by auto
  then obtain s2 where "runOps (cow_exec False mem g) ops s1 = Some s2" "orphaned v a s2" "readers s2 = readers s1"
    "ForceCreateCopy \<in> set ops \<or> arr s1 (m_writeView s1) \<noteq> a \<longrightarrow> arr s2 (m_writeView s2) \<noteq> a"
    using Cons.IH [OF 1(2)] Cons.prems(2,3) by auto
  then show ?case using 1 by auto
qed auto

text \<open>The second merge deletes the read view, with the array if the writer has left it.\<close>

lemma merge_deletes:
  assumes "orphaned v a s"
  shows "\<exists>s'. merge False g s = Some s' \<and> readers s' = readers s \<and> (snapshot s' v = None \<longleftrightarrow> arr s (m_writeView s) \<noteq> a)"
proof -
  let ?R = "m_readView s" and ?W = "m_writeView s"
  obtain u r w xs ys where v: "views s v = Some u" "m_array u = a" "views s ?R = Some r" "m_array r = a" "views s ?W = Some w"
      "arrays s a = Some xs" "arrays s (m_array w) = Some ys" "isReadView (m_sizeAndFlags r)" "?R \<noteq> ?W" "v \<noteq> ?R" "v \<noteq> ?W"
      "readers s ?R = 0" "count_list (concat (readViewGenerations s)) ?R = 0" "v < nextView s" "?W < nextView s"
    using assms by (auto simp: orphaned_def live_def arr_def useCount_def)
  show ?thesis using v
    by (auto simp: merge_def retireReadView_def finishMerge_def dropIfUnused_def useCount_def Let_def deleteView_def
      deleteArray_def snapshot_def arr_def)
qed

text \<open>
  C37. Merges without a read view manager, in any state in which a reader holds the read view of a vector and
  the write view shares its array. Whatever the writer appends between two such merges, and whether it copies
  its array or not, the operations return and the reader still counts as holding its view; but its view points
  to a freed array exactly when the writer has moved to another array in between, as it does with every
  \<open>forceCreateCopy\<close>.\<close>

theorem unmanaged_merge_dangles:
  assumes "cow_inv s" "arr s (m_writeView s) = arr s (m_readView s)" "0 < readers s (m_readView s)"
    "\<forall>op \<in> set ops. op = ForceCreateCopy \<or> (\<exists>x. op = PushBack x)"
  shows "\<exists>s1. merge False g s = Some s1 \<and> (throughout (cow_exec False mem g) allowed ops s1 \<longrightarrow>
    (\<exists>s2 s3. runOps (cow_exec False mem g) ops s1 = Some s2 \<and> merge False g s2 = Some s3
      \<and> readers s3 (m_readView s) = readers s (m_readView s)
      \<and> (snapshot s3 (m_readView s) = None \<longleftrightarrow> arr s2 (m_writeView s2) \<noteq> arr s (m_readView s))
      \<and> (ForceCreateCopy \<in> set ops \<longrightarrow> snapshot s3 (m_readView s) = None)))"
proof -
  let ?R = "m_readView s"
  obtain s1 where 1: "merge False g s = Some s1" "orphaned ?R (arr s ?R) s1" "readers s1 = readers s"
    using merge_orphans [OF assms(1-3), of g] by blast
  have rest: "\<exists>s2 s3. runOps (cow_exec False mem g) ops s1 = Some s2 \<and> merge False g s2 = Some s3
      \<and> readers s3 ?R = readers s ?R \<and> (snapshot s3 ?R = None \<longleftrightarrow> arr s2 (m_writeView s2) \<noteq> arr s ?R)
      \<and> (ForceCreateCopy \<in> set ops \<longrightarrow> snapshot s3 ?R = None)" if t: "throughout (cow_exec False mem g) allowed ops s1"
  proof -
  obtain s2 where 2: "runOps (cow_exec False mem g) ops s1 = Some s2" "orphaned ?R (arr s ?R) s2" "readers s2 = readers s1"
    "ForceCreateCopy \<in> set ops \<or> arr s1 (m_writeView s1) \<noteq> arr s ?R \<longrightarrow> arr s2 (m_writeView s2) \<noteq> arr s ?R"
    using orphaned_run [OF 1(2) assms(4) t] by (elim exE conjE) (rule that)
  obtain s3 where 3: "merge False g s2 = Some s3" "readers s3 = readers s2"
    "snapshot s3 ?R = None \<longleftrightarrow> arr s2 (m_writeView s2) \<noteq> arr s ?R"
    using merge_deletes [OF 2(2), of g] by (elim exE conjE) (rule that)
  have "readers s3 ?R = readers s ?R" unfolding 3(2) 2(3) 1(3) ..
  moreover have "ForceCreateCopy \<in> set ops \<longrightarrow> snapshot s3 ?R = None" unfolding 3(3) using 2(4) by blast
  ultimately show ?thesis using 2(1) 3(1,3) by (intro exI [of _ s2] exI [of _ s3] conjI)
  qed
  show ?thesis by (rule exI [of _ s1], rule conjI [OF 1(1)], rule impI, rule rest)
qed

theorem unmanaged_merge_dangles_witness:
  "\<exists>s s3. cow_history True (\<lambda>_. 0 :: nat) 0 1 [7] [GetReadView] = Some s
    \<and> runOps (cow_exec False (\<lambda>_. 0) 0) [Merge, PushBack 8, ForceCreateCopy, Merge] s = Some s3
    \<and> readers s3 (m_readView s) = 1 \<and> snapshot s (m_readView s) = Some [7] \<and> snapshot s3 (m_readView s) = None"
proof -
  let ?mem = "\<lambda>_. 0 :: nat"
  have "case cow_history True ?mem 0 1 [7] [GetReadView] of None \<Rightarrow> False | Some s \<Rightarrow>
      arr s (m_writeView s) = arr s (m_readView s) \<and> readers s (m_readView s) = 1 \<and> snapshot s (m_readView s) = Some [7]
      \<and> (case merge False 0 s of None \<Rightarrow> False
        | Some s1 \<Rightarrow> throughout (cow_exec False ?mem 0) allowed [PushBack 8, ForceCreateCopy] s1)"
    by (simp add: cow_eval)
  then obtain s s1 where s: "cow_history True ?mem 0 1 [7] [GetReadView] = Some s" "merge False 0 s = Some s1"
    "arr s (m_writeView s) = arr s (m_readView s)" "readers s (m_readView s) = 1" "snapshot s (m_readView s) = Some [7]"
    "throughout (cow_exec False ?mem 0) allowed [PushBack 8, ForceCreateCopy] s1"
    by (auto split: option.splits)
  have "wellUsed ?mem 0 1 [7] [GetReadView]" by (simp add: cow_eval)
  then have "cow_inv s" using cow_history_ok [of ?mem 0 1 "[7]" "[GetReadView]"] s(1) by auto
  from unmanaged_merge_dangles [OF this s(3), of "[PushBack 8, ForceCreateCopy]" 0 ?mem] s(4,6) obtain s2 s3 where
    "runOps (cow_exec False ?mem 0) [PushBack 8, ForceCreateCopy] s1 = Some s2" "merge False 0 s2 = Some s3"
    "readers s3 (m_readView s) = 1" "snapshot s3 (m_readView s) = None" unfolding s(2) by auto
  then show ?thesis using s(1,2,5) by (auto split: bind_splits)
qed

end
