(* ===== verification/Lex_Prefix.thy ===== *)
theory Lex_Prefix
  imports Srch2_Prelude "HOL-Library.List_Lexorder" "HOL-Library.Sublist"
begin

text \<open>
  Prefixes and the lexicographic order: the strings of a finite set that share a prefix form an interval,
  and they split into the prefix itself and the strings below each next character. The trie stores
  such a set, and the facts below carry its proofs.
\<close>

section \<open>Prefixes as intervals\<close>

lemma append_less_cancel [simp]: "p @ x < p @ y \<longleftrightarrow> x < y" for x y :: "'a::linorder list"
  by (induction p) auto

lemma append_le_cancel [simp]: "p @ x \<le> p @ y \<longleftrightarrow> x \<le> y" for x y :: "'a::linorder list"
  by (induction p) auto

lemma prefix_le: "prefix p k \<Longrightarrow> p \<le> k" for p :: "'a::linorder list"
  by (auto simp: prefix_def intro: order_trans [OF _ iffD2 [OF append_le_cancel, of "[]"]])

lemma prefix_interval:
  fixes p :: "'a::linorder list"
  assumes "prefix p a" "prefix p b" "a \<le> k" "k \<le> b"
  shows "prefix p k"
  using assms
proof (induction p arbitrary: a b k)
  case (Cons x p)
  from Cons.prems(1,2) obtain a' b' where ab: "a = x # a'" "b = x # b'" "prefix p a'" "prefix p b'" by (auto elim!: prefixE)
  then obtain y k' where k: "k = y # k'" using Cons.prems(3) by (cases k) auto
  have "y = x" "a' \<le> k'" "k' \<le> b'" using Cons.prems(3,4) ab(1,2) k by auto
  then show ?case using Cons.IH [OF ab(3,4)] k by simp
qed simp

section \<open>The strings below a prefix\<close>

definition below :: "'a list set \<Rightarrow> 'a list \<Rightarrow> 'a list set" where
  "below K p = {k \<in> K. prefix p k}"

definition nexts :: "'a list set \<Rightarrow> 'a list \<Rightarrow> 'a set" where
  "nexts K p = {c. \<exists>k \<in> K. prefix (p @ [c]) k}"

definition least :: "'a::linorder list set \<Rightarrow> 'a list \<Rightarrow> 'a list" where
  "least K p = Min (below K p)"

definition greatest :: "'a::linorder list set \<Rightarrow> 'a list \<Rightarrow> 'a list" where
  "greatest K p = Max (below K p)"

lemma finite_below [simp]: "finite K \<Longrightarrow> finite (below K p)"
  by (simp add: below_def)

lemma finite_nexts [simp]: "finite K \<Longrightarrow> finite (nexts K p)"
proof -
  assume "finite K"
  moreover have "nexts K p \<subseteq> (\<lambda>k. k ! length p) ` K" by (force simp: nexts_def prefix_def)
  ultimately show ?thesis by (meson finite_imageI finite_subset)
qed

lemma nexts_iff: "c \<in> nexts K p \<longleftrightarrow> below K (p @ [c]) \<noteq> {}"
  by (auto simp: nexts_def below_def)

lemma nexts_below_empty: "below K p = {} \<Longrightarrow> nexts K p = {}"
  using append_prefixD [of p] by (fastforce simp: nexts_def below_def)

lemma strict_prefix_snoc_self [simp]: "strict_prefix p (p @ [c])"
  by (simp add: strict_prefix_def)

lemma prefix_next: "prefix p k \<Longrightarrow> k = p \<or> (\<exists>c. prefix (p @ [c]) k)"
proof -
  assume "prefix p k"
  then obtain zs where "k = p @ zs" by (auto simp: prefix_def)
  then show ?thesis by (cases zs) auto
qed

lemma below_split: "below K p = (if p \<in> K then {p} else {}) \<union> (\<Union>c \<in> nexts K p. below K (p @ [c]))"
proof (intro set_eqI iffI)
  fix k assume k: "k \<in> below K p"
  then have "k \<in> K" "prefix p k" by (simp_all add: below_def)
  then show "k \<in> (if p \<in> K then {p} else {}) \<union> (\<Union>c \<in> nexts K p. below K (p @ [c]))"
    using prefix_next [of p k] by (auto simp: below_def nexts_def)
next
  fix k assume "k \<in> (if p \<in> K then {p} else {}) \<union> (\<Union>c \<in> nexts K p. below K (p @ [c]))"
  then show "k \<in> below K p" by (auto simp: below_def split: if_splits dest: append_prefixD)
qed

lemma below_next_less:
  fixes p :: "'a::linorder list"
  assumes "a \<in> below K (p @ [c])" "b \<in> below K (p @ [d])" "c < d"
  shows "a < b"
  using assms by (auto simp: below_def prefix_def)

lemma below_antimono: "prefix q p \<Longrightarrow> below K p \<subseteq> below K q"
  by (auto simp: below_def)

lemma least_in: "finite K \<Longrightarrow> below K p \<noteq> {} \<Longrightarrow> least K p \<in> below K p"
  unfolding least_def by (rule Min_in) simp_all

lemma greatest_in: "finite K \<Longrightarrow> below K p \<noteq> {} \<Longrightarrow> greatest K p \<in> below K p"
  unfolding greatest_def by (rule Max_in) simp_all

lemma least_terminal: "finite K \<Longrightarrow> p \<in> K \<Longrightarrow> least K p = p"
  unfolding least_def by (rule Min_eqI) (auto simp: below_def intro: prefix_le)

lemma least_child:
  assumes "finite K" "p \<notin> K" "nexts K p \<noteq> {}"
  shows "least K p = least K (p @ [Min (nexts K p)])"
proof -
  let ?c = "Min (nexts K p)"
  have c: "?c \<in> nexts K p" using assms by (intro Min_in) simp_all
  then have m: "least K (p @ [?c]) \<in> below K (p @ [?c])" using least_in [OF assms(1)] by (simp add: nexts_iff)
  show ?thesis unfolding least_def [of K p]
  proof (rule Min_eqI)
    show "least K (p @ [?c]) \<in> below K p" using m below_antimono [of p "p @ [?c]" K] by auto
    fix k assume "k \<in> below K p"
    then obtain d where d: "d \<in> nexts K p" "k \<in> below K (p @ [d])" using below_split [of K p] assms(2) by auto
    then have "?c \<le> d" using assms(1) by simp
    then consider "d = ?c" | "?c < d" by fastforce
    then show "least K (p @ [?c]) \<le> k"
      using below_next_less [OF m d(2)] d(2) assms(1) by cases (auto simp: least_def)
  qed (use assms in simp)
qed

lemma greatest_leaf: "finite K \<Longrightarrow> nexts K p = {} \<Longrightarrow> p \<in> K \<Longrightarrow> greatest K p = p"
  unfolding greatest_def using below_split [of K p] by simp

lemma greatest_child:
  assumes "finite K" "nexts K p \<noteq> {}"
  shows "greatest K p = greatest K (p @ [Max (nexts K p)])"
proof -
  let ?c = "Max (nexts K p)"
  have c: "?c \<in> nexts K p" using assms by (intro Max_in) simp_all
  then have m: "greatest K (p @ [?c]) \<in> below K (p @ [?c])" using greatest_in [OF assms(1)] by (simp add: nexts_iff)
  show ?thesis unfolding greatest_def [of K p]
  proof (rule Max_eqI)
    show "greatest K (p @ [?c]) \<in> below K p" using m below_antimono [of p "p @ [?c]" K] by auto
    fix k assume "k \<in> below K p"
    then consider "k = p" | d where "d \<in> nexts K p" "k \<in> below K (p @ [d])"
      using below_split [of K p] by (auto split: if_splits)
    then show "k \<le> greatest K (p @ [?c])"
    proof cases
      case 1
      then show ?thesis using m by (auto simp: below_def intro: prefix_le dest: append_prefixD)
    next
      case 2
      then have "d \<le> ?c" using assms(1) by simp
      then consider "d = ?c" | "d < ?c" by fastforce
      then show ?thesis using below_next_less [OF 2(2) m] 2(2) assms(1) by cases (auto simp: greatest_def)
    qed
  qed (use assms in simp)
qed

text \<open>A string of the set lies between the least and the greatest string below a prefix exactly when it
  has the prefix.\<close>

lemma between_iff_prefix:
  assumes "finite K" "below K p \<noteq> {}" "k \<in> K"
  shows "least K p \<le> k \<and> k \<le> greatest K p \<longleftrightarrow> prefix p k"
proof
  assume b: "least K p \<le> k \<and> k \<le> greatest K p"
  have "prefix p (least K p)" "prefix p (greatest K p)"
    using least_in [OF assms(1,2)] greatest_in [OF assms(1,2)] by (simp_all add: below_def)
  then show "prefix p k" using b prefix_interval by blast
next
  assume "prefix p k"
  then show "least K p \<le> k \<and> k \<le> greatest K p" using assms by (simp add: least_def greatest_def below_def)
qed

section \<open>Insertion\<close>

lemma below_insert: "below (insert k K) p = (if prefix p k then insert k (below K p) else below K p)"
  by (auto simp: below_def)

lemma nexts_insert: "nexts (insert k K) p = (if strict_prefix p k then insert (k ! length p) (nexts K p) else nexts K p)"
proof -
  have "prefix (p @ [c]) k \<longleftrightarrow> strict_prefix p k \<and> c = k ! length p" for c
  proof
    assume "prefix (p @ [c]) k"
    then obtain zs where "k = p @ c # zs" by (auto simp: prefix_def)
    then show "strict_prefix p k \<and> c = k ! length p" by (simp add: strict_prefix_def)
  next
    assume a: "strict_prefix p k \<and> c = k ! length p"
    then obtain z zs where "k = p @ z # zs" by (auto elim: strict_prefixE')
    then show "prefix (p @ [c]) k" using a by simp
  qed
  then show ?thesis by (auto simp: nexts_def)
qed

lemma nexts_self: "k \<in> K \<Longrightarrow> strict_prefix p k \<Longrightarrow> k ! length p \<in> nexts K p"
  using nexts_insert [of k "K - {k}" p] by (simp add: insert_absorb)

text \<open>An insertion that is not first (last) among the next characters keeps the least (greatest) string.\<close>

lemma least_insert_other:
  assumes "finite K" "strict_prefix p k" "p \<in> K \<or> k ! length p \<noteq> Min (nexts (insert k K) p)"
  shows "below K p \<noteq> {}" "least (insert k K) p = least K p"
proof -
  let ?d = "Min (nexts (insert k K) p)"
  have pk: "prefix p k" "prefix (p @ [k ! length p]) k"
    using assms(2) prefix_next [of p k] by (auto simp: strict_prefix_def prefix_def)
  have "\<exists>m \<in> below K p. m \<le> k"
  proof (cases "p \<in> K")
    case True
    then show ?thesis using prefix_le [OF pk(1)] by (auto simp: below_def)
  next
    case False
    have n: "nexts (insert k K) p = insert (k ! length p) (nexts K p)" using assms(2) by (simp add: nexts_insert)
    then have "?d \<in> insert (k ! length p) (nexts K p)" "?d \<le> k ! length p" using assms(1) by (metis Min_in Min_le finite_insert finite_nexts insertI1 insert_not_empty)+
    then have d: "?d \<in> nexts K p" "?d < k ! length p" using assms(3) False by auto
    then obtain m where m: "m \<in> below K (p @ [?d])" by (auto simp: nexts_iff)
    then have "m < k" using below_next_less [of m "insert k K" p ?d k "k ! length p"] d(2) pk(2) by (auto simp: below_def)
    then show ?thesis using m below_antimono [of p "p @ [?d]" K] by (intro bexI [of _ m]) auto
  qed
  then obtain m where m: "m \<in> below K p" "m \<le> k" by blast
  then show ne: "below K p \<noteq> {}" by auto
  have "least K p \<le> m" using m(1) assms(1) by (simp add: least_def)
  then have "min k (least K p) = least K p" using m(2) by (auto simp: min_def)
  then show "least (insert k K) p = least K p" using ne pk(1) assms(1) by (simp add: least_def below_insert)
qed

lemma greatest_insert_other:
  assumes "finite K" "strict_prefix p k" "k ! length p \<noteq> Max (nexts (insert k K) p)"
  shows "below K p \<noteq> {}" "greatest (insert k K) p = greatest K p"
proof -
  let ?d = "Max (nexts (insert k K) p)"
  have pk: "prefix p k" "prefix (p @ [k ! length p]) k"
    using assms(2) prefix_next [of p k] by (auto simp: strict_prefix_def prefix_def)
  have n: "nexts (insert k K) p = insert (k ! length p) (nexts K p)" using assms(2) by (simp add: nexts_insert)
  then have "?d \<in> insert (k ! length p) (nexts K p)" "k ! length p \<le> ?d" using assms(1) by (metis Max_in Max_ge finite_insert finite_nexts insertI1 insert_not_empty)+
  then have d: "?d \<in> nexts K p" "k ! length p < ?d" using assms(3) by auto
  then obtain m where m: "m \<in> below K (p @ [?d])" by (auto simp: nexts_iff)
  then have "k < m" using below_next_less [of k "insert k K" p "k ! length p" m ?d] d(2) pk(2) by (auto simp: below_def)
  moreover have mp: "m \<in> below K p" using m below_antimono [of p "p @ [?d]" K] by auto
  ultimately have km: "k < m" "below K p \<noteq> {}" by auto
  then show "below K p \<noteq> {}" by simp
  have "m \<le> greatest K p" using mp assms(1) by (simp add: greatest_def)
  then have "max k (greatest K p) = greatest K p" using km(1) by (auto simp: max_def)
  then show "greatest (insert k K) p = greatest K p" using km(2) pk(1) assms(1) by (simp add: greatest_def below_insert)
qed

section \<open>Sorted enumeration\<close>

lemma sorted_list_of_set_ends:
  fixes A :: "'a::linorder set"
  assumes "finite A" "A \<noteq> {}"
  shows "sorted_list_of_set A ! 0 = Min A" "sorted_list_of_set A ! (length (sorted_list_of_set A) - 1) = Max A"
proof -
  let ?L = "sorted_list_of_set A"
  have L: "?L \<noteq> []" "set ?L = A" "sorted ?L" using assms by auto
  show "?L ! 0 = Min A" using assms by (simp add: sorted_list_of_set_nonempty)
  show "?L ! (length ?L - 1) = Max A"
  proof (rule Max_eqI [symmetric])
    show "?L ! (length ?L - 1) \<in> A" using L by (metis last_conv_nth last_in_set)
    fix y assume "y \<in> A"
    then obtain i where "i < length ?L" "y = ?L ! i" using L(2) by (metis in_set_conv_nth)
    then show "y \<le> ?L ! (length ?L - 1)" using L(3) by (auto intro: sorted_nth_mono)
  qed (use assms in simp)
qed

definition keysBelow :: "'a::linorder list set \<Rightarrow> 'a list \<Rightarrow> 'a list list" where
  "keysBelow K p = sorted_list_of_set (below K p)"

lemma set_keysBelow [simp]: "finite K \<Longrightarrow> set (keysBelow K p) = below K p"
  by (simp add: keysBelow_def)

lemma sorted_wrt_concat:
  fixes f :: "'a::linorder \<Rightarrow> 'b::linorder list"
  assumes "sorted_wrt (<) cs" "\<And>c. c \<in> set cs \<Longrightarrow> sorted_wrt (<) (f c)"
    "\<And>c d a b. c \<in> set cs \<Longrightarrow> d \<in> set cs \<Longrightarrow> c < d \<Longrightarrow> a \<in> set (f c) \<Longrightarrow> b \<in> set (f d) \<Longrightarrow> a < b"
  shows "sorted_wrt (<) (concat (map f cs))"
  using assms
proof (induction cs)
  case (Cons c cs)
  have "x < y" if "x \<in> set (f c)" "d \<in> set cs" "y \<in> set (f d)" for x y d
    using Cons.prems(3) [of c d x y] Cons.prems(1) that by simp
  moreover have "sorted_wrt (<) (concat (map f cs))" 
    by (rule Cons.IH) (use Cons.prems(1,2) Cons.prems(3) [OF list.set_intros(2) list.set_intros(2)] in auto)
  ultimately show ?case using Cons.prems(2) by (auto simp: sorted_wrt_append)
qed simp

lemma keysBelow_split:
  assumes "finite K"
  shows "keysBelow K p = (if p \<in> K then [p] else []) @ concat (map (\<lambda>c. keysBelow K (p @ [c])) (sorted_list_of_set (nexts K p)))"
    (is "_ = ?rhs")
proof -
  have tail: "sorted_wrt (<) (concat (map (\<lambda>c. keysBelow K (p @ [c])) (sorted_list_of_set (nexts K p))))"
    by (rule sorted_wrt_concat) (use assms below_next_less in \<open>auto simp: keysBelow_def\<close>)
  have "p < k" if k: "k \<in> below K (p @ [c])" for c k
  proof -
    obtain zs where "k = p @ c # zs" using k by (auto simp: below_def prefix_def)
    then show ?thesis using append_less_cancel [of p "[]" "c # zs"] by simp
  qed
  then have "sorted_wrt (<) ?rhs" using tail assms by (auto simp: sorted_wrt_append)
  moreover have "set ?rhs = below K p" using assms below_split [of K p] by auto
  moreover have "sorted_list_of_set (set ?rhs) = ?rhs" if "sorted_wrt (<) ?rhs"
    by (rule sorted_list_of_set.idem_if_sorted_distinct) (use that in \<open>simp_all only: strict_sorted_iff\<close>)
  ultimately show ?thesis unfolding keysBelow_def by simp
qed

end
