(* ===== verification/Trie_Nodes.thy ===== *)
theory Trie_Nodes
  imports Lex_Prefix "HOL-Library.Monad_Syntax"
begin

text \<open>
  The keyword trie, \<^verbatim>\<open>src/src/core/index/Trie.h\<close> and \<^verbatim>\<open>src/src/core/index/Trie.cpp\<close>: nodes on an explicit store,
  bulk loading of keywords, the commit that numbers the keywords, and the searches by character and by
  keyword id. Addresses are pairs of a generation and the string of the node: a node is allocated once for
  a string in a generation. \<open>None\<close> as a result stands for a failed assertion, a null or dangling
  pointer, or the exception of \<^verbatim>\<open>vector::at\<close>. The histogram values of a node are left out.
\<close>

section \<open>Nodes\<close>

type_synonym CharType = u32
type_synonym node_ptr = "nat \<times> CharType list"

record trie_node =
  terminalFlag1bDepth7b :: u8
  character :: CharType
  node_id :: u32
  node_invertedListOffset :: u32
  leftMostDescendant :: "node_ptr option"
  rightMostDescendant :: "node_ptr option"
  childrenPointerList :: "node_ptr list"
  isCopy :: bool
  insertCounters :: u32

record Trie =
  nodes :: "node_ptr \<Rightarrow> trie_node option"
  root_readview :: node_ptr
  root_writeview :: node_ptr
  numberOfTerminalNodes :: u32
  oldIdToNewIdMapVector :: "u32 list option"
  commited :: bool
  counterForReassignedKeywordIds :: u32
  generation :: nat

definition TRIE_MARKER_CHARACTER :: CharType where "TRIE_MARKER_CHARACTER = 36"
definition MAX_ALLOCATED_KEYWORD_ID :: u32 where "MAX_ALLOCATED_KEYWORD_ID = 0xFFFF0000"
definition TRIE_MAX_DEPTH :: nat where "TRIE_MAX_DEPTH = 127"

definition terminalMask :: u8 where "terminalMask = 0x80"
definition depthMask :: u8 where "depthMask = 0x7F"

definition setDepth :: "nat \<Rightarrow> u8 \<Rightarrow> u8" where
  "setDepth depth f = (f AND terminalMask) + (of_nat depth AND depthMask)"

definition getDepth :: "trie_node \<Rightarrow> nat" where
  "getDepth n = unat (terminalFlag1bDepth7b n AND depthMask)"

definition isTerminal :: "trie_node \<Rightarrow> bool" where
  "isTerminal n \<longleftrightarrow> terminalFlag1bDepth7b n AND terminalMask = terminalMask"

definition setTerminalFlag :: "bool \<Rightarrow> u8 \<Rightarrow> u8" where
  "setTerminalFlag flag f = (if flag then f OR terminalMask else f AND depthMask)"

definition getLeftInsertCounter :: "u32 \<Rightarrow> u32" where
  "getLeftInsertCounter counters = drop_bit 16 counters"

definition getRightInsertCounter :: "u32 \<Rightarrow> u32" where
  "getRightInsertCounter counters = counters AND 0xFFFF"

definition setLeftInsertCounter :: "u32 \<Rightarrow> u32 \<Rightarrow> u32" where
  "setLeftInsertCounter counter counters = (counters AND 0xFFFF) + push_bit 16 (counter AND 0xFFFF)"

definition setRightInsertCounter :: "u32 \<Rightarrow> u32 \<Rightarrow> u32" where
  "setRightInsertCounter counter counters = (counters AND 0xFFFF0000) + (counter AND 0xFFFF)"

definition newCounters :: u32 where
  "newCounters = setRightInsertCounter 1 (setLeftInsertCounter 1 0)"

text \<open>\<open>mem\<close> is the content of the packed byte before its first assignment.\<close>

definition rootNode :: "u8 \<Rightarrow> trie_node" where
  "rootNode mem = \<lparr>terminalFlag1bDepth7b = setTerminalFlag False (setDepth 0 mem), character = TRIE_MARKER_CHARACTER,
     node_id = 0, node_invertedListOffset = 0, leftMostDescendant = None, rightMostDescendant = None,
     childrenPointerList = [], isCopy = False, insertCounters = newCounters\<rparr>"

definition newTrieNode :: "u8 \<Rightarrow> nat \<Rightarrow> CharType \<Rightarrow> bool \<Rightarrow> trie_node" where
  "newTrieNode mem depth c copy = \<lparr>terminalFlag1bDepth7b = setTerminalFlag False (setDepth depth mem), character = c,
     node_id = 0, node_invertedListOffset = 0, leftMostDescendant = None, rightMostDescendant = None,
     childrenPointerList = [], isCopy = copy, insertCounters = newCounters\<rparr>"

definition copyTrieNode :: "trie_node \<Rightarrow> bool \<Rightarrow> trie_node" where
  "copyTrieNode src copy = src\<lparr>isCopy := copy, insertCounters := setRightInsertCounter (getRightInsertCounter (insertCounters src))
     (setLeftInsertCounter (getLeftInsertCounter (insertCounters src)) 0)\<rparr>"

section \<open>Store access\<close>

definition allocate :: "node_ptr \<Rightarrow> trie_node \<Rightarrow> Trie \<Rightarrow> Trie option" where
  "allocate p n t = (if nodes t p = None then Some (t\<lparr>nodes := (nodes t)(p \<mapsto> n)\<rparr>) else None)"

definition release :: "node_ptr \<Rightarrow> Trie \<Rightarrow> Trie option" where
  "release p t = (case nodes t p of None \<Rightarrow> None | Some _ \<Rightarrow> Some (t\<lparr>nodes := (nodes t)(p := None)\<rparr>))"

definition update :: "node_ptr \<Rightarrow> (trie_node \<Rightarrow> trie_node) \<Rightarrow> Trie \<Rightarrow> Trie option" where
  "update p f t = do { n \<leftarrow> nodes t p; Some (t\<lparr>nodes := (nodes t)(p \<mapsto> f n)\<rparr>) }"

section \<open>Binary search of the children\<close>

text \<open>The loop of the two searches: the position of the key, or the number of smaller keys.\<close>

function searchLoop :: "(nat \<Rightarrow> u32 option) \<Rightarrow> u32 \<Rightarrow> int \<Rightarrow> int \<Rightarrow> (bool \<times> int) option" where
  "searchLoop key x first stop =
    (if first \<le> stop then do {
       let mid = (first + stop) div 2;
       k \<leftarrow> key (nat mid);
       if x > k then searchLoop key x (mid + 1) stop
       else if x < k then searchLoop key x first (mid - 1)
       else Some (True, mid)
     }
     else Some (False, first))"
  by auto
termination by (relation "measure (\<lambda>(key, x, first, stop). nat (stop - first + 1))") auto

declare searchLoop.simps [simp del]

definition childCharacter :: "Trie \<Rightarrow> trie_node \<Rightarrow> nat \<Rightarrow> u32 option" where
  "childCharacter t n i = do { p \<leftarrow> nth_opt (childrenPointerList n) i; c \<leftarrow> nodes t p; Some (character c) }"

definition findChildNodePosition :: "Trie \<Rightarrow> trie_node \<Rightarrow> CharType \<Rightarrow> int option" where
  "findChildNodePosition t n c = do {
     (found, i) \<leftarrow> searchLoop (childCharacter t n) c 0 (int (length (childrenPointerList n)) - 1);
     Some (if found then i else - (i + 1))
   }"

definition findChild :: "Trie \<Rightarrow> trie_node \<Rightarrow> CharType \<Rightarrow> node_ptr option option" where
  "findChild t n c = do {
     position \<leftarrow> findChildNodePosition t n c;
     if position \<ge> 0 then do { p \<leftarrow> nth_opt (childrenPointerList n) (nat position); Some (Some p) } else Some None
   }"

definition getMinId :: "Trie \<Rightarrow> trie_node \<Rightarrow> u32 option" where
  "getMinId t n = do { p \<leftarrow> leftMostDescendant n; m \<leftarrow> nodes t p; Some (node_id m) }"

definition getMaxId :: "Trie \<Rightarrow> trie_node \<Rightarrow> u32 option" where
  "getMaxId t n = do { p \<leftarrow> rightMostDescendant n; m \<leftarrow> nodes t p; Some (node_id m) }"

definition childMinId :: "Trie \<Rightarrow> trie_node \<Rightarrow> nat \<Rightarrow> u32 option" where
  "childMinId t n i = do { p \<leftarrow> nth_opt (childrenPointerList n) i; c \<leftarrow> nodes t p; getMinId t c }"

definition findLowerBoundChildNodePositionByMinId :: "Trie \<Rightarrow> trie_node \<Rightarrow> u32 \<Rightarrow> int option" where
  "findLowerBoundChildNodePositionByMinId t n minId = do {
     (found, i) \<leftarrow> searchLoop (childMinId t n) minId 0 (int (length (childrenPointerList n)) - 1);
     Some (if found then i else i - 1)
   }"

definition findLowerBoundChildByMinId :: "Trie \<Rightarrow> trie_node \<Rightarrow> u32 \<Rightarrow> node_ptr option option" where
  "findLowerBoundChildByMinId t n minId = do {
     position \<leftarrow> findLowerBoundChildNodePositionByMinId t n minId;
     if position \<ge> 0 then do { p \<leftarrow> nth_opt (childrenPointerList n) (nat position); Some (Some p) } else Some None
   }"

definition insertAt :: "nat \<Rightarrow> 'a \<Rightarrow> 'a list \<Rightarrow> 'a list" where
  "insertAt i x xs = take i xs @ x # drop i xs"

definition isFirstChild :: "Trie \<Rightarrow> trie_node \<Rightarrow> trie_node \<Rightarrow> bool option" where
  "isFirstChild t parent child = do { c \<leftarrow> childCharacter t parent 0; Some (character child = c) }"

definition isLastChild :: "Trie \<Rightarrow> trie_node \<Rightarrow> trie_node \<Rightarrow> bool option" where
  "isLastChild t parent child = do { c \<leftarrow> childCharacter t parent (length (childrenPointerList parent) - 1); Some (character child = c) }"

section \<open>Bulk loading\<close>

definition Trie_new :: "u8 \<Rightarrow> Trie" where
  "Trie_new mem = \<lparr>nodes = [(0, []) \<mapsto> rootNode mem, (1, []) \<mapsto> copyTrieNode (rootNode mem) False], root_readview = (0, []),
     root_writeview = (1, []), numberOfTerminalNodes = 0, oldIdToNewIdMapVector = None, commited = False,
     counterForReassignedKeywordIds = MAX_ALLOCATED_KEYWORD_ID + 1, generation = 1\<rparr>"

definition cleanString :: "CharType list \<Rightarrow> CharType list" where
  "cleanString oldString = filter (\<lambda>c. c \<noteq> TRIE_MARKER_CHARACTER) (take TRIE_MAX_DEPTH oldString)"

text \<open>The loop of \<open>addKeyword\<close> walks down the characters and creates the missing nodes; an insertion before the
  start of the vector is undefined.\<close>

fun addPath :: "u8 \<Rightarrow> CharType list \<Rightarrow> nat \<Rightarrow> bool \<Rightarrow> node_ptr list \<Rightarrow> node_ptr \<Rightarrow> Trie \<Rightarrow>
    (bool \<times> node_ptr list \<times> node_ptr \<times> Trie) option" where
  "addPath mem [] depthCounter isNew pathTrace node t = Some (isNew, pathTrace @ [node], node, t)"
| "addPath mem (c # cs) depthCounter isNew pathTrace node t = do {
     n \<leftarrow> nodes t node;
     childPosition \<leftarrow> findChildNodePosition t n c;
     if childPosition \<ge> 0 \<and> \<not> isNew then do {
       child \<leftarrow> nth_opt (childrenPointerList n) (nat childPosition);
       addPath mem cs (depthCounter + 1) isNew (pathTrace @ [node]) child t
     }
     else if childPosition \<ge> 0 then None
     else do {
       let child = (generation t, snd node @ [c]);
       t \<leftarrow> allocate child (newTrieNode mem depthCounter c False) t;
       t \<leftarrow> update node (\<lambda>n. n\<lparr>childrenPointerList := insertAt (nat (- childPosition - 1)) child (childrenPointerList n)\<rparr>) t;
       addPath mem cs (depthCounter + 1) True (pathTrace @ [node]) child t
     }
   }"

text \<open>The parents of a new terminal node, from the last to the root. \<open>pathTrace.at\<close> fails when there is no
  parent.\<close>

fun setDescendants :: "node_ptr list \<Rightarrow> node_ptr \<Rightarrow> Trie \<Rightarrow> Trie option" where
  "setDescendants [] child t = None"
| "setDescendants (parent # parents) child t = do {
     p \<leftarrow> nodes t parent;
     c \<leftarrow> nodes t child;
     isFirst \<leftarrow> isFirstChild t p c;
     isLast \<leftarrow> isLastChild t p c;
     t \<leftarrow> (if isFirst \<and> \<not> isTerminal p then update parent (\<lambda>p. p\<lparr>leftMostDescendant := leftMostDescendant c\<rparr>) t else Some t);
     t \<leftarrow> (if isLast then update parent (\<lambda>p. p\<lparr>rightMostDescendant := rightMostDescendant c\<rparr>) t else Some t);
     if parents = [] then Some t else setDescendants parents parent t
   }"

definition setOwnDescendants :: "node_ptr \<Rightarrow> Trie \<Rightarrow> Trie option" where
  "setOwnDescendants node t = do {
     t \<leftarrow> update node (\<lambda>n. n\<lparr>leftMostDescendant := Some node\<rparr>) t;
     n \<leftarrow> nodes t node;
     right \<leftarrow> (if childrenPointerList n = [] then Some (Some node)
       else do { c \<leftarrow> nodes t (last (childrenPointerList n)); Some (rightMostDescendant c) });
     update node (\<lambda>n. n\<lparr>rightMostDescendant := right\<rparr>) t
   }"

text \<open>The part before the commit: a temporary id, which is also the offset of the inverted list.\<close>

definition addKeyword_SetPrevIdNexIdByPathTrace :: "node_ptr list \<Rightarrow> node_ptr \<Rightarrow> Trie \<Rightarrow> Trie option" where
  "addKeyword_SetPrevIdNexIdByPathTrace pathTrace node t = do {
     t \<leftarrow> setOwnDescendants node t;
     t \<leftarrow> setDescendants (rev (butlast pathTrace)) node t;
     n \<leftarrow> nodes t node;
     if isTerminal n then Some t
     else do {
       t \<leftarrow> update node (\<lambda>n. n\<lparr>node_id := numberOfTerminalNodes t, node_invertedListOffset := numberOfTerminalNodes t,
         terminalFlag1bDepth7b := setTerminalFlag True (terminalFlag1bDepth7b n)\<rparr>) t;
       Some (t\<lparr>numberOfTerminalNodes := numberOfTerminalNodes t + 1\<rparr>)
     }
   }"

text \<open>The keyword id and, unless the keyword is refused, the offset of its inverted list.\<close>

definition addKeyword :: "u8 \<Rightarrow> CharType list \<Rightarrow> Trie \<Rightarrow> (u32 \<times> u32 option \<times> Trie) option" where
  "addKeyword mem keyword t =
    (if commited t \<or> keyword = [] then Some (0, None, t)
     else do {
       (isNew, pathTrace, node, t) \<leftarrow> addPath mem (cleanString keyword) 1 False [] (root_writeview t) t;
       t \<leftarrow> addKeyword_SetPrevIdNexIdByPathTrace pathTrace node t;
       n \<leftarrow> nodes t node;
       Some (node_id n, Some (node_invertedListOffset n), t)
     })"

section \<open>Commit\<close>

text \<open>The recursion on the children visits a list of nodes from left to right.\<close>

partial_function (option) commitNodes :: "u32 \<Rightarrow> node_ptr list \<Rightarrow> u32 \<Rightarrow> Trie \<Rightarrow> (u32 \<times> Trie) option" where
  "commitNodes sparsity ps finalKeywordIdCounter t =
    (case ps of [] \<Rightarrow> Some (finalKeywordIdCounter, t)
     | p # rest \<Rightarrow> do {
         n \<leftarrow> nodes t p;
         (counter, t) \<leftarrow> (if isTerminal n then do {
             let sparseNewNodeId = (finalKeywordIdCounter + 1) * sparsity;
             ids \<leftarrow> oldIdToNewIdMapVector t;
             if unat (node_id n) < length ids then
               Some (finalKeywordIdCounter + 1,
                 t\<lparr>oldIdToNewIdMapVector := Some (ids[unat (node_id n) := sparseNewNodeId]),
                   nodes := (nodes t)(p \<mapsto> n\<lparr>node_id := sparseNewNodeId,
                     insertCounters := setRightInsertCounter 1 (setLeftInsertCounter 1 (insertCounters n))\<rparr>)\<rparr>)
             else None
           } else Some (finalKeywordIdCounter, t));
         (counter, t) \<leftarrow> commitNodes sparsity (childrenPointerList n) counter t;
         commitNodes sparsity rest counter t
       })"

declare commitNodes.simps [code]

definition commitSubTrie :: "node_ptr \<Rightarrow> u32 \<Rightarrow> u32 \<Rightarrow> Trie \<Rightarrow> (u32 \<times> Trie) option" where
  "commitSubTrie node finalKeywordIdCounter sparsity t = commitNodes sparsity [node] finalKeywordIdCounter t"

definition isCopyNode :: "Trie \<Rightarrow> node_ptr \<Rightarrow> bool" where
  "isCopyNode t p = (case nodes t p of None \<Rightarrow> False | Some n \<Rightarrow> isCopy n)"

partial_function (option) resetCopyFlags :: "node_ptr list \<Rightarrow> Trie \<Rightarrow> Trie option" where
  "resetCopyFlags ps t =
    (case ps of [] \<Rightarrow> Some t
     | p # rest \<Rightarrow> do {
         t \<leftarrow> update p (\<lambda>n. n\<lparr>isCopy := False\<rparr>) t;
         n \<leftarrow> nodes t p;
         t \<leftarrow> resetCopyFlags (filter (isCopyNode t) (childrenPointerList n)) t;
         resetCopyFlags rest t
       })"

declare resetCopyFlags.simps [code]

definition commit :: "Trie \<Rightarrow> Trie option" where
  "commit t = (if commited t then None else do {
     t \<leftarrow> release (root_readview t) t;
     t \<leftarrow> resetCopyFlags [root_writeview t] t;
     root \<leftarrow> nodes t (root_writeview t);
     let t = t\<lparr>root_readview := root_writeview t, generation := generation t + 1\<rparr>;
     t \<leftarrow> allocate (generation t, []) (copyTrieNode root False) t;
     let t = t\<lparr>root_writeview := (generation t, []),
       oldIdToNewIdMapVector := Some (replicate (unat (numberOfTerminalNodes t)) 0)\<rparr>;
     let sparsityFactor = (if numberOfTerminalNodes t > 1 then numberOfTerminalNodes t + 5 else 5);
     let sparsityFactor = MAX_ALLOCATED_KEYWORD_ID div sparsityFactor;
     (_, t) \<leftarrow> commitSubTrie (root_readview t) 0 sparsityFactor t;
     Some t
   })"

section \<open>Searches\<close>

fun getTrieNode :: "Trie \<Rightarrow> node_ptr \<Rightarrow> CharType list \<Rightarrow> node_ptr option option" where
  "getTrieNode t parentNode [] = Some (Some parentNode)"
| "getTrieNode t parentNode (c # cs) = do {
     n \<leftarrow> nodes t parentNode;
     child \<leftarrow> findChild t n c;
     case child of None \<Rightarrow> Some None | Some childNode \<Rightarrow> getTrieNode t childNode cs
   }"

partial_function (option) prefixLoop :: "Trie \<Rightarrow> u32 \<Rightarrow> nat \<Rightarrow> trie_node \<Rightarrow> CharType list \<Rightarrow> CharType list option" where
  "prefixLoop t minId depth nodeIter chars =
    (if getDepth nodeIter < depth then do {
       child \<leftarrow> findLowerBoundChildByMinId t nodeIter minId;
       case child of None \<Rightarrow> Some []
       | Some p \<Rightarrow> do {
           n \<leftarrow> nodes t p;
           if getDepth n > depth then Some []
           else if getDepth n - 1 < length chars \<and> 0 < getDepth n
           then prefixLoop t minId depth n (chars[getDepth n - 1 := character n]) else None
         }
     }
     else Some chars)"

declare prefixLoop.simps [code]

definition getPrefixString :: "Trie \<Rightarrow> node_ptr \<Rightarrow> node_ptr option \<Rightarrow> CharType list option" where
  "getPrefixString t root trieNode =
    (case trieNode of None \<Rightarrow> Some []
     | Some p \<Rightarrow> do {
         n \<leftarrow> nodes t p;
         minId \<leftarrow> getMinId t n;
         r \<leftarrow> nodes t root;
         prefixLoop t minId (getDepth n) r (replicate (getDepth n) 0)
       })"

partial_function (option) minMaxLoop :: "Trie \<Rightarrow> u32 \<Rightarrow> trie_node \<Rightarrow> (u32 \<times> u32 \<times> nat) option" where
  "minMaxLoop t keywordId node = do {
     child \<leftarrow> findLowerBoundChildByMinId t node keywordId;
     p \<leftarrow> child;
     n \<leftarrow> nodes t p;
     minId \<leftarrow> getMinId t n;
     if isTerminal n \<and> keywordId = minId
     then do { maxId \<leftarrow> getMaxId t n; Some (minId, maxId, getDepth n) }
     else minMaxLoop t keywordId n
   }"

declare minMaxLoop.simps [code]

text \<open>A keyword id that is not found fails an assertion.\<close>

definition getKeywordMinMaxIdLength :: "Trie \<Rightarrow> u32 \<Rightarrow> (u32 \<times> u32 \<times> nat) option" where
  "getKeywordMinMaxIdLength t keywordId = do { r \<leftarrow> nodes t (root_readview t); minMaxLoop t keywordId r }"

end
