(* ===== verification/Trie_Load.thy ===== *)
theory Trie_Load
  imports Trie_Nodes
begin

text \<open>
  Bulk loading of the trie: the store after any sequence of insertions is a function of the list of
  keywords. The node of a string holds the depth and character of the string, the number of its
  keyword, the next characters in order, and pointers to its least and greatest keyword.
\<close>

section \<open>Packed flags\<close>

lemma trie_mask_bits: "bit terminalMask i \<longleftrightarrow> i = 7" "bit depthMask i \<longleftrightarrow> i < 7"
proof -
  have e: "terminalMask = push_bit 7 1" "depthMask = mask 7"
    by (simp_all add: terminalMask_def depthMask_def push_bit_eq_mult mask_eq_exp_minus_1)
  show "bit terminalMask i \<longleftrightarrow> i = 7" by (simp only: e bit_push_bit_iff bit_1_iff) auto
  show "bit depthMask i \<longleftrightarrow> i < 7" by (simp only: e bit_mask_iff) auto
qed

definition packed :: "nat \<Rightarrow> bool \<Rightarrow> u8" where
  "packed d b = (if b then of_nat d OR terminalMask else of_nat d)"

lemma small_depth_bits: "d < 128 \<Longrightarrow> bit (of_nat d :: u8) i \<Longrightarrow> i < 7"
proof -
  assume d: "d < 128" and b: "bit (of_nat d :: u8) i"
  have "take_bit 7 d = d" using d by (simp add: take_bit_nat_eq_self_iff)
  then have "bit (take_bit 7 d) i" using b by (simp add: bit_of_nat_iff)
  then show "i < 7" by (simp add: bit_take_bit_iff)
qed

lemma depth_byte: "d < 128 \<Longrightarrow> (of_nat d :: u8) AND depthMask = of_nat d"
  by (rule bit_word_eqI) (auto simp: bit_and_iff trie_mask_bits dest: small_depth_bits)

lemma setDepth_packed: "d < 128 \<Longrightarrow> setTerminalFlag False (setDepth d mem) = packed d False"
proof -
  assume d: "d < 128"
  have "(mem AND terminalMask) AND (of_nat d AND depthMask) = 0"
    by (rule bit_word_eqI) (auto simp: bit_and_iff trie_mask_bits)
  then have "setDepth d mem = (mem AND terminalMask) OR (of_nat d AND depthMask)"
    unfolding setDepth_def by (rule disjunctive_add_eq_or)
  then show ?thesis unfolding setTerminalFlag_def packed_def
    by (auto intro!: bit_word_eqI simp: bit_and_iff bit_or_iff trie_mask_bits dest: small_depth_bits [OF d])
qed

lemma packed_simps [simp]:
  assumes "d < 128"
  shows "packed d b AND terminalMask = terminalMask \<longleftrightarrow> b" "unat (packed d b AND depthMask) = d"
    "setTerminalFlag True (packed d b) = packed d True"
proof -
  have n: "\<not> bit (of_nat d :: u8) 7" using small_depth_bits [OF assms, of 7] by auto
  show "packed d b AND terminalMask = terminalMask \<longleftrightarrow> b"
  proof (cases b)
    case True
    then show ?thesis by (auto intro!: bit_word_eqI simp: packed_def bit_and_iff bit_or_iff)
  next
    case False
    have "\<not> bit (of_nat d AND terminalMask) 7" "bit terminalMask 7" using n by (simp_all add: bit_and_iff trie_mask_bits)
    then show ?thesis using False by (auto simp: packed_def)
  qed
  have "packed d b AND depthMask = of_nat d"
    by (rule bit_word_eqI) (auto simp: packed_def bit_and_iff bit_or_iff trie_mask_bits dest: small_depth_bits [OF assms])
  then show "unat (packed d b AND depthMask) = d" using assms by (simp add: unat_of_nat)
  show "setTerminalFlag True (packed d b) = packed d True"
    by (auto intro!: bit_word_eqI simp: setTerminalFlag_def packed_def bit_or_iff)
qed

lemma newCounters_eq: "newCounters = 0x10001"
  by (simp add: newCounters_def setRightInsertCounter_def setLeftInsertCounter_def)

section \<open>Binary search\<close>

lemma searchLoop_halves:
  assumes "sorted_wrt (<) ks" "\<And>i. i < length ks \<Longrightarrow> key i = Some (ks ! i)" "a \<le> b" "b \<le> length ks"
    "\<And>j. j < a \<Longrightarrow> ks ! j < x" "\<And>j. b \<le> j \<Longrightarrow> j < length ks \<Longrightarrow> x < ks ! j"
  shows "(\<exists>i < length ks. ks ! i = x \<and> searchLoop key x (int a) (int b - 1) = Some (True, int i))
    \<or> (\<exists>m \<le> length ks. (\<forall>j < m. ks ! j < x) \<and> (\<forall>j. m \<le> j \<and> j < length ks \<longrightarrow> x < ks ! j)
      \<and> searchLoop key x (int a) (int b - 1) = Some (False, int m))"
  using assms(3-6)
proof (induction "b - a" arbitrary: a b rule: less_induct)
  case less
  note unfold = searchLoop.simps [of key x "int a" "int b - 1"]
  show ?case
  proof (cases "a < b")
    case False
    then show ?thesis using less.prems unfold by (intro disjI2 exI [of _ a]) auto
  next
    case True
    define m where "m = (a + b - 1) div 2"
    have m: "a \<le> m" "m < b" using True by (auto simp: m_def)
    have mid: "(int a + (int b - 1)) div 2 = int m" using True by (simp add: m_def zdiv_int of_nat_diff algebra_simps)
    have key: "key m = Some (ks ! m)" using assms(2) m less.prems(2) by simp
    have mono: "ks ! i < ks ! j" if "i < j" "j < length ks" for i j using assms(1) that by (simp add: sorted_wrt_iff_nth_less)
    have step: "searchLoop key x (int a) (int b - 1) = (if x > ks ! m then searchLoop key x (int (m + 1)) (int b - 1)
        else if x < ks ! m then searchLoop key x (int a) (int m - 1) else Some (True, int m))"
      using unfold True key mid by (simp add: algebra_simps)
    consider "x > ks ! m" | "x < ks ! m" | "x = ks ! m" by fastforce
    then show ?thesis
    proof cases
      case 1
      have "ks ! j < x" if "j < m + 1" for j
        using mono [of j m] 1 m less.prems(2) that by (cases "j = m") auto
      moreover have "searchLoop key x (int a) (int b - 1) = searchLoop key x (int (m + 1)) (int b - 1)" using step 1 by simp
      ultimately show ?thesis using less.hyps [of b "m + 1"] less.prems m by simp
    next
      case 2
      have "x < ks ! j" if "m \<le> j" "j < length ks" for j
        using mono [of m j] 2 that by (cases "j = m") auto
      moreover have "searchLoop key x (int a) (int b - 1) = searchLoop key x (int a) (int m - 1)" using step 2 by auto
      ultimately show ?thesis using less.hyps [of m a] less.prems m by simp
    next
      case 3
      then show ?thesis using step m less.prems(2) by (intro disjI1 exI [of _ m]) simp
    qed
  qed
qed

lemma searchLoop_found:
  assumes "sorted_wrt (<) ks" "\<And>i. i < length ks \<Longrightarrow> key i = Some (ks ! i)" "x \<in> set ks"
  shows "\<exists>i < length ks. ks ! i = x \<and> searchLoop key x 0 (int (length ks) - 1) = Some (True, int i)"
proof -
  obtain i where i: "i < length ks" "ks ! i = x" using assms(3) by (auto simp: in_set_conv_nth)
  show ?thesis using searchLoop_halves [of ks key 0 "length ks" x] assms(1,2) i
    by simp (metis less_irrefl linorder_not_less)
qed

lemma searchLoop_missing:
  assumes "sorted_wrt (<) ks" "\<And>i. i < length ks \<Longrightarrow> key i = Some (ks ! i)" "x \<notin> set ks"
  shows "\<exists>m \<le> length ks. (\<forall>j < m. ks ! j < x) \<and> (\<forall>j. m \<le> j \<and> j < length ks \<longrightarrow> x < ks ! j)
    \<and> searchLoop key x 0 (int (length ks) - 1) = Some (False, int m)"
  using searchLoop_halves [of ks key 0 "length ks" x] assms by (auto simp: in_set_conv_nth)

lemma insertAt_sorted:
  assumes "finite C" "x \<notin> C" "m \<le> length (sorted_list_of_set C)" "\<forall>j < m. sorted_list_of_set C ! j < x"
    "\<forall>j. m \<le> j \<and> j < length (sorted_list_of_set C) \<longrightarrow> x < sorted_list_of_set C ! j"
  shows "insertAt m x (sorted_list_of_set C) = sorted_list_of_set (insert x C)"
proof -
  let ?L = "sorted_list_of_set C"
  have "sorted_wrt (<) ?L" by simp
  then have parts: "sorted_wrt (<) (take m ?L)" "sorted_wrt (<) (drop m ?L)" "\<forall>a \<in> set (take m ?L). \<forall>b \<in> set (drop m ?L). a < b"
    using sorted_wrt_append [of "(<)" "take m ?L" "drop m ?L"] by simp_all
  have "\<forall>a \<in> set (take m ?L). a < x" using assms(3,4) by (auto simp: in_set_conv_nth)
  moreover have "\<forall>b \<in> set (drop m ?L). x < b" using assms(5) by (auto simp: in_set_conv_nth)
  ultimately have "sorted_wrt (<) (insertAt m x ?L)" using parts by (auto simp: insertAt_def sorted_wrt_append)
  moreover have "set (insertAt m x ?L) = insert x C"
    using assms(1) set_append [of "take m ?L" "drop m ?L"] by (auto simp: insertAt_def)
  moreover have "sorted_list_of_set (set ys) = ys" if "sorted_wrt (<) ys" for ys :: "'a list"
    by (rule sorted_list_of_set.idem_if_sorted_distinct) (use that in \<open>simp_all only: strict_sorted_iff\<close>)
  ultimately show ?thesis by metis
qed

section \<open>The store as a function of the keywords\<close>

text \<open>\<open>J\<close> is the set of strings that have nodes with all their prefixes.\<close>

definition hasNode :: "CharType list set \<Rightarrow> CharType list \<Rightarrow> bool" where
  "hasNode J p \<longleftrightarrow> p = [] \<or> below J p \<noteq> {}"

definition childrenOf :: "CharType list set \<Rightarrow> CharType list \<Rightarrow> node_ptr list" where
  "childrenOf J p = map (\<lambda>c. (1, p @ [c])) (sorted_list_of_set (nexts J p))"

definition position :: "'a list \<Rightarrow> 'a \<Rightarrow> nat" where
  "position ks k = length (takeWhile (\<lambda>x. x \<noteq> k) ks)"

definition blankNode :: "CharType list \<Rightarrow> trie_node" where
  "blankNode p = \<lparr>terminalFlag1bDepth7b = packed (length p) False,
     character = (if p = [] then TRIE_MARKER_CHARACTER else last p), node_id = 0, node_invertedListOffset = 0,
     leftMostDescendant = None, rightMostDescendant = None, childrenPointerList = [], isCopy = False, insertCounters = newCounters\<rparr>"

definition nodeOf :: "CharType list list \<Rightarrow> CharType list \<Rightarrow> trie_node" where
  "nodeOf ks p = (if below (set ks) p = {} then blankNode p
    else (blankNode p)\<lparr>terminalFlag1bDepth7b := packed (length p) (p \<in> set ks),
      node_id := if p \<in> set ks then of_nat (position ks p) else 0,
      node_invertedListOffset := if p \<in> set ks then of_nat (position ks p) else 0,
      leftMostDescendant := Some (1, least (set ks) p), rightMostDescendant := Some (1, greatest (set ks) p),
      childrenPointerList := childrenOf (set ks) p\<rparr>)"

text \<open>The store with the nodes of \<open>J\<close>, in which the nodes apart from their children are those of \<open>ks\<close>.\<close>

definition shapeNode :: "CharType list list \<Rightarrow> CharType list set \<Rightarrow> CharType list \<Rightarrow> trie_node" where
  "shapeNode ks J p = (nodeOf ks p)\<lparr>childrenPointerList := childrenOf J p\<rparr>"

definition shaped :: "Trie \<Rightarrow> CharType list list \<Rightarrow> CharType list set \<Rightarrow> bool" where
  "shaped t ks J \<longleftrightarrow> (\<forall>p. nodes t (1, p) = (if hasNode J p then Some (shapeNode ks J p) else None))"

lemma nodeOf_simps [simp]:
  "character (nodeOf ks p) = (if p = [] then TRIE_MARKER_CHARACTER else last p)" "isCopy (nodeOf ks p) = False"
  "terminalFlag1bDepth7b (nodeOf ks p) = packed (length p) (p \<in> set ks)"
  "childrenPointerList (nodeOf ks p) = childrenOf (set ks) p"
proof -
  have "p \<notin> set ks" "nexts (set ks) p = {}" if "below (set ks) p = {}"
    using that by (auto simp: below_def nexts_def dest: append_prefixD)
  then show "terminalFlag1bDepth7b (nodeOf ks p) = packed (length p) (p \<in> set ks)"
    "childrenPointerList (nodeOf ks p) = childrenOf (set ks) p"
    by (auto simp: nodeOf_def blankNode_def childrenOf_def)
qed (simp_all add: nodeOf_def blankNode_def)

lemma shapeNode_simps [simp]:
  "character (shapeNode ks J p) = (if p = [] then TRIE_MARKER_CHARACTER else last p)" "isCopy (shapeNode ks J p) = False"
  "terminalFlag1bDepth7b (shapeNode ks J p) = packed (length p) (p \<in> set ks)"
  "childrenPointerList (shapeNode ks J p) = childrenOf J p"
  "leftMostDescendant (shapeNode ks J p) = leftMostDescendant (nodeOf ks p)"
  "rightMostDescendant (shapeNode ks J p) = rightMostDescendant (nodeOf ks p)"
  by (simp_all add: shapeNode_def)

lemma shapeNode_same: "shapeNode ks (set ks) p = nodeOf ks p"
proof -
  have "n\<lparr>childrenPointerList := childrenPointerList n\<rparr> = n" for n :: trie_node by simp
  from this [of "nodeOf ks p"] show ?thesis by (simp add: shapeNode_def)
qed

lemma hasNode_snoc: "hasNode (insert (q @ [c]) K) p \<longleftrightarrow> hasNode (insert q K) p \<or> p = q @ [c]"
  by (auto simp: hasNode_def below_insert)

lemma nexts_snoc: "nexts (insert (q @ [c]) K) p = (if p = q then insert c (nexts (insert q K) p) else nexts (insert q K) p)"
  by (auto simp: nexts_def)

lemma hasNode_prefix: "hasNode J p \<Longrightarrow> prefix q p \<Longrightarrow> hasNode J q"
  using below_antimono [of q p J] by (auto simp: hasNode_def)

lemma hasNode_next: "c \<in> nexts J p \<longleftrightarrow> hasNode J (p @ [c])"
  by (simp add: nexts_iff hasNode_def)

lemma length_childrenOf: "length (childrenOf J p) = length (sorted_list_of_set (nexts J p))"
  by (simp add: childrenOf_def)

text \<open>The nodes of \<open>J\<close> carry their characters.\<close>

definition spelled :: "Trie \<Rightarrow> CharType list set \<Rightarrow> bool" where
  "spelled t J \<longleftrightarrow> finite J \<and> (\<forall>p c. hasNode J (p @ [c]) \<longrightarrow> (\<exists>n. nodes t (1, p @ [c]) = Some n \<and> character n = c))"

lemma shaped_spelled: "shaped t ks J \<Longrightarrow> finite J \<Longrightarrow> spelled t J"
  by (simp add: shaped_def spelled_def)

lemma childCharacter_spelled:
  assumes "spelled t J" "childrenPointerList n = childrenOf J p" "i < length (sorted_list_of_set (nexts J p))"
  shows "childCharacter t n i = Some (sorted_list_of_set (nexts J p) ! i)"
proof -
  let ?c = "sorted_list_of_set (nexts J p) ! i"
  have "?c \<in> set (sorted_list_of_set (nexts J p))" using assms(3) by (rule nth_mem)
  then have "hasNode J (p @ [?c])" using assms(1) by (simp add: hasNode_next spelled_def)
  then obtain m where "nodes t (1, p @ [?c]) = Some m" "character m = ?c" using assms(1) by (auto simp: spelled_def)
  then show ?thesis using assms by (simp add: childCharacter_def childrenOf_def nth_opt_def)
qed

lemma findChild_spelled:
  assumes "spelled t J" "childrenPointerList n = childrenOf J p"
  shows "c \<in> nexts J p \<Longrightarrow> \<exists>i. findChildNodePosition t n c = Some (int i) \<and> nth_opt (childrenPointerList n) i = Some (1, p @ [c])"
    "c \<notin> nexts J p \<Longrightarrow> \<exists>m. findChildNodePosition t n c = Some (- int m - 1)
      \<and> insertAt m (1, p @ [c]) (childrenPointerList n) = childrenOf (insert (p @ [c]) J) p"
proof -
  let ?L = "sorted_list_of_set (nexts J p)"
  have fin: "finite J" using assms(1) by (simp add: spelled_def)
  have L: "length (childrenPointerList n) = length ?L" using assms(2) by (simp add: length_childrenOf)
  have key: "childCharacter t n i = Some (?L ! i)" if "i < length ?L" for i
    using childCharacter_spelled [OF assms(1,2) that] .
  show "\<exists>i. findChildNodePosition t n c = Some (int i) \<and> nth_opt (childrenPointerList n) i = Some (1, p @ [c])"
    if c: "c \<in> nexts J p"
  proof -
    obtain i where "i < length ?L" "?L ! i = c" "searchLoop (childCharacter t n) c 0 (int (length ?L) - 1) = Some (True, int i)"
      using searchLoop_found [of ?L "childCharacter t n" c] key c fin by auto
    then show ?thesis using assms(2) by (intro exI [of _ i]) (simp add: findChildNodePosition_def L nth_opt_def childrenOf_def)
  qed
  show "\<exists>m. findChildNodePosition t n c = Some (- int m - 1)
      \<and> insertAt m (1, p @ [c]) (childrenPointerList n) = childrenOf (insert (p @ [c]) J) p" if c: "c \<notin> nexts J p"
  proof -
    obtain m where m: "m \<le> length ?L" "\<forall>j < m. ?L ! j < c" "\<forall>j. m \<le> j \<and> j < length ?L \<longrightarrow> c < ?L ! j"
        "searchLoop (childCharacter t n) c 0 (int (length ?L) - 1) = Some (False, int m)"
      using searchLoop_missing [of ?L "childCharacter t n" c] key c fin by auto
    have "insertAt m c ?L = sorted_list_of_set (insert c (nexts J p))"
      by (rule insertAt_sorted) (use fin c m in simp_all)
    then have "map (\<lambda>c. (1 :: nat, p @ [c])) (insertAt m c ?L) = childrenOf (insert (p @ [c]) J) p"
      by (simp add: childrenOf_def nexts_insert)
    then show ?thesis using m(4) assms(2)
      by (intro exI [of _ m]) (simp add: findChildNodePosition_def L insertAt_def childrenOf_def take_map drop_map)
  qed
qed

section \<open>The path of a keyword\<close>

text \<open>\<open>t'\<close> differs from \<open>t\<close> in nodes of the current generation only.\<close>

definition sameBut :: "Trie \<Rightarrow> Trie \<Rightarrow> bool" where
  "sameBut t t' \<longleftrightarrow> (\<exists>N. t' = t\<lparr>nodes := N\<rparr> \<and> (\<forall>g p. g \<noteq> 1 \<longrightarrow> N (g, p) = nodes t (g, p)))"

lemma sameBut_refl [simp]: "sameBut t t"
  unfolding sameBut_def by (rule exI [of _ "nodes t"]) simp

lemma sameBut_trans: "sameBut t u \<Longrightarrow> sameBut u v \<Longrightarrow> sameBut t v"
  unfolding sameBut_def by auto

lemma sameBut_upd [simp]: "sameBut t (t\<lparr>nodes := (nodes t)((Suc 0, p) := x)\<rparr>)" "sameBut t (t\<lparr>nodes := (nodes t)((1, p) := x)\<rparr>)"
  unfolding sameBut_def by auto

lemma sameBut_fields:
  assumes "sameBut t t'"
  shows "generation t' = generation t" "numberOfTerminalNodes t' = numberOfTerminalNodes t" "commited t' = commited t"
    "root_writeview t' = root_writeview t" "root_readview t' = root_readview t" "g \<noteq> 1 \<Longrightarrow> nodes t' (g, p) = nodes t (g, p)"
    "oldIdToNewIdMapVector t' = oldIdToNewIdMapVector t" "counterForReassignedKeywordIds t' = counterForReassignedKeywordIds t"
  using assms by (auto simp: sameBut_def)

lemma blank_shape:
  assumes "c \<notin> nexts (set ks) q"
  shows "shapeNode ks (insert (q @ [c]) (set ks)) (q @ [c]) = blankNode (q @ [c])"
proof -
  have e: "below (set ks) (q @ [c]) = {}" using assms by (simp add: nexts_iff)
  then have "nexts (insert (q @ [c]) (set ks)) (q @ [c]) = {}" by (simp add: nexts_insert nexts_below_empty)
  then show ?thesis using e by (simp add: shapeNode_def nodeOf_def childrenOf_def blankNode_def)
qed

lemma shaped_newChild:
  assumes sh: "shaped t ks (insert q (set ks))" and c: "c \<notin> nexts (set ks) q"
  shows "shaped (t\<lparr>nodes := (nodes t)((1, q @ [c]) \<mapsto> blankNode (q @ [c]),
      (1, q) \<mapsto> (shapeNode ks (insert q (set ks)) q)\<lparr>childrenPointerList := childrenOf (insert (q @ [c]) (set ks)) q\<rparr>)\<rparr>)
    ks (insert (q @ [c]) (set ks))"
  unfolding shaped_def
proof
  fix p
  let ?J = "insert q (set ks)" and ?J' = "insert (q @ [c]) (set ks)"
  consider "p = q" | "p = q @ [c]" | "p \<noteq> q" "p \<noteq> q @ [c]" by blast
  then show "nodes (t\<lparr>nodes := (nodes t)((1, q @ [c]) \<mapsto> blankNode (q @ [c]),
      (1, q) \<mapsto> (shapeNode ks ?J q)\<lparr>childrenPointerList := childrenOf ?J' q\<rparr>)\<rparr>) (1, p)
    = (if hasNode ?J' p then Some (shapeNode ks ?J' p) else None)"
  proof cases
    case 1
    have "hasNode ?J' q" by (auto simp: hasNode_def below_def)
    then show ?thesis using 1 by (simp add: shapeNode_def)
  next
    case 2
    then show ?thesis using blank_shape [OF c] by (simp add: hasNode_snoc)
  next
    case 3
    then show ?thesis using sh by (simp add: shaped_def hasNode_snoc shapeNode_def childrenOf_def nexts_snoc)
  qed
qed

lemma addPath_shaped:
  assumes "shaped t ks (insert q (set ks))" "generation t = 1" "length q + length cs < 128" "isNew \<Longrightarrow> nexts (set ks) q = {}"
  shows "\<exists>isNew' t'. addPath mem cs (Suc (length q)) isNew trace (1, q) t
      = Some (isNew', trace @ map (\<lambda>r. (1, q @ r)) (prefixes cs), (1, q @ cs), t')
    \<and> shaped t' ks (insert (q @ cs) (set ks)) \<and> sameBut t t'"
  using assms
proof (induction cs arbitrary: q t isNew trace)
  case (Cons c cs)
  let ?J = "insert q (set ks)" and ?J' = "insert (q @ [c]) (set ks)"
  have n: "nodes t (1, q) = Some (shapeNode ks ?J q)" using Cons.prems(1) by (simp add: shaped_def hasNode_def below_insert)
  have q: "nexts ?J q = nexts (set ks) q" by (simp add: nexts_insert)
  have kids: "childrenPointerList (shapeNode ks ?J q) = childrenOf ?J q" "finite ?J" by simp_all
  have steps: "length (q @ [c]) + length cs < 128" using Cons.prems(3) by simp
  show ?case
  proof (cases "c \<in> nexts (set ks) q")
    case True
    then obtain i where i: "findChildNodePosition t (shapeNode ks ?J q) c = Some (int i)"
        "nth_opt (childrenPointerList (shapeNode ks ?J q)) i = Some (1, q @ [c])"
      using findChild_spelled(1) [OF shaped_spelled [OF Cons.prems(1) kids(2)] kids(1)] q by auto
    have "\<not> isNew" using Cons.prems(4) True by auto
    moreover have "hasNode ?J p \<longleftrightarrow> hasNode ?J' p" "childrenOf ?J p = childrenOf ?J' p" for p
      using True q by (auto simp: hasNode_snoc hasNode_next childrenOf_def nexts_snoc insert_absorb hasNode_def below_insert)
    then have "shaped t ks ?J'" using Cons.prems(1) by (simp add: shaped_def shapeNode_def)
    ultimately show ?thesis using Cons.IH [of t "q @ [c]" False "trace @ [(1, q)]"] Cons.prems(2) steps n i by (simp add: o_def)
  next
    case False
    then obtain m where m: "findChildNodePosition t (shapeNode ks ?J q) c = Some (- int m - 1)"
        "insertAt m (1, q @ [c]) (childrenOf ?J q) = childrenOf ?J' q"
      using findChild_spelled(2) [OF shaped_spelled [OF Cons.prems(1) kids(2)] kids(1), of c] q by (auto simp: childrenOf_def nexts_insert)
    let ?t = "t\<lparr>nodes := (nodes t)((1, q @ [c]) \<mapsto> blankNode (q @ [c]),
      (1, q) \<mapsto> (shapeNode ks ?J q)\<lparr>childrenPointerList := childrenOf ?J' q\<rparr>)\<rparr>"
    have free: "nodes t (1, q @ [c]) = None"
      using Cons.prems(1) False by (auto simp: shaped_def hasNode_next [symmetric] q)
    have new: "newTrieNode mem (Suc (length q)) c False = blankNode (q @ [c])"
      using steps setDepth_packed [of "Suc (length q)" mem] by (simp add: newTrieNode_def blankNode_def)
    have step: "addPath mem (c # cs) (Suc (length q)) isNew trace (1, q) t
        = addPath mem cs (Suc (length (q @ [c]))) True (trace @ [(1, q)]) (1, q @ [c]) ?t"
      using n m free new Cons.prems(2) by (simp add: allocate_def update_def Let_def)
    have "nexts (set ks) (q @ [c]) = {}" using False nexts_below_empty by (simp add: nexts_iff)
    moreover have "sameBut t ?t" by (auto simp: sameBut_def)
    ultimately show ?thesis unfolding step
      using Cons.IH [of ?t "q @ [c]" True "trace @ [(1, q)]"] shaped_newChild [OF Cons.prems(1) False] Cons.prems(2) steps
      by (auto simp: o_def intro: sameBut_trans)
  qed
qed simp

section \<open>Least and greatest descendants\<close>

text \<open>The store while the parents of the keyword \<open>k\<close> are updated: those of length at least \<open>j\<close> are done.\<close>

definition climbNode :: "CharType list list \<Rightarrow> CharType list \<Rightarrow> nat \<Rightarrow> CharType list \<Rightarrow> trie_node" where
  "climbNode ks k j p = (let n = shapeNode ks (insert k (set ks)) p in
     if prefix p k \<and> j \<le> length p
     then n\<lparr>leftMostDescendant := Some (1, least (insert k (set ks)) p), rightMostDescendant := Some (1, greatest (insert k (set ks)) p)\<rparr>
     else n)"

definition climbed :: "Trie \<Rightarrow> CharType list list \<Rightarrow> CharType list \<Rightarrow> nat \<Rightarrow> bool" where
  "climbed t ks k j \<longleftrightarrow> (\<forall>p. nodes t (1, p) = (if hasNode (insert k (set ks)) p then Some (climbNode ks k j p) else None))"

lemma climbNode_simps [simp]:
  "character (climbNode ks k j p) = (if p = [] then TRIE_MARKER_CHARACTER else last p)" "isCopy (climbNode ks k j p) = False"
  "terminalFlag1bDepth7b (climbNode ks k j p) = packed (length p) (p \<in> set ks)"
  "childrenPointerList (climbNode ks k j p) = childrenOf (insert k (set ks)) p"
  by (simp_all add: climbNode_def Let_def)

lemma climbed_spelled: "climbed t ks k j \<Longrightarrow> spelled t (insert k (set ks))"
  by (simp add: climbed_def spelled_def)

lemma hasNode_self: "prefix p k \<Longrightarrow> hasNode (insert k K) p"
  by (simp add: hasNode_def below_insert)

lemma nodeOf_descendants:
  "below (set ks) p \<noteq> {} \<Longrightarrow> leftMostDescendant (nodeOf ks p) = Some (1, least (set ks) p)"
  "below (set ks) p \<noteq> {} \<Longrightarrow> rightMostDescendant (nodeOf ks p) = Some (1, greatest (set ks) p)"
  by (simp_all add: nodeOf_def)

lemma climbed_update:
  assumes "climbed t ks k (Suc j)" "j < length k"
    "n = (shapeNode ks (insert k (set ks)) (take j k))\<lparr>leftMostDescendant := Some (1, least (insert k (set ks)) (take j k)),
      rightMostDescendant := Some (1, greatest (insert k (set ks)) (take j k))\<rparr>"
  shows "climbed (t\<lparr>nodes := (nodes t)((1, take j k) \<mapsto> n)\<rparr>) ks k j"
  unfolding climbed_def
proof
  fix p
  have "climbNode ks k j p = climbNode ks k (Suc j) p" if "p \<noteq> take j k"
  proof -
    have "length p \<noteq> j" if "prefix p k" using that \<open>p \<noteq> take j k\<close> by (auto simp: prefix_def)
    then show ?thesis by (auto simp: climbNode_def Let_def le_Suc_eq)
  qed
  moreover have "climbNode ks k j (take j k) = n" using assms(2,3) by (simp add: climbNode_def Let_def take_is_prefix)
  moreover have "hasNode (insert k (set ks)) (take j k)" by (simp add: hasNode_self take_is_prefix)
  ultimately show "nodes (t\<lparr>nodes := (nodes t)((1, take j k) \<mapsto> n)\<rparr>) (1, p)
      = (if hasNode (insert k (set ks)) p then Some (climbNode ks k j p) else None)"
    using assms(1) by (cases "p = take j k") (simp_all add: climbed_def)
qed

lemma childEnds:
  assumes "spelled t J" "childrenPointerList n = childrenOf J p" "nexts J p \<noteq> {}"
  shows "childCharacter t n 0 = Some (Min (nexts J p))"
    "childCharacter t n (length (childrenPointerList n) - 1) = Some (Max (nexts J p))"
proof -
  have fin: "finite (nexts J p)" using assms(1) by (simp add: spelled_def)
  then have L: "0 < length (sorted_list_of_set (nexts J p))" using assms(3) by (simp add: card_gt_0_iff)
  show "childCharacter t n 0 = Some (Min (nexts J p))"
    using childCharacter_spelled [OF assms(1,2) L] sorted_list_of_set_ends(1) [OF fin assms(3)] by simp
  have "childCharacter t n (length (sorted_list_of_set (nexts J p)) - 1) = Some (Max (nexts J p))"
    using childCharacter_spelled [OF assms(1,2), of "length (sorted_list_of_set (nexts J p)) - 1"] L
      sorted_list_of_set_ends(2) [OF fin assms(3)] by simp
  then show "childCharacter t n (length (childrenPointerList n) - 1) = Some (Max (nexts J p))"
    using assms(2) by (simp add: length_childrenOf)
qed

lemma isTerminal_packed: "terminalFlag1bDepth7b n = packed d b \<Longrightarrow> d < 128 \<Longrightarrow> isTerminal n \<longleftrightarrow> b"
  by (simp add: isTerminal_def)

lemma getDepth_packed: "terminalFlag1bDepth7b n = packed d b \<Longrightarrow> d < 128 \<Longrightarrow> getDepth n = d"
  by (simp add: getDepth_def)

lemma setDescendants_step:
  assumes "nodes t parent = Some p" "nodes t child = Some c" "isFirstChild t p c = Some isFirst" "isLastChild t p c = Some isLast"
    "t' = t\<lparr>nodes := (nodes t)(parent \<mapsto> p\<lparr>leftMostDescendant := if isFirst \<and> \<not> isTerminal p then leftMostDescendant c else leftMostDescendant p,
      rightMostDescendant := if isLast then rightMostDescendant c else rightMostDescendant p\<rparr>)\<rparr>"
  shows "setDescendants (parent # parents) child t = (if parents = [] then Some t' else setDescendants parents parent t')"
proof -
  have "t\<lparr>nodes := (nodes t)(parent \<mapsto> p)\<rparr> = t" using assms(1) by (simp add: fun_upd_idem)
  then show ?thesis using assms by (simp add: update_def)
qed

text \<open>One parent: it takes over the descendants of the child where the child is first or last.\<close>

lemma climb_step:
  assumes cl: "climbed t ks k (Suc j)" and j: "j < length k" "length k < 128"
  shows "\<exists>t'. climbed t' ks k j \<and> sameBut t t'
    \<and> setDescendants ((1, take j k) # parents) (1, take (Suc j) k) t
      = (if parents = [] then Some t' else setDescendants parents (1, take j k) t')"
proof -
  let ?K = "insert k (set ks)" and ?p = "take j k" and ?q = "take (Suc j) k" and ?c = "k ! j"
  let ?n = "shapeNode ks ?K ?p" and ?m = "climbNode ks k (Suc j) ?q"
  have q: "?q = ?p @ [?c]" using j by (simp add: take_Suc_conv_app_nth)
  have sp: "strict_prefix ?p k" "prefix ?q k" "length ?p = j" using j by (auto simp: strict_prefix_def take_is_prefix)
  have n: "nodes t (1, ?p) = Some ?n" using cl j sp hasNode_self [of ?p k "set ks"]
    by (auto simp: climbed_def climbNode_def Let_def strict_prefix_def)
  have m: "nodes t (1, ?q) = Some ?m" "leftMostDescendant ?m = Some (1, least ?K ?q)" "rightMostDescendant ?m = Some (1, greatest ?K ?q)"
    using cl j sp hasNode_self [of ?q k "set ks"] by (auto simp: climbed_def climbNode_def Let_def)
  have c: "?c \<in> nexts ?K ?p" using nexts_self [of k ?K ?p] sp by simp
  then have ne: "nexts ?K ?p \<noteq> {}" by auto
  have ends: "isFirstChild t ?n ?m = Some (?c = Min (nexts ?K ?p))" "isLastChild t ?n ?m = Some (?c = Max (nexts ?K ?p))"
    using childEnds [OF climbed_spelled [OF cl] shapeNode_simps(4) ne] q by (simp_all add: isFirstChild_def isLastChild_def)
  have flagged: "isTerminal ?n \<longleftrightarrow> ?p \<in> set ks" using isTerminal_packed [of ?n "length ?p"] sp(3) j by simp
  let ?left = "if ?c = Min (nexts ?K ?p) \<and> ?p \<notin> set ks then leftMostDescendant ?m else leftMostDescendant ?n"
  let ?right = "if ?c = Max (nexts ?K ?p) then rightMostDescendant ?m else rightMostDescendant ?n"
  have left: "?left = Some (1, least ?K ?p)"
  proof (cases "?c = Min (nexts ?K ?p) \<and> ?p \<notin> set ks")
    case True
    then have "?p \<notin> ?K" using sp(1) by (auto simp: strict_prefix_def)
    then show ?thesis using True m(2) least_child [OF _ _ ne] q by simp
  next
    case False
    then show ?thesis using least_insert_other [of "set ks" ?p k] sp nodeOf_descendants(1) by auto
  qed
  have right: "?right = Some (1, greatest ?K ?p)"
  proof (cases "?c = Max (nexts ?K ?p)")
    case True
    then show ?thesis using m(3) greatest_child [OF _ ne] q by simp
  next
    case False
    then show ?thesis using greatest_insert_other [of "set ks" ?p k] sp nodeOf_descendants(2) by auto
  qed
  let ?n' = "?n\<lparr>leftMostDescendant := ?left, rightMostDescendant := ?right\<rparr>"
  let ?t = "t\<lparr>nodes := (nodes t)((1, ?p) \<mapsto> ?n')\<rparr>"
  have "setDescendants ((1, ?p) # parents) (1, ?q) t = (if parents = [] then Some ?t else setDescendants parents (1, ?p) ?t)"
    by (rule setDescendants_step [OF n m(1) ends]) (simp add: flagged)
  moreover have "climbed ?t ks k j" using climbed_update [OF cl j(1)] left right by simp
  ultimately show ?thesis using sameBut_upd(2) by blast
qed

lemma climb:
  assumes "climbed t ks k j" "0 < j" "j \<le> length k" "length k < 128"
  shows "\<exists>t'. setDescendants (map (\<lambda>i. (1, take i k)) (rev [0..<j])) (1, take j k) t = Some t' \<and> climbed t' ks k 0 \<and> sameBut t t'"
  using assms
proof (induction j arbitrary: t)
  case (Suc j)
  obtain t1 where t1: "climbed t1 ks k j" "sameBut t t1"
      "setDescendants ((1, take j k) # map (\<lambda>i. (1, take i k)) (rev [0..<j])) (1, take (Suc j) k) t
        = (if map (\<lambda>i. (1 :: nat, take i k)) (rev [0..<j]) = [] then Some t1 else setDescendants (map (\<lambda>i. (1, take i k)) (rev [0..<j])) (1, take j k) t1)"
    using climb_step [OF Suc.prems(1)] Suc.prems(3,4) by (metis Suc_le_lessD)
  show ?case
  proof (cases "j = 0")
    case True
    then show ?thesis using t1 by simp
  next
    case False
    then show ?thesis using Suc.IH [OF t1(1)] Suc.prems(3,4) t1(2,3) by (auto intro: sameBut_trans)
  qed
qed simp

section \<open>Adding a keyword\<close>

text \<open>The representation of a list of keywords before the commit.\<close>

definition keywordsOk :: "CharType list list \<Rightarrow> bool" where
  "keywordsOk ks \<longleftrightarrow> distinct ks \<and> (\<forall>k \<in> set ks. k \<noteq> [] \<and> length k < 128)"

definition loaded :: "Trie \<Rightarrow> CharType list list \<Rightarrow> bool" where
  "loaded t ks \<longleftrightarrow> keywordsOk ks \<and> shaped t ks (set ks) \<and> generation t = 1 \<and> root_writeview t = (1, [])
    \<and> root_readview t = (0, []) \<and> nodes t (0, []) \<noteq> None \<and> nodes t (2, []) = None
    \<and> \<not> commited t \<and> numberOfTerminalNodes t = of_nat (length ks)"

definition addOnce :: "'a \<Rightarrow> 'a list \<Rightarrow> 'a list" where
  "addOnce k ks = (if k \<in> set ks then ks else ks @ [k])"

lemma set_addOnce [simp]: "set (addOnce k ks) = insert k (set ks)"
  by (auto simp: addOnce_def)

lemma position_addOnce: "x \<in> set ks \<Longrightarrow> position (addOnce k ks) x = position ks x"
proof -
  assume x: "x \<in> set ks"
  have "takeWhile (\<lambda>y. y \<noteq> x) (ks @ zs) = takeWhile (\<lambda>y. y \<noteq> x) ks" for zs
    using x by (intro takeWhile_append1) auto
  then show ?thesis by (simp add: addOnce_def position_def)
qed

lemma position_new: "k \<notin> set ks \<Longrightarrow> position (addOnce k ks) k = length ks"
proof -
  assume k: "k \<notin> set ks"
  then have "takeWhile (\<lambda>y. y \<noteq> k) (ks @ [k]) = ks @ takeWhile (\<lambda>y. y \<noteq> k) [k]" by (intro takeWhile_append2) auto
  then show ?thesis using k by (simp add: addOnce_def position_def)
qed

lemma Trie_new_loaded: "loaded (Trie_new mem) []"
proof -
  have "copyTrieNode (rootNode mem) False = blankNode []"
    using setDepth_packed [of 0 mem]
    by (simp add: copyTrieNode_def rootNode_def blankNode_def newCounters_eq getLeftInsertCounter_def getRightInsertCounter_def
        setRightInsertCounter_def setLeftInsertCounter_def)
  moreover have "shapeNode [] {} [] = blankNode []"
    by (simp add: shapeNode_def nodeOf_def below_def childrenOf_def nexts_def blankNode_def)
  ultimately show ?thesis
    by (auto simp: loaded_def Trie_new_def shaped_def hasNode_def below_def keywordsOk_def)
qed

lemma prefixes_takes: "prefixes k = map (\<lambda>i. take i k) [0..<Suc (length k)]"
proof (induction k rule: rev_induct)
  case (snoc c k)
  have "map (\<lambda>i. take i (k @ [c])) [0..<Suc (length k)] = map (\<lambda>i. take i k) [0..<Suc (length k)]"
    by (rule map_cong) auto
  then show ?case using snoc by simp
qed simp

lemma own_descendants:
  assumes sh: "shaped t ks (insert k (set ks))" and k: "k \<noteq> []"
  shows "\<exists>t'. setOwnDescendants (1, k) t = Some t' \<and> climbed t' ks k (length k) \<and> sameBut t t'"
proof -
  let ?K = "insert k (set ks)"
  let ?n = "shapeNode ks ?K k"
  have n: "nodes t (1, k) = Some ?n" using sh hasNode_self [of k k "set ks"] by (simp add: shaped_def)
  have same: "nexts ?K k = nexts (set ks) k" by (simp add: nexts_insert)
  let ?r = "Some (1 :: nat, greatest ?K k)"
  have kids: "childrenOf ?K k = [] \<and> greatest ?K k = k
    \<or> childrenOf ?K k \<noteq> [] \<and> last (childrenOf ?K k) \<noteq> (1, k)
      \<and> (\<exists>c. nodes t (last (childrenOf ?K k)) = Some c \<and> rightMostDescendant c = ?r)"
  proof (cases "nexts ?K k = {}")
    case True
    then show ?thesis using greatest_leaf [of ?K k] by (simp add: childrenOf_def)
  next
    case False
    let ?c = "Max (nexts ?K k)"
    have fin: "finite (nexts ?K k)" by simp
    have "last (sorted_list_of_set (nexts ?K k)) = ?c"
      using sorted_list_of_set_ends(2) [OF fin False] False fin by (simp add: last_conv_nth)
    then have last: "last (childrenOf ?K k) = (1, k @ [?c])" using False fin by (simp add: childrenOf_def last_map)
    have "?c \<in> nexts (set ks) k" using Max_in [OF fin False] same by simp
    then have ne: "below (set ks) (k @ [?c]) \<noteq> {}" by (simp add: nexts_iff)
    then have "hasNode ?K (k @ [?c])" by (auto simp: hasNode_def below_def)
    then have "nodes t (1, k @ [?c]) = Some (shapeNode ks ?K (k @ [?c]))" using sh by (simp add: shaped_def)
    moreover have "greatest ?K (k @ [?c]) = greatest (set ks) (k @ [?c])" by (simp add: greatest_def below_insert)
    ultimately show ?thesis using last False fin greatest_child [OF _ False] nodeOf_descendants(2) [OF ne]
      by (simp add: childrenOf_def)
  qed
  have "setOwnDescendants (1, k) t = Some (t\<lparr>nodes := (nodes t)((1, k) \<mapsto> ?n\<lparr>leftMostDescendant := Some (1, k), rightMostDescendant := ?r\<rparr>)\<rparr>)"
    using n kids by (auto simp: setOwnDescendants_def update_def)
  moreover have "climbed (t\<lparr>nodes := (nodes t)((1, k) \<mapsto> ?n\<lparr>leftMostDescendant := Some (1, k), rightMostDescendant := ?r\<rparr>)\<rparr>) ks k (length k)"
    unfolding climbed_def
  proof
    fix p
    have "p = k" if "prefix p k" "length k \<le> length p" using that by (auto simp: prefix_def)
    moreover have "least ?K k = k" by (rule least_terminal) simp_all
    ultimately show "nodes (t\<lparr>nodes := (nodes t)((1, k) \<mapsto> ?n\<lparr>leftMostDescendant := Some (1, k), rightMostDescendant := ?r\<rparr>)\<rparr>) (1, p)
        = (if hasNode ?K p then Some (climbNode ks k (length k) p) else None)"
      using sh hasNode_self [of k k "set ks"] by (auto simp: shaped_def climbNode_def Let_def)
  qed
  ultimately show ?thesis using sameBut_upd(2) by blast
qed

text \<open>The terminal flag and the number of a new keyword complete the store.\<close>

lemma finished_node:
  assumes k: "k \<noteq> []"
  shows "nodeOf (addOnce k ks) p = (if p = k \<and> k \<notin> set ks
      then (climbNode ks k 0 k)\<lparr>node_id := of_nat (length ks), node_invertedListOffset := of_nat (length ks),
        terminalFlag1bDepth7b := packed (length k) True\<rparr>
      else climbNode ks k 0 p)"
proof -
  let ?K = "insert k (set ks)"
  have other: "below ?K p = below (set ks) p" if "\<not> prefix p k" using that by (simp add: below_insert)
  have "position (addOnce k ks) p = position ks p" if "p \<in> set ks" using position_addOnce [OF that] .
  moreover have "position (addOnce k ks) k = length ks" if "k \<notin> set ks" using position_new [OF that] .
  moreover have "below ?K p \<noteq> {}" if "prefix p k" using that by (simp add: below_insert)
  moreover have "p \<notin> set ks" if "below (set ks) p = {}" using that by (auto simp: below_def)
  moreover have "least ?K p = least (set ks) p" "greatest ?K p = greatest (set ks) p" if "\<not> prefix p k"
    using other [OF that] by (simp_all add: least_def greatest_def)
  moreover have "childrenOf ?K p = []" if "\<not> prefix p k" "below (set ks) p = {}"
    using other [OF that(1)] that(2) nexts_below_empty [of ?K p] by (simp add: childrenOf_def)
  ultimately show ?thesis
    by (cases "prefix p k"; cases "below (set ks) p = {}")
      (auto simp: climbNode_def Let_def shapeNode_def nodeOf_def blankNode_def other intro!: trie_node.equality)
qed

lemma climbed_finish:
  assumes cl: "climbed t ks k 0" and k: "k \<noteq> []" "length k < 128" "numberOfTerminalNodes t = of_nat (length ks)"
    and t': "t' = (if k \<in> set ks then t else t\<lparr>nodes := (nodes t)((1, k) \<mapsto> (climbNode ks k 0 k)\<lparr>node_id := of_nat (length ks),
      node_invertedListOffset := of_nat (length ks), terminalFlag1bDepth7b := packed (length k) True\<rparr>)\<rparr>)"
  shows "shaped t' (addOnce k ks) (insert k (set ks))"
  unfolding shaped_def
proof
  fix p
  have "shapeNode (addOnce k ks) (insert k (set ks)) p = nodeOf (addOnce k ks) p"
    using shapeNode_same [of "addOnce k ks" p] by simp
  then show "nodes t' (1, p) = (if hasNode (insert k (set ks)) p then Some (shapeNode (addOnce k ks) (insert k (set ks)) p) else None)"
    using cl t' hasNode_self [of k k "set ks"] finished_node [OF k(1), of ks p] by (auto simp: climbed_def)
qed

lemma cleanString_length: "length (cleanString w) < 128"
  unfolding cleanString_def TRIE_MAX_DEPTH_def by (rule le_less_trans [OF length_filter_le]) simp

lemma addKeyword_loaded:
  assumes ld: "loaded t ks" and k: "cleanString keyword \<noteq> []"
  shows "\<exists>t'. addKeyword mem keyword t = Some (of_nat (position (addOnce (cleanString keyword) ks) (cleanString keyword)),
      Some (of_nat (position (addOnce (cleanString keyword) ks) (cleanString keyword))), t')
    \<and> loaded t' (addOnce (cleanString keyword) ks)"
proof -
  let ?k = "cleanString keyword" and ?ks = "addOnce (cleanString keyword) ks"
  note d = ld [unfolded loaded_def]
  have len: "length ?k < 128" by (rule cleanString_length)
  have ne: "keyword \<noteq> []" using k by (auto simp: cleanString_def)
  have "shaped t ks (insert [] (set ks))"
    using d by (simp add: shaped_def hasNode_def below_insert shapeNode_def childrenOf_def nexts_insert)
  then obtain isNew t1 where t1: "addPath mem ?k 1 False [] (1, []) t = Some (isNew, map (\<lambda>r. (1, r)) (prefixes ?k), (1, ?k), t1)"
      "shaped t1 ks (insert ?k (set ks))" "sameBut t t1"
    using addPath_shaped [of t ks "[]" ?k False mem "[]"] d len by auto
  obtain t2 where t2: "setOwnDescendants (1, ?k) t1 = Some t2" "climbed t2 ks ?k (length ?k)" "sameBut t1 t2"
    using own_descendants [OF t1(2) k] by blast
  obtain t3 where t3: "setDescendants (map (\<lambda>i. (1, take i ?k)) (rev [0..<length ?k])) (1, take (length ?k) ?k) t2 = Some t3"
      "climbed t3 ks ?k 0" "sameBut t2 t3"
    using climb [OF t2(2)] k len by auto
  have trace: "rev (butlast (map (\<lambda>r. (1 :: nat, r)) (prefixes ?k))) = map (\<lambda>i. (1, take i ?k)) (rev [0..<length ?k])"
    by (simp add: prefixes_takes rev_map)
  have same: "sameBut t t3" using t1(3) t2(3) t3(3) by (blast intro: sameBut_trans)
  note f = sameBut_fields [OF same]
  let ?n = "climbNode ks ?k 0 ?k"
  have n: "nodes t3 (1, ?k) = Some ?n" using t3(2) hasNode_self [of ?k ?k "set ks"] by (simp add: climbed_def)
  have flagged: "isTerminal ?n \<longleftrightarrow> ?k \<in> set ks" using isTerminal_packed [of ?n "length ?k"] len by simp
  let ?t = "if ?k \<in> set ks then t3 else t3\<lparr>nodes := (nodes t3)((1, ?k) \<mapsto> ?n\<lparr>node_id := of_nat (length ks),
      node_invertedListOffset := of_nat (length ks), terminalFlag1bDepth7b := packed (length ?k) True\<rparr>)\<rparr>"
  let ?t' = "?t\<lparr>numberOfTerminalNodes := of_nat (length ?ks)\<rparr>"
  have fin: "addKeyword_SetPrevIdNexIdByPathTrace (map (\<lambda>r. (1, r)) (prefixes ?k)) (1, ?k) t1 = Some ?t'"
  proof -
    have num: "numberOfTerminalNodes t3 = of_nat (length ks)" using d f by simp
    have "t3\<lparr>numberOfTerminalNodes := numberOfTerminalNodes t3\<rparr> = t3" by simp
    then have keep: "t3\<lparr>numberOfTerminalNodes := of_nat (length ks)\<rparr> = t3" unfolding num .
    show ?thesis unfolding addKeyword_SetPrevIdNexIdByPathTrace_def trace using t2(1) t3(1) n flagged len
      by (simp add: update_def addOnce_def num keep)
  qed
  have sh: "shaped ?t ?ks (insert ?k (set ks))"
    by (rule climbed_finish [OF t3(2) k len _ refl]) (use d f in simp)
  then have sh': "shaped ?t' ?ks (set ?ks)" by (simp add: shaped_def)
  then have "nodes ?t' (1, ?k) = Some (nodeOf ?ks ?k)" using hasNode_self [of ?k ?k "set ks"] shapeNode_same [of ?ks ?k]
    by (simp add: shaped_def)
  then have "addKeyword mem keyword t = Some (of_nat (position ?ks ?k), Some (of_nat (position ?ks ?k)), ?t')"
    using t1(1) fin ne d by (simp add: addKeyword_def nodeOf_def below_insert)
  moreover have "loaded ?t' ?ks"
    using sh' d f len k by (auto simp: loaded_def keywordsOk_def addOnce_def)
  ultimately show ?thesis by blast
qed

end
