(* ===== verification/Trie_Commit.thy ===== *)
theory Trie_Commit
  imports Trie_Load
begin

text \<open>
  The commit of the trie numbers the keywords in lexicographic order, spread over the id space. The ids of
  the keywords below a node are then an interval, which the searches by keyword id rely on.
\<close>

section \<open>Numbering\<close>

text \<open>The store while ids are assigned: \<open>A\<close> are the final ids so far.\<close>

definition idNode :: "CharType list list \<Rightarrow> (CharType list \<Rightarrow> u32 option) \<Rightarrow> CharType list \<Rightarrow> trie_node" where
  "idNode ks A p = (nodeOf ks p)\<lparr>node_id := case A p of Some i \<Rightarrow> i | None \<Rightarrow> node_id (nodeOf ks p)\<rparr>"

definition numbering :: "Trie \<Rightarrow> CharType list list \<Rightarrow> (CharType list \<Rightarrow> u32 option) \<Rightarrow> bool" where
  "numbering t ks A \<longleftrightarrow> (\<forall>p. nodes t (1, p) = (if hasNode (set ks) p then Some (idNode ks A p) else None))"

fun assignIds :: "CharType list list \<Rightarrow> u32 \<Rightarrow> u32 \<Rightarrow> CharType list list \<Rightarrow> (CharType list \<Rightarrow> u32 option) \<times> u32 list \<Rightarrow>
    (CharType list \<Rightarrow> u32 option) \<times> u32 list" where
  "assignIds ks s c [] AV = AV"
| "assignIds ks s c (k # L) AV = assignIds ks s (c + 1) L ((fst AV)(k \<mapsto> (c + 1) * s), (snd AV)[position ks k := (c + 1) * s])"

lemma assignIds_append: "assignIds ks s c (L @ M) AV = assignIds ks s (c + of_nat (length L)) M (assignIds ks s c L AV)"
  by (induction L arbitrary: c AV) (simp_all add: algebra_simps)

lemma assignIds_outside: "k \<notin> set L \<Longrightarrow> fst (assignIds ks s c L AV) k = fst AV k"
  by (induction L arbitrary: c AV) auto

lemma length_assignIds [simp]: "length (snd (assignIds ks s c L AV)) = length (snd AV)"
  by (induction L arbitrary: c AV) auto

lemma assignIds_inside:
  "distinct L \<Longrightarrow> i < length L \<Longrightarrow> fst (assignIds ks s c L AV) (L ! i) = Some ((c + of_nat i + 1) * s)"
proof (induction L arbitrary: c AV i)
  case (Cons k L)
  then show ?case by (cases i) (auto simp: assignIds_outside algebra_simps)
qed simp

lemma position_less: "k \<in> set ks \<Longrightarrow> position ks k < length ks"
  using length_takeWhile_le [of "\<lambda>x. x \<noteq> k" ks] takeWhile_eq_all_conv [of "\<lambda>x. x \<noteq> k" ks]
  by (metis le_neq_implies_less position_def takeWhile_eq_take take_all_iff order_refl)

lemma nth_position: "k \<in> set ks \<Longrightarrow> ks ! position ks k = k"
  using nth_length_takeWhile [of "\<lambda>x. x \<noteq> k" ks] position_less [of k ks] by (simp add: position_def)

text \<open>The vector maps the temporary id of a keyword to its final id.\<close>

lemma assignIds_vector:
  assumes "distinct L" "set L \<subseteq> set ks" "length (snd AV) = length ks" "k \<in> set L"
  shows "snd (assignIds ks s c L AV) ! position ks k = the (fst (assignIds ks s c L AV) k)"
  using assms
proof (induction L arbitrary: c AV)
  case (Cons x L)
  show ?case
  proof (cases "k = x")
    case True
    have "snd (assignIds ks s d M BV) ! position ks k = snd BV ! position ks k"
      if "k \<notin> set M" "set M \<subseteq> set ks" for d M BV
      using that
    proof (induction M arbitrary: d BV)
      case (Cons y M)
      have "position ks y \<noteq> position ks k" using Cons.prems \<open>k \<in> set (x # L)\<close> assms(2) nth_position
        by (metis list.set_intros(1) subsetD True \<open>set (x # L) \<subseteq> set ks\<close>)
      then show ?case using Cons by simp
    qed simp
    then show ?thesis using Cons.prems True position_less [of x ks] by (simp add: assignIds_outside)
  next
    case False
    then show ?thesis using Cons by simp
  qed
qed simp

section \<open>The traversal\<close>

definition idFrame :: "Trie \<Rightarrow> Trie \<Rightarrow> bool" where
  "idFrame t t' \<longleftrightarrow> generation t' = generation t \<and> root_readview t' = root_readview t \<and> root_writeview t' = root_writeview t
    \<and> numberOfTerminalNodes t' = numberOfTerminalNodes t \<and> commited t' = commited t
    \<and> (\<forall>g p. g \<noteq> 1 \<longrightarrow> nodes t' (g, p) = nodes t (g, p))"

lemma idFrame_refl [simp]: "idFrame t t"
  by (simp add: idFrame_def)

lemma idFrame_trans: "idFrame t u \<Longrightarrow> idFrame u v \<Longrightarrow> idFrame t v"
  by (simp add: idFrame_def)

lemma idNode_simps [simp]:
  "childrenPointerList (idNode ks A p) = childrenOf (set ks) p"
  "terminalFlag1bDepth7b (idNode ks A p) = packed (length p) (p \<in> set ks)"
  "character (idNode ks A p) = (if p = [] then TRIE_MARKER_CHARACTER else last p)"
  "leftMostDescendant (idNode ks A p) = leftMostDescendant (nodeOf ks p)"
  "rightMostDescendant (idNode ks A p) = rightMostDescendant (nodeOf ks p)"
  "isCopy (idNode ks A p) = False" "insertCounters (idNode ks A p) = newCounters"
  by (simp_all add: idNode_def) (simp add: nodeOf_def blankNode_def)

lemma hasNode_length: "keywordsOk ks \<Longrightarrow> hasNode (set ks) p \<Longrightarrow> length p < 128"
  by (fastforce simp: keywordsOk_def hasNode_def below_def dest: prefix_length_le)

lemma numbering_assign:
  assumes "numbering t ks A" "p \<in> set ks"
  shows "numbering (t\<lparr>oldIdToNewIdMapVector := V, nodes := (nodes t)((1, p) \<mapsto> (idNode ks A p)\<lparr>node_id := i,
      insertCounters := setRightInsertCounter 1 (setLeftInsertCounter 1 newCounters)\<rparr>)\<rparr>) ks (A(p \<mapsto> i))"
proof -
  have c: "setRightInsertCounter 1 (setLeftInsertCounter 1 newCounters) = newCounters"
    by (simp add: newCounters_eq setRightInsertCounter_def setLeftInsertCounter_def)
  have "(idNode ks A p)\<lparr>node_id := i, insertCounters := newCounters\<rparr> = idNode ks (A(p \<mapsto> i)) p"
    by (rule trie_node.equality) (simp_all add: idNode_def nodeOf_def blankNode_def)
  moreover have "hasNode (set ks) p" using assms(2) by (auto simp: hasNode_def below_def)
  moreover have "idNode ks (A(p \<mapsto> i)) q = idNode ks A q" if "q \<noteq> p" for q using that by (simp add: idNode_def)
  ultimately show ?thesis using assms(1) unfolding c by (auto simp: numbering_def)
qed

lemma commitNodes_Cons:
  assumes "keywordsOk ks" "numbering t ks A" "oldIdToNewIdMapVector t = Some V" "length V = length ks" "length ks < 2 ^ 32"
    "hasNode (set ks) p" "p \<in> set ks \<Longrightarrow> A p = None"
  shows "\<exists>t1. numbering t1 ks (fst (assignIds ks s c (if p \<in> set ks then [p] else []) (A, V)))
    \<and> oldIdToNewIdMapVector t1 = Some (snd (assignIds ks s c (if p \<in> set ks then [p] else []) (A, V))) \<and> idFrame t t1
    \<and> commitNodes s ((1, p) # rest) c t = commitNodes s (childrenOf (set ks) p) (if p \<in> set ks then c + 1 else c) t1
      \<bind> (\<lambda>(c, t). commitNodes s rest c t)"
proof -
  have n: "nodes t (1, p) = Some (idNode ks A p)" using assms(2,6) by (simp add: numbering_def)
  have flagged: "isTerminal (idNode ks A p) \<longleftrightarrow> p \<in> set ks"
    using isTerminal_packed [of "idNode ks A p" "length p"] hasNode_length [OF assms(1,6)] by simp
  note unfold = commitNodes.simps [of s "(1, p) # rest" c t]
  show ?thesis
  proof (cases "p \<in> set ks")
    case False
    then show ?thesis using unfold n flagged assms(2,3) by (intro exI [of _ t]) simp
  next
    case True
    let ?t = "t\<lparr>oldIdToNewIdMapVector := Some (V[position ks p := (c + 1) * s]),
      nodes := (nodes t)((1, p) \<mapsto> (idNode ks A p)\<lparr>node_id := (c + 1) * s,
        insertCounters := setRightInsertCounter 1 (setLeftInsertCounter 1 newCounters)\<rparr>)\<rparr>"
    have "below (set ks) p \<noteq> {}" using True by (auto simp: below_def)
    then have "node_id (idNode ks A p) = of_nat (position ks p)" using True assms(7) by (simp add: idNode_def nodeOf_def)
    moreover have "position ks p < length ks" using True by (rule position_less)
    ultimately have "unat (node_id (idNode ks A p)) = position ks p" "position ks p < length V"
      using assms(4,5) by (simp_all add: unat_of_nat)
    then have "commitNodes s ((1, p) # rest) c t
        = commitNodes s (childrenOf (set ks) p) (c + 1) ?t \<bind> (\<lambda>(c, t). commitNodes s rest c t)"
      using unfold n flagged True assms(3) by (simp add: Let_def)
    moreover have "numbering ?t ks (A(p \<mapsto> (c + 1) * s))" by (rule numbering_assign [OF assms(2) True])
    moreover have "idFrame t ?t" by (simp add: idFrame_def)
    ultimately show ?thesis using True by (intro exI [of _ ?t]) simp
  qed
qed

lemma commitNodes_numbering:
  assumes "keywordsOk ks" "length ks < 2 ^ 32" "numbering t ks A" "oldIdToNewIdMapVector t = Some V" "length V = length ks"
    "\<forall>p \<in> set ps. hasNode (set ks) p \<and> 128 \<le> length p + d" "L = concat (map (keysBelow (set ks)) ps)" "distinct L"
    "\<forall>k \<in> set L. A k = None" "R = assignIds ks s c L (A, V)"
  shows "\<exists>t'. commitNodes s (map (Pair 1) ps) c t = Some (c + of_nat (length L), t') \<and> numbering t' ks (fst R)
    \<and> oldIdToNewIdMapVector t' = Some (snd R) \<and> idFrame t t'"
  using assms(3-)
proof (induction d arbitrary: ps t A V c L R)
  case 0
  then have "ps = []" using hasNode_length [OF assms(1)] by (cases ps) force+
  then show ?case using 0 by (simp add: commitNodes.simps)
next
  case (Suc d)
  from Suc.prems show ?case
  proof (induction ps arbitrary: t A V c L R)
    case Nil
    then show ?case by (simp add: commitNodes.simps)
  next
    case (Cons p ps)
    let ?K = "set ks" and ?own = "if p \<in> set ks then [p] else []"
    let ?cs = "map (\<lambda>c. p @ [c]) (sorted_list_of_set (nexts ?K p))" and ?rest = "concat (map (keysBelow ?K) ps)"
    let ?below = "concat (map (keysBelow ?K) ?cs)"
    have L: "L = (?own @ ?below) @ ?rest"
      using Cons.prems(5) keysBelow_split [of ?K p] by (simp add: o_def)
    have parts: "distinct (?own @ ?below)" "distinct ?rest" "set (?own @ ?below) \<inter> set ?rest = {}" "distinct ?below" "set ?own \<inter> set ?below = {}"
      using Cons.prems(6) unfolding L distinct_append by auto
    have free: "A k = None" if "k \<in> set ?own \<union> set ?below \<union> set ?rest" for k
      using Cons.prems(7) that unfolding L set_append by blast
    let ?AV1 = "assignIds ks s c ?own (A, V)"
    let ?c1 = "if p \<in> ?K then c + 1 else c"
    obtain t1 where t1: "numbering t1 ks (fst ?AV1)" "oldIdToNewIdMapVector t1 = Some (snd ?AV1)" "idFrame t t1"
        "commitNodes s ((1, p) # map (Pair 1) ps) c t = commitNodes s (childrenOf ?K p) ?c1 t1 \<bind> (\<lambda>(c, t). commitNodes s (map (Pair 1) ps) c t)"
      using commitNodes_Cons [OF assms(1) Cons.prems(1,2,3) assms(2), of p s c "map (Pair 1) ps"] Cons.prems(4) free by fastforce
    let ?AV2 = "assignIds ks s ?c1 ?below ?AV1"
    have "\<exists>t2. commitNodes s (map (Pair 1) ?cs) ?c1 t1 = Some (?c1 + of_nat (length ?below), t2) \<and> numbering t2 ks (fst ?AV2)
        \<and> oldIdToNewIdMapVector t2 = Some (snd ?AV2) \<and> idFrame t1 t2"
    proof (rule Suc.IH [OF t1(1,2) _ _ refl parts(4)])
      show "length (snd ?AV1) = length ks" using Cons.prems(3) by simp
      show "\<forall>q \<in> set ?cs. hasNode ?K q \<and> 128 \<le> length q + d" using Cons.prems(4) by (auto simp: hasNode_next)
      show "\<forall>k \<in> set ?below. fst ?AV1 k = None" using free parts(5) by (auto simp: assignIds_outside)
    qed simp
    then obtain t2 where t2: "commitNodes s (childrenOf ?K p) ?c1 t1 = Some (?c1 + of_nat (length ?below), t2)" "numbering t2 ks (fst ?AV2)"
        "oldIdToNewIdMapVector t2 = Some (snd ?AV2)" "idFrame t1 t2" by (auto simp: childrenOf_def o_def)
    have AV2: "?AV2 = assignIds ks s c (?own @ ?below) (A, V)" "?c1 + of_nat (length ?below) = c + of_nat (length (?own @ ?below))"
      by (simp_all add: assignIds_append)
    let ?c2 = "c + of_nat (length (?own @ ?below))"
    have "\<exists>t3. commitNodes s (map (Pair 1) ps) ?c2 t2 = Some (?c2 + of_nat (length ?rest), t3)
        \<and> numbering t3 ks (fst (assignIds ks s ?c2 ?rest ?AV2)) \<and> oldIdToNewIdMapVector t3 = Some (snd (assignIds ks s ?c2 ?rest ?AV2)) \<and> idFrame t2 t3"
    proof (rule Cons.IH [OF t2(2,3) _ _ refl parts(2)])
      show "length (snd ?AV2) = length ks" using Cons.prems(3) by simp
      show "\<forall>q \<in> set ps. hasNode ?K q \<and> 128 \<le> length q + Suc d" using Cons.prems(4) by simp
      show "\<forall>k \<in> set ?rest. fst ?AV2 k = None"
        unfolding AV2(1) using free parts(3) assignIds_outside [of _ "?own @ ?below" ks s c "(A, V)"] by (metis Int_iff Un_iff empty_iff fst_conv)
    qed simp
    then obtain t3 where t3: "commitNodes s (map (Pair 1) ps) ?c2 t2 = Some (?c2 + of_nat (length ?rest), t3)"
        "numbering t3 ks (fst (assignIds ks s ?c2 ?rest ?AV2))" "oldIdToNewIdMapVector t3 = Some (snd (assignIds ks s ?c2 ?rest ?AV2))"
        "idFrame t2 t3" by blast
    have R: "assignIds ks s ?c2 ?rest ?AV2 = R" unfolding Cons.prems(8) L AV2(1) by (simp only: assignIds_append)
    have "commitNodes s (map (Pair 1) (p # ps)) c t = Some (?c2 + of_nat (length ?rest), t3)"
      using t1(4) t2(1) t3(1) unfolding AV2(2) list.map by (simp only: bind.bind_lunit prod.case)
    moreover have "?c2 + of_nat (length ?rest) = c + of_nat (length L)" unfolding L by (simp only: length_append of_nat_add add.assoc)
    moreover have "idFrame t t3" using t1(3) t2(4) t3(4) by (blast intro: idFrame_trans)
    ultimately show ?case using t3(2,3) R by simp
  qed
qed

section \<open>The ids after the commit\<close>

definition sparsityOf :: "nat \<Rightarrow> u32" where
  "sparsityOf n = MAX_ALLOCATED_KEYWORD_ID div (if (of_nat n :: u32) > 1 then of_nat n + 5 else 5)"

definition keywordId :: "CharType list list \<Rightarrow> CharType list \<Rightarrow> u32" where
  "keywordId ks k = of_nat (position (keysBelow (set ks) []) k + 1) * sparsityOf (length ks)"

definition finalIds :: "CharType list list \<Rightarrow> CharType list \<Rightarrow> u32 option" where
  "finalIds ks k = (if k \<in> set ks then Some (keywordId ks k) else None)"

definition indexed :: "Trie \<Rightarrow> CharType list list \<Rightarrow> bool" where
  "indexed t ks \<longleftrightarrow> keywordsOk ks \<and> numbering t ks (finalIds ks) \<and> root_readview t = (1, [])
    \<and> (\<exists>V. oldIdToNewIdMapVector t = Some V \<and> length V = length ks \<and> (\<forall>k \<in> set ks. V ! position ks k = keywordId ks k))"

lemma keysBelow_Nil: "finite K \<Longrightarrow> set (keysBelow K []) = K" "distinct (keysBelow K [])" "sorted_wrt (<) (keysBelow K [])"
  by (simp_all add: keysBelow_def below_def)

lemma position_nth: "distinct L \<Longrightarrow> i < length L \<Longrightarrow> position L (L ! i) = i"
  by (metis nth_eq_iff_index_eq nth_mem nth_position position_less)

lemma assigned_finalIds:
  "fst (assignIds ks (sparsityOf (length ks)) 0 (keysBelow (set ks) []) (Map.empty, V)) = finalIds ks"
proof
  fix k
  let ?L = "keysBelow (set ks) []"
  show "fst (assignIds ks (sparsityOf (length ks)) 0 ?L (Map.empty, V)) k = finalIds ks k"
  proof (cases "k \<in> set ks")
    case True
    then have "position ?L k < length ?L" "?L ! position ?L k = k"
      using position_less [of k ?L] nth_position [of k ?L] keysBelow_Nil(1) [of "set ks"] by auto
    then show ?thesis using assignIds_inside [OF keysBelow_Nil(2), of "position ?L k" "set ks" ks "sparsityOf (length ks)" 0] True
      by (simp add: finalIds_def keywordId_def algebra_simps)
  next
    case False
    then show ?thesis using assignIds_outside [of k ?L] keysBelow_Nil(1) [of "set ks"] by (simp add: finalIds_def)
  qed
qed

lemma commit_indexed:
  assumes ld: "loaded t ks" and n: "length ks < 2 ^ 32"
  shows "\<exists>t'. commit t = Some t' \<and> indexed t' ks"
proof -
  note d = ld [unfolded loaded_def]
  let ?root = "nodeOf ks []"
  have root: "nodes t (1, []) = Some ?root" using d shapeNode_same [of ks "[]"] by (simp add: shaped_def hasNode_def)
  let ?t1 = "t\<lparr>nodes := (nodes t)((0, []) := None)\<rparr>"
  have reset: "resetCopyFlags [(1, [])] ?t1 = Some ?t1"
  proof -
    have "\<not> isCopyNode u p" if p: "p \<in> set (childrenOf (set ks) [])" and u: "nodes u = (nodes ?t1)((1, []) \<mapsto> x)" for p u x
    proof -
      obtain c where c: "p = (1, [c])" using p by (auto simp: childrenOf_def)
      have "nodes t (1, [c]) = (if hasNode (set ks) [c] then Some (shapeNode ks (set ks) [c]) else None)"
        using d by (simp add: shaped_def)
      then show ?thesis using c u by (simp add: isCopyNode_def)
    qed
    then have "filter (isCopyNode u) (childrenOf (set ks) []) = []" if "nodes u = (nodes ?t1)((1, []) \<mapsto> x)" for u x
      using that by (auto simp: filter_empty_conv)
    moreover have id: "nodes ?t1 = (nodes ?t1)((1, []) \<mapsto> ?root)" using root by auto
    ultimately have "filter (isCopyNode ?t1) (childrenOf (set ks) []) = []" by blast
    moreover have r: "?root\<lparr>isCopy := False\<rparr> = ?root" by (rule trie_node.equality) simp_all
    have "update (1, []) (\<lambda>n. n\<lparr>isCopy := False\<rparr>) ?t1 = Some ?t1"
      using root by (auto simp: update_def r fun_eq_iff intro!: Trie.equality)
    moreover have "nodes ?t1 (1, []) = Some ?root" using root by simp
    ultimately show ?thesis
      by (simp add: resetCopyFlags.simps [of "[(Suc 0, [])]"] resetCopyFlags.simps [of "[]"])
  qed
  let ?V = "replicate (length ks) (0 :: u32)"
  let ?t2 = "?t1\<lparr>root_readview := (1, []), generation := 2, nodes := (nodes ?t1)((2, []) \<mapsto> copyTrieNode ?root False),
    root_writeview := (2, []), oldIdToNewIdMapVector := Some ?V\<rparr>"
  have num: "numbering ?t2 ks Map.empty"
    using d shapeNode_same [of ks] by (simp add: numbering_def shaped_def idNode_def)
  have "\<exists>t'. commitNodes (sparsityOf (length ks)) (map (Pair 1) [[]]) 0 ?t2 = Some (0 + of_nat (length (keysBelow (set ks) [])), t')
      \<and> numbering t' ks (fst (assignIds ks (sparsityOf (length ks)) 0 (keysBelow (set ks) []) (Map.empty, ?V)))
      \<and> oldIdToNewIdMapVector t' = Some (snd (assignIds ks (sparsityOf (length ks)) 0 (keysBelow (set ks) []) (Map.empty, ?V))) \<and> idFrame ?t2 t'"
    by (rule commitNodes_numbering [where d = 128])
      (use d n num keysBelow_Nil(2) in \<open>simp_all add: hasNode_def\<close>)
  then obtain t' where t': "commitNodes (sparsityOf (length ks)) [(1, [])] 0 ?t2 = Some (of_nat (length (keysBelow (set ks) [])), t')"
      "numbering t' ks (finalIds ks)" "idFrame ?t2 t'"
      "oldIdToNewIdMapVector t' = Some (snd (assignIds ks (sparsityOf (length ks)) 0 (keysBelow (set ks) []) (Map.empty, ?V)))"
    unfolding assigned_finalIds by auto
  have "commit t = Some t'"
  proof -
    have "release (0, []) t = Some ?t1" using d by (auto simp: release_def)
    moreover have "unat (of_nat (length ks) :: u32) = length ks" using n by (simp add: unat_of_nat)
    ultimately show ?thesis using d reset root t'(1)
      by (cases "(1 :: u32) < of_nat (length ks)")
        (simp_all add: commit_def Let_def allocate_def commitSubTrie_def sparsityOf_def numeral_2_eq_2)
  qed
  moreover have "indexed t' ks"
  proof -
    have "snd (assignIds ks s 0 (keysBelow (set ks) []) (Map.empty, ?V)) ! position ks k = the (fst (assignIds ks s 0 (keysBelow (set ks) []) (Map.empty, ?V)) k)"
      if "k \<in> set ks" for k s
      by (rule assignIds_vector) (use that keysBelow_Nil [of "set ks"] in simp_all)
    from this [where s = "sparsityOf (length ks)", unfolded assigned_finalIds] show ?thesis
      using t' d by (auto simp: indexed_def idFrame_def finalIds_def)
  qed
  ultimately show ?thesis by blast
qed

lemma unat_MAX_ALLOCATED: "unat MAX_ALLOCATED_KEYWORD_ID = 0xFFFF0000"
  by (simp add: MAX_ALLOCATED_KEYWORD_ID_def)

lemma sparsityOf_bounds:
  assumes "n + 5 \<le> 0xFFFF0000"
  shows "0 < unat (sparsityOf n)" "n * unat (sparsityOf n) \<le> 0xFFFF0000"
proof -
  define m where "m = (if (of_nat n :: u32) > 1 then of_nat n + 5 else 5 :: u32)"
  have n: "unat (of_nat n :: u32) = n" using assms by (simp add: unat_of_nat)
  then have big: "(of_nat n :: u32) > 1 \<longleftrightarrow> n > 1" by (simp add: word_less_nat_alt)
  have "unat ((of_nat n :: u32) + 5) = n + 5" using assms n by (subst unat_add_lem [THEN iffD1]) simp_all
  then have m: "unat m = (if n > 1 then n + 5 else 5)" unfolding m_def big by simp
  have s: "unat (sparsityOf n) = 0xFFFF0000 div unat m" unfolding sparsityOf_def m_def [symmetric] unat_div unat_MAX_ALLOCATED ..
  show "0 < unat (sparsityOf n)" unfolding s m using assms by (simp add: div_greater_zero_iff)
  have "n \<le> unat m" unfolding m by simp
  then have "n * (0xFFFF0000 div unat m) \<le> unat m * (0xFFFF0000 div unat m)" by (rule mult_right_mono) simp
  also have "\<dots> \<le> 0xFFFF0000" by (rule times_div_less_eq_dividend)
  finally show "n * unat (sparsityOf n) \<le> 0xFFFF0000" unfolding s .
qed

lemma unat_keywordId:
  assumes "distinct ks" "length ks + 5 \<le> 0xFFFF0000" "k \<in> set ks"
  shows "unat (keywordId ks k) = (position (keysBelow (set ks) []) k + 1) * unat (sparsityOf (length ks))"
proof -
  let ?L = "keysBelow (set ks) []" and ?s = "unat (sparsityOf (length ks))"
  have "length ?L = length ks" using keysBelow_Nil [of "set ks"] assms(1) by (metis List.finite_set distinct_card)
  then have i: "position ?L k + 1 \<le> length ks" using position_less [of k ?L] assms(3) keysBelow_Nil(1) [of "set ks"] by simp
  have small: "unat (of_nat (position ?L k + 1) :: u32) = position ?L k + 1"
    unfolding unat_of_nat by (rule mod_less) (use i assms(2) in simp)
  have "(position ?L k + 1) * ?s \<le> length ks * ?s" using i by (rule mult_right_mono) simp
  also have "\<dots> < 2 ^ 32" using sparsityOf_bounds(2) [OF assms(2)] by simp
  finally have "unat (of_nat (position ?L k + 1) :: u32) * ?s < 2 ^ 32" unfolding small .
  then show ?thesis unfolding keywordId_def by (subst unat_mult_lem [THEN iffD1]) (simp_all only: small len_of_numeral_defs, simp_all)
qed

lemma keywordId_mono:
  assumes "distinct ks" "length ks + 5 \<le> 0xFFFF0000" "k \<in> set ks" "k' \<in> set ks"
  shows "keywordId ks k < keywordId ks k' \<longleftrightarrow> k < k'"
proof -
  let ?L = "keysBelow (set ks) []"
  have in_L: "x \<in> set ks \<Longrightarrow> position ?L x < length ?L \<and> ?L ! position ?L x = x" for x
    using position_less [of x ?L] nth_position [of x ?L] keysBelow_Nil(1) [of "set ks"] by auto
  have mono: "?L ! i < ?L ! j" if "i < j" "j < length ?L" for i j
    using keysBelow_Nil(3) [of "set ks"] that by (simp add: sorted_wrt_iff_nth_less)
  have "position ?L k < position ?L k' \<longleftrightarrow> k < k'"
    using mono [of "position ?L k" "position ?L k'"] mono [of "position ?L k'" "position ?L k"] in_L [OF assms(3)] in_L [OF assms(4)]
    by (metis less_asym less_irrefl linorder_neqE_nat)
  then show ?thesis using unat_keywordId [OF assms(1,2)] assms(3,4) sparsityOf_bounds(1) [OF assms(2)]
    by (simp add: word_less_nat_alt)
qed

section \<open>Searches\<close>

lemma numbering_spelled: "numbering t ks A \<Longrightarrow> spelled t (set ks)"
  by (simp add: numbering_def spelled_def)

lemma getTrieNode_numbering:
  assumes num: "numbering t ks A" and p: "hasNode (set ks) p"
  shows "getTrieNode t (1, p) w = Some (if hasNode (set ks) (p @ w) then Some (1, p @ w) else None)"
  using p
proof (induction w arbitrary: p)
  case (Cons c w)
  have n: "nodes t (1, p) = Some (idNode ks A p)" using num Cons.prems by (simp add: numbering_def)
  show ?case
  proof (cases "c \<in> nexts (set ks) p")
    case True
    then obtain i where "findChildNodePosition t (idNode ks A p) c = Some (int i)"
        "nth_opt (childrenPointerList (idNode ks A p)) i = Some (1, p @ [c])"
      using findChild_spelled(1) [OF numbering_spelled [OF num] idNode_simps(1)] by blast
    then show ?thesis using n Cons.IH [of "p @ [c]"] True by (simp add: findChild_def hasNode_next)
  next
    case False
    then obtain m where "findChildNodePosition t (idNode ks A p) c = Some (- int m - 1)"
      using findChild_spelled(2) [OF numbering_spelled [OF num] idNode_simps(1)] by blast
    moreover have "\<not> hasNode (set ks) (p @ c # w)"
      using False hasNode_prefix [of "set ks" "p @ c # w" "p @ [c]"] by (auto simp: hasNode_next)
    ultimately show ?thesis using n by (simp add: findChild_def)
  qed
qed (simp add: assms)

lemma idNode_final: "k \<in> set ks \<Longrightarrow> node_id (idNode ks (finalIds ks) k) = keywordId ks k"
  by (simp add: idNode_def finalIds_def)

lemma range_numbering:
  assumes "numbering t ks (finalIds ks)" "below (set ks) p \<noteq> {}"
  shows "getMinId t (idNode ks (finalIds ks) p) = Some (keywordId ks (least (set ks) p))"
    "getMaxId t (idNode ks (finalIds ks) p) = Some (keywordId ks (greatest (set ks) p))"
proof -
  have "least (set ks) p \<in> set ks" "greatest (set ks) p \<in> set ks"
    using least_in [OF _ assms(2)] greatest_in [OF _ assms(2)] by (auto simp: below_def)
  moreover have "hasNode (set ks) k" if "k \<in> set ks" for k using that by (auto simp: hasNode_def below_def)
  ultimately show "getMinId t (idNode ks (finalIds ks) p) = Some (keywordId ks (least (set ks) p))"
    "getMaxId t (idNode ks (finalIds ks) p) = Some (keywordId ks (greatest (set ks) p))"
    using assms idNode_final by (simp_all add: getMinId_def getMaxId_def numbering_def nodeOf_descendants)
qed

text \<open>A search by keyword id goes to the child with the keyword below it.\<close>

lemma lowerBound_child:
  assumes num: "numbering t ks (finalIds ks)" and ks: "distinct ks" "length ks + 5 \<le> 0xFFFF0000"
    and k: "k \<in> below (set ks) (q @ [c])"
  shows "findLowerBoundChildByMinId t (idNode ks (finalIds ks) q) (keywordId ks k) = Some (Some (1, q @ [c]))"
proof -
  let ?K = "set ks" and ?n = "idNode ks (finalIds ks) q"
  let ?L = "sorted_list_of_set (nexts ?K q)"
  let ?ids = "map (\<lambda>c. keywordId ks (least ?K (q @ [c]))) ?L"
  have least: "least ?K (q @ [d]) \<in> below ?K (q @ [d])" if "d \<in> nexts ?K q" for d
    by (rule least_in) (use that in \<open>simp_all add: nexts_iff\<close>)
  have inK: "m \<in> ?K" if "m \<in> below ?K (q @ [d])" for m d using that by (simp add: below_def)
  have strict: "sorted_wrt (<) ?ids"
    unfolding sorted_wrt_map
  proof (rule sorted_wrt_mono_rel [where P = "(<)"])
    fix d e assume "d \<in> set ?L" "e \<in> set ?L" "d < e"
    then have "least ?K (q @ [d]) < least ?K (q @ [e])" "least ?K (q @ [d]) \<in> ?K" "least ?K (q @ [e]) \<in> ?K"
      using least [of d] least [of e] below_next_less inK by auto
    then show "keywordId ks (least ?K (q @ [d])) < keywordId ks (least ?K (q @ [e]))" using keywordId_mono [OF ks] by simp
  qed simp
  have key: "childMinId t ?n i = Some (?ids ! i)" if i: "i < length ?ids" for i
  proof -
    have "?L ! i \<in> nexts ?K q" using i nth_mem [of i ?L] by simp
    then have "below ?K (q @ [?L ! i]) \<noteq> {}" by (simp add: nexts_iff)
    moreover from this have "hasNode ?K (q @ [?L ! i])" by (simp add: hasNode_def)
    ultimately show ?thesis using num i range_numbering(1) [OF num]
      by (simp add: childMinId_def childrenOf_def nth_opt_def numbering_def)
  qed
  have "c \<in> set ?L" using k by (auto simp: nexts_iff)
  then obtain i where i: "i < length ?L" "?L ! i = c" by (metis in_set_conv_nth)
  have upto: "?ids ! j \<le> keywordId ks k" if "j \<le> i" for j
  proof -
    have "?ids ! j \<le> ?ids ! i" using strict that i(1) by (cases "j = i") (auto simp: sorted_wrt_iff_nth_less intro: less_imp_le)
    moreover have "least ?K (q @ [c]) \<le> k" using k by (simp add: least_def)
    then have "keywordId ks (least ?K (q @ [c])) \<le> keywordId ks k"
      using keywordId_mono [OF ks, of k "least ?K (q @ [c])"] inK [OF k] inK [OF least [of c]] k by (auto simp: nexts_iff not_less [symmetric])
    ultimately show ?thesis using i by simp
  qed
  have after: "keywordId ks k < ?ids ! j" if "i < j" "j < length ?L" for j
  proof -
    have "c < ?L ! j" using sorted_list_of_set.strict_sorted_key_list_of_set [of "nexts ?K q"] that i by (auto simp: sorted_wrt_iff_nth_less)
    moreover have "?L ! j \<in> nexts ?K q" using that nth_mem [of j ?L] by simp
    ultimately have "k < least ?K (q @ [?L ! j])" "least ?K (q @ [?L ! j]) \<in> ?K"
      using below_next_less [OF k least] inK least by blast+
    then show ?thesis using keywordId_mono [OF ks inK [OF k]] that by simp
  qed
  have pos: "findLowerBoundChildNodePositionByMinId t ?n (keywordId ks k) = Some (int i)"
  proof (cases "keywordId ks k \<in> set ?ids")
    case True
    then obtain j where j: "j < length ?ids" "?ids ! j = keywordId ks k"
        "searchLoop (childMinId t ?n) (keywordId ks k) 0 (int (length ?ids) - 1) = Some (True, int j)"
      using searchLoop_found [OF strict key] by blast
    have "\<not> i < j" using after [of j] j(1,2) by auto
    moreover have "?ids ! j < ?ids ! i" if "j < i" using strict that i(1) by (simp add: sorted_wrt_iff_nth_less)
    then have "\<not> j < i" using upto [of i] j(2) by force
    ultimately have "j = i" by simp
    then show ?thesis using j(3) by (simp add: findLowerBoundChildNodePositionByMinId_def length_childrenOf)
  next
    case False
    then obtain m where m: "m \<le> length ?ids" "\<forall>j < m. ?ids ! j < keywordId ks k" "\<forall>j. m \<le> j \<and> j < length ?ids \<longrightarrow> keywordId ks k < ?ids ! j"
        "searchLoop (childMinId t ?n) (keywordId ks k) 0 (int (length ?ids) - 1) = Some (False, int m)"
      using searchLoop_missing [OF strict key] by blast
    have "keywordId ks k < ?ids ! i" if "m \<le> i" using m(3) that i(1) by simp
    then have "i < m" using upto [of i] by force
    moreover have "?ids ! (i + 1) < keywordId ks k" "keywordId ks k < ?ids ! (i + 1)" if "i + 1 < m"
      using that m(1,2) after [of "i + 1"] by simp_all
    then have "\<not> i + 1 < m" by force
    ultimately have "m = i + 1" by simp
    then show ?thesis using m(4) by (simp add: findLowerBoundChildNodePositionByMinId_def length_childrenOf)
  qed
  then show ?thesis using i by (simp add: findLowerBoundChildByMinId_def nth_opt_def childrenOf_def)
qed

lemma getDepth_idNode: "keywordsOk ks \<Longrightarrow> hasNode (set ks) p \<Longrightarrow> getDepth (idNode ks A p) = length p"
  using getDepth_packed [of "idNode ks A p" "length p"] hasNode_length by simp

lemma isTerminal_idNode: "keywordsOk ks \<Longrightarrow> hasNode (set ks) p \<Longrightarrow> isTerminal (idNode ks A p) \<longleftrightarrow> p \<in> set ks"
  using isTerminal_packed [of "idNode ks A p" "length p"] hasNode_length by simp

lemma prefixLoop_numbering:
  assumes ks: "keywordsOk ks" "length ks + 5 \<le> 0xFFFF0000" and num: "numbering t ks (finalIds ks)"
    and p: "below (set ks) p \<noteq> {}" "j \<le> length p"
  shows "prefixLoop t (keywordId ks (least (set ks) p)) (length p) (idNode ks (finalIds ks) (take j p))
    (take j p @ replicate (length p - j) 0) = Some p"
  using p(2)
proof (induction "length p - j" arbitrary: j)
  case 0
  then have "j = length p" by simp
  then show ?case using getDepth_idNode [OF ks(1), of p] p(1) by (simp add: prefixLoop.simps hasNode_def)
next
  case (Suc n)
  then have j: "j < length p" by simp
  let ?q = "take (Suc j) p" and ?K = "set ks"
  have q: "?q = take j p @ [p ! j]" using j by (simp add: take_Suc_conv_app_nth)
  have node: "hasNode ?K (take i p)" for i using p(1) hasNode_prefix [of ?K p "take i p"] by (simp add: hasNode_def take_is_prefix)
  have "least ?K p \<in> below ?K ?q" using least_in [OF _ p(1)] below_antimono [of ?q p ?K] by (auto simp: take_is_prefix)
  then have "findLowerBoundChildByMinId t (idNode ks (finalIds ks) (take j p)) (keywordId ks (least ?K p)) = Some (Some (1, ?q))"
    using lowerBound_child [OF num _ ks(2)] ks(1) unfolding q keywordsOk_def by blast
  moreover have "nodes t (1, ?q) = Some (idNode ks (finalIds ks) ?q)" using num node by (simp add: numbering_def)
  moreover have "getDepth (idNode ks (finalIds ks) (take j p)) = j" "getDepth (idNode ks (finalIds ks) ?q) = Suc j"
    using getDepth_idNode [OF ks(1) node] j by simp_all
  moreover have "character (idNode ks (finalIds ks) ?q) = p ! j" unfolding q by simp
  moreover have "(take j p @ replicate (length p - j) 0)[j := p ! j] = ?q @ replicate (length p - Suc j) 0"
  proof -
    have "length p - j = Suc (length p - Suc j)" using j by simp
    then show ?thesis using j by (simp add: q list_update_append)
  qed
  ultimately show ?case using Suc.hyps(1) [of "Suc j"] Suc.hyps(2) j by (subst prefixLoop.simps) simp
qed

lemma minMaxLoop_numbering:
  assumes ks: "keywordsOk ks" "length ks + 5 \<le> 0xFFFF0000" and num: "numbering t ks (finalIds ks)"
    and k: "k \<in> set ks" "j < length k"
  shows "minMaxLoop t (keywordId ks k) (idNode ks (finalIds ks) (take j k))
    = Some (keywordId ks k, keywordId ks (greatest (set ks) k), length k)"
  using k(2)
proof (induction "length k - j" arbitrary: j rule: less_induct)
  case less
  let ?q = "take (Suc j) k" and ?K = "set ks"
  have dist: "distinct ks" using ks(1) by (simp add: keywordsOk_def)
  have q: "?q = take j k @ [k ! j]" using less.prems by (simp add: take_Suc_conv_app_nth)
  have below: "below ?K ?q \<noteq> {}" "k \<in> below ?K ?q" using k(1) by (auto simp: below_def take_is_prefix)
  then have node: "hasNode ?K ?q" by (simp add: hasNode_def)
  have child: "findLowerBoundChildByMinId t (idNode ks (finalIds ks) (take j k)) (keywordId ks k) = Some (Some (1, ?q))"
    using lowerBound_child [OF num dist ks(2)] below(2) unfolding q by blast
  have n: "nodes t (1, ?q) = Some (idNode ks (finalIds ks) ?q)" using num node by (simp add: numbering_def)
  note range = range_numbering [OF num below(1)]
  note here = minMaxLoop.simps [of t "keywordId ks k" "idNode ks (finalIds ks) (take j k)"]
  show ?case
  proof (cases "?q = k")
    case True
    then have "least ?K ?q = k" using least_terminal [of ?K k] k(1) by simp
    then show ?thesis using here child n range True isTerminal_idNode [OF ks(1) node] getDepth_idNode [OF ks(1) node] k(1) by simp
  next
    case False
    then have j: "Suc j < length k" using less.prems by (metis Suc_lessI take_all_iff order_refl)
    have "\<not> (isTerminal (idNode ks (finalIds ks) ?q) \<and> keywordId ks k = keywordId ks (least ?K ?q))"
    proof
      assume a: "isTerminal (idNode ks (finalIds ks) ?q) \<and> keywordId ks k = keywordId ks (least ?K ?q)"
      then have qk: "?q \<in> ?K" using isTerminal_idNode [OF ks(1) node] by simp
      then have "least ?K ?q = ?q" by (simp add: least_terminal)
      moreover have "?q < k" using prefix_le [of ?q k] False by (simp add: take_is_prefix less_le)
      ultimately show False using a keywordId_mono [OF dist ks(2) qk k(1)] by simp
    qed
    then show ?thesis using here child n range less.hyps [OF _ j] j by auto
  qed
qed

section \<open>Loading and committing keywords\<close>

text \<open>The keywords of the records are added one after the other, each with its temporary id, and the trie is
  committed.\<close>

fun loadAll :: "u8 \<Rightarrow> CharType list list \<Rightarrow> Trie \<Rightarrow> (u32 list \<times> Trie) option" where
  "loadAll mem [] t = Some ([], t)"
| "loadAll mem (w # ws) t = do {
     (i, _, t) \<leftarrow> addKeyword mem w t;
     (is, t) \<leftarrow> loadAll mem ws t;
     Some (i # is, t)
   }"

definition buildTrie :: "u8 \<Rightarrow> CharType list list \<Rightarrow> (u32 list \<times> Trie) option" where
  "buildTrie mem ws = do { (is, t) \<leftarrow> loadAll mem ws (Trie_new mem); t \<leftarrow> commit t; Some (is, t) }"

definition wordId :: "Trie \<Rightarrow> CharType list \<Rightarrow> u32 option" where
  "wordId t w = do { q \<leftarrow> getTrieNode t (root_readview t) w; q \<leftarrow> q; n \<leftarrow> nodes t q; Some (node_id n) }"

definition prefixRange :: "Trie \<Rightarrow> CharType list \<Rightarrow> (u32 \<times> u32) option" where
  "prefixRange t p = do { q \<leftarrow> getTrieNode t (root_readview t) p; q \<leftarrow> q; n \<leftarrow> nodes t q;
     lo \<leftarrow> getMinId t n; hi \<leftarrow> getMaxId t n; Some (lo, hi) }"

definition keywordsOf :: "CharType list list \<Rightarrow> CharType list list" where
  "keywordsOf ws = fold addOnce (map cleanString ws) []"

lemma set_fold_addOnce: "set (fold addOnce ws ks) = set ws \<union> set ks"
  by (induction ws arbitrary: ks) auto

lemma position_fold: "x \<in> set ks \<Longrightarrow> position (fold addOnce ws ks) x = position ks x"
  by (induction ws arbitrary: ks) (simp_all add: position_addOnce)

lemma length_fold: "length (fold addOnce ws ks) \<le> length ws + length ks"
proof (induction ws arbitrary: ks)
  case (Cons w ws)
  show ?case using Cons.IH [of "addOnce w ks"] by (auto simp: addOnce_def split: if_splits)
qed simp

lemma loadAll_loaded:
  assumes "loaded t ks" "\<forall>w \<in> set ws. cleanString w \<noteq> []"
  shows "\<exists>is t'. loadAll mem ws t = Some (is, t') \<and> loaded t' (fold addOnce (map cleanString ws) ks)
    \<and> is = map (\<lambda>w. of_nat (position (fold addOnce (map cleanString ws) ks) (cleanString w))) ws"
  using assms
proof (induction ws arbitrary: t ks)
  case (Cons w ws)
  let ?k = "cleanString w"
  obtain o1 t1 where t1: "addKeyword mem w t = Some (of_nat (position (addOnce ?k ks) ?k), o1, t1)" "loaded t1 (addOnce ?k ks)"
    using addKeyword_loaded [OF Cons.prems(1)] Cons.prems(2) by fastforce
  moreover have "position (fold addOnce (map cleanString ws) (addOnce ?k ks)) ?k = position (addOnce ?k ks) ?k"
    by (rule position_fold) simp
  ultimately show ?case using Cons.IH [OF t1(2)] Cons.prems(2) by auto
qed simp

lemma buildTrie_indexed:
  assumes "\<forall>w \<in> set ws. cleanString w \<noteq> []" "length ws + 5 \<le> 0xFFFF0000"
  shows "\<exists>t. buildTrie mem ws = Some (map (\<lambda>w. of_nat (position (keywordsOf ws) (cleanString w))) ws, t) \<and> indexed t (keywordsOf ws)
    \<and> set (keywordsOf ws) = cleanString ` set ws \<and> distinct (keywordsOf ws) \<and> length (keywordsOf ws) + 5 \<le> 0xFFFF0000"
proof -
  obtain "is" t where t: "loadAll mem ws (Trie_new mem) = Some (is, t)" "loaded t (keywordsOf ws)"
      "is = map (\<lambda>w. of_nat (position (keywordsOf ws) (cleanString w))) ws"
    using loadAll_loaded [OF Trie_new_loaded assms(1)] unfolding keywordsOf_def by blast
  have n: "length (keywordsOf ws) \<le> length ws" using length_fold [of "map cleanString ws" "[]"] by (simp add: keywordsOf_def)
  then obtain t' where "commit t = Some t'" "indexed t' (keywordsOf ws)" using commit_indexed [OF t(2)] assms(2) by auto
  then show ?thesis using t n assms(2) by (auto simp: buildTrie_def loaded_def keywordsOk_def keywordsOf_def set_fold_addOnce)
qed

lemma wordId_indexed: "indexed t ks \<Longrightarrow> k \<in> set ks \<Longrightarrow> wordId t k = Some (keywordId ks k)"
proof -
  assume a: "indexed t ks" "k \<in> set ks"
  then have "hasNode (set ks) k" by (auto simp: hasNode_def below_def)
  then show ?thesis using a getTrieNode_numbering [of t ks "finalIds ks" "[]" k] idNode_final
    by (simp add: wordId_def indexed_def hasNode_def numbering_def)
qed

lemma prefixRange_indexed:
  assumes "indexed t ks" "below (set ks) p \<noteq> {}"
  shows "prefixRange t p = Some (keywordId ks (least (set ks) p), keywordId ks (greatest (set ks) p))"
  using assms getTrieNode_numbering [of t ks "finalIds ks" "[]" p] range_numbering [of t ks p]
  by (simp add: prefixRange_def indexed_def hasNode_def numbering_def)

lemma range_iff_prefix:
  assumes "distinct ks" "length ks + 5 \<le> 0xFFFF0000" "below (set ks) p \<noteq> {}" "k \<in> set ks"
  shows "keywordId ks (least (set ks) p) \<le> keywordId ks k \<and> keywordId ks k \<le> keywordId ks (greatest (set ks) p) \<longleftrightarrow> prefix p k"
proof -
  have ends: "least (set ks) p \<in> set ks" "greatest (set ks) p \<in> set ks"
    using least_in [OF _ assms(3)] greatest_in [OF _ assms(3)] by (auto simp: below_def)
  have "keywordId ks (least (set ks) p) \<le> keywordId ks k \<longleftrightarrow> least (set ks) p \<le> k"
    "keywordId ks k \<le> keywordId ks (greatest (set ks) p) \<longleftrightarrow> k \<le> greatest (set ks) p"
    using keywordId_mono [OF assms(1,2)] ends assms(4) by (simp_all add: not_less [symmetric])
  then show ?thesis using between_iff_prefix [OF _ assms(3,4)] by simp
qed

lemma keywordId_bounds:
  assumes "distinct ks" "length ks + 5 \<le> 0xFFFF0000" "k \<in> set ks"
  shows "0 < keywordId ks k" "keywordId ks k \<le> MAX_ALLOCATED_KEYWORD_ID"
proof -
  let ?L = "keysBelow (set ks) []" and ?s = "unat (sparsityOf (length ks))"
  have "length ?L = length ks" using keysBelow_Nil [of "set ks"] assms(1) by (metis List.finite_set distinct_card)
  then have "position ?L k + 1 \<le> length ks" using position_less [of k ?L] assms(3) keysBelow_Nil(1) [of "set ks"] by simp
  then have "(position ?L k + 1) * ?s \<le> length ks * ?s" by (rule mult_right_mono) simp
  also have "\<dots> \<le> 0xFFFF0000" by (rule sparsityOf_bounds(2) [OF assms(2)])
  finally show "keywordId ks k \<le> MAX_ALLOCATED_KEYWORD_ID"
    unfolding word_le_nat_alt unat_keywordId [OF assms] unat_MAX_ALLOCATED .
  show "0 < keywordId ks k"
    unfolding word_less_nat_alt unat_keywordId [OF assms] using sparsityOf_bounds(1) [OF assms(2)] by simp
qed

lemma getPrefixString_indexed:
  assumes "indexed t ks" "length ks + 5 \<le> 0xFFFF0000" "below (set ks) p \<noteq> {}"
  shows "getTrieNode t (root_readview t) p \<bind> getPrefixString t (root_readview t) = Some p"
proof -
  have d: "keywordsOk ks" "numbering t ks (finalIds ks)" "root_readview t = (1, [])" "hasNode (set ks) p"
    using assms by (simp_all add: indexed_def hasNode_def)
  have "nodes t (1, p) = Some (idNode ks (finalIds ks) p)" "nodes t (1, []) = Some (idNode ks (finalIds ks) [])"
    using d(2,4) by (simp_all add: numbering_def hasNode_def)
  then show ?thesis
    using d getTrieNode_numbering [OF d(2), of "[]" p] range_numbering(1) [OF d(2) assms(3)] getDepth_idNode [OF d(1,4)]
      prefixLoop_numbering [OF d(1) assms(2) d(2) assms(3), of 0]
    by (simp add: getPrefixString_def hasNode_def)
qed

lemma getKeywordMinMaxIdLength_indexed:
  assumes "indexed t ks" "length ks + 5 \<le> 0xFFFF0000" "k \<in> set ks"
  shows "\<exists>i hi. wordId t k = Some i \<and> prefixRange t k = Some (i, hi) \<and> getKeywordMinMaxIdLength t i = Some (i, hi, length k)"
proof -
  have d: "keywordsOk ks" "numbering t ks (finalIds ks)" "root_readview t = (1, [])" "k \<noteq> []"
    using assms by (auto simp: indexed_def keywordsOk_def)
  have ne: "below (set ks) k \<noteq> {}" using assms(3) by (auto simp: below_def)
  have "nodes t (1, []) = Some (idNode ks (finalIds ks) [])" using d(2) by (simp add: numbering_def hasNode_def)
  then have "getKeywordMinMaxIdLength t (keywordId ks k) = Some (keywordId ks k, keywordId ks (greatest (set ks) k), length k)"
    using minMaxLoop_numbering [OF d(1) assms(2) d(2) assms(3), of 0] d by (simp add: getKeywordMinMaxIdLength_def)
  then show ?thesis using wordId_indexed [OF assms(1,3)] prefixRange_indexed [OF assms(1) ne] least_terminal [of "set ks" k] assms(3) by simp
qed

section \<open>Correctness\<close>

text \<open>
  C2. The trie built from any list of keywords and committed answers prefix searches by an interval of keyword
  ids: for every string p that is a prefix of some keyword, the node of p is found, and a keyword has an
  id between the node's minimum and maximum id exactly when the keyword starts with p. Loading and the
  commit never fail.
\<close>

theorem trie_prefix_interval:
  assumes "\<forall>w \<in> set ws. cleanString w \<noteq> []" "length ws + 5 \<le> 0xFFFF0000"
  shows "\<exists>is t. buildTrie mem ws = Some (is, t) \<and> (\<forall>p. (\<exists>w \<in> set ws. prefix p (cleanString w)) \<longrightarrow>
    (\<exists>lo hi. prefixRange t p = Some (lo, hi)
      \<and> (\<forall>w \<in> set ws. \<exists>i. wordId t (cleanString w) = Some i \<and> (lo \<le> i \<and> i \<le> hi \<longleftrightarrow> prefix p (cleanString w)))))"
proof -
  let ?ks = "keywordsOf ws"
  obtain "is" t where t: "buildTrie mem ws = Some (is, t)" "indexed t ?ks" "set ?ks = cleanString ` set ws" "distinct ?ks"
      "length ?ks + 5 \<le> 0xFFFF0000"
    using buildTrie_indexed [OF assms] by blast
  have "\<exists>lo hi. prefixRange t p = Some (lo, hi)
      \<and> (\<forall>w \<in> set ws. \<exists>i. wordId t (cleanString w) = Some i \<and> (lo \<le> i \<and> i \<le> hi \<longleftrightarrow> prefix p (cleanString w)))"
    if p: "\<exists>w \<in> set ws. prefix p (cleanString w)" for p
  proof -
    have ne: "below (set ?ks) p \<noteq> {}" using p t(3) by (auto simp: below_def)
    show ?thesis using prefixRange_indexed [OF t(2) ne] wordId_indexed [OF t(2)] range_iff_prefix [OF t(4,5) ne] t(3) by auto
  qed
  then show ?thesis using t(1) by blast
qed

theorem trie_prefix_interval_witness:
  "\<exists>is t lo hi. buildTrie 0 [[98], [97, 98], [97]] = Some (is, t) \<and> prefixRange t [97] = Some (lo, hi)
    \<and> (\<exists>i. wordId t [97, 98] = Some i \<and> lo \<le> i \<and> i \<le> hi) \<and> (\<exists>i. wordId t [98] = Some i \<and> \<not> (lo \<le> i \<and> i \<le> hi))"
proof -
  have clean: "cleanString [98] = [98]" "cleanString [97, 98] = [97, 98]" "cleanString [97] = [97]"
    by (simp_all add: cleanString_def TRIE_MAX_DEPTH_def TRIE_MARKER_CHARACTER_def)
  have "\<forall>w \<in> set [[98], [97, 98], [97]]. cleanString w \<noteq> []" "length [[98 :: u32], [97, 98], [97]] + 5 \<le> 0xFFFF0000"
    by (simp_all add: clean)
  from trie_prefix_interval [OF this, of 0] obtain "is" t where t: "buildTrie 0 [[98], [97, 98], [97]] = Some (is, t)"
    "\<forall>p. (\<exists>w \<in> set [[98], [97, 98], [97]]. prefix p (cleanString w)) \<longrightarrow> (\<exists>lo hi. prefixRange t p = Some (lo, hi)
      \<and> (\<forall>w \<in> set [[98], [97, 98], [97]]. \<exists>i. wordId t (cleanString w) = Some i \<and> (lo \<le> i \<and> i \<le> hi \<longleftrightarrow> prefix p (cleanString w))))"
    by blast
  from t(2) [rule_format, of "[97]"] show ?thesis using t(1) by (auto simp: clean)
qed

text \<open>
  C11. The commit numbers the keywords in lexicographic order, keeps every id within the id space, and the
  vector from old to new ids sends the temporary id handed out for each keyword to the keyword's final id.
\<close>

theorem trie_ids_in_order:
  assumes "\<forall>w \<in> set ws. cleanString w \<noteq> []" "length ws + 5 \<le> 0xFFFF0000"
  shows "\<exists>is t V. buildTrie mem ws = Some (is, t) \<and> oldIdToNewIdMapVector t = Some V \<and> length is = length ws
    \<and> (\<forall>n < length ws. unat (is ! n) < length V \<and> wordId t (cleanString (ws ! n)) = Some (V ! unat (is ! n))
        \<and> 0 < V ! unat (is ! n) \<and> V ! unat (is ! n) \<le> MAX_ALLOCATED_KEYWORD_ID)
    \<and> (\<forall>m < length ws. \<forall>n < length ws. V ! unat (is ! m) < V ! unat (is ! n) \<longleftrightarrow> cleanString (ws ! m) < cleanString (ws ! n))"
proof -
  let ?ks = "keywordsOf ws" and ?is = "map (\<lambda>w. of_nat (position (keywordsOf ws) (cleanString w))) ws :: u32 list"
  obtain t where t: "buildTrie mem ws = Some (?is, t)" "indexed t ?ks" "set ?ks = cleanString ` set ws" "distinct ?ks"
      "length ?ks + 5 \<le> 0xFFFF0000"
    using buildTrie_indexed [OF assms] by blast
  obtain V where V: "oldIdToNewIdMapVector t = Some V" "length V = length ?ks" "\<And>k. k \<in> set ?ks \<Longrightarrow> V ! position ?ks k = keywordId ?ks k"
    using t(2) by (auto simp: indexed_def)
  have k: "cleanString (ws ! n) \<in> set ?ks" if "n < length ws" for n using that t(3) by simp
  have i: "unat (?is ! n) = position ?ks (cleanString (ws ! n))" if "n < length ws" for n
    using position_less [OF k [OF that]] t(5) that by (simp add: unat_of_nat)
  then have v: "unat (?is ! n) < length V" "V ! unat (?is ! n) = keywordId ?ks (cleanString (ws ! n))" if "n < length ws" for n
    using position_less [OF k [OF that]] V(2,3) k that by auto
  moreover have "wordId t (cleanString (ws ! n)) = Some (V ! unat (?is ! n))" if "n < length ws" for n
    using wordId_indexed [OF t(2) k [OF that]] v(2) [OF that] by simp
  moreover have "0 < V ! unat (?is ! n)" "V ! unat (?is ! n) \<le> MAX_ALLOCATED_KEYWORD_ID" if "n < length ws" for n
    unfolding v(2) [OF that] using keywordId_bounds [OF t(4,5) k [OF that]] by blast+
  moreover have "V ! unat (?is ! m) < V ! unat (?is ! n) \<longleftrightarrow> cleanString (ws ! m) < cleanString (ws ! n)"
    if "m < length ws" "n < length ws" for m n
    unfolding v(2) [OF that(1)] v(2) [OF that(2)] by (rule keywordId_mono [OF t(4,5) k [OF that(1)] k [OF that(2)]])
  ultimately show ?thesis using t(1) V(1) by (intro exI [of _ ?is] exI [of _ t] exI [of _ V]) simp
qed

theorem trie_ids_in_order_witness:
  "\<exists>is t V. buildTrie 0 [[98], [97]] = Some (is, t) \<and> oldIdToNewIdMapVector t = Some V \<and> V ! unat (is ! 1) < V ! unat (is ! 0)"
proof -
  have clean: "cleanString [98] = [98]" "cleanString [97] = [97]"
    by (simp_all add: cleanString_def TRIE_MAX_DEPTH_def TRIE_MARKER_CHARACTER_def)
  have "\<forall>w \<in> set [[98], [97]]. cleanString w \<noteq> []" "length [[98 :: u32], [97]] + 5 \<le> 0xFFFF0000" by (simp_all add: clean)
  from trie_ids_in_order [OF this, of 0] obtain "is" t V where "buildTrie 0 [[98], [97]] = Some (is, t)"
    "oldIdToNewIdMapVector t = Some V" "\<forall>m < length [[98 :: u32], [97]]. \<forall>n < length [[98 :: u32], [97]].
      V ! unat (is ! m) < V ! unat (is ! n) \<longleftrightarrow> cleanString ([[98], [97]] ! m) < cleanString ([[98], [97]] ! n)"
    by blast
  then show ?thesis by (auto simp: clean dest: spec [where x = 1] spec [where x = 0])
qed

text \<open>
  C19. Strings are recovered from the committed trie: the string read for the node of a prefix is that prefix,
  and the search for a keyword's id returns the id, the maximum id below the keyword, and the length of the
  keyword. Both loops return.
\<close>

theorem trie_string_roundtrip:
  assumes "\<forall>w \<in> set ws. cleanString w \<noteq> []" "length ws + 5 \<le> 0xFFFF0000"
  shows "\<exists>is t. buildTrie mem ws = Some (is, t) \<and> (\<forall>w \<in> set ws.
    (\<forall>p. prefix p (cleanString w) \<longrightarrow> getTrieNode t (root_readview t) p \<bind> getPrefixString t (root_readview t) = Some p)
    \<and> (\<exists>i hi. wordId t (cleanString w) = Some i \<and> prefixRange t (cleanString w) = Some (i, hi)
        \<and> getKeywordMinMaxIdLength t i = Some (i, hi, length (cleanString w))))"
proof -
  let ?ks = "keywordsOf ws"
  obtain "is" t where t: "buildTrie mem ws = Some (is, t)" "indexed t ?ks" "set ?ks = cleanString ` set ws" "distinct ?ks"
      "length ?ks + 5 \<le> 0xFFFF0000"
    using buildTrie_indexed [OF assms] by blast
  have "getTrieNode t (root_readview t) p \<bind> getPrefixString t (root_readview t) = Some p"
    if "w \<in> set ws" "prefix p (cleanString w)" for w p
    by (rule getPrefixString_indexed [OF t(2,5)]) (use that t(3) in \<open>auto simp: below_def\<close>)
  moreover have "\<exists>i hi. wordId t (cleanString w) = Some i \<and> prefixRange t (cleanString w) = Some (i, hi)
      \<and> getKeywordMinMaxIdLength t i = Some (i, hi, length (cleanString w))" if "w \<in> set ws" for w
    by (rule getKeywordMinMaxIdLength_indexed [OF t(2,5)]) (use that t(3) in simp)
  ultimately show ?thesis using t(1) by blast
qed

theorem trie_string_roundtrip_witness:
  "\<exists>is t i hi. buildTrie 0 [[97, 98], [97]] = Some (is, t)
    \<and> getTrieNode t (root_readview t) [97, 98] \<bind> getPrefixString t (root_readview t) = Some [97, 98]
    \<and> wordId t [97] = Some i \<and> getKeywordMinMaxIdLength t i = Some (i, hi, 1)"
proof -
  have clean: "cleanString [97, 98] = [97, 98]" "cleanString [97] = [97]"
    by (simp_all add: cleanString_def TRIE_MAX_DEPTH_def TRIE_MARKER_CHARACTER_def)
  have "\<forall>w \<in> set [[97, 98], [97]]. cleanString w \<noteq> []" "length [[97 :: u32, 98], [97]] + 5 \<le> 0xFFFF0000" by (simp_all add: clean)
  from trie_string_roundtrip [OF this, of 0] show ?thesis by (fastforce simp: clean)
qed

text \<open>
  C38. A keyword of marker characters only is accepted by the test for the empty keyword and then fails: the
  cleaned keyword is empty, its path is the root alone, and the climb to the parents reads below the start of
  the path. A keyword with any other character is stored.
\<close>

theorem marker_keyword_fails:
  assumes "loaded t ks" "keyword \<noteq> []"
  shows "addKeyword mem keyword t = None \<longleftrightarrow> cleanString keyword = []"
proof
  assume "addKeyword mem keyword t = None"
  then show "cleanString keyword = []" using addKeyword_loaded [OF assms(1), of keyword mem] by (cases "cleanString keyword = []") auto
next
  assume c: "cleanString keyword = []"
  have "addKeyword_SetPrevIdNexIdByPathTrace [p] p u = None" for p u
    by (cases "setOwnDescendants p u") (simp_all add: addKeyword_SetPrevIdNexIdByPathTrace_def)
  then show "addKeyword mem keyword t = None" using assms c by (simp add: addKeyword_def loaded_def)
qed

theorem marker_keyword_fails_witness: "addKeyword 0 [TRIE_MARKER_CHARACTER] (Trie_new 0) = None"
  using marker_keyword_fails [OF Trie_new_loaded, of "[TRIE_MARKER_CHARACTER]" 0 0]
  by (simp add: cleanString_def TRIE_MAX_DEPTH_def)

end
