(* ===== verification/Edit_Distance.thy ===== *)
theory Edit_Distance
  imports Main "HOL-Library.Sublist"
begin

text \<open>
  The edit distance between two strings, by the usual recurrence on their last characters, and pivots:
  the aligned positions from which the fuzzy search computes distances. A pivot of a query s is a
  string u whose last character is aligned with a character of s; \<open>k\<close> characters of s follow it.
\<close>

section \<open>Edit distance\<close>

fun levRev :: "'a list \<Rightarrow> 'a list \<Rightarrow> nat" where
  "levRev [] ys = length ys"
| "levRev xs [] = length xs"
| "levRev (x # xs) (y # ys) =
    min (levRev xs ys + (if x = y then 0 else 1)) (min (levRev xs (y # ys) + 1) (levRev (x # xs) ys + 1))"

definition lev :: "'a list \<Rightarrow> 'a list \<Rightarrow> nat" where
  "lev xs ys = levRev (rev xs) (rev ys)"

lemma lev_Nil [simp]: "lev [] ys = length ys" "lev xs [] = length xs"
  by (simp_all add: lev_def) (cases "rev xs"; simp)+

lemma lev_snoc:
  "lev (xs @ [x]) (ys @ [y]) = min (lev xs ys + (if x = y then 0 else 1)) (min (lev xs (ys @ [y]) + 1) (lev (xs @ [x]) ys + 1))"
  by (simp add: lev_def)

lemma lev_induct [case_names left_Nil right_Nil snoc]:
  fixes P :: "'a list \<Rightarrow> 'a list \<Rightarrow> bool"
  assumes "\<And>ys. P [] ys" "\<And>xs. P xs []"
    "\<And>x xs y ys. P xs ys \<Longrightarrow> P xs (ys @ [y]) \<Longrightarrow> P (xs @ [x]) ys \<Longrightarrow> P (xs @ [x]) (ys @ [y])"
  shows "P xs ys"
proof -
  have "P (rev xs) (rev ys)" for xs ys :: "'a list"
    by (induction xs ys rule: levRev.induct) (use assms in auto)
  from this [of "rev xs" "rev ys"] show ?thesis by simp
qed

lemma lev_length: "length xs \<le> length ys + lev xs ys" "length ys \<le> length xs + lev xs ys"
  by (induction xs ys rule: lev_induct) (auto simp: lev_snoc)

lemma lev_delete: "lev (xs @ [x]) ys \<le> lev xs ys + 1"
  by (cases ys rule: rev_cases) (simp_all add: lev_snoc)

lemma lev_insert: "lev xs (ys @ [y]) \<le> lev xs ys + 1"
  by (cases xs rule: rev_cases) (simp_all add: lev_snoc)

lemma lev_match: "lev (xs @ [x]) (ys @ [x]) \<le> lev xs ys"
  by (simp add: lev_snoc)

lemma lev_append: "lev (xs @ us) (ys @ vs) \<le> lev xs ys + max (length us) (length vs)"
proof (induction us vs rule: lev_induct)
  case (left_Nil vs)
  show ?case
  proof (induction vs rule: rev_induct)
    case (snoc v vs)
    then show ?case using lev_insert [of "xs @ []" "ys @ vs" v] by simp
  qed simp
next
  case (right_Nil us)
  show ?case
  proof (induction us rule: rev_induct)
    case (snoc u us)
    then show ?case using lev_delete [of "xs @ us" u "ys @ []"] by simp
  qed simp
next
  case (snoc u us v vs)
  have "lev ((xs @ us) @ [u]) ((ys @ vs) @ [v]) \<le> lev (xs @ us) (ys @ vs) + 1" unfolding lev_snoc by (cases "u = v") (simp_all add: min_le_iff_disj)
  then show ?case using snoc(1) by simp
qed

lemma lev_0_iff: "lev xs ys = 0 \<longleftrightarrow> xs = ys"
proof (induction xs ys rule: lev_induct)
  case (snoc x xs y ys)
  then show ?case by (auto simp: lev_snoc min_def)
qed auto

section \<open>Pivots\<close>

inductive pivot :: "'a list \<Rightarrow> 'a list \<Rightarrow> nat \<Rightarrow> nat \<Rightarrow> bool" where
  start: "pivot [] [] 0 0"
| delete: "pivot s u k e \<Longrightarrow> pivot (s @ [a]) u (Suc k) e"
| match: "pivot s u k e \<Longrightarrow> pivot (s @ [a]) (u @ w @ [a]) 0 (e + max (length w) k)"

inductive_cases pivot_NilE: "pivot [] u k e"

lemma pivot_Nil: "pivot s [] (length s) 0"
  by (induction s rule: rev_induct) (auto intro: pivot.intros)

lemma pivot_lev:
  assumes "pivot s u k e"
  shows "k \<le> length s \<and> lev (take (length s - k) s) u \<le> e"
  using assms
proof induction
  case (match s u k e a w)
  have "lev (take (length s - k) s @ drop (length s - k) s) (u @ w) \<le> e + max (length w) k"
    using lev_append [of "take (length s - k) s" "drop (length s - k) s" u w] match.IH
    by (simp add: max.commute)
  then show ?case using lev_match [of s a "u @ w"] by simp
qed (auto simp: Suc_diff_le)

text \<open>Every alignment ends in a pivot: a string v splits into a pivot and a rest such that the distance
  is the distance of the pivot and the longer of the two rests.\<close>

lemma pivot_exists: "\<exists>u w k e. v = u @ w \<and> pivot s u k e \<and> e + max (length w) k \<le> lev s v"
proof (induction s v rule: lev_induct)
  case (left_Nil v)
  show ?case using pivot.start [where 'a = 'a] by (intro exI [of _ "[]"] exI [of _ v] exI [of _ 0]) simp
next
  case (right_Nil s)
  show ?case using pivot_Nil [of s] by (intro exI [of _ "[]"] exI [of _ "length s"] exI [of _ 0]) simp
next
  case (snoc a s b v)
  obtain u w k e where d: "v = u @ w" "pivot s u k e" "e + max (length w) k \<le> lev s v" using snoc(1) by blast
  obtain u2 w2 k2 e2 where d2: "v @ [b] = u2 @ w2" "pivot s u2 k2 e2" "e2 + max (length w2) k2 \<le> lev s (v @ [b])" using snoc(2) by blast
  obtain u3 w3 k3 e3 where d3: "v = u3 @ w3" "pivot (s @ [a]) u3 k3 e3" "e3 + max (length w3) k3 \<le> lev (s @ [a]) v" using snoc(3) by blast
  consider "a = b" "lev (s @ [a]) (v @ [b]) = lev s v" | "lev (s @ [a]) (v @ [b]) = lev s v + 1"
    | "lev (s @ [a]) (v @ [b]) = lev s (v @ [b]) + 1" | "lev (s @ [a]) (v @ [b]) = lev (s @ [a]) v + 1"
    using lev_snoc [of s a v b] by (cases "a = b") (auto simp: min_def split: if_splits)
  then show ?case
  proof cases
    case 1
    then show ?thesis using pivot.match [OF d(2), of a w] d
      by (intro exI [of _ "v @ [b]"] exI [of _ "[]"] exI [of _ 0] exI [of _ "e + max (length w) k"]) simp
  next
    case 2
    then show ?thesis using pivot.delete [OF d(2), of a] d
      by (intro exI [of _ u] exI [of _ "w @ [b]"] exI [of _ "Suc k"] exI [of _ e]) simp
  next
    case 3
    then show ?thesis using pivot.delete [OF d2(2), of a] d2
      by (intro exI [of _ u2] exI [of _ w2] exI [of _ "Suc k2"] exI [of _ e2]) simp
  next
    case 4
    then show ?thesis using d3 by (intro exI [of _ u3] exI [of _ "w3 @ [b]"] exI [of _ k3] exI [of _ e3]) simp
  qed
qed

end
