(* ===== verification/Active_Nodes.thy ===== *)
theory Active_Nodes
  imports Trie_Commit Edit_Distance
begin

text \<open>
  Fuzzy search on the trie, \<^verbatim>\<open>src/src/core/operation/ActiveNode.cpp\<close> and \<^verbatim>\<open>ActiveNode.h\<close>: the pivotal active
  nodes of a query, extended by one character of the query at a time, and the iterators over active nodes
  and over the keywords within a distance. The active nodes are kept in a \<^verbatim>\<open>std::map\<close> ordered by the
  address of the node; \<open>addr\<close> is the memory layout. \<open>None\<close> is a dangling pointer or a failed assertion.
\<close>

section \<open>Pivotal active nodes\<close>

definition CHARTYPE_FUZZY_UPPERBOUND :: CharType where "CHARTYPE_FUZZY_UPPERBOUND = 128"

record PivotalActiveNode =
  transformationdistance :: u32
  differ :: u16
  editdistanceofPrefix :: u16

record PrefixActiveNodeSet =
  queryPrefix :: "CharType list"
  editDistanceThreshold :: u32
  flagResultsCached :: bool
  trieRootNode :: node_ptr
  supportSwapInEditDistance :: bool
  PANMap :: "(node_ptr \<times> PivotalActiveNode) list"
  trieNodeSetVector :: "node_ptr list list"
  trieNodeSetVectorComputed :: bool

definition PANSet_init :: "CharType list \<Rightarrow> u32 \<Rightarrow> node_ptr \<Rightarrow> bool \<Rightarrow> PrefixActiveNodeSet" where
  "PANSet_init s threshold root swap = \<lparr>queryPrefix = s, editDistanceThreshold = threshold, flagResultsCached = False,
     trieRootNode = root, supportSwapInEditDistance = swap, PANMap = [], trieNodeSetVector = [], trieNodeSetVectorComputed = False\<rparr>"

definition addPAN :: "(node_ptr \<Rightarrow> nat) \<Rightarrow> node_ptr \<Rightarrow> PivotalActiveNode \<Rightarrow> PrefixActiveNodeSet \<Rightarrow> PrefixActiveNodeSet" where
  "addPAN addr node pan S =
    (if transformationdistance pan > editDistanceThreshold S then S
     else case map_of (PANMap S) node of
       Some old \<Rightarrow>
         if transformationdistance old > transformationdistance pan
           \<or> transformationdistance old = transformationdistance pan
             \<and> (differ old < differ pan \<or> editdistanceofPrefix old > editdistanceofPrefix pan)
         then S\<lparr>PANMap := map (\<lambda>(p, x). (p, if p = node then pan else x)) (PANMap S)\<rparr>
         else S
     | None \<Rightarrow> S\<lparr>PANMap := insort_key (addr \<circ> fst) (node, pan) (PANMap S), trieNodeSetVectorComputed := False\<rparr>)"

definition PANSet_new :: "(node_ptr \<Rightarrow> nat) \<Rightarrow> node_ptr \<Rightarrow> u32 \<Rightarrow> bool \<Rightarrow> PrefixActiveNodeSet" where
  "PANSet_new addr root threshold swap =
     addPAN addr root \<lparr>transformationdistance = 0, differ = 0, editdistanceofPrefix = 0\<rparr> (PANSet_init [] threshold root swap)"

text \<open>A match below a pivotal node, with \<open>gap\<close> the larger number of characters skipped.\<close>

definition matchPAN :: "PivotalActiveNode \<Rightarrow> nat \<Rightarrow> PivotalActiveNode" where
  "matchPAN pan gap = \<lparr>transformationdistance = of_nat (unat (editdistanceofPrefix pan) + gap), differ = 0,
     editdistanceofPrefix = of_nat (unat (editdistanceofPrefix pan) + gap)\<rparr>"

definition deletePAN :: "PivotalActiveNode \<Rightarrow> PivotalActiveNode" where
  "deletePAN pan = pan\<lparr>transformationdistance := transformationdistance pan + 1, differ := differ pan + 1\<rparr>"

text \<open>A child with the new character: the variable \<open>child\<close> moves on to the grandchild when a swap applies.\<close>

definition matchChild :: "(node_ptr \<Rightarrow> nat) \<Rightarrow> Trie \<Rightarrow> PrefixActiveNodeSet \<Rightarrow> PivotalActiveNode \<Rightarrow> nat \<Rightarrow> node_ptr \<Rightarrow> trie_node \<Rightarrow>
    PrefixActiveNodeSet \<Rightarrow> (node_ptr \<times> PrefixActiveNodeSet) option" where
  "matchChild addr t this pan gap child n new = do {
     let new = addPAN addr child (matchPAN pan gap) new;
     if supportSwapInEditDistance this \<and> differ pan > 0 \<and> queryPrefix this \<noteq> [] then do {
       childPosition \<leftarrow> findChildNodePosition t n (last (queryPrefix this));
       if childPosition \<ge> 0 then do {
         child \<leftarrow> nth_opt (childrenPointerList n) (nat childPosition);
         Some (child, addPAN addr child (matchPAN pan gap) new)
       } else Some (child, new)
     } else Some (child, new)
   }"

text \<open>The recursion over the descendants up to the depth limit, with the loop over the children.\<close>

function addPANUpToDepth :: "(node_ptr \<Rightarrow> nat) \<Rightarrow> Trie \<Rightarrow> PrefixActiveNodeSet \<Rightarrow> PivotalActiveNode \<Rightarrow> nat \<Rightarrow> CharType \<Rightarrow>
    nat \<Rightarrow> node_ptr \<Rightarrow> PrefixActiveNodeSet \<Rightarrow> PrefixActiveNodeSet option"
  and addPANChildren :: "(node_ptr \<Rightarrow> nat) \<Rightarrow> Trie \<Rightarrow> PrefixActiveNodeSet \<Rightarrow> PivotalActiveNode \<Rightarrow> nat \<Rightarrow> CharType \<Rightarrow>
    nat \<Rightarrow> node_ptr list \<Rightarrow> PrefixActiveNodeSet \<Rightarrow> PrefixActiveNodeSet option" where
  "addPANUpToDepth addr t this pan depthLimit c curDepth node new = do {
     n \<leftarrow> nodes t node;
     if c \<ge> CHARTYPE_FUZZY_UPPERBOUND \<or> depthLimit = 0 then do {
       childPosition \<leftarrow> findChildNodePosition t n c;
       if childPosition \<ge> 0 then do {
         child \<leftarrow> nth_opt (childrenPointerList n) (nat childPosition);
         Some (addPAN addr child (matchPAN pan (max curDepth (unat (differ pan)))) new)
       } else Some new
     } else addPANChildren addr t this pan depthLimit c curDepth (childrenPointerList n) new
   }"
| "addPANChildren addr t this pan depthLimit c curDepth [] new = Some new"
| "addPANChildren addr t this pan depthLimit c curDepth (child # children) new = do {
     n \<leftarrow> nodes t child;
     if character n \<ge> CHARTYPE_FUZZY_UPPERBOUND then Some new
     else do {
       (child, new) \<leftarrow> (if character n = c
         then matchChild addr t this pan (max curDepth (unat (differ pan))) child n new else Some (child, new));
       new \<leftarrow> (if curDepth < depthLimit
         then addPANUpToDepth addr t this pan depthLimit c (curDepth + 1) child new else Some new);
       addPANChildren addr t this pan depthLimit c curDepth children new
     }
   }"
  by pat_completeness auto
termination
  by (relation "measures [case_sum (\<lambda>(addr, t, this, pan, depthLimit, c, curDepth, rest). 2 * (depthLimit - curDepth) + 1)
      (\<lambda>(addr, t, this, pan, depthLimit, c, curDepth, rest). 2 * (depthLimit - curDepth)),
    case_sum (\<lambda>_. 0) (\<lambda>(addr, t, this, pan, depthLimit, c, curDepth, children, new). length children)]") auto

declare addPANUpToDepth.simps [simp del] addPANChildren.simps [simp del]

definition addPANSetForOneNode :: "(node_ptr \<Rightarrow> nat) \<Rightarrow> Trie \<Rightarrow> PrefixActiveNodeSet \<Rightarrow> CharType \<Rightarrow> node_ptr \<times> PivotalActiveNode \<Rightarrow>
    PrefixActiveNodeSet \<Rightarrow> PrefixActiveNodeSet option" where
  "addPANSetForOneNode addr t this c entry new = (case entry of (node, pan) \<Rightarrow>
     let new = (if c < CHARTYPE_FUZZY_UPPERBOUND then addPAN addr node (deletePAN pan) new else new);
         depthLimit = editDistanceThreshold this - ucast (editdistanceofPrefix pan)
     in addPANUpToDepth addr t this pan (unat depthLimit) c 0 node new)"

fun addPANSets :: "(node_ptr \<Rightarrow> nat) \<Rightarrow> Trie \<Rightarrow> PrefixActiveNodeSet \<Rightarrow> CharType \<Rightarrow> (node_ptr \<times> PivotalActiveNode) list \<Rightarrow>
    PrefixActiveNodeSet \<Rightarrow> PrefixActiveNodeSet option" where
  "addPANSets addr t this c [] new = Some new"
| "addPANSets addr t this c (entry # entries) new = do {
     new \<leftarrow> addPANSetForOneNode addr t this c entry new;
     addPANSets addr t this c entries new
   }"

definition computeActiveNodeSetIncrementally :: "(node_ptr \<Rightarrow> nat) \<Rightarrow> Trie \<Rightarrow> CharType \<Rightarrow> PrefixActiveNodeSet \<Rightarrow>
    PrefixActiveNodeSet option" where
  "computeActiveNodeSetIncrementally addr t c this =
     addPANSets addr t this c (PANMap this)
       (PANSet_init (queryPrefix this @ [c]) (editDistanceThreshold this) (trieRootNode this) (supportSwapInEditDistance this))"

section \<open>Keeping the best pivot\<close>

text \<open>The distances of a pivotal node as numbers, and the order in which \<open>addPAN\<close> prefers them.\<close>

definition wfPAN :: "PivotalActiveNode \<Rightarrow> bool" where
  "wfPAN x \<longleftrightarrow> unat (transformationdistance x) = unat (editdistanceofPrefix x) + unat (differ x)"

definition beats :: "PivotalActiveNode \<Rightarrow> PivotalActiveNode \<Rightarrow> bool" where
  "beats y x \<longleftrightarrow> transformationdistance y < transformationdistance x
    \<or> transformationdistance y = transformationdistance x \<and> differ x \<le> differ y"

lemma beats_refl [simp]: "beats x x"
  by (simp add: beats_def)

lemma beats_trans: "beats z y \<Longrightarrow> beats y x \<Longrightarrow> beats z x"
  by (auto simp: beats_def)

lemma beats_total: "beats x y \<or> beats y x"
  by (auto simp: beats_def)

definition panOf :: "PrefixActiveNodeSet \<Rightarrow> node_ptr \<Rightarrow> PivotalActiveNode option" where
  "panOf S = map_of (PANMap S)"

definition adds :: "(node_ptr \<Rightarrow> nat) \<Rightarrow> (node_ptr \<times> PivotalActiveNode) list \<Rightarrow> PrefixActiveNodeSet \<Rightarrow> PrefixActiveNodeSet" where
  "adds addr L S = fold (\<lambda>(p, x). addPAN addr p x) L S"

definition setOk :: "PrefixActiveNodeSet \<Rightarrow> bool" where
  "setOk S \<longleftrightarrow> distinct (map fst (PANMap S)) \<and> (\<forall>x \<in> snd ` set (PANMap S). wfPAN x \<and> transformationdistance x \<le> editDistanceThreshold S)"

lemma adds_simps [simp]: "adds addr [] S = S" "adds addr ((p, x) # L) S = adds addr L (addPAN addr p x S)"
  "adds addr (L @ M) S = adds addr M (adds addr L S)"
  by (simp_all add: adds_def)

lemma addPAN_fields [simp]:
  "queryPrefix (addPAN addr p x S) = queryPrefix S" "editDistanceThreshold (addPAN addr p x S) = editDistanceThreshold S"
  "trieRootNode (addPAN addr p x S) = trieRootNode S" "supportSwapInEditDistance (addPAN addr p x S) = supportSwapInEditDistance S"
  by (simp_all add: addPAN_def split: option.split)

lemma adds_fields [simp]:
  "queryPrefix (adds addr L S) = queryPrefix S" "editDistanceThreshold (adds addr L S) = editDistanceThreshold S"
  "trieRootNode (adds addr L S) = trieRootNode S" "supportSwapInEditDistance (adds addr L S) = supportSwapInEditDistance S"
  by (induction L arbitrary: S; force)+

lemma adds_computed: "\<not> trieNodeSetVectorComputed S \<Longrightarrow> \<not> trieNodeSetVectorComputed (adds addr L S)"
proof (induction L arbitrary: S)
  case (Cons a L)
  have "\<not> trieNodeSetVectorComputed (addPAN addr (fst a) (snd a) S)" using Cons.prems by (simp add: addPAN_def split: option.split)
  then show ?case using Cons.IH by (cases a) simp
qed simp

lemma map_of_insort_key: "k \<notin> fst ` set xs \<Longrightarrow> map_of (insort_key f (k, v) xs) = (map_of xs)(k \<mapsto> v)"
  by (induction xs) (auto simp: fun_eq_iff)

lemma map_of_change_values: "map_of (map (\<lambda>(p, x). (p, if p = k then v else x)) xs)
    = (if k \<in> fst ` set xs then (map_of xs)(k \<mapsto> v) else map_of xs)"
  by (induction xs) (auto simp: fun_eq_iff)

lemma fst_replace [simp]: "map (fst \<circ> (\<lambda>(p, x). (p, if p = k then v else x))) xs = map fst xs"
  by (induction xs) auto

lemma addPAN_replaces:
  assumes "wfPAN old" "wfPAN x"
  shows "(transformationdistance x < transformationdistance old \<or> transformationdistance old = transformationdistance x
      \<and> (differ old < differ x \<or> editdistanceofPrefix old > editdistanceofPrefix x)) \<longleftrightarrow> \<not> beats old x"
  using assms by (auto simp: wfPAN_def beats_def word_less_nat_alt word_le_nat_alt word_unat_eq_iff)

lemma addPAN_setOk:
  assumes "setOk S" "wfPAN x"
  shows "setOk (addPAN addr p x S)"
proof -
  have ins: "mset (map fst (insort_key (addr \<circ> fst) (p, x) (PANMap S))) = mset (p # map fst (PANMap S))" by simp
  have "distinct (map fst (insort_key (addr \<circ> fst) (p, x) (PANMap S)))" if "p \<notin> fst ` set (PANMap S)"
    using mset_eq_imp_distinct_iff [OF ins] that assms(1) by (simp add: setOk_def)
  then show ?thesis using assms
    by (auto simp: addPAN_def setOk_def map_of_eq_None_iff set_insort_key not_less split: option.split)
qed

lemma addPAN_panOf:
  assumes "setOk S" "wfPAN x"
  shows "panOf (addPAN addr p x S) = (if transformationdistance x \<le> editDistanceThreshold S
      then (panOf S)(p := Some (case panOf S p of None \<Rightarrow> x | Some old \<Rightarrow> if beats old x then old else x)) else panOf S)"
proof -
  show ?thesis
  proof (cases "map_of (PANMap S) p")
    case None
    moreover from this have "p \<notin> fst ` set (PANMap S)" by (simp add: map_of_eq_None_iff)
    ultimately show ?thesis by (auto simp: addPAN_def panOf_def map_of_insort_key not_le)
  next
    case (Some old)
    then have "(p, old) \<in> set (PANMap S)" by (rule map_of_SomeD)
    then have "wfPAN old" "p \<in> fst ` set (PANMap S)" using assms(1) by (force simp: setOk_def)+
    then show ?thesis using Some addPAN_replaces [of old x] assms(2) by (auto simp: addPAN_def panOf_def map_of_change_values not_le)
  qed
qed

lemma adds_setOk: "setOk S \<Longrightarrow> \<forall>x \<in> snd ` set L. wfPAN x \<Longrightarrow> setOk (adds addr L S)"
proof (induction L arbitrary: S)
  case (Cons a L)
  then show ?case by (cases a) (auto intro: addPAN_setOk)
qed simp

lemma adds_from:
  assumes "setOk S" "\<forall>x \<in> snd ` set L. wfPAN x" "panOf (adds addr L S) p = Some x"
  shows "panOf S p = Some x \<or> (p, x) \<in> set L \<and> transformationdistance x \<le> editDistanceThreshold S"
  using assms
proof (induction L arbitrary: S)
  case (Cons a L)
  obtain q y where a: "a = (q, y)" by (cases a)
  have y: "wfPAN y" using Cons.prems(2) a by simp
  show ?case using Cons.IH [OF addPAN_setOk [OF Cons.prems(1) y, of addr q]] Cons.prems(2,3) a
    by (auto simp: addPAN_panOf [OF Cons.prems(1) y] split: if_splits option.splits)
qed simp

lemma addPAN_grows:
  assumes "setOk S" "wfPAN y" "panOf S p = Some x"
  shows "\<exists>z. panOf (addPAN addr q y S) p = Some z \<and> beats z x"
proof (cases "p = q \<and> \<not> beats x y")
  case True
  then show ?thesis using assms beats_total [of x y] by (simp add: addPAN_panOf)
qed (use assms in \<open>auto simp: addPAN_panOf\<close>)

lemma adds_grows:
  assumes "setOk S" "\<forall>x \<in> snd ` set L. wfPAN x" "panOf S p = Some x"
  shows "\<exists>z. panOf (adds addr L S) p = Some z \<and> beats z x"
  using assms
proof (induction L arbitrary: S x)
  case (Cons a L)
  obtain q y where a: "a = (q, y)" by (cases a)
  have y: "wfPAN y" using Cons.prems(2) a by simp
  obtain z where z: "panOf (addPAN addr q y S) p = Some z" "beats z x" using addPAN_grows [OF Cons.prems(1) y Cons.prems(3)] by blast
  then show ?case using Cons.IH [OF addPAN_setOk [OF Cons.prems(1) y] _ z(1)] Cons.prems(2) a by (auto intro: beats_trans)
qed auto

lemma adds_takes:
  assumes "setOk S" "\<forall>x \<in> snd ` set L. wfPAN x" "(p, x) \<in> set L" "transformationdistance x \<le> editDistanceThreshold S"
  shows "\<exists>z. panOf (adds addr L S) p = Some z \<and> beats z x"
proof -
  obtain L1 L2 where L: "L = L1 @ (p, x) # L2" using assms(3) by (auto simp: in_set_conv_decomp)
  have ok: "setOk (adds addr L1 S)" "wfPAN x" "\<forall>x \<in> snd ` set L2. wfPAN x" using assms(1,2) L by (auto intro: adds_setOk)
  have "\<exists>z. panOf (addPAN addr p x (adds addr L1 S)) p = Some z \<and> beats z x"
    using ok(1,2) assms(4) beats_total by (auto simp: addPAN_panOf split: option.split)
  then obtain z where z: "panOf (addPAN addr p x (adds addr L1 S)) p = Some z" "beats z x" by blast
  then show ?thesis using adds_grows [OF addPAN_setOk [OF ok(1,2)] ok(3) z(1)] L by (auto intro: beats_trans)
qed

section \<open>The offers of one pivot\<close>

text \<open>Strings of characters that take part in the fuzzy search.\<close>

definition fuzzyChars :: "CharType list \<Rightarrow> bool" where
  "fuzzyChars s \<longleftrightarrow> (\<forall>c \<in> set s. c < CHARTYPE_FUZZY_UPPERBOUND)"

definition offers :: "CharType list set \<Rightarrow> CharType \<Rightarrow> PivotalActiveNode \<Rightarrow> nat \<Rightarrow> nat \<Rightarrow> CharType list \<Rightarrow> CharType set \<Rightarrow>
    (node_ptr \<times> PivotalActiveNode) set" where
  "offers K a pan lim cur p C = {((1, p @ w @ [a]), matchPAN pan (max (cur + length w) (unat (differ pan)))) | w.
     cur + length w \<le> lim \<and> hasNode K (p @ w @ [a]) \<and> hd (w @ [a]) \<in> C}"

lemma offers_child:
  assumes "hasNode K (p @ [c])" "cur \<le> lim"
  shows "offers K a pan lim cur p {c} = (if c = a then {((1, p @ [a]), matchPAN pan (max cur (unat (differ pan))))} else {})
    \<union> (if cur < lim then offers K a pan lim (cur + 1) (p @ [c]) UNIV else {})" (is "?l = ?r")
proof (intro set_eqI iffI)
  fix x assume "x \<in> ?l"
  then obtain w where w: "x = ((1, p @ w @ [a]), matchPAN pan (max (cur + length w) (unat (differ pan))))" "cur + length w \<le> lim"
      "hasNode K (p @ w @ [a])" "hd (w @ [a]) = c" by (auto simp: offers_def)
  then show "x \<in> ?r" by (cases w) (auto simp: offers_def)
next
  fix x assume "x \<in> ?r"
  then consider "c = a" "x = ((1, p @ [a]), matchPAN pan (max cur (unat (differ pan))))"
    | "cur < lim" "x \<in> offers K a pan lim (cur + 1) (p @ [c]) UNIV" by (auto split: if_splits)
  then show "x \<in> ?l"
  proof cases
    case 1
    then show ?thesis unfolding offers_def using assms by (auto intro!: exI [of _ "[]"])
  next
    case 2
    then obtain w where w: "x = ((1, (p @ [c]) @ w @ [a]), matchPAN pan (max (cur + 1 + length w) (unat (differ pan))))"
        "cur + 1 + length w \<le> lim" "hasNode K ((p @ [c]) @ w @ [a])" by (auto simp: offers_def)
    then show ?thesis unfolding offers_def by (auto intro!: exI [of _ "c # w"])
  qed
qed

lemma offers_Un: "offers K a pan lim cur p (C \<union> D) = offers K a pan lim cur p C \<union> offers K a pan lim cur p D"
  by (auto simp: offers_def)

lemma offers_empty [simp]: "offers K a pan lim cur p {} = {}"
  by (simp add: offers_def)

lemma offers_nexts: "offers K a pan lim cur p (nexts K p) = offers K a pan lim cur p UNIV"
proof -
  have "hd (w @ [a]) \<in> nexts K p" if "hasNode K (p @ w @ [a])" for w
  proof (cases w)
    case Nil
    then show ?thesis using that by (simp add: hasNode_next)
  next
    case (Cons c w')
    then show ?thesis using hasNode_prefix [OF that, of "p @ [c]"] by (simp add: hasNode_next)
  qed
  then show ?thesis by (auto simp: offers_def)
qed

lemma fuzzy_char: "c < CHARTYPE_FUZZY_UPPERBOUND \<Longrightarrow> (CHARTYPE_FUZZY_UPPERBOUND \<le> c) = False"
  by simp

lemma nexts_fuzzy: "\<forall>k \<in> K. fuzzyChars k \<Longrightarrow> c \<in> nexts K p \<Longrightarrow> c < CHARTYPE_FUZZY_UPPERBOUND"
  by (fastforce simp: nexts_def prefix_def fuzzyChars_def)

lemma addPANChildren_offers:
  assumes num: "numbering t ks A" and low: "\<forall>k \<in> set ks. fuzzyChars k" and noswap: "\<not> supportSwapInEditDistance this"
    and cur: "cur \<le> lim" and cs: "set cs \<subseteq> nexts (set ks) p"
    and deeper: "\<And>q N. cur < lim \<Longrightarrow> hasNode (set ks) q \<Longrightarrow>
      \<exists>L. addPANUpToDepth addr t this pan lim a (cur + 1) (1, q) N = Some (adds addr L N) \<and> set L = offers (set ks) a pan lim (cur + 1) q UNIV"
  shows "\<exists>L. addPANChildren addr t this pan lim a cur (map (\<lambda>c. (1, p @ [c])) cs) N = Some (adds addr L N)
    \<and> set L = offers (set ks) a pan lim cur p (set cs)"
  using cs
proof (induction cs arbitrary: N)
  case Nil
  show ?case by (intro exI [of _ "[]"]) (simp add: addPANChildren.simps)
next
  case (Cons c cs)
  have node: "hasNode (set ks) (p @ [c])" using Cons.prems by (simp add: hasNode_next [symmetric])
  have n: "nodes t (1, p @ [c]) = Some (idNode ks A (p @ [c]))" using num node by (simp add: numbering_def)
  have c: "c < CHARTYPE_FUZZY_UPPERBOUND" using nexts_fuzzy [OF low, of c p] Cons.prems by simp
  let ?L1 = "if c = a then [((1, p @ [a]), matchPAN pan (max cur (unat (differ pan))))] else []"
  obtain L2 where L2: "(if cur < lim then addPANUpToDepth addr t this pan lim a (cur + 1) (1, p @ [c]) (adds addr ?L1 N) else Some (adds addr ?L1 N))
      = Some (adds addr (?L1 @ L2) N)" "set L2 = (if cur < lim then offers (set ks) a pan lim (cur + 1) (p @ [c]) UNIV else {})"
    using deeper [OF _ node, of "adds addr ?L1 N"] by (cases "cur < lim") auto
  obtain L3 where L3: "addPANChildren addr t this pan lim a cur (map (\<lambda>c. (1, p @ [c])) cs) (adds addr (?L1 @ L2) N)
      = Some (adds addr ((?L1 @ L2) @ L3) N)" "set L3 = offers (set ks) a pan lim cur p (set cs)"
    using Cons by fastforce
  have "set (?L1 @ L2) = offers (set ks) a pan lim cur p {c}" unfolding offers_child [OF node cur] using L2(2) by simp
  then have "set ((?L1 @ L2) @ L3) = offers (set ks) a pan lim cur p (set (c # cs))"
    using L3(2) offers_Un [of "set ks" a pan lim cur p "{c}" "set cs"] unfolding set_append [of "?L1 @ L2" L3] by simp
  moreover have "addPANChildren addr t this pan lim a cur (map (\<lambda>c. (1, p @ [c])) (c # cs)) N = Some (adds addr ((?L1 @ L2) @ L3) N)"
    unfolding list.map(2) addPANChildren.simps(2) using n c L2(1) L3(1) noswap
    by (cases "c = a"; cases "cur < lim") (simp_all add: matchChild_def Let_def fuzzy_char)
  ultimately show ?case by blast
qed

lemma addPANUpToDepth_offers:
  assumes "numbering t ks A" "\<forall>k \<in> set ks. fuzzyChars k" "\<not> supportSwapInEditDistance this"
    "a < CHARTYPE_FUZZY_UPPERBOUND" "0 < lim" "cur \<le> lim" "hasNode (set ks) p"
  shows "\<exists>L. addPANUpToDepth addr t this pan lim a cur (1, p) N = Some (adds addr L N) \<and> set L = offers (set ks) a pan lim cur p UNIV"
  using assms(6,7)
proof (induction "lim - cur" arbitrary: cur p N rule: less_induct)
  case less
  have n: "nodes t (1, p) = Some (idNode ks A p)" using assms(1) less.prems by (simp add: numbering_def)
  have "\<exists>L. addPANChildren addr t this pan lim a cur (map (\<lambda>c. (1, p @ [c])) (sorted_list_of_set (nexts (set ks) p))) N = Some (adds addr L N)
    \<and> set L = offers (set ks) a pan lim cur p (set (sorted_list_of_set (nexts (set ks) p)))"
    by (rule addPANChildren_offers [OF assms(1,2,3) less.prems(1)]) (use less.hyps less.prems in auto)
  then show ?case using n assms(4,5)
    by (simp add: addPANUpToDepth.simps childrenOf_def offers_nexts fuzzy_char)
qed

text \<open>The search without slack goes to the child with the character.\<close>

lemma addPANUpToDepth_exact:
  assumes num: "numbering t ks A" and p: "hasNode (set ks) p" and a: "CHARTYPE_FUZZY_UPPERBOUND \<le> a \<or> lim = 0"
  shows "\<exists>L. addPANUpToDepth addr t this pan lim a 0 (1, p) N = Some (adds addr L N) \<and> set L = offers (set ks) a pan 0 0 p UNIV"
proof (cases "a \<in> nexts (set ks) p")
  case True
  then obtain i where "findChildNodePosition t (idNode ks A p) a = Some (int i)"
      "nth_opt (childrenPointerList (idNode ks A p)) i = Some (1, p @ [a])"
    using findChild_spelled(1) [OF numbering_spelled [OF num] idNode_simps(1)] by blast
  then show ?thesis using True num p a
    by (intro exI [of _ "[((1, p @ [a]), matchPAN pan (unat (differ pan)))]"])
      (auto simp: addPANUpToDepth.simps numbering_def offers_def hasNode_next)
next
  case False
  then obtain m where "findChildNodePosition t (idNode ks A p) a = Some (- int m - 1)"
    using findChild_spelled(2) [OF numbering_spelled [OF num] idNode_simps(1)] by blast
  then show ?thesis using False num p a
    by (intro exI [of _ "[]"]) (auto simp: addPANUpToDepth.simps numbering_def offers_def hasNode_next)
qed

section \<open>One more character\<close>

definition entryOffers :: "CharType list set \<Rightarrow> u32 \<Rightarrow> CharType \<Rightarrow> node_ptr \<times> PivotalActiveNode \<Rightarrow> (node_ptr \<times> PivotalActiveNode) set" where
  "entryOffers K threshold a entry = (case entry of (node, pan) \<Rightarrow> insert (node, deletePAN pan)
     (offers K a pan (unat (threshold - ucast (editdistanceofPrefix pan))) 0 (snd node) UNIV))"

text \<open>The active nodes of a set lie on the committed part of the trie.\<close>

definition onTrie :: "CharType list set \<Rightarrow> PrefixActiveNodeSet \<Rightarrow> bool" where
  "onTrie K S \<longleftrightarrow> (\<forall>node \<in> fst ` set (PANMap S). fst node = 1 \<and> hasNode K (snd node))"

lemma addPANSets_offers:
  assumes "numbering t ks A" "\<forall>k \<in> set ks. fuzzyChars k" "\<not> supportSwapInEditDistance this" "a < CHARTYPE_FUZZY_UPPERBOUND"
    "\<forall>node \<in> fst ` set E. fst node = 1 \<and> hasNode (set ks) (snd node)"
  shows "\<exists>L. addPANSets addr t this a E N = Some (adds addr L N)
    \<and> set L = (\<Union>entry \<in> set E. entryOffers (set ks) (editDistanceThreshold this) a entry)"
  using assms(5)
proof (induction E arbitrary: N)
  case Nil
  show ?case by (intro exI [of _ "[]"]) simp
next
  case (Cons entry E)
  obtain p pan where e: "entry = ((1, p), pan)" "hasNode (set ks) p" using Cons.prems by (cases entry) auto
  let ?lim = "unat (editDistanceThreshold this - ucast (editdistanceofPrefix pan))" and ?N = "addPAN addr (1, p) (deletePAN pan) N"
  have "\<exists>L. addPANUpToDepth addr t this pan ?lim a 0 (1, p) ?N = Some (adds addr L ?N) \<and> set L = offers (set ks) a pan ?lim 0 p UNIV"
    using addPANUpToDepth_exact [OF assms(1) e(2), of a ?lim] addPANUpToDepth_offers [OF assms(1,2,3,4) _ _ e(2), of ?lim 0]
    by (cases "?lim = 0") auto
  then obtain L1 where L1: "addPANSetForOneNode addr t this a entry N = Some (adds addr (((1, p), deletePAN pan) # L1) N)"
      "set L1 = offers (set ks) a pan ?lim 0 p UNIV"
    using assms(4) e(1) by (auto simp: addPANSetForOneNode_def Let_def)
  obtain L2 where L2: "addPANSets addr t this a E (adds addr (((1, p), deletePAN pan) # L1) N) = Some (adds addr ((((1, p), deletePAN pan) # L1) @ L2) N)"
      "set L2 = (\<Union>entry \<in> set E. entryOffers (set ks) (editDistanceThreshold this) a entry)"
    using Cons by fastforce
  have "set ((((1, p), deletePAN pan) # L1) @ L2) = (\<Union>entry \<in> set (entry # E). entryOffers (set ks) (editDistanceThreshold this) a entry)"
    using L1(2) L2(2) e(1) by (simp add: entryOffers_def)
  then show ?case using L1(1) L2(1) by (metis addPANSets.simps(2) bind.bind_lunit)
qed

definition small :: "PrefixActiveNodeSet \<Rightarrow> bool" where
  "small S \<longleftrightarrow> editDistanceThreshold S < 0xFFFF"

lemma wf_deletePAN:
  assumes "wfPAN x" "transformationdistance x \<le> T" "T < 0xFFFF"
  shows "wfPAN (deletePAN x)" "unat (transformationdistance (deletePAN x)) = unat (transformationdistance x) + 1"
    "unat (differ (deletePAN x)) = unat (differ x) + 1" "editdistanceofPrefix (deletePAN x) = editdistanceofPrefix x"
proof -
  have td: "unat (transformationdistance x) < 0xFFFF" using assms(2,3) by (simp add: word_le_nat_alt word_less_nat_alt)
  then have "unat (differ x) < 0xFFFF" using assms(1) by (simp add: wfPAN_def)
  then show d: "unat (transformationdistance (deletePAN x)) = unat (transformationdistance x) + 1"
      "unat (differ (deletePAN x)) = unat (differ x) + 1" "editdistanceofPrefix (deletePAN x) = editdistanceofPrefix x"
    using td by (simp_all add: deletePAN_def unat_add_lem [THEN iffD1])
  then show "wfPAN (deletePAN x)" using assms(1) by (simp add: wfPAN_def)
qed

lemma wf_matchPAN:
  assumes "unat (editdistanceofPrefix x) + gap < 2 ^ 16"
  shows "wfPAN (matchPAN x gap)" "unat (transformationdistance (matchPAN x gap)) = unat (editdistanceofPrefix x) + gap"
    "unat (editdistanceofPrefix (matchPAN x gap)) = unat (editdistanceofPrefix x) + gap" "differ (matchPAN x gap) = 0"
  using assms by (simp_all add: matchPAN_def wfPAN_def unat_of_nat del: of_nat_add)

lemma panOf_iff: "setOk S \<Longrightarrow> panOf S p = Some x \<longleftrightarrow> (p, x) \<in> set (PANMap S)"
  by (simp add: panOf_def setOk_def)

lemma panOf_wf:
  assumes "setOk S" "panOf S p = Some x"
  shows "wfPAN x" "transformationdistance x \<le> editDistanceThreshold S"
    "unat (editdistanceofPrefix x) + unat (differ x) \<le> unat (editDistanceThreshold S)"
    "unat (editDistanceThreshold S - ucast (editdistanceofPrefix x)) = unat (editDistanceThreshold S) - unat (editdistanceofPrefix x)"
proof -
  have "x \<in> snd ` set (PANMap S)" using assms(2) panOf_iff [OF assms(1), of p x] by force
  then show wf: "wfPAN x" "transformationdistance x \<le> editDistanceThreshold S" using assms(1) by (auto simp: setOk_def)
  then show le: "unat (editdistanceofPrefix x) + unat (differ x) \<le> unat (editDistanceThreshold S)" by (simp add: wfPAN_def word_le_nat_alt)
  have "unat (ucast (editdistanceofPrefix x) :: u32) = unat (editdistanceofPrefix x)" by (simp add: unsigned_ucast_eq take_bit_nat_eq_self_iff less_trans [OF unsigned_less])
  then show "unat (editDistanceThreshold S - ucast (editdistanceofPrefix x)) = unat (editDistanceThreshold S) - unat (editdistanceofPrefix x)"
    using le by (simp add: unat_sub word_le_nat_alt)
qed

lemma entryOffers_wf:
  assumes "setOk S" "small S" "panOf S q = Some y" "(p, x) \<in> entryOffers K (editDistanceThreshold S) a (q, y)"
  shows "wfPAN x"
proof -
  note y = panOf_wf [OF assms(1,3)]
  have T: "unat (editDistanceThreshold S) < 0xFFFF" using assms(2) by (simp add: small_def word_less_nat_alt)
  have "x = deletePAN y \<or> (\<exists>w :: CharType list. x = matchPAN y (max (length w) (unat (differ y)))
      \<and> length w \<le> unat (editDistanceThreshold S) - unat (editdistanceofPrefix y))"
    using assms(4) by (simp add: entryOffers_def offers_def y(4)) blast
  then consider "x = deletePAN y"
    | w :: "CharType list" where "x = matchPAN y (max (length w) (unat (differ y)))" "length w \<le> unat (editDistanceThreshold S) - unat (editdistanceofPrefix y)"
    by blast
  then show ?thesis
  proof cases
    case 1
    then show ?thesis using wf_deletePAN [OF y(1,2)] assms(2) by (simp add: small_def)
  next
    case 2
    then show ?thesis using wf_matchPAN(1) [of y "max (length w) (unat (differ y))"] y(3) T by simp
  qed
qed

lemma increment:
  assumes "numbering t ks A" "\<forall>k \<in> set ks. fuzzyChars k" "\<not> supportSwapInEditDistance S" "a < CHARTYPE_FUZZY_UPPERBOUND"
    "setOk S" "small S" "onTrie (set ks) S"
  obtains S' where "computeActiveNodeSetIncrementally addr t a S = Some S'" "setOk S'"
    "queryPrefix S' = queryPrefix S @ [a]" "editDistanceThreshold S' = editDistanceThreshold S" "\<not> supportSwapInEditDistance S'"
    "trieRootNode S' = trieRootNode S" "\<not> trieNodeSetVectorComputed S'"
    "\<And>p x. panOf S' p = Some x \<Longrightarrow> \<exists>q y. panOf S q = Some y \<and> (p, x) \<in> entryOffers (set ks) (editDistanceThreshold S) a (q, y)"
    "\<And>p x q y. panOf S q = Some y \<Longrightarrow> (p, x) \<in> entryOffers (set ks) (editDistanceThreshold S) a (q, y) \<Longrightarrow>
      transformationdistance x \<le> editDistanceThreshold S \<Longrightarrow> \<exists>z. panOf S' p = Some z \<and> beats z x"
proof -
  let ?N = "PANSet_init (queryPrefix S @ [a]) (editDistanceThreshold S) (trieRootNode S) (supportSwapInEditDistance S)"
  obtain L where L: "computeActiveNodeSetIncrementally addr t a S = Some (adds addr L ?N)"
      "set L = (\<Union>entry \<in> set (PANMap S). entryOffers (set ks) (editDistanceThreshold S) a entry)"
    using addPANSets_offers [OF assms(1-4)] assms(7) unfolding onTrie_def computeActiveNodeSetIncrementally_def by blast
  have wf: "\<forall>x \<in> snd ` set L. wfPAN x"
    unfolding L(2) using entryOffers_wf [OF assms(5,6)] panOf_iff [OF assms(5)] by fastforce
  have N: "setOk ?N" "panOf ?N p = None" for p by (simp_all add: setOk_def PANSet_init_def panOf_def)
  have T: "editDistanceThreshold ?N = editDistanceThreshold S" by (simp add: PANSet_init_def)
  show ?thesis
  proof (rule that [OF L(1) adds_setOk [OF N(1) wf]])
    fix p x assume "panOf (adds addr L ?N) p = Some x"
    then have "(p, x) \<in> set L" using adds_from [OF N(1) wf, of addr p x] N(2) [of p] by simp
    then show "\<exists>q y. panOf S q = Some y \<and> (p, x) \<in> entryOffers (set ks) (editDistanceThreshold S) a (q, y)"
      unfolding L(2) using panOf_iff [OF assms(5)] by fastforce
  next
    fix p x q y assume "panOf S q = Some y" "(p, x) \<in> entryOffers (set ks) (editDistanceThreshold S) a (q, y)"
      "transformationdistance x \<le> editDistanceThreshold S"
    then show "\<exists>z. panOf (adds addr L ?N) p = Some z \<and> beats z x"
      using adds_takes [OF N(1) wf, unfolded T] L(2) panOf_iff [OF assms(5)] by blast
  qed (use assms(3) in \<open>simp_all add: PANSet_init_def adds_computed\<close>)
qed

section \<open>Active nodes and the edit distance\<close>

definition panSound :: "CharType list \<Rightarrow> CharType list set \<Rightarrow> PrefixActiveNodeSet \<Rightarrow> bool" where
  "panSound s K S \<longleftrightarrow> (\<forall>p x. panOf S p = Some x \<longrightarrow>
     fst p = 1 \<and> hasNode K (snd p) \<and> pivot s (snd p) (unat (differ x)) (unat (editdistanceofPrefix x)))"

definition panComplete :: "CharType list \<Rightarrow> CharType list set \<Rightarrow> PrefixActiveNodeSet \<Rightarrow> bool" where
  "panComplete s K S \<longleftrightarrow> (\<forall>u k e. pivot s u k e \<and> hasNode K u \<and> e + k \<le> unat (editDistanceThreshold S) \<longrightarrow>
     (\<exists>x. panOf S (1, u) = Some x \<and> unat (editdistanceofPrefix x) \<le> e \<and> unat (transformationdistance x) \<le> e + k))"

text \<open>At most distance two, a pivot with the smaller distance is no farther from its own prefix.\<close>

lemma pivot_dominates:
  assumes "pivot s u k e" "pivot s u k' e'" "e' + k' < e + k" "e + k \<le> 2"
  shows "e' \<le> e"
proof (rule ccontr)
  assume "\<not> e' \<le> e"
  then have n: "e = 0" "e' = 1" "k' = 0" "k = 2" using assms(3,4) by auto
  then have "k \<le> length s" "lev (take (length s - 2) s) u = 0" "lev s u \<le> 1"
    using pivot_lev [OF assms(1)] pivot_lev [OF assms(2)] by auto
  then show False using n lev_0_iff [of "take (length s - 2) s" u] lev_length(1) [of s u] by auto
qed

lemma entryOffers_cases:
  assumes "setOk S" "panOf S (1, q) = Some y" "(p, x) \<in> entryOffers K (editDistanceThreshold S) a ((1, q), y)"
  obtains (delete) "p = (1, q)" "x = deletePAN y"
  | (match) w where "p = (1, q @ w @ [a])" "x = matchPAN y (max (length w) (unat (differ y)))"
      "length w + unat (editdistanceofPrefix y) \<le> unat (editDistanceThreshold S)" "hasNode K (q @ w @ [a])"
  using assms(3) panOf_wf(3) [OF assms(1,2)]
  by (fastforce simp: entryOffers_def offers_def panOf_wf(4) [OF assms(1,2)])

lemma match_offer:
  assumes "setOk S" "panOf S (1, q) = Some y" "length w + unat (editdistanceofPrefix y) \<le> unat (editDistanceThreshold S)" "hasNode K (q @ w @ [a])"
  shows "((1, q @ w @ [a]), matchPAN y (max (length w) (unat (differ y)))) \<in> entryOffers K (editDistanceThreshold S) a ((1, q), y)"
  using assms(3,4) by (auto simp: entryOffers_def offers_def panOf_wf(4) [OF assms(1,2)] intro!: exI [of _ w])

lemma step_sound:
  assumes S: "setOk S" "small S" "panSound s K S"
    and taken: "\<And>p x. panOf S' p = Some x \<Longrightarrow> \<exists>q y. panOf S q = Some y \<and> (p, x) \<in> entryOffers K (editDistanceThreshold S) a (q, y)"
  shows "panSound (s @ [a]) K S'"
  unfolding panSound_def
proof (intro allI impI)
  fix p x assume "panOf S' p = Some x"
  then obtain q y where y: "panOf S (1, q) = Some y" "(p, x) \<in> entryOffers K (editDistanceThreshold S) a ((1, q), y)"
      "hasNode K q" "pivot s q (unat (differ y)) (unat (editdistanceofPrefix y))"
    using taken S(3) unfolding panSound_def by (metis prod.collapse)
  note wf = panOf_wf [OF S(1) y(1)]
  have T: "unat (editDistanceThreshold S) < 0xFFFF" using S(2) by (simp add: small_def word_less_nat_alt)
  from S(1) y(1,2) show "fst p = 1 \<and> hasNode K (snd p) \<and> pivot (s @ [a]) (snd p) (unat (differ x)) (unat (editdistanceofPrefix x))"
  proof (cases rule: entryOffers_cases)
    case delete
    then show ?thesis using wf_deletePAN [OF wf(1,2)] S(2) y(3) pivot.delete [OF y(4), of a] by (simp add: small_def)
  next
    case (match w)
    then show ?thesis using wf_matchPAN [of y "max (length w) (unat (differ y))"] wf(3) T pivot.match [OF y(4), of a w] by simp
  qed
qed

lemma pivot_snoc_cases:
  assumes "pivot (s @ [a]) u k e"
  obtains (delete) k' where "k = Suc k'" "pivot s u k' e"
  | (match) q k' e' w where "u = q @ w @ [a]" "k = 0" "e = e' + max (length w) k'" "pivot s q k' e'"
  using assms by (cases rule: pivot.cases) auto

lemma dominated:
  assumes "setOk S" "panSound s K S" "panOf S (1, u) = Some z" "beats z x" "wfPAN x"
    "pivot s u (unat (differ x)) (unat (editdistanceofPrefix x))" "unat (transformationdistance x) \<le> 2"
  shows "unat (editdistanceofPrefix z) \<le> unat (editdistanceofPrefix x) \<and> unat (transformationdistance z) \<le> unat (transformationdistance x)"
proof -
  have z: "wfPAN z" "pivot s u (unat (differ z)) (unat (editdistanceofPrefix z))"
    using assms(2,3) panOf_wf [OF assms(1,3)] by (auto simp: panSound_def)
  then show ?thesis using pivot_dominates [OF assms(6) z(2)] assms(4,5,7)
    by (auto simp: beats_def wfPAN_def word_less_nat_alt word_le_nat_alt word_unat_eq_iff)
qed

lemma step_complete:
  assumes S: "setOk S" "editDistanceThreshold S \<le> 2" "panSound s K S" "panComplete s K S"
    and S': "setOk S'" "editDistanceThreshold S' = editDistanceThreshold S" "panSound (s @ [a]) K S'"
    and kept: "\<And>p x q y. panOf S q = Some y \<Longrightarrow> (p, x) \<in> entryOffers K (editDistanceThreshold S) a (q, y) \<Longrightarrow>
      transformationdistance x \<le> editDistanceThreshold S \<Longrightarrow> \<exists>z. panOf S' p = Some z \<and> beats z x"
  shows "panComplete (s @ [a]) K S'"
  unfolding panComplete_def S'(2)
proof (intro allI impI, elim conjE)
  fix u k e assume piv: "pivot (s @ [a]) u k e" and u: "hasNode K u" and ek: "e + k \<le> unat (editDistanceThreshold S)"
  have T: "unat (editDistanceThreshold S) \<le> 2" "editDistanceThreshold S < 0xFFFF" using S(2) by (simp_all add: word_le_nat_alt word_less_nat_alt)
  from piv show "\<exists>x. panOf S' (1, u) = Some x \<and> unat (editdistanceofPrefix x) \<le> e \<and> unat (transformationdistance x) \<le> e + k"
  proof (cases rule: pivot_snoc_cases)
    case (delete k')
    then obtain y where y: "panOf S (1, u) = Some y" "unat (editdistanceofPrefix y) \<le> e" "unat (transformationdistance y) \<le> e + k'"
      using S(4) u ek unfolding panComplete_def by fastforce
    let ?x = "deletePAN y"
    have x: "wfPAN ?x" "unat (transformationdistance ?x) \<le> e + k" "unat (editdistanceofPrefix ?x) \<le> e" "unat (transformationdistance ?x) \<le> 2"
        "transformationdistance ?x \<le> editDistanceThreshold S"
      using wf_deletePAN [OF panOf_wf(1,2) [OF S(1) y(1)] T(2)] y delete(1) ek T(1) by (simp_all add: word_le_nat_alt)
    have "pivot s u (unat (differ y)) (unat (editdistanceofPrefix y))" using S(3) y(1) by (auto simp: panSound_def)
    then have px: "pivot (s @ [a]) u (unat (differ ?x)) (unat (editdistanceofPrefix ?x))"
      using wf_deletePAN(3,4) [OF panOf_wf(1,2) [OF S(1) y(1)] T(2)] pivot.delete by simp
    obtain z where z: "panOf S' (1, u) = Some z" "beats z ?x" using kept [OF y(1) _ x(5), of "(1, u)"] by (auto simp: entryOffers_def)
    then show ?thesis using dominated [OF S'(1,3) z x(1) px x(4)] x by (intro exI [of _ z]) simp
  next
    case (match q k' e' w)
    have q: "hasNode K q" using hasNode_prefix [OF u, of q] match(1) by simp
    then obtain y where y: "panOf S (1, q) = Some y" "unat (editdistanceofPrefix y) \<le> e'" "unat (transformationdistance y) \<le> e' + k'"
      using S(4) ek match unfolding panComplete_def by fastforce
    let ?gap = "max (length w) (unat (differ y))" and ?x = "matchPAN y (max (length w) (unat (differ y)))"
    have gap: "unat (editdistanceofPrefix y) + ?gap \<le> e"
      using y(2,3) panOf_wf(1) [OF S(1) y(1)] match(3) by (simp add: wfPAN_def)
    have x: "wfPAN ?x" "unat (transformationdistance ?x) \<le> e" "unat (editdistanceofPrefix ?x) \<le> e" "unat (transformationdistance ?x) \<le> 2"
        "transformationdistance ?x \<le> editDistanceThreshold S"
      using wf_matchPAN [of y ?gap] gap ek T(1) match(2) by (simp_all add: word_le_nat_alt)
    have "pivot s q (unat (differ y)) (unat (editdistanceofPrefix y))" using S(3) y(1) by (auto simp: panSound_def)
    then have px: "pivot (s @ [a]) u (unat (differ ?x)) (unat (editdistanceofPrefix ?x))"
      using wf_matchPAN(3,4) [of y ?gap] gap ek T(1) pivot.match match(1) by simp
    have "((1, u), ?x) \<in> entryOffers K (editDistanceThreshold S) a ((1, q), y)"
      using match_offer [OF S(1) y(1)] gap ek match(1) u by simp
    then obtain z where z: "panOf S' (1, u) = Some z" "beats z ?x" using kept [OF y(1) _ x(5)] by blast
    then show ?thesis using dominated [OF S'(1,3) z x(1) px x(4)] x match(2) by (intro exI [of _ z]) simp
  qed
qed

section \<open>A whole query\<close>

text \<open>The loop that extends the active nodes by the characters of the query.\<close>

fun extendActiveNodes :: "(node_ptr \<Rightarrow> nat) \<Rightarrow> Trie \<Rightarrow> CharType list \<Rightarrow> PrefixActiveNodeSet \<Rightarrow> PrefixActiveNodeSet option" where
  "extendActiveNodes addr t [] S = Some S"
| "extendActiveNodes addr t (c # cs) S = do {
     S \<leftarrow> computeActiveNodeSetIncrementally addr t c S;
     extendActiveNodes addr t cs S
   }"

definition activeFor :: "CharType list \<Rightarrow> CharType list set \<Rightarrow> u32 \<Rightarrow> PrefixActiveNodeSet \<Rightarrow> bool" where
  "activeFor s K T S \<longleftrightarrow> setOk S \<and> \<not> supportSwapInEditDistance S \<and> panSound s K S \<and> (T \<le> 2 \<longrightarrow> panComplete s K S)
    \<and> queryPrefix S = s \<and> editDistanceThreshold S = T"

lemma PANSet_new_fields: "\<not> trieNodeSetVectorComputed (PANSet_new addr root T swap)" "trieRootNode (PANSet_new addr root T swap) = root"
  by (simp_all add: PANSet_new_def PANSet_init_def addPAN_def)

lemma PANSet_new_active: "activeFor [] K T (PANSet_new addr (1, []) T False)"
proof -
  let ?S = "PANSet_new addr (1, []) T False" and ?x = "\<lparr>transformationdistance = 0, differ = 0, editdistanceofPrefix = 0\<rparr>"
  have N: "setOk (PANSet_init [] T (1, []) False)" "wfPAN ?x" by (simp_all add: setOk_def PANSet_init_def wfPAN_def)
  have "panOf ?S = [(1, []) \<mapsto> ?x]" using addPAN_panOf [OF N, of addr "(1, [])"]
    by (simp add: PANSet_new_def PANSet_init_def panOf_def)
  moreover have "pivot [] u k e \<Longrightarrow> u = [] \<and> k = 0 \<and> e = 0" for u :: "CharType list" and k e by (elim pivot_NilE) auto
  moreover have "setOk ?S" unfolding PANSet_new_def by (rule addPAN_setOk [OF N])
  ultimately show ?thesis
    by (auto simp: activeFor_def panSound_def panComplete_def hasNode_def pivot.start PANSet_new_def PANSet_init_def)
qed

lemma step_active:
  assumes "numbering t ks A" "\<forall>k \<in> set ks. fuzzyChars k" "a < CHARTYPE_FUZZY_UPPERBOUND" "T < 0xFFFF" "activeFor s (set ks) T S"
  shows "\<exists>S'. computeActiveNodeSetIncrementally addr t a S = Some S' \<and> activeFor (s @ [a]) (set ks) T S'
    \<and> trieRootNode S' = trieRootNode S \<and> \<not> trieNodeSetVectorComputed S'"
proof -
  have S: "setOk S" "\<not> supportSwapInEditDistance S" "panSound s (set ks) S" "T \<le> 2 \<Longrightarrow> panComplete s (set ks) S"
      "editDistanceThreshold S = T" "queryPrefix S = s" "small S" using assms(4,5) by (auto simp: activeFor_def small_def)
  have on: "onTrie (set ks) S" using S(3) panOf_iff [OF S(1)] by (fastforce simp: onTrie_def panSound_def)
  obtain S' where S': "computeActiveNodeSetIncrementally addr t a S = Some S'" "setOk S'"
    "queryPrefix S' = queryPrefix S @ [a]" "editDistanceThreshold S' = editDistanceThreshold S" "\<not> supportSwapInEditDistance S'"
    "trieRootNode S' = trieRootNode S" "\<not> trieNodeSetVectorComputed S'"
    "\<And>p x. panOf S' p = Some x \<Longrightarrow> \<exists>q y. panOf S q = Some y \<and> (p, x) \<in> entryOffers (set ks) (editDistanceThreshold S) a (q, y)"
    "\<And>p x q y. panOf S q = Some y \<Longrightarrow> (p, x) \<in> entryOffers (set ks) (editDistanceThreshold S) a (q, y) \<Longrightarrow>
      transformationdistance x \<le> editDistanceThreshold S \<Longrightarrow> \<exists>z. panOf S' p = Some z \<and> beats z x"
    by (rule increment [OF assms(1,2) S(2) assms(3) S(1,7) on]) blast
  have sound: "panSound (s @ [a]) (set ks) S'" by (rule step_sound [OF S(1,7,3) S'(8)])
  moreover have "panComplete (s @ [a]) (set ks) S'" if "T \<le> 2"
    by (rule step_complete [OF S(1) _ S(3) S(4) [OF that] S'(2,4) sound S'(9)]) (use that S(5) in simp)
  ultimately show ?thesis using S'(1-7) S(5,6) by (simp add: activeFor_def)
qed

lemma extend_active:
  assumes "numbering t ks A" "\<forall>k \<in> set ks. fuzzyChars k" "T < 0xFFFF" "fuzzyChars cs" "activeFor s (set ks) T S"
  shows "\<exists>S'. extendActiveNodes addr t cs S = Some S' \<and> activeFor (s @ cs) (set ks) T S'
    \<and> trieRootNode S' = trieRootNode S \<and> (S' = S \<or> \<not> trieNodeSetVectorComputed S')"
  using assms(4,5)
proof (induction cs arbitrary: s S)
  case (Cons c cs)
  obtain S1 where S1: "computeActiveNodeSetIncrementally addr t c S = Some S1" "activeFor (s @ [c]) (set ks) T S1" "trieRootNode S1 = trieRootNode S"
      "\<not> trieNodeSetVectorComputed S1"
    using step_active [OF assms(1,2) _ assms(3) Cons.prems(2), of c] Cons.prems(1) by (auto simp: fuzzyChars_def)
  then show ?case using Cons.IH [OF _ S1(2)] Cons.prems(1) by (auto simp: fuzzyChars_def)
qed simp

text \<open>What the active nodes of a query say about distances.\<close>

lemma active_pivot:
  assumes "activeFor s K T S" "panOf S p = Some x"
  shows "p = (1, snd p)" "hasNode K (snd p)" "pivot s (snd p) (unat (differ x)) (unat (editdistanceofPrefix x))" "wfPAN x"
    "unat (transformationdistance x) \<le> unat T"
  using assms panOf_wf [of S p x] unfolding activeFor_def panSound_def word_le_nat_alt by (metis prod.collapse)+

lemma active_rest_lev:
  assumes "activeFor s K T S" "panOf S p = Some x"
  shows "lev s (snd p @ w) \<le> max (unat (transformationdistance x)) (unat (editdistanceofPrefix x) + length w)"
proof -
  note p = active_pivot [OF assms]
  let ?k = "unat (differ x)"
  have "lev (take (length s - ?k) s @ drop (length s - ?k) s) (snd p @ w) \<le> lev (take (length s - ?k) s) (snd p) + max ?k (length w)"
    using lev_append [of "take (length s - ?k) s" "drop (length s - ?k) s" "snd p" w] pivot_lev [OF p(3)] by simp
  then show ?thesis using pivot_lev [OF p(3)] p(4) by (auto simp: wfPAN_def max_def split: if_splits)
qed

lemma active_lev:
  assumes "activeFor s K T S" "panOf S p = Some x"
  shows "lev s (snd p) \<le> unat (transformationdistance x)"
  using active_rest_lev [OF assms, of "[]"] active_pivot(4) [OF assms] by (simp add: wfPAN_def)

lemma active_covers:
  assumes "activeFor s K T S" "T \<le> 2" "hasNode K v" "lev s v \<le> unat T"
  obtains u w x where "v = u @ w" "panOf S (1, u) = Some x"
    "max (unat (transformationdistance x)) (unat (editdistanceofPrefix x) + length w) \<le> lev s v"
proof -
  obtain u w k e where p: "v = u @ w" "pivot s u k e" "e + max (length w) k \<le> lev s v" using pivot_exists [of v s] by blast
  have "hasNode K u" using hasNode_prefix [OF assms(3), of u] p(1) by simp
  then obtain x where "panOf S (1, u) = Some x" "unat (editdistanceofPrefix x) \<le> e" "unat (transformationdistance x) \<le> e + k"
    using assms(1,2,4) p by (fastforce simp: activeFor_def panComplete_def)
  then show ?thesis using that [of u w x] p by (auto simp: max_def split: if_splits)
qed

end
