(* ===== verification/Active_Iterators.thy ===== *)
theory Active_Iterators
  imports Active_Nodes Record_Stream
begin

text \<open>
  The iterators over a set of active nodes, \<^verbatim>\<open>src/src/core/operation/ActiveNode.h\<close>: the active nodes by ascending
  distance, and the keywords within a distance of the query, for complete and for prefix terms.
\<close>

section \<open>Active nodes by distance\<close>

fun pushByDistance :: "(node_ptr \<times> PivotalActiveNode) list \<Rightarrow> node_ptr list list \<Rightarrow> node_ptr list list option" where
  "pushByDistance [] v = Some v"
| "pushByDistance ((node, pan) # entries) v =
    (let d = unat (transformationdistance pan) in
     if d < length v then pushByDistance entries (v[d := v ! d @ [node]]) else None)"

definition computeTrieNodeSetVector :: "PrefixActiveNodeSet \<Rightarrow> PrefixActiveNodeSet option" where
  "computeTrieNodeSetVector S =
    (if trieNodeSetVectorComputed S then Some S
     else do {
       v \<leftarrow> pushByDistance (PANMap S) (replicate (unat (editDistanceThreshold S + 1)) []);
       Some (S\<lparr>trieNodeSetVector := v, trieNodeSetVectorComputed := True\<rparr>)
     })"

definition getTrieNodeSetVector :: "PrefixActiveNodeSet \<Rightarrow> (node_ptr list list \<times> PrefixActiveNodeSet) option" where
  "getTrieNodeSetVector S =
    (if trieNodeSetVectorComputed S then Some (trieNodeSetVector S, S)
     else do { S \<leftarrow> computeTrieNodeSetVector S; Some (trieNodeSetVector S, S) })"

definition getEditdistanceofPrefix :: "node_ptr \<Rightarrow> PrefixActiveNodeSet \<Rightarrow> u16 option" where
  "getEditdistanceofPrefix node S = map_option editdistanceofPrefix (map_of (PANMap S) node)"

record ActiveNodeSetIterator =
  levels :: "node_ptr list list"
  edUpperBound :: nat
  editDistanceCursor :: nat
  offsetCursor :: nat

text \<open>The loops that skip empty vectors; \<^verbatim>\<open>vector::at\<close> fails outside the vector.\<close>

function skipEmptyLevels :: "node_ptr list list \<Rightarrow> nat \<Rightarrow> nat \<Rightarrow> nat option" where
  "skipEmptyLevels v bound d =
    (if d \<le> bound then do { l \<leftarrow> nth_opt v d; if l = [] then skipEmptyLevels v bound (d + 1) else Some d } else Some d)"
  by auto
termination by (relation "measure (\<lambda>(v, bound, d). Suc bound - d)") auto

declare skipEmptyLevels.simps [simp del]

definition ActiveNodeSetIterator_new :: "PrefixActiveNodeSet \<Rightarrow> nat \<Rightarrow> (ActiveNodeSetIterator \<times> PrefixActiveNodeSet) option" where
  "ActiveNodeSetIterator_new S bound = do {
     (v, S) \<leftarrow> getTrieNodeSetVector S;
     if bound < length v then do {
       d \<leftarrow> skipEmptyLevels v bound 0;
       Some (\<lparr>levels = v, edUpperBound = bound, editDistanceCursor = d, offsetCursor = 0\<rparr>, S)
     } else None
   }"

definition iter_isDone :: "ActiveNodeSetIterator \<Rightarrow> bool option" where
  "iter_isDone it =
    (if editDistanceCursor it \<le> edUpperBound it
     then do { l \<leftarrow> nth_opt (levels it) (editDistanceCursor it); Some (\<not> offsetCursor it < length l) } else Some True)"

definition iter_next :: "ActiveNodeSetIterator \<Rightarrow> ActiveNodeSetIterator option" where
  "iter_next it = do {
     finished \<leftarrow> iter_isDone it;
     if finished then Some it
     else do {
       let it = it\<lparr>offsetCursor := offsetCursor it + 1\<rparr>;
       l \<leftarrow> nth_opt (levels it) (editDistanceCursor it);
       if offsetCursor it < length l then Some it
       else do {
         d \<leftarrow> skipEmptyLevels (levels it) (edUpperBound it) (editDistanceCursor it + 1);
         Some (it\<lparr>editDistanceCursor := d, offsetCursor := 0\<rparr>)
       }
     }
   }"

definition iter_getItem :: "ActiveNodeSetIterator \<Rightarrow> (node_ptr option \<times> nat) option" where
  "iter_getItem it = do {
     finished \<leftarrow> iter_isDone it;
     if finished then Some (None, 0)
     else do {
       l \<leftarrow> nth_opt (levels it) (editDistanceCursor it);
       node \<leftarrow> nth_opt l (offsetCursor it);
       Some (Some node, editDistanceCursor it)
     }
   }"

fun sumSizes :: "node_ptr list list \<Rightarrow> nat \<Rightarrow> nat option" where
  "sumSizes v 0 = Some 0"
| "sumSizes v (Suc i) = do { s \<leftarrow> sumSizes v i; l \<leftarrow> nth_opt v i; Some (s + length l) }"

definition iter_size :: "ActiveNodeSetIterator \<Rightarrow> nat option" where
  "iter_size it = sumSizes (levels it) (edUpperBound it)"

text \<open>The head of the loops of the clients: test, item, advance.\<close>

definition activeStep :: "ActiveNodeSetIterator \<Rightarrow> ((node_ptr \<times> nat) option \<times> ActiveNodeSetIterator) option" where
  "activeStep it = do {
     finished \<leftarrow> iter_isDone it;
     if finished then Some (None, it)
     else do {
       (node, distance) \<leftarrow> iter_getItem it;
       node \<leftarrow> node;
       it \<leftarrow> iter_next it;
       Some (Some (node, distance), it)
     }
   }"

section \<open>Keywords of a complete term\<close>

text \<open>The maps ordered by \<^verbatim>\<open>TrieNodePreOrderComparator\<close>: by minimum id, then by descending maximum id.
  Nodes with the same ids are the same key.\<close>

definition preOrderKey :: "Trie \<Rightarrow> node_ptr \<Rightarrow> (u32 \<times> u32) option" where
  "preOrderKey t p = do { n \<leftarrow> nodes t p; lo \<leftarrow> getMinId t n; hi \<leftarrow> getMaxId t n; Some (lo, hi) }"

fun preOrderLess :: "u32 \<times> u32 \<Rightarrow> u32 \<times> u32 \<Rightarrow> bool" where
  "preOrderLess (lo1, hi1) (lo2, hi2) \<longleftrightarrow> lo1 < lo2 \<or> lo1 = lo2 \<and> hi1 > hi2"

fun alterPreOrder :: "Trie \<Rightarrow> node_ptr \<Rightarrow> (nat option \<Rightarrow> nat) \<Rightarrow> (node_ptr \<times> nat) list \<Rightarrow> (node_ptr \<times> nat) list option" where
  "alterPreOrder t node f [] = Some [(node, f None)]"
| "alterPreOrder t node f ((other, d) # m) = do {
     k \<leftarrow> preOrderKey t node;
     k' \<leftarrow> preOrderKey t other;
     if preOrderLess k k' then Some ((node, f None) # (other, d) # m)
     else if preOrderLess k' k then do { m \<leftarrow> alterPreOrder t node f m; Some ((other, d) # m) }
     else Some ((other, f (Some d)) # m)
   }"

definition minOr :: "nat \<Rightarrow> nat option \<Rightarrow> nat" where
  "minOr d old = (case old of None \<Rightarrow> d | Some e \<Rightarrow> min d e)"

text \<open>The recursion on the children visits a list of nodes from left to right.\<close>

function computeTerminalNodesWithinDistance :: "Trie \<Rightarrow> nat \<Rightarrow> nat \<Rightarrow> nat \<Rightarrow> node_ptr list \<Rightarrow> (node_ptr \<times> nat) list \<Rightarrow>
    (node_ptr \<times> nat) list option" where
  "computeTerminalNodesWithinDistance t bound editDistance panDistance [] m = Some m"
| "computeTerminalNodesWithinDistance t bound editDistance panDistance (node # rest) m = do {
     n \<leftarrow> nodes t node;
     m \<leftarrow> (if isTerminal n then alterPreOrder t node (minOr (max editDistance panDistance)) m else Some m);
     m \<leftarrow> (if panDistance < bound
       then computeTerminalNodesWithinDistance t bound editDistance (panDistance + 1) (childrenPointerList n) m else Some m);
     computeTerminalNodesWithinDistance t bound editDistance panDistance rest m
   }"
  by pat_completeness auto
termination by (relation "measures [\<lambda>(t, bound, e, d, ps, m). bound - d, \<lambda>(t, bound, e, d, ps, m). length ps]") auto

declare computeTerminalNodesWithinDistance.simps [simp del]

definition completeItem :: "Trie \<Rightarrow> nat \<Rightarrow> PrefixActiveNodeSet \<Rightarrow> node_ptr \<times> nat \<Rightarrow> (node_ptr \<times> nat) list \<Rightarrow> (node_ptr \<times> nat) list option" where
  "completeItem t bound S item m = (case item of (node, distance) \<Rightarrow> do {
     panDistance \<leftarrow> getEditdistanceofPrefix node S;
     computeTerminalNodesWithinDistance t bound distance (unat panDistance) [node] m
   })"

definition LeafNodeSetIteratorForComplete_init :: "Trie \<Rightarrow> PrefixActiveNodeSet \<Rightarrow> nat \<Rightarrow> ((node_ptr \<times> nat) list \<times> PrefixActiveNodeSet) option" where
  "LeafNodeSetIteratorForComplete_init t S bound = do {
     (it, S) \<leftarrow> ActiveNodeSetIterator_new S bound;
     m \<leftarrow> consume activeStep (completeItem t bound S) it [];
     Some (m, S)
   }"

section \<open>Keywords of a prefix term\<close>

text \<open>Active nodes in pre-order, each key with the smallest distance.\<close>

definition collectActive :: "Trie \<Rightarrow> node_ptr \<times> nat \<Rightarrow> (node_ptr \<times> nat) list \<Rightarrow> (node_ptr \<times> nat) list option" where
  "collectActive t item m = (case item of (node, distance) \<Rightarrow> alterPreOrder t node (minOr distance) m)"

type_synonym leaf_item = "node_ptr \<times> node_ptr \<times> nat"

text \<open>The traversal with a stack of nodes, each with the active node that its distance comes from. \<open>waiting\<close>
  are the active nodes from \<open>nextActiveNode\<close> on.\<close>

partial_function (option) leafLoop :: "Trie \<Rightarrow> ((node_ptr \<times> nat) \<times> node_ptr) list \<Rightarrow> (node_ptr \<times> nat) list \<Rightarrow> leaf_item list \<Rightarrow>
    ((node_ptr \<times> nat) list \<times> leaf_item list) option" where
  "leafLoop t stack waiting result =
    (case stack of [] \<Rightarrow> Some (waiting, result)
     | (previous, current) # stack \<Rightarrow> do {
         let (previous, waiting) = (case waiting of
             (node, d) # rest \<Rightarrow> if current = node then (if d \<le> snd previous then (node, d) else previous, rest) else (previous, waiting)
           | [] \<Rightarrow> (previous, waiting));
         n \<leftarrow> nodes t current;
         let result = (if isTerminal n then result @ [(fst previous, current, snd previous)] else result);
         leafLoop t (map (Pair previous) (childrenPointerList n) @ stack) waiting result
       })"

declare leafLoop.simps [code]

partial_function (option) leafRounds :: "Trie \<Rightarrow> (node_ptr \<times> nat) list \<Rightarrow> leaf_item list \<Rightarrow> leaf_item list option" where
  "leafRounds t waiting result =
    (case waiting of [] \<Rightarrow> Some result
     | active # waiting \<Rightarrow> do {
         (waiting, result) \<leftarrow> leafLoop t [(active, fst active)] waiting result;
         leafRounds t waiting result
       })"

declare leafRounds.simps [code]

definition LeafNodeSetIteratorForPrefix_init :: "Trie \<Rightarrow> PrefixActiveNodeSet \<Rightarrow> nat \<Rightarrow> (leaf_item list \<times> PrefixActiveNodeSet) option" where
  "LeafNodeSetIteratorForPrefix_init t S bound = do {
     (it, S) \<leftarrow> ActiveNodeSetIterator_new S bound;
     activeNodes \<leftarrow> consume activeStep (collectActive t) it [];
     result \<leftarrow> leafRounds t activeNodes [];
     Some (result, S)
   }"

section \<open>The iterator over active nodes\<close>

definition levelsOf :: "PrefixActiveNodeSet \<Rightarrow> node_ptr list list" where
  "levelsOf S = map (\<lambda>d. map fst (filter (\<lambda>(p, x). unat (transformationdistance x) = d) (PANMap S))) [0..<unat (editDistanceThreshold S) + 1]"

lemma pushByDistance_levels:
  assumes "\<forall>x \<in> snd ` set E. unat (transformationdistance x) < length v"
  shows "pushByDistance E v = Some (map (\<lambda>d. v ! d @ map fst (filter (\<lambda>(p, x). unat (transformationdistance x) = d) E)) [0..<length v])"
  using assms
proof (induction E arbitrary: v)
  case Nil
  show ?case by (simp add: map_nth)
next
  case (Cons e E)
  obtain p x where e: "e = (p, x)" by (cases e)
  let ?d = "unat (transformationdistance x)"
  have split: "map (\<lambda>d. v[?d := v ! ?d @ [p]] ! d @ map fst (filter (\<lambda>(p, x). unat (transformationdistance x) = d) E)) [0..<length v]
    = map (\<lambda>d. v ! d @ map fst (filter (\<lambda>(p, x). unat (transformationdistance x) = d) (e # E))) [0..<length v]"
    using Cons.prems e by (intro map_cong) (auto simp: nth_list_update)
  have "pushByDistance (e # E) v = pushByDistance E (v[?d := v ! ?d @ [p]])" using Cons.prems e by (simp add: Let_def)
  then show ?case unfolding split [symmetric] using Cons.IH [of "v[?d := v ! ?d @ [p]]"] Cons.prems by simp
qed

definition vectorOk :: "PrefixActiveNodeSet \<Rightarrow> bool" where
  "vectorOk S \<longleftrightarrow> (trieNodeSetVectorComputed S \<longrightarrow> trieNodeSetVector S = levelsOf S)"

lemma getTrieNodeSetVector_levels:
  assumes "setOk S" "vectorOk S" "editDistanceThreshold S < 0xFFFF"
  shows "\<exists>S'. getTrieNodeSetVector S = Some (levelsOf S, S') \<and> PANMap S' = PANMap S \<and> editDistanceThreshold S' = editDistanceThreshold S \<and> vectorOk S'"
proof (cases "trieNodeSetVectorComputed S")
  case False
  have T: "unat (editDistanceThreshold S + 1) = unat (editDistanceThreshold S) + 1"
    using assms(3) by (subst unat_add_lem [THEN iffD1]) (simp_all add: word_less_nat_alt)
  have "unat (transformationdistance x) < Suc (unat (editDistanceThreshold S))" if "x \<in> snd ` set (PANMap S)" for x
    using assms(1) that unfolding setOk_def by (fastforce simp: word_le_nat_alt less_Suc_eq_le)
  then have "pushByDistance (PANMap S) (replicate (Suc (unat (editDistanceThreshold S))) []) = Some (levelsOf S)"
    by (subst pushByDistance_levels) (auto simp: levelsOf_def nth_Cons' simp del: upt_Suc replicate_Suc intro!: map_cong)
  then show ?thesis using False T by (simp add: getTrieNodeSetVector_def computeTrieNodeSetVector_def vectorOk_def levelsOf_def)
qed (use assms in \<open>simp add: getTrieNodeSetVector_def vectorOk_def\<close>)

definition levelItems :: "node_ptr list list \<Rightarrow> nat \<Rightarrow> nat \<Rightarrow> (node_ptr \<times> nat) list" where
  "levelItems v bound d = concat (map (\<lambda>d. map (\<lambda>p. (p, d)) (v ! d)) [d..<Suc bound])"

definition iterRemaining :: "ActiveNodeSetIterator \<Rightarrow> (node_ptr \<times> nat) list" where
  "iterRemaining it = drop (offsetCursor it) (levelItems (levels it) (edUpperBound it) (editDistanceCursor it))"

definition iterOk :: "ActiveNodeSetIterator \<Rightarrow> bool" where
  "iterOk it \<longleftrightarrow> edUpperBound it < length (levels it)
    \<and> (editDistanceCursor it \<le> edUpperBound it \<longrightarrow> offsetCursor it < length (levels it ! editDistanceCursor it))"

lemma levelItems_split: "d \<le> bound \<Longrightarrow> levelItems v bound d = map (\<lambda>p. (p, d)) (v ! d) @ levelItems v bound (Suc d)"
  using upt_conv_Cons [of d "Suc bound"] by (simp add: levelItems_def del: upt_Suc)

lemma levelItems_end: "bound < d \<Longrightarrow> levelItems v bound d = []"
  by (simp add: levelItems_def)

lemma skipEmptyLevels_items:
  assumes "bound < length v"
  shows "\<exists>d'. skipEmptyLevels v bound d = Some d' \<and> levelItems v bound d' = levelItems v bound d \<and> (d' \<le> bound \<longrightarrow> v ! d' \<noteq> [])"
proof (induction "Suc bound - d" arbitrary: d rule: less_induct)
  case less
  show ?case
  proof (cases "d \<le> bound \<and> v ! d = []")
    case True
    then have "levelItems v bound (Suc d) = levelItems v bound d" using levelItems_split [of d bound v] by simp
    moreover have "Suc bound - Suc d < Suc bound - d" using True by (simp add: Suc_diff_le)
    ultimately show ?thesis using less.hyps [of "Suc d"] True assms
      by (subst skipEmptyLevels.simps) (simp add: nth_opt_def)
  next
    case False
    then show ?thesis using assms by (subst skipEmptyLevels.simps) (auto simp: nth_opt_def)
  qed
qed

lemma iter_isDone_ok: "iterOk it \<Longrightarrow> iter_isDone it = Some (edUpperBound it < editDistanceCursor it)"
  by (auto simp: iterOk_def iter_isDone_def nth_opt_def)

lemma iterRemaining_Cons:
  assumes "iterOk it" "editDistanceCursor it \<le> edUpperBound it"
  shows "iterRemaining it = (levels it ! editDistanceCursor it ! offsetCursor it, editDistanceCursor it)
    # (map (\<lambda>p. (p, editDistanceCursor it)) (drop (Suc (offsetCursor it)) (levels it ! editDistanceCursor it))
       @ levelItems (levels it) (edUpperBound it) (Suc (editDistanceCursor it)))"
proof -
  have off: "offsetCursor it < length (levels it ! editDistanceCursor it)" using assms by (simp add: iterOk_def)
  show ?thesis using off unfolding iterRemaining_def levelItems_split [OF assms(2)]
    by (simp add: drop_map Cons_nth_drop_Suc [symmetric])
qed

lemma iter_next_ok:
  assumes "iterOk it" "editDistanceCursor it \<le> edUpperBound it"
  shows "\<exists>it'. iter_next it = Some it' \<and> iterOk it' \<and> iterRemaining it' = tl (iterRemaining it)"
proof -
  let ?d = "editDistanceCursor it" and ?o = "offsetCursor it" and ?v = "levels it" and ?b = "edUpperBound it"
  have ok: "?b < length ?v" "?o < length (?v ! ?d)" using assms by (simp_all add: iterOk_def)
  have go: "iter_next it = (if Suc ?o < length (?v ! ?d) then Some (it\<lparr>offsetCursor := Suc ?o\<rparr>)
      else skipEmptyLevels ?v ?b (Suc ?d) \<bind> (\<lambda>d. Some (it\<lparr>editDistanceCursor := d, offsetCursor := 0\<rparr>)))"
    using iter_isDone_ok [OF assms(1)] assms ok by (simp add: iter_next_def nth_opt_def Let_def)
  show ?thesis
  proof (cases "Suc ?o < length (?v ! ?d)")
    case True
    then show ?thesis using go ok assms(2) iterRemaining_Cons [OF assms]
      by (simp add: iterOk_def iterRemaining_def levelItems_split [OF assms(2)] drop_map)
  next
    case False
    obtain d' where "skipEmptyLevels ?v ?b (Suc ?d) = Some d'" "levelItems ?v ?b d' = levelItems ?v ?b (Suc ?d)" "d' \<le> ?b \<longrightarrow> ?v ! d' \<noteq> []"
      using skipEmptyLevels_items [OF ok(1)] by blast
    then show ?thesis using go False ok iterRemaining_Cons [OF assms] by (simp add: iterOk_def iterRemaining_def)
  qed
qed

interpretation activeItems: record_stream activeStep id iterRemaining iterOk
proof
  fix it :: ActiveNodeSetIterator
  assume ok: "iterOk it"
  note finished = iter_isDone_ok [OF ok]
  have some: "iterRemaining it \<noteq> []" if "editDistanceCursor it \<le> edUpperBound it" using iterRemaining_Cons [OF ok that] by simp
  show "\<exists>it'. activeStep it = Some (None, it') \<and> iterOk it' \<and> iterRemaining it' = []" if "iterRemaining it = []"
    using that some ok finished by (cases "editDistanceCursor it \<le> edUpperBound it") (auto simp: activeStep_def)
  fix v vs assume v: "iterRemaining it = v # vs"
  have at: "editDistanceCursor it \<le> edUpperBound it"
    by (rule ccontr) (use v in \<open>simp add: iterRemaining_def levelItems_end\<close>)
  have "iter_getItem it = Some (Some (levels it ! editDistanceCursor it ! offsetCursor it), editDistanceCursor it)"
    using ok at finished by (simp add: iter_getItem_def iterOk_def nth_opt_def)
  moreover obtain it' where "iter_next it = Some it'" "iterOk it'" "iterRemaining it' = tl (iterRemaining it)"
    using iter_next_ok [OF ok at] by blast
  ultimately show "\<exists>x it'. activeStep it = Some (Some x, it') \<and> id x = v \<and> iterOk it' \<and> iterRemaining it' = vs"
    using finished at v iterRemaining_Cons [OF ok at] by (intro exI [of _ v] exI [of _ it']) (simp add: activeStep_def)
qed

definition activeWithin :: "PrefixActiveNodeSet \<Rightarrow> nat \<Rightarrow> (node_ptr \<times> nat) list" where
  "activeWithin S bound = levelItems (levelsOf S) bound 0"

lemma ActiveNodeSetIterator_new_ok:
  assumes "setOk S" "vectorOk S" "editDistanceThreshold S < 0xFFFF" "bound \<le> unat (editDistanceThreshold S)"
  shows "\<exists>it S'. ActiveNodeSetIterator_new S bound = Some (it, S') \<and> iterOk it \<and> iterRemaining it = activeWithin S bound
    \<and> PANMap S' = PANMap S \<and> vectorOk S'"
proof -
  obtain S' where S': "getTrieNodeSetVector S = Some (levelsOf S, S')" "PANMap S' = PANMap S" "vectorOk S'"
    using getTrieNodeSetVector_levels [OF assms(1,2,3)] by blast
  have b: "bound < length (levelsOf S)" using assms(4) by (simp add: levelsOf_def)
  then show ?thesis using skipEmptyLevels_items [OF b, of 0] S'
    by (auto simp: ActiveNodeSetIterator_new_def iterOk_def iterRemaining_def activeWithin_def)
qed

lemma activeWithin_iff:
  assumes "setOk S" "bound \<le> unat (editDistanceThreshold S)"
  shows "(p, d) \<in> set (activeWithin S bound) \<longleftrightarrow> d \<le> bound \<and> (\<exists>x. panOf S p = Some x \<and> unat (transformationdistance x) = d)"
proof -
  have "levelsOf S ! d = map fst (filter (\<lambda>(p, x). unat (transformationdistance x) = d) (PANMap S))" if "d \<le> bound" for d
    using that assms(2) by (simp add: levelsOf_def del: upt_Suc)
  then show ?thesis using panOf_iff [OF assms(1), of p]
    by (cases p) (auto simp: activeWithin_def levelItems_def image_iff less_Suc_eq_le simp del: upt_Suc)
qed

lemma levelItems_sorted: "sorted (map snd (levelItems v bound d)) \<and> (\<forall>x \<in> set (levelItems v bound d). d \<le> snd x)"
proof (induction "Suc bound - d" arbitrary: d)
  case 0
  then show ?case by (simp add: levelItems_end)
next
  case (Suc n)
  then have d: "d \<le> bound" "n = Suc bound - Suc d" by simp_all
  have "sorted (map snd (map (\<lambda>p. (p, d)) ps))" for ps :: "node_ptr list" by (induction ps) auto
  then show ?case using Suc.hyps(1) [OF d(2)] unfolding levelItems_split [OF d(1)]
    by (fastforce simp: sorted_append dest: Suc_leD)
qed

lemma activeWithin_distinct:
  assumes "setOk S" "bound \<le> unat (editDistanceThreshold S)"
  shows "distinct (activeWithin S bound)"
proof -
  have "distinct (levelItems (levelsOf S) bound d)" for d
  proof (induction "Suc bound - d" arbitrary: d)
    case 0
    then show ?case by (simp add: levelItems_end)
  next
    case (Suc n)
    then have d: "d \<le> bound" "n = Suc bound - Suc d" by simp_all
    have "levelsOf S ! d = map fst (filter (\<lambda>(p, x). unat (transformationdistance x) = d) (PANMap S))"
      using d(1) assms(2) by (simp add: levelsOf_def del: upt_Suc)
    moreover have "distinct (map fst (filter Q (PANMap S)))" for Q using assms(1) by (simp add: setOk_def distinct_map_filter)
    ultimately have "distinct (map (\<lambda>p. (p, d)) (levelsOf S ! d))" by (simp add: distinct_map inj_on_def)
    moreover have "\<forall>x \<in> set (levelItems (levelsOf S) bound (Suc d)). Suc d \<le> snd x" using levelItems_sorted by blast
    ultimately show ?case using Suc.hyps(1) [OF d(2)] unfolding levelItems_split [OF d(1)] by fastforce
  qed
  then show ?thesis by (simp add: activeWithin_def)
qed

text \<open>
  The iterator over the active nodes hands out, in ascending order of distance, exactly the active nodes
  within the bound, each once and with its distance, and then ends.
\<close>

theorem active_iterator_by_distance:
  assumes "setOk S" "vectorOk S" "editDistanceThreshold S < 0xFFFF" "bound \<le> unat (editDistanceThreshold S)"
  shows "\<exists>it S' items. ActiveNodeSetIterator_new S bound = Some (it, S')
    \<and> (\<forall>n \<ge> length items. drain activeStep n it = Some items) \<and> sorted (map snd items) \<and> distinct items
    \<and> (\<forall>p d. (p, d) \<in> set items \<longleftrightarrow> d \<le> bound \<and> (\<exists>x. map_of (PANMap S) p = Some x \<and> unat (transformationdistance x) = d))"
proof -
  obtain it S' where it: "ActiveNodeSetIterator_new S bound = Some (it, S')" "iterOk it" "iterRemaining it = activeWithin S bound"
    using ActiveNodeSetIterator_new_ok [OF assms] by blast
  have "drain activeStep n it = Some (activeWithin S bound)" if "length (activeWithin S bound) \<le> n" for n
    using activeItems.drain_all [OF it(2)] that it(3) by auto
  then show ?thesis using it(1) activeWithin_iff [OF assms(1,4)] activeWithin_distinct [OF assms(1,4)] levelItems_sorted
    by (intro exI [of _ it] exI [of _ S'] exI [of _ "activeWithin S bound"]) (auto simp: activeWithin_def panOf_def)
qed

section \<open>Keywords within a distance\<close>

text \<open>A map from keywords to distances, in the order of the keywords.\<close>

definition leafMap :: "(CharType list \<Rightarrow> nat option) \<Rightarrow> (node_ptr \<times> nat) list" where
  "leafMap M = map (\<lambda>k. ((1, k), the (M k))) (sorted_list_of_set (dom M))"

definition nodeKey :: "CharType list list \<Rightarrow> CharType list \<Rightarrow> u32 \<times> u32" where
  "nodeKey ks p = (keywordId ks (least (set ks) p), keywordId ks (greatest (set ks) p))"

lemma preOrderKey_indexed:
  assumes "indexed t ks" "below (set ks) p \<noteq> {}"
  shows "preOrderKey t (1, p) = Some (nodeKey ks p)"
  using assms range_numbering [of t ks p] by (simp add: preOrderKey_def indexed_def numbering_def hasNode_def nodeKey_def)

lemma preOrder_keywords:
  assumes "distinct ks" "length ks + 5 \<le> 0xFFFF0000" "k \<in> set ks" "k' \<in> set ks"
  shows "preOrderLess (nodeKey ks k) (nodeKey ks k') \<longleftrightarrow> k < k'"
proof (cases k k' rule: linorder_cases)
  case equal
  then show ?thesis by (simp add: nodeKey_def)
next
  case less
  then have "keywordId ks k < keywordId ks k'" using keywordId_mono [OF assms] by simp
  then show ?thesis using less assms(3,4) by (simp add: nodeKey_def least_terminal)
next
  case greater
  then have "keywordId ks k' < keywordId ks k" using keywordId_mono [OF assms(1,2,4,3)] by simp
  then show ?thesis using greater assms(3,4) by (auto simp: nodeKey_def least_terminal)
qed

lemma alterPreOrder_list:
  assumes "indexed t ks" "length ks + 5 \<le> 0xFFFF0000" "k \<in> set ks" "set L \<subseteq> set ks" "sorted_wrt (<) L"
  shows "alterPreOrder t (1, k) f (map (\<lambda>k. ((1, k), D k)) L) = Some (map (\<lambda>x. ((1, x), (D(k := f (if k \<in> set L then Some (D k) else None))) x))
    (if k \<in> set L then L else insort k L))"
  using assms(4,5)
proof (induction L)
  case (Cons l L)
  have "below (set ks) k \<noteq> {}" "below (set ks) l \<noteq> {}" "distinct ks" "l \<in> set ks"
    using assms(1,3) Cons.prems(1) by (auto simp: below_def indexed_def keywordsOk_def)
  then have key: "preOrderKey t (1, k) = Some (nodeKey ks k)" "preOrderKey t (1, l) = Some (nodeKey ks l)"
      "preOrderLess (nodeKey ks k) (nodeKey ks l) \<longleftrightarrow> k < l" "preOrderLess (nodeKey ks l) (nodeKey ks k) \<longleftrightarrow> l < k"
    using preOrder_keywords assms(2,3) preOrderKey_indexed [OF assms(1)] by auto
  have L: "\<forall>k' \<in> set L. l < k'" "sorted_wrt (<) L" using Cons.prems(2) by simp_all
  consider "k < l" | "k = l" | "l < k" by (cases k l rule: linorder_cases) auto
  then show ?case
  proof cases
    case 1
    then have "k \<notin> set (l # L)" using L(1) by (auto dest: less_asym)
    moreover from this have "map (\<lambda>x. ((1, x), (D(k := f None)) x)) (l # L) = map (\<lambda>k. ((1, k), D k)) (l # L)" by auto
    ultimately show ?thesis using 1 key L(1) by (simp add: less_imp_le)
  next
    case 2
    then have "k \<notin> set L" using L(1) by auto
    then show ?thesis using 2 key by auto
  next
    case 3
    then show ?thesis using key Cons.IH L Cons.prems(1) by (auto dest: less_asym)
  qed
qed simp

lemma alterPreOrder_leafMap:
  assumes "indexed t ks" "length ks + 5 \<le> 0xFFFF0000" "k \<in> set ks" "dom M \<subseteq> set ks"
  shows "alterPreOrder t (1, k) f (leafMap M) = Some (leafMap (M(k \<mapsto> f (M k))))"
proof -
  have fin: "finite (dom M)" using assms(4) finite_subset by blast
  let ?L = "sorted_list_of_set (dom M)"
  have L: "set ?L \<subseteq> set ks" "sorted_wrt (<) ?L" "set ?L = dom M" using fin assms(4) by auto
  have "(if k \<in> set ?L then Some (the (M k)) else None) = M k" using L(3) by (auto simp: domIff)
  moreover have "(if k \<in> set ?L then ?L else insort k ?L) = sorted_list_of_set (dom (M(k \<mapsto> f (M k))))"
  proof (cases "k \<in> dom M")
    case True
    then have "dom (M(k \<mapsto> f (M k))) = dom M" by auto
    then show ?thesis using True L(3) by simp
  qed (use fin in \<open>simp add: domIff\<close>)
  ultimately have "alterPreOrder t (1, k) f (leafMap M)
      = Some (map (\<lambda>x. ((1, x), ((\<lambda>k. the (M k))(k := f (M k))) x)) (sorted_list_of_set (dom (M(k \<mapsto> f (M k))))))"
    using alterPreOrder_list [OF assms(1,2,3) L(1,2), of f "\<lambda>k. the (M k)"] unfolding leafMap_def by simp
  moreover have "((\<lambda>k. the (M k))(k := f (M k))) = (\<lambda>x. the ((M(k \<mapsto> f (M k))) x))" by auto
  ultimately show ?thesis unfolding leafMap_def by metis
qed

text \<open>The keywords that the traversal reaches from nodes of one depth.\<close>

definition reached :: "CharType list set \<Rightarrow> CharType list set \<Rightarrow> nat \<Rightarrow> nat \<Rightarrow> nat \<Rightarrow> CharType list \<Rightarrow> bool" where
  "reached K P depth d bound k \<longleftrightarrow> k \<in> K \<and> (\<exists>p \<in> P. prefix p k) \<and> (length k = depth \<or> d + (length k - depth) \<le> bound)"

definition reachMap :: "CharType list set \<Rightarrow> nat \<Rightarrow> nat \<Rightarrow> nat \<Rightarrow> nat \<Rightarrow> CharType list set \<Rightarrow> (CharType list \<Rightarrow> nat option) \<Rightarrow> CharType list \<Rightarrow> nat option" where
  "reachMap K e depth d bound P M k = (if reached K P depth d bound k then Some (minOr (max e (d + (length k - depth))) (M k)) else M k)"

lemma reached_split:
  assumes "length p = depth"
  shows "reached K {p} depth d bound k \<longleftrightarrow> k = p \<and> p \<in> K \<or> d < bound \<and> reached K {p @ [c] | c. c \<in> nexts K p} (Suc depth) (Suc d) bound k"
proof
  assume r: "reached K {p} depth d bound k"
  show "k = p \<and> p \<in> K \<or> d < bound \<and> reached K {p @ [c] | c. c \<in> nexts K p} (Suc depth) (Suc d) bound k"
  proof (cases "k = p")
    case False
    then obtain c where c: "prefix (p @ [c]) k" using r prefix_next [of p k] by (auto simp: reached_def)
    then have "length p < length k" by (auto dest: prefix_length_le)
    then show ?thesis using r c assms by (auto simp: reached_def nexts_def)
  qed (use r in \<open>simp add: reached_def\<close>)
next
  assume "k = p \<and> p \<in> K \<or> d < bound \<and> reached K {p @ [c] | c. c \<in> nexts K p} (Suc depth) (Suc d) bound k"
  then show "reached K {p} depth d bound k"
  proof (elim disjE conjE)
    assume b: "d < bound" and r: "reached K {p @ [c] | c. c \<in> nexts K p} (Suc depth) (Suc d) bound k"
    then obtain c where "prefix (p @ [c]) k" "k \<in> K" by (auto simp: reached_def)
    moreover from this have "prefix p k" "length p < length k" by (auto dest: prefix_length_le append_prefixD)
    ultimately show ?thesis using r b assms by (auto simp: reached_def)
  qed (use assms in \<open>simp add: reached_def\<close>)
qed

lemma reachMap_empty [simp]: "reachMap K e depth d bound {} M = M"
  by (simp add: reachMap_def reached_def fun_eq_iff)

lemma reachMap_dom: "dom M \<subseteq> K \<Longrightarrow> dom (reachMap K e depth d bound P M) \<subseteq> K"
  by (fastforce simp: reachMap_def reached_def dom_def subset_iff split: if_splits)

lemma reachMap_node:
  assumes "length p = depth"
  shows "reachMap K e depth d bound {p} M = (let M1 = if p \<in> K then M(p \<mapsto> minOr (max e d) (M p)) else M
    in if d < bound then reachMap K e (Suc depth) (Suc d) bound {p @ [c] | c. c \<in> nexts K p} M1 else M1)"
proof
  fix k
  have longer: "depth < length k" if "reached K {p @ [c] | c. c \<in> nexts K p} (Suc depth) (Suc d) bound k"
    using that assms by (auto simp: reached_def dest: prefix_length_le)
  show "reachMap K e depth d bound {p} M k = (let M1 = if p \<in> K then M(p \<mapsto> minOr (max e d) (M p)) else M
    in if d < bound then reachMap K e (Suc depth) (Suc d) bound {p @ [c] | c. c \<in> nexts K p} M1 else M1) k"
    using longer assms unfolding reachMap_def reached_split [OF assms] by (cases "k = p") (auto simp: Let_def Suc_diff_Suc)
qed

lemma reachMap_insert:
  assumes "length p = depth" "p \<notin> P" "\<forall>q \<in> P. length q = depth"
  shows "reachMap K e depth d bound P (reachMap K e depth d bound {p} M) = reachMap K e depth d bound (insert p P) M"
proof
  fix k
  have "p = q" if "prefix p k" "prefix q k" "q \<in> P" for q
    using that assms by (auto simp: prefix_def)
  then have "\<not> (reached K {p} depth d bound k \<and> reached K P depth d bound k)" using assms(2) by (auto simp: reached_def)
  moreover have "reached K (insert p P) depth d bound k \<longleftrightarrow> reached K {p} depth d bound k \<or> reached K P depth d bound k"
    by (auto simp: reached_def)
  ultimately show "reachMap K e depth d bound P (reachMap K e depth d bound {p} M) k = reachMap K e depth d bound (insert p P) M k"
    by (auto simp: reachMap_def)
qed

lemma terminals_reach:
  assumes idx: "indexed t ks" "length ks + 5 \<le> 0xFFFF0000"
    and ps: "\<forall>p \<in> set ps. hasNode (set ks) p \<and> length p = depth" "distinct ps" "dom M \<subseteq> set ks"
  shows "computeTerminalNodesWithinDistance t bound e d (map (Pair 1) ps) (leafMap M)
    = Some (leafMap (reachMap (set ks) e depth d bound (set ps) M))"
  using ps
proof (induction "bound - d" arbitrary: d depth ps M rule: less_induct)
  case less
  from less.prems show ?case
  proof (induction ps arbitrary: M)
    case Nil
    show ?case by (simp add: computeTerminalNodesWithinDistance.simps)
  next
    case (Cons p ps)
    let ?K = "set ks" and ?cs = "map (\<lambda>c. p @ [c]) (sorted_list_of_set (nexts (set ks) p))"
    have num: "numbering t ks (finalIds ks)" "keywordsOk ks" using idx(1) by (simp_all add: indexed_def)
    have p: "hasNode ?K p" "length p = depth" using Cons.prems by simp_all
    have n: "nodes t (1, p) = Some (idNode ks (finalIds ks) p)" using num(1) p(1) by (simp add: numbering_def)
    define M1 where "M1 = (if p \<in> ?K then M(p \<mapsto> minOr (max e d) (M p)) else M)"
    have M1: "(if isTerminal (idNode ks (finalIds ks) p) then alterPreOrder t (1, p) (minOr (max e d)) (leafMap M) else Some (leafMap M))
        = Some (leafMap M1)" "dom M1 \<subseteq> ?K"
      using isTerminal_idNode [OF num(2) p(1)] alterPreOrder_leafMap [OF idx _ Cons.prems(3)] Cons.prems(3) by (auto simp: M1_def)
    define M2 where "M2 = (if d < bound then reachMap ?K e (Suc depth) (Suc d) bound (set ?cs) M1 else M1)"
    have "(if d < bound then computeTerminalNodesWithinDistance t bound e (d + 1) (childrenOf ?K p) (leafMap M1) else Some (leafMap M1))
        = Some (leafMap M2)"
    proof (cases "d < bound")
      case True
      have "computeTerminalNodesWithinDistance t bound e (Suc d) (map (Pair 1) ?cs) (leafMap M1)
          = Some (leafMap (reachMap ?K e (Suc depth) (Suc d) bound (set ?cs) M1))"
        by (rule less.hyps) (use True M1(2) p(2) in \<open>auto simp: hasNode_next distinct_map inj_on_def\<close>)
      then show ?thesis using True by (simp add: M2_def childrenOf_def o_def)
    qed (simp add: M2_def)
    moreover have "M2 = reachMap ?K e depth d bound {p} M"
    proof -
      have "set ?cs = {p @ [c] | c. c \<in> nexts ?K p}" by auto
      then show ?thesis unfolding reachMap_node [OF p(2)] M2_def M1_def by (simp add: Let_def)
    qed
    moreover have "reachMap ?K e depth d bound (set ps) (reachMap ?K e depth d bound {p} M) = reachMap ?K e depth d bound (set (p # ps)) M"
      using reachMap_insert [of p depth "set ps"] Cons.prems by simp
    moreover have "computeTerminalNodesWithinDistance t bound e d (map (Pair 1) ps) (leafMap (reachMap ?K e depth d bound {p} M))
        = Some (leafMap (reachMap ?K e depth d bound (set ps) (reachMap ?K e depth d bound {p} M)))"
      by (rule Cons.IH) (use Cons.prems reachMap_dom [OF Cons.prems(3)] in auto)
    ultimately show ?case using n M1(1) unfolding list.map(2) computeTerminalNodesWithinDistance.simps(2)
      by (cases "d < bound") simp_all
  qed
qed

text \<open>The distance of a descendant of an active node as the traversal computes it.\<close>

definition restDistance :: "PivotalActiveNode \<Rightarrow> CharType list \<Rightarrow> nat" where
  "restDistance x w = max (unat (transformationdistance x)) (unat (editdistanceofPrefix x) + length w)"

definition offersDistance :: "PrefixActiveNodeSet \<Rightarrow> CharType list set \<Rightarrow> nat \<Rightarrow> (node_ptr \<times> nat) set \<Rightarrow> CharType list \<Rightarrow> nat \<Rightarrow> bool" where
  "offersDistance S K bound I k v \<longleftrightarrow> k \<in> K \<and> (\<exists>u w x. k = u @ w \<and> panOf S (1, u) = Some x
     \<and> ((1, u), unat (transformationdistance x)) \<in> I \<and> restDistance x w = v \<and> v \<le> bound)"

lemma completeItem_reach:
  assumes idx: "indexed t ks" "length ks + 5 \<le> 0xFFFF0000"
    and x: "panOf S (1, u) = Some x" "wfPAN x" "hasNode (set ks) u" "unat (transformationdistance x) \<le> bound" "dom M \<subseteq> set ks"
  shows "\<exists>M'. completeItem t bound S ((1, u), unat (transformationdistance x)) (leafMap M) = Some (leafMap M') \<and> dom M' \<subseteq> set ks
    \<and> (\<forall>k. M' k = (if \<exists>w. k = u @ w \<and> k \<in> set ks \<and> restDistance x w \<le> bound
        then Some (minOr (restDistance x (drop (length u) k)) (M k)) else M k))"
proof -
  let ?e = "unat (editdistanceofPrefix x)" and ?d = "unat (transformationdistance x)"
  let ?M = "reachMap (set ks) ?d (length u) ?e bound {u} M"
  have "?e \<le> bound" using x(2,4) by (simp add: wfPAN_def)
  then have "?M k = (if \<exists>w. k = u @ w \<and> k \<in> set ks \<and> restDistance x w \<le> bound
        then Some (minOr (restDistance x (drop (length u) k)) (M k)) else M k)" for k
    using x(4) by (auto simp: reachMap_def reached_def restDistance_def prefix_def)
  moreover have "completeItem t bound S ((1, u), ?d) (leafMap M) = Some (leafMap ?M)"
    using terminals_reach [OF idx, of "[u]" "length u" M bound ?d ?e] x by (simp add: completeItem_def getEditdistanceofPrefix_def panOf_def)
  ultimately show ?thesis using reachMap_dom [OF x(5)] by blast
qed

lemma complete_items:
  assumes idx: "indexed t ks" "length ks + 5 \<le> 0xFFFF0000" and act: "activeFor s (set ks) T S"
    and I: "\<forall>(p, d) \<in> set I. d \<le> bound \<and> (\<exists>x. panOf S p = Some x \<and> unat (transformationdistance x) = d)" and M: "dom M \<subseteq> set ks"
  shows "\<exists>M'. foldItems (completeItem t bound S) I (leafMap M) = Some (leafMap M') \<and> dom M' \<subseteq> set ks
    \<and> (\<forall>k v. M' k = Some v \<longrightarrow> M k = Some v \<or> offersDistance S (set ks) bound (set I) k v)
    \<and> (\<forall>k v. M k = Some v \<or> offersDistance S (set ks) bound (set I) k v \<longrightarrow> (\<exists>v'. M' k = Some v' \<and> v' \<le> v))"
  using I M
proof (induction I arbitrary: M)
  case Nil
  then show ?case by (auto simp: offersDistance_def)
next
  case (Cons item I)
  obtain u x where item: "item = ((1, u), unat (transformationdistance x))" "panOf S (1, u) = Some x" "unat (transformationdistance x) \<le> bound"
    using Cons.prems(1) active_pivot(1) [OF act] by (cases item) fastforce
  note a = active_pivot [OF act item(2), unfolded snd_conv]
  obtain M1 where M1: "completeItem t bound S item (leafMap M) = Some (leafMap M1)" "dom M1 \<subseteq> set ks"
      "\<And>k. M1 k = (if \<exists>w. k = u @ w \<and> k \<in> set ks \<and> restDistance x w \<le> bound
        then Some (minOr (restDistance x (drop (length u) k)) (M k)) else M k)"
    using completeItem_reach [OF idx item(2) a(4) a(2) item(3) Cons.prems(2)] unfolding item(1) by blast
  have rest: "\<forall>(p, d) \<in> set I. d \<le> bound \<and> (\<exists>x. panOf S p = Some x \<and> unat (transformationdistance x) = d)"
    using Cons.prems(1) by simp
  obtain M' where M': "foldItems (completeItem t bound S) I (leafMap M1) = Some (leafMap M')" "dom M' \<subseteq> set ks"
      "\<And>k v. M' k = Some v \<Longrightarrow> M1 k = Some v \<or> offersDistance S (set ks) bound (set I) k v"
      "\<And>k v. M1 k = Some v \<or> offersDistance S (set ks) bound (set I) k v \<Longrightarrow> \<exists>v'. M' k = Some v' \<and> v' \<le> v"
    using Cons.IH [OF rest M1(2)] by blast
  have more: "offersDistance S (set ks) bound (set (item # I)) k v \<longleftrightarrow> offersDistance S (set ks) bound (set I) k v
      \<or> (\<exists>w. k = u @ w \<and> k \<in> set ks \<and> restDistance x w = v \<and> v \<le> bound)" for k v
    using item by (auto simp: offersDistance_def)
  have "M k = Some v \<or> offersDistance S (set ks) bound (set (item # I)) k v" if "M' k = Some v" for k v
    using M'(3) [OF that] unfolding more M1(3) by (auto simp: minOr_def min_def split: if_splits option.splits)
  moreover have "\<exists>v'. M' k = Some v' \<and> v' \<le> v" if r: "M k = Some v \<or> offersDistance S (set ks) bound (set (item # I)) k v" for k v
  proof (cases "offersDistance S (set ks) bound (set I) k v")
    case False
    then have "\<exists>v1. M1 k = Some v1 \<and> v1 \<le> v" using r unfolding more M1(3) by (auto simp: minOr_def split: option.splits)
    then show ?thesis using M'(4) by (meson order_trans)
  qed (use M'(4) in blast)
  moreover have "foldItems (completeItem t bound S) (item # I) (leafMap M) = Some (leafMap M')" using M1(1) M'(1) by simp
  ultimately show ?case using M'(2) by blast
qed

lemma complete_init:
  assumes idx: "indexed t ks" "length ks + 5 \<le> 0xFFFF0000" and act: "activeFor s (set ks) T S" "vectorOk S" "T \<le> 2" "bound \<le> unat T"
  shows "\<exists>S'. LeafNodeSetIteratorForComplete_init t S bound
    = Some (map (\<lambda>k. ((1, k), lev s k)) (sorted_list_of_set {k \<in> set ks. lev s k \<le> bound}), S')"
proof -
  have S: "setOk S" "editDistanceThreshold S = T" "T < 0xFFFF" using act(1,3) by (auto simp: activeFor_def intro: le_less_trans)
  obtain it S' where it: "ActiveNodeSetIterator_new S bound = Some (it, S')" "iterOk it" "iterRemaining it = activeWithin S bound" "PANMap S' = PANMap S"
    using ActiveNodeSetIterator_new_ok [OF S(1) act(2), of bound] S act(4) by auto
  note I = activeWithin_iff [OF S(1), unfolded S(2), OF act(4)]
  have same: "completeItem t bound S' = completeItem t bound S" using it(4) by (simp add: completeItem_def getEditdistanceofPrefix_def fun_eq_iff)
  obtain M where M: "foldItems (completeItem t bound S) (activeWithin S bound) (leafMap Map.empty) = Some (leafMap M)" "dom M \<subseteq> set ks"
      "\<And>k v. M k = Some v \<Longrightarrow> offersDistance S (set ks) bound (set (activeWithin S bound)) k v"
      "\<And>k v. offersDistance S (set ks) bound (set (activeWithin S bound)) k v \<Longrightarrow> \<exists>v'. M k = Some v' \<and> v' \<le> v"
    using complete_items [OF idx act(1), of "activeWithin S bound" bound Map.empty] I by fastforce
  have lower: "k \<in> set ks \<and> v \<le> bound \<and> lev s k \<le> v" if "M k = Some v" for k v
    using M(3) [OF that] active_rest_lev [OF act(1)] by (fastforce simp: offersDistance_def restDistance_def)
  have upper: "\<exists>v. M k = Some v \<and> v \<le> lev s k" if k: "k \<in> set ks" "lev s k \<le> bound" for k
  proof -
    have "hasNode (set ks) k" "lev s k \<le> unat T" using k act(4) by (auto simp: hasNode_def below_def)
    then obtain u w x where x: "k = u @ w" "panOf S (1, u) = Some x" "restDistance x w \<le> lev s k"
      using active_covers [OF act(1,3)] unfolding restDistance_def by metis
    then have "unat (transformationdistance x) \<le> bound" using k(2) by (simp add: restDistance_def)
    then have "offersDistance S (set ks) bound (set (activeWithin S bound)) k (restDistance x w)"
      using x k I unfolding offersDistance_def by (auto intro: order_trans)
    then show ?thesis using M(4) x(3) by (meson order_trans)
  qed
  have "M k = (if k \<in> set ks \<and> lev s k \<le> bound then Some (lev s k) else None)" for k
    using lower [of k] upper [of k] by (cases "M k") (auto intro: order_trans dest: order_antisym)
  then have "leafMap M = map (\<lambda>k. ((1, k), lev s k)) (sorted_list_of_set {k \<in> set ks. lev s k \<le> bound})"
    by (auto simp: leafMap_def dom_def intro!: map_cong arg_cong [where f = sorted_list_of_set] split: if_splits)
  moreover have "consume activeStep (completeItem t bound S) it [] = foldItems (completeItem t bound S) (activeWithin S bound) []"
    using activeItems.consume_all [OF it(2), of "completeItem t bound S"] it(3) by simp
  ultimately show ?thesis using it(1) M(1) same by (simp add: LeafNodeSetIteratorForComplete_init_def leafMap_def)
qed

end
