(* ===== verification/Prefix_Leaves.thy ===== *)
theory Prefix_Leaves
  imports Active_Iterators
begin

text \<open>
  The keywords of a fuzzy prefix term: the traversal of \<^verbatim>\<open>LeafNodeSetIteratorForPrefix\<close> in
  \<^verbatim>\<open>src/src/core/operation/ActiveNode.h\<close> visits every keyword below an active node once, in
  lexicographic order, with the smallest distance of the active nodes above it.
\<close>

section \<open>Lexicographic order of subtrees\<close>

lemma less_extend:
  fixes p :: "'a::linorder list"
  shows "p < q \<Longrightarrow> \<not> prefix p q \<Longrightarrow> prefix p a \<Longrightarrow> prefix q b \<Longrightarrow> a < b"
proof (induction p arbitrary: q a b)
  case (Cons x p)
  obtain y q' where q: "q = y # q'" using Cons.prems(1) by (cases q) auto
  obtain a' where a: "a = x # a'" "prefix p a'" using Cons.prems(3) by (cases a) auto
  obtain b' where b: "b = y # b'" "prefix q' b'" using Cons.prems(4) q by (cases b) auto
  show ?case using Cons.prems(1,2) Cons.IH [OF _ _ a(2) b(2)] q a(1) b(1) by auto
qed simp

lemma sorted_partition:
  fixes us :: "'a::linorder list"
  assumes "sorted_wrt (<) us" "\<forall>a \<in> set us. \<forall>b \<in> set us. P a \<longrightarrow> \<not> P b \<longrightarrow> a < b"
  shows "us = filter P us @ filter (\<lambda>x. \<not> P x) us"
  using assms
proof (induction us)
  case (Cons u us)
  have "filter P us = []" if "\<not> P u" using Cons.prems that by (fastforce simp: filter_empty_conv dest: less_asym)
  then show ?case using Cons by (cases "P u") auto
qed simp

lemma strict_sorted_unique:
  fixes xs :: "'a::linorder list"
  shows "sorted_wrt (<) xs \<Longrightarrow> xs = sorted_list_of_set (set xs)"
  by (rule sorted_list_of_set.idem_if_sorted_distinct [symmetric]) (simp_all only: strict_sorted_iff)

section \<open>One subtree\<close>

definition entry :: "(CharType list \<Rightarrow> nat) \<Rightarrow> CharType list \<Rightarrow> node_ptr \<times> nat" where
  "entry D u = ((1, u), D u)"

text \<open>A result for keyword k: the distance is the smallest one along the path.\<close>

definition leafFor :: "nat set \<Rightarrow> CharType list \<Rightarrow> leaf_item \<Rightarrow> bool" where
  "leafFor ds k item \<longleftrightarrow> (\<exists>u d. item = ((1, u), (1, k), d) \<and> prefix u k \<and> d \<in> ds \<and> (\<forall>e \<in> ds. d \<le> e))"

definition onPath :: "(CharType list \<Rightarrow> nat) \<Rightarrow> CharType list list \<Rightarrow> CharType list \<Rightarrow> nat set" where
  "onPath D us k = D ` {u \<in> set us. prefix u k}"

lemma leafLoop_step:
  assumes num: "numbering t ks A" "keywordsOk ks" and p: "hasNode (set ks) p"
    and prev': "prev' = (if W \<noteq> [] \<and> fst (hd W) = (1, p) \<and> snd (hd W) \<le> snd prev then hd W else prev)"
    and W': "W' = (if W \<noteq> [] \<and> fst (hd W) = (1, p) then tl W else W)"
  shows "leafLoop t ((prev, (1, p)) # stack) W result
    = leafLoop t (map (Pair prev') (childrenOf (set ks) p) @ stack) W' (result @ (if p \<in> set ks then [(fst prev', (1, p), snd prev')] else []))"
proof -
  have n: "nodes t (1, p) = Some (idNode ks A p)" using num(1) p by (simp add: numbering_def)
  show ?thesis using n isTerminal_idNode [OF num(2) p] prev' W'
    by (subst leafLoop.simps) (cases W; auto simp: Let_def split: prod.splits if_splits)
qed

lemma same_length_prefix: "prefix p k \<Longrightarrow> prefix q k \<Longrightarrow> length p = length q \<Longrightarrow> p = q"
  by (auto simp: prefix_def)

lemma leafFor_min: "leafFor (insert (min a b) X) k r \<Longrightarrow> leafFor (insert a (insert b X)) k r"
  by (auto simp: leafFor_def min_def split: if_splits)

text \<open>Siblings: strings of one length, in order.\<close>

definition siblings :: "CharType list list \<Rightarrow> bool" where
  "siblings ps \<longleftrightarrow> sorted_wrt (<) ps \<and> (\<exists>m. \<forall>p \<in> set ps. length p = m)"

lemma siblings_children: "siblings (map (\<lambda>c. p @ [c]) (sorted_list_of_set (nexts K p)))"
  by (auto simp: siblings_def sorted_wrt_map)

lemma siblings_Cons: "siblings (p # ps) \<Longrightarrow> siblings ps \<and> (\<forall>q \<in> set ps. p < q \<and> \<not> prefix p q \<and> \<not> prefix q p \<and> length p = length q)"
  unfolding siblings_def by (fastforce dest: same_length_prefix [OF _ prefix_order.refl])

lemma split_subtree:
  assumes "siblings (p # ps)" "sorted_wrt (<) us" "\<forall>q \<in> set us. \<exists>p' \<in> set (p # ps). prefix p' q"
  shows "us = filter (prefix p) us @ filter (\<lambda>q. \<not> prefix p q) us" "\<forall>q \<in> set (filter (\<lambda>q. \<not> prefix p q) us). \<exists>p' \<in> set ps. prefix p' q"
proof -
  note sib = conjunct2 [OF siblings_Cons [OF assms(1)]]
  show rest: "\<forall>q \<in> set (filter (\<lambda>q. \<not> prefix p q) us). \<exists>p' \<in> set ps. prefix p' q" using assms(3) by auto
  have "a < b" if ab: "a \<in> set us" "b \<in> set us" "prefix p a" "\<not> prefix p b" for a b
  proof -
    obtain p' where "p' \<in> set ps" "prefix p' b" using assms(3) ab(2,4) by auto
    then show ?thesis using sib less_extend [of p p' a b] ab(3) by blast
  qed
  then show "us = filter (prefix p) us @ filter (\<lambda>q. \<not> prefix p q) us" by (intro sorted_partition assms(2)) blast
qed

lemma subtree_head:
  fixes p :: "'a::linorder list"
  assumes "sorted_wrt (<) us" "\<forall>q \<in> set us. prefix p q" "p \<in> set us"
  shows "us = p # tl us" "\<forall>q \<in> set (tl us). q \<noteq> p"
proof -
  obtain q qs where us: "us = q # qs" using assms(3) by (cases us) auto
  have "q = p"
  proof (rule ccontr)
    assume "q \<noteq> p"
    then have "p \<in> set qs" "prefix p q" using assms(2,3) us by auto
    then show False using assms(1) us prefix_le [of p q] by auto
  qed
  then show "us = p # tl us" "\<forall>q \<in> set (tl us). q \<noteq> p" using assms(1) us by auto
qed

lemma onPath_append: "onPath D (us @ vs) k = onPath D us k \<union> onPath D vs k"
  by (auto simp: onPath_def)

lemma onPath_empty: "\<forall>q \<in> set us. \<not> prefix q k \<Longrightarrow> onPath D us k = {}"
  by (auto simp: onPath_def)

lemma onPath_Cons: "prefix p k \<Longrightarrow> onPath D (p # us) k = insert (D p) (onPath D us k)"
  by (auto simp: onPath_def)

definition forestLeaves :: "(CharType list \<Rightarrow> nat) \<Rightarrow> CharType list set \<Rightarrow> nat \<Rightarrow> CharType list list \<Rightarrow> CharType list list \<Rightarrow> leaf_item list \<Rightarrow> bool" where
  "forestLeaves D K d0 us ps R \<longleftrightarrow> list_all2 (\<lambda>k. leafFor (insert d0 (onPath D us k)) k) (concat (map (keysBelow K) ps)) R"

lemma forestLeaves_Cons:
  assumes sib: "siblings (p # ps)" and fin: "finite K"
    and us: "us = usp @ usr" "\<forall>q \<in> set usp. prefix p q" "\<forall>q \<in> set usr. \<exists>p' \<in> set ps. prefix p' q"
    and usp: "usp = (if here then p # uspc else uspc)" "\<forall>q \<in> set uspc. q \<noteq> p"
    and d1: "d1 = (if here then min d0 (D p) else d0)"
    and own: "own = (if p \<in> K then [((1, u1), (1, p), d1)] else [])" "prefix u1 p"
    and R1: "forestLeaves D K d1 uspc (map (\<lambda>c. p @ [c]) (sorted_list_of_set (nexts K p))) R1"
    and R2: "forestLeaves D K d0 usr ps R2"
  shows "forestLeaves D K d0 us (p # ps) (own @ R1 @ R2)"
proof -
  let ?L = "\<lambda>k. leafFor (insert d0 (onPath D us k)) k" and ?cs = "concat (map (\<lambda>c. keysBelow K (p @ [c])) (sorted_list_of_set (nexts K p)))"
  note sibs = conjunct2 [OF siblings_Cons [OF sib]]
  have under: "?L k r" if k: "prefix p k" and r: "leafFor (insert d1 (onPath D uspc k)) k r" for k r
  proof -
    have "\<not> prefix q k" if q: "q \<in> set usr" for q
    proof
      assume "prefix q k"
      moreover obtain p' where "p' \<in> set ps" "prefix p' q" using us(3) q by blast
      ultimately have "prefix p' k" "p' \<in> set ps" by (auto intro: prefix_order.trans)
      then show False using same_length_prefix [OF k, of p'] sibs by auto
    qed
    then have "onPath D us k = onPath D usp k" unfolding us(1) onPath_append using onPath_empty [of usr k] by blast
    moreover have "onPath D usp k = (if here then insert (D p) (onPath D uspc k) else onPath D uspc k)"
      unfolding usp(1) using onPath_Cons [OF k, of D uspc] by simp
    ultimately show ?thesis using r d1 leafFor_min [of d0 "D p" "onPath D uspc k" k r] by (cases here) simp_all
  qed
  have "list_all2 ?L ?cs R1"
    using R1 unfolding forestLeaves_def map_map o_def
  proof (rule list.rel_mono_strong)
    fix k r assume "k \<in> set ?cs" "r \<in> set R1" "leafFor (insert d1 (onPath D uspc k)) k r"
    then show "?L k r" using under [of k r] fin by (auto simp: below_def dest: append_prefixD)
  qed
  moreover have "list_all2 ?L (concat (map (keysBelow K) ps)) R2"
    using R2 unfolding forestLeaves_def
  proof (rule list.rel_mono_strong)
    fix k r assume k: "k \<in> set (concat (map (keysBelow K) ps))" and "r \<in> set R2" and r: "leafFor (insert d0 (onPath D usr k)) k r"
    then obtain p' where "p' \<in> set ps" "prefix p' k" using fin by (auto simp: below_def)
    then have "\<not> prefix p k" using sibs same_length_prefix [of p k p'] by auto
    then have "onPath D usp k = {}" using us(2) by (intro onPath_empty) (blast intro: prefix_order.trans)
    then show "?L k r" using r unfolding us(1) onPath_append by simp
  qed
  moreover have "list_all2 ?L (if p \<in> K then [p] else []) own"
  proof -
    have "onPath D uspc p = {}" using us(2) usp by (intro onPath_empty) (auto split: if_splits dest: prefix_order.antisym)
    then have "leafFor (insert d1 (onPath D uspc p)) p ((1, u1), (1, p), d1)" using own(2) by (simp add: leafFor_def)
    then show ?thesis using under own(1) by auto
  qed
  ultimately show ?thesis unfolding forestLeaves_def by (simp add: keysBelow_split [OF fin, of p] list_all2_appendI)
qed

lemma leafLoop_forest:
  assumes num: "numbering t ks A" "keywordsOk ks"
    and ps: "siblings ps" "\<forall>p \<in> set ps. hasNode (set ks) p \<and> 128 \<le> length p + d \<and> prefix u0 p"
    and us: "sorted_wrt (<) us" "\<forall>q \<in> set us. hasNode (set ks) q \<and> (\<exists>p \<in> set ps. prefix p q)"
    and vs: "\<forall>q \<in> set vs. \<forall>p \<in> set ps. \<not> prefix p q"
  shows "\<exists>R. leafLoop t (map (Pair ((1, u0), d0)) (map (Pair 1) ps) @ stack) (map (entry D) (us @ vs)) result
      = leafLoop t stack (map (entry D) vs) (result @ R) \<and> forestLeaves D (set ks) d0 us ps R"
  using ps us vs
proof (induction d arbitrary: ps us vs u0 d0 stack result)
  case 0
  then have "ps = []" using hasNode_length [OF num(2)] by (cases ps) force+
  then show ?case using 0 by (auto simp: forestLeaves_def)
next
  case (Suc d)
  from Suc.prems show ?case
  proof (induction ps arbitrary: us vs result)
    case Nil
    then show ?case by (auto simp: forestLeaves_def)
  next
    case (Cons p ps)
    let ?K = "set ks" and ?cs = "map (\<lambda>c. p @ [c]) (sorted_list_of_set (nexts (set ks) p))"
    define usp where "usp = filter (prefix p) us"
    define usr where "usr = filter (\<lambda>q. \<not> prefix p q) us"
    define here where "here \<longleftrightarrow> p \<in> set usp"
    define uspc where "uspc = (if here then tl usp else usp)"
    have parts: "us = usp @ usr" "\<forall>q \<in> set usr. \<exists>p' \<in> set ps. prefix p' q"
      using split_subtree [OF Cons.prems(1,3)] Cons.prems(4) unfolding usp_def usr_def by auto
    have usp: "sorted_wrt (<) usp" "\<forall>q \<in> set usp. prefix p q \<and> hasNode ?K q"
      using Cons.prems(3,4) by (auto simp: usp_def intro: sorted_wrt_filter)
    have uspc: "usp = (if here then p # uspc else uspc)" "\<forall>q \<in> set uspc. q \<noteq> p" "sorted_wrt (<) uspc" "set uspc \<subseteq> set usp"
      using subtree_head [OF usp(1)] usp unfolding uspc_def here_def by (cases usp; auto)+
    have p: "hasNode ?K p" "prefix u0 p" "128 \<le> length p + Suc d" using Cons.prems(2) by auto
    have usr: "sorted_wrt (<) usr" "\<forall>q \<in> set usr. hasNode ?K q \<and> (\<exists>p \<in> set ps. prefix p q)"
      using Cons.prems(3,4) parts(2) by (auto simp: usr_def intro: sorted_wrt_filter)
    define d1 where "d1 = (if here then min d0 (D p) else d0)"
    define u1 where "u1 = (if here \<and> D p \<le> d0 then p else u0)"
    let ?own = "if p \<in> ?K then [((1, u1), (1, p), d1)] else []" and ?W = "map (entry D) (us @ vs)"
    have head: "?W \<noteq> [] \<and> fst (hd ?W) = (1, p) \<longleftrightarrow> here"
    proof (cases here)
      case False
      have "\<forall>q \<in> set (us @ vs). q \<noteq> p" using False Cons.prems(5) by (auto simp: here_def usp_def)
      then show ?thesis using False by (cases "us @ vs") (auto simp: entry_def)
    qed (use parts(1) uspc(1) in \<open>simp add: entry_def\<close>)
    have step: "leafLoop t ((((1, u0), d0), (1, p)) # map (Pair ((1, u0), d0)) (map (Pair 1) ps) @ stack) ?W result
        = leafLoop t (map (Pair ((1, u1), d1)) (map (Pair 1) ?cs) @ map (Pair ((1, u0), d0)) (map (Pair 1) ps) @ stack)
          (map (entry D) (uspc @ usr @ vs)) (result @ ?own)"
    proof -
      have prev: "((1, u1), d1) = (if ?W \<noteq> [] \<and> fst (hd ?W) = (1, p) \<and> snd (hd ?W) \<le> snd ((1, u0), d0) then hd ?W else ((1, u0), d0))"
      proof (cases here)
        case True
        then have "hd ?W = ((1, p), D p)" "?W \<noteq> []" using parts(1) uspc(1) by (simp_all add: entry_def)
        then show ?thesis using True by (simp add: u1_def d1_def)
      qed (use head in \<open>auto simp: u1_def d1_def\<close>)
      have W: "map (entry D) (uspc @ usr @ vs) = (if ?W \<noteq> [] \<and> fst (hd ?W) = (1, p) then tl ?W else ?W)"
        unfolding head using parts(1) uspc(1) by simp
      show ?thesis using leafLoop_step [OF num p(1) prev W] by (simp add: childrenOf_def o_def)
    qed
    have "\<exists>R1. leafLoop t (map (Pair ((1, u1), d1)) (map (Pair 1) ?cs) @ map (Pair ((1, u0), d0)) (map (Pair 1) ps) @ stack)
          (map (entry D) (uspc @ usr @ vs)) (result @ ?own)
        = leafLoop t (map (Pair ((1, u0), d0)) (map (Pair 1) ps) @ stack) (map (entry D) (usr @ vs)) ((result @ ?own) @ R1)
          \<and> forestLeaves D ?K d1 uspc ?cs R1"
    proof (rule Suc.IH [OF siblings_children _ uspc(3)])
      show "\<forall>q \<in> set ?cs. hasNode ?K q \<and> 128 \<le> length q + d \<and> prefix u1 q"
        using p by (auto simp: hasNode_next u1_def)
      show "\<forall>q \<in> set uspc. hasNode ?K q \<and> (\<exists>c \<in> set ?cs. prefix c q)"
      proof
        fix q assume q: "q \<in> set uspc"
        then have "prefix p q" "q \<noteq> p" "hasNode ?K q" using usp(2) uspc(2,4) by auto
        moreover from this obtain c where "prefix (p @ [c]) q" using prefix_next [of p q] by blast
        ultimately show "hasNode ?K q \<and> (\<exists>c \<in> set ?cs. prefix c q)"
          using hasNode_prefix [of ?K q "p @ [c]"] by (auto simp: hasNode_next)
      qed
      show "\<forall>q \<in> set (usr @ vs). \<forall>c \<in> set ?cs. \<not> prefix c q"
        using Cons.prems(5) by (auto simp: usr_def dest: append_prefixD)
    qed
    then obtain R1 where R1: "leafLoop t (map (Pair ((1, u1), d1)) (map (Pair 1) ?cs) @ map (Pair ((1, u0), d0)) (map (Pair 1) ps) @ stack)
          (map (entry D) (uspc @ usr @ vs)) (result @ ?own)
        = leafLoop t (map (Pair ((1, u0), d0)) (map (Pair 1) ps) @ stack) (map (entry D) (usr @ vs)) ((result @ ?own) @ R1)"
        "forestLeaves D ?K d1 uspc ?cs R1" by blast
    obtain R2 where R2: "leafLoop t (map (Pair ((1, u0), d0)) (map (Pair 1) ps) @ stack) (map (entry D) (usr @ vs)) ((result @ ?own) @ R1)
        = leafLoop t stack (map (entry D) vs) (((result @ ?own) @ R1) @ R2)" "forestLeaves D ?K d0 usr ps R2"
      using Cons.IH [OF _ _ usr, of vs "(result @ ?own) @ R1"] siblings_Cons [OF Cons.prems(1)] Cons.prems(2,5) by auto
    have "prefix u1 p" using p(2) by (simp add: u1_def)
    then have "forestLeaves D ?K d0 us (p # ps) (?own @ R1 @ R2)"
      using usp(2) by (intro forestLeaves_Cons [OF Cons.prems(1) _ parts(1) _ parts(2) uspc(1,2) d1_def refl _ R1(2) R2(2)]) auto
    then show ?case using step R1(1) R2(1) by (intro exI [of _ "?own @ R1 @ R2"]) simp
  qed
qed

section \<open>All rounds\<close>

definition keysUnder :: "CharType list set \<Rightarrow> CharType list list \<Rightarrow> CharType list list" where
  "keysUnder K us = sorted_list_of_set {k \<in> K. \<exists>u \<in> set us. prefix u k}"

lemma set_keysUnder [simp]: "finite K \<Longrightarrow> set (keysUnder K us) = {k \<in> K. \<exists>u \<in> set us. prefix u k}"
  by (simp add: keysUnder_def)

lemma keysUnder_Cons:
  assumes "finite K" "\<forall>q \<in> set vs. u < q \<and> \<not> prefix u q" "\<forall>q \<in> set us. prefix u q"
  shows "keysUnder K (u # us @ vs) = keysBelow K u @ keysUnder K vs"
proof -
  have "a < b" if "a \<in> below K u" "b \<in> set (keysUnder K vs)" for a b
    using that assms(1,2) less_extend [of u _ a b] by (auto simp: below_def)
  then have "sorted_wrt (<) (keysBelow K u @ keysUnder K vs)"
    using assms(1) by (auto simp: sorted_wrt_append keysBelow_def keysUnder_def)
  moreover have "set (keysBelow K u @ keysUnder K vs) = {k \<in> K. \<exists>u' \<in> set (u # us @ vs). prefix u' k}"
    using assms(1,3) by (auto simp: below_def intro: prefix_order.trans)
  ultimately show ?thesis unfolding keysUnder_def [of K "u # us @ vs"] by (metis strict_sorted_unique)
qed

lemma leafRounds_keys:
  assumes num: "numbering t ks A" "keywordsOk ks"
    and us: "sorted_wrt (<) us" "\<forall>u \<in> set us. hasNode (set ks) u"
  shows "\<exists>R. leafRounds t (map (entry D) us) result = Some (result @ R)
    \<and> list_all2 (\<lambda>k. leafFor (onPath D us k) k) (keysUnder (set ks) us) R"
  using us
proof (induction "length us" arbitrary: us result rule: less_induct)
  case less
  show ?case
  proof (cases us)
    case Nil
    then show ?thesis by (simp add: leafRounds.simps keysUnder_def)
  next
    case (Cons u us')
    define us1 where "us1 = filter (prefix u) us'"
    define vs where "vs = filter (\<lambda>q. \<not> prefix u q) us'"
    let ?K = "set ks"
    have below: "\<forall>q \<in> set us1. prefix u q" and after: "\<forall>q \<in> set vs. u < q \<and> \<not> prefix u q"
      and sorted: "sorted_wrt (<) us1" "sorted_wrt (<) vs" and nodes: "hasNode ?K u" "\<forall>q \<in> set us1. hasNode ?K q" "\<forall>q \<in> set vs. hasNode ?K q"
      using less.prems Cons by (auto simp: us1_def vs_def intro: sorted_wrt_filter)
    have split: "us' = us1 @ vs" unfolding us1_def vs_def
      by (rule sorted_partition) (use less.prems(1) Cons less_extend [of u] in auto)
    have single: "siblings [u]" by (simp add: siblings_def)
    have "\<exists>R. leafLoop t (map (Pair ((1, u), D u)) (map (Pair 1) [u]) @ []) (map (entry D) (us1 @ vs)) result
        = leafLoop t [] (map (entry D) vs) (result @ R) \<and> forestLeaves D ?K (D u) us1 [u] R"
      by (rule leafLoop_forest [OF num single _ sorted(1), where d = 128]) (use nodes(1,2) below after in auto)
    then obtain R1 where R1: "leafLoop t [(entry D u, (1, u))] (map (entry D) (us1 @ vs)) result = leafLoop t [] (map (entry D) vs) (result @ R1)"
        "forestLeaves D ?K (D u) us1 [u] R1"
      by (auto simp: entry_def)
    obtain R2 where R2: "leafRounds t (map (entry D) vs) (result @ R1) = Some ((result @ R1) @ R2)"
        "list_all2 (\<lambda>k. leafFor (onPath D vs k) k) (keysUnder ?K vs) R2"
      using less.hyps [OF _ sorted(2) nodes(3), of "result @ R1"] Cons by (auto simp: vs_def le_imp_less_Suc)
    have apart: "\<not> (prefix u k \<and> prefix q k)" if "q \<in> set vs" for q k
    proof
      assume "prefix u k \<and> prefix q k"
      then have "prefix q u" using after that prefix_same_cases [of u k q] by auto
      then show False using after that prefix_le [of q u] by auto
    qed
    have path: "onPath D us k = onPath D (u # us1) k \<union> onPath D vs k" for k
      unfolding Cons split using onPath_append [of D "u # us1" vs k] by simp
    have "list_all2 (\<lambda>k. leafFor (onPath D us k) k) (keysBelow ?K u) R1"
      using R1(2) unfolding forestLeaves_def list.map concat.simps append_Nil2
    proof (rule list.rel_mono_strong)
      fix k r assume "k \<in> set (keysBelow ?K u)" "r \<in> set R1" "leafFor (insert (D u) (onPath D us1 k)) k r"
      moreover from this have "prefix u k" by (simp add: below_def)
      moreover from this have "onPath D vs k = {}" using apart by (intro onPath_empty) blast
      ultimately show "leafFor (onPath D us k) k r" using onPath_Cons [of u k D us1] unfolding path by simp
    qed
    moreover have "list_all2 (\<lambda>k. leafFor (onPath D us k) k) (keysUnder ?K vs) R2"
      using R2(2)
    proof (rule list.rel_mono_strong)
      fix k r assume "k \<in> set (keysUnder ?K vs)" "r \<in> set R2" and r: "leafFor (onPath D vs k) k r"
      then have "\<not> prefix u k" using apart by auto
      then have "onPath D (u # us1) k = {}" using below by (intro onPath_empty) (auto intro: prefix_order.trans)
      then show "leafFor (onPath D us k) k r" using r unfolding path by simp
    qed
    moreover have "keysUnder ?K us = keysBelow ?K u @ keysUnder ?K vs" unfolding Cons split by (rule keysUnder_Cons [OF _ after below]) simp
    ultimately have "list_all2 (\<lambda>k. leafFor (onPath D us k) k) (keysUnder ?K us) (R1 @ R2)" by (simp add: list_all2_appendI)
    moreover have "leafRounds t (map (entry D) us) result = Some (result @ R1 @ R2)"
      using R1(1) R2(1) unfolding Cons split by (subst leafRounds.simps) (simp add: entry_def leafLoop.simps [of t "[]"])
    ultimately show ?thesis by blast
  qed
qed

section \<open>Active nodes in pre-order\<close>

lemma preOrderLess_asym: "preOrderLess x y \<Longrightarrow> \<not> preOrderLess y x"
  by (cases x; cases y) auto

lemma keywordId_le:
  assumes "distinct ks" "length ks + 5 \<le> 0xFFFF0000" "k \<in> set ks" "k' \<in> set ks"
  shows "keywordId ks k \<le> keywordId ks k' \<longleftrightarrow> k \<le> k'"
  using keywordId_mono [OF assms(1,2,4,3)] by (simp add: not_less [symmetric])

lemma nodeKey_less:
  assumes ks: "distinct ks" "length ks + 5 \<le> 0xFFFF0000" and ne: "below (set ks) p \<noteq> {}" "below (set ks) q \<noteq> {}" and pq: "p < q" "nodeKey ks p \<noteq> nodeKey ks q"
  shows "preOrderLess (nodeKey ks p) (nodeKey ks q)"
proof -
  let ?K = "set ks"
  have ends: "least ?K p \<in> below ?K p" "greatest ?K p \<in> below ?K p" "least ?K q \<in> below ?K q" "greatest ?K q \<in> below ?K q"
    using least_in greatest_in ne by (metis List.finite_set)+
  then have inK: "least ?K p \<in> ?K" "greatest ?K p \<in> ?K" "least ?K q \<in> ?K" "greatest ?K q \<in> ?K" by (simp_all add: below_def)
  show ?thesis
  proof (cases "prefix p q")
    case True
    then have sub: "below ?K q \<subseteq> below ?K p" by (rule below_antimono)
    have "least ?K p \<le> least ?K q" "greatest ?K q \<le> greatest ?K p"
      unfolding least_def greatest_def using ends(3,4) sub ne(2) by (auto intro: Min_antimono Max_mono)
    then have "keywordId ks (least ?K p) \<le> keywordId ks (least ?K q)" "keywordId ks (greatest ?K q) \<le> keywordId ks (greatest ?K p)"
      using keywordId_le [OF ks] inK by simp_all
    then show ?thesis using pq(2) by (auto simp: nodeKey_def less_le)
  next
    case False
    have "prefix p (least ?K p)" "prefix q (least ?K q)" using ends by (simp_all add: below_def)
    then have "least ?K p < least ?K q" using less_extend [OF pq(1) False] by blast
    then show ?thesis using keywordId_mono [OF ks inK(1,3)] by (simp add: nodeKey_def)
  qed
qed

lemma nodeKey_same_prefix:
  assumes "distinct ks" "length ks + 5 \<le> 0xFFFF0000" "below (set ks) p \<noteq> {}" "below (set ks) q \<noteq> {}" "nodeKey ks p = nodeKey ks q" "k \<in> set ks"
  shows "prefix p k \<longleftrightarrow> prefix q k"
  using range_iff_prefix [OF assms(1,2) assms(3) assms(6)] range_iff_prefix [OF assms(1,2) assms(4) assms(6)] assms(5)
  by (simp add: nodeKey_def)

text \<open>Representatives of the active nodes: sorted, one for each key.\<close>

definition reps :: "CharType list list \<Rightarrow> CharType list list \<Rightarrow> bool" where
  "reps ks us \<longleftrightarrow> sorted_wrt (<) us \<and> inj_on (nodeKey ks) (set us) \<and> (\<forall>u \<in> set us. below (set ks) u \<noteq> {})"

lemma entry_cong: "(\<And>u. u \<in> set us \<Longrightarrow> D u = E u) \<Longrightarrow> map (entry D) us = map (entry E) us"
  by (simp add: entry_def)

lemma alterPreOrder_reps:
  assumes idx: "indexed t ks" "length ks + 5 \<le> 0xFFFF0000" and us: "reps ks us" and u: "below (set ks) u \<noteq> {}"
  shows "\<exists>us' D'. alterPreOrder t (1, u) (minOr d) (map (entry D) us) = Some (map (entry D') us') \<and> reps ks us'
    \<and> set us \<subseteq> set us' \<and> set us' \<subseteq> insert u (set us) \<and> (\<forall>l \<in> set us. D' l \<le> D l) \<and> (\<exists>l \<in> set us'. nodeKey ks l = nodeKey ks u \<and> D' l \<le> d)
    \<and> (\<forall>l \<in> set us'. l \<in> set us \<and> D' l = D l \<or> nodeKey ks l = nodeKey ks u \<and> D' l = d)"
  using us
proof (induction us)
  case Nil
  show ?case using u by (intro exI [of _ "[u]"] exI [of _ "\<lambda>_. d"]) (simp add: entry_def minOr_def reps_def)
next
  case (Cons l us)
  have dist: "distinct ks" using idx(1) by (simp add: indexed_def keywordsOk_def)
  have l: "below (set ks) l \<noteq> {}" "\<forall>q \<in> set us. l < q \<and> nodeKey ks q \<noteq> nodeKey ks l" "reps ks us" "l \<notin> set us"
    using Cons.prems by (fastforce simp: reps_def image_iff)+
  note keys = preOrderKey_indexed [OF idx(1) u] preOrderKey_indexed [OF idx(1) l(1)]
  consider (same) "nodeKey ks u = nodeKey ks l" | (before) "nodeKey ks u \<noteq> nodeKey ks l" "u < l" | (after) "nodeKey ks u \<noteq> nodeKey ks l" "l < u"
    by (cases u l rule: linorder_cases) auto
  then show ?case
  proof cases
    case same
    have "\<not> preOrderLess (nodeKey ks l) (nodeKey ks l)" by (simp add: nodeKey_def)
    then have alter: "alterPreOrder t (1, u) (minOr d) (map (entry D) (l # us)) = Some (map (entry (D(l := min d (D l)))) (l # us))"
      using same keys l(4) by (auto simp: entry_def minOr_def)
    show ?thesis by (rule exI, rule exI, rule conjI [OF alter]) (use Cons.prems same in \<open>auto simp: min_def\<close>)
  next
    case before
    have less: "preOrderLess (nodeKey ks u) (nodeKey ks l)" by (rule nodeKey_less [OF dist idx(2) u l(1) before(2,1)])
    have new: "u \<notin> set (l # us)" using before(2) l(2) by (auto dest: less_asym)
    have other: "nodeKey ks q \<noteq> nodeKey ks u" if q: "q \<in> set us" for q
    proof
      assume eq: "nodeKey ks q = nodeKey ks u"
      have "preOrderLess (nodeKey ks l) (nodeKey ks q)"
        by (rule nodeKey_less [OF dist idx(2) l(1)]) (use l(2,3) q in \<open>auto simp: reps_def dest: sym\<close>)
      then show False using less preOrderLess_asym eq by simp
    qed
    have "nodeKey ks u \<notin> nodeKey ks ` set (l # us)" using other before(1) by (auto dest: sym)
    then have ok: "reps ks (u # l # us)" using Cons.prems before(2) u l(2) by (auto simp: reps_def intro: less_trans)
    have alter: "alterPreOrder t (1, u) (minOr d) (map (entry D) (l # us)) = Some (map (entry (D(u := d))) (u # l # us))"
      using new keys less by (auto simp: entry_def minOr_def)
    show ?thesis by (rule exI, rule exI, rule conjI [OF alter]) (use ok new in auto)
  next
    case after
    have greater: "preOrderLess (nodeKey ks l) (nodeKey ks u)" by (rule nodeKey_less [OF dist idx(2) l(1) u after(2)]) (use after(1) in simp)
    obtain us' D' where IH: "alterPreOrder t (1, u) (minOr d) (map (entry D) us) = Some (map (entry D') us')" "reps ks us'"
        "set us \<subseteq> set us'" "set us' \<subseteq> insert u (set us)" "\<forall>l \<in> set us. D' l \<le> D l" "\<exists>l \<in> set us'. nodeKey ks l = nodeKey ks u \<and> D' l \<le> d"
        "\<forall>l \<in> set us'. l \<in> set us \<and> D' l = D l \<or> nodeKey ks l = nodeKey ks u \<and> D' l = d"
      using Cons.IH [OF l(3)] by blast
    have new: "l \<notin> set us'" using IH(4) l(4) after(2) by auto
    have "reps ks (l # us')" using IH(2,4) l(1,2) after by (fastforce simp: reps_def)
    moreover have "map (entry (D'(l := D l))) (l # us') = entry D l # map (entry D') us'" using new by (auto simp: entry_def)
    then have "alterPreOrder t (1, u) (minOr d) (map (entry D) (l # us)) = Some (map (entry (D'(l := D l))) (l # us'))"
      using keys greater preOrderLess_asym [OF greater] IH(1) by (simp add: entry_def)
    moreover have "set us' \<subseteq> insert u (set (l # us))" "\<forall>q \<in> set (l # us). (D'(l := D l)) q \<le> D q" using IH(4,5) l(4) by auto
    moreover have "\<exists>q \<in> set (l # us'). nodeKey ks q = nodeKey ks u \<and> (D'(l := D l)) q \<le> d"
    proof -
      obtain q where q: "q \<in> set us'" "nodeKey ks q = nodeKey ks u" "D' q \<le> d" using IH(6) by blast
      then have "q \<noteq> l" using new by blast
      then show ?thesis using q by (intro bexI [of _ q]) simp_all
    qed
    moreover have "\<forall>q \<in> set (l # us'). q \<in> set (l # us) \<and> (D'(l := D l)) q = D q \<or> nodeKey ks q = nodeKey ks u \<and> (D'(l := D l)) q = d"
      using IH(7) new by auto
    moreover have "set (l # us) \<subseteq> set (l # us')" "set (l # us') \<subseteq> insert u (set (l # us))" using IH(3,4) by auto
    ultimately show ?thesis by blast
  qed
qed

lemma collectActive_reps:
  assumes idx: "indexed t ks" "length ks + 5 \<le> 0xFFFF0000" and us: "reps ks us"
    and I: "\<forall>item \<in> set I. fst (fst item) = 1 \<and> below (set ks) (snd (fst item)) \<noteq> {}"
  shows "\<exists>us' D'. foldItems (collectActive t) I (map (entry D) us) = Some (map (entry D') us') \<and> reps ks us'
    \<and> set us \<subseteq> set us' \<and> set us' \<subseteq> set us \<union> (snd \<circ> fst) ` set I \<and> (\<forall>l \<in> set us. D' l \<le> D l)
    \<and> (\<forall>u d. ((1, u), d) \<in> set I \<longrightarrow> (\<exists>l \<in> set us'. nodeKey ks l = nodeKey ks u \<and> D' l \<le> d))
    \<and> (\<forall>l \<in> set us'. l \<in> set us \<and> D' l = D l \<or> (\<exists>u. ((1, u), D' l) \<in> set I \<and> nodeKey ks l = nodeKey ks u))"
  using us I
proof (induction I arbitrary: us D)
  case Nil
  then show ?case by auto
next
  case (Cons item I)
  obtain u d where item: "item = ((1, u), d)" "below (set ks) u \<noteq> {}" using Cons.prems(2) by (cases item; cases "fst item") simp
  obtain us1 D1 where s1: "alterPreOrder t (1, u) (minOr d) (map (entry D) us) = Some (map (entry D1) us1)" "reps ks us1"
      "set us \<subseteq> set us1" "set us1 \<subseteq> insert u (set us)" "\<forall>l \<in> set us. D1 l \<le> D l" "\<exists>l \<in> set us1. nodeKey ks l = nodeKey ks u \<and> D1 l \<le> d"
      "\<forall>l \<in> set us1. l \<in> set us \<and> D1 l = D l \<or> nodeKey ks l = nodeKey ks u \<and> D1 l = d"
    using alterPreOrder_reps [OF idx Cons.prems(1) item(2)] by blast
  have rest: "\<forall>item \<in> set I. fst (fst item) = 1 \<and> below (set ks) (snd (fst item)) \<noteq> {}" using Cons.prems(2) by simp
  obtain us2 D2 where s2: "foldItems (collectActive t) I (map (entry D1) us1) = Some (map (entry D2) us2)" "reps ks us2"
      "set us1 \<subseteq> set us2" "set us2 \<subseteq> set us1 \<union> (snd \<circ> fst) ` set I" "\<forall>l \<in> set us1. D2 l \<le> D1 l"
      "\<forall>u d. ((1, u), d) \<in> set I \<longrightarrow> (\<exists>l \<in> set us2. nodeKey ks l = nodeKey ks u \<and> D2 l \<le> d)"
      "\<forall>l \<in> set us2. l \<in> set us1 \<and> D2 l = D1 l \<or> (\<exists>u. ((1, u), D2 l) \<in> set I \<and> nodeKey ks l = nodeKey ks u)"
    using Cons.IH [OF s1(2) rest] by blast
  have "foldItems (collectActive t) (item # I) (map (entry D) us) = Some (map (entry D2) us2)"
    using s1(1) s2(1) item(1) by (simp add: collectActive_def)
  moreover have "set us2 \<subseteq> set us \<union> (snd \<circ> fst) ` set (item # I)" using s1(4) s2(4) item(1) by auto
  moreover have "\<forall>l \<in> set us. D2 l \<le> D l" using s1(3,5) s2(5) by (meson order_trans subsetD)
  moreover have "\<forall>v e. ((1, v), e) \<in> set (item # I) \<longrightarrow> (\<exists>l \<in> set us2. nodeKey ks l = nodeKey ks v \<and> D2 l \<le> e)"
    using s1(6) s2(3,5,6) item(1) by (auto intro: order_trans)
  moreover have "\<forall>l \<in> set us2. l \<in> set us \<and> D2 l = D l \<or> (\<exists>v. ((1, v), D2 l) \<in> set (item # I) \<and> nodeKey ks l = nodeKey ks v)"
    using s1(7) s2(7) item(1) by fastforce
  moreover have "set us \<subseteq> set us2" using s1(3) s2(3) by blast
  ultimately show ?case using s2(2) by blast
qed

section \<open>Distances of prefixes\<close>

definition prefixLev :: "CharType list \<Rightarrow> CharType list \<Rightarrow> nat" where
  "prefixLev s k = Min (lev s ` set (prefixes k))"

lemma prefixLev_le: "prefix v k \<Longrightarrow> prefixLev s k \<le> lev s v"
  by (simp add: prefixLev_def)

lemma prefixLev_attained: "\<exists>v. prefix v k \<and> lev s v = prefixLev s k"
proof -
  have "prefixLev s k \<in> lev s ` set (prefixes k)" unfolding prefixLev_def by (intro Min_in) auto
  then show ?thesis by auto
qed

definition itemsOn :: "(node_ptr \<times> nat) list \<Rightarrow> CharType list \<Rightarrow> nat set" where
  "itemsOn I k = {d. \<exists>u. ((1, u), d) \<in> set I \<and> prefix u k}"

lemma active_itemsOn:
  assumes act: "activeFor s K T S" "T \<le> 2" "bound \<le> unat T" and k: "k \<in> K"
  shows "prefixLev s k \<le> bound \<Longrightarrow> prefixLev s k \<in> itemsOn (activeWithin S bound) k"
    "\<forall>d \<in> itemsOn (activeWithin S bound) k. prefixLev s k \<le> d \<and> d \<le> bound"
proof -
  have S: "setOk S" "editDistanceThreshold S = T" using act(1) by (auto simp: activeFor_def)
  note I = activeWithin_iff [OF S(1), unfolded S(2), OF act(3)]
  show lower: "\<forall>d \<in> itemsOn (activeWithin S bound) k. prefixLev s k \<le> d \<and> d \<le> bound"
    using active_lev [OF act(1)] prefixLev_le [of _ k s] unfolding itemsOn_def I by (fastforce intro: order_trans)
  assume b: "prefixLev s k \<le> bound"
  obtain v where v: "prefix v k" "lev s v = prefixLev s k" using prefixLev_attained by blast
  have "hasNode K v" "lev s v \<le> unat T" using v k b act(3) by (auto simp: hasNode_def below_def)
  then obtain u w x where x: "v = u @ w" "panOf S (1, u) = Some x" "unat (transformationdistance x) \<le> lev s v"
    using active_covers [OF act(1,2)] by (metis max.boundedE)
  have "prefix u k" using x(1) v(1) by (auto simp: prefix_def)
  moreover have "((1, u), unat (transformationdistance x)) \<in> set (activeWithin S bound)" using x b v(2) I by simp
  ultimately have "unat (transformationdistance x) \<in> itemsOn (activeWithin S bound) k" by (auto simp: itemsOn_def)
  moreover from this have "unat (transformationdistance x) = prefixLev s k" using lower x(3) v(2) by (auto intro: order_antisym)
  ultimately show "prefixLev s k \<in> itemsOn (activeWithin S bound) k" by simp
qed

lemma prefix_init:
  assumes idx: "indexed t ks" "length ks + 5 \<le> 0xFFFF0000" "ks \<noteq> []"
    and act: "activeFor s (set ks) T S" "vectorOk S" "T \<le> 2" "bound \<le> unat T"
  shows "\<exists>R S'. LeafNodeSetIteratorForPrefix_init t S bound = Some (R, S')
    \<and> list_all2 (\<lambda>k r. \<exists>u. r = ((1, u), (1, k), prefixLev s k) \<and> prefix u k) (sorted_list_of_set {k \<in> set ks. prefixLev s k \<le> bound}) R"
proof -
  let ?I = "activeWithin S bound" and ?K = "set ks"
  have S: "setOk S" "editDistanceThreshold S = T" "T < 0xFFFF" using act(1,3) by (auto simp: activeFor_def intro: le_less_trans)
  have num: "numbering t ks (finalIds ks)" "keywordsOk ks" "distinct ks" using idx(1) by (auto simp: indexed_def keywordsOk_def)
  obtain it S' where it: "ActiveNodeSetIterator_new S bound = Some (it, S')" "iterOk it" "iterRemaining it = ?I"
    using ActiveNodeSetIterator_new_ok [OF S(1) act(2), of bound] S act(4) by auto
  note I = activeWithin_iff [OF S(1), unfolded S(2), OF act(4)]
  have some: "below ?K p \<noteq> {}" if "hasNode ?K p" for p using that hd_in_set [OF idx(3)] by (auto simp: hasNode_def below_def)
  have nodes: "\<forall>item \<in> set ?I. fst (fst item) = 1 \<and> below ?K (snd (fst item)) \<noteq> {}"
  proof
    fix item assume "item \<in> set ?I"
    then obtain x where "panOf S (fst item) = Some x" using I [of "fst item" "snd item"] by auto
    then show "fst (fst item) = 1 \<and> below ?K (snd (fst item)) \<noteq> {}" using active_pivot(1,2) [OF act(1)] some by (metis fst_conv)
  qed
  obtain us D where us: "foldItems (collectActive t) ?I (map (entry D0) []) = Some (map (entry D) us)" "reps ks us"
      "\<And>u d. ((1, u), d) \<in> set ?I \<Longrightarrow> \<exists>l \<in> set us. nodeKey ks l = nodeKey ks u \<and> D l \<le> d"
      "\<And>l. l \<in> set us \<Longrightarrow> \<exists>u. ((1, u), D l) \<in> set ?I \<and> nodeKey ks l = nodeKey ks u" for D0
    using collectActive_reps [OF idx(1,2) _ nodes, of "[]"] by (auto simp: reps_def)
  have key: "prefix l k \<longleftrightarrow> prefix u k" if "l \<in> set us" "((1, u), d) \<in> set ?I" "nodeKey ks l = nodeKey ks u" "k \<in> ?K" for l u d k
    by (rule nodeKey_same_prefix [OF num(3) idx(2)]) (use that us(2) nodes in \<open>auto simp: reps_def\<close>)
  have onto: "\<exists>l \<in> set us. prefix l k \<and> D l \<le> d" if "d \<in> itemsOn ?I k" "k \<in> ?K" for d k
    using that us(3) key unfolding itemsOn_def by blast
  have into: "D l \<in> itemsOn ?I k" if "l \<in> set us" "prefix l k" "k \<in> ?K" for l k
    using that us(4) [of l] key unfolding itemsOn_def by blast
  have "\<exists>R. leafRounds t (map (entry D) us) [] = Some ([] @ R) \<and> list_all2 (\<lambda>k. leafFor (onPath D us k) k) (keysUnder ?K us) R"
    by (rule leafRounds_keys [OF num(1,2)]) (use us(2) in \<open>auto simp: reps_def hasNode_def\<close>)
  then obtain R where R: "leafRounds t (map (entry D) us) [] = Some R" "list_all2 (\<lambda>k. leafFor (onPath D us k) k) (keysUnder ?K us) R" by auto
  have lev: "d = prefixLev s k" if k: "k \<in> ?K" and d: "d \<in> onPath D us k" "\<forall>e \<in> onPath D us k. d \<le> e" for k d
  proof -
    have "d \<in> itemsOn ?I k" using d(1) into k by (auto simp: onPath_def)
    then have low: "prefixLev s k \<le> d" "d \<le> bound" using active_itemsOn(2) [OF act(1,3,4) k] by auto
    then have "prefixLev s k \<in> itemsOn ?I k" using active_itemsOn(1) [OF act(1,3,4) k] by simp
    then obtain l where "l \<in> set us" "prefix l k" "D l \<le> prefixLev s k" using onto k by blast
    moreover from this have "d \<le> D l" using d(2) by (auto simp: onPath_def)
    ultimately show ?thesis using low(1) by simp
  qed
  have "{k \<in> ?K. \<exists>u \<in> set us. prefix u k} = {k \<in> ?K. prefixLev s k \<le> bound}"
    using onto into active_itemsOn [OF act(1,3,4)] by (blast intro: order_trans)
  then have "keysUnder ?K us = sorted_list_of_set {k \<in> ?K. prefixLev s k \<le> bound}" by (simp add: keysUnder_def)
  moreover have "list_all2 (\<lambda>k r. \<exists>u. r = ((1, u), (1, k), prefixLev s k) \<and> prefix u k) (keysUnder ?K us) R"
    using R(2) by (rule list.rel_mono_strong) (auto simp: leafFor_def dest: lev)
  moreover have "LeafNodeSetIteratorForPrefix_init t S bound = Some (R, S')"
    using it R(1) us(1) activeItems.consume_all [OF it(2), of "collectActive t"] by (simp add: LeafNodeSetIteratorForPrefix_init_def)
  ultimately show ?thesis by (intro exI [of _ R] exI [of _ S']) simp
qed

end
