(* ===== verification/Fuzzy_Search.thy ===== *)
theory Fuzzy_Search
  imports Prefix_Leaves
begin

text \<open>
  The fuzzy search as a whole: a trie is loaded and committed, the active nodes of a query are computed
  character by character, and the keywords within a distance of the query are collected. Without swaps
  and for thresholds up to two, as \<^verbatim>\<open>Term::getNormalizedThreshold\<close> gives them, the keywords and their
  distances are exactly those of the edit distance. Concrete searches show what happens beyond.
\<close>

section \<open>Searches\<close>

text \<open>The threshold of a fuzzy term by the length of its keyword.\<close>

definition getNormalizedThreshold :: "nat \<Rightarrow> u8" where
  "getNormalizedThreshold keywordLength = (if keywordLength \<le> 4 then 0 else if keywordLength \<le> 7 then 1 else 2)"

definition activeNodesOf :: "(node_ptr \<Rightarrow> nat) \<Rightarrow> u32 \<Rightarrow> bool \<Rightarrow> Trie \<Rightarrow> CharType list \<Rightarrow> PrefixActiveNodeSet option" where
  "activeNodesOf addr T swap t s = extendActiveNodes addr t s (PANSet_new addr (root_readview t) T swap)"

definition completeSearch :: "(node_ptr \<Rightarrow> nat) \<Rightarrow> u32 \<Rightarrow> bool \<Rightarrow> Trie \<Rightarrow> CharType list \<Rightarrow> nat \<Rightarrow> (node_ptr \<times> nat) list option" where
  "completeSearch addr T swap t s bound = do {
     S \<leftarrow> activeNodesOf addr T swap t s;
     (m, _) \<leftarrow> LeafNodeSetIteratorForComplete_init t S bound;
     Some m
   }"

definition prefixSearch :: "(node_ptr \<Rightarrow> nat) \<Rightarrow> u32 \<Rightarrow> bool \<Rightarrow> Trie \<Rightarrow> CharType list \<Rightarrow> nat \<Rightarrow> leaf_item list option" where
  "prefixSearch addr T swap t s bound = do {
     S \<leftarrow> activeNodesOf addr T swap t s;
     (m, _) \<leftarrow> LeafNodeSetIteratorForPrefix_init t S bound;
     Some m
   }"

lemma active_after_build:
  assumes "\<forall>w \<in> set ws. cleanString w \<noteq> [] \<and> fuzzyChars (cleanString w)" "length ws + 5 \<le> 0xFFFF0000" "fuzzyChars s" "T < 0xFFFF"
  obtains "is" t ks S where "buildTrie mem ws = Some (is, t)" "indexed t ks" "set ks = cleanString ` set ws" "length ks + 5 \<le> 0xFFFF0000"
    "activeNodesOf addr T False t s = Some S" "activeFor s (set ks) T S" "vectorOk S"
proof -
  obtain "is" t ks where t: "buildTrie mem ws = Some (is, t)" "indexed t ks" "set ks = cleanString ` set ws" "length ks + 5 \<le> 0xFFFF0000"
    using buildTrie_indexed [of ws mem] assms(1,2) by blast
  have num: "numbering t ks (finalIds ks)" "root_readview t = (1, [])" using t(2) by (simp_all add: indexed_def)
  have low: "\<forall>k \<in> set ks. fuzzyChars k" using assms(1) t(3) by auto
  obtain S where "extendActiveNodes addr t s (PANSet_new addr (1, []) T False) = Some S" "activeFor ([] @ s) (set ks) T S"
      "S = PANSet_new addr (1, []) T False \<or> \<not> trieNodeSetVectorComputed S"
    using extend_active [OF num(1) low assms(4,3) PANSet_new_active] by blast
  then show ?thesis using that t num(2) by (auto simp: activeNodesOf_def vectorOk_def PANSet_new_fields)
qed

lemma keyword_node:
  assumes "indexed t ks" "k \<in> set ks"
  shows "getTrieNode t (root_readview t) k = Some (Some (1, k))"
  using assms getTrieNode_numbering [of t ks "finalIds ks" "[]" k] by (auto simp: indexed_def hasNode_def below_def)

lemma cleanString_fuzzy: "fuzzyChars w \<Longrightarrow> fuzzyChars (cleanString w)"
  by (auto simp: fuzzyChars_def cleanString_def dest: in_set_takeD)

text \<open>
  C9. Fuzzy search for a complete keyword: on the trie of any keywords of one-byte characters, for a threshold of at
  most two and without swaps, the search returns and delivers exactly the keywords whose edit distance to
  the query is within the bound, in lexicographic order, each once and with its edit distance, whatever the
  addresses of the nodes are.
\<close>

theorem fuzzy_complete_search:
  assumes "\<forall>w \<in> set ws. cleanString w \<noteq> [] \<and> fuzzyChars w" "length ws + 5 \<le> 0xFFFF0000" "fuzzyChars s" "T \<le> 2" "bound \<le> unat T"
  shows "\<exists>is t. buildTrie mem ws = Some (is, t)
    \<and> (\<forall>w \<in> set ws. getTrieNode t (root_readview t) (cleanString w) = Some (Some (1, cleanString w)))
    \<and> completeSearch addr T False t s bound
      = Some (map (\<lambda>k. ((1, k), lev s k)) (sorted_list_of_set {k \<in> cleanString ` set ws. lev s k \<le> bound}))"
proof -
  have low: "\<forall>w \<in> set ws. cleanString w \<noteq> [] \<and> fuzzyChars (cleanString w)" "T < 0xFFFF"
    using assms(1,4) cleanString_fuzzy by (auto intro: le_less_trans)
  obtain "is" t ks S where t: "buildTrie mem ws = Some (is, t)" "indexed t ks" "set ks = cleanString ` set ws" "length ks + 5 \<le> 0xFFFF0000"
      "activeNodesOf addr T False t s = Some S" "activeFor s (set ks) T S" "vectorOk S"
    using active_after_build [OF low(1) assms(2,3) low(2)] by metis
  have "\<exists>S'. LeafNodeSetIteratorForComplete_init t S bound
      = Some (map (\<lambda>k. ((1, k), lev s k)) (sorted_list_of_set {k \<in> set ks. lev s k \<le> bound}), S')"
    by (rule complete_init [OF t(2,4,6,7) assms(4,5)])
  then show ?thesis using t(1,3,5) keyword_node [OF t(2)] by (auto simp: completeSearch_def)
qed

theorem fuzzy_complete_search_witness:
  "\<exists>is t m. buildTrie 0 [[97, 98], [97, 99, 97]] = Some (is, t) \<and> completeSearch (\<lambda>_. 0) 2 False t [98, 97] 2 = Some m \<and> ((1, [97, 99, 97]), 2) \<in> set m"
proof -
  have a: "\<forall>w \<in> set [[97, 98], [97, 99, 97]]. cleanString w \<noteq> [] \<and> fuzzyChars w" "fuzzyChars [98, 97]" by code_simp+
  have b: "cleanString [97, 98] = [97, 98]" "cleanString [97, 99, 97] = [97, 99, 97]" "lev [98, 97] [97, 99, 97 :: u32] = 2" by code_simp+
  obtain "is" t where t: "buildTrie 0 [[97, 98], [97, 99, 97]] = Some (is, t)" "completeSearch (\<lambda>_. 0) 2 False t [98, 97] 2
      = Some (map (\<lambda>k. ((1, k), lev [98, 97] k)) (sorted_list_of_set {k \<in> cleanString ` set [[97, 98], [97, 99, 97]]. lev [98, 97] k \<le> 2}))"
    using fuzzy_complete_search [OF a(1) _ a(2), of 2 2 0 "\<lambda>_. 0"] by auto
  have "[97, 99, 97] \<in> {k \<in> cleanString ` set [[97, 98], [97, 99, 97]]. lev [98, 97] k \<le> 2}" using b by simp
  then show ?thesis using t b(3) by (intro exI [of _ "is"] exI [of _ t] exI) (auto simp: image_iff intro!: bexI [of _ "[97, 99, 97]"])
qed

text \<open>
  C10. Fuzzy search for a prefix: under the same conditions the search returns and delivers exactly the keywords that have
  a prefix within the bound, in lexicographic order, each once, with the smallest edit distance between the query
  and a prefix of the keyword and with an active node that is a prefix of the keyword.
\<close>

theorem fuzzy_prefix_search:
  assumes "ws \<noteq> []" "\<forall>w \<in> set ws. cleanString w \<noteq> [] \<and> fuzzyChars w" "length ws + 5 \<le> 0xFFFF0000" "fuzzyChars s" "T \<le> 2" "bound \<le> unat T"
  shows "\<exists>is t. buildTrie mem ws = Some (is, t)
    \<and> (\<forall>w \<in> set ws. getTrieNode t (root_readview t) (cleanString w) = Some (Some (1, cleanString w)))
    \<and> (\<exists>R. prefixSearch addr T False t s bound = Some R
        \<and> map snd R = map (\<lambda>k. ((1, k), prefixLev s k)) (sorted_list_of_set {k \<in> cleanString ` set ws. prefixLev s k \<le> bound})
        \<and> (\<forall>((_, u), (_, k), _) \<in> set R. prefix u k))"
proof -
  have low: "\<forall>w \<in> set ws. cleanString w \<noteq> [] \<and> fuzzyChars (cleanString w)" "T < 0xFFFF"
    using assms(2,5) cleanString_fuzzy by (auto intro: le_less_trans)
  obtain "is" t ks S where t: "buildTrie mem ws = Some (is, t)" "indexed t ks" "set ks = cleanString ` set ws" "length ks + 5 \<le> 0xFFFF0000"
      "activeNodesOf addr T False t s = Some S" "activeFor s (set ks) T S" "vectorOk S"
    using active_after_build [OF low(1) assms(3,4) low(2)] by metis
  have "ks \<noteq> []" using t(3) assms(1) by auto
  then obtain R S' where R: "LeafNodeSetIteratorForPrefix_init t S bound = Some (R, S')"
      "list_all2 (\<lambda>k r. \<exists>u. r = ((1, u), (1, k), prefixLev s k) \<and> prefix u k) (sorted_list_of_set {k \<in> set ks. prefixLev s k \<le> bound}) R"
    using prefix_init [OF t(2,4) _ t(6,7) assms(5,6)] by blast
  have "map snd R = map (\<lambda>k. ((1, k), prefixLev s k)) L \<and> (\<forall>((_, u), (_, k), _) \<in> set R. prefix u k)"
    if "list_all2 (\<lambda>k r. \<exists>u. r = ((1, u), (1, k), prefixLev s k) \<and> prefix u k) L R" for L R
    using that by (induction rule: list_all2_induct) auto
  from this [OF R(2)] show ?thesis using R(1) t(1,3,5) keyword_node [OF t(2)] by (auto simp: prefixSearch_def)
qed

theorem fuzzy_prefix_search_witness:
  "\<exists>is t R. buildTrie 0 [[97, 98], [97, 99, 97]] = Some (is, t) \<and> prefixSearch (\<lambda>_. 0) 1 False t [97, 97] 1 = Some R \<and> length R = 2"
proof -
  have a: "\<forall>w \<in> set [[97, 98], [97, 99, 97]]. cleanString w \<noteq> [] \<and> fuzzyChars w" "fuzzyChars [97, 97]" by code_simp+
  have b: "cleanString [97, 98] = [97, 98]" "cleanString [97, 99, 97] = [97, 99, 97]"
      "prefixLev [97, 97] [97, 98] \<le> 1" "prefixLev [97, 97] [97, 99, 97] \<le> 1" by code_simp+
  obtain "is" t R where t: "buildTrie 0 [[97, 98], [97, 99, 97]] = Some (is, t)" "prefixSearch (\<lambda>_. 0) 1 False t [97, 97] 1 = Some R"
      "map snd R = map (\<lambda>k. ((1, k), prefixLev [97, 97] k)) (sorted_list_of_set {k \<in> cleanString ` set [[97, 98], [97, 99, 97]]. prefixLev [97, 97] k \<le> 1})"
    using fuzzy_prefix_search [OF _ a(1) _ a(2), of 1 1 0 "\<lambda>_. 0"] by auto
  have "{k \<in> cleanString ` set [[97, 98], [97, 99, 97]]. prefixLev [97, 97] k \<le> 1} = {[97, 98], [97, 99, 97]}" using b by auto
  then have "length (map snd R) = 2" unfolding t(3) by simp
  then have "length R = 2" unfolding length_map .
  then show ?thesis using t(1,2) by blast
qed

section \<open>Limits of the search\<close>

text \<open>
  With swaps, which are on by default, a keyword can hide another one: the keyword aca at distance two of ba is found
  when it is alone in the trie, and it is lost when the keyword ab is added, because the recursion of
  \<^verbatim>\<open>addPANUpToDepth\<close> goes on below the grandchild that the transposition reached instead of the child.
\<close>

theorem swap_hides_keyword:
  "map_option (\<lambda>(_, t). completeSearch (\<lambda>_. 0) 2 True t [98, 97] 2) (buildTrie 0 [[97, 99, 97]]) = Some (Some [((1, [97, 99, 97]), 2)])
    \<and> map_option (\<lambda>(_, t). completeSearch (\<lambda>_. 0) 2 True t [98, 97] 2) (buildTrie 0 [[97, 98], [97, 99, 97]]) = Some (Some [((1, [97, 98]), 1)])
    \<and> lev [98, 97] [97, 99, 97 :: CharType] = 2"
  by code_simp

text \<open>
  The distance with transpositions of adjacent characters as a fourth edit operation, each part of a string being edited
  at most once.
\<close>

fun swapLev :: "'a list \<Rightarrow> 'a list \<Rightarrow> nat" where
  "swapLev [] ys = length ys"
| "swapLev xs [] = length xs"
| "swapLev (x # x' # xs) (y # y' # ys) =
     (let d = min (min (Suc (swapLev (x' # xs) (y # y' # ys))) (Suc (swapLev (x # x' # xs) (y' # ys))))
                  ((if x = y then 0 else 1) + swapLev (x' # xs) (y' # ys))
      in if x = y' \<and> x' = y then min d (Suc (swapLev xs ys)) else d)"
| "swapLev (x # xs) (y # ys) = min (min (Suc (swapLev xs (y # ys))) (Suc (swapLev (x # xs) ys))) ((if x = y then 0 else 1) + swapLev xs ys)"

text \<open>
  With swaps the distance of a match can be too small: the keyword xab is delivered for the query ba at distance one, while
  the distance is two with and without transpositions as an edit, because the distance of a transposition is the
  maximum of the depth and the edits made before, not their sum.
\<close>

theorem swap_wrong_distance:
  "map_option (\<lambda>(_, t). completeSearch (\<lambda>_. 0) 1 True t [98, 97] 1) (buildTrie 0 [[120, 97, 98]]) = Some (Some [((1, [120, 97, 98]), 1)])
    \<and> swapLev [98, 97] [120, 97, 98 :: CharType] = 2 \<and> lev [98, 97] [120, 97, 98 :: CharType] = 2"
  by code_simp

text \<open>
  Beyond threshold two the search is incomplete even without swaps: the keyword baxyz has distance three of acaz and
  is not delivered, because \<^verbatim>\<open>addPAN\<close> keeps one pivot for every node.
\<close>

theorem threshold_three_misses:
  "map_option (\<lambda>(_, t). completeSearch (\<lambda>_. 0) 3 False t [97, 99, 97, 122] 3) (buildTrie 0 [[98, 97, 120, 121, 122]]) = Some (Some [])
    \<and> lev [97, 99, 97, 122] [98, 97, 120, 121, 122 :: CharType] = 3"
  by code_simp

end
