(* ===== verification/Utf8.thy ===== *)
theory Utf8
  imports Srch2_Prelude "HOL-Library.Monad_Syntax"
begin

text \<open>
  The UTF-8 codec of keywords and queries, \<^verbatim>\<open>src/src/core/util/utf8/core.h\<close>, \<^verbatim>\<open>checked.h\<close> and
  \<^verbatim>\<open>src/src/core/util/encoding.cpp\<close>. An iterator is the list of octets from its position to the end of
  its range. \<open>UTF8_OK\<close> and a normal return are \<open>Inr\<close>, an error code or an exception is \<open>Inl\<close>, and
  \<open>None\<close> is a read at the end of the range.
\<close>

section \<open>Validation\<close>

datatype utf_error = NOT_ENOUGH_ROOM | INVALID_LEAD | INCOMPLETE_SEQUENCE | OVERLONG_SEQUENCE | INVALID_CODE_POINT

definition LEAD_SURROGATE_MIN :: u32 where "LEAD_SURROGATE_MIN = 0xd800"
definition LEAD_SURROGATE_MAX :: u32 where "LEAD_SURROGATE_MAX = 0xdbff"
definition TRAIL_SURROGATE_MIN :: u32 where "TRAIL_SURROGATE_MIN = 0xdc00"
definition TRAIL_SURROGATE_MAX :: u32 where "TRAIL_SURROGATE_MAX = 0xdfff"
definition CODE_POINT_MAX :: u32 where "CODE_POINT_MAX = 0x0010ffff"

definition LEAD_OFFSET :: u16 where
  "LEAD_OFFSET = ucast (LEAD_SURROGATE_MIN - drop_bit 10 0x10000)"

definition SURROGATE_OFFSET :: u32 where
  "SURROGATE_OFFSET = 0x10000 - push_bit 10 LEAD_SURROGATE_MIN - TRAIL_SURROGATE_MIN"

definition is_trail :: "u8 \<Rightarrow> bool" where "is_trail oc \<longleftrightarrow> drop_bit 6 oc = 2"

definition is_lead_surrogate :: "u32 \<Rightarrow> bool" where
  "is_lead_surrogate cp \<longleftrightarrow> cp \<ge> LEAD_SURROGATE_MIN \<and> cp \<le> LEAD_SURROGATE_MAX"

definition is_trail_surrogate :: "u32 \<Rightarrow> bool" where
  "is_trail_surrogate cp \<longleftrightarrow> cp \<ge> TRAIL_SURROGATE_MIN \<and> cp \<le> TRAIL_SURROGATE_MAX"

definition is_surrogate :: "u32 \<Rightarrow> bool" where
  "is_surrogate cp \<longleftrightarrow> cp \<ge> LEAD_SURROGATE_MIN \<and> cp \<le> TRAIL_SURROGATE_MAX"

definition is_code_point_valid :: "u32 \<Rightarrow> bool" where
  "is_code_point_valid cp \<longleftrightarrow> cp \<le> CODE_POINT_MAX \<and> \<not> is_surrogate cp"

definition sequence_length :: "u8 \<Rightarrow> nat" where
  "sequence_length lead =
    (if lead < 0x80 then 1
     else if drop_bit 5 lead = 0x6 then 2
     else if drop_bit 4 lead = 0xe then 3
     else if drop_bit 3 lead = 0x1e then 4
     else 0)"

definition is_overlong_sequence :: "u32 \<Rightarrow> nat \<Rightarrow> bool" where
  "is_overlong_sequence cp n \<longleftrightarrow>
    (if cp < 0x80 then n \<noteq> 1 else if cp < 0x800 then n \<noteq> 2 else if cp < 0x10000 then n \<noteq> 3 else False)"

text \<open>The iterator moves on to the next octet of the sequence.\<close>

definition increase_safely :: "u8 list \<Rightarrow> utf_error + u8 list" where
  "increase_safely it = (case tl it of
     [] \<Rightarrow> Inl NOT_ENOUGH_ROOM
   | oc # _ \<Rightarrow> if \<not> is_trail oc then Inl INCOMPLETE_SEQUENCE else Inr (tl it))"

definition get_sequence_1 :: "u8 list \<Rightarrow> utf_error + u8 list \<times> u32" where
  "get_sequence_1 it = (if it = [] then Inl NOT_ENOUGH_ROOM else Inr (it, ucast (hd it)))"

definition get_sequence_2 :: "u8 list \<Rightarrow> utf_error + u8 list \<times> u32" where
  "get_sequence_2 it =
    (if it = [] then Inl NOT_ENOUGH_ROOM else
     let code_point = ucast (hd it) in
     case increase_safely it of Inl err \<Rightarrow> Inl err | Inr it \<Rightarrow>
     Inr (it, (push_bit 6 code_point AND 0x7ff) + (ucast (hd it) AND 0x3f)))"

definition get_sequence_3 :: "u8 list \<Rightarrow> utf_error + u8 list \<times> u32" where
  "get_sequence_3 it =
    (if it = [] then Inl NOT_ENOUGH_ROOM else
     let code_point = ucast (hd it) in
     case increase_safely it of Inl err \<Rightarrow> Inl err | Inr it \<Rightarrow>
     let code_point = (push_bit 12 code_point AND 0xffff) + (push_bit 6 (ucast (hd it)) AND 0xfff) in
     case increase_safely it of Inl err \<Rightarrow> Inl err | Inr it \<Rightarrow>
     Inr (it, code_point + (ucast (hd it) AND 0x3f)))"

definition get_sequence_4 :: "u8 list \<Rightarrow> utf_error + u8 list \<times> u32" where
  "get_sequence_4 it =
    (if it = [] then Inl NOT_ENOUGH_ROOM else
     let code_point = ucast (hd it) in
     case increase_safely it of Inl err \<Rightarrow> Inl err | Inr it \<Rightarrow>
     let code_point = (push_bit 18 code_point AND 0x1fffff) + (push_bit 12 (ucast (hd it)) AND 0x3ffff) in
     case increase_safely it of Inl err \<Rightarrow> Inl err | Inr it \<Rightarrow>
     let code_point = code_point + (push_bit 6 (ucast (hd it)) AND 0xfff) in
     case increase_safely it of Inl err \<Rightarrow> Inl err | Inr it \<Rightarrow>
     Inr (it, code_point + (ucast (hd it) AND 0x3f)))"

definition get_sequence :: "nat \<Rightarrow> u8 list \<Rightarrow> utf_error + u8 list \<times> u32" where
  "get_sequence n it =
    (if n = 0 then Inl INVALID_LEAD
     else if n = 1 then get_sequence_1 it
     else if n = 2 then get_sequence_2 it
     else if n = 3 then get_sequence_3 it
     else get_sequence_4 it)"

text \<open>The result is the position after the sequence with the code point, or the error; the iterator of the caller
  is unchanged after an error.\<close>

definition validate_next :: "u8 list \<Rightarrow> (utf_error + u8 list \<times> u32) option" where
  "validate_next it = (case it of [] \<Rightarrow> None | lead # _ \<Rightarrow>
     let n = sequence_length lead in
     Some (case get_sequence n it of Inl err \<Rightarrow> Inl err
       | Inr (it, cp) \<Rightarrow>
           if \<not> is_code_point_valid cp then Inl INVALID_CODE_POINT
           else if is_overlong_sequence cp n then Inl OVERLONG_SEQUENCE
           else Inr (tl it, cp)))"

lemma increase_safely_Inr: "increase_safely it = Inr it' \<longleftrightarrow> (\<exists>a b r. it = a # b # r \<and> is_trail b \<and> it' = b # r)"
  by (cases it; cases "tl it") (auto simp: increase_safely_def)

lemmas get_sequence_defs = get_sequence_def get_sequence_1_def get_sequence_2_def get_sequence_3_def get_sequence_4_def

lemma get_sequence_shorter: "get_sequence n it = Inr (it', cp) \<Longrightarrow> it' \<noteq> [] \<and> length it' \<le> length it"
  by (auto simp: get_sequence_defs Let_def increase_safely_Inr split: if_splits sum.splits)

lemma validate_next_shorter: "validate_next it = Some (Inr (it', cp)) \<Longrightarrow> length it' < length it"
  using get_sequence_shorter by (fastforce simp: validate_next_def Let_def split: list.splits sum.splits prod.splits if_splits)

function find_invalid :: "u8 list \<Rightarrow> u8 list option" where
  "find_invalid result =
    (if result = [] then Some result
     else case validate_next result of None \<Rightarrow> None
     | Some (Inl err_code) \<Rightarrow> Some result
     | Some (Inr (result, _)) \<Rightarrow> find_invalid result)"
  by auto
termination by (relation "measure length") (auto dest: validate_next_shorter)

declare find_invalid.simps [simp del]

definition is_valid :: "u8 list \<Rightarrow> bool option" where
  "is_valid it = do { r \<leftarrow> find_invalid it; Some (r = []) }"

definition starts_with_bom :: "u8 list \<Rightarrow> bool" where
  "starts_with_bom it \<longleftrightarrow> (case it of a # b # c # _ \<Rightarrow> a = 0xef \<and> b = 0xbb \<and> c = 0xbf | _ \<Rightarrow> False)"

section \<open>Encoding and decoding\<close>

datatype utf8_exception = invalid_code_point u32 | invalid_utf8 u8 | invalid_utf16 u16 | not_enough_room

text \<open>\<open>append\<close> returns the octets that it writes to the output.\<close>

definition append_utf8 :: "u32 \<Rightarrow> utf8_exception + u8 list" where
  "append_utf8 cp =
    (if \<not> is_code_point_valid cp then Inl (invalid_code_point cp)
     else Inr (
       if cp < 0x80 then [ucast cp]
       else if cp < 0x800 then
         [ucast (drop_bit 6 cp OR 0xc0), ucast ((cp AND 0x3f) OR 0x80)]
       else if cp < 0x10000 then
         [ucast (drop_bit 12 cp OR 0xe0), ucast ((drop_bit 6 cp AND 0x3f) OR 0x80), ucast ((cp AND 0x3f) OR 0x80)]
       else
         [ucast (drop_bit 18 cp OR 0xf0), ucast ((drop_bit 12 cp AND 0x3f) OR 0x80),
          ucast ((drop_bit 6 cp AND 0x3f) OR 0x80), ucast ((cp AND 0x3f) OR 0x80)]))"

text \<open>The code point in an exception is the variable \<open>cp\<close> that \<open>validate_next\<close> leaves at zero on failure.\<close>

definition next_utf8 :: "u8 list \<Rightarrow> (utf8_exception + u8 list \<times> u32) option" where
  "next_utf8 it = do {
     r \<leftarrow> validate_next it;
     Some (case r of
       Inr x \<Rightarrow> Inr x
     | Inl NOT_ENOUGH_ROOM \<Rightarrow> Inl not_enough_room
     | Inl INVALID_CODE_POINT \<Rightarrow> Inl (invalid_code_point 0)
     | Inl _ \<Rightarrow> Inl (invalid_utf8 (hd it)))
   }"

lemma next_utf8_Inr: "next_utf8 it = Some (Inr x) \<longleftrightarrow> validate_next it = Some (Inr x)"
  by (cases "validate_next it"; cases "the (validate_next it)") (auto simp: next_utf8_def split: utf_error.splits)

function utf8to32 :: "u8 list \<Rightarrow> u32 list \<Rightarrow> (utf8_exception + u32 list) option" where
  "utf8to32 start result =
    (if start = [] then Some (Inr result)
     else case next_utf8 start of None \<Rightarrow> None
     | Some (Inl e) \<Rightarrow> Some (Inl e)
     | Some (Inr (start, cp)) \<Rightarrow> utf8to32 start (result @ [cp]))"
  by auto
termination by (relation "measure (\<lambda>(start, result). length start)") (auto simp: next_utf8_Inr dest: validate_next_shorter)

declare utf8to32.simps [simp del]

fun utf32to8 :: "u32 list \<Rightarrow> u8 list \<Rightarrow> utf8_exception + u8 list" where
  "utf32to8 [] result = Inr result"
| "utf32to8 (cp # start) result =
    (case append_utf8 cp of Inl e \<Rightarrow> Inl e | Inr bs \<Rightarrow> utf32to8 start (result @ bs))"

function distance_utf8 :: "u8 list \<Rightarrow> nat \<Rightarrow> (utf8_exception + nat) option" where
  "distance_utf8 first dist =
    (if first = [] then Some (Inr dist)
     else case next_utf8 first of None \<Rightarrow> None
     | Some (Inl e) \<Rightarrow> Some (Inl e)
     | Some (Inr (first, _)) \<Rightarrow> distance_utf8 first (dist + 1))"
  by auto
termination by (relation "measure (\<lambda>(first, dist). length first)") (auto simp: next_utf8_Inr dest: validate_next_shorter)

declare distance_utf8.simps [simp del]

fun advance_utf8 :: "nat \<Rightarrow> u8 list \<Rightarrow> (utf8_exception + u8 list) option" where
  "advance_utf8 0 it = Some (Inr it)"
| "advance_utf8 (Suc n) it =
    (case next_utf8 it of None \<Rightarrow> None
     | Some (Inl e) \<Rightarrow> Some (Inl e)
     | Some (Inr (it, _)) \<Rightarrow> advance_utf8 n it)"

function replace_invalid :: "u8 list \<Rightarrow> u32 \<Rightarrow> u8 list \<Rightarrow> (utf8_exception + u8 list) option" where
  "replace_invalid start replacement out =
    (if start = [] then Some (Inr out)
     else case validate_next start of None \<Rightarrow> None
     | Some (Inr (start', _)) \<Rightarrow> replace_invalid start' replacement (out @ take (length start - length start') start)
     | Some (Inl err_code) \<Rightarrow>
         if err_code = NOT_ENOUGH_ROOM then Some (Inl not_enough_room)
         else case append_utf8 replacement of Inl e \<Rightarrow> Some (Inl e)
         | Inr bs \<Rightarrow>
             if err_code = INVALID_LEAD then replace_invalid (tl start) replacement (out @ bs)
             else replace_invalid (dropWhile is_trail (tl start)) replacement (out @ bs))"
  by auto
termination
proof (relation "measure (\<lambda>(start, replacement, out). length start)", goal_cases)
  case (3 start)
  then show ?case using length_dropWhile_le [of is_trail "tl start"] by (cases start) simp_all
next
  case (2 start)
  then show ?case by (cases start) simp_all
qed (auto dest: validate_next_shorter)

declare replace_invalid.simps [simp del]

text \<open>The loop of \<open>utf16to8\<close> over the code units, with surrogate pairs.\<close>

fun utf16to8 :: "u16 list \<Rightarrow> u8 list \<Rightarrow> utf8_exception + u8 list" where
  "utf16to8 [] result = Inr result"
| "utf16to8 (c # start) result =
    (let cp = ucast c :: u32 in
     if is_lead_surrogate cp then
       (case start of
         trail # start \<Rightarrow>
           if is_trail_surrogate (ucast trail) then
             (case append_utf8 (push_bit 10 cp + ucast trail + SURROGATE_OFFSET) of Inl e \<Rightarrow> Inl e
              | Inr bs \<Rightarrow> utf16to8 start (result @ bs))
           else Inl (invalid_utf16 trail)
       | [] \<Rightarrow> Inl (invalid_utf16 c))
     else if is_trail_surrogate cp then Inl (invalid_utf16 c)
     else (case append_utf8 cp of Inl e \<Rightarrow> Inl e | Inr bs \<Rightarrow> utf16to8 start (result @ bs)))"

definition utf16_units :: "u32 \<Rightarrow> u16 list" where
  "utf16_units cp =
    (if cp > 0xffff then [ucast (drop_bit 10 cp + ucast LEAD_OFFSET), ucast ((cp AND 0x3ff) + TRAIL_SURROGATE_MIN)]
     else [ucast cp])"

function utf8to16 :: "u8 list \<Rightarrow> u16 list \<Rightarrow> (utf8_exception + u16 list) option" where
  "utf8to16 start result =
    (if start = [] then Some (Inr result)
     else case next_utf8 start of None \<Rightarrow> None
     | Some (Inl e) \<Rightarrow> Some (Inl e)
     | Some (Inr (start, cp)) \<Rightarrow> utf8to16 start (result @ utf16_units cp))"
  by auto
termination by (relation "measure (\<lambda>(start, result). length start)") (auto simp: next_utf8_Inr dest: validate_next_shorter)

declare utf8to16.simps [simp del]

section \<open>Keywords and queries\<close>

definition utf8StringToCharTypeVector :: "u8 list \<Rightarrow> (utf8_exception + u32 list) option" where
  "utf8StringToCharTypeVector utf8String = do {
     end_it \<leftarrow> find_invalid utf8String;
     utf8to32 (take (length utf8String - length end_it) utf8String) []
   }"

definition charTypeVectorToUtf8String :: "u32 list \<Rightarrow> utf8_exception + u8 list" where
  "charTypeVectorToUtf8String charTypeVector = utf32to8 charTypeVector []"

definition charTypeRangeToUtf8String :: "u32 list \<Rightarrow> nat \<Rightarrow> nat \<Rightarrow> (utf8_exception + u8 list) option" where
  "charTypeRangeToUtf8String v b e =
    (if b \<le> e \<and> e \<le> length v then Some (utf32to8 (take (e - b) (drop b v)) []) else None)"

definition getUtf8StringCharacterNumber :: "u8 list \<Rightarrow> (utf8_exception + nat) option" where
  "getUtf8StringCharacterNumber utf8String = do {
     end_it \<leftarrow> find_invalid utf8String;
     distance_utf8 (take (length utf8String - length end_it) utf8String) 0
   }"

section \<open>Octets and bits\<close>

text \<open>Facts on words of eight and of 32 bits are settled bit by bit.\<close>

lemma all_less_8: "(\<forall>n < 8. P n) \<longleftrightarrow> P 0 \<and> P 1 \<and> P 2 \<and> P 3 \<and> P 4 \<and> P 5 \<and> P 6 \<and> P (7 :: nat)"
  by (simp add: numeral_eq_Suc All_less_Suc conj_ac)
lemma all_less_32: "(\<forall>n < 32. P n) \<longleftrightarrow> (P 0 \<and> P 1 \<and> P 2 \<and> P 3 \<and> P 4 \<and> P 5 \<and> P 6 \<and> P 7 \<and> P 8 \<and> P 9 \<and> P 10 \<and> P 11 \<and> P 12 \<and> P 13 \<and> P 14 \<and> P 15 \<and> P 16 \<and> P 17 \<and> P 18 \<and> P 19 \<and> P 20 \<and> P 21 \<and> P 22 \<and> P 23 \<and> P 24 \<and> P 25 \<and> P 26 \<and> P 27 \<and> P 28 \<and> P 29 \<and> P 30 \<and> P (31::nat))"
  by (simp add: numeral_eq_Suc All_less_Suc conj_ac)
lemma word8_eq: "(a :: u8) = b \<longleftrightarrow> (\<forall>n < 8. bit a n = bit b n)" by (auto intro: bit_word_eqI)
lemma word32_eq: "(a :: u32) = b \<longleftrightarrow> (\<forall>n < 32. bit a n = bit b n)" by (auto intro: bit_word_eqI)


lemma bit_u8: "8 \<le> n \<Longrightarrow> \<not> bit (w :: u8) n" by (auto dest: bit_imp_le_length)
lemma bit_u32: "32 \<le> n \<Longrightarrow> \<not> bit (w :: u32) n" by (auto dest: bit_imp_le_length)
lemmas bitwise = word8_eq word32_eq all_less_8 all_less_32 bit_simps bit_u8 bit_u32

lemma drop_bit_0_iff: "drop_bit k (cp :: 'a::len word) = 0 \<longleftrightarrow> unat cp < 2 ^ k"
proof -
  have "drop_bit k cp = 0 \<longleftrightarrow> drop_bit k (unat cp) = 0" by (metis unat_eq_0 unat_drop_bit_eq)
  then show ?thesis by (simp only: drop_bit_eq_div div_eq_0_iff) simp
qed

lemma sequence_length_bits: "sequence_length lead = (if \<not> bit lead 7 then 1 else if \<not> bit lead 6 then 0 else if \<not> bit lead 5 then 2
    else if \<not> bit lead 4 then 3 else if \<not> bit lead 3 then 4 else 0)"
proof -
  have "lead < 0x80 \<longleftrightarrow> drop_bit 7 lead = 0" by (simp add: drop_bit_0_iff word_less_nat_alt)
  then have "lead < 0x80 \<longleftrightarrow> \<not> bit lead 7" by (simp add: bitwise)
  moreover have "drop_bit 5 lead = 0x6 \<longleftrightarrow> bit lead 7 \<and> bit lead 6 \<and> \<not> bit lead 5" by (simp add: bitwise) auto
  moreover have "drop_bit 4 lead = 0xe \<longleftrightarrow> bit lead 7 \<and> bit lead 6 \<and> bit lead 5 \<and> \<not> bit lead 4" by (simp add: bitwise) auto
  moreover have "drop_bit 3 lead = 0x1e \<longleftrightarrow> bit lead 7 \<and> bit lead 6 \<and> bit lead 5 \<and> bit lead 4 \<and> \<not> bit lead 3" by (simp add: bitwise) auto
  ultimately show ?thesis by (simp add: sequence_length_def)
qed

lemma is_trail_bits: "is_trail b \<longleftrightarrow> bit b 7 \<and> \<not> bit b 6"
  by (simp add: is_trail_def bitwise) auto

lemma code_point_bounds:
  "(cp :: u32) < 0x80 \<longleftrightarrow> drop_bit 7 cp = 0" "cp < 0x800 \<longleftrightarrow> drop_bit 11 cp = 0" "cp < 0x10000 \<longleftrightarrow> drop_bit 16 cp = 0"
  by (simp_all add: drop_bit_0_iff word_less_nat_alt)

lemma code_point_max: "is_code_point_valid cp \<Longrightarrow> drop_bit 21 cp = 0"
  by (simp add: is_code_point_valid_def CODE_POINT_MAX_def drop_bit_0_iff word_le_nat_alt)

text \<open>The decoded code points of two, three and four octets.\<close>

definition join2 :: "u8 \<Rightarrow> u8 \<Rightarrow> u32" where
  "join2 a b = (push_bit 6 (ucast a) AND 0x7ff) + (ucast b AND 0x3f)"
definition join3 :: "u8 \<Rightarrow> u8 \<Rightarrow> u8 \<Rightarrow> u32" where
  "join3 a b c = (push_bit 12 (ucast a) AND 0xffff) + (push_bit 6 (ucast b) AND 0xfff) + (ucast c AND 0x3f)"
definition join4 :: "u8 \<Rightarrow> u8 \<Rightarrow> u8 \<Rightarrow> u8 \<Rightarrow> u32" where
  "join4 a b c d = (push_bit 18 (ucast a) AND 0x1fffff) + (push_bit 12 (ucast b) AND 0x3ffff) + (push_bit 6 (ucast c) AND 0xfff) + (ucast d AND 0x3f)"

lemma disjoint_sum: "x AND y = 0 \<Longrightarrow> x + y = x OR (y :: u32)"
  by (rule disjunctive_add_eq_or)

lemma join2_or: "join2 a b = (push_bit 6 (ucast a) AND 0x7c0) OR (ucast b AND 0x3f)"
  unfolding join2_def by (subst disjoint_sum) (simp_all add: bitwise)
lemma join3_or: "join3 a b c = (push_bit 12 (ucast a) AND 0xf000) OR (push_bit 6 (ucast b) AND 0xfc0) OR (ucast c AND 0x3f)"
  unfolding join3_def by (subst disjoint_sum, simp add: bitwise, subst disjoint_sum, simp add: bitwise, simp add: bitwise)
lemma join4_or: "join4 a b c d = (push_bit 18 (ucast a) AND 0x1c0000) OR (push_bit 12 (ucast b) AND 0x3f000) OR (push_bit 6 (ucast c) AND 0xfc0) OR (ucast d AND 0x3f)"
  unfolding join4_def by (subst disjoint_sum, simp add: bitwise, subst disjoint_sum, simp add: bitwise, subst disjoint_sum, simp add: bitwise, simp add: bitwise)

lemma split2:
  assumes "drop_bit 11 (cp :: u32) = 0"
  shows "join2 (ucast (drop_bit 6 cp OR 0xc0)) (ucast ((cp AND 0x3f) OR 0x80)) = cp"
  using assms by (simp add: join2_or bitwise)
lemma split3:
  assumes "drop_bit 16 (cp :: u32) = 0"
  shows "join3 (ucast (drop_bit 12 cp OR 0xe0)) (ucast ((drop_bit 6 cp AND 0x3f) OR 0x80)) (ucast ((cp AND 0x3f) OR 0x80)) = cp"
  using assms by (simp add: join3_or bitwise)
lemma split4:
  assumes "drop_bit 21 (cp :: u32) = 0"
  shows "join4 (ucast (drop_bit 18 cp OR 0xf0)) (ucast ((drop_bit 12 cp AND 0x3f) OR 0x80)) (ucast ((drop_bit 6 cp AND 0x3f) OR 0x80)) (ucast ((cp AND 0x3f) OR 0x80)) = cp"
  using assms by (simp add: join4_or bitwise)

lemma join2_octets:
  assumes "sequence_length a = 2" "is_trail b"
  shows "drop_bit 11 (join2 a b) = 0" "ucast (drop_bit 6 (join2 a b) OR 0xc0) = a" "ucast ((join2 a b AND 0x3f) OR 0x80) = b"
  using assms by (simp_all add: join2_or is_trail_bits sequence_length_bits bitwise split: if_splits)
lemma join3_octets:
  assumes "sequence_length a = 3" "is_trail b" "is_trail c"
  shows "drop_bit 16 (join3 a b c) = 0" "ucast (drop_bit 12 (join3 a b c) OR 0xe0) = a" "ucast ((drop_bit 6 (join3 a b c) AND 0x3f) OR 0x80) = b"
    "ucast ((join3 a b c AND 0x3f) OR 0x80) = c"
  using assms by (simp_all add: join3_or is_trail_bits sequence_length_bits bitwise split: if_splits)
lemma join4_octets:
  assumes "sequence_length a = 4" "is_trail b" "is_trail c" "is_trail d"
  shows "ucast (drop_bit 18 (join4 a b c d) OR 0xf0) = a" "ucast ((drop_bit 12 (join4 a b c d) AND 0x3f) OR 0x80) = b"
    "ucast ((drop_bit 6 (join4 a b c d) AND 0x3f) OR 0x80) = c" "ucast ((join4 a b c d AND 0x3f) OR 0x80) = d"
  using assms by (simp_all add: join4_or is_trail_bits sequence_length_bits bitwise split: if_splits)

section \<open>One code point\<close>

lemma get_sequence_join:
  assumes "get_sequence (sequence_length a) (a # r) = Inr (it, cp)"
  obtains "sequence_length a = 1" "it = [a] @ r" "cp = ucast a"
  | b s where "sequence_length a = 2" "r = b # s" "is_trail b" "it = b # s" "cp = join2 a b"
  | b c s where "sequence_length a = 3" "r = b # c # s" "is_trail b" "is_trail c" "it = c # s" "cp = join3 a b c"
  | b c d s where "sequence_length a = 4" "r = b # c # d # s" "is_trail b" "is_trail c" "is_trail d" "it = d # s" "cp = join4 a b c d"
  using assms by (auto simp: get_sequence_defs Let_def increase_safely_Inr join2_def join3_def join4_def sequence_length_def split: if_splits sum.splits)

lemma octet_lengths:
  "drop_bit 7 (cp :: u32) = 0 \<Longrightarrow> sequence_length (ucast cp) = 1" "drop_bit 11 cp = 0 \<Longrightarrow> sequence_length (ucast (drop_bit 6 cp OR 0xc0)) = 2"
  "drop_bit 16 cp = 0 \<Longrightarrow> sequence_length (ucast (drop_bit 12 cp OR 0xe0)) = 3" "drop_bit 21 cp = 0 \<Longrightarrow> sequence_length (ucast (drop_bit 18 cp OR 0xf0)) = 4"
  "is_trail (ucast ((cp AND 0x3f) OR 0x80))"
  by (simp_all add: sequence_length_bits is_trail_bits bitwise)

lemma append_utf8_Inr: "append_utf8 cp = Inr bs \<Longrightarrow> is_code_point_valid cp \<and> bs \<noteq> []"
  by (auto simp: append_utf8_def split: if_splits)

lemma append_utf8_valid: "is_code_point_valid cp \<Longrightarrow> \<exists>bs. append_utf8 cp = Inr bs"
  by (simp add: append_utf8_def)

lemma validate_append:
  assumes "append_utf8 cp = Inr bs"
  shows "validate_next (bs @ rest) = Some (Inr (rest, cp))"
proof -
  note steps = validate_next_def get_sequence_defs increase_safely_def is_overlong_sequence_def Let_def
  have ok: "is_code_point_valid cp" using append_utf8_Inr [OF assms] by simp
  note le = code_point_bounds [of cp] code_point_max [OF ok]
  consider "cp < 0x80" | "cp < 0x800" "\<not> cp < 0x80" | "cp < 0x10000" "\<not> cp < 0x800" "\<not> cp < 0x80" | "\<not> cp < 0x10000" "\<not> cp < 0x800" "\<not> cp < 0x80"
    by blast
  then show ?thesis
  proof cases
    case 1
    have "ucast (ucast cp :: u8) = cp" using 1 unfolding code_point_bounds by (simp add: bitwise)
    moreover have "bs = [ucast cp]" using assms ok 1 by (simp add: append_utf8_def)
    ultimately show ?thesis using 1 ok octet_lengths(1) le(1) by (simp add: validate_next_def get_sequence_defs is_overlong_sequence_def)
  next
    case 2
    let ?a = "ucast (drop_bit 6 cp OR 0xc0) :: u8" and ?b = "ucast ((cp AND 0x3f) OR 0x80) :: u8"
    have "bs = [?a, ?b]" using assms ok 2 by (simp add: append_utf8_def)
    moreover have "join2 ?a ?b = cp" "sequence_length ?a = 2" using 2 le split2 octet_lengths(2) by auto
    ultimately show ?thesis using 2 ok octet_lengths(5) by (simp add: steps flip: join2_def)
  next
    case 3
    let ?a = "ucast (drop_bit 12 cp OR 0xe0) :: u8" and ?b = "ucast ((drop_bit 6 cp AND 0x3f) OR 0x80) :: u8" and ?c = "ucast ((cp AND 0x3f) OR 0x80) :: u8"
    have "bs = [?a, ?b, ?c]" using assms ok 3 by (simp add: append_utf8_def)
    moreover have "join3 ?a ?b ?c = cp" "sequence_length ?a = 3" using 3 le split3 octet_lengths(3) by auto
    ultimately show ?thesis using 3 ok octet_lengths(5) by (simp add: steps flip: join3_def)
  next
    case 4
    let ?a = "ucast (drop_bit 18 cp OR 0xf0) :: u8" and ?b = "ucast ((drop_bit 12 cp AND 0x3f) OR 0x80) :: u8"
      and ?c = "ucast ((drop_bit 6 cp AND 0x3f) OR 0x80) :: u8" and ?d = "ucast ((cp AND 0x3f) OR 0x80) :: u8"
    have "bs = [?a, ?b, ?c, ?d]" using assms ok 4 by (simp add: append_utf8_def)
    moreover have "join4 ?a ?b ?c ?d = cp" "sequence_length ?a = 4" using le split4 octet_lengths(4) by auto
    ultimately show ?thesis using 4 ok octet_lengths(5) by (simp add: steps flip: join4_def)
  qed
qed

lemma validate_inverse:
  assumes "validate_next it = Some (Inr (rest, cp))"
  shows "\<exists>bs. append_utf8 cp = Inr bs \<and> it = bs @ rest"
proof -
  obtain a r it' where it: "it = a # r" "get_sequence (sequence_length a) (a # r) = Inr (it', cp)" "is_code_point_valid cp"
      "\<not> is_overlong_sequence cp (sequence_length a)" "rest = tl it'"
    using assms by (auto simp: validate_next_def Let_def split: list.splits sum.splits prod.splits if_splits)
  note d = append_utf8_def is_overlong_sequence_def
  from it(2) show ?thesis
  proof (cases rule: get_sequence_join)
    case 1
    have "\<not> bit a 7" using 1(1) by (simp add: sequence_length_bits split: if_splits)
    then have "drop_bit 7 (ucast a :: u32) = 0" by (simp add: bitwise)
    moreover have "ucast (ucast a :: u32) = a" by (simp add: bitwise)
    ultimately have "cp < 0x80" "ucast cp = a" unfolding code_point_bounds 1(3) by auto
    then show ?thesis using 1 it(1,3,5) by (simp add: append_utf8_def)
  next
    case (2 b s)
    then have "cp < 0x800" "ucast (drop_bit 6 cp OR 0xc0) = a" "ucast ((cp AND 0x3f) OR 0x80) = b"
      using join2_octets [OF 2(1,3)] by (simp_all add: code_point_bounds)
    then show ?thesis using 2 it by (auto simp: d split: if_splits)
  next
    case (3 b c s)
    then have "cp < 0x10000" "ucast (drop_bit 12 cp OR 0xe0) = a" "ucast ((drop_bit 6 cp AND 0x3f) OR 0x80) = b" "ucast ((cp AND 0x3f) OR 0x80) = c"
      using join3_octets [OF 3(1,3,4)] by (simp_all add: code_point_bounds)
    then show ?thesis using 3 it by (auto simp: d split: if_splits)
  next
    case (4 b c e s)
    then show ?thesis using join4_octets [OF 4(1,3,4,5)] it by (auto simp: d split: if_splits)
  qed
qed

section \<open>Strings\<close>

text \<open>Strings that begin with no code point: the end, or an error.\<close>

definition stuck :: "u8 list \<Rightarrow> bool" where
  "stuck it \<longleftrightarrow> (\<nexists>cp bs rest. append_utf8 cp = Inr bs \<and> it = bs @ rest)"

lemma validate_next_stuck: "validate_next it = Some (Inl e) \<Longrightarrow> stuck it"
  using validate_append by (fastforce simp: stuck_def)

lemma validate_next_cases:
  obtains "it = []" "stuck it" | e where "it \<noteq> []" "validate_next it = Some (Inl e)" "stuck it"
  | cp bs rest where "append_utf8 cp = Inr bs" "it = bs @ rest" "it \<noteq> []" "validate_next it = Some (Inr (rest, cp))"
proof (cases "it = []")
  case True
  then have "stuck it" using append_utf8_Inr by (fastforce simp: stuck_def)
  then show thesis using that(1) True by blast
next
  case False
  then have "\<exists>y. validate_next it = Some y" by (cases it) (simp_all add: validate_next_def Let_def)
  then obtain y where y: "validate_next it = Some y" ..
  show thesis
  proof (cases y)
    case (Inl e)
    then show thesis using that(2) [of e] y False validate_next_stuck [of it e] by simp
  next
    case (Inr x)
    then show thesis using that(3) y False validate_inverse [of it "fst x" "snd x"] by (cases x) auto
  qed
qed

lemma utf32to8_acc: "utf32to8 v (acc @ bs) = (case utf32to8 v bs of Inl e \<Rightarrow> Inl e | Inr s \<Rightarrow> Inr (acc @ s))"
  by (induction v arbitrary: bs) (auto split: sum.splits)

lemma utf32to8_Cons: "utf32to8 (cp # v) [] = Inr s \<longleftrightarrow> (\<exists>bs s'. append_utf8 cp = Inr bs \<and> utf32to8 v [] = Inr s' \<and> s = bs @ s')"
proof (cases "append_utf8 cp")
  case (Inr bs)
  then show ?thesis using utf32to8_acc [of v bs "[]"] by (auto split: sum.splits)
qed simp

lemma encoded_append: "utf32to8 u [] = Inr s \<Longrightarrow> utf32to8 v [] = Inr s' \<Longrightarrow> utf32to8 (u @ v) [] = Inr (s @ s')"
proof (induction u arbitrary: s)
  case (Cons cp u)
  then show ?case unfolding append_Cons utf32to8_Cons by fastforce
qed simp

lemma decode_step:
  assumes "append_utf8 cp = Inr bs"
  shows "find_invalid (bs @ rest) = find_invalid rest" "utf8to32 (bs @ rest) result = utf8to32 rest (result @ [cp])"
    "distance_utf8 (bs @ rest) dist = distance_utf8 rest (dist + 1)"
proof -
  have n: "bs @ rest \<noteq> []" "validate_next (bs @ rest) = Some (Inr (rest, cp))" using append_utf8_Inr [OF assms] validate_append [OF assms] by auto
  then have "next_utf8 (bs @ rest) = Some (Inr (rest, cp))" by (simp add: next_utf8_Inr)
  then show "find_invalid (bs @ rest) = find_invalid rest" "utf8to32 (bs @ rest) result = utf8to32 rest (result @ [cp])"
    "distance_utf8 (bs @ rest) dist = distance_utf8 rest (dist + 1)"
    using n by (subst find_invalid.simps utf8to32.simps distance_utf8.simps, simp)+
qed

lemma stuck_find_invalid: "stuck rest \<Longrightarrow> find_invalid rest = Some rest"
  by (cases rest rule: validate_next_cases) (auto simp: stuck_def find_invalid.simps)

lemma encoded_prefix:
  "utf32to8 v [] = Inr p \<Longrightarrow> find_invalid (p @ rest) = find_invalid rest \<and> utf8to32 p result = Some (Inr (result @ v))
    \<and> distance_utf8 p dist = Some (Inr (dist + length v))"
proof (induction v arbitrary: p result dist)
  case Nil
  then show ?case by (simp add: utf8to32.simps distance_utf8.simps)
next
  case (Cons cp v)
  then obtain bs s where "append_utf8 cp = Inr bs" "utf32to8 v [] = Inr s" "p = bs @ s" unfolding utf32to8_Cons by blast
  then show ?case using Cons.IH [of s "result @ [cp]" "dist + 1"] by (simp add: decode_step)
qed

lemma split_valid: "\<exists>v p rest. utf32to8 v [] = Inr p \<and> it = p @ rest \<and> stuck rest"
proof (induction "length it" arbitrary: it rule: less_induct)
  case less
  show ?case
  proof (cases it rule: validate_next_cases)
    case 1
    then show ?thesis by (intro exI [of _ "[]"] exI [of _ it]) simp
  next
    case 2
    then show ?thesis by (intro exI [of _ "[]"] exI [of _ it]) simp
  next
    case (3 cp bs r)
    then have "length r < length it" using append_utf8_Inr by fastforce
    then obtain v p rest where "utf32to8 v [] = Inr p" "r = p @ rest" "stuck rest" using less by blast
    then show ?thesis using 3 utf32to8_Cons [of cp v "bs @ p"] by (intro exI [of _ "cp # v"] exI [of _ "bs @ p"] exI [of _ rest]) auto
  qed
qed

lemma utf32to8_valid: "(\<exists>s. utf32to8 v bs = Inr s) \<longleftrightarrow> list_all is_code_point_valid v"
proof (induction v arbitrary: bs)
  case (Cons cp v)
  then show ?case using append_utf8_valid [of cp] append_utf8_Inr [of cp] by (cases "append_utf8 cp") auto
qed simp

lemma utf32to8_invalid: "find (\<lambda>c. \<not> is_code_point_valid c) v = Some cp \<Longrightarrow> utf32to8 v bs = Inl (invalid_code_point cp)"
proof (induction v arbitrary: bs)
  case (Cons c v)
  then show ?case using append_utf8_valid [of c] by (auto simp: append_utf8_def [of cp] split: if_splits)
qed simp

lemma decoded:
  assumes "utf32to8 v [] = Inr p" "stuck rest"
  shows "utf8StringToCharTypeVector (p @ rest) = Some (Inr v)" "getUtf8StringCharacterNumber (p @ rest) = Some (Inr (length v))"
    "find_invalid (p @ rest) = Some rest"
  using encoded_prefix [OF assms(1), of rest "[]" 0] stuck_find_invalid [OF assms(2)]
  by (simp_all add: utf8StringToCharTypeVector_def getUtf8StringCharacterNumber_def)

text \<open>
  C16. Encoding and decoding of keywords: every vector of valid code points is encoded into a valid UTF-8 string, which is decoded
  into the same vector and has as many characters; a vector with an invalid code point raises the exception
  for the first one.
\<close>

theorem utf8_roundtrip:
  "case find (\<lambda>c. \<not> is_code_point_valid c) v of
     Some c \<Rightarrow> charTypeVectorToUtf8String v = Inl (invalid_code_point c)
   | None \<Rightarrow> \<exists>s. charTypeVectorToUtf8String v = Inr s \<and> is_valid s = Some True \<and> utf8StringToCharTypeVector s = Some (Inr v)
       \<and> getUtf8StringCharacterNumber s = Some (Inr (length v))"
proof (cases "find (\<lambda>c. \<not> is_code_point_valid c) v")
  case None
  then have "list_all is_code_point_valid v" by (auto simp: find_None_iff list_all_iff)
  then obtain s where s: "utf32to8 v [] = Inr s" using utf32to8_valid by blast
  have "stuck []" using append_utf8_Inr by (auto simp: stuck_def)
  then show ?thesis using s decoded [OF s, of "[]"] None by (simp add: charTypeVectorToUtf8String_def is_valid_def)
next
  case (Some c)
  then show ?thesis using utf32to8_invalid by (simp add: charTypeVectorToUtf8String_def)
qed

lemma utf8_decodes:
  "\<exists>v p rest. utf8StringToCharTypeVector s = Some (Inr v) \<and> s = p @ rest \<and> charTypeVectorToUtf8String v = Inr p
    \<and> find_invalid s = Some rest \<and> getUtf8StringCharacterNumber s = Some (Inr (length v)) \<and> stuck rest"
proof -
  obtain v p rest where "utf32to8 v [] = Inr p" "s = p @ rest" "stuck rest" using split_valid by blast
  then show ?thesis using decoded [of v p rest] by (auto simp: charTypeVectorToUtf8String_def)
qed

text \<open>
  C15. Decoding of any bytes: \<open>utf8StringToCharTypeVector\<close> never fails or raises an exception. It returns the code points of the longest
  prefix that is the encoding of code points; the rest that \<open>find_invalid\<close> points to is empty or does not begin
  with the encoding of a code point, so that overlong forms, surrogates and truncated sequences are refused.
\<close>

theorem utf8_decode_canonical:
  "\<exists>v p rest. utf8StringToCharTypeVector utf8String = Some (Inr v) \<and> utf8String = p @ rest \<and> charTypeVectorToUtf8String v = Inr p
    \<and> find_invalid utf8String = Some rest \<and> getUtf8StringCharacterNumber utf8String = Some (Inr (length v))
    \<and> (\<nexists>cp bs rest'. append_utf8 cp = Inr bs \<and> rest = bs @ rest')"
  using utf8_decodes [of utf8String] unfolding stuck_def .

section \<open>UTF-16 and repair\<close>

lemma word16_eq: "(a :: u16) = b \<longleftrightarrow> (\<forall>n < 16. bit a n = bit b n)"
  by (auto intro: bit_word_eqI)

lemma ucast_16: "(x :: u32) < 0x10000 \<Longrightarrow> ucast (ucast x :: u16) = x"
  unfolding code_point_bounds by (simp add: bitwise)

lemma surrogate_pair:
  assumes "0xffff < cp" "is_code_point_valid cp"
  shows "is_lead_surrogate (drop_bit 10 cp + 0xd7c0)" "is_trail_surrogate ((cp AND 0x3ff) + 0xdc00)"
    "push_bit 10 (drop_bit 10 cp + 0xd7c0) + ((cp AND 0x3ff) + 0xdc00) + SURROGATE_OFFSET = cp"
    "drop_bit 10 cp + 0xd7c0 < 0x10000" "(cp AND 0x3ff) + 0xdc00 < 0x10000"
proof -
  have u: "unat cp \<le> 0x10ffff" "0xffff < unat cp" using assms by (simp_all add: is_code_point_valid_def CODE_POINT_MAX_def word_le_nat_alt word_less_nat_alt)
  have h: "unat (drop_bit 10 cp) = unat cp div 1024" unfolding unat_drop_bit_eq by (simp add: drop_bit_eq_div)
  have l: "(cp AND 0x3ff) = take_bit 10 cp" by (simp add: take_bit_eq_mask mask_eq_exp_minus_1)
  then have l': "unat (cp AND 0x3ff) < 1024" using take_bit_nat_less_exp [of 10 "unat cp"] by (simp add: unsigned_take_bit_eq)
  have "unat cp div 1024 < 0x440" "64 \<le> unat cp div 1024" using u by (auto simp: div_less_iff_less_mult)
  then have h': "unat (drop_bit 10 cp + 0xd7c0) = unat cp div 1024 + 0xd7c0" by (subst unat_word_ariths) (simp add: h)
  have l2: "unat ((cp AND 0x3ff) + 0xdc00) = unat (cp AND 0x3ff) + 0xdc00" using l' by (subst unat_word_ariths) simp
  show "is_lead_surrogate (drop_bit 10 cp + 0xd7c0)" "drop_bit 10 cp + 0xd7c0 < 0x10000"
    using \<open>unat cp div 1024 < 0x440\<close> \<open>64 \<le> unat cp div 1024\<close>
    by (simp_all add: is_lead_surrogate_def LEAD_SURROGATE_MIN_def LEAD_SURROGATE_MAX_def word_le_nat_alt word_less_nat_alt h')
  show "is_trail_surrogate ((cp AND 0x3ff) + 0xdc00)" "(cp AND 0x3ff) + 0xdc00 < 0x10000"
    using l' by (simp_all add: is_trail_surrogate_def TRAIL_SURROGATE_MIN_def TRAIL_SURROGATE_MAX_def word_le_nat_alt word_less_nat_alt l2)
  have "push_bit 10 (drop_bit 10 cp) AND (cp AND 0x3ff) = 0" by (simp add: bitwise)
  then have "push_bit 10 (drop_bit 10 cp) + (cp AND 0x3ff) = push_bit 10 (drop_bit 10 cp) OR (cp AND 0x3ff)" by (rule disjoint_sum)
  also have "\<dots> = cp" by (simp add: bitwise)
  finally have "cp = push_bit 10 (drop_bit 10 cp) + (cp AND 0x3ff)" ..
  moreover have "push_bit 10 (drop_bit 10 cp + 0xd7c0) = push_bit 10 (drop_bit 10 cp) + 0x35f0000"
    by (simp add: push_bit_eq_mult algebra_simps)
  ultimately show "push_bit 10 (drop_bit 10 cp + 0xd7c0) + ((cp AND 0x3ff) + 0xdc00) + SURROGATE_OFFSET = cp"
    by (simp add: SURROGATE_OFFSET_def LEAD_SURROGATE_MIN_def TRAIL_SURROGATE_MIN_def push_bit_eq_mult algebra_simps)
qed

text \<open>UTF-16 units carry the same strings.\<close>

lemma utf16_step:
  assumes "append_utf8 cp = Inr bs"
  shows "utf16to8 (utf16_units cp @ us) result = utf16to8 us (result @ bs)"
proof -
  have ok: "is_code_point_valid cp" using append_utf8_Inr [OF assms] by simp
  have off: "ucast LEAD_OFFSET = (0xd7c0 :: u32)" by (simp add: LEAD_OFFSET_def LEAD_SURROGATE_MIN_def)
  show ?thesis
  proof (cases "0xffff < cp")
    case True
    note p = surrogate_pair [OF True ok]
    have "utf16_units cp = [ucast (drop_bit 10 cp + 0xd7c0), ucast ((cp AND 0x3ff) + 0xdc00)]"
      using True by (simp add: utf16_units_def off TRAIL_SURROGATE_MIN_def)
    then show ?thesis using p ucast_16 [OF p(4)] ucast_16 [OF p(5)] assms by (simp add: Let_def)
  next
    case False
    then have "cp < 0x10000" by (simp add: word_less_nat_alt not_less word_le_nat_alt)
    moreover have "\<not> is_lead_surrogate cp \<and> \<not> is_trail_surrogate cp"
      using ok by (auto simp: is_code_point_valid_def is_surrogate_def is_lead_surrogate_def is_trail_surrogate_def LEAD_SURROGATE_MIN_def
        LEAD_SURROGATE_MAX_def TRAIL_SURROGATE_MIN_def TRAIL_SURROGATE_MAX_def word_le_nat_alt)
    ultimately show ?thesis using False assms ucast_16 [of cp] by (simp add: utf16_units_def Let_def)
  qed
qed

lemma utf16_roundtrip:
  "utf32to8 v [] = Inr s \<Longrightarrow> utf8to16 s us = Some (Inr (us @ concat (map utf16_units v))) \<and> utf16to8 (concat (map utf16_units v)) result = Inr (result @ s)"
proof (induction v arbitrary: s us result)
  case Nil
  then show ?case by (simp add: utf8to16.simps)
next
  case (Cons cp v)
  then obtain bs s' where s: "append_utf8 cp = Inr bs" "utf32to8 v [] = Inr s'" "s = bs @ s'" unfolding utf32to8_Cons by blast
  have "bs @ s' \<noteq> []" "next_utf8 (bs @ s') = Some (Inr (s', cp))"
    using append_utf8_Inr [OF s(1)] validate_append [OF s(1)] by (auto simp: next_utf8_Inr)
  then have "utf8to16 (bs @ s') us = utf8to16 s' (us @ utf16_units cp)" by (subst utf8to16.simps, simp, blast)
  then show ?case using Cons.IH [OF s(2), of "us @ utf16_units cp" "result @ bs"] utf16_step [OF s(1)] s(3) by simp
qed

text \<open>A repaired string is valid.\<close>

lemma replace_invalid_valid:
  "(\<exists>v. utf32to8 v [] = Inr out) \<Longrightarrow> replace_invalid start replacement out = Some (Inr out') \<Longrightarrow> \<exists>v. utf32to8 v [] = Inr out'"
proof (induction start replacement out rule: replace_invalid.induct)
  case (1 start replacement out)
  obtain v where v: "utf32to8 v [] = Inr out" using "1.prems"(1) by blast
  have app: "\<exists>v. utf32to8 v [] = Inr (out @ bs)" if "append_utf8 cp = Inr bs" for cp bs
  proof -
    have "utf32to8 (v @ [cp]) [] = Inr (out @ bs)" by (rule encoded_append [OF v]) (simp add: that)
    then show ?thesis by blast
  qed
  show ?case
  proof (cases start rule: validate_next_cases)
    case 1
    then show ?thesis using "1.prems" by (simp add: replace_invalid.simps)
  next
    case (2 e)
    then have "replace_invalid start replacement out = (if e = NOT_ENOUGH_ROOM then Some (Inl not_enough_room)
        else case append_utf8 replacement of Inl x \<Rightarrow> Some (Inl x)
        | Inr bs \<Rightarrow> if e = INVALID_LEAD then replace_invalid (tl start) replacement (out @ bs)
            else replace_invalid (dropWhile is_trail (tl start)) replacement (out @ bs))"
      by (subst replace_invalid.simps) simp
    then obtain bs where bs: "e \<noteq> NOT_ENOUGH_ROOM" "append_utf8 replacement = Inr bs"
        "(if e = INVALID_LEAD then replace_invalid (tl start) replacement (out @ bs)
          else replace_invalid (dropWhile is_trail (tl start)) replacement (out @ bs)) = Some (Inr out')"
      using "1.prems"(2) by (auto split: if_splits sum.splits)
    show ?thesis
    proof (cases "e = INVALID_LEAD")
      case True
      then show ?thesis using "1.IH"(1) [OF 2(1,2) refl bs(1,2) True app [OF bs(2)]] bs(3) by simp
    next
      case False
      then show ?thesis using "1.IH"(2) [OF 2(1,2) refl bs(1,2) False app [OF bs(2)]] bs(3) by simp
    qed
  next
    case (3 cp bs rest)
    have "take (length start - length rest) start = bs" using 3(2) by simp
    then have "replace_invalid start replacement out = replace_invalid rest replacement (out @ bs)"
      by (subst replace_invalid.simps) (simp add: 3(3,4))
    then show ?thesis using "1.prems"(2) "1.IH"(3) [OF 3(3,4) refl refl] app [OF 3(1)] 3(2) by simp
  qed
qed

end
