(* ===== verification/Active_Cache.thy ===== *)
theory Active_Cache
  imports Fuzzy_Search Cache_Manager Utf8
begin

text \<open>
  The active nodes of a query term with the cache of active nodes,
  \<^verbatim>\<open>HistogramManager::computeActiveNodeSet\<close> in \<^verbatim>\<open>src/src/core/operation/HistogramManager.cpp\<close>: the cached set of the
  longest prefix of the keyword is extended, and the sets of prefixes of three characters and more are
  stored. A search through the cache is a search without it.
\<close>

section \<open>The computation\<close>

text \<open>The bytes of a \<^verbatim>\<open>std::string\<close>.\<close>

definition octets :: "string \<Rightarrow> u8 list" where "octets s = map (\<lambda>c. of_nat (of_char c)) s"

definition characters :: "u8 list \<Rightarrow> string" where "characters bs = map (\<lambda>b. char_of (unat b)) bs"

text \<open>The loop over the characters that the initial set lacks. \<open>ob\<close> is \<open>getNumberOfBytes\<close> of a set, which depends on the
  capacities of its vectors.\<close>

fun activeNodeLoop :: "(node_ptr \<Rightarrow> nat) \<Rightarrow> (PrefixActiveNodeSet \<Rightarrow> u32) \<Rightarrow> Trie \<Rightarrow> CharType list \<Rightarrow> nat \<Rightarrow> int \<Rightarrow> PrefixActiveNodeSet \<Rightarrow>
    PrefixActiveNodeSet CacheContainer \<Rightarrow> (PrefixActiveNodeSet \<times> PrefixActiveNodeSet CacheContainer) option" where
  "activeNodeLoop addr ob t [] iter cacheResponse S c = Some (S, c)"
| "activeNodeLoop addr ob t (additionalCharacter # cs) iter cacheResponse S c = do {
     S \<leftarrow> computeActiveNodeSetIncrementally addr t additionalCharacter S;
     if iter \<ge> 2 \<and> cacheResponse \<noteq> -1 then do {
       S \<leftarrow> computeTrieNodeSetVector S;
       case charTypeVectorToUtf8String (queryPrefix S) of
         Inl _ \<Rightarrow> None
       | Inr prefixBytes \<Rightarrow> do {
           (cacheResponse, c) \<leftarrow> setPrefixActiveNodeSet ob (\<lambda>S. unat (editDistanceThreshold S)) (\<lambda>_. characters prefixBytes) S c;
           activeNodeLoop addr ob t cs (iter + 1) cacheResponse S c
         }
     }
     else activeNodeLoop addr ob t cs (iter + 1) cacheResponse S c
   }"

definition hasTheSameVersionTrie :: "PrefixActiveNodeSet \<Rightarrow> node_ptr \<Rightarrow> bool" where
  "hasTheSameVersionTrie S readView \<longleftrightarrow> trieRootNode S = readView"

definition computeActiveNodeSet :: "(node_ptr \<Rightarrow> nat) \<Rightarrow> (PrefixActiveNodeSet \<Rightarrow> u32) \<Rightarrow> bool \<Rightarrow> Trie \<Rightarrow> u32 \<Rightarrow> string \<Rightarrow>
    PrefixActiveNodeSet CacheContainer \<Rightarrow> (PrefixActiveNodeSet \<times> PrefixActiveNodeSet CacheContainer) option" where
  "computeActiveNodeSet addr ob swap t threshold keyword c = do {
     decoded \<leftarrow> utf8StringToCharTypeVector (octets keyword);
     case decoded of Inl _ \<Rightarrow> None
     | Inr charTypeKeyword \<Rightarrow>
         if charTypeKeyword = [] then None else do {
           (cacheHit, c) \<leftarrow> findLongestPrefixActiveNodes (\<lambda>S. unat (editDistanceThreshold S)) (unat threshold) keyword c;
           let fresh = PANSet_new addr (root_readview t) threshold swap;
           let (initial, cacheResponse) = (case cacheHit of
               None \<Rightarrow> (fresh, 0)
             | Some S \<Rightarrow> if \<not> hasTheSameVersionTrie S (root_readview t) then (fresh, 0) else (S, 1));
           let cachedPrefixLength = length (queryPrefix initial);
           activeNodeLoop addr ob t (drop cachedPrefixLength charTypeKeyword) cachedPrefixLength cacheResponse initial c
         }
   }"

section \<open>Stores of keyed objects\<close>

text \<open>What a client of a cache may rely on: a lookup delivers an object stored under the key, and a store adds at most
  that object; an entry may disappear at any time.\<close>

locale keyed_store =
  fixes get_obj :: "string \<Rightarrow> 'c \<Rightarrow> ('v option \<times> 'c) option" and put_obj :: "string \<Rightarrow> 'v \<Rightarrow> 'c \<Rightarrow> (bool \<times> 'c) option"
    and entries :: "'c \<Rightarrow> (string \<times> 'v) set" and ok :: "'c \<Rightarrow> bool"
  assumes get_law: "ok c \<Longrightarrow> \<exists>r c'. get_obj k c = Some (r, c') \<and> ok c' \<and> entries c' = entries c \<and> (\<forall>v. r = Some v \<longrightarrow> (k, v) \<in> entries c)"
    and put_law: "ok c \<Longrightarrow> \<exists>b c'. put_obj k v c = Some (b, c') \<and> ok c' \<and> entries c' \<subseteq> insert (k, v) (entries c)"
begin

definition holds :: "(string \<Rightarrow> 'v \<Rightarrow> bool) \<Rightarrow> 'c \<Rightarrow> bool" where
  "holds P c \<longleftrightarrow> ok c \<and> (\<forall>(k, v) \<in> entries c. P k v)"

lemma get_holds:
  assumes "holds P c"
  obtains r c' where "get_obj k c = Some (r, c')" "holds P c'" "\<And>v. r = Some v \<Longrightarrow> P k v"
proof -
  have c: "ok c" "\<And>k v. (k, v) \<in> entries c \<Longrightarrow> P k v" using assms by (auto simp: holds_def)
  obtain r c' where r: "get_obj k c = Some (r, c')" "ok c'" "entries c' = entries c" "\<forall>v. r = Some v \<longrightarrow> (k, v) \<in> entries c"
    using get_law [OF c(1), of k] by blast
  have "holds P c'" using r(2,3) c(2) by (auto simp: holds_def)
  then show thesis using that [OF r(1)] r(4) c(2) by blast
qed

lemma put_holds:
  assumes "holds P c" "P k v"
  obtains b c' where "put_obj k v c = Some (b, c')" "holds P c'"
  using assms put_law [of c k v] by (auto simp: holds_def) blast

end

definition cachedEntries :: "'a CacheContainer \<Rightarrow> (string \<times> 'a) set" where
  "cachedEntries c = {(key e, objectPointer e) | h e a. cacheEntries c h = Some (e, a)}"

definition lruOk :: "('a \<Rightarrow> u32) \<Rightarrow> 'a CacheContainer \<Rightarrow> bool" where
  "lruOk ob c \<longleftrightarrow> (\<exists>ys. lru_repr ob c ys) \<and> unat (cacheTotalByteBudget c) < 2 ^ 32"

lemma cachedEntries_repr: "lru_repr ob c ys \<Longrightarrow> cachedEntries c = (\<lambda>(h, e). (key e, objectPointer e)) ` set ys"
proof -
  assume "lru_repr ob c ys"
  then obtain xs where xs: "cache_repr ob c xs" "ys = map (\<lambda>(k, e, a). (k, e)) xs" by (auto simp: lru_repr_def)
  then have "cacheEntries c h = Some (e, a) \<longleftrightarrow> (h, e, a) \<in> set xs" for h e a by (simp add: cache_repr_def)
  then show ?thesis unfolding xs(2) cachedEntries_def by (force simp: image_iff)
qed

lemma abs_get_entries: "set (snd (abs_get k ys)) \<subseteq> set ys" "distinct (map fst ys) \<Longrightarrow> set ys \<subseteq> set (snd (abs_get k ys))"
    "fst (abs_get k ys) = Some v \<Longrightarrow> \<exists>h e. (h, e) \<in> set ys \<and> key e = k \<and> objectPointer e = v"
  by (auto simp: abs_get_def split: option.splits if_splits dest: map_of_SomeD eq_key_imp_eq_value)

lemma abs_put_entries: "(h, e) \<in> set (snd (abs_put ob budget k obj ys)) \<Longrightarrow> (h, e) \<in> set ys \<or> e = newEntryFor ob k obj"
proof -
  have "set (evict ob n budget ys) \<subseteq> set ys" for n using evict_suffix [of ys ob n budget] by (metis Un_upper2 set_append)
  then show "(h, e) \<in> set (snd (abs_put ob budget k obj ys)) \<Longrightarrow> (h, e) \<in> set ys \<or> e = newEntryFor ob k obj"
    by (auto simp: abs_put_def Let_def split: if_splits)
qed

lemma newEntryFor_fields: "key (newEntryFor ob k obj) = k" "objectPointer (newEntryFor ob k obj) = obj"
  by (simp_all add: newEntryFor_def CacheEntry_new_def getNumberOfBytesUsedByEntry_def getNumberOfBytes_def Let_def)

lemma lru_repr_distinct: "lru_repr ob c ys \<Longrightarrow> distinct (map fst ys)"
  by (auto simp: lru_repr_def cache_repr_def comp_def case_prod_beta)

interpretation lruStore: keyed_store get_entry "put ob" cachedEntries "lruOk ob" for ob :: "'a \<Rightarrow> u32"
proof
  fix c :: "'a CacheContainer" and k and v :: 'a
  assume "lruOk ob c"
  then obtain ys where ys: "lru_repr ob c ys" "unat (cacheTotalByteBudget c) < 2 ^ 32" by (auto simp: lruOk_def)
  obtain c1 where c1: "get_entry k c = Some (fst (abs_get k ys), c1)" "lru_repr ob c1 (snd (abs_get k ys))"
      "cacheTotalByteBudget c1 = cacheTotalByteBudget c"
    using get_entry_refines [OF ys(1), of k] by blast
  have "set (snd (abs_get k ys)) = set ys" using abs_get_entries(1,2) lru_repr_distinct [OF ys(1)] by blast
  then have "cachedEntries c1 = cachedEntries c" using cachedEntries_repr [OF c1(2)] cachedEntries_repr [OF ys(1)] by simp
  moreover have "(k, v) \<in> cachedEntries c" if "fst (abs_get k ys) = Some v" for v
    using abs_get_entries(3) [OF that] cachedEntries_repr [OF ys(1)] by (force simp: image_iff)
  ultimately show "\<exists>r c'. get_entry k c = Some (r, c') \<and> lruOk ob c' \<and> cachedEntries c' = cachedEntries c
      \<and> (\<forall>v. r = Some v \<longrightarrow> (k, v) \<in> cachedEntries c)"
    using c1 ys(2) by (auto simp: lruOk_def)
  let ?p = "abs_put ob (unat (cacheTotalByteBudget c)) k v ys"
  obtain c2 where c2: "put ob k v c = Some (fst ?p, c2)" "lru_repr ob c2 (snd ?p)" "cacheTotalByteBudget c2 = cacheTotalByteBudget c"
    using put_refines [OF ys, of k v] by blast
  have "cachedEntries c2 \<subseteq> insert (k, v) (cachedEntries c)"
    unfolding cachedEntries_repr [OF c2(2)] cachedEntries_repr [OF ys(1)]
    using abs_put_entries [of _ _ ob "unat (cacheTotalByteBudget c)" k v ys] newEntryFor_fields [of ob k v] by force
  then show "\<exists>b c'. put ob k v c = Some (b, c') \<and> lruOk ob c' \<and> cachedEntries c' \<subseteq> insert (k, v) (cachedEntries c)"
    using c2 ys(2) by (auto simp: lruOk_def)
qed

section \<open>What an extension keeps\<close>

text \<open>Two sets of the same query; distances within the threshold.\<close>

definition sameQuery :: "PrefixActiveNodeSet \<Rightarrow> PrefixActiveNodeSet \<Rightarrow> bool" where
  "sameQuery S S' \<longleftrightarrow> queryPrefix S' = queryPrefix S \<and> editDistanceThreshold S' = editDistanceThreshold S \<and> trieRootNode S' = trieRootNode S
    \<and> supportSwapInEditDistance S' = supportSwapInEditDistance S"

definition withinThreshold :: "PrefixActiveNodeSet \<Rightarrow> bool" where
  "withinThreshold S \<longleftrightarrow> (\<forall>(p, x) \<in> set (PANMap S). transformationdistance x \<le> editDistanceThreshold S)"

definition keeps :: "PrefixActiveNodeSet \<Rightarrow> PrefixActiveNodeSet \<Rightarrow> bool" where
  "keeps S S' \<longleftrightarrow> sameQuery S S' \<and> (withinThreshold S \<longrightarrow> withinThreshold S')"

lemma keeps_refl [simp]: "keeps S S" by (simp add: keeps_def sameQuery_def)

lemma keeps_trans: "keeps S S' \<Longrightarrow> keeps S' S'' \<Longrightarrow> keeps S S''" by (simp add: keeps_def sameQuery_def)

lemma addPAN_keeps: "keeps S (addPAN addr node pan S)"
  by (auto simp: keeps_def sameQuery_def withinThreshold_def addPAN_def set_insort_key not_less split: option.splits)

lemma matchChild_keeps: "matchChild addr t this pan gap child n new = Some (child', new') \<Longrightarrow> keeps new new'"
  by (auto simp: matchChild_def Let_def bind_eq_Some_conv split: if_splits intro: addPAN_keeps keeps_trans [OF addPAN_keeps addPAN_keeps])

lemma upToDepth_keeps:
  "addPANUpToDepth addr t this pan depthLimit c curDepth node new = Some new' \<Longrightarrow> keeps new new'"
  "addPANChildren addr t this pan depthLimit c curDepth children new = Some new' \<Longrightarrow> keeps new new'"
proof (induction addr t this pan depthLimit c curDepth node new and addr t this pan depthLimit c curDepth children new
    arbitrary: new' and new' rule: addPANUpToDepth_addPANChildren.induct)
  case 1
  then show ?case by (auto simp: addPANUpToDepth.simps Let_def bind_eq_Some_conv addPAN_keeps split: if_splits)
next
  case 2
  then show ?case by (simp add: addPANChildren.simps)
next
  case (3 addr t this pan depthLimit c curDepth child children new)
  obtain n where n: "nodes t child = Some n" using "3.prems" by (auto simp: addPANChildren.simps bind_eq_Some_conv)
  show ?case
  proof (cases "character n \<ge> CHARTYPE_FUZZY_UPPERBOUND")
    case True
    then show ?thesis using "3.prems" n by (simp add: addPANChildren.simps)
  next
    case False
    let ?m = "if character n = c then matchChild addr t this pan (max curDepth (unat (differ pan))) child n new else Some (child, new)"
    obtain child1 new1 new2 where m: "?m = Some (child1, new1)"
        "(if curDepth < depthLimit then addPANUpToDepth addr t this pan depthLimit c (curDepth + 1) child1 new1 else Some new1) = Some new2"
        "addPANChildren addr t this pan depthLimit c curDepth children new2 = Some new'"
      using "3.prems" n False by (auto simp: addPANChildren.simps(2) bind_eq_Some_conv)
    have "keeps new new1" using m(1) matchChild_keeps by (auto split: if_splits)
    moreover have "keeps new1 new2"
    proof (cases "curDepth < depthLimit")
      case True
      then show ?thesis using "3.IH"(1) [OF n False m(1) refl True] m(2) by simp
    next
      case False
      then show ?thesis using m(2) by simp
    qed
    moreover have "keeps new2 new'" by (rule "3.IH"(2) [OF n False m(1) refl m(2,3)])
    ultimately show ?thesis using keeps_trans by blast
  qed
qed

lemma addPANSets_keeps: "addPANSets addr t this c entries new = Some new' \<Longrightarrow> keeps new new'"
proof (induction entries arbitrary: new)
  case (Cons x xs)
  obtain node pan where x: "x = (node, pan)" by (cases x)
  obtain new1 where new1: "addPANSetForOneNode addr t this c x new = Some new1" "addPANSets addr t this c xs new1 = Some new'"
    using Cons.prems by (auto simp: bind_eq_Some_conv)
  have "keeps new (if c < CHARTYPE_FUZZY_UPPERBOUND then addPAN addr node (deletePAN pan) new else new)" using addPAN_keeps by simp
  moreover have "keeps (if c < CHARTYPE_FUZZY_UPPERBOUND then addPAN addr node (deletePAN pan) new else new) new1"
    using new1(1) upToDepth_keeps(1) unfolding addPANSetForOneNode_def x Let_def prod.case by blast
  ultimately have "keeps new new1" by (rule keeps_trans)
  then show ?case using Cons.IH [OF new1(2)] keeps_trans by blast
qed simp

lemma increment_keeps:
  assumes "computeActiveNodeSetIncrementally addr t c S = Some S'"
  shows "queryPrefix S' = queryPrefix S @ [c]" "editDistanceThreshold S' = editDistanceThreshold S" "trieRootNode S' = trieRootNode S"
    "supportSwapInEditDistance S' = supportSwapInEditDistance S" "withinThreshold S'"
proof -
  let ?new = "PANSet_init (queryPrefix S @ [c]) (editDistanceThreshold S) (trieRootNode S) (supportSwapInEditDistance S)"
  have k: "keeps ?new S'" using assms unfolding computeActiveNodeSetIncrementally_def by (rule addPANSets_keeps)
  have "withinThreshold ?new" by (simp add: withinThreshold_def PANSet_init_def)
  then show "withinThreshold S'" using k by (simp add: keeps_def)
  show "queryPrefix S' = queryPrefix S @ [c]" "editDistanceThreshold S' = editDistanceThreshold S" "trieRootNode S' = trieRootNode S"
    "supportSwapInEditDistance S' = supportSwapInEditDistance S"
    using k by (simp_all add: keeps_def sameQuery_def PANSet_init_def)
qed

lemma extend_keeps:
  "extendActiveNodes addr t cs S = Some S' \<Longrightarrow> withinThreshold S \<Longrightarrow> queryPrefix S' = queryPrefix S @ cs
    \<and> editDistanceThreshold S' = editDistanceThreshold S \<and> trieRootNode S' = trieRootNode S
    \<and> supportSwapInEditDistance S' = supportSwapInEditDistance S \<and> withinThreshold S'"
proof (induction cs arbitrary: S)
  case (Cons c cs)
  obtain S1 where S1: "computeActiveNodeSetIncrementally addr t c S = Some S1" "extendActiveNodes addr t cs S1 = Some S'"
    using Cons.prems(1) by (auto simp: bind_eq_Some_conv)
  show ?case using Cons.IH [OF S1(2)] increment_keeps [OF S1(1)] by simp
qed simp

lemma PANSet_new_query:
  "queryPrefix (PANSet_new addr r T swap) = []" "editDistanceThreshold (PANSet_new addr r T swap) = T" "trieRootNode (PANSet_new addr r T swap) = r"
  "supportSwapInEditDistance (PANSet_new addr r T swap) = swap" "withinThreshold (PANSet_new addr r T swap)"
  using addPAN_keeps [of "PANSet_init [] T r swap" addr r "\<lparr>transformationdistance = 0, differ = 0, editdistanceofPrefix = 0\<rparr>"]
  by (simp_all add: PANSet_new_def keeps_def sameQuery_def PANSet_init_def withinThreshold_def)

section \<open>The vector by distance does not matter\<close>

lemma upToDepth_vector:
  "addPANUpToDepth addr t (this\<lparr>trieNodeSetVector := v, trieNodeSetVectorComputed := b\<rparr>) pan depthLimit c curDepth node new
    = addPANUpToDepth addr t this pan depthLimit c curDepth node new"
  "addPANChildren addr t (this\<lparr>trieNodeSetVector := v, trieNodeSetVectorComputed := b\<rparr>) pan depthLimit c curDepth children new
    = addPANChildren addr t this pan depthLimit c curDepth children new"
proof (induction addr t this pan depthLimit c curDepth node new and addr t this pan depthLimit c curDepth children new
    rule: addPANUpToDepth_addPANChildren.induct)
  case (1 addr t this pan depthLimit c curDepth node new)
  then show ?case unfolding addPANUpToDepth.simps by (intro Option.bind_cong refl if_cong) blast
next
  case (2 addr t this pan depthLimit c curDepth new)
  then show ?case by (simp add: addPANChildren.simps)
next
  case (3 addr t this pan depthLimit c curDepth child children new)
  have m: "matchChild addr t (this\<lparr>trieNodeSetVector := v, trieNodeSetVectorComputed := b\<rparr>) pan gap child n new
      = matchChild addr t this pan gap child n new" for gap n
    by (simp add: matchChild_def Let_def)
  show ?case
    unfolding addPANChildren.simps(2) m
    by (intro Option.bind_cong refl if_cong) (insert "3.IH", auto split: prod.splits intro!: Option.bind_cong)
qed

text \<open>A set is prepared for iteration or not.\<close>

definition prepared :: "PrefixActiveNodeSet \<Rightarrow> PrefixActiveNodeSet \<Rightarrow> bool" where
  "prepared S0 S \<longleftrightarrow> S = S0 \<or> computeTrieNodeSetVector S0 = Some S"

lemma prepared_cases:
  assumes "prepared S0 S"
  obtains "S = S0" | v where "S = S0\<lparr>trieNodeSetVector := v, trieNodeSetVectorComputed := True\<rparr>"
  using assms by (auto simp: prepared_def computeTrieNodeSetVector_def bind_eq_Some_conv split: if_splits)

lemma prepared_query:
  assumes "prepared S0 S"
  shows "queryPrefix S = queryPrefix S0" "editDistanceThreshold S = editDistanceThreshold S0" "trieRootNode S = trieRootNode S0"
  using assms by (auto elim!: prepared_cases)

lemma addPANSets_vector:
  "addPANSets addr t (this\<lparr>trieNodeSetVector := v, trieNodeSetVectorComputed := b\<rparr>) c entries new = addPANSets addr t this c entries new"
proof (induction entries arbitrary: new)
  case (Cons x xs)
  obtain node pan where x: "x = (node, pan)" by (cases x)
  have "addPANSetForOneNode addr t (this\<lparr>trieNodeSetVector := v, trieNodeSetVectorComputed := b\<rparr>) c x new = addPANSetForOneNode addr t this c x new"
    by (simp add: addPANSetForOneNode_def x upToDepth_vector)
  then show ?case unfolding addPANSets.simps by (intro Option.bind_cong Cons.IH)
qed simp

lemma prepared_increment: "prepared S0 S \<Longrightarrow> computeActiveNodeSetIncrementally addr t c S = computeActiveNodeSetIncrementally addr t c S0"
  by (auto elim!: prepared_cases simp: computeActiveNodeSetIncrementally_def addPANSets_vector)

lemma pushByDistance_total: "\<forall>(p, x) \<in> set L. unat (transformationdistance x) < length v \<Longrightarrow> \<exists>v'. pushByDistance L v = Some v'"
  by (induction L arbitrary: v) (auto simp: Let_def)

lemma prepare_total:
  assumes "withinThreshold S" "editDistanceThreshold S \<noteq> - 1"
  shows "\<exists>S'. computeTrieNodeSetVector S = Some S'"
proof -
  have "editDistanceThreshold S + 1 \<noteq> 0" using assms(2) by (metis add.inverse_unique add.commute)
  then have "unat (editDistanceThreshold S + 1) = Suc (unat (editDistanceThreshold S))" using unatSuc [of "editDistanceThreshold S"] by (simp add: add.commute)
  then have "\<forall>(p, x) \<in> set (PANMap S). unat (transformationdistance x) < unat (editDistanceThreshold S + 1)"
    using assms(1) by (auto simp: withinThreshold_def word_le_nat_alt less_Suc_eq_le)
  then have "\<exists>v. pushByDistance (PANMap S) (replicate (unat (editDistanceThreshold S + 1)) []) = Some v"
    by (intro pushByDistance_total) simp
  then show ?thesis by (auto simp: computeTrieNodeSetVector_def)
qed

section \<open>Lookups and stores\<close>

lemma characters_octets [simp]: "characters (octets s) = s"
  by (induction s) (simp_all add: characters_def octets_def take_bit_of_nat unat_of_nat)

lemma octets_characters [simp]: "octets (characters bs) = bs"
proof -
  have "unat a mod 256 = unat a" for a :: u8 using unsigned_less [of a, where ?'a = nat] by simp
  then show ?thesis by (simp add: characters_def octets_def map_idI)
qed

text \<open>What the entries of the cache are: sets of active nodes as a computation without the cache gives them.\<close>

definition activeEntry :: "(node_ptr \<Rightarrow> nat) \<Rightarrow> (node_ptr \<Rightarrow> Trie) \<Rightarrow> bool \<Rightarrow> string \<Rightarrow> PrefixActiveNodeSet \<Rightarrow> bool" where
  "activeEntry addr trieAt swap k S \<longleftrightarrow> (\<exists>cs bs S0. charTypeVectorToUtf8String cs = Inr bs
    \<and> extendActiveNodes addr (trieAt (trieRootNode S)) cs (PANSet_new addr (trieRootNode S) (editDistanceThreshold S) swap) = Some S0
    \<and> prepared S0 S \<and> k = setKey (unat (editDistanceThreshold S)) (characters bs))"

lemma findPrefixLoop_holds:
  assumes "lruStore.holds ob P c"
  shows "\<exists>r c'. findPrefixLoop th T keyword i c = Some (r, c') \<and> lruStore.holds ob P c'
    \<and> (\<forall>S. r = Some S \<longrightarrow> th S \<ge> T \<and> (\<exists>n. P (findKey T (take n keyword)) S))"
  using assms
proof (induction i arbitrary: c)
  case 0
  then show ?case by (simp add: findPrefixLoop.simps)
next
  case (Suc i)
  show ?case
  proof (cases "Suc i \<ge> 2")
    case True
    obtain r c' where r: "get_entry (findKey T (take (Suc i) keyword)) c = Some (r, c')" "lruStore.holds ob P c'"
        "\<And>v. r = Some v \<Longrightarrow> P (findKey T (take (Suc i) keyword)) v"
      using lruStore.get_holds [OF Suc.prems, of "findKey T (take (Suc i) keyword)"] by blast
    have next_: "findPrefixLoop th T keyword (Suc i) c = (case r of Some S \<Rightarrow> if th S \<ge> T then Some (Some S, c')
        else findPrefixLoop th T keyword i c' | None \<Rightarrow> findPrefixLoop th T keyword i c')"
      by (subst findPrefixLoop.simps) (use True r(1) in \<open>simp split: option.split\<close>)
    show ?thesis
    proof (cases "\<exists>S. r = Some S \<and> th S \<ge> T")
      case True
      then show ?thesis using next_ r(2,3) by auto
    next
      case False
      then have "findPrefixLoop th T keyword (Suc i) c = findPrefixLoop th T keyword i c'" using next_ by (auto split: option.splits)
      then show ?thesis using Suc.IH [OF r(2)] by simp
    qed
  next
    case False
    then show ?thesis using Suc.prems by (simp add: findPrefixLoop.simps)
  qed
qed

text \<open>A hit for a keyword holds a prefix of its characters, with the threshold of the term.\<close>

lemma hit_prefix:
  assumes "activeEntry addr trieAt swap (findKey T (take n keyword)) S" "unat (editDistanceThreshold S) \<ge> T"
    and "utf8StringToCharTypeVector (octets keyword) = Some (Inr v)"
  obtains cs rest S0 where "v = cs @ rest" "unat (editDistanceThreshold S) = T" "prepared S0 S"
    "extendActiveNodes addr (trieAt (trieRootNode S)) cs (PANSet_new addr (trieRootNode S) (editDistanceThreshold S) swap) = Some S0"
proof -
  obtain cs bs S0 where e: "charTypeVectorToUtf8String cs = Inr bs"
      "extendActiveNodes addr (trieAt (trieRootNode S)) cs (PANSet_new addr (trieRootNode S) (editDistanceThreshold S) swap) = Some S0"
      "prepared S0 S" "findKey T (take n keyword) = setKey (unat (editDistanceThreshold S)) (characters bs)"
    using assms(1) by (auto simp: activeEntry_def)
  have k: "characters bs = take n keyword" "unat (editDistanceThreshold S) = (if T = 0 then 0 else 1)"
    using setKey_findKey e(4) by metis+
  have T: "unat (editDistanceThreshold S) = T" using k(2) assms(2) by (auto split: if_splits)
  have "bs = take n (octets keyword)" using arg_cong [OF k(1), of octets] unfolding octets_characters by (simp add: octets_def take_map)
  then have oct: "octets keyword = bs @ drop n (octets keyword)" by simp
  obtain v' p rest where s: "utf32to8 v' [] = Inr p" "drop n (octets keyword) = p @ rest" "stuck rest" using split_valid by blast
  have "utf32to8 (cs @ v') [] = Inr (bs @ p)" using encoded_append e(1) s(1) by (simp add: charTypeVectorToUtf8String_def)
  from decoded(1) [OF this s(3)] have "v = cs @ v'" using assms(3) oct s(2) by simp
  then show thesis using that T e(2,3) by blast
qed


section \<open>The computation with the cache\<close>

definition freshActiveNodes :: "(node_ptr \<Rightarrow> nat) \<Rightarrow> bool \<Rightarrow> Trie \<Rightarrow> u32 \<Rightarrow> CharType list \<Rightarrow> PrefixActiveNodeSet option" where
  "freshActiveNodes addr swap t T cs = extendActiveNodes addr t cs (PANSet_new addr (root_readview t) T swap)"

lemma extend_append: "extendActiveNodes addr t (as @ bs) S = extendActiveNodes addr t as S \<bind> extendActiveNodes addr t bs"
  by (induction "as" arbitrary: S) (simp_all add: Option.bind_assoc cong: Option.bind_cong)

lemma extend_one: "extendActiveNodes addr t [a] S = computeActiveNodeSetIncrementally addr t a S"
  by (cases "computeActiveNodeSetIncrementally addr t a S") simp_all

lemma fresh_query:
  assumes "freshActiveNodes addr swap t T cs = Some S"
  shows "queryPrefix S = cs" "editDistanceThreshold S = T" "trieRootNode S = root_readview t" "withinThreshold S"
  using extend_keeps [of addr t cs "PANSet_new addr (root_readview t) T swap" S] assms PANSet_new_query [of addr "root_readview t" T swap]
  by (simp_all add: freshActiveNodes_def)

lemma setPrefix_put:
  "setPrefixActiveNodeSet ob th (\<lambda>_. w) S c = put ob (setKey (th S) w) S c \<bind> (\<lambda>(_, c). Some (1, c))"
  by (simp add: setPrefixActiveNodeSet_def)

lemma activeNodeLoop_fresh:
  assumes "trieAt (root_readview t) = t" "T \<noteq> - 1" "list_all is_code_point_valid (done @ cs)"
    and "lruStore.holds ob (activeEntry addr trieAt swap) c" "freshActiveNodes addr swap t T done = Some S0" "prepared S0 S"
    and "freshActiveNodes addr swap t T (done @ cs) = Some Sf"
  shows "\<exists>S' c'. activeNodeLoop addr ob t cs iter cacheResponse S c = Some (S', c') \<and> prepared Sf S'
    \<and> lruStore.holds ob (activeEntry addr trieAt swap) c'"
  using assms(3-)
proof (induction cs arbitrary: "done" iter cacheResponse S S0 c)
  case Nil
  then show ?case by simp
next
  case (Cons a cs)
  obtain S1 where S1: "freshActiveNodes addr swap t T (done @ [a]) = Some S1"
    using Cons.prems(5) extend_append [of addr t "done @ [a]" cs] by (cases "freshActiveNodes addr swap t T (done @ [a])") (auto simp: freshActiveNodes_def)
  then have "computeActiveNodeSetIncrementally addr t a S0 = Some S1"
    using Cons.prems(3) extend_append [of addr t "done" "[a]"] unfolding freshActiveNodes_def extend_one by simp
  then have inc: "computeActiveNodeSetIncrementally addr t a S = Some S1" using prepared_increment [OF Cons.prems(4)] by simp
  note q = fresh_query [OF S1]
  have v: "list_all is_code_point_valid ((done @ [a]) @ cs)" "freshActiveNodes addr swap t T ((done @ [a]) @ cs) = Some Sf"
    using Cons.prems(1,5) by simp_all
  show ?case
  proof (cases "iter \<ge> 2 \<and> cacheResponse \<noteq> -1")
    case True
    obtain S2 where S2: "computeTrieNodeSetVector S1 = Some S2" using prepare_total q(2,4) assms(2) by blast
    then have p: "prepared S1 S2" by (simp add: prepared_def)
    note q2 = prepared_query [OF p, unfolded q]
    obtain bs where bs: "charTypeVectorToUtf8String (done @ [a]) = Inr bs"
      using utf32to8_valid [of "done @ [a]" "[]"] v(1) by (auto simp: charTypeVectorToUtf8String_def)
    have "activeEntry addr trieAt swap (setKey (unat (editDistanceThreshold S2)) (characters bs)) S2"
      using bs S1 p q2 assms(1) by (auto simp: activeEntry_def freshActiveNodes_def)
    then obtain b c1 where c1: "put ob (setKey (unat (editDistanceThreshold S2)) (characters bs)) S2 c = Some (b, c1)"
        "lruStore.holds ob (activeEntry addr trieAt swap) c1"
      using lruStore.put_holds [OF Cons.prems(2)] by metis
    show ?thesis using Cons.IH [OF v(1) c1(2) S1 p v(2), of "iter + 1" 1] True inc S2 q2(1) bs c1(1) by (simp add: setPrefix_put)
  next
    case False
    have "prepared S1 S1" by (simp add: prepared_def)
    from Cons.IH [OF v(1) Cons.prems(2) S1 this v(2), of "iter + 1" cacheResponse] show ?thesis using False inc by auto
  qed
qed

lemma decoded_valid: "utf8StringToCharTypeVector s = Some (Inr v) \<Longrightarrow> list_all is_code_point_valid v"
  using utf8_decodes [of s] utf32to8_valid [of v "[]"] by (auto simp: charTypeVectorToUtf8String_def)

lemma computeActiveNodeSet_fresh:
  assumes "trieAt (root_readview t) = t" "T \<noteq> - 1" "lruStore.holds ob (activeEntry addr trieAt swap) c"
    and "utf8StringToCharTypeVector (octets keyword) = Some (Inr v)" "v \<noteq> []" "freshActiveNodes addr swap t T v = Some Sf"
  shows "\<exists>S' c'. computeActiveNodeSet addr ob swap t T keyword c = Some (S', c') \<and> prepared Sf S'
    \<and> lruStore.holds ob (activeEntry addr trieAt swap) c'"
proof -
  let ?th = "\<lambda>S. unat (editDistanceThreshold S)" and ?new = "PANSet_new addr (root_readview t) T swap"
  obtain r c1 where r: "findLongestPrefixActiveNodes ?th (unat T) keyword c = Some (r, c1)" "lruStore.holds ob (activeEntry addr trieAt swap) c1"
      "\<And>S. r = Some S \<Longrightarrow> ?th S \<ge> unat T \<and> (\<exists>n. activeEntry addr trieAt swap (findKey (unat T) (take n keyword)) S)"
    using findPrefixLoop_holds [OF assms(3), of ?th "unat T" keyword "length keyword"] by (auto simp: findLongestPrefixActiveNodes_def)
  define init where "init = (case r of None \<Rightarrow> (?new, 0)
      | Some S \<Rightarrow> if \<not> hasTheSameVersionTrie S (root_readview t) then (?new, 0) else (S, 1 :: int))"
  have run: "computeActiveNodeSet addr ob swap t T keyword c
      = activeNodeLoop addr ob t (drop (length (queryPrefix (fst init))) v) (length (queryPrefix (fst init))) (snd init) (fst init) c1"
    using assms(4,5) r(1) by (simp add: computeActiveNodeSet_def init_def Let_def case_prod_beta)
  have "\<exists>cs S0. v = cs @ drop (length (queryPrefix (fst init))) v \<and> freshActiveNodes addr swap t T cs = Some S0 \<and> prepared S0 (fst init)"
  proof (cases "\<exists>S. r = Some S \<and> hasTheSameVersionTrie S (root_readview t)")
    case True
    then obtain S where S: "r = Some S" "trieRootNode S = root_readview t" by (auto simp: hasTheSameVersionTrie_def)
    obtain n where n: "?th S \<ge> unat T" "activeEntry addr trieAt swap (findKey (unat T) (take n keyword)) S" using r(3) [OF S(1)] by blast
    obtain cs rest S0 where h: "v = cs @ rest" "?th S = unat T" "prepared S0 S"
        "extendActiveNodes addr (trieAt (trieRootNode S)) cs (PANSet_new addr (trieRootNode S) (editDistanceThreshold S) swap) = Some S0"
      using hit_prefix [OF n(2,1) assms(4)] by blast
    have "editDistanceThreshold S = T" using h(2) by (simp add: word_unat_eq_iff)
    then have f: "freshActiveNodes addr swap t T cs = Some S0" using h(4) S(2) assms(1) by (simp add: freshActiveNodes_def)
    have "queryPrefix S = cs" using prepared_query(1) [OF h(3)] fresh_query(1) [OF f] by simp
    moreover have "fst init = S" using S by (simp add: init_def hasTheSameVersionTrie_def)
    ultimately show ?thesis using f h(1,3) by auto
  next
    case False
    then have "fst init = ?new" by (auto simp: init_def split: option.splits)
    then show ?thesis using PANSet_new_query(1) by (intro exI [of _ "[]"]) (auto simp: freshActiveNodes_def prepared_def)
  qed
  then obtain cs S0 where i: "v = cs @ drop (length (queryPrefix (fst init))) v" "freshActiveNodes addr swap t T cs = Some S0" "prepared S0 (fst init)"
    by blast
  show ?thesis unfolding run
    by (rule activeNodeLoop_fresh [OF assms(1,2) _ r(2) i(2,3)]) (use decoded_valid [OF assms(4)] assms(6) i(1) in auto)
qed

section \<open>Histories of queries\<close>

text \<open>Queries one after the other on one cache, each on the version of the trie that its reader holds.\<close>

fun activeRun :: "(node_ptr \<Rightarrow> nat) \<Rightarrow> (PrefixActiveNodeSet \<Rightarrow> u32) \<Rightarrow> bool \<Rightarrow> (Trie \<times> u32 \<times> string) list \<Rightarrow> PrefixActiveNodeSet CacheContainer \<Rightarrow>
    (PrefixActiveNodeSet list \<times> PrefixActiveNodeSet CacheContainer) option" where
  "activeRun addr ob swap [] c = Some ([], c)"
| "activeRun addr ob swap ((t, T, keyword) # qs) c = do {
     (S, c) \<leftarrow> computeActiveNodeSet addr ob swap t T keyword c;
     (Ss, c) \<leftarrow> activeRun addr ob swap qs c;
     Some (S # Ss, c)
   }"


lemma empty_holds: "unat budget < 2 ^ 32 \<Longrightarrow> lruStore.holds ob P (CacheContainer_new budget)"
  using lru_repr_new [of ob budget] cachedEntries_repr [OF lru_repr_new [of ob budget]]
  by (auto simp: lruStore.holds_def lruOk_def CacheContainer_new_def)

lemma activeRun_fresh:
  assumes "lruStore.holds ob (activeEntry addr trieAt swap) c"
    and "\<forall>(t, T, keyword) \<in> set qs. trieAt (root_readview t) = t \<and> T \<noteq> - 1
      \<and> (\<exists>v. utf8StringToCharTypeVector (octets keyword) = Some (Inr v) \<and> v \<noteq> [] \<and> freshActiveNodes addr swap t T v \<noteq> None)"
  shows "\<exists>Ss c'. activeRun addr ob swap qs c = Some (Ss, c') \<and> list_all2 (\<lambda>(t, T, keyword) S.
    \<exists>v S0. utf8StringToCharTypeVector (octets keyword) = Some (Inr v) \<and> freshActiveNodes addr swap t T v = Some S0 \<and> prepared S0 S) qs Ss"
  using assms
proof (induction qs arbitrary: c)
  case (Cons q qs)
  obtain t T keyword where q: "q = (t, T, keyword)" by (cases q)
  obtain v S0 where v: "trieAt (root_readview t) = t" "T \<noteq> - 1" "utf8StringToCharTypeVector (octets keyword) = Some (Inr v)" "v \<noteq> []"
      "freshActiveNodes addr swap t T v = Some S0"
    using Cons.prems(2) by (auto simp: q)
  obtain S c1 where S: "computeActiveNodeSet addr ob swap t T keyword c = Some (S, c1)" "prepared S0 S"
      "lruStore.holds ob (activeEntry addr trieAt swap) c1"
    using computeActiveNodeSet_fresh [OF v(1,2) Cons.prems(1) v(3,4,5)] by blast
  obtain Ss c' where r: "activeRun addr ob swap qs c1 = Some (Ss, c')" "list_all2 (\<lambda>(t, T, keyword) S.
      \<exists>v S0. utf8StringToCharTypeVector (octets keyword) = Some (Inr v) \<and> freshActiveNodes addr swap t T v = Some S0 \<and> prepared S0 S) qs Ss"
    using Cons.IH [OF S(3)] Cons.prems(2) by auto
  show ?case using S(1,2) v(3,5) r by (intro exI [of _ "S # Ss"] exI [of _ c']) (simp add: q)
qed simp

text \<open>
  C14. The cache of active nodes is transparent: over any history of queries with one cache, each on its own version of the trie, the
  active nodes of every query are those that a computation without the cache gives, prepared for iteration or not, with
  swaps or without. Versions are told apart by their root, and a cached set of another version is not used.
\<close>

theorem active_cache_transparent:
  assumes "unat budget < 2 ^ 32" "\<forall>(t, _) \<in> set qs. \<forall>(t', _) \<in> set qs. root_readview t = root_readview t' \<longrightarrow> t = t'"
    and "\<forall>(t, T, keyword) \<in> set qs. T \<noteq> - 1
      \<and> (\<exists>v. utf8StringToCharTypeVector (octets keyword) = Some (Inr v) \<and> v \<noteq> [] \<and> freshActiveNodes addr swap t T v \<noteq> None)"
  shows "\<exists>Ss c. activeRun addr ob swap qs (CacheContainer_new budget) = Some (Ss, c) \<and> list_all2 (\<lambda>(t, T, keyword) S.
    \<exists>v S0. utf8StringToCharTypeVector (octets keyword) = Some (Inr v) \<and> freshActiveNodes addr swap t T v = Some S0
      \<and> (S = S0 \<or> computeTrieNodeSetVector S0 = Some S)) qs Ss"
proof -
  define trieAt where "trieAt r = (SOME t. \<exists>x. (t, x) \<in> set qs \<and> root_readview t = r)" for r
  have "trieAt (root_readview t) = t" if "(t, x) \<in> set qs" for t x
    unfolding trieAt_def using that assms(2) by (intro some_equality) fastforce+
  then have "\<forall>(t, T, keyword) \<in> set qs. trieAt (root_readview t) = t \<and> T \<noteq> - 1
      \<and> (\<exists>v. utf8StringToCharTypeVector (octets keyword) = Some (Inr v) \<and> v \<noteq> [] \<and> freshActiveNodes addr swap t T v \<noteq> None)"
    using assms(3) by fastforce
  from activeRun_fresh [OF empty_holds [OF assms(1)] this] show ?thesis unfolding prepared_def .
qed

theorem active_cache_transparent_witness:
  "\<exists>S1 S2 S3 c. activeRun (\<lambda>_. 0) (\<lambda>_. 100) True [(Trie_new 0, 1, ''abc''), (Trie_new 0, 1, ''abcd''), (Trie_new 0, 2, ''b'')] (CacheContainer_new 1000)
    = Some ([S1, S2, S3], c) \<and> queryPrefix S2 = [97, 98, 99, 100]"
proof -
  let ?qs = "[(Trie_new 0, 1 :: u32, ''abc''), (Trie_new 0, 1, ''abcd''), (Trie_new 0, 2, ''b'')]"
  have d: "utf8StringToCharTypeVector (octets ''abc'') = Some (Inr [97, 98, 99])" "utf8StringToCharTypeVector (octets ''abcd'') = Some (Inr [97, 98, 99, 100])"
      "utf8StringToCharTypeVector (octets ''b'') = Some (Inr [98])" by code_simp+
  have f: "freshActiveNodes (\<lambda>_. 0) True (Trie_new 0) 1 [97, 98, 99] \<noteq> None" "freshActiveNodes (\<lambda>_. 0) True (Trie_new 0) 1 [97, 98, 99, 100] \<noteq> None"
      "freshActiveNodes (\<lambda>_. 0) True (Trie_new 0) 2 [98] \<noteq> None" by code_simp+
  have h: "unat (1000 :: u64) < 2 ^ 32" "\<forall>(t, _) \<in> set ?qs. \<forall>(t', _) \<in> set ?qs. root_readview t = root_readview t' \<longrightarrow> t = t'"
      "\<forall>(t, T, keyword) \<in> set ?qs. T \<noteq> - 1 \<and> (\<exists>v. utf8StringToCharTypeVector (octets keyword) = Some (Inr v) \<and> v \<noteq> []
        \<and> freshActiveNodes (\<lambda>_. 0) True t T v \<noteq> None)"
    using d f by auto
  from active_cache_transparent [OF h, of "\<lambda>_. 100"] obtain Ss c where
    r: "activeRun (\<lambda>_. 0) (\<lambda>_. 100) True ?qs (CacheContainer_new 1000) = Some (Ss, c)"
      "list_all2 (\<lambda>(t, T, keyword) S. \<exists>v S0. utf8StringToCharTypeVector (octets keyword) = Some (Inr v)
        \<and> freshActiveNodes (\<lambda>_. 0) True t T v = Some S0 \<and> (S = S0 \<or> computeTrieNodeSetVector S0 = Some S)) ?qs Ss" by blast
  then obtain S1 S2 S3 where s: "Ss = [S1, S2, S3]" by (auto simp: list_all2_Cons1)
  then have "\<exists>S0. freshActiveNodes (\<lambda>_. 0) True (Trie_new 0) 1 [97, 98, 99, 100] = Some S0 \<and> prepared S0 S2"
    using r(2) d(2) by (auto simp: prepared_def)
  then have "queryPrefix S2 = [97, 98, 99, 100]" using fresh_query(1) prepared_query(1) by fastforce
  then show ?thesis using r(1) s by blast
qed









end
