(* ===== verification/Merge_TopK.thy ===== *)
theory Merge_TopK
  imports Shortest_List
begin

text \<open>
  The top-k conjunction, \<^verbatim>\<open>src/src/core/operation/physical_plan/MergeTopKOperator.cpp\<close>: the children deliver
  records by descending score; the operator reads them in turn, verifies every new record with the other
  children by random access, and delivers the best candidate as soon as no record that it has not read can
  be better. The feedback ranker is that of \<^verbatim>\<open>FeedbackRankingOperator.cpp\<close>. The children are a list of states
  with a common \<open>getNext\<close> and a list of their \<open>verifyByRandomAccess\<close> functions, as in \<open>Shortest_List\<close>.
\<close>

section \<open>The feedback ranker\<close>

record UserFeedbackInfo =
  fb_recordId :: u32
  feedbackFrequency :: u32
  timestamp :: u32

record FeedbackRanker =
  feedbackInfoForQuery :: "UserFeedbackInfo list"
  queryArrivalTime :: u32
  maxBoostForThisQuery :: real

definition feedbackBoostOf :: "u32 \<Rightarrow> UserFeedbackInfo \<Rightarrow> real" where
  "feedbackBoostOf arrival info =
    computeFeedbackBoost (unat (arrival - timestamp info)) (unat (feedbackFrequency info))"

text \<open>\<open>stored\<close> is what the feedback index has for the query, \<open>now\<close> the time.\<close>

definition bestBoost :: "u32 \<Rightarrow> UserFeedbackInfo list \<Rightarrow> real \<Rightarrow> real" where
  "bestBoost now infos = fold (\<lambda>info best. let feedbackBoost = feedbackBoostOf now info
     in if feedbackBoost > best then feedbackBoost else best) infos"

definition FeedbackRanker_init :: "UserFeedbackInfo list \<Rightarrow> u32 \<Rightarrow> FeedbackRanker \<Rightarrow> FeedbackRanker" where
  "FeedbackRanker_init stored now f =
    (let infos = feedbackInfoForQuery f @ stored in f\<lparr>feedbackInfoForQuery := infos, queryArrivalTime := now,
       maxBoostForThisQuery := bestBoost now infos 1\<rparr>)"

definition getMaxBoostForThisQuery :: "FeedbackRanker \<Rightarrow> real" where
  "getMaxBoostForThisQuery f = maxBoostForThisQuery f"

text \<open>\<^verbatim>\<open>lower_bound\<close> on a vector in ascending order of the record ids.\<close>

definition getFeedbackBoostForRecord :: "FeedbackRanker \<Rightarrow> u32 \<Rightarrow> real" where
  "getFeedbackBoostForRecord f rid =
    (case dropWhile (\<lambda>info. fb_recordId info < rid) (feedbackInfoForQuery f) of
      [] \<Rightarrow> 1
    | info # _ \<Rightarrow> if fb_recordId info = rid then feedbackBoostOf (queryArrivalTime f) info else 1)"

section \<open>The operator\<close>

record 's MergeTopKOperator =
  tk_children :: "'s list"
  tk_hasQueryEvaluator :: bool
  tk_feedbackRanker :: "FeedbackRanker option"
  tk_nextItemsFromChildren :: "PhysicalPlanRecordItem option list"
  tk_candidatesList :: "PhysicalPlanRecordItem list"
  fullCandidatesListForCache :: "PhysicalPlanRecordItem list"
  tk_visitedRecords :: "u32 set"
  tk_listsHaveMoreRecordsInThem :: bool
  childRoundRobinOffset :: nat

record 'c MergeTopKCacheEntry =
  tce_candidatesList :: "PhysicalPlanRecordItem list"
  tce_nextItemsFromChildren :: "PhysicalPlanRecordItem option list"
  tce_visitedRecords :: "u32 set"
  tce_listsHaveMoreRecordsInThem :: bool
  tce_childRoundRobinOffset :: nat
  tce_children :: "'c option list"

definition PhysicalPlanRecordItemComparator :: "PhysicalPlanRecordItem \<Rightarrow> PhysicalPlanRecordItem \<Rightarrow> bool" where
  "PhysicalPlanRecordItemComparator lhs rhs =
    compareRecordsGreaterThan (recordRuntimeScore lhs) (recordId lhs) (recordRuntimeScore rhs) (recordId rhs)"

fun initializeNextItemsFromChildren ::
  "('s, PhysicalPlanRecordItem) next_fun \<Rightarrow> nat list \<Rightarrow> 's MergeTopKOperator \<Rightarrow> 's MergeTopKOperator option" where
  "initializeNextItemsFromChildren getNext [] s = Some s"
| "initializeNextItemsFromChildren getNext (childOffset # offsets) s = do {
     (recordItem, cs) \<leftarrow> childNext getNext childOffset (tk_children s);
     initializeNextItemsFromChildren getNext offsets (s\<lparr>tk_children := cs,
       tk_listsHaveMoreRecordsInThem := (if recordItem = None then False else tk_listsHaveMoreRecordsInThem s),
       tk_nextItemsFromChildren := tk_nextItemsFromChildren s @ [recordItem]\<rparr>)
   }"

definition topK_feedback :: "FeedbackRanker option \<Rightarrow> (u32 \<Rightarrow> real) option" where
  "topK_feedback f = map_option getFeedbackBoostForRecord f"

text \<open>A candidate of the cache entry, verified with the children that the entry does not have.\<close>

definition cachedCandidate ::
  "PhysicalPlanRecordItem \<Rightarrow> verifier list \<Rightarrow> VerificationParameters \<Rightarrow> real \<Rightarrow> FeedbackRanker option \<Rightarrow> nat \<Rightarrow>
    PhysicalPlanRecordItem \<Rightarrow> PhysicalPlanRecordItem option option" where
  "cachedCandidate mem verifiers vmem penalty f known c =
    (let localRecordCopyOfCache = copyFields c (RecordItem_new mem) in
     if known < length verifiers
     then do {
       (valid, i) \<leftarrow> verifyLoop verifiers (length verifiers) vmem penalty c [known..<length verifiers]
         (addItemMatches c noMatches);
       Some (if valid then Some (boostRecord (topK_feedback f) (setMatches i localRecordCopyOfCache)) else None)
     }
     else Some (Some localRecordCopyOfCache))"

fun cachedCandidates ::
  "PhysicalPlanRecordItem \<Rightarrow> verifier list \<Rightarrow> VerificationParameters \<Rightarrow> real \<Rightarrow> FeedbackRanker option \<Rightarrow> nat \<Rightarrow>
    PhysicalPlanRecordItem list \<Rightarrow> PhysicalPlanRecordItem list option" where
  "cachedCandidates mem verifiers vmem penalty f known [] = Some []"
| "cachedCandidates mem verifiers vmem penalty f known (c # cs) = do {
     r \<leftarrow> cachedCandidate mem verifiers vmem penalty f known c;
     rs \<leftarrow> cachedCandidates mem verifiers vmem penalty f known cs;
     Some ((case r of None \<Rightarrow> [] | Some r \<Rightarrow> [r]) @ rs)
   }"

text \<open>\<open>cacheHit\<close> is what the cache has for the key of the query without its last leaf, which is \<open>None\<close> as long as the
  lookup of the program is disabled (\<open>getPhysicalOperatorsInfo\<close> of theory Cache_Manager); \<open>f\<close> the feedback
  ranker of the parameters, which the children do not get.\<close>

definition MergeTopK_open ::
  "PhysicalPlanRecordItem \<Rightarrow> ('c option \<Rightarrow> 's \<Rightarrow> 's option) \<Rightarrow> ('s, PhysicalPlanRecordItem) next_fun \<Rightarrow> verifier list \<Rightarrow>
    VerificationParameters \<Rightarrow> real \<Rightarrow> FeedbackRanker option \<Rightarrow> 'c MergeTopKCacheEntry option \<Rightarrow>
    's MergeTopKOperator \<Rightarrow> (bool \<times> 's MergeTopKOperator) option" where
  "MergeTopK_open mem openChild getNext verifiers vmem penalty f cacheHit s =
    (let s = s\<lparr>tk_feedbackRanker := f\<rparr>; n = length (tk_children s) in
     case (if tk_hasQueryEvaluator s then cacheHit else None) of
       Some entry \<Rightarrow> if length (tce_nextItemsFromChildren entry) \<noteq> length (tce_children entry) then None else do {
         cs \<leftarrow> openChildren openChild (tce_children entry) (tk_children s);
         rs \<leftarrow> cachedCandidates mem verifiers vmem penalty f (length (tce_children entry)) (tce_candidatesList entry);
         let s = s\<lparr>tk_children := cs, tk_candidatesList := tk_candidatesList s @ rs,
           fullCandidatesListForCache := fullCandidatesListForCache s @ rs,
           tk_nextItemsFromChildren := tk_nextItemsFromChildren s
             @ map (map_option (\<lambda>r. copyFields r (RecordItem_new mem))) (tce_nextItemsFromChildren entry)\<rparr>;
         s \<leftarrow> initializeNextItemsFromChildren getNext [length (tk_nextItemsFromChildren s)..<n] s;
         Some (True, s\<lparr>tk_visitedRecords := tce_visitedRecords entry,
           tk_listsHaveMoreRecordsInThem := tce_listsHaveMoreRecordsInThem entry,
           childRoundRobinOffset := tce_childRoundRobinOffset entry\<rparr>)
       }
     | None \<Rightarrow> do {
         cs \<leftarrow> openChildren openChild [] (tk_children s);
         s \<leftarrow> initializeNextItemsFromChildren getNext [0..<n] (s\<lparr>tk_children := cs\<rparr>);
         Some (True, s\<lparr>tk_candidatesList := [], fullCandidatesListForCache := [],
           tk_listsHaveMoreRecordsInThem := True, childRoundRobinOffset := 0, tk_visitedRecords := {}\<rparr>)
       })"

definition getNextChildForSequentialAccess :: "'s MergeTopKOperator \<Rightarrow> (nat \<times> 's MergeTopKOperator) option" where
  "getNextChildForSequentialAccess s =
    (if tk_children s = [] then None
     else Some (childRoundRobinOffset s,
       s\<lparr>childRoundRobinOffset := (childRoundRobinOffset s + 1) mod length (tk_children s)\<rparr>))"

definition getNextRecordOfChild ::
  "('s, PhysicalPlanRecordItem) next_fun \<Rightarrow> nat \<Rightarrow> 's MergeTopKOperator \<Rightarrow>
    (PhysicalPlanRecordItem option \<times> 's MergeTopKOperator) option" where
  "getNextRecordOfChild getNext childOffset s = do {
     toReturn \<leftarrow> nth_opt (tk_nextItemsFromChildren s) childOffset;
     (r, cs) \<leftarrow> childNext getNext childOffset (tk_children s);
     Some (toReturn, s\<lparr>tk_children := cs,
       tk_nextItemsFromChildren := (tk_nextItemsFromChildren s)[childOffset := r]\<rparr>)
   }"

definition topK_verifyRecordWithChildren ::
  "verifier list \<Rightarrow> VerificationParameters \<Rightarrow> real \<Rightarrow> PhysicalPlanRecordItem \<Rightarrow> nat \<Rightarrow> (bool \<times> MatchInfo) option" where
  "topK_verifyRecordWithChildren verifiers vmem penalty r childOffsetOfRecord =
    verifyLoop verifiers childOffsetOfRecord vmem penalty r [0..<length verifiers] noMatches"

text \<open>The sum stops, without the feedback boost, at a child that has no next record.\<close>

fun sumOfNextItems :: "PhysicalPlanRecordItem option list \<Rightarrow> real \<Rightarrow> bool \<times> real" where
  "sumOfNextItems [] score = (True, score)"
| "sumOfNextItems (None # rs) score = (False, score)"
| "sumOfNextItems (Some r # rs) score = sumOfNextItems rs (score + recordRuntimeScore r)"

definition getMaximumScoreOfUnvisitedRecords :: "real \<Rightarrow> 's MergeTopKOperator \<Rightarrow> bool \<times> real" where
  "getMaximumScoreOfUnvisitedRecords maxFeedbackBoostForQuery s =
    (case sumOfNextItems (tk_nextItemsFromChildren s) 0 of
      (False, score) \<Rightarrow> (False, score)
    | (True, score) \<Rightarrow> (True, computeFeedbackBoostedScore score maxFeedbackBoostForQuery))"

definition topK_maxFeedbackBoost :: "'s MergeTopKOperator \<Rightarrow> real" where
  "topK_maxFeedbackBoost s = (case tk_feedbackRanker s of None \<Rightarrow> 1 | Some f \<Rightarrow> getMaxBoostForThisQuery f)"

text \<open>Step 4: a verified record against the best so far.\<close>

definition keepBest ::
  "PhysicalPlanRecordItem option \<Rightarrow> PhysicalPlanRecordItem \<Rightarrow> 's MergeTopKOperator \<Rightarrow>
    PhysicalPlanRecordItem \<times> 's MergeTopKOperator" where
  "keepBest topRecordToReturn r s =
    (case topRecordToReturn of
      None \<Rightarrow> (r, s)
    | Some t \<Rightarrow>
        if recordRuntimeScore t < recordRuntimeScore r then (r, s\<lparr>tk_candidatesList := tk_candidatesList s @ [t]\<rparr>)
        else (t, s\<lparr>tk_candidatesList := tk_candidatesList s @ [r]\<rparr>))"

partial_function (option) topKLoop ::
  "('s, PhysicalPlanRecordItem) next_fun \<Rightarrow> verifier list \<Rightarrow> VerificationParameters \<Rightarrow> real \<Rightarrow>
    PhysicalPlanRecordItem option \<Rightarrow> 's MergeTopKOperator \<Rightarrow>
    (PhysicalPlanRecordItem option \<times> 's MergeTopKOperator) option" where
  "topKLoop getNext verifiers vmem penalty topRecordToReturn s = do {
     (child, s) \<leftarrow> getNextChildForSequentialAccess s;
     (nextRecord, s) \<leftarrow> getNextRecordOfChild getNext child s;
     case nextRecord of
       None \<Rightarrow> Some (topRecordToReturn, s\<lparr>tk_listsHaveMoreRecordsInThem := False\<rparr>)
     | Some r \<Rightarrow>
         if recordId r \<in> tk_visitedRecords s then topKLoop getNext verifiers vmem penalty topRecordToReturn s
         else do {
           let s = s\<lparr>tk_visitedRecords := insert (recordId r) (tk_visitedRecords s)\<rparr>;
           (verified, i) \<leftarrow> topK_verifyRecordWithChildren verifiers vmem penalty r child;
           if \<not> verified then topKLoop getNext verifiers vmem penalty topRecordToReturn s
           else do {
             let r = boostRecord (topK_feedback (tk_feedbackRanker s)) (setMatches i r);
             let s = s\<lparr>fullCandidatesListForCache := fullCandidatesListForCache s @ [r]\<rparr>;
             let (t, s) = keepBest topRecordToReturn r s;
             let (more, maxScore) = getMaximumScoreOfUnvisitedRecords (topK_maxFeedbackBoost s) s;
             if \<not> more then Some (Some t, s\<lparr>tk_listsHaveMoreRecordsInThem := False\<rparr>)
             else if maxScore < recordRuntimeScore t then Some (Some t, s)
             else topKLoop getNext verifiers vmem penalty (Some t) s
           }
         }
   }"

declare topKLoop.simps [code]

definition MergeTopK_getNext ::
  "('s, PhysicalPlanRecordItem) next_fun \<Rightarrow> verifier list \<Rightarrow> VerificationParameters \<Rightarrow> real \<Rightarrow>
    ('s MergeTopKOperator, PhysicalPlanRecordItem) next_fun" where
  "MergeTopK_getNext getNext verifiers vmem penalty s =
    (case std_sort PhysicalPlanRecordItemComparator (tk_candidatesList s) of
      [] \<Rightarrow>
        if \<not> tk_listsHaveMoreRecordsInThem s then Some (None, s)
        else topKLoop getNext verifiers vmem penalty None s
    | topRecordToReturn # candidates \<Rightarrow>
        let s = s\<lparr>tk_candidatesList := candidates\<rparr>;
            (more, maxScore) = getMaximumScoreOfUnvisitedRecords (topK_maxFeedbackBoost s) s;
            s = (if more then s else s\<lparr>tk_listsHaveMoreRecordsInThem := False\<rparr>)
        in if maxScore < recordRuntimeScore topRecordToReturn \<or> \<not> tk_listsHaveMoreRecordsInThem s
           then Some (Some topRecordToReturn, s)
           else topKLoop getNext verifiers vmem penalty (Some topRecordToReturn) s)"

definition MergeTopK_close ::
  "PhysicalPlanRecordItem \<Rightarrow> ('s \<Rightarrow> 'c option \<times> 's) \<Rightarrow> 's MergeTopKOperator \<Rightarrow>
    'c MergeTopKCacheEntry option \<times> 's MergeTopKOperator" where
  "MergeTopK_close mem closeChild s =
    (let (childrenCacheEntries, cs) = closeChildren closeChild (tk_children s);
         entry = (if tk_hasQueryEvaluator s
           then Some \<lparr>tce_candidatesList = map (cloneForCache mem) (fullCandidatesListForCache s),
             tce_nextItemsFromChildren = map (map_option (cloneForCache mem)) (tk_nextItemsFromChildren s),
             tce_visitedRecords = tk_visitedRecords s,
             tce_listsHaveMoreRecordsInThem = tk_listsHaveMoreRecordsInThem s,
             tce_childRoundRobinOffset = childRoundRobinOffset s, tce_children = childrenCacheEntries\<rparr>
           else None)
     in (entry, s\<lparr>tk_children := cs, tk_candidatesList := [], childRoundRobinOffset := 0,
       tk_listsHaveMoreRecordsInThem := True, tk_nextItemsFromChildren := [], tk_visitedRecords := {}\<rparr>))"

definition MergeTopK_verifyByRandomAccess :: "verifier list \<Rightarrow> verifier" where
  "MergeTopK_verifyByRandomAccess verifiers = verifyByRandomAccessAndHelper verifiers"

section \<open>What the children promise\<close>

definition listed :: "RankKey list \<Rightarrow> u32 \<Rightarrow> bool" where
  "listed l rid \<longleftrightarrow> (\<exists>k \<in> set l. rk_id k = rid)"

definition scoreIn :: "RankKey list \<Rightarrow> u32 \<Rightarrow> real" where
  "scoreIn l rid = (case find (\<lambda>k. rk_id k = rid) l of None \<Rightarrow> 0 | Some k \<Rightarrow> rk_score k)"

definition commonRecords :: "RankKey list list \<Rightarrow> u32 list" where
  "commonRecords Ls = filter (\<lambda>rid. \<forall>l \<in> set Ls. listed l rid) (map rk_id (hd Ls))"

definition finalScore :: "FeedbackRanker option \<Rightarrow> RankKey list list \<Rightarrow> u32 \<Rightarrow> real" where
  "finalScore f Ls rid = (let score = sum_list (map (\<lambda>l. scoreIn l rid) Ls) in
    case f of None \<Rightarrow> score | Some g \<Rightarrow> computeFeedbackBoostedScore score (getFeedbackBoostForRecord g rid))"

definition rankerReady :: "FeedbackRanker option \<Rightarrow> bool" where
  "rankerReady f \<longleftrightarrow> f = None \<or> (\<exists>stored now g. f = Some (FeedbackRanker_init stored now g))"

text \<open>A list in descending order of the scores, non-negative ones when there is a feedback ranker, and
  the verifier of its child, which accepts the records of the list, with the best of their scores there: a
  record may be in the list of a child more than once, once per keyword that matches.\<close>

definition verifierAgrees :: "verifier \<Rightarrow> RankKey list \<Rightarrow> bool" where
  "verifierAgrees verify l \<longleftrightarrow> (\<forall>p. \<exists>q. verify p = Some (listed l (recordToVerify p), q)
    \<and> (listed l (recordToVerify p) \<longrightarrow> runTimeTermRecordScore q = scoreIn l (recordToVerify p)))"

definition rankedList :: "FeedbackRanker option \<Rightarrow> RankKey list \<Rightarrow> bool" where
  "rankedList f l \<longleftrightarrow> sorted_wrt (\<lambda>a b. rk_score b \<le> rk_score a) l
    \<and> (f = None \<or> (\<forall>k \<in> set l. 0 \<le> rk_score k))"

definition childrenAgree :: "verifier list \<Rightarrow> FeedbackRanker option \<Rightarrow> RankKey list list \<Rightarrow> bool" where
  "childrenAgree verifiers f Ls \<longleftrightarrow> Ls \<noteq> [] \<and> length verifiers = length Ls \<and> rankerReady f
    \<and> (\<forall>i < length Ls. rankedList f (Ls ! i) \<and> verifierAgrees (verifiers ! i) (Ls ! i))"

lemma aggregated_sum: "computeAggregatedRuntimeScoreForAnd scores = sum_list scores"
proof -
  have "fold (\<lambda>score result. result + score) xs a = a + sum_list xs" for xs :: "real list" and a
    by (induction xs arbitrary: a) simp_all
  then show ?thesis by (simp add: computeAggregatedRuntimeScoreForAnd_def)
qed

lemma scoreIn_first: "rid \<notin> rk_id ` set taken \<Longrightarrow> scoreIn (taken @ RankKey x rid # l) rid = x"
  by (induction taken) (auto simp: scoreIn_def)

lemma listed_score: "listed l rid \<Longrightarrow> \<exists>k \<in> set l. rk_id k = rid \<and> scoreIn l rid = rk_score k"
  by (induction l) (auto simp: scoreIn_def listed_def)

lemma set_commonRecords: "Ls \<noteq> [] \<Longrightarrow> set (commonRecords Ls) = {rid. \<forall>l \<in> set Ls. listed l rid}"
  by (cases Ls) (auto simp: commonRecords_def listed_def)

lemma bestBoost_bound: "b \<le> bestBoost now infos b" "\<forall>info \<in> set infos. feedbackBoostOf now info \<le> bestBoost now infos b"
proof -
  have "b \<le> bestBoost now infos b \<and> (\<forall>info \<in> set infos. feedbackBoostOf now info \<le> bestBoost now infos b)"
  proof (induction infos arbitrary: b)
    case (Cons info infos)
    from Cons [of "if feedbackBoostOf now info > b then feedbackBoostOf now info else b"]
    show ?case by (auto simp: bestBoost_def Let_def split: if_splits)
  qed (simp add: bestBoost_def)
  then show "b \<le> bestBoost now infos b" "\<forall>info \<in> set infos. feedbackBoostOf now info \<le> bestBoost now infos b"
    by simp_all
qed

lemma init_boost_bound:
  "1 \<le> getMaxBoostForThisQuery (FeedbackRanker_init stored now g)"
  "getFeedbackBoostForRecord (FeedbackRanker_init stored now g) rid
    \<le> getMaxBoostForThisQuery (FeedbackRanker_init stored now g)"
proof -
  let ?infos = "feedbackInfoForQuery g @ stored"
  have m: "getMaxBoostForThisQuery (FeedbackRanker_init stored now g) = bestBoost now ?infos 1"
    by (simp add: getMaxBoostForThisQuery_def FeedbackRanker_init_def Let_def)
  have fields: "feedbackInfoForQuery (FeedbackRanker_init stored now g) = ?infos"
    "queryArrivalTime (FeedbackRanker_init stored now g) = now"
    by (simp_all add: FeedbackRanker_init_def Let_def)
  have f: "getFeedbackBoostForRecord (FeedbackRanker_init stored now g) rid
      = (case dropWhile (\<lambda>info. fb_recordId info < rid) ?infos of [] \<Rightarrow> 1
        | info # _ \<Rightarrow> if fb_recordId info = rid then feedbackBoostOf now info else 1)"
    unfolding getFeedbackBoostForRecord_def fields ..
  show b: "1 \<le> getMaxBoostForThisQuery (FeedbackRanker_init stored now g)"
    unfolding m by (rule bestBoost_bound)
  show "getFeedbackBoostForRecord (FeedbackRanker_init stored now g) rid
    \<le> getMaxBoostForThisQuery (FeedbackRanker_init stored now g)"
  proof (cases "dropWhile (\<lambda>info. fb_recordId info < rid) ?infos")
    case Nil
    show ?thesis unfolding f Nil using b by simp
  next
    case (Cons info rest)
    then have "info \<in> set ?infos" by (metis list.set_intros(1) set_dropWhileD)
    then have "feedbackBoostOf now info \<le> bestBoost now ?infos 1" using bestBoost_bound(2) by blast
    then show ?thesis unfolding f Cons using b by (simp add: m)
  qed
qed

lemma boosted_bound:
  assumes "rankerReady f" "score \<le> m" "f \<noteq> None \<Longrightarrow> 0 \<le> score"
  shows "(case f of None \<Rightarrow> score | Some g \<Rightarrow> computeFeedbackBoostedScore score (getFeedbackBoostForRecord g rid))
    \<le> computeFeedbackBoostedScore m (case f of None \<Rightarrow> 1 | Some g \<Rightarrow> getMaxBoostForThisQuery g)"
proof (cases f)
  case (Some g)
  then have b: "1 \<le> getMaxBoostForThisQuery g" "getFeedbackBoostForRecord g rid \<le> getMaxBoostForThisQuery g"
    using assms(1) init_boost_bound by (auto simp: rankerReady_def)
  have "score * getFeedbackBoostForRecord g rid \<le> score * getMaxBoostForThisQuery g"
    using b assms(3) Some by (simp add: mult_left_mono)
  also have "\<dots> \<le> m * getMaxBoostForThisQuery g" using assms(2) b(1) by (simp add: mult_right_mono)
  finally show ?thesis using Some by (simp add: computeFeedbackBoostedScore_def)
qed (use assms(2) in \<open>simp add: computeFeedbackBoostedScore_def\<close>)

lemma sumOfNextItems_all:
  "None \<notin> set rs \<Longrightarrow> sumOfNextItems rs a = (True, a + sum_list (map (recordRuntimeScore \<circ> the) rs))"
  "None \<in> set rs \<Longrightarrow> \<exists>b. sumOfNextItems rs a = (False, b)"
  by (induction rs a rule: sumOfNextItems.induct) auto

lemma sort_descending:
  "sorted_wrt (\<lambda>a b. rankKey b \<le> rankKey a) (std_sort PhysicalPlanRecordItemComparator xs)"
proof (induction xs)
  case (Cons x xs)
  have cmp: "PhysicalPlanRecordItemComparator a b \<longleftrightarrow> rankKey b < rankKey a" for a b
    by (auto simp: PhysicalPlanRecordItemComparator_def rankKey_def less_RankKey_def compareRecordsGreaterThan_def
        compareRecordsLessThan_def)
  have "sorted_wrt (\<lambda>a b. rankKey b \<le> rankKey a) ys \<Longrightarrow>
      sorted_wrt (\<lambda>a b. rankKey b \<le> rankKey a) (insertBy PhysicalPlanRecordItemComparator x ys)" for ys
    by (induction ys) (auto simp: cmp not_less)
  with Cons show ?case by (simp add: std_sort_def)
qed (simp add: std_sort_def)

lemma rankKey_score_le: "rankKey a \<le> rankKey b \<Longrightarrow> recordRuntimeScore a \<le> recordRuntimeScore b"
  by (auto simp: rankKey_def less_eq_RankKey_def less_RankKey_def compareRecordsLessThan_def split: if_splits)

section \<open>What the operator delivers\<close>

locale topk_children = child: item_stream getNext rankKey remaining ok
  for getNext :: "'s \<Rightarrow> (PhysicalPlanRecordItem option \<times> 's) option" and remaining :: "'s \<Rightarrow> RankKey list"
    and ok :: "'s \<Rightarrow> bool" +
  fixes verifiers :: "(VerificationParameters \<Rightarrow> (bool \<times> VerificationParameters) option) list"
    and Ls :: "RankKey list list"
begin

abbreviation "common \<equiv> set (commonRecords Ls)"
abbreviation "final s \<equiv> finalScore (tk_feedbackRanker s) Ls"
abbreviation "topList t \<equiv> (case t of None \<Rightarrow> [] | Some r \<Rightarrow> [r])"

text \<open>The next record of a child and those behind it.\<close>

definition pending :: "'s MergeTopKOperator \<Rightarrow> nat \<Rightarrow> RankKey list" where
  "pending s i = map rankKey (topList (tk_nextItemsFromChildren s ! i)) @ remaining (tk_children s ! i)"

definition unread :: "'s MergeTopKOperator \<Rightarrow> nat" where
  "unread s = (\<Sum>i < length Ls. length (pending s i))"

definition childOk :: "'s MergeTopKOperator \<Rightarrow> nat \<Rightarrow> bool" where
  "childOk s i \<longleftrightarrow> ok (tk_children s ! i)
    \<and> (tk_nextItemsFromChildren s ! i = None \<longrightarrow> remaining (tk_children s ! i) = [])
    \<and> (\<exists>taken. Ls ! i = taken @ pending s i \<and> rk_id ` set taken \<subseteq> tk_visitedRecords s)"

definition childrenInv :: "'s MergeTopKOperator \<Rightarrow> bool" where
  "childrenInv s \<longleftrightarrow> childrenAgree verifiers (tk_feedbackRanker s) Ls \<and> length (tk_children s) = length Ls
    \<and> length (tk_nextItemsFromChildren s) = length Ls \<and> childRoundRobinOffset s < length Ls
    \<and> (\<forall>i < length Ls. childOk s i)"

definition candidatesInv :: "'s MergeTopKOperator \<Rightarrow> PhysicalPlanRecordItem list \<Rightarrow> bool" where
  "candidatesInv s rs \<longleftrightarrow> (\<forall>r \<in> set rs. recordRuntimeScore r = final s (recordId r)) \<and> distinct (map recordId rs)
    \<and> recordId ` set rs \<subseteq> tk_visitedRecords s \<inter> common"

definition topKOk :: "'s MergeTopKOperator \<Rightarrow> bool" where
  "topKOk s \<longleftrightarrow> childrenInv s \<and> candidatesInv s (tk_candidatesList s)
    \<and> (\<not> tk_listsHaveMoreRecordsInThem s \<longrightarrow> common \<subseteq> tk_visitedRecords s)"

definition toDeliver :: "'s MergeTopKOperator \<Rightarrow> PhysicalPlanRecordItem list \<Rightarrow> u32 set" where
  "toDeliver s rs = recordId ` set rs \<union> (common - tk_visitedRecords s)"

lemma agree: "childrenInv s \<Longrightarrow> childrenAgree verifiers (tk_feedbackRanker s) Ls"
  by (simp add: childrenInv_def)

lemma agree_child:
  assumes "childrenAgree verifiers f Ls" "i < length Ls"
  shows "sorted_wrt (\<lambda>a b. rk_score b \<le> rk_score a) (Ls ! i)"
    "f = None \<or> (\<forall>k \<in> set (Ls ! i). 0 \<le> rk_score k)" "verifierAgrees (verifiers ! i) (Ls ! i)"
  using assms by (auto simp: childrenAgree_def rankedList_def)

lemma common_listed: "childrenAgree verifiers f Ls \<Longrightarrow> rid \<in> common \<longleftrightarrow> (\<forall>i < length Ls. listed (Ls ! i) rid)"
  by (auto simp: childrenAgree_def set_commonRecords all_set_conv_all_nth)

text \<open>Verification by the other children.\<close>

lemma verifyLoop_scores:
  assumes "childrenAgree verifiers f Ls" "\<forall>j \<in> set offsets. j < length Ls"
  shows "\<exists>info'. verifyLoop verifiers child vmem penalty r offsets info
      = Some (\<forall>j \<in> set offsets. j \<noteq> child \<longrightarrow> listed (Ls ! j) (recordId r), info')
    \<and> ((\<forall>j \<in> set offsets. j \<noteq> child \<longrightarrow> listed (Ls ! j) (recordId r)) \<longrightarrow>
      runTimeTermRecordScores info' = runTimeTermRecordScores info
        @ map (\<lambda>j. if j = child then recordRuntimeScore r else scoreIn (Ls ! j) (recordId r)) offsets)"
  using assms(2)
proof (induction offsets arbitrary: info)
  case (Cons j offsets)
  show ?case
  proof (cases "j = child")
    case True
    then show ?thesis using Cons.IH [of "addItemMatches r info"] Cons.prems by (auto simp: addItemMatches_def)
  next
    case False
    have j: "j < length verifiers" using Cons.prems assms(1) by (simp add: childrenAgree_def)
    have "verifierAgrees (verifiers ! j) (Ls ! j)" using agree_child(3) [OF assms(1), of j] Cons.prems by simp
    from this [unfolded verifierAgrees_def, rule_format, of "newParameters vmem (recordId r) penalty"]
    obtain q where q: "(verifiers ! j) (newParameters vmem (recordId r) penalty) = Some (listed (Ls ! j) (recordId r), q)"
      "listed (Ls ! j) (recordId r) \<longrightarrow> runTimeTermRecordScore q = scoreIn (Ls ! j) (recordId r)"
      by (auto simp: newParameters_def)
    then show ?thesis using Cons.IH [of "addVerifiedMatches q info"] Cons.prems False j
      by (auto simp: nth_opt_def addVerifiedMatches_def)
  qed
qed simp

lemma verified_record:
  assumes "childrenAgree verifiers f Ls" "child < length Ls" "listed (Ls ! child) (recordId r)"
    "scoreIn (Ls ! child) (recordId r) = recordRuntimeScore r"
  shows "\<exists>info. topK_verifyRecordWithChildren verifiers vmem penalty r child = Some (recordId r \<in> common, info)
    \<and> (recordId r \<in> common \<longrightarrow>
      recordRuntimeScore (boostRecord (topK_feedback f) (setMatches info r)) = finalScore f Ls (recordId r))"
proof -
  have len: "length verifiers = length Ls" using assms(1) by (simp add: childrenAgree_def)
  note own = assms(3) and score = assms(4)
  have all: "(\<forall>j \<in> set [0..<length Ls]. j \<noteq> child \<longrightarrow> listed (Ls ! j) (recordId r)) \<longleftrightarrow> recordId r \<in> common"
  proof
    assume others: "\<forall>j \<in> set [0..<length Ls]. j \<noteq> child \<longrightarrow> listed (Ls ! j) (recordId r)"
    have "listed (Ls ! j) (recordId r)" if "j < length Ls" for j
      using others own that by (cases "j = child") simp_all
    then show "recordId r \<in> common" using common_listed [OF assms(1)] by simp
  next
    assume "recordId r \<in> common"
    then show "\<forall>j \<in> set [0..<length Ls]. j \<noteq> child \<longrightarrow> listed (Ls ! j) (recordId r)"
      using common_listed [OF assms(1)] by simp
  qed
  obtain info where i: "topK_verifyRecordWithChildren verifiers vmem penalty r child = Some (recordId r \<in> common, info)"
    "recordId r \<in> common \<longrightarrow> runTimeTermRecordScores info
      = map (\<lambda>j. if j = child then recordRuntimeScore r else scoreIn (Ls ! j) (recordId r)) [0..<length Ls]"
    using verifyLoop_scores [OF assms(1), of "[0..<length Ls]" child vmem penalty r noMatches]
    unfolding all by (auto simp: topK_verifyRecordWithChildren_def len noMatches_def)
  have "map (\<lambda>j. if j = child then recordRuntimeScore r else scoreIn (Ls ! j) (recordId r)) [0..<length Ls]
      = map (\<lambda>l. scoreIn l (recordId r)) Ls"
    by (rule nth_equalityI) (auto simp: score)
  then show ?thesis using i
    by (auto simp: boostRecord_def topK_feedback_def setMatches_def aggregated_sum finalScore_def Let_def split: option.splits)
qed

text \<open>The bound on the records that have not been read.\<close>

lemma unvisited_pending:
  assumes "childrenInv s" "rid \<in> common - tk_visitedRecords s" "i < length Ls"
  obtains r where "tk_nextItemsFromChildren s ! i = Some r" "scoreIn (Ls ! i) rid \<le> recordRuntimeScore r"
    "\<exists>k \<in> set (Ls ! i). scoreIn (Ls ! i) rid = rk_score k"
proof -
  note a = agree_child [OF agree [OF assms(1)] assms(3)]
  have c: "childOk s i" using assms(1,3) by (simp add: childrenInv_def)
  obtain taken where t: "Ls ! i = taken @ pending s i" "rk_id ` set taken \<subseteq> tk_visitedRecords s"
    using c by (auto simp: childOk_def)
  have "listed (Ls ! i) rid" using common_listed [OF agree [OF assms(1)]] assms by auto
  then obtain k where k: "k \<in> set (Ls ! i)" "rk_id k = rid" "scoreIn (Ls ! i) rid = rk_score k"
    using listed_score by blast
  then have p: "k \<in> set (pending s i)" using t assms(2) by auto
  have "tk_nextItemsFromChildren s ! i \<noteq> None"
    using p c by (cases "tk_nextItemsFromChildren s ! i") (simp_all add: childOk_def pending_def)
  then obtain r where r: "tk_nextItemsFromChildren s ! i = Some r" by blast
  have "sorted_wrt (\<lambda>a b. rk_score b \<le> rk_score a) (pending s i)" using a(1) t(1) by (simp add: sorted_wrt_append)
  then have "rk_score k \<le> recordRuntimeScore r" using p r by (auto simp: pending_def rankKey_def)
  then show thesis using that r k by auto
qed

lemma maximum_bound:
  assumes "childrenInv s" "getMaximumScoreOfUnvisitedRecords (topK_maxFeedbackBoost s) s = (True, m)"
    "rid \<in> common - tk_visitedRecords s"
  shows "final s rid \<le> m"
proof -
  let ?rs = "tk_nextItemsFromChildren s"
  have len: "length ?rs = length Ls" using assms(1) by (simp add: childrenInv_def)
  have some: "?rs ! i = Some (the (?rs ! i))" "scoreIn (Ls ! i) rid \<le> recordRuntimeScore (the (?rs ! i))"
    if "i < length Ls" for i
    by (rule unvisited_pending [OF assms(1,3) that], simp)+
  have "None \<notin> set ?rs" using some(1) len by (metis in_set_conv_nth option.distinct(1))
  then have m: "m = computeFeedbackBoostedScore (sum_list (map (recordRuntimeScore \<circ> the) ?rs)) (topK_maxFeedbackBoost s)"
    using assms(2) sumOfNextItems_all(1) [of ?rs 0] by (simp add: getMaximumScoreOfUnvisitedRecords_def)
  have le: "sum_list (map (\<lambda>l. scoreIn l rid) Ls) \<le> sum_list (map (recordRuntimeScore \<circ> the) ?rs)"
    unfolding sum_list_sum_nth using some(2) len by (auto intro: sum_mono)
  have nonneg: "0 \<le> sum_list (map (\<lambda>l. scoreIn l rid) Ls)" if f: "tk_feedbackRanker s \<noteq> None"
  proof (rule sum_list_nonneg)
    fix x assume "x \<in> set (map (\<lambda>l. scoreIn l rid) Ls)"
    then obtain i where i: "i < length Ls" "x = scoreIn (Ls ! i) rid" by (auto simp: in_set_conv_nth)
    then show "0 \<le> x" using unvisited_pending [OF assms(1,3) i(1)] agree_child(2) [OF agree [OF assms(1)] i(1)] f by metis
  qed
  have "rankerReady (tk_feedbackRanker s)" using agree [OF assms(1)] by (simp add: childrenAgree_def)
  from boosted_bound [OF this le nonneg, of rid] show ?thesis
    by (simp add: finalScore_def Let_def m topK_maxFeedbackBoost_def)
qed

lemma exhausted_child:
  assumes "childrenInv s" "i < length Ls" "tk_nextItemsFromChildren s ! i = None"
  shows "common \<subseteq> tk_visitedRecords s"
proof
  fix rid assume c: "rid \<in> common"
  show "rid \<in> tk_visitedRecords s"
  proof (rule ccontr)
    assume "rid \<notin> tk_visitedRecords s"
    then have "rid \<in> common - tk_visitedRecords s" using c by simp
    from unvisited_pending [OF assms(1) this assms(2)] show False using assms(3) by (metis option.distinct(1))
  qed
qed

lemma no_maximum:
  assumes "childrenInv s" "getMaximumScoreOfUnvisitedRecords b s = (False, m)"
  shows "common \<subseteq> tk_visitedRecords s"
proof -
  have "None \<in> set (tk_nextItemsFromChildren s)"
    using assms(2) sumOfNextItems_all(1) [of "tk_nextItemsFromChildren s" 0]
    by (cases "None \<in> set (tk_nextItemsFromChildren s)") (simp_all add: getMaximumScoreOfUnvisitedRecords_def)
  then obtain i where "i < length Ls" "tk_nextItemsFromChildren s ! i = None"
    using assms(1) by (auto simp: childrenInv_def in_set_conv_nth)
  then show ?thesis by (rule exhausted_child [OF assms(1)])
qed

text \<open>Reading the next record of a child.\<close>

lemma read_next:
  fixes s :: "'s MergeTopKOperator"
  assumes "childrenInv s"
  defines "i \<equiv> childRoundRobinOffset s"
  obtains s0 s' where "getNextChildForSequentialAccess s = Some (i, s0)"
    "getNextRecordOfChild getNext i s0 = Some (tk_nextItemsFromChildren s ! i, s')"
    "tk_candidatesList s' = tk_candidatesList s" "tk_visitedRecords s' = tk_visitedRecords s"
    "tk_feedbackRanker s' = tk_feedbackRanker s" "tk_listsHaveMoreRecordsInThem s' = tk_listsHaveMoreRecordsInThem s"
    "\<And>v. tk_visitedRecords s \<union> recordId ` set (topList (tk_nextItemsFromChildren s ! i)) \<subseteq> v \<Longrightarrow>
      childrenInv (s'\<lparr>tk_visitedRecords := v\<rparr>)"
    "tk_nextItemsFromChildren s ! i \<noteq> None \<Longrightarrow> unread s' < unread s"
proof -
  let ?n = "length Ls" and ?c = "tk_children s ! i" and ?next = "tk_nextItemsFromChildren s ! i"
  have len: "length (tk_children s) = ?n" "length (tk_nextItemsFromChildren s) = ?n" "i < ?n"
    using assms by (simp_all add: childrenInv_def)
  have c: "childOk s i" using assms(1) len(3) by (simp add: childrenInv_def)
  have pos: "Ls \<noteq> []" using len(3) by auto
  obtain r c' where r: "getNext ?c = Some (r, c')" "ok c'" "r = None \<longrightarrow> remaining c' = []"
    "map rankKey (topList r) @ remaining c' = remaining ?c"
  proof -
    from c have "ok ?c" by (simp add: childOk_def)
    then show thesis by (cases rule: child.getNext_cases) (use that in auto)
  qed
  define s' where "s' = s\<lparr>childRoundRobinOffset := (i + 1) mod ?n, tk_children := (tk_children s)[i := c'],
    tk_nextItemsFromChildren := (tk_nextItemsFromChildren s)[i := r]\<rparr>"
  have steps: "getNextChildForSequentialAccess s = Some (i, s\<lparr>childRoundRobinOffset := (i + 1) mod ?n\<rparr>)"
    "getNextRecordOfChild getNext i (s\<lparr>childRoundRobinOffset := (i + 1) mod ?n\<rparr>) = Some (?next, s')"
    using len r(1) by (auto simp: getNextChildForSequentialAccess_def getNextRecordOfChild_def childNext_def nth_opt_def
        i_def s'_def)
  have pi: "pending s i = map rankKey (topList ?next) @ pending s' i"
    using r(4) len by (simp add: pending_def s'_def)
  have pj: "pending s' j = pending s j" if "j \<noteq> i" for j
    using that by (simp add: pending_def s'_def)
  have "childOk (s'\<lparr>tk_visitedRecords := v\<rparr>) j" if v: "tk_visitedRecords s \<union> recordId ` set (topList ?next) \<subseteq> v"
    and j: "j < ?n" for v j
  proof (cases "j = i")
    case True
    obtain taken where t: "Ls ! i = taken @ pending s i" "rk_id ` set taken \<subseteq> tk_visitedRecords s"
      using c by (auto simp: childOk_def)
    have "Ls ! i = (taken @ map rankKey (topList ?next)) @ pending s' i" using t(1) pi by simp
    moreover have "rk_id ` set (taken @ map rankKey (topList ?next)) \<subseteq> v"
      using t(2) v by (auto simp: rankKey_def)
    moreover have "pending (s'\<lparr>tk_visitedRecords := v\<rparr>) i = pending s' i" by (simp add: pending_def)
    ultimately have "\<exists>taken. Ls ! i = taken @ pending (s'\<lparr>tk_visitedRecords := v\<rparr>) i \<and> rk_id ` set taken \<subseteq> v" by metis
    then show ?thesis using True len r(2,3) by (simp add: childOk_def s'_def)
  next
    case False
    have "childOk s j" using assms(1) j by (simp add: childrenInv_def)
    moreover have "pending (s'\<lparr>tk_visitedRecords := v\<rparr>) j = pending s j" using pj [OF False] by (simp add: pending_def)
    ultimately show ?thesis using False v by (auto simp: childOk_def s'_def)
  qed
  then have inv: "childrenInv (s'\<lparr>tk_visitedRecords := v\<rparr>)"
    if "tk_visitedRecords s \<union> recordId ` set (topList ?next) \<subseteq> v" for v
    using that assms(1) len pos by (auto simp: childrenInv_def s'_def)
  have less: "unread s' < unread s" if "?next \<noteq> None"
    unfolding unread_def
  proof (rule sum_strict_mono_ex1)
    show "\<forall>j \<in> {..<?n}. length (pending s' j) \<le> length (pending s j)"
      using pi pj by (metis le_add2 length_append order_refl)
    show "\<exists>j \<in> {..<?n}. length (pending s' j) < length (pending s j)"
      using that pi len(3) by (intro bexI [of _ i]) auto
  qed simp
  show thesis by (rule that [OF steps _ _ _ _ inv less]) (simp_all add: s'_def)
qed

lemma next_in_list:
  assumes "childrenInv s" "i < length Ls" "tk_nextItemsFromChildren s ! i = Some r" "recordId r \<notin> tk_visitedRecords s"
  shows "listed (Ls ! i) (recordId r)" "scoreIn (Ls ! i) (recordId r) = recordRuntimeScore r"
proof -
  have "childOk s i" using assms by (simp add: childrenInv_def)
  then obtain taken where t: "Ls ! i = taken @ pending s i" "rk_id ` set taken \<subseteq> tk_visitedRecords s"
    by (auto simp: childOk_def)
  moreover have "pending s i = RankKey (recordRuntimeScore r) (recordId r) # remaining (tk_children s ! i)"
    using assms(3) by (simp add: pending_def rankKey_def)
  moreover have "recordId r \<notin> rk_id ` set taken" using t(2) assms(4) by auto
  ultimately show "listed (Ls ! i) (recordId r)" "scoreIn (Ls ! i) (recordId r) = recordRuntimeScore r"
    by (simp_all add: scoreIn_first listed_def)
qed

text \<open>What a call delivers.\<close>

definition delivers :: "'s MergeTopKOperator \<Rightarrow> u32 set \<Rightarrow> (PhysicalPlanRecordItem option \<times> 's MergeTopKOperator) option \<Rightarrow> bool" where
  "delivers s D result \<longleftrightarrow> (\<exists>r s'. result = Some (r, s') \<and> topKOk s' \<and> tk_feedbackRanker s' = tk_feedbackRanker s
    \<and> toDeliver s' (tk_candidatesList s') = D - recordId ` set (topList r)
    \<and> (case r of None \<Rightarrow> D = {} | Some t \<Rightarrow> recordId t \<in> D \<and> recordRuntimeScore t = final s (recordId t)
        \<and> (\<forall>rid \<in> D. final s rid \<le> recordRuntimeScore t)))"

text \<open>The candidates with the best one apart.\<close>

definition candidatesWith :: "'s MergeTopKOperator \<Rightarrow> PhysicalPlanRecordItem option \<Rightarrow> bool" where
  "candidatesWith s t \<longleftrightarrow> candidatesInv s (topList t @ tk_candidatesList s)
    \<and> (\<forall>r \<in> set (tk_candidatesList s). \<exists>b. t = Some b \<and> recordRuntimeScore r \<le> recordRuntimeScore b)"

lemma finish:
  assumes "childrenInv s" "candidatesWith s t" "tk_feedbackRanker s = tk_feedbackRanker s0"
    "\<not> tk_listsHaveMoreRecordsInThem s \<Longrightarrow> common \<subseteq> tk_visitedRecords s"
    "\<And>rid. rid \<in> common - tk_visitedRecords s \<Longrightarrow> \<exists>b. t = Some b \<and> final s rid \<le> recordRuntimeScore b"
    "D = toDeliver s (topList t @ tk_candidatesList s)"
  shows "delivers s0 D (Some (t, s))"
proof (cases t)
  case None
  then show ?thesis using assms by (fastforce simp: delivers_def topKOk_def candidatesWith_def toDeliver_def)
next
  case (Some b)
  have c: "candidatesInv s (b # tk_candidatesList s)" "\<forall>r \<in> set (tk_candidatesList s). recordRuntimeScore r \<le> recordRuntimeScore b"
    using assms(2) Some by (auto simp: candidatesWith_def)
  have "topKOk s" using assms(1,4) c(1) by (auto simp: topKOk_def candidatesInv_def)
  moreover have "toDeliver s (tk_candidatesList s) = D - {recordId b}"
    using c(1) by (auto simp: assms(6) Some toDeliver_def candidatesInv_def)
  moreover have "final s rid \<le> recordRuntimeScore b" if "rid \<in> D" for rid
    using that c assms(5) by (fastforce simp: assms(6) Some toDeliver_def candidatesInv_def)
  moreover have "recordId b \<in> D" "recordRuntimeScore b = final s (recordId b)"
    using c(1) by (simp_all add: assms(6) Some toDeliver_def candidatesInv_def)
  ultimately show ?thesis by (simp add: delivers_def Some flip: assms(3))
qed

text \<open>A verified record joins the candidates.\<close>

lemma keepBest_candidates:
  assumes "candidatesWith s t" "recordId r \<in> common" "recordRuntimeScore r = final s (recordId r)"
    "recordId r \<notin> tk_visitedRecords s" "v = insert (recordId r) (tk_visitedRecords s)"
    "keepBest t r (s\<lparr>tk_visitedRecords := v, fullCandidatesListForCache := full\<rparr>) = (b, s')"
  shows "\<exists>cs. s' = s\<lparr>tk_visitedRecords := v, fullCandidatesListForCache := full, tk_candidatesList := cs\<rparr>
    \<and> candidatesWith s' (Some b)
    \<and> toDeliver s' (b # tk_candidatesList s') = toDeliver s (topList t @ tk_candidatesList s)"
proof -
  have "candidatesInv s (topList t @ tk_candidatesList s)" using assms(1) by (simp add: candidatesWith_def)
  then have inv: "candidatesInv (s\<lparr>tk_visitedRecords := v\<rparr>) (r # topList t @ tk_candidatesList s)"
    using assms(2-5) by (auto simp: candidatesInv_def)
  have set: "recordId ` set (r # topList t @ tk_candidatesList s) \<union> (common - v) = toDeliver s (topList t @ tk_candidatesList s)"
    using assms(2,4,5) by (auto simp: toDeliver_def)
  obtain cs where cs: "s' = s\<lparr>tk_visitedRecords := v, fullCandidatesListForCache := full, tk_candidatesList := cs\<rparr>"
    "mset (b # cs) = mset (r # topList t @ tk_candidatesList s)" "\<forall>x \<in> set cs. recordRuntimeScore x \<le> recordRuntimeScore b"
  proof (cases t)
    case None
    then show thesis using that [of "tk_candidatesList s"] assms(1,6) by (auto simp: keepBest_def candidatesWith_def)
  next
    case (Some a)
    then have "\<forall>x \<in> set (tk_candidatesList s). recordRuntimeScore x \<le> recordRuntimeScore a"
      using assms(1) by (auto simp: candidatesWith_def)
    then show thesis using that [of "tk_candidatesList s @ [if recordRuntimeScore a < recordRuntimeScore r then a else r]"]
        Some assms(6) by (fastforce simp: keepBest_def split: if_splits)
  qed
  have ids: "mset (map recordId (b # cs)) = mset (map recordId (r # topList t @ tk_candidatesList s))"
    using cs(2) by (metis mset_map)
  have "candidatesInv (s\<lparr>tk_visitedRecords := v\<rparr>) (b # cs)"
    using inv mset_eq_setD [OF cs(2)] mset_eq_imp_distinct_iff [OF ids] unfolding candidatesInv_def by simp
  moreover have "toDeliver s' (b # cs) = toDeliver s (topList t @ tk_candidatesList s)"
    using set mset_eq_setD [OF cs(2)] by (simp add: toDeliver_def cs(1))
  ultimately show ?thesis using cs(1,3) by (auto simp: candidatesWith_def candidatesInv_def)
qed

lemma loop_delivers:
  assumes "childrenInv s" "candidatesWith s t" "tk_feedbackRanker s = tk_feedbackRanker s0"
    "\<not> tk_listsHaveMoreRecordsInThem s \<Longrightarrow> common \<subseteq> tk_visitedRecords s"
    "D = toDeliver s (topList t @ tk_candidatesList s)"
  shows "delivers s0 D (topKLoop getNext verifiers vmem penalty t s)"
  using assms
proof (induction "unread s" arbitrary: s t rule: less_induct)
  case less
  let ?i = "childRoundRobinOffset s"
  obtain s1 s' where read: "getNextChildForSequentialAccess s = Some (?i, s1)"
    "getNextRecordOfChild getNext ?i s1 = Some (tk_nextItemsFromChildren s ! ?i, s')"
    and frame: "tk_candidatesList s' = tk_candidatesList s" "tk_visitedRecords s' = tk_visitedRecords s"
      "tk_feedbackRanker s' = tk_feedbackRanker s" "tk_listsHaveMoreRecordsInThem s' = tk_listsHaveMoreRecordsInThem s"
    and inv: "\<And>v. tk_visitedRecords s \<union> recordId ` set (topList (tk_nextItemsFromChildren s ! ?i)) \<subseteq> v \<Longrightarrow>
      childrenInv (s'\<lparr>tk_visitedRecords := v\<rparr>)"
    and measure: "tk_nextItemsFromChildren s ! ?i \<noteq> None \<Longrightarrow> unread s' < unread s"
    using read_next [OF less.prems(1)] by metis
  have i: "?i < length Ls" using less.prems(1) by (simp add: childrenInv_def)
  note unfold = topKLoop.simps [of getNext verifiers vmem penalty t s]
  have with': "candidatesWith s' t" "D = toDeliver s' (topList t @ tk_candidatesList s')"
    using less.prems(2,5) unfolding candidatesWith_def candidatesInv_def toDeliver_def frame .
  show ?case
  proof (cases "tk_nextItemsFromChildren s ! ?i")
    case None
    have all: "common \<subseteq> tk_visitedRecords s" by (rule exhausted_child [OF less.prems(1) i None])
    let ?s = "s'\<lparr>tk_listsHaveMoreRecordsInThem := False\<rparr>"
    have "childrenInv (s'\<lparr>tk_visitedRecords := tk_visitedRecords s'\<rparr>)" using inv None frame by simp
    then have "childrenInv ?s" by (simp add: childrenInv_def childOk_def pending_def)
    then have "delivers s0 D (Some (t, ?s))"
      using with' all frame less.prems(3)
      by (intro finish) (auto simp: candidatesWith_def candidatesInv_def toDeliver_def)
    then show ?thesis using read None by (simp add: unfold)
  next
    case (Some r)
    let ?v = "insert (recordId r) (tk_visitedRecords s)"
    let ?s = "s'\<lparr>tk_visitedRecords := ?v\<rparr>"
    have inv: "childrenInv ?s" using inv Some by auto
    have measure: "unread s' < unread s" "unread ?s < unread s"
      using measure Some by (simp_all add: unread_def pending_def)
    show ?thesis
    proof (cases "recordId r \<in> tk_visitedRecords s")
      case True
      then have "?s = s'" using frame(2) by (simp add: insert_absorb)
      then have "delivers s0 D (topKLoop getNext verifiers vmem penalty t s')"
        using inv with' less.prems(3,4) frame by (intro less.hyps [OF measure(1)]) simp_all
      then show ?thesis using read Some True frame(2) by (simp add: unfold)
    next
      case False
      let ?r = "\<lambda>info. boostRecord (topK_feedback (tk_feedbackRanker s)) (setMatches info r)"
      obtain info where info: "topK_verifyRecordWithChildren verifiers vmem penalty r ?i = Some (recordId r \<in> common, info)"
        "recordId r \<in> common \<Longrightarrow> recordRuntimeScore (?r info) = final s (recordId r)"
        using verified_record [OF agree [OF less.prems(1)] i next_in_list [OF less.prems(1) i Some False]] by blast
      show ?thesis
      proof (cases "recordId r \<in> common")
        case nc: False
        have "delivers s0 D (topKLoop getNext verifiers vmem penalty t ?s)"
          using inv with' less.prems(3,4) frame nc
          by (intro less.hyps [OF measure(2)]) (auto simp: candidatesWith_def candidatesInv_def toDeliver_def)
        then show ?thesis using read Some False frame(2) info nc by (simp add: unfold Let_def)
      next
        case c: True
        have rid: "recordId (?r info) = recordId r" by (simp add: boostRecord_def setMatches_def split: option.splits)
        obtain b s2 where kb: "keepBest t (?r info) (?s\<lparr>fullCandidatesListForCache := fullCandidatesListForCache s' @ [?r info]\<rparr>) = (b, s2)"
          by fastforce
        let ?full = "fullCandidatesListForCache s' @ [?r info]"
        have "\<exists>cs. s2 = s'\<lparr>tk_visitedRecords := ?v, fullCandidatesListForCache := ?full, tk_candidatesList := cs\<rparr>
          \<and> candidatesWith s2 (Some b) \<and> toDeliver s2 (b # tk_candidatesList s2) = toDeliver s' (topList t @ tk_candidatesList s')"
          by (rule keepBest_candidates [OF with'(1), of "?r info"]) (use c rid info(2) [OF c] False frame kb in simp_all)
        then obtain cs where s2: "s2 = s'\<lparr>tk_visitedRecords := ?v, fullCandidatesListForCache := ?full, tk_candidatesList := cs\<rparr>"
          "candidatesWith s2 (Some b)" "D = toDeliver s2 (b # tk_candidatesList s2)"
          using with'(2) by auto
        have inv2: "childrenInv s2" using inv by (simp add: s2(1) childrenInv_def childOk_def pending_def)
        have measure2: "unread s2 < unread s" using measure(1) by (simp add: s2(1) unread_def pending_def)
        have frame2: "tk_feedbackRanker s2 = tk_feedbackRanker s0"
          "\<not> tk_listsHaveMoreRecordsInThem s2 \<Longrightarrow> common \<subseteq> tk_visitedRecords s2"
          using less.prems(3,4) frame by (auto simp: s2(1))
        obtain more m where m: "getMaximumScoreOfUnvisitedRecords (topK_maxFeedbackBoost s2) s2 = (more, m)" by fastforce
        have step: "topKLoop getNext verifiers vmem penalty t s = (if \<not> more then Some (Some b, s2\<lparr>tk_listsHaveMoreRecordsInThem := False\<rparr>)
            else if m < recordRuntimeScore b then Some (Some b, s2) else topKLoop getNext verifiers vmem penalty (Some b) s2)"
          using read Some False frame info(1) c kb m by (simp add: unfold Let_def)
        show ?thesis
        proof (cases more)
          case no: False
          have "common \<subseteq> tk_visitedRecords s2" using m no by (intro no_maximum [OF inv2, of "topK_maxFeedbackBoost s2" m]) simp
          then have "delivers s0 D (Some (Some b, s2\<lparr>tk_listsHaveMoreRecordsInThem := False\<rparr>))"
            using inv2 s2(2,3) frame2
            by (intro finish) (auto simp: candidatesWith_def candidatesInv_def toDeliver_def childrenInv_def childOk_def pending_def)
          then show ?thesis using no step by simp
        next
          case yes: True
          show ?thesis
          proof (cases "m < recordRuntimeScore b")
            case True
            have "delivers s0 D (Some (Some b, s2))"
              using s2(2,3) frame2 True maximum_bound [OF inv2, of m] m yes by (intro finish [OF inv2]) force+
            then show ?thesis using yes True step by simp
          next
            case False
            have "delivers s0 D (topKLoop getNext verifiers vmem penalty (Some b) s2)"
              using s2(2,3) frame2 inv2 by (intro less.hyps [OF measure2]) simp_all
            then show ?thesis using yes False step by simp
          qed
        qed
      qed
    qed
  qed
qed

lemma getNext_delivers:
  assumes "topKOk s"
  shows "delivers s (toDeliver s (tk_candidatesList s)) (MergeTopK_getNext getNext verifiers vmem penalty s)"
proof (cases "std_sort PhysicalPlanRecordItemComparator (tk_candidatesList s)")
  case Nil
  then have "tk_candidatesList s = []" by (metis mset_std_sort mset_zero_iff)
  then have with': "candidatesWith s None" by (simp add: candidatesWith_def candidatesInv_def)
  have inv: "childrenInv s" "\<not> tk_listsHaveMoreRecordsInThem s \<Longrightarrow> common \<subseteq> tk_visitedRecords s"
    using assms by (auto simp: topKOk_def)
  show ?thesis
  proof (cases "tk_listsHaveMoreRecordsInThem s")
    case True
    then show ?thesis using loop_delivers [OF inv(1) with' refl inv(2)] Nil by (simp add: MergeTopK_getNext_def)
  next
    case False
    then have "delivers s (toDeliver s (tk_candidatesList s)) (Some (None, s))"
      using inv by (intro finish [OF inv(1) with']) auto
    then show ?thesis using Nil False by (simp add: MergeTopK_getNext_def)
  qed
next
  case (Cons t cs)
  then have ms: "mset (tk_candidatesList s) = mset (t # cs)" by (metis mset_std_sort)
  have best: "\<forall>x \<in> set cs. recordRuntimeScore x \<le> recordRuntimeScore t"
    using sort_descending [of "tk_candidatesList s"] rankKey_score_le by (auto simp: Cons)
  obtain more m where m: "getMaximumScoreOfUnvisitedRecords (topK_maxFeedbackBoost s) (s\<lparr>tk_candidatesList := cs\<rparr>) = (more, m)"
    by fastforce
  define s1 where "s1 = (if more then s\<lparr>tk_candidatesList := cs\<rparr> else s\<lparr>tk_candidatesList := cs, tk_listsHaveMoreRecordsInThem := False\<rparr>)"
  have same: "getMaximumScoreOfUnvisitedRecords b s1 = getMaximumScoreOfUnvisitedRecords b (s\<lparr>tk_candidatesList := cs\<rparr>)"
    "topK_maxFeedbackBoost s1 = topK_maxFeedbackBoost s" "topK_maxFeedbackBoost (s\<lparr>tk_candidatesList := cs\<rparr>) = topK_maxFeedbackBoost s"
    for b
    by (simp_all add: getMaximumScoreOfUnvisitedRecords_def topK_maxFeedbackBoost_def s1_def)
  have step: "MergeTopK_getNext getNext verifiers vmem penalty s =
      (if m < recordRuntimeScore t \<or> \<not> tk_listsHaveMoreRecordsInThem s1 then Some (Some t, s1)
       else topKLoop getNext verifiers vmem penalty (Some t) s1)"
    by (cases more) (simp_all add: MergeTopK_getNext_def Cons Let_def same(3) m s1_def)
  have inv1: "childrenInv s1"
    using assms by (simp add: topKOk_def s1_def childrenInv_def childOk_def pending_def)
  have fin: "common \<subseteq> tk_visitedRecords s1" if "\<not> tk_listsHaveMoreRecordsInThem s1"
  proof (cases more)
    case True
    then show ?thesis using that assms by (simp add: topKOk_def s1_def)
  next
    case False
    then show ?thesis using no_maximum [OF inv1, of "topK_maxFeedbackBoost s" m] m same(1) by simp
  qed
  have ids: "mset (map recordId (tk_candidatesList s)) = mset (map recordId (t # cs))" using ms by (metis mset_map)
  have with': "candidatesWith s1 (Some t)"
    using assms best mset_eq_setD [OF ms] mset_eq_imp_distinct_iff [OF ids]
    by (simp add: candidatesWith_def candidatesInv_def topKOk_def s1_def)
  have D: "toDeliver s (tk_candidatesList s) = toDeliver s1 (topList (Some t) @ tk_candidatesList s1)"
    using mset_eq_setD [OF ms] by (simp add: toDeliver_def s1_def)
  have f: "tk_feedbackRanker s1 = tk_feedbackRanker s" by (simp add: s1_def)
  show ?thesis
  proof (cases "m < recordRuntimeScore t \<or> \<not> tk_listsHaveMoreRecordsInThem s1")
    case True
    have "final s1 rid \<le> recordRuntimeScore t" if r: "rid \<in> common - tk_visitedRecords s1" for rid
    proof -
      have "tk_listsHaveMoreRecordsInThem s1" using r fin by auto
      then have "more" "m < recordRuntimeScore t" using True by (cases more; simp add: s1_def)+
      then show ?thesis using maximum_bound [OF inv1 _ r, of m] m same by simp
    qed
    then have "delivers s (toDeliver s (tk_candidatesList s)) (Some (Some t, s1))"
      by (intro finish [OF inv1 with' f fin _ D]) auto
    then show ?thesis using True step by simp
  next
    case False
    then show ?thesis using loop_delivers [OF inv1 with' f fin D] step by simp
  qed
qed

definition topKRemaining :: "'s MergeTopKOperator \<Rightarrow> real list" where
  "topKRemaining s = rev (sort (map (final s) (sorted_list_of_set (toDeliver s (tk_candidatesList s)))))"

lemma finite_toDeliver: "finite (toDeliver s rs)"
  by (simp add: toDeliver_def)

lemma sort_without_best:
  assumes "finite D" "rid \<in> D" "\<forall>x \<in> D. g x \<le> (g rid :: real)"
  shows "rev (sort (map g (sorted_list_of_set D))) = g rid # rev (sort (map g (sorted_list_of_set (D - {rid}))))"
proof -
  let ?rest = "map g (sorted_list_of_set (D - {rid}))"
  have m: "mset (sorted_list_of_set A) = mset_set A" if "finite A" for A :: "'b::linorder set"
    using that by (metis mset_set_set distinct_sorted_list_of_set set_sorted_list_of_set)
  have "sort (map g (sorted_list_of_set D)) = sort (g rid # ?rest)"
  proof (rule properties_for_sort)
    have "mset (sorted_list_of_set D) = add_mset rid (mset (sorted_list_of_set (D - {rid})))"
      unfolding m [OF assms(1)] m [OF finite_Diff [OF assms(1)]] by (rule mset_set.remove [OF assms(1,2)])
    then show "mset (sort (g rid # ?rest)) = mset (map g (sorted_list_of_set D))" by simp
  qed (simp add: sorted_insort)
  also have "\<dots> = sort ?rest @ [g rid]" using assms by (intro sort_max_last) auto
  finally show ?thesis by simp
qed

sublocale topk: item_stream "MergeTopK_getNext getNext verifiers vmem penalty" recordRuntimeScore topKRemaining topKOk
proof
  fix s assume o: "topKOk s"
  let ?D = "toDeliver s (tk_candidatesList s)"
  obtain r s' where d: "MergeTopK_getNext getNext verifiers vmem penalty s = Some (r, s')" "topKOk s'"
    "tk_feedbackRanker s' = tk_feedbackRanker s" "toDeliver s' (tk_candidatesList s') = ?D - recordId ` set (topList r)"
    "case r of None \<Rightarrow> ?D = {} | Some t \<Rightarrow> recordId t \<in> ?D \<and> recordRuntimeScore t = final s (recordId t)
      \<and> (\<forall>rid \<in> ?D. final s rid \<le> recordRuntimeScore t)"
    using getNext_delivers [OF o, of vmem penalty] unfolding delivers_def by blast
  have cases: "(r = None \<and> topKRemaining s = [] \<and> topKRemaining s' = [])
    \<or> (\<exists>t. r = Some t \<and> topKRemaining s = recordRuntimeScore t # topKRemaining s')"
  proof (cases r)
    case None
    then show ?thesis using d(4,5) by (simp add: topKRemaining_def)
  next
    case (Some t)
    then have t: "recordId t \<in> ?D" "\<forall>rid \<in> ?D. final s rid \<le> final s (recordId t)" "recordRuntimeScore t = final s (recordId t)"
      using d(5) by auto
    show ?thesis using Some d(3,4) sort_without_best [OF finite_toDeliver t(1,2)] t(3) by (simp add: topKRemaining_def)
  qed
  show "\<exists>s'. MergeTopK_getNext getNext verifiers vmem penalty s = Some (None, s') \<and> topKOk s' \<and> topKRemaining s' = []"
    if "topKRemaining s = []" using cases that d(1,2) by auto
  show "\<exists>x s'. MergeTopK_getNext getNext verifiers vmem penalty s = Some (Some x, s') \<and> recordRuntimeScore x = v
      \<and> topKOk s' \<and> topKRemaining s' = vs"
    if "topKRemaining s = v # vs" for v vs using cases that d(1,2) by auto
qed

lemma drain_best:
  assumes "topKOk s"
  shows "\<exists>xs. drain (MergeTopK_getNext getNext verifiers vmem penalty) k s = Some xs
    \<and> length xs = min k (card (toDeliver s (tk_candidatesList s)))
    \<and> distinct (map recordId xs) \<and> recordId ` set xs \<subseteq> toDeliver s (tk_candidatesList s)
    \<and> (\<forall>x \<in> set xs. recordRuntimeScore x = final s (recordId x))
    \<and> sorted_wrt (\<lambda>a b. recordRuntimeScore b \<le> recordRuntimeScore a) xs
    \<and> (\<forall>x \<in> set xs. \<forall>rid \<in> toDeliver s (tk_candidatesList s) - recordId ` set xs. final s rid \<le> recordRuntimeScore x)"
  using assms
proof (induction k arbitrary: s)
  case (Suc k)
  let ?D = "toDeliver s (tk_candidatesList s)"
  obtain r s' where d: "MergeTopK_getNext getNext verifiers vmem penalty s = Some (r, s')" "topKOk s'"
    "tk_feedbackRanker s' = tk_feedbackRanker s" "toDeliver s' (tk_candidatesList s') = ?D - recordId ` set (topList r)"
    "case r of None \<Rightarrow> ?D = {} | Some t \<Rightarrow> recordId t \<in> ?D \<and> recordRuntimeScore t = final s (recordId t)
      \<and> (\<forall>rid \<in> ?D. final s rid \<le> recordRuntimeScore t)"
    using getNext_delivers [OF Suc.prems, of vmem penalty] unfolding delivers_def by blast
  show ?case
  proof (cases r)
    case None
    then show ?thesis using d by simp
  next
    case (Some t)
    then have t: "recordId t \<in> ?D" "recordRuntimeScore t = final s (recordId t)" "\<forall>rid \<in> ?D. final s rid \<le> final s (recordId t)"
      and D: "toDeliver s' (tk_candidatesList s') = ?D - {recordId t}" using d(4,5) by auto
    obtain xs where xs: "drain (MergeTopK_getNext getNext verifiers vmem penalty) k s' = Some xs"
      "length xs = min k (card (?D - {recordId t}))" "distinct (map recordId xs)" "recordId ` set xs \<subseteq> ?D - {recordId t}"
      "\<forall>x \<in> set xs. recordRuntimeScore x = final s (recordId x)"
      "sorted_wrt (\<lambda>a b. recordRuntimeScore b \<le> recordRuntimeScore a) xs"
      "\<forall>x \<in> set xs. \<forall>rid \<in> ?D - {recordId t} - recordId ` set xs. final s rid \<le> recordRuntimeScore x"
      using Suc.IH [OF d(2)] unfolding D d(3) by blast
    have "card ?D = Suc (card (?D - {recordId t}))" using t(1) finite_toDeliver by (metis card.remove)
    moreover have "\<forall>x \<in> set xs. recordRuntimeScore x \<le> recordRuntimeScore t" using t(3) xs(4,5) unfolding t(2) by auto
    ultimately show ?thesis using d(1) Some t xs by (intro exI [of _ "t # xs"]) auto
  qed
qed simp

text \<open>Opening: every child hands out its first record.\<close>

lemma initialize_children:
  assumes "length (tk_nextItemsFromChildren s) = m" "length (tk_children s) = length Ls" "m \<le> length Ls"
    "\<forall>i < m. ok (tk_children s ! i) \<and> (tk_nextItemsFromChildren s ! i = None \<longrightarrow> remaining (tk_children s ! i) = [])
      \<and> pending s i = Ls ! i"
    "\<forall>i. m \<le> i \<and> i < length Ls \<longrightarrow> ok (tk_children s ! i) \<and> remaining (tk_children s ! i) = Ls ! i"
  shows "\<exists>s'. initializeNextItemsFromChildren getNext [m..<length Ls] s = Some s'
    \<and> length (tk_nextItemsFromChildren s') = length Ls \<and> length (tk_children s') = length Ls
    \<and> tk_feedbackRanker s' = tk_feedbackRanker s
    \<and> (\<forall>i < length Ls. ok (tk_children s' ! i) \<and> (tk_nextItemsFromChildren s' ! i = None \<longrightarrow> remaining (tk_children s' ! i) = [])
      \<and> pending s' i = Ls ! i)"
  using assms
proof (induction "length Ls - m" arbitrary: m s)
  case 0
  then show ?case by simp
next
  case (Suc d)
  then have m: "m < length Ls" by simp
  let ?c = "tk_children s ! m"
  have c: "ok ?c" "remaining ?c = Ls ! m" using Suc.prems(5) m by auto
  obtain r c' where r: "getNext ?c = Some (r, c')" "ok c'" "r = None \<longrightarrow> remaining c' = []"
    "map rankKey (topList r) @ remaining c' = Ls ! m"
    using c(1) by (cases rule: child.getNext_cases) (use that c(2) in auto)
  define s' where "s' = s\<lparr>tk_children := (tk_children s)[m := c'],
    tk_listsHaveMoreRecordsInThem := (if r = None then False else tk_listsHaveMoreRecordsInThem s),
    tk_nextItemsFromChildren := tk_nextItemsFromChildren s @ [r]\<rparr>"
  have step: "initializeNextItemsFromChildren getNext [m..<length Ls] s
      = initializeNextItemsFromChildren getNext [Suc m..<length Ls] s'"
    using m r(1) Suc.prems(2) by (simp add: upt_conv_Cons childNext_def nth_opt_def s'_def)
  have "ok (tk_children s' ! i) \<and> (tk_nextItemsFromChildren s' ! i = None \<longrightarrow> remaining (tk_children s' ! i) = [])
      \<and> pending s' i = Ls ! i" if "i < Suc m" for i
    using that r Suc.prems(1,2,4) m
    by (cases "i = m") (auto simp: s'_def pending_def nth_append)
  moreover have "length Ls - Suc m = d" using Suc.hyps(2) by simp
  ultimately show ?case using Suc.hyps(1) [of "Suc m" s'] Suc.prems(1,2,5) m unfolding step by (auto simp: s'_def)
qed

lemma open_ready:
  assumes "childrenAgree verifiers f Ls" "openChildren openChild [] (tk_children s0) = Some cs"
    "tk_nextItemsFromChildren s0 = []" "list_all2 (\<lambda>c l. ok c \<and> remaining c = l) cs Ls"
  shows "\<exists>s. MergeTopK_open mem openChild getNext verifiers vmem penalty f (None :: 'c MergeTopKCacheEntry option) s0 = Some (True, s)
    \<and> topKOk s \<and> tk_feedbackRanker s = f \<and> toDeliver s (tk_candidatesList s) = common"
proof -
  have len: "length cs = length Ls" using assms(4) by (rule list_all2_lengthD)
  have n: "length (tk_children s0) = length Ls" using openChildren_length [OF assms(2)] len by simp
  have cs: "\<forall>i < length Ls. ok (cs ! i) \<and> remaining (cs ! i) = Ls ! i" using assms(4) by (simp add: list_all2_conv_all_nth)
  let ?s = "s0\<lparr>tk_feedbackRanker := f, tk_children := cs\<rparr>"
  obtain s1 where s1: "initializeNextItemsFromChildren getNext [0..<length Ls] ?s = Some s1"
    "length (tk_nextItemsFromChildren s1) = length Ls" "length (tk_children s1) = length Ls" "tk_feedbackRanker s1 = f"
    "\<forall>i < length Ls. ok (tk_children s1 ! i) \<and> (tk_nextItemsFromChildren s1 ! i = None \<longrightarrow> remaining (tk_children s1 ! i) = [])
      \<and> pending s1 i = Ls ! i"
    using initialize_children [of ?s 0] assms(3) len cs by auto
  let ?t = "s1\<lparr>tk_candidatesList := [], fullCandidatesListForCache := [],
           tk_listsHaveMoreRecordsInThem := True, childRoundRobinOffset := 0, tk_visitedRecords := {}\<rparr>"
  have "MergeTopK_open mem openChild getNext verifiers vmem penalty f (None :: 'c MergeTopKCacheEntry option) s0 = Some (True, ?t)"
    using assms(2) s1(1) n by (simp add: MergeTopK_open_def Let_def)
  moreover have "childOk ?t i" if "i < length Ls" for i
  proof -
    have "Ls ! i = [] @ pending ?t i" using s1(5) that by (simp add: pending_def)
    then show ?thesis using s1(5) that by (fastforce simp: childOk_def)
  qed
  then have "topKOk ?t" using assms(1) s1(2-4) by (simp add: topKOk_def childrenInv_def candidatesInv_def childrenAgree_def)
  ultimately show ?thesis using s1(4) by (simp add: toDeliver_def)
qed

lemma fresh_run:
  assumes "childrenAgree verifiers f Ls" "openChildren openChild [] (tk_children s0) = Some cs"
    "tk_nextItemsFromChildren s0 = []" "list_all2 (\<lambda>c l. ok c \<and> remaining c = l) cs Ls"
  shows "\<exists>s xs. MergeTopK_open mem openChild getNext verifiers vmem penalty f (None :: 'c MergeTopKCacheEntry option) s0 = Some (True, s)
    \<and> drain (MergeTopK_getNext getNext verifiers vmem penalty) k s = Some xs
    \<and> length xs = min k (card common) \<and> distinct (map recordId xs)
    \<and> (\<forall>x \<in> set xs. recordId x \<in> common \<and> recordRuntimeScore x = finalScore f Ls (recordId x))
    \<and> sorted_wrt (\<lambda>a b. recordRuntimeScore b \<le> recordRuntimeScore a) xs
    \<and> (\<forall>x \<in> set xs. \<forall>rid \<in> common - recordId ` set xs. finalScore f Ls rid \<le> recordRuntimeScore x)"
proof -
  obtain s where s: "MergeTopK_open mem openChild getNext verifiers vmem penalty f (None :: 'c MergeTopKCacheEntry option) s0 = Some (True, s)"
    "topKOk s" "tk_feedbackRanker s = f" "toDeliver s (tk_candidatesList s) = common"
    using open_ready [OF assms] by metis
  note run = drain_best [OF s(2), unfolded s(3,4), of vmem penalty k]
  show ?thesis
  proof (rule exE [OF run], elim conjE, intro exI conjI)
    fix xs assume "recordId ` set xs \<subseteq> common" "\<forall>x \<in> set xs. recordRuntimeScore x = finalScore f Ls (recordId x)"
    then show "\<forall>x \<in> set xs. recordId x \<in> common \<and> recordRuntimeScore x = finalScore f Ls (recordId x)" by auto
  qed (rule s(1) | assumption)+
qed

lemmas delivers_scores = topk.record_stream_axioms

end

interpretation byScoreMerge: topk_children SortByScore_getNext scoreRemaining scoreHeap verifiers Ls for verifiers Ls
  by (rule topk_children.intro) (rule sortByScore.item_stream_axioms)

text \<open>
  C3. The top-k conjunction is correct: over children that list their records by descending score, each as often
  as keywords match, and verifiers that accept exactly the listed records with the best of their scores,
  opening returns, and \<open>k\<close> calls of \<open>getNext\<close> return and deliver \<open>k\<close> distinct records that all children have
  (all of them when there are fewer), each with the sum of its scores, boosted by the feedback, by
  descending score, and no record that all children have and that was not delivered has a better score,
  although the lists are not read to their end.
\<close>

theorem MergeTopK_delivers_best:
  assumes "item_stream getNext rankKey remaining ok" "childrenAgree verifiers f Ls"
    "openChildren openChild [] (tk_children s0) = Some cs" "tk_nextItemsFromChildren s0 = []"
    "list_all2 (\<lambda>c l. ok c \<and> remaining c = l) cs Ls"
  shows "\<exists>s xs. MergeTopK_open mem openChild getNext verifiers vmem penalty f None s0 = Some (True, s)
    \<and> drain (MergeTopK_getNext getNext verifiers vmem penalty) k s = Some xs
    \<and> length xs = min k (card (set (commonRecords Ls))) \<and> distinct (map recordId xs)
    \<and> (\<forall>x \<in> set xs. recordId x \<in> set (commonRecords Ls) \<and> recordRuntimeScore x = finalScore f Ls (recordId x))
    \<and> sorted_wrt (\<lambda>a b. recordRuntimeScore b \<le> recordRuntimeScore a) xs
    \<and> (\<forall>x \<in> set xs. \<forall>rid \<in> set (commonRecords Ls) - recordId ` set xs. finalScore f Ls rid \<le> recordRuntimeScore x)"
  using topk_children.fresh_run [OF topk_children.intro [OF assms(1)] assms(2-5)] .

text \<open>Records 7 and 2 in both lists, and a user who chose record 2 four times.\<close>

definition listVerifier :: "RankKey list \<Rightarrow> verifier" where
  "listVerifier l = verifyByRandomAccess
    (\<lambda>rid lo hi filterAttributes operation. if listed l rid then Some (3, [], scoreIn l rid) else None)
    (\<lambda>_. None) (samplePrefix 3 3)"

definition sampleRanked :: "RankKey list \<Rightarrow> unit SortByScoreOperator" where
  "sampleRanked l = \<lparr>ss_child = (), recordsAfterTopK = [], isRecordsAfterTopKVectorSorted = True,
     topKBestRecords = rev (map (\<lambda>k. (sampleItem (rk_id k))\<lparr>recordRuntimeScore := rk_score k\<rparr>) l)\<rparr>"

definition sampleLists :: "RankKey list list" where
  "sampleLists = [[RankKey (9 / 10) 7, RankKey (5 / 10) 2], [RankKey (8 / 10) 2, RankKey (6 / 10) 7, RankKey (5 / 10) 4]]"

definition sampleFeedback :: "FeedbackRanker option" where
  "sampleFeedback = Some (FeedbackRanker_init [\<lparr>fb_recordId = 2, feedbackFrequency = 4, timestamp = 1000\<rparr>] 1000
     \<lparr>feedbackInfoForQuery = [], queryArrivalTime = 0, maxBoostForThisQuery = 0\<rparr>)"

definition sampleTopK :: "unit SortByScoreOperator MergeTopKOperator" where
  "sampleTopK = \<lparr>tk_children = map sampleRanked sampleLists, tk_hasQueryEvaluator = True, tk_feedbackRanker = None,
     tk_nextItemsFromChildren = [], tk_candidatesList = [], fullCandidatesListForCache = [], tk_visitedRecords = {},
     tk_listsHaveMoreRecordsInThem = True, childRoundRobinOffset = 0\<rparr>"

lemma listVerifier_agrees: "verifierAgrees (listVerifier l) l"
  by (simp add: verifierAgrees_def listVerifier_def sample_defs recordMatch_def computeTermRecordRuntimeScore_def)

lemma sampleRanked_heap: "scoreHeap (sampleRanked l)"
  by (simp add: scoreHeap_def sampleRanked_def)

lemma sampleRanked_remaining: "scoreRemaining (sampleRanked l) = l"
  by (simp add: scoreRemaining_def sampleRanked_def sampleItem_def rankKey_def rev_map comp_def)

lemma sampleLists_agree: "childrenAgree (map listVerifier sampleLists) sampleFeedback sampleLists"
  using listVerifier_agrees
  by (auto simp: childrenAgree_def sampleLists_def rankerReady_def sampleFeedback_def rankedList_def less_Suc_eq)

lemma sample_finalScore: "finalScore sampleFeedback sampleLists 2 = 39 / 10" "finalScore sampleFeedback sampleLists 7 = 3 / 2"
  by (simp_all add: finalScore_def sampleFeedback_def sampleLists_def scoreIn_def computeFeedbackBoostedScore_def
      getFeedbackBoostForRecord_def FeedbackRanker_init_def feedbackBoostOf_def computeFeedbackBoost_def Let_def)

lemma sample_common: "commonRecords sampleLists = [7, 2]"
  by (simp add: commonRecords_def sampleLists_def listed_def)

theorem MergeTopK_delivers_best_witness:
  "\<exists>s x. MergeTopK_open undefined (\<lambda>(_ :: unit option) c. Some c) SortByScore_getNext (map listVerifier sampleLists) undefined 1
      sampleFeedback None sampleTopK = Some (True, s)
    \<and> drain (MergeTopK_getNext SortByScore_getNext (map listVerifier sampleLists) undefined 1) 1 s = Some [x]
    \<and> recordId x = 2 \<and> recordRuntimeScore x = 39 / 10"
proof -
  have o: "openChildren (\<lambda>(_ :: unit option) c. Some c) [] (tk_children sampleTopK) = Some (map sampleRanked sampleLists)"
    by (simp add: sampleTopK_def sampleLists_def)
  have r: "list_all2 (\<lambda>c l. scoreHeap c \<and> scoreRemaining c = l) (map sampleRanked sampleLists) sampleLists"
    by (simp add: list_all2_conv_all_nth sampleRanked_remaining sampleRanked_heap)
  have n: "tk_nextItemsFromChildren sampleTopK = []" by (simp add: sampleTopK_def)
  obtain s xs where s: "MergeTopK_open undefined (\<lambda>(_ :: unit option) c. Some c) SortByScore_getNext (map listVerifier sampleLists)
      undefined 1 sampleFeedback None sampleTopK = Some (True, s)"
    "drain (MergeTopK_getNext SortByScore_getNext (map listVerifier sampleLists) undefined 1) 1 s = Some xs"
    and xs: "length xs = 1"
      "\<forall>x \<in> set xs. recordId x \<in> {7, 2} \<and> recordRuntimeScore x = finalScore sampleFeedback sampleLists (recordId x)"
      "\<forall>x \<in> set xs. \<forall>rid \<in> {7, 2} - recordId ` set xs. finalScore sampleFeedback sampleLists rid \<le> recordRuntimeScore x"
    using MergeTopK_delivers_best [OF sortByScore.item_stream_axioms sampleLists_agree o n r, of undefined undefined 1 1]
    unfolding sample_common by auto
  obtain x where x: "xs = [x]" using xs(1) by (cases xs) auto
  with xs(2,3) have "recordId x = 2 \<and> recordRuntimeScore x = 39 / 10" by (auto simp: sample_finalScore)
  with s x show ?thesis by blast
qed

text \<open>
  The recency factor of the feedback boost is not cut off when it reaches 0: a choice six months old that was
  made four times turns the score of a record negative.
\<close>

lemma feedback_boost_negative: "computeFeedbackBoost (2 * 7776000) 4 = - 5"
  by (simp add: computeFeedbackBoost_def Let_def)

end
