(* ===== verification/Term_Virtual_List.thy ===== *)
theory Term_Virtual_List
  imports Simple_Scan Sort_Operators
begin

text \<open>
  The list of a term by descending score,
  \<^verbatim>\<open>src/src/core/operation/physical_plan/UnionLowestLevelTermVirtualListOperator.cpp\<close>: a heap with the best record
  of every inverted list of the term, the usual child of the top-k conjunction. The first
  \<open>numberOfItemsInPartialHeap\<close> elements of the vector are arranged as a heap by the algorithms of the standard
  library, as in \<open>Sort_Operators\<close>. The inverted lists, the lookup of a keyword in a record and the test of a hit are
  arguments, as in \<open>Simple_Scan\<close>.
\<close>

section \<open>The operator\<close>

record HeapItem =
  h_invertedListId :: u32
  h_attributeIdsList :: "u32 list"
  cursorVectorPosition :: nat
  h_recordId :: u32
  termRecordRuntimeScore :: real
  termRecordStaticScore :: real
  h_positionIndexOffset :: u32
  h_trieNode :: nat
  h_ed :: u32
  h_isPrefixMatch :: bool

record TermVirtualListOperator =
  itemsHeap :: "HeapItem list"
  numberOfItemsInPartialHeap :: nat
  currentMaxEditDistanceOnHeap :: u32
  cursorVector :: "nat list"
  invertedListReadViewVector :: "u32 list list"
  t_parentIsCacheEnabled :: bool

record TermVirtualListCacheEntry =
  tve_itemsHeap :: "HeapItem list"
  tve_numberOfItemsInPartialHeap :: nat
  tve_currentMaxEditDistanceOnHeap :: u32
  tve_cursorVector :: "nat list"

text \<open>The constructor sets the empty vectors and the flag; \<open>mem\<close> is what the memory holds.\<close>

definition TermVirtualList_new :: "TermVirtualListOperator \<Rightarrow> TermVirtualListOperator" where
  "TermVirtualList_new mem = mem\<lparr>itemsHeap := [], cursorVector := [], invertedListReadViewVector := [],
     t_parentIsCacheEnabled := False\<rparr>"

definition HeapItemCmp :: "HeapItem \<Rightarrow> HeapItem \<Rightarrow> bool" where
  "HeapItemCmp lhs rhs = compareRecordsLessThan (termRecordRuntimeScore lhs) (h_recordId lhs)
     (termRecordRuntimeScore rhs) (h_recordId rhs)"

text \<open>The test of a record of an inverted list with the matched attributes so far: whether the hit is valid,
  the matched attributes after the test, the static score and the offset of the keyword.\<close>

type_synonym list_hit = "u32 \<Rightarrow> u32 \<Rightarrow> u32 list \<Rightarrow> (bool \<times> u32 list \<times> real \<times> u32) option"

definition termListHit ::
  "(u32 \<Rightarrow> u32 \<Rightarrow> u32 option) \<Rightarrow>
    (u32 \<Rightarrow> u32 \<Rightarrow> u32 list \<Rightarrow> ATTRIBUTES_OP \<Rightarrow> u32 list \<Rightarrow> (bool \<times> u32 list \<times> real) option) \<Rightarrow>
    QueryTerm \<Rightarrow> list_hit" where
  "termListHit getOffset isValidTermPositionHit t recordID listID matched = do {
     keywordOffset \<leftarrow> getOffset recordID listID;
     if keywordOffset \<noteq> FORWARDLIST_NOTVALID
     then do {
       (isHit, matched, staticScore) \<leftarrow> isValidTermPositionHit recordID keywordOffset (attributesToFilter t)
         (filterAttrOperation t) matched;
       Some (isHit, matched, staticScore, keywordOffset)
     }
     else Some (False, matched, 0, keywordOffset)
   }"

text \<open>The loops over an inverted list from the position \<open>counter\<close>: the first valid hit and the position after
  it. The loop of \<open>initialiseTermVirtualListElement\<close> accumulates the matched attributes, that of \<open>getNext\<close>
  starts with an empty list for each record.\<close>

fun nextHit ::
  "list_hit \<Rightarrow> u32 \<Rightarrow> bool \<Rightarrow> u32 list \<Rightarrow> nat \<Rightarrow> u32 list \<Rightarrow> (u32 \<times> u32 list \<times> real \<times> u32 \<times> nat) option option" where
  "nextHit hit listID accumulate [] counter matched = Some None"
| "nextHit hit listID accumulate (recordID # recordIDs) counter matched = do {
     (foundValidHit, matched, staticScore, keywordOffset) \<leftarrow> hit recordID listID matched;
     if foundValidHit then Some (Some (recordID, matched, staticScore, keywordOffset, counter + 1))
     else nextHit hit listID accumulate recordIDs (counter + 1) (if accumulate then matched else [])
   }"

definition listScore :: "QueryTerm \<Rightarrow> real \<Rightarrow> u32 \<Rightarrow> bool \<Rightarrow> real \<Rightarrow> real" where
  "listScore t penalty distance isPrefixMatch staticScore =
    computeTermRecordRuntimeScore staticScore (unat distance) (keywordSize t) isPrefixMatch penalty (similarityBoost t)
    * boost t"

text \<open>A leaf node with the prefix it was found from; for a complete term the prefix is not used. The counter of
  the heap is incremented before it is compared with 0.\<close>

definition initialiseTermVirtualListElement ::
  "list_hit \<Rightarrow> (u32 \<Rightarrow> u32 list) \<Rightarrow> QueryTerm \<Rightarrow> real \<Rightarrow> TrieNode \<times> TrieNode \<times> u32 \<Rightarrow>
    TermVirtualListOperator \<Rightarrow> TermVirtualListOperator option" where
  "initialiseTermVirtualListElement hit getInvertedListReadView t penalty leaf s =
    (case leaf of (prefixNode, leafNode, distance) \<Rightarrow>
     let invertedListId = invertedListOffset leafNode; invertedListReadView = getInvertedListReadView invertedListId in
     if invertedListReadView = [] then Some s
     else do {
       r \<leftarrow> nextHit hit invertedListId True invertedListReadView 0 [];
       case r of
         None \<Rightarrow> Some s
       | Some (recordID, attributes, staticScore, keywordOffset, invertedListCounter) \<Rightarrow>
           let s = s\<lparr>numberOfItemsInPartialHeap := numberOfItemsInPartialHeap s + 1\<rparr>;
               s = (if numberOfItemsInPartialHeap s = 0 then s\<lparr>currentMaxEditDistanceOnHeap := distance\<rparr> else s);
               isPrefixMatch = (termType t = TERM_TYPE_PREFIX \<and> nodeId prefixNode \<noteq> nodeId leafNode);
               item = \<lparr>h_invertedListId = invertedListId, h_attributeIdsList = attributes,
                 cursorVectorPosition = length (cursorVector s), h_recordId = recordID,
                 termRecordRuntimeScore = listScore t penalty distance isPrefixMatch staticScore,
                 termRecordStaticScore = staticScore, h_positionIndexOffset = keywordOffset,
                 h_trieNode = nodeId (if termType t = TERM_TYPE_PREFIX then prefixNode else leafNode),
                 h_ed = distance, h_isPrefixMatch = isPrefixMatch\<rparr>
           in Some (s\<lparr>itemsHeap := itemsHeap s @ [item], cursorVector := cursorVector s @ [invertedListCounter],
             invertedListReadViewVector := invertedListReadViewVector s @ [invertedListReadView]\<rparr>)
     })"

fun initialiseElements ::
  "list_hit \<Rightarrow> (u32 \<Rightarrow> u32 list) \<Rightarrow> QueryTerm \<Rightarrow> real \<Rightarrow> (TrieNode \<times> TrieNode \<times> u32) list \<Rightarrow>
    TermVirtualListOperator \<Rightarrow> TermVirtualListOperator option" where
  "initialiseElements hit view t penalty [] s = Some s"
| "initialiseElements hit view t penalty (leaf # leaves) s = do {
     s \<leftarrow> initialiseTermVirtualListElement hit view t penalty leaf s;
     initialiseElements hit view t penalty leaves s
   }"

text \<open>\<^verbatim>\<open>make_heap\<close> over the partial heap.\<close>

definition makePartialHeap :: "TermVirtualListOperator \<Rightarrow> TermVirtualListOperator" where
  "makePartialHeap s = s\<lparr>itemsHeap := make_heap HeapItemCmp (take (numberOfItemsInPartialHeap s) (itemsHeap s))
     @ drop (numberOfItemsInPartialHeap s) (itemsHeap s)\<rparr>"

text \<open>\<open>leaves\<close> is what the iterator over the leaf nodes yields. A cache entry comes with its heap.\<close>

definition TermVirtualList_open ::
  "list_hit \<Rightarrow> (u32 \<Rightarrow> u32 list) \<Rightarrow> QueryTerm \<Rightarrow> real \<Rightarrow> (TrieNode \<times> TrieNode \<times> u32) list \<Rightarrow> bool \<Rightarrow>
    TermVirtualListCacheEntry option \<Rightarrow> TermVirtualListOperator \<Rightarrow> TermVirtualListOperator option" where
  "TermVirtualList_open hit view t penalty leaves enabled cacheObject s = do {
     s \<leftarrow> initialiseElements hit view t penalty leaves (s\<lparr>numberOfItemsInPartialHeap := 0, currentMaxEditDistanceOnHeap := 0\<rparr>);
     let s = s\<lparr>t_parentIsCacheEnabled := enabled\<rparr>;
     case (if enabled then cacheObject else None) of
       None \<Rightarrow> Some (makePartialHeap s)
     | Some cacheEntry \<Rightarrow> Some (s\<lparr>itemsHeap := tve_itemsHeap cacheEntry, cursorVector := tve_cursorVector cacheEntry,
         currentMaxEditDistanceOnHeap := tve_currentMaxEditDistanceOnHeap cacheEntry,
         numberOfItemsInPartialHeap := tve_numberOfItemsInPartialHeap cacheEntry\<rparr>)
   }"

text \<open>The loop of \<open>addItemsToPartialHeap\<close>: the number of items, the largest edit distance, and whether there is
  an item.\<close>

fun countItems :: "HeapItem list \<Rightarrow> nat \<Rightarrow> u32 \<Rightarrow> bool \<Rightarrow> nat \<times> u32 \<times> bool" where
  "countItems [] n maxEd returnValue = (n, maxEd, returnValue)"
| "countItems (currentItem # items) n maxEd returnValue =
    (if n = 0
     then if h_ed currentItem > maxEd then countItems items 1 (h_ed currentItem) True
          else countItems items 0 maxEd returnValue
     else if h_ed currentItem \<le> maxEd then countItems items (n + 1) maxEd True
     else (n, maxEd, returnValue))"

definition addItemsToPartialHeap :: "TermVirtualListOperator \<Rightarrow> bool \<times> TermVirtualListOperator" where
  "addItemsToPartialHeap s =
    (case countItems (itemsHeap s) (numberOfItemsInPartialHeap s) (currentMaxEditDistanceOnHeap s) False of
      (n, maxEd, returnValue) \<Rightarrow>
        let s = s\<lparr>numberOfItemsInPartialHeap := n, currentMaxEditDistanceOnHeap := maxEd\<rparr>
        in (returnValue, if returnValue then makePartialHeap s else s))"

definition listItem :: "PhysicalPlanRecordItem \<Rightarrow> QueryTerm \<Rightarrow> HeapItem \<Rightarrow> PhysicalPlanRecordItem" where
  "listItem mem t h = (RecordItem_new mem)\<lparr>recordId := h_recordId h, recordRuntimeScore := termRecordRuntimeScore h,
     matchingPrefixes := [h_trieNode h], attributeIdsList := [h_attributeIdsList h], editDistances := [h_ed h],
     positionIndexOffsets := [h_positionIndexOffset h], termTypes := [termType t]\<rparr>"

text \<open>The item at the front leaves the heap and comes back with the next valid record of its list, or is
  deleted with its list. \<open>None\<close>: a cursor or a list of the item is out of range.\<close>

definition popItem ::
  "PhysicalPlanRecordItem \<Rightarrow> list_hit \<Rightarrow> QueryTerm \<Rightarrow> real \<Rightarrow>
    (TermVirtualListOperator, PhysicalPlanRecordItem) next_fun" where
  "popItem mem hit t penalty s =
    (let heap = take (numberOfItemsInPartialHeap s) (itemsHeap s);
         rest = drop (numberOfItemsInPartialHeap s) (itemsHeap s)
     in case heap of
       [] \<Rightarrow> None
     | h # _ \<Rightarrow> do {
       let others = butlast (pop_heap HeapItemCmp heap);
       cursor \<leftarrow> nth_opt (cursorVector s) (cursorVectorPosition h);
       currentHeapMaxInvertedList \<leftarrow> nth_opt (invertedListReadViewVector s) (cursorVectorPosition h);
       r \<leftarrow> nextHit hit (h_invertedListId h) False (drop cursor currentHeapMaxInvertedList) cursor [];
       Some (Some (listItem mem t h),
         case r of
           None \<Rightarrow> s\<lparr>numberOfItemsInPartialHeap := numberOfItemsInPartialHeap s - 1, itemsHeap := others @ rest\<rparr>
         | Some (recordID, attributes, staticScore, keywordOffset, cursor) \<Rightarrow>
             s\<lparr>cursorVector := (cursorVector s)[cursorVectorPosition h := cursor],
               itemsHeap := push_heap HeapItemCmp (others @ [h\<lparr>h_recordId := recordID,
                 termRecordRuntimeScore := listScore t penalty (h_ed h) (h_isPrefixMatch h) staticScore,
                 termRecordStaticScore := staticScore, h_attributeIdsList := attributes,
                 h_positionIndexOffset := keywordOffset\<rparr>]) @ rest\<rparr>)
     })"

definition TermVirtualList_getNext ::
  "PhysicalPlanRecordItem \<Rightarrow> list_hit \<Rightarrow> QueryTerm \<Rightarrow> real \<Rightarrow>
    (TermVirtualListOperator, PhysicalPlanRecordItem) next_fun" where
  "TermVirtualList_getNext mem hit t penalty s =
    (let (returnValue, s') = (if numberOfItemsInPartialHeap s = 0 then addItemsToPartialHeap s else (True, s)) in
     if \<not> returnValue then Some (None, s')
     else if numberOfItemsInPartialHeap s' \<noteq> 0 then popItem mem hit t penalty s'
     else Some (None, s'))"

definition TermVirtualList_close :: "TermVirtualListOperator \<Rightarrow> TermVirtualListCacheEntry option \<times> TermVirtualListOperator" where
  "TermVirtualList_close s =
    (if t_parentIsCacheEnabled s
     then Some \<lparr>tve_itemsHeap = itemsHeap s, tve_numberOfItemsInPartialHeap = numberOfItemsInPartialHeap s,
       tve_currentMaxEditDistanceOnHeap = currentMaxEditDistanceOnHeap s, tve_cursorVector = cursorVector s\<rparr>
     else None,
     s\<lparr>itemsHeap := [], cursorVector := [], invertedListReadViewVector := []\<rparr>)"

definition TermVirtualList_verifyByRandomAccess ::
  "have_word \<Rightarrow> QueryTerm \<Rightarrow> (TrieNode \<times> u32) list \<Rightarrow> verifier" where
  "TermVirtualList_verifyByRandomAccess haveWord t nodes = verifyByRandomAccessHelper haveWord t nodes"

section \<open>What the list delivers\<close>

definition itemKey :: "HeapItem \<Rightarrow> RankKey" where
  "itemKey h = RankKey (termRecordRuntimeScore h) (h_recordId h)"

lemma HeapItemCmp_key: "HeapItemCmp a b \<longleftrightarrow> itemKey a < itemKey b"
  by (simp add: HeapItemCmp_def itemKey_def less_RankKey_def)

interpretation itemOrder: heap_order HeapItemCmp
  by (rule heap_orderI [of _ itemKey]) (rule HeapItemCmp_key)

lemma rankKey_listItem [simp]: "rankKey (listItem mem t h) = itemKey h"
  by (simp add: rankKey_def listItem_def itemKey_def)

lemma pop_largest:
  fixes x :: "'k::linorder"
  assumes "\<forall>y \<in># M. y \<le> x"
  shows "rev (sorted_list_of_multiset (add_mset x M)) = x # rev (sorted_list_of_multiset M)"
  using assms by (simp add: sorted_list_of_multiset_insert sorted_insort_is_snoc)

text \<open>The test of a hit returns on the records of the lists, with a verdict and a static score that do not
  depend on the attributes matched before.\<close>

locale list_test =
  fixes hit :: "u32 \<Rightarrow> u32 \<Rightarrow> u32 list \<Rightarrow> (bool \<times> u32 list \<times> real \<times> u32) option"
    and good :: "u32 \<Rightarrow> u32 \<Rightarrow> bool" and valid :: "u32 \<Rightarrow> u32 \<Rightarrow> bool" and static :: "u32 \<Rightarrow> u32 \<Rightarrow> real"
  assumes hit_valid: "good rid listID \<Longrightarrow>
    \<exists>matched' sc off. hit rid listID matched = Some (valid rid listID, matched', sc, off) \<and> (valid rid listID \<longrightarrow> sc = static rid listID)"
begin

abbreviation "validOf listID \<equiv> filter (\<lambda>rid. valid rid listID)"

lemma nextHit_finds:
  assumes "\<forall>rid \<in> set rids. good rid listID"
  shows "(nextHit hit listID accumulate rids c matched = Some None \<and> validOf listID rids = [])
    \<or> (\<exists>rid a off c'. nextHit hit listID accumulate rids c matched = Some (Some (rid, a, static rid listID, off, c'))
      \<and> c < c' \<and> validOf listID rids = rid # validOf listID (drop (c' - c) rids))"
  using assms
proof (induction rids arbitrary: c matched)
  case (Cons rid rids)
  obtain m sc off where h: "hit rid listID matched = Some (valid rid listID, m, sc, off)" "valid rid listID \<longrightarrow> sc = static rid listID"
    using hit_valid [of rid listID matched] Cons.prems by auto
  show ?case
  proof (cases "valid rid listID")
    case True
    then show ?thesis using h by simp
  next
    case False
    let ?m = "if accumulate then m else []"
    have step: "nextHit hit listID accumulate (rid # rids) c matched = nextHit hit listID accumulate rids (Suc c) ?m"
      "validOf listID (rid # rids) = validOf listID rids"
      using False h by simp_all
    have "\<forall>rid \<in> set rids. good rid listID" using Cons.prems by simp
    from Cons.IH [OF this, of "Suc c" ?m] show ?thesis unfolding step
    proof (elim disjE exE conjE)
      fix rid' a off c'
      assume r: "nextHit hit listID accumulate rids (Suc c) ?m = Some (Some (rid', a, static rid' listID, off, c'))"
        "Suc c < c'" "validOf listID rids = rid' # validOf listID (drop (c' - Suc c) rids)"
      have "drop (c' - c) (rid # rids) = drop (c' - Suc c) rids" using r(2) by (simp add: drop_Cons' )
      then show "(nextHit hit listID accumulate rids (Suc c) ?m = Some None \<and> validOf listID rids = [])
        \<or> (\<exists>rid' a off c'. nextHit hit listID accumulate rids (Suc c) ?m = Some (Some (rid', a, static rid' listID, off, c'))
          \<and> c < c' \<and> validOf listID rids = rid' # validOf listID (drop (c' - c) (rid # rids)))"
        using r by (metis Suc_lessD)
    qed simp
  qed
qed simp

definition keyOf :: "QueryTerm \<Rightarrow> real \<Rightarrow> u32 \<Rightarrow> bool \<Rightarrow> u32 \<Rightarrow> u32 \<Rightarrow> RankKey" where
  "keyOf t penalty ed isPrefixMatch listID rid = RankKey (listScore t penalty ed isPrefixMatch (static rid listID)) rid"

definition itemKeys :: "QueryTerm \<Rightarrow> real \<Rightarrow> TermVirtualListOperator \<Rightarrow> HeapItem \<Rightarrow> RankKey list" where
  "itemKeys t penalty s h = itemKey h # map (keyOf t penalty (h_ed h) (h_isPrefixMatch h) (h_invertedListId h))
    (validOf (h_invertedListId h)
      (drop (cursorVector s ! cursorVectorPosition h) (invertedListReadViewVector s ! cursorVectorPosition h)))"

definition itemOk :: "QueryTerm \<Rightarrow> real \<Rightarrow> TermVirtualListOperator \<Rightarrow> HeapItem \<Rightarrow> bool" where
  "itemOk t penalty s h \<longleftrightarrow> cursorVectorPosition h < length (cursorVector s)
    \<and> (\<forall>rid \<in> set (invertedListReadViewVector s ! cursorVectorPosition h). good rid (h_invertedListId h))
    \<and> sorted_wrt (\<ge>) (itemKeys t penalty s h)"

text \<open>\<open>listsBuilt\<close> holds while the elements are appended, \<open>listsOk\<close> once they are a heap.\<close>

definition listsBuilt :: "QueryTerm \<Rightarrow> real \<Rightarrow> TermVirtualListOperator \<Rightarrow> bool" where
  "listsBuilt t penalty s \<longleftrightarrow> numberOfItemsInPartialHeap s = length (itemsHeap s)
    \<and> length (invertedListReadViewVector s) = length (cursorVector s)
    \<and> distinct (map cursorVectorPosition (itemsHeap s)) \<and> (\<forall>h \<in> set (itemsHeap s). itemOk t penalty s h)"

definition listsOk :: "QueryTerm \<Rightarrow> real \<Rightarrow> TermVirtualListOperator \<Rightarrow> bool" where
  "listsOk t penalty s \<longleftrightarrow> listsBuilt t penalty s \<and> isHeap HeapItemCmp (itemsHeap s)"

definition allKeys :: "QueryTerm \<Rightarrow> real \<Rightarrow> TermVirtualListOperator \<Rightarrow> RankKey multiset" where
  "allKeys t penalty s = (\<Sum>h \<in># mset (itemsHeap s). mset (itemKeys t penalty s h))"

definition listRemaining :: "QueryTerm \<Rightarrow> real \<Rightarrow> TermVirtualListOperator \<Rightarrow> RankKey list" where
  "listRemaining t penalty s = rev (sorted_list_of_multiset (allKeys t penalty s))"

lemma itemKeys_best:
  assumes "itemOk t penalty s h" "k \<in> set (itemKeys t penalty s h)"
  shows "k \<le> itemKey h"
  using assms by (auto simp: itemOk_def itemKeys_def)

lemma popItem_step:
  assumes "listsOk t penalty s" "itemsHeap s \<noteq> []"
  shows "\<exists>x s'. popItem mem hit t penalty s = Some (Some x, s') \<and> listsOk t penalty s'
    \<and> listRemaining t penalty s = rankKey x # listRemaining t penalty s'"
proof -
  have n: "numberOfItemsInPartialHeap s = length (itemsHeap s)" and dist: "distinct (map cursorVectorPosition (itemsHeap s))"
    and len: "length (invertedListReadViewVector s) = length (cursorVector s)"
    and ok: "\<And>x. x \<in> set (itemsHeap s) \<Longrightarrow> itemOk t penalty s x" and heap: "isHeap HeapItemCmp (itemsHeap s)"
    using assms(1) by (auto simp: listsOk_def listsBuilt_def)
  obtain h hs where hs: "itemsHeap s = h # hs" using assms(2) by (cases "itemsHeap s") auto
  note pop = itemOrder.heap_pop [OF heap [unfolded hs], folded hs]
  let ?others = "butlast (pop_heap HeapItemCmp (itemsHeap s))" and ?p = "cursorVectorPosition h" and ?l = "h_invertedListId h"
  have h: "take (length (itemsHeap s)) (itemsHeap s) = h # hs" "h \<in> set (itemsHeap s)"
    "mset (itemsHeap s) = add_mset h (mset ?others)"
    using pop(1) by (simp_all add: hs)
  have best: "\<forall>x \<in> set (itemsHeap s). itemKey x \<le> itemKey h"
    using pop(3) by (auto simp: HeapItemCmp_key not_less)
  have p: "?p < length (cursorVector s)" "\<forall>rid \<in> set (invertedListReadViewVector s ! ?p). good rid ?l"
    using ok [OF h(2)] by (auto simp: itemOk_def)
  let ?rids = "drop (cursorVector s ! ?p) (invertedListReadViewVector s ! ?p)" and ?c = "cursorVector s ! ?p"
  have perm: "mset (map cursorVectorPosition (itemsHeap s)) = add_mset ?p (mset (map cursorVectorPosition ?others))"
    using h(3) by simp
  have pos: "distinct (map cursorVectorPosition ?others)" "?p \<notin> cursorVectorPosition ` set ?others"
    using dist mset_eq_imp_distinct_iff [of "map cursorVectorPosition (itemsHeap s)" "?p # map cursorVectorPosition ?others"] perm
    by auto
  have sub: "set ?others \<subseteq> set (itemsHeap s)" using arg_cong [OF h(3), of set_mset] by auto
  have all: "allKeys t penalty s = mset (itemKeys t penalty s h) + (\<Sum>x \<in># mset ?others. mset (itemKeys t penalty s x))"
    by (simp add: allKeys_def h(3))
  have largest: "\<forall>k \<in># allKeys t penalty s. k \<le> itemKey h"
  proof
    fix k assume "k \<in># allKeys t penalty s"
    then obtain x where "x \<in> set (itemsHeap s)" "k \<in> set (itemKeys t penalty s x)" by (auto simp: allKeys_def)
    then show "k \<le> itemKey h" using itemKeys_best [OF ok] best by (meson order_trans)
  qed
  have "\<forall>rid \<in> set ?rids. good rid ?l" using p(2) by (meson in_set_dropD)
  from nextHit_finds [OF this, of False ?c "[]"] show ?thesis
  proof (elim disjE conjE exE)
    assume r: "nextHit hit ?l False ?rids ?c [] = Some None" and none: "validOf ?l ?rids = []"
    let ?s = "s\<lparr>numberOfItemsInPartialHeap := numberOfItemsInPartialHeap s - 1, itemsHeap := ?others\<rparr>"
    have "popItem mem hit t penalty s = Some (Some (listItem mem t h), ?s)"
      using p(1) r by (simp add: popItem_def n nth_opt_def len Let_def hs)
    moreover have keys: "itemKeys t penalty (s\<lparr>numberOfItemsInPartialHeap := m, itemsHeap := hs\<rparr>) x = itemKeys t penalty s x"
      for m hs x by (simp add: itemKeys_def)
    have "listsOk t penalty ?s"
    proof -
      have "length ?others = length (itemsHeap s) - 1" using arg_cong [OF h(3), of size] by simp
      then have "listsBuilt t penalty ?s" using n len pos(1) ok sub keys by (auto simp: listsBuilt_def itemOk_def)
      then show ?thesis using pop(2) by (simp add: listsOk_def)
    qed
    moreover have "allKeys t penalty s = add_mset (itemKey h) (allKeys t penalty ?s)"
      unfolding all using none by (simp add: allKeys_def keys itemKeys_def [of t penalty s h])
    ultimately show ?thesis using pop_largest [of "allKeys t penalty ?s" "itemKey h"] largest by (auto simp: listRemaining_def)
  next
    fix rid a off c'
    assume r: "nextHit hit ?l False ?rids ?c [] = Some (Some (rid, a, static rid ?l, off, c'))" and c': "?c < c'"
      and rest: "validOf ?l ?rids = rid # validOf ?l (drop (c' - ?c) ?rids)"
    let ?h = "h\<lparr>h_recordId := rid, termRecordRuntimeScore := listScore t penalty (h_ed h) (h_isPrefixMatch h) (static rid ?l),
      termRecordStaticScore := static rid ?l, h_attributeIdsList := a, h_positionIndexOffset := off\<rparr>"
    let ?s = "s\<lparr>cursorVector := (cursorVector s)[?p := c'], itemsHeap := push_heap HeapItemCmp (?others @ [?h])\<rparr>"
    have "popItem mem hit t penalty s = Some (Some (listItem mem t h), ?s)"
      using p(1) r by (simp add: popItem_def n nth_opt_def len Let_def hs)
    moreover have keys: "itemKeys t penalty ?s x = itemKeys t penalty s x" if "x \<in> set ?others" for x
      using that pos(2) by (auto simp: itemKeys_def nth_list_update_neq image_iff)
    have "drop c' (invertedListReadViewVector s ! ?p) = drop (c' - ?c) ?rids" using c' by simp
    then have own: "itemKeys t penalty s h = itemKey h # itemKeys t penalty ?s ?h"
      using rest p(1) by (simp add: itemKeys_def itemKey_def keyOf_def)
    have "listsOk t penalty ?s"
    proof -
      have "length ?others = length (itemsHeap s) - 1" "itemsHeap s \<noteq> []" using arg_cong [OF h(3), of size] assms(2) by simp_all
      moreover have "itemOk t penalty ?s ?h" using ok [OF h(2)] own by (simp add: itemOk_def)
      moreover have "itemOk t penalty ?s x" if "x \<in> set ?others" for x
        using that ok sub keys [OF that] by (auto simp: itemOk_def)
      moreover have "distinct (map cursorVectorPosition (itemsHeap ?s))"
        using pos mset_eq_imp_distinct_iff [of "map cursorVectorPosition (itemsHeap ?s)" "?p # map cursorVectorPosition ?others"]
        by simp
      ultimately have "listsBuilt t penalty ?s" using n len by (auto simp: listsBuilt_def)
      then show ?thesis using itemOrder.isHeap_push_heap [OF pop(2)] by (simp add: listsOk_def)
    qed
    moreover have "allKeys t penalty s = add_mset (itemKey h) (allKeys t penalty ?s)"
    proof -
      have "(\<Sum>x \<in># mset ?others. mset (itemKeys t penalty ?s x)) = (\<Sum>x \<in># mset ?others. mset (itemKeys t penalty s x))"
        by (rule arg_cong [where f = sum_mset], rule image_mset_cong) (simp add: keys)
      then show ?thesis unfolding all own by (simp add: allKeys_def)
    qed
    ultimately show ?thesis using pop_largest [of "allKeys t penalty ?s" "itemKey h"] largest by (auto simp: listRemaining_def)
  qed
qed

lemma getNext_cases:
  assumes "listsOk t penalty s"
  shows "(\<exists>s'. TermVirtualList_getNext mem hit t penalty s = Some (None, s') \<and> listsOk t penalty s'
      \<and> listRemaining t penalty s = [] \<and> listRemaining t penalty s' = [])
    \<or> (\<exists>x s'. TermVirtualList_getNext mem hit t penalty s = Some (Some x, s') \<and> listsOk t penalty s'
      \<and> listRemaining t penalty s = rankKey x # listRemaining t penalty s')"
proof (cases "itemsHeap s")
  case Nil
  then have "numberOfItemsInPartialHeap s = 0" using assms by (simp add: listsOk_def listsBuilt_def)
  then show ?thesis using Nil assms
    by (simp add: TermVirtualList_getNext_def addItemsToPartialHeap_def listsOk_def listsBuilt_def listRemaining_def allKeys_def)
next
  case (Cons h hs)
  then have "numberOfItemsInPartialHeap s \<noteq> 0" "itemsHeap s \<noteq> []" using assms by (simp_all add: listsOk_def listsBuilt_def)
  then show ?thesis using popItem_step [OF assms(1), of mem] by (simp add: TermVirtualList_getNext_def)
qed

sublocale lists: item_stream "TermVirtualList_getNext mem hit t penalty" rankKey "listRemaining t penalty" "listsOk t penalty"
proof
  fix s assume o: "listsOk t penalty s"
  show "\<exists>s'. TermVirtualList_getNext mem hit t penalty s = Some (None, s') \<and> listsOk t penalty s' \<and> listRemaining t penalty s' = []"
    if "listRemaining t penalty s = []" using getNext_cases [OF o, of mem] that by auto
  show "\<exists>x s'. TermVirtualList_getNext mem hit t penalty s = Some (Some x, s') \<and> rankKey x = v \<and> listsOk t penalty s'
      \<and> listRemaining t penalty s' = vs"
    if "listRemaining t penalty s = v # vs" for v vs using getNext_cases [OF o, of mem] that by auto
qed

text \<open>Opening: the keys of the inverted list of a leaf node.\<close>

definition leafKeys :: "(u32 \<Rightarrow> u32 list) \<Rightarrow> QueryTerm \<Rightarrow> real \<Rightarrow> TrieNode \<times> TrieNode \<times> u32 \<Rightarrow> RankKey list" where
  "leafKeys view t penalty leaf = (case leaf of (prefixNode, leafNode, distance) \<Rightarrow>
    map (keyOf t penalty distance (termType t = TERM_TYPE_PREFIX \<and> nodeId prefixNode \<noteq> nodeId leafNode) (invertedListOffset leafNode))
      (validOf (invertedListOffset leafNode) (view (invertedListOffset leafNode))))"

definition leafOk :: "(u32 \<Rightarrow> u32 list) \<Rightarrow> QueryTerm \<Rightarrow> real \<Rightarrow> TrieNode \<times> TrieNode \<times> u32 \<Rightarrow> bool" where
  "leafOk view t penalty leaf \<longleftrightarrow> (case leaf of (prefixNode, leafNode, distance) \<Rightarrow>
    (\<forall>rid \<in> set (view (invertedListOffset leafNode)). good rid (invertedListOffset leafNode)))
    \<and> sorted_wrt (\<ge>) (leafKeys view t penalty leaf)"

lemma initialise_step:
  assumes "listsBuilt t penalty s" "\<forall>h \<in> set (itemsHeap s). cursorVectorPosition h < length (cursorVector s)" "leafOk view t penalty leaf"
  shows "\<exists>s'. initialiseTermVirtualListElement hit view t penalty leaf s = Some s' \<and> listsBuilt t penalty s'
    \<and> allKeys t penalty s' = allKeys t penalty s + mset (leafKeys view t penalty leaf)"
proof -
  obtain p l d where leaf: "leaf = (p, l, d)" by (cases leaf)
  let ?id = "invertedListOffset l" and ?prefix = "termType t = TERM_TYPE_PREFIX \<and> nodeId p \<noteq> nodeId l"
  have g: "\<forall>rid \<in> set (view ?id). good rid ?id" and keys: "sorted_wrt (\<ge>) (leafKeys view t penalty leaf)"
    using assms(3) by (auto simp: leafOk_def leaf)
  show ?thesis
  proof (cases "view ?id = []")
    case True
    then show ?thesis using assms(1) by (simp add: initialiseTermVirtualListElement_def leaf leafKeys_def)
  next
    case False
    from nextHit_finds [OF g, of True 0 "[]"] show ?thesis
    proof (elim disjE conjE exE)
      assume "nextHit hit ?id True (view ?id) 0 [] = Some None" "validOf ?id (view ?id) = []"
      then show ?thesis using assms(1) False by (simp add: initialiseTermVirtualListElement_def leaf leafKeys_def)
    next
      fix rid a off c
      assume r: "nextHit hit ?id True (view ?id) 0 [] = Some (Some (rid, a, static rid ?id, off, c))"
        and rest: "validOf ?id (view ?id) = rid # validOf ?id (drop (c - 0) (view ?id))"
      define h where "h = \<lparr>h_invertedListId = ?id, h_attributeIdsList = a, cursorVectorPosition = length (cursorVector s),
        h_recordId = rid, termRecordRuntimeScore = listScore t penalty d ?prefix (static rid ?id),
        termRecordStaticScore = static rid ?id, h_positionIndexOffset = off,
        h_trieNode = nodeId (if termType t = TERM_TYPE_PREFIX then p else l), h_ed = d, h_isPrefixMatch = ?prefix\<rparr>"
      define s' where "s' = s\<lparr>numberOfItemsInPartialHeap := numberOfItemsInPartialHeap s + 1, itemsHeap := itemsHeap s @ [h],
        cursorVector := cursorVector s @ [c], invertedListReadViewVector := invertedListReadViewVector s @ [view ?id]\<rparr>"
      have len: "length (invertedListReadViewVector s) = length (cursorVector s)" using assms(1) by (simp add: listsBuilt_def)
      have step: "initialiseTermVirtualListElement hit view t penalty leaf s = Some s'"
        using False r by (simp add: initialiseTermVirtualListElement_def leaf s'_def h_def Let_def)
      have old: "itemKeys t penalty s' x = itemKeys t penalty s x" if "x \<in> set (itemsHeap s)" for x
        using that assms(2) len by (simp add: itemKeys_def s'_def nth_append)
      have new: "itemKeys t penalty s' h = leafKeys view t penalty leaf"
        using rest len by (simp add: itemKeys_def leafKeys_def leaf s'_def h_def nth_append itemKey_def keyOf_def)
      have "itemOk t penalty s' x" if "x \<in> set (itemsHeap s)" for x
        using that assms(1,2) old [OF that] len by (auto simp: listsBuilt_def itemOk_def s'_def nth_append)
      moreover have "itemOk t penalty s' h" using new keys g len by (simp add: itemOk_def s'_def h_def nth_append)
      moreover have "distinct (map cursorVectorPosition (itemsHeap s'))"
        using assms(1,2) by (auto simp: listsBuilt_def s'_def h_def)
      ultimately have "listsBuilt t penalty s'" using assms(1) len by (auto simp: listsBuilt_def s'_def)
      moreover have "allKeys t penalty s' = allKeys t penalty s + mset (leafKeys view t penalty leaf)"
      proof -
        have "(\<Sum>x \<in># mset (itemsHeap s). mset (itemKeys t penalty s' x)) = allKeys t penalty s"
          unfolding allKeys_def by (rule arg_cong [where f = sum_mset], rule image_mset_cong) (simp add: old)
        moreover have "itemsHeap s' = itemsHeap s @ [h]" by (simp add: s'_def)
        ultimately show ?thesis using new by (simp add: allKeys_def)
      qed
      ultimately show ?thesis using step by blast
    qed
  qed
qed

lemma initialise_all:
  assumes "listsBuilt t penalty s" "\<forall>leaf \<in> set leaves. leafOk view t penalty leaf"
  shows "\<exists>s'. initialiseElements hit view t penalty leaves s = Some s' \<and> listsBuilt t penalty s'
    \<and> allKeys t penalty s' = allKeys t penalty s + mset (concat (map (leafKeys view t penalty) leaves))"
  using assms
proof (induction leaves arbitrary: s)
  case (Cons leaf leaves)
  have "\<forall>h \<in> set (itemsHeap s). cursorVectorPosition h < length (cursorVector s)"
    using Cons.prems(1) by (auto simp: listsBuilt_def itemOk_def)
  then obtain s1 where s1: "initialiseTermVirtualListElement hit view t penalty leaf s = Some s1" "listsBuilt t penalty s1"
    "allKeys t penalty s1 = allKeys t penalty s + mset (leafKeys view t penalty leaf)"
    using initialise_step [OF Cons.prems(1)] Cons.prems(2) by (metis list.set_intros(1))
  then show ?case using Cons.IH [OF s1(2)] Cons.prems(2) by (auto simp: add.assoc)
qed simp

lemma lists_open:
  assumes "itemsHeap s = []" "cursorVector s = []" "invertedListReadViewVector s = []"
    "\<forall>leaf \<in> set leaves. leafOk view t penalty leaf"
  shows "\<exists>s'. TermVirtualList_open hit view t penalty leaves enabled None s = Some s' \<and> listsOk t penalty s'
    \<and> listRemaining t penalty s' = rev (sort (concat (map (leafKeys view t penalty) leaves)))"
proof -
  let ?s = "s\<lparr>numberOfItemsInPartialHeap := 0, currentMaxEditDistanceOnHeap := 0\<rparr>"
  have "listsBuilt t penalty ?s" "allKeys t penalty ?s = {#}" using assms(1-3) by (simp_all add: listsBuilt_def allKeys_def)
  then obtain s1 where s1: "initialiseElements hit view t penalty leaves ?s = Some s1" "listsBuilt t penalty s1"
    "allKeys t penalty s1 = mset (concat (map (leafKeys view t penalty) leaves))"
    using initialise_all [OF _ assms(4), of ?s] by auto
  let ?t = "s1\<lparr>t_parentIsCacheEnabled := enabled, itemsHeap := make_heap HeapItemCmp (itemsHeap s1)\<rparr>"
  have keys: "itemKeys t penalty ?t = itemKeys t penalty s1" by (rule ext) (simp add: itemKeys_def)
  have "distinct (map cursorVectorPosition (itemsHeap ?t))"
    using s1(2) mset_eq_imp_distinct_iff [of "map cursorVectorPosition (itemsHeap ?t)" "map cursorVectorPosition (itemsHeap s1)"]
    by (simp add: listsBuilt_def)
  then have "listsOk t penalty ?t" "allKeys t penalty ?t = allKeys t penalty s1"
    using s1(2) by (simp_all add: listsOk_def listsBuilt_def itemOk_def allKeys_def keys itemOrder.isHeap_make_heap)
  moreover have "makePartialHeap (s1\<lparr>t_parentIsCacheEnabled := enabled\<rparr>) = ?t"
    using s1(2) by (simp add: makePartialHeap_def listsBuilt_def)
  ultimately show ?thesis using s1 by (simp add: TermVirtualList_open_def listRemaining_def sorted_list_of_multiset_mset)
qed

lemmas lists_stream = lists.item_stream_axioms
lemmas lists_drain = lists.drain_take

end

section \<open>The lists over the index\<close>

definition indexListHit ::
  "(u16 \<Rightarrow> real) \<Rightarrow> PositionIndexType \<Rightarrow> ForwardListPtr list \<Rightarrow> u32 list \<Rightarrow> QueryTerm \<Rightarrow> list_hit" where
  "indexListHit halfToFloat positionIndexType readView keywordIds =
    termListHit (InvertedIndex_getKeywordOffset readView keywordIds)
      (InvertedIndex_isValidTermPositionHit halfToFloat positionIndexType readView)"

text \<open>The test returns with the same verdict and, for a hit, the same score whatever was matched before.\<close>

definition listVerdict :: "list_hit \<Rightarrow> u32 \<Rightarrow> u32 \<Rightarrow> bool" where
  "listVerdict hit rid listID = (case hit rid listID [] of Some (b, _) \<Rightarrow> b | None \<Rightarrow> False)"

definition listStatic :: "list_hit \<Rightarrow> u32 \<Rightarrow> u32 \<Rightarrow> real" where
  "listStatic hit rid listID = (case hit rid listID [] of Some (_, _, sc, _) \<Rightarrow> sc | None \<Rightarrow> 0)"

definition steadyList :: "list_hit \<Rightarrow> u32 \<Rightarrow> u32 \<Rightarrow> bool" where
  "steadyList hit rid listID \<longleftrightarrow> (\<exists>b st. \<forall>matched. \<exists>matched' sc off.
    hit rid listID matched = Some (b, matched', sc, off) \<and> (b \<longrightarrow> sc = st))"

lemma steadyListI:
  assumes "\<And>matched. \<exists>matched' sc off. hit rid listID matched = Some (b, matched', sc, off) \<and> (b \<longrightarrow> sc = st)"
  shows "steadyList hit rid listID" "listVerdict hit rid listID = b" "b \<Longrightarrow> listStatic hit rid listID = st"
proof -
  show "steadyList hit rid listID" unfolding steadyList_def using assms by (intro exI [of _ b] exI [of _ st]) blast
  obtain m sc off where h: "hit rid listID [] = Some (b, m, sc, off)" "b \<longrightarrow> sc = st" using assms [of "[]"] by blast
  show "listVerdict hit rid listID = b" by (simp add: listVerdict_def h(1))
  show "listStatic hit rid listID = st" if b using that h by (simp add: listStatic_def)
qed

interpretation indexLists: list_test "indexListHit halfToFloat positionIndexType readView keywordIds qt"
  "steadyList (indexListHit halfToFloat positionIndexType readView keywordIds qt)"
  "listVerdict (indexListHit halfToFloat positionIndexType readView keywordIds qt)"
  "listStatic (indexListHit halfToFloat positionIndexType readView keywordIds qt)"
  for halfToFloat positionIndexType readView keywordIds qt
proof
  fix rid listID matched
  let ?hit = "indexListHit halfToFloat positionIndexType readView keywordIds qt"
  assume "steadyList ?hit rid listID"
  then obtain b st where b: "\<And>m. \<exists>m' sc off. ?hit rid listID m = Some (b, m', sc, off) \<and> (b \<longrightarrow> sc = st)"
    unfolding steadyList_def by blast
  then show "\<exists>m' sc off. ?hit rid listID matched = Some (listVerdict ?hit rid listID, m', sc, off)
      \<and> (listVerdict ?hit rid listID \<longrightarrow> sc = listStatic ?hit rid listID)"
    using steadyListI(2) [of ?hit rid listID b st, OF b] steadyListI(3) [of ?hit rid listID b st, OF b] by simp
qed

lemma indexListHit_scan:
  "indexHit halfToFloat positionIndexType readView keywordIds t rid listID matched =
    map_option (\<lambda>(b, m, sc, off). (b, m, sc)) (indexListHit halfToFloat positionIndexType readView keywordIds t rid listID matched)"
proof (cases "InvertedIndex_getKeywordOffset readView keywordIds rid listID")
  case (Some off)
  then show ?thesis
    by (cases "InvertedIndex_isValidTermPositionHit halfToFloat positionIndexType readView rid off (attributesToFilter t)
        (filterAttrOperation t) matched")
      (auto simp: indexHit_def indexListHit_def termPositionHit_def termListHit_def)
qed (simp add: indexHit_def indexListHit_def termPositionHit_def termListHit_def)

text \<open>The scores of the live records of a list whose keyword satisfies the filter.\<close>

definition termLeafKeys ::
  "(u32 \<Rightarrow> record_content option) \<Rightarrow> u32 list \<Rightarrow> (u32 \<Rightarrow> u32 list) \<Rightarrow> QueryTerm \<Rightarrow> real \<Rightarrow> TrieNode \<times> TrieNode \<times> u32 \<Rightarrow>
    RankKey list" where
  "termLeafKeys contents keywordIds view t penalty leaf = (case leaf of (prefixNode, leafNode, distance) \<Rightarrow>
    let listID = invertedListOffset leafNode; keyword = keywordIds ! unat listID;
        isPrefixMatch = (termType t = TERM_TYPE_PREFIX \<and> nodeId prefixNode \<noteq> nodeId leafNode)
    in map (\<lambda>rid. RankKey (listScore t penalty distance isPrefixMatch (keywordScore contents keyword rid)) rid)
      (filter (hasKeyword contents {keyword} (attributesToFilter t) (filterAttrOperation t)) (view listID)))"

lemma indexListHit_represents:
  assumes "represents halfToFloat readView contents" "filterOk positionIndexType (attributesToFilter t)"
    "listOk contents keywordIds listID rids" "rid \<in> set rids"
  shows "steadyList (indexListHit halfToFloat positionIndexType readView keywordIds t) rid listID"
    "listVerdict (indexListHit halfToFloat positionIndexType readView keywordIds t) rid listID
      = hasKeyword contents {keywordIds ! unat listID} (attributesToFilter t) (filterAttrOperation t) rid"
    "hasKeyword contents {keywordIds ! unat listID} (attributesToFilter t) (filterAttrOperation t) rid \<Longrightarrow>
      listStatic (indexListHit halfToFloat positionIndexType readView keywordIds t) rid listID
        = keywordScore contents (keywordIds ! unat listID) rid"
proof -
  let ?hit = "indexListHit halfToFloat positionIndexType readView keywordIds t"
  let ?b = "hasKeyword contents {keywordIds ! unat listID} (attributesToFilter t) (filterAttrOperation t) rid"
  have hit: "\<exists>m' sc off. ?hit rid listID m = Some (?b, m', sc, off) \<and> (?b \<longrightarrow> sc = keywordScore contents (keywordIds ! unat listID) rid)" for m
    using indexHit_represents [OF assms, of m] unfolding indexListHit_scan by auto
  note s = steadyListI [of ?hit rid listID ?b "keywordScore contents (keywordIds ! unat listID) rid", OF hit]
  show "steadyList ?hit rid listID" by (rule s)
  show "listVerdict ?hit rid listID = ?b" by (rule s)
  show "listStatic ?hit rid listID = keywordScore contents (keywordIds ! unat listID) rid" if ?b by (rule s(3)) (rule that)
qed

lemma indexLists_leaf:
  assumes "represents halfToFloat readView contents" "filterOk positionIndexType (attributesToFilter t)"
    "listOk contents keywordIds (invertedListOffset leafNode) (view (invertedListOffset leafNode))"
    "sorted_wrt (\<ge>) (termLeafKeys contents keywordIds view t penalty (prefixNode, leafNode, distance))"
  shows "indexLists.leafKeys halfToFloat positionIndexType readView keywordIds t view t penalty (prefixNode, leafNode, distance)
      = termLeafKeys contents keywordIds view t penalty (prefixNode, leafNode, distance)"
    "indexLists.leafOk halfToFloat positionIndexType readView keywordIds t view t penalty (prefixNode, leafNode, distance)"
proof -
  let ?hit = "indexListHit halfToFloat positionIndexType readView keywordIds t" and ?id = "invertedListOffset leafNode"
  note rep = indexListHit_represents [OF assms(1-3)]
  show keys: "indexLists.leafKeys halfToFloat positionIndexType readView keywordIds t view t penalty (prefixNode, leafNode, distance)
      = termLeafKeys contents keywordIds view t penalty (prefixNode, leafNode, distance)"
    using rep(2,3) by (auto simp: indexLists.leafKeys_def termLeafKeys_def indexLists.keyOf_def Let_def
        intro!: map_cong filter_cong)
  show "indexLists.leafOk halfToFloat positionIndexType readView keywordIds t view t penalty (prefixNode, leafNode, distance)"
    using rep(1) assms(4) by (simp add: indexLists.leafOk_def keys)
qed

lemma indexLists_open:
  assumes "represents halfToFloat readView contents" "filterOk positionIndexType (attributesToFilter t)"
    "\<forall>(prefixNode, leafNode, distance) \<in> set leaves.
       listOk contents keywordIds (invertedListOffset leafNode) (view (invertedListOffset leafNode))"
    "\<forall>leaf \<in> set leaves. sorted_wrt (\<ge>) (termLeafKeys contents keywordIds view t penalty leaf)"
    "itemsHeap s0 = []" "cursorVector s0 = []" "invertedListReadViewVector s0 = []"
  shows "\<exists>s. TermVirtualList_open (indexListHit halfToFloat positionIndexType readView keywordIds t) view t penalty leaves enabled None s0 = Some s
    \<and> indexLists.listsOk halfToFloat positionIndexType readView keywordIds t t penalty s
    \<and> indexLists.listRemaining halfToFloat positionIndexType readView keywordIds t t penalty s
      = rev (sort (concat (map (termLeafKeys contents keywordIds view t penalty) leaves)))"
proof -
  have leaf: "indexLists.leafKeys halfToFloat positionIndexType readView keywordIds t view t penalty leaf
        = termLeafKeys contents keywordIds view t penalty leaf
      \<and> indexLists.leafOk halfToFloat positionIndexType readView keywordIds t view t penalty leaf" if l: "leaf \<in> set leaves" for leaf
  proof -
    obtain p n d where leaf: "leaf = (p, n, d)" by (cases leaf)
    have "listOk contents keywordIds (invertedListOffset n) (view (invertedListOffset n))"
      using bspec [OF assms(3) l] by (simp add: leaf)
    from indexLists_leaf [where view = view and leafNode = n, OF assms(1,2) this, of penalty p d] bspec [OF assms(4) l]
    show ?thesis by (simp add: leaf)
  qed
  then have "map (indexLists.leafKeys halfToFloat positionIndexType readView keywordIds t view t penalty) leaves
      = map (termLeafKeys contents keywordIds view t penalty) leaves" by simp
  with indexLists.lists_open [where leaves = leaves and view = view and t = t and qt = t and penalty = penalty and enabled = enabled
      and halfToFloat = halfToFloat and positionIndexType = positionIndexType and readView = readView and keywordIds = keywordIds,
      OF assms(5-7)] leaf
  show ?thesis by simp
qed

text \<open>
  C4. Over the index, opening the list of a term returns, and every number of calls of \<open>getNext\<close> returns and
  delivers, by descending rank, the best of all pairs of a leaf node and a record of its inverted list that
  is not deleted and whose keyword satisfies the attribute filter, with its score, when the inverted
  lists are in descending order of rank: the heap merges the lists and loses no record.
\<close>

theorem TermVirtualList_delivers:
  assumes "represents halfToFloat readView contents" "filterOk positionIndexType (attributesToFilter t)"
    "\<forall>(prefixNode, leafNode, distance) \<in> set leaves.
       listOk contents keywordIds (invertedListOffset leafNode) (view (invertedListOffset leafNode))"
    "\<forall>leaf \<in> set leaves. sorted_wrt (\<ge>) (termLeafKeys contents keywordIds view t penalty leaf)"
    "itemsHeap s0 = []" "cursorVector s0 = []" "invertedListReadViewVector s0 = []"
  shows "\<exists>s xs. TermVirtualList_open (indexListHit halfToFloat positionIndexType readView keywordIds t) view t penalty leaves enabled None s0 = Some s
    \<and> drain (TermVirtualList_getNext mem (indexListHit halfToFloat positionIndexType readView keywordIds t) t penalty) m s = Some xs
    \<and> map rankKey xs = take m (rev (sort (concat (map (termLeafKeys contents keywordIds view t penalty) leaves))))"
proof -
  obtain s where s: "TermVirtualList_open (indexListHit halfToFloat positionIndexType readView keywordIds t) view t penalty leaves enabled None s0 = Some s"
    "indexLists.listsOk halfToFloat positionIndexType readView keywordIds t t penalty s"
    "indexLists.listRemaining halfToFloat positionIndexType readView keywordIds t t penalty s
      = rev (sort (concat (map (termLeafKeys contents keywordIds view t penalty) leaves)))"
    using indexLists_open [OF assms, of enabled] by blast
  from indexLists.lists_drain [OF s(2)] show ?thesis unfolding s(3) using s(1) by blast
qed

text \<open>
  C39. The boost of a query term is lost in the verification by random access, which passes it to the power of
  the edit distance: for an exact match of a complete term the verification computes the static score of the
  record alone, where the lists of the same term, with which the top-k conjunction and the merge by the
  shortest list combine it, have the static score times the boost.
\<close>

theorem boost_lost_in_verification:
  assumes "hit rid (invertedListOffset node) [] = Some (True, attributes, staticScore, keywordOffset)"
    "haveWord rid (minId node) (minId node) (attributesToFilter t) (filterAttrOperation t)
      = Some (minId node, attributes, staticScore)"
    "isTerminalNode node" "termType t = TERM_TYPE_COMPLETE"
    "itemsHeap s0 = []" "cursorVector s0 = []" "invertedListReadViewVector s0 = []"
  shows "\<exists>s x s'. TermVirtualList_open hit (\<lambda>_. [rid]) t penalty [(node, node, 0)] enabled None s0 = Some s
    \<and> TermVirtualList_getNext mem hit t penalty s = Some (Some x, s') \<and> recordId x = rid
    \<and> recordRuntimeScore x = staticScore * boost t
    \<and> (\<exists>q. TermVirtualList_verifyByRandomAccess haveWord t [(node, 0)] (newParameters vmem rid penalty) = Some (True, q)
      \<and> runTimeTermRecordScore q = staticScore)"
proof -
  have v: "\<exists>q. TermVirtualList_verifyByRandomAccess haveWord t [(node, 0)] (newParameters vmem rid penalty) = Some (True, q)
      \<and> runTimeTermRecordScore q = staticScore"
    using assms(2-4) by (simp add: TermVirtualList_verifyByRandomAccess_def newParameters_def recordMatch_def
        computeTermRecordRuntimeScore_def)
  have sc: "listScore t penalty 0 False staticScore = staticScore * boost t"
    by (simp add: listScore_def computeTermRecordRuntimeScore_def)
  show ?thesis using assms(1,4-7) v
    by (simp add: TermVirtualList_open_def initialiseTermVirtualListElement_def Let_def TermVirtualList_getNext_def popItem_def
        makePartialHeap_def nth_opt_def listItem_def sc)
qed


lemma sample_keywordScore: "keywordScore sampleContents 7 0 = 1"
  by (simp add: keywordScore_def sampleContents_def)

lemma sample_leafKeys:
  "termLeafKeys sampleContents [7] (\<lambda>_. [0, 1]) sampleFilter 1 sampleLeaf = [RankKey 1 0]"
  using sample_hasKeyword
  by (simp add: termLeafKeys_def sampleLeaf_def sampleFilter_def sampleNode_def sampleTerm_def listScore_def
      computeTermRecordRuntimeScore_def sample_keywordScore)

theorem TermVirtualList_delivers_witness:
  "\<exists>s xs. TermVirtualList_open (indexListHit (\<lambda>_. 1) POSITION_INDEX_FULL sampleView [7] sampleFilter) (\<lambda>_. [0, 1]) sampleFilter 1
      [sampleLeaf] False None (TermVirtualList_new undefined) = Some s
    \<and> drain (TermVirtualList_getNext undefined (indexListHit (\<lambda>_. 1) POSITION_INDEX_FULL sampleView [7] sampleFilter) sampleFilter 1) 2 s
      = Some xs \<and> map rankKey xs = [RankKey 1 0]"
proof -
  have "\<forall>(prefixNode, leafNode, distance) \<in> set [sampleLeaf].
      listOk sampleContents [7] (invertedListOffset leafNode) [0, 1]"
    using sample_lists by (simp add: sampleLeaf_def)
  moreover have "\<forall>leaf \<in> set [sampleLeaf]. sorted_wrt (\<ge>) (termLeafKeys sampleContents [7] (\<lambda>_. [0, 1]) sampleFilter 1 leaf)"
    by (simp add: sample_leafKeys)
  ultimately have "\<exists>s xs. TermVirtualList_open (indexListHit (\<lambda>_. 1) POSITION_INDEX_FULL sampleView [7] sampleFilter) (\<lambda>_. [0, 1]) sampleFilter 1
      [sampleLeaf] False None (TermVirtualList_new undefined) = Some s
    \<and> drain (TermVirtualList_getNext undefined (indexListHit (\<lambda>_. 1) POSITION_INDEX_FULL sampleView [7] sampleFilter) sampleFilter 1) 2 s
      = Some xs \<and> map rankKey xs = take 2 (rev (sort (concat (map (termLeafKeys sampleContents [7] (\<lambda>_. [0, 1]) sampleFilter 1) [sampleLeaf]))))"
    by (intro TermVirtualList_delivers [OF sampleView_represents sample_filterOk]) (simp_all add: TermVirtualList_new_def)
  then show ?thesis by (simp add: sample_leafKeys)
qed

theorem boost_lost_in_verification_witness:
  "\<exists>s x s' q. TermVirtualList_open (\<lambda>_ _ _. Some (True, [], 1, 0)) (\<lambda>_. [7]) ((sampleTerm TERM_TYPE_COMPLETE)\<lparr>boost := 4\<rparr>) 1
      [(sampleNode 3 3, sampleNode 3 3, 0)] False None (TermVirtualList_new undefined) = Some s
    \<and> TermVirtualList_getNext undefined (\<lambda>_ _ _. Some (True, [], 1, 0)) ((sampleTerm TERM_TYPE_COMPLETE)\<lparr>boost := 4\<rparr>) 1 s = Some (Some x, s')
    \<and> recordRuntimeScore x = 4
    \<and> TermVirtualList_verifyByRandomAccess (\<lambda>_ _ _ _ _. Some (3, [], 1)) ((sampleTerm TERM_TYPE_COMPLETE)\<lparr>boost := 4\<rparr>)
        [(sampleNode 3 3, 0)] (newParameters undefined 7 1) = Some (True, q) \<and> runTimeTermRecordScore q = 1"
  using boost_lost_in_verification [of "\<lambda>_ _ _. Some (True, [], 1, 0)" 7 "sampleNode 3 3" "[]" 1 0
      "\<lambda>_ _ _ _ _. Some (3, [], 1)" "(sampleTerm TERM_TYPE_COMPLETE)\<lparr>boost := 4\<rparr>" "TermVirtualList_new undefined" 1 False undefined undefined]
  by (auto simp: sampleNode_def sampleTerm_def TermVirtualList_new_def)

end
