(* ===== verification/Exact_TopK.thy ===== *)
theory Exact_TopK
  imports Merge_TopK Term_Virtual_List
begin

text \<open>
  The plan of an exact top-k search for several complete keywords, put together from its parts: the top-k
  conjunction of \<open>Merge_TopK\<close> over one list of \<open>Term_Virtual_List\<close> per keyword, which verifies a record by
  random access (\<open>Random_Access\<close>) in the forward lists of the index (\<open>Forward_Index\<close>). A child is the term, the
  trie node of its keyword and the state of its list.
\<close>

section \<open>The plan\<close>

type_synonym term_list = "QueryTerm \<times> TrieNode \<times> TermVirtualListOperator"

definition termList_open ::
  "(u16 \<Rightarrow> real) \<Rightarrow> PositionIndexType \<Rightarrow> ForwardListPtr list \<Rightarrow> u32 list \<Rightarrow> (u32 \<Rightarrow> u32 list) \<Rightarrow> real \<Rightarrow>
    TermVirtualListCacheEntry option \<Rightarrow> term_list \<Rightarrow> term_list option" where
  "termList_open halfToFloat positionIndexType readView keywordIds view penalty cacheObject c = (case c of (t, node, s) \<Rightarrow> do {
     s \<leftarrow> TermVirtualList_open (indexListHit halfToFloat positionIndexType readView keywordIds t) view t penalty
       [(node, node, 0)] True cacheObject s;
     Some (t, node, s)
   })"

definition termList_getNext ::
  "PhysicalPlanRecordItem \<Rightarrow> (u16 \<Rightarrow> real) \<Rightarrow> PositionIndexType \<Rightarrow> ForwardListPtr list \<Rightarrow> u32 list \<Rightarrow> real \<Rightarrow>
    (term_list, PhysicalPlanRecordItem) next_fun" where
  "termList_getNext mem halfToFloat positionIndexType readView keywordIds penalty c = (case c of (t, node, s) \<Rightarrow> do {
     (r, s) \<leftarrow> TermVirtualList_getNext mem (indexListHit halfToFloat positionIndexType readView keywordIds t) t penalty s;
     Some (r, t, node, s)
   })"

text \<open>The lookup of \<open>verifyByRandomAccessHelper\<close> in the forward index; records outside of the index have no word.\<close>

definition indexHaveWord :: "(u16 \<Rightarrow> real) \<Rightarrow> PositionIndexType \<Rightarrow> ForwardListPtr list \<Rightarrow> have_word" where
  "indexHaveWord halfToFloat positionIndexType readView rid lo hi filt attrOp =
    (case ForwardIndex_haveWordInRange halfToFloat positionIndexType readView rid lo hi filt attrOp of None \<Rightarrow> None | Some r \<Rightarrow> r)"

definition termList_verifier ::
  "(u16 \<Rightarrow> real) \<Rightarrow> PositionIndexType \<Rightarrow> ForwardListPtr list \<Rightarrow> QueryTerm \<times> TrieNode \<Rightarrow> verifier" where
  "termList_verifier halfToFloat positionIndexType readView c = (case c of (t, node) \<Rightarrow>
     TermVirtualList_verifyByRandomAccess (indexHaveWord halfToFloat positionIndexType readView) t [(node, 0)])"

section \<open>Lists and verifiers agree\<close>

text \<open>A complete keyword without a boost, whose inverted list has all its records, best first.\<close>

definition exactTerm ::
  "(u32 \<Rightarrow> record_content option) \<Rightarrow> PositionIndexType \<Rightarrow> u32 list \<Rightarrow> (u32 \<Rightarrow> u32 list) \<Rightarrow> real \<Rightarrow> QueryTerm \<times> TrieNode \<Rightarrow> bool" where
  "exactTerm contents positionIndexType keywordIds view penalty c \<longleftrightarrow> (case c of (t, node) \<Rightarrow>
    filterOk positionIndexType (attributesToFilter t) \<and> termType t = TERM_TYPE_COMPLETE \<and> boost t = 1 \<and> isTerminalNode node
    \<and> keywordIds ! unat (invertedListOffset node) = minId node
    \<and> listOk contents keywordIds (invertedListOffset node) (view (invertedListOffset node))
    \<and> (\<forall>rid. hasKeyword contents {minId node} (attributesToFilter t) (filterAttrOperation t) rid \<longrightarrow> rid \<in> set (view (invertedListOffset node)))
    \<and> sorted_wrt (\<ge>) (termLeafKeys contents keywordIds view t penalty (node, node, 0)))"

text \<open>The records that match a keyword of the query.\<close>

definition matchesKeyword :: "(u32 \<Rightarrow> record_content option) \<Rightarrow> QueryTerm \<times> TrieNode \<Rightarrow> u32 \<Rightarrow> bool" where
  "matchesKeyword contents c rid = (case c of (t, node) \<Rightarrow>
    hasKeyword contents {minId node} (attributesToFilter t) (filterAttrOperation t) rid)"

definition exactScore :: "(u32 \<Rightarrow> record_content option) \<Rightarrow> (QueryTerm \<times> TrieNode) list \<Rightarrow> u32 \<Rightarrow> real" where
  "exactScore contents query rid = sum_list (map (\<lambda>(t, node). keywordScore contents (minId node) rid) query)"

definition exactKeys ::
  "(u32 \<Rightarrow> record_content option) \<Rightarrow> u32 list \<Rightarrow> (u32 \<Rightarrow> u32 list) \<Rightarrow> real \<Rightarrow> QueryTerm \<times> TrieNode \<Rightarrow> RankKey list" where
  "exactKeys contents keywordIds view penalty c = (case c of (t, node) \<Rightarrow> termLeafKeys contents keywordIds view t penalty (node, node, 0))"

lemma scoreIn_map: "rid \<in> set xs \<Longrightarrow> scoreIn (map (\<lambda>r. RankKey (g r) r) xs) rid = g rid"
  by (induction xs) (auto simp: scoreIn_def)

lemma exactKeys_listed:
  assumes "exactTerm contents positionIndexType keywordIds view penalty c"
  shows "listed (exactKeys contents keywordIds view penalty c) rid = matchesKeyword contents c rid"
    "matchesKeyword contents c rid \<Longrightarrow>
      scoreIn (exactKeys contents keywordIds view penalty c) rid = keywordScore contents (minId (snd c)) rid"
proof -
  obtain t node where c: "c = (t, node)" by (cases c)
  let ?recs = "filter (hasKeyword contents {minId node} (attributesToFilter t) (filterAttrOperation t)) (view (invertedListOffset node))"
  have k: "exactKeys contents keywordIds view penalty c = map (\<lambda>rid. RankKey (keywordScore contents (minId node) rid) rid) ?recs"
    using assms by (simp add: c exactTerm_def exactKeys_def termLeafKeys_def listScore_def computeTermRecordRuntimeScore_def Let_def)
  have r: "rid \<in> set ?recs \<longleftrightarrow> matchesKeyword contents c rid" for rid
    using assms by (auto simp: c exactTerm_def matchesKeyword_def)
  show "listed (exactKeys contents keywordIds view penalty c) rid = matchesKeyword contents c rid"
    unfolding k r [symmetric] by (auto simp: listed_def)
  show "scoreIn (exactKeys contents keywordIds view penalty c) rid = keywordScore contents (minId (snd c)) rid"
    if "matchesKeyword contents c rid" unfolding k using that r scoreIn_map [of rid ?recs] by (simp add: c)
qed

lemma indexHaveWord_exact:
  assumes "represents halfToFloat readView contents" "filterOk positionIndexType filt"
  shows "case indexHaveWord halfToFloat positionIndexType readView rid kid kid filt attrOp of
      None \<Rightarrow> \<not> hasKeyword contents {kid} filt attrOp rid
    | Some (keyword, attributes, score) \<Rightarrow> hasKeyword contents {kid} filt attrOp rid \<and> keyword = kid
        \<and> score = keywordScore contents kid rid"
proof (cases "contents rid")
  case None
  then have "indexHaveWord halfToFloat positionIndexType readView rid kid kid filt attrOp = None"
    using representsD(1) [OF assms(1) None] by (auto simp: indexHaveWord_def ForwardIndex_haveWordInRange_def split: prod.splits)
  then show ?thesis using None by (simp add: hasKeyword_def)
next
  case (Some x)
  obtain ids attrss sc where x: "contents rid = Some (ids, attrss, sc)" using Some by (cases x) auto
  obtain fl where fl: "getForwardList readView rid = (Some fl, True)" "holds_keywords halfToFloat ids attrss sc fl" "distinct ids"
    using representsD(2) [OF assms(1) x] by blast
  have range: "unat rid < length readView" using getForwardList_live [of readView rid] fl(1) by simp
  obtain r where r: "haveWordInRange halfToFloat positionIndexType fl kid kid filt attrOp = Some r"
    "case r of None \<Rightarrow> \<forall>k < length ids. ids ! k \<in> {kid..kid} \<longrightarrow> \<not> admits attrOp filt (attrss ! k)
      | Some (keywordId, attributes, score) \<Rightarrow> \<exists>k < length ids. keywordId = ids ! k \<and> keywordId \<in> {kid..kid}
        \<and> admits attrOp filt (attrss ! k) \<and> attributes = reported attrOp filt (attrss ! k) \<and> score = sc k
        \<and> (\<forall>j < k. kid \<le> ids ! j \<longrightarrow> \<not> admits attrOp filt (attrss ! j))"
    using haveWordInRange_spec [OF fl(2), of positionIndexType filt kid kid attrOp] assms(2) by (auto simp: filterOk_def)
  have h: "indexHaveWord halfToFloat positionIndexType readView rid kid kid filt attrOp = r"
    using r(1) fl(1) range by (simp add: indexHaveWord_def ForwardIndex_haveWordInRange_def)
  show ?thesis
  proof (cases r)
    case None
    then show ?thesis using r(2) x h by (auto simp: hasKeyword_def)
  next
    case (Some m)
    obtain keyword attributes score where m: "m = (keyword, attributes, score)" by (cases m)
    obtain k where k: "k < length ids" "keyword = ids ! k" "ids ! k = kid" "admits attrOp filt (attrss ! k)" "score = sc k"
      using r(2) Some m by auto
    have "keywordScore contents kid rid = sc k"
      by (rule keywordScore_unique [where contents = contents, OF x k(1,3)]) (use k fl(3) nth_eq_iff_index_eq in metis)
    moreover have "hasKeyword contents {kid} filt attrOp rid" using x k by (auto simp: hasKeyword_def)
    ultimately show ?thesis using h Some m k by simp
  qed
qed

lemma termList_verifier_agrees:
  assumes "represents halfToFloat readView contents" "exactTerm contents positionIndexType keywordIds view penalty c"
  shows "verifierAgrees (termList_verifier halfToFloat positionIndexType readView c) (exactKeys contents keywordIds view penalty c)"
  unfolding verifierAgrees_def
proof
  fix p :: VerificationParameters
  obtain t node where c: "c = (t, node)" by (cases c)
  have t: "filterOk positionIndexType (attributesToFilter t)" "isTerminalNode node" "termType t = TERM_TYPE_COMPLETE"
    using assms(2) by (simp_all add: c exactTerm_def)
  let ?rid = "recordToVerify p"
  have l: "listed (exactKeys contents keywordIds view penalty c) ?rid \<longleftrightarrow> matchesKeyword contents c ?rid"
    using exactKeys_listed(1) [OF assms(2)] .
  show "\<exists>q. termList_verifier halfToFloat positionIndexType readView c p
      = Some (listed (exactKeys contents keywordIds view penalty c) ?rid, q)
    \<and> (listed (exactKeys contents keywordIds view penalty c) ?rid \<longrightarrow>
      runTimeTermRecordScore q = scoreIn (exactKeys contents keywordIds view penalty c) ?rid)"
  proof (cases "indexHaveWord halfToFloat positionIndexType readView ?rid (minId node) (minId node) (attributesToFilter t) (filterAttrOperation t)")
    case None
    then have "\<not> matchesKeyword contents c ?rid"
      using indexHaveWord_exact [where rid = ?rid and kid = "minId node" and attrOp = "filterAttrOperation t", OF assms(1) t(1)] by (simp add: matchesKeyword_def c)
    then show ?thesis using None t l by (simp add: termList_verifier_def c TermVirtualList_verifyByRandomAccess_def)
  next
    case (Some m)
    obtain keyword attributes score where m: "m = (keyword, attributes, score)" by (cases m)
    have k: "matchesKeyword contents c ?rid" "keyword = minId node" "score = keywordScore contents (minId node) ?rid"
      using indexHaveWord_exact [where rid = ?rid and kid = "minId node" and attrOp = "filterAttrOperation t", OF assms(1) t(1)] Some m
      by (simp_all add: matchesKeyword_def c)
    then show ?thesis using Some m t l exactKeys_listed(2) [OF assms(2) k(1)]
      by (simp add: termList_verifier_def c TermVirtualList_verifyByRandomAccess_def recordMatch_def computeTermRecordRuntimeScore_def)
  qed
qed

section \<open>The search\<close>

lemma termList_stream:
  assumes "\<And>t. item_stream (gn t) rankKey (remaining t) (ok t)"
  shows "item_stream (\<lambda>(t, node :: TrieNode, s). do { (r, s) \<leftarrow> gn t s; Some (r, t, node, s) }) rankKey
    (\<lambda>(t, node, s). remaining t s) (\<lambda>(t, node, s). ok t s)"
proof -
  have base: "record_stream (gn t) rankKey (remaining t) (ok t)" for t
    using assms [of t] by (simp add: item_stream_def)
  note Nil = record_stream.getNext_Nil [OF base] and Cons = record_stream.getNext_Cons [OF base]
  show ?thesis
    unfolding item_stream_def
  proof
    fix c :: "'a \<times> TrieNode \<times> 'b"
    obtain t node s where c: "c = (t, node, s)" by (cases c)
    assume "case c of (t, node, s) \<Rightarrow> ok t s"
    then have o: "ok t s" by (simp add: c)
    show "\<exists>c'. (case c of (t, node, s) \<Rightarrow> do { (r, s) \<leftarrow> gn t s; Some (r, t, node, s) }) = Some (None, c')
        \<and> (case c' of (t, node, s) \<Rightarrow> ok t s) \<and> (case c' of (t, node, s) \<Rightarrow> remaining t s) = []"
      if "(case c of (t, node, s) \<Rightarrow> remaining t s) = []"
      using Nil [OF o] that by (auto simp: c)
    show "\<exists>x c'. (case c of (t, node, s) \<Rightarrow> do { (r, s) \<leftarrow> gn t s; Some (r, t, node, s) }) = Some (Some x, c') \<and> rankKey x = v
        \<and> (case c' of (t, node, s) \<Rightarrow> ok t s) \<and> (case c' of (t, node, s) \<Rightarrow> remaining t s) = vs"
      if r: "(case c of (t, node, s) \<Rightarrow> remaining t s) = v # vs" for v vs
    proof -
      obtain x s' where "gn t s = Some (Some x, s')" "rankKey x = v" "ok t s'" "remaining t s' = vs"
        using Cons [OF o, of v vs] r by (auto simp: c)
      then show ?thesis by (auto simp: c)
    qed
  qed
qed

lemma rev_sort_descending: "sorted_wrt (\<ge>) l \<Longrightarrow> rev (sort l) = l"
  by (metis mset_rev properties_for_sort rev_rev_ident sorted_wrt_rev)

lemma rank_score_le: "a \<le> b \<Longrightarrow> rk_score a \<le> rk_score b"
  by (auto simp: less_eq_RankKey_def less_RankKey_def compareRecordsLessThan_def split: if_splits)

lemma exactKeys_ranked:
  assumes "exactTerm contents positionIndexType keywordIds view penalty c"
  shows "sorted_wrt (\<ge>) (exactKeys contents keywordIds view penalty c)" "rankedList None (exactKeys contents keywordIds view penalty c)"
proof -
  show s: "sorted_wrt (\<ge>) (exactKeys contents keywordIds view penalty c)"
    using assms by (auto simp: exactTerm_def exactKeys_def)
  show "rankedList None (exactKeys contents keywordIds view penalty c)"
    unfolding rankedList_def by (simp, rule sorted_wrt_mono_rel [OF _ s]) (simp add: rank_score_le)
qed

lemma openChildren_all2:
  assumes "\<And>c. c \<in> set query \<Longrightarrow> \<exists>d. openChild None (f c) = Some d \<and> P d (g c)"
  shows "\<exists>cs. openChildren openChild [] (map f query) = Some cs \<and> list_all2 P cs (map g query)"
  using assms
proof (induction query)
  case (Cons c query)
  then obtain d ds where "openChild None (f c) = Some d" "P d (g c)" "openChildren openChild [] (map f query) = Some ds"
    "list_all2 P ds (map g query)" by (metis list.set_intros)
  then show ?case by simp
qed simp

text \<open>
  C1. An exact top-k search for complete keywords is correct from the index to the results: over inverted lists
  that have all the records of their keywords, best first, opening the plan returns, and \<open>k\<close> calls of
  \<open>getNext\<close> return and deliver \<open>k\<close> distinct records (all there are, when there are fewer) that are not deleted
  and match every keyword within its attribute filter, each with the sum of its scores for the keywords, by
  descending score, and no other record that matches every keyword has a better score.
\<close>

theorem exact_topk_search:
  fixes query :: "(QueryTerm \<times> TrieNode) list"
  assumes "represents halfToFloat readView contents" "query \<noteq> []"
    "\<forall>c \<in> set query. exactTerm contents positionIndexType keywordIds view penalty c"
    "tk_children s0 = map (\<lambda>(t, node). (t, node, TermVirtualList_new raw)) query" "tk_nextItemsFromChildren s0 = []"
  defines "R \<equiv> {rid. \<forall>c \<in> set query. matchesKeyword contents c rid}"
  shows "\<exists>s xs. MergeTopK_open mem (termList_open halfToFloat positionIndexType readView keywordIds view penalty)
      (termList_getNext mem halfToFloat positionIndexType readView keywordIds penalty)
      (map (termList_verifier halfToFloat positionIndexType readView) query) vmem penalty None None s0 = Some (True, s)
    \<and> drain (MergeTopK_getNext (termList_getNext mem halfToFloat positionIndexType readView keywordIds penalty)
        (map (termList_verifier halfToFloat positionIndexType readView) query) vmem penalty) k s = Some xs
    \<and> length xs = min k (card R) \<and> distinct (map recordId xs)
    \<and> (\<forall>x \<in> set xs. recordId x \<in> R \<and> recordRuntimeScore x = exactScore contents query (recordId x))
    \<and> sorted_wrt (\<lambda>a b. recordRuntimeScore b \<le> recordRuntimeScore a) xs
    \<and> (\<forall>x \<in> set xs. \<forall>rid \<in> R - recordId ` set xs. exactScore contents query rid \<le> recordRuntimeScore x)"
proof -
  let ?gn = "termList_getNext mem halfToFloat positionIndexType readView keywordIds penalty"
  let ?rem = "\<lambda>(t, node, s). indexLists.listRemaining halfToFloat positionIndexType readView keywordIds t t penalty s"
  let ?ok = "\<lambda>(t, node, s). indexLists.listsOk halfToFloat positionIndexType readView keywordIds t t penalty s"
  let ?Ls = "map (exactKeys contents keywordIds view penalty) query"
  have exact: "exactTerm contents positionIndexType keywordIds view penalty c" if "c \<in> set query" for c using assms(3) that by blast
  have gn: "?gn = (\<lambda>(t, node, s). do { (r, s) \<leftarrow> TermVirtualList_getNext mem
      (indexListHit halfToFloat positionIndexType readView keywordIds t) t penalty s; Some (r, t, node, s) })"
    by (rule ext) (simp add: termList_getNext_def)
  have stream: "item_stream ?gn rankKey ?rem ?ok"
    unfolding gn by (rule termList_stream) (rule indexLists.lists_stream)
  have agree: "childrenAgree (map (termList_verifier halfToFloat positionIndexType readView) query) None ?Ls"
    using assms(2) termList_verifier_agrees [OF assms(1) exact] exactKeys_ranked(2) [OF exact]
    by (simp add: childrenAgree_def rankerReady_def)
  let ?open = "termList_open halfToFloat positionIndexType readView keywordIds view penalty"
  let ?fresh = "\<lambda>(t, node). (t, node, TermVirtualList_new raw)"
  have opened: "\<exists>d. ?open None (?fresh c) = Some d \<and> ?ok d \<and> ?rem d = exactKeys contents keywordIds view penalty c"
    if c: "c \<in> set query" for c
  proof -
    obtain t node where tn: "c = (t, node)" by (cases c)
    note e = exact [OF c, unfolded tn exactTerm_def prod.case]
    have "\<exists>s. TermVirtualList_open (indexListHit halfToFloat positionIndexType readView keywordIds t) view t penalty
          [(node, node, 0)] True None (TermVirtualList_new raw) = Some s
      \<and> indexLists.listsOk halfToFloat positionIndexType readView keywordIds t t penalty s
      \<and> indexLists.listRemaining halfToFloat positionIndexType readView keywordIds t t penalty s
        = rev (sort (concat (map (termLeafKeys contents keywordIds view t penalty) [(node, node, 0)])))"
      using e by (intro indexLists_open [OF assms(1)]) (simp_all add: TermVirtualList_new_def)
    moreover have "rev (sort (concat (map (termLeafKeys contents keywordIds view t penalty) [(node, node, 0)])))
        = exactKeys contents keywordIds view penalty c"
      using rev_sort_descending [OF exactKeys_ranked(1) [OF exact [OF c]]] by (simp add: tn exactKeys_def)
    ultimately show ?thesis by (auto simp: tn termList_open_def)
  qed
  obtain cs where cs: "openChildren ?open [] (tk_children s0) = Some cs" "list_all2 (\<lambda>c l. ?ok c \<and> ?rem c = l) cs ?Ls"
    using openChildren_all2 [of query ?open ?fresh "\<lambda>d l. ?ok d \<and> ?rem d = l" "exactKeys contents keywordIds view penalty"] opened
    unfolding assms(4) by blast
  have common: "set (commonRecords ?Ls) = R"
    using assms(2) exactKeys_listed(1) [OF exact] by (simp add: set_commonRecords R_def)
  have score: "finalScore None ?Ls rid = exactScore contents query rid" if "rid \<in> R" for rid
  proof -
    have scores: "map (\<lambda>l. scoreIn l rid) ?Ls = map (\<lambda>(t, node). keywordScore contents (minId node) rid) query"
      using that exactKeys_listed(2) [OF exact] by (auto simp: R_def)
    show ?thesis unfolding finalScore_def exactScore_def scores by simp
  qed
  obtain s xs where run: "MergeTopK_open mem ?open ?gn (map (termList_verifier halfToFloat positionIndexType readView) query) vmem penalty None None s0
      = Some (True, s)"
    "drain (MergeTopK_getNext ?gn (map (termList_verifier halfToFloat positionIndexType readView) query) vmem penalty) k s = Some xs"
    "length xs = min k (card R)" "distinct (map recordId xs)"
    and x: "\<forall>x \<in> set xs. recordId x \<in> R \<and> recordRuntimeScore x = finalScore None ?Ls (recordId x)"
    and rest: "sorted_wrt (\<lambda>a b. recordRuntimeScore b \<le> recordRuntimeScore a) xs"
    "\<forall>x \<in> set xs. \<forall>rid \<in> R - recordId ` set xs. finalScore None ?Ls rid \<le> recordRuntimeScore x"
    using topk_children.fresh_run [OF topk_children.intro [OF stream] agree cs(1) assms(5) cs(2)] unfolding common by metis
  show ?thesis using run x rest score by (intro exI [of _ s] exI [of _ xs]) auto
qed

text \<open>The sample index of \<open>Simple_Scan\<close>: record 0 has keyword 7, record 1 is deleted; the query asks for the
  keyword twice.\<close>

definition sampleQuery :: "(QueryTerm \<times> TrieNode) list" where
  "sampleQuery = (let c = (sampleFilter\<lparr>termType := TERM_TYPE_COMPLETE\<rparr>, (sampleNode 7 7)\<lparr>invertedListOffset := 0\<rparr>) in [c, c])"

definition samplePlan :: "term_list MergeTopKOperator" where
  "samplePlan = \<lparr>tk_children = map (\<lambda>(t, node). (t, node, TermVirtualList_new undefined)) sampleQuery, tk_hasQueryEvaluator = True,
     tk_feedbackRanker = None, tk_nextItemsFromChildren = [], tk_candidatesList = [], fullCandidatesListForCache = [],
     tk_visitedRecords = {}, tk_listsHaveMoreRecordsInThem = True, childRoundRobinOffset = 0\<rparr>"

lemma sample_hasKeyword_iff: "hasKeyword sampleContents {7} [2] ATTRIBUTES_OP_OR rid \<longleftrightarrow> rid = 0"
  using sample_hasKeyword by (auto simp: hasKeyword_def sampleContents_def)

lemma sampleQuery_exact:
  assumes "c \<in> set sampleQuery"
  shows "exactTerm sampleContents POSITION_INDEX_FULL [7] (\<lambda>_. [0, 1]) 1 c"
  using assms sample_filterOk sample_lists
  by (auto simp: exactTerm_def sampleQuery_def Let_def sampleFilter_def sampleTerm_def sampleNode_def sample_hasKeyword_iff
      termLeafKeys_def)

lemma sampleQuery_records: "{rid. \<forall>c \<in> set sampleQuery. matchesKeyword sampleContents c rid} = {0}"
  by (auto simp: matchesKeyword_def sampleQuery_def Let_def sampleFilter_def sampleTerm_def sampleNode_def sample_hasKeyword_iff)

theorem exact_topk_search_witness:
  "\<exists>s x. MergeTopK_open undefined (termList_open (\<lambda>_. 1) POSITION_INDEX_FULL sampleView [7] (\<lambda>_. [0, 1]) 1)
      (termList_getNext undefined (\<lambda>_. 1) POSITION_INDEX_FULL sampleView [7] 1)
      (map (termList_verifier (\<lambda>_. 1) POSITION_INDEX_FULL sampleView) sampleQuery) undefined 1 None None samplePlan = Some (True, s)
    \<and> drain (MergeTopK_getNext (termList_getNext undefined (\<lambda>_. 1) POSITION_INDEX_FULL sampleView [7] 1)
        (map (termList_verifier (\<lambda>_. 1) POSITION_INDEX_FULL sampleView) sampleQuery) undefined 1) 3 s = Some [x]
    \<and> recordId x = 0 \<and> recordRuntimeScore x = 2"
proof -
  have q: "sampleQuery \<noteq> []" "\<forall>c \<in> set sampleQuery. exactTerm sampleContents POSITION_INDEX_FULL [7] (\<lambda>_. [0, 1]) 1 c"
    using sampleQuery_exact by (auto simp: sampleQuery_def Let_def)
  have c: "tk_children samplePlan = map (\<lambda>(t, node). (t, node, TermVirtualList_new undefined)) sampleQuery"
    "tk_nextItemsFromChildren samplePlan = []" by (simp_all add: samplePlan_def)
  obtain s xs where s: "MergeTopK_open undefined (termList_open (\<lambda>_. 1) POSITION_INDEX_FULL sampleView [7] (\<lambda>_. [0, 1]) 1)
      (termList_getNext undefined (\<lambda>_. 1) POSITION_INDEX_FULL sampleView [7] 1)
      (map (termList_verifier (\<lambda>_. 1) POSITION_INDEX_FULL sampleView) sampleQuery) undefined 1 None None samplePlan = Some (True, s)"
    "drain (MergeTopK_getNext (termList_getNext undefined (\<lambda>_. 1) POSITION_INDEX_FULL sampleView [7] 1)
        (map (termList_verifier (\<lambda>_. 1) POSITION_INDEX_FULL sampleView) sampleQuery) undefined 1) 3 s = Some xs"
    and xs: "length xs = 1" "\<forall>x \<in> set xs. recordId x = 0 \<and> recordRuntimeScore x = exactScore sampleContents sampleQuery (recordId x)"
    using exact_topk_search [OF sampleView_represents q c, of undefined undefined 3] unfolding sampleQuery_records by auto
  obtain x where x: "xs = [x]" using xs(1) by (cases xs) auto
  have "exactScore sampleContents sampleQuery 0 = 2"
    by (simp add: exactScore_def sampleQuery_def Let_def sampleNode_def sample_keywordScore)
  then show ?thesis using s xs(2) x by auto
qed

end
