(* ===== verification/Unmanaged_Vector.thy ===== *)
theory Unmanaged_Vector
  imports Cow_Vector
begin

text \<open>
  Copy-on-write vectors that are merged without a read view manager, as the inverted lists are
  (\<^verbatim>\<open>InvertedListContainer::sortAndMerge\<close> in \<^verbatim>\<open>src/src/core/index/InvertedIndex.cpp\<close>). This is safe as long as every merge
  finds the write view on an array of its own: a view that is no longer current then belongs to its readers
  alone, and the last of them frees its array.
\<close>

section \<open>The invariant\<close>

definition exists_view :: "'a cowvector \<Rightarrow> nat \<Rightarrow> bool" where
  "exists_view s v \<longleftrightarrow> views s v \<noteq> None"

text \<open>Only the read view and the write view may share an array.\<close>

definition unmanaged_inv :: "'a cowvector \<Rightarrow> bool" where
  "unmanaged_inv s \<longleftrightarrow> readViewGenerations s = [[]] \<and> m_readView s \<noteq> m_writeView s
    \<and> exists_view s (m_readView s) \<and> exists_view s (m_writeView s)
    \<and> (\<forall>v. exists_view s v \<longrightarrow> live s v \<and> (v = m_readView s \<or> v = m_writeView s \<or> 0 < readers s v \<and> flag s v))
    \<and> (\<forall>v. 0 < readers s v \<longrightarrow> exists_view s v \<and> v \<noteq> m_writeView s)
    \<and> (\<forall>v w. exists_view s v \<longrightarrow> exists_view s w \<longrightarrow> v \<noteq> w \<longrightarrow> arr s v = arr s w \<longrightarrow> {v, w} = {m_readView s, m_writeView s})
    \<and> (if arr s (m_writeView s) = arr s (m_readView s)
       then \<not> flag s (m_writeView s) \<and> vsize s (m_readView s) \<le> vsize s (m_writeView s) else flag s (m_writeView s))
    \<and> bit (m_sizeAndFlags (the (views s (m_writeView s)))) 31"

lemma unmanaged_parts:
  assumes "unmanaged_inv s"
  shows "readViewGenerations s = [[]]" "m_readView s \<noteq> m_writeView s"
    "exists_view s (m_readView s)" "exists_view s (m_writeView s)"
    "\<And>v. exists_view s v \<Longrightarrow> live s v"
    "\<And>v. exists_view s v \<Longrightarrow> v \<noteq> m_readView s \<Longrightarrow> v \<noteq> m_writeView s \<Longrightarrow> 0 < readers s v \<and> flag s v"
    "\<And>v. 0 < readers s v \<Longrightarrow> exists_view s v \<and> v \<noteq> m_writeView s"
    "\<And>v w. exists_view s v \<Longrightarrow> exists_view s w \<Longrightarrow> v \<noteq> w \<Longrightarrow> arr s v = arr s w \<Longrightarrow> {v, w} = {m_readView s, m_writeView s}"
    "if arr s (m_writeView s) = arr s (m_readView s)
       then \<not> flag s (m_writeView s) \<and> vsize s (m_readView s) \<le> vsize s (m_writeView s) else flag s (m_writeView s)"
    "bit (m_sizeAndFlags (the (views s (m_writeView s)))) 31"
  using assms unfolding unmanaged_inv_def by blast+

lemma unmanagedI:
  assumes "readViewGenerations s = [[]]" "m_readView s \<noteq> m_writeView s"
    "exists_view s (m_readView s)" "exists_view s (m_writeView s)"
    "\<And>v. exists_view s v \<Longrightarrow> live s v"
    "\<And>v. exists_view s v \<Longrightarrow> v \<noteq> m_readView s \<Longrightarrow> v \<noteq> m_writeView s \<Longrightarrow> 0 < readers s v \<and> flag s v"
    "\<And>v. 0 < readers s v \<Longrightarrow> exists_view s v \<and> v \<noteq> m_writeView s"
    "\<And>v w. exists_view s v \<Longrightarrow> exists_view s w \<Longrightarrow> v \<noteq> w \<Longrightarrow> arr s v = arr s w \<Longrightarrow> {v, w} = {m_readView s, m_writeView s}"
    "if arr s (m_writeView s) = arr s (m_readView s)
       then \<not> flag s (m_writeView s) \<and> vsize s (m_readView s) \<le> vsize s (m_writeView s) else flag s (m_writeView s)"
    "bit (m_sizeAndFlags (the (views s (m_writeView s)))) 31"
  shows "unmanaged_inv s"
  using assms unfolding unmanaged_inv_def by blast

lemma unmanaged_flag:
  assumes "unmanaged_inv s"
  shows "flag s (m_writeView s) \<longleftrightarrow> arr s (m_writeView s) \<noteq> arr s (m_readView s)"
  using unmanaged_parts(9) [OF assms] by (simp split: if_splits)

text \<open>An array that the write view may free is its own.\<close>

lemma unmanaged_alone:
  assumes inv: "unmanaged_inv s" and v: "exists_view s v" "v \<noteq> m_writeView s" and f: "flag s (m_writeView s)"
  shows "arr s v \<noteq> arr s (m_writeView s)"
proof
  assume a: "arr s v = arr s (m_writeView s)"
  have "{v, m_writeView s} = {m_readView s, m_writeView s}" using unmanaged_parts(8) [OF inv v(1) unmanaged_parts(4) [OF inv] v(2) a] .
  then have "v = m_readView s" using v(2) by blast
  then show False using unmanaged_flag [OF inv] f a by simp
qed

text \<open>A vector after its first commit.\<close>

lemma cow_unmanaged:
  assumes inv: "cow_inv s" and g: "readViewGenerations s = [[]]"
  shows "unmanaged_inv s"
proof -
  let ?R = "m_readView s" and ?W = "m_writeView s"
  have m: "members s = [?R]" "current s = []" by (simp_all add: members_def current_def past_def g)
  have ex: "exists_view s v \<Longrightarrow> v = ?W \<or> v = ?R" for v using cow_inv_parts(3) [OF inv, of v] by (simp add: exists_view_def m)
  have live: "live s ?R" "live s ?W" using cow_inv_parts(4) [OF inv] by (simp_all add: m)
  show ?thesis
  proof (rule unmanagedI)
    show "?R \<noteq> ?W" using cow_inv_parts(2) [OF inv] by (simp add: m)
    show "exists_view s ?R" "exists_view s ?W" using live by (simp_all add: live_def exists_view_def)
    show "exists_view s v \<and> v \<noteq> ?W" if "0 < readers s v" for v
      using cow_inv_parts(2) [OF inv] cow_inv_parts(5) [OF inv that] live by (auto simp: m live_def exists_view_def)
    show "if arr s ?W = arr s ?R then \<not> flag s ?W \<and> vsize s ?R \<le> vsize s ?W else flag s ?W"
      using cow_inv_parts(9) [OF inv] by (simp add: writerOk_def m(2))
  qed (use g ex live cow_inv_parts(10) [OF inv] in auto)
qed

section \<open>Writing\<close>

lemma unmanaged_write:
  assumes inv: "unmanaged_inv s" and views: "views s' = (views s)(m_writeView s \<mapsto> w)"
    and same: "m_readView s' = m_readView s" "m_writeView s' = m_writeView s" "readers s' = readers s"
      "readViewGenerations s' = readViewGenerations s" "nextView s' = nextView s" "nextArray s \<le> nextArray s'"
    and others: "\<And>v. exists_view s v \<Longrightarrow> v \<noteq> m_writeView s \<Longrightarrow> \<exists>ys. arrays s' (arr s v) = Some ys \<and> vsize s v \<le> length ys"
    and fresh: "live s' (m_writeView s)" "\<And>v. exists_view s v \<Longrightarrow> v \<noteq> m_writeView s \<Longrightarrow> arr s v = m_array w \<Longrightarrow> v = m_readView s"
    and writer: "if m_array w = arr s (m_readView s)
        then \<not> getNeedToFreeArray (m_sizeAndFlags w) \<and> vsize s (m_readView s) \<le> view_size (m_sizeAndFlags w)
        else getNeedToFreeArray (m_sizeAndFlags w)"
    and bits: "bit (m_sizeAndFlags w) 31"
  shows "unmanaged_inv s'"
proof -
  let ?R = "m_readView s" and ?W = "m_writeView s"
  have ex: "exists_view s' v \<longleftrightarrow> exists_view s v" for v
    using views unmanaged_parts(4) [OF inv] by (simp add: exists_view_def)
  have acc: "arr s' v = arr s v" "flag s' v = flag s v" "vsize s' v = vsize s v" "views s' v = views s v" if "v \<noteq> ?W" for v
    using same_view [of s' v s] that views by simp_all
  have W: "arr s' ?W = m_array w" "flag s' ?W = getNeedToFreeArray (m_sizeAndFlags w)" "vsize s' ?W = view_size (m_sizeAndFlags w)"
    by (simp_all add: arr_def flag_def vsize_def views)
  have live: "live s' v" if v: "exists_view s v" for v
  proof (cases "v = ?W")
    case False
    have "live s v" using unmanaged_parts(5) [OF inv v] .
    then show ?thesis using others [OF v False] acc [OF False] same(5,6) by (auto simp: live_def)
  qed (use fresh(1) in simp)
  have RW: "?R \<noteq> ?W" using unmanaged_parts(2) [OF inv] .
  show ?thesis
  proof (rule unmanagedI, unfold same ex)
    show "readViewGenerations s = [[]]" "?R \<noteq> ?W" "exists_view s ?R" "exists_view s ?W" by (rule unmanaged_parts [OF inv])+
    show "live s' v" if "exists_view s v" for v using live that .
    show "0 < readers s v \<and> flag s' v" if "exists_view s v" "v \<noteq> ?R" "v \<noteq> ?W" for v
      using unmanaged_parts(6) [OF inv that] acc that by simp
    show "exists_view s v \<and> v \<noteq> ?W" if "0 < readers s v" for v using unmanaged_parts(7) [OF inv that] .
    show "{v, u} = {?R, ?W}" if e: "exists_view s v" "exists_view s u" "v \<noteq> u" "arr s' v = arr s' u" for v u
    proof -
      consider "v = ?W" | "u = ?W" | "v \<noteq> ?W" "u \<noteq> ?W" by blast
      then show ?thesis
      proof cases
        case 1
        then show ?thesis using fresh(2) [of u] e acc W by auto
      next
        case 2
        then show ?thesis using fresh(2) [of v] e acc W by auto
      next
        case 3
        then show ?thesis using unmanaged_parts(8) [OF inv e(1-3)] e(4) acc by simp
      qed
    qed
    show "if arr s' ?W = arr s' ?R then \<not> flag s' ?W \<and> vsize s' ?R \<le> vsize s' ?W else flag s' ?W"
      using writer W acc RW by simp
    show "bit (m_sizeAndFlags (the (views s' ?W))) 31" using bits views by simp
  qed
qed

lemma unmanaged_movedTo:
  assumes inv: "unmanaged_inv s" and w: "m_array w = nextArray s" "getNeedToFreeArray (m_sizeAndFlags w)" "bit (m_sizeAndFlags w) 31"
    "view_size (m_sizeAndFlags w) \<le> length ys"
    and A: "A = (if flag s (m_writeView s) then (arrays s)(arr s (m_writeView s) := None) else arrays s)"
  shows "unmanaged_inv (movedTo s w ys A)"
    "\<And>v. exists_view s v \<Longrightarrow> v \<noteq> m_writeView s \<Longrightarrow> snapshot (movedTo s w ys A) v = snapshot s v"
proof -
  let ?s = "movedTo s w ys A" and ?W = "m_writeView s"
  have old: "arr s v < nextArray s" if "exists_view s v" for v using unmanaged_parts(5) [OF inv that] by (simp add: live_def)
  have kept: "A (arr s v) = arrays s (arr s v)" if v: "exists_view s v" "v \<noteq> ?W" for v
    using unmanaged_alone [OF inv v] by (auto simp: A)
  show "unmanaged_inv ?s"
  proof (rule unmanaged_write [OF inv, of _ w])
    show "\<exists>ys. arrays ?s (arr s v) = Some ys \<and> vsize s v \<le> length ys" if v: "exists_view s v" "v \<noteq> ?W" for v
      using kept [OF v] unmanaged_parts(5) [OF inv v(1)] old [OF v(1)] by (auto simp: movedTo_def live_def)
    have "?W < nextView s" using unmanaged_parts(5) [OF inv unmanaged_parts(4) [OF inv]] by (simp add: live_def)
    then show "live ?s ?W" using w by (auto simp: live_def movedTo_def arr_def vsize_def)
    show "v = m_readView s" if "exists_view s v" "arr s v = m_array w" for v using old [OF that(1)] that(2) w(1) by simp
    show "if m_array w = arr s (m_readView s)
        then \<not> getNeedToFreeArray (m_sizeAndFlags w) \<and> vsize s (m_readView s) \<le> view_size (m_sizeAndFlags w)
        else getNeedToFreeArray (m_sizeAndFlags w)"
      using old [OF unmanaged_parts(3) [OF inv]] w(1,2) by simp
  qed (simp_all add: movedTo_def w(3))
  show "snapshot ?s v = snapshot s v" if v: "exists_view s v" "v \<noteq> ?W" for v
    using unmanaged_parts(5) [OF inv v(1)] kept [OF v] v(2) by (auto simp: snapshot_def movedTo_def arr_def live_def)
qed

lemma unmanaged_assign:
  assumes inv: "unmanaged_inv s" and i: "unshared i s" "vsize s (m_writeView s) + 1 < 2 ^ 30" and w: "snapshot s (m_writeView s) = Some zs"
  shows "\<exists>s'. cow_assign mem i x s = Some s' \<and> unmanaged_inv s' \<and> readers s' = readers s \<and> m_readView s' = m_readView s
    \<and> m_writeView s' = m_writeView s \<and> (arr s (m_writeView s) \<noteq> arr s (m_readView s) \<longrightarrow> arr s' (m_writeView s') \<noteq> arr s' (m_readView s'))
    \<and> (\<forall>v. exists_view s v \<longrightarrow> v \<noteq> m_writeView s \<longrightarrow> exists_view s' v \<and> snapshot s' v = snapshot s v)
    \<and> snapshot s' (m_writeView s') = Some (if i < length zs then zs[i := x] else zs @ [x])"
proof -
  let ?W = "m_writeView s" and ?R = "m_readView s"
  have le: "i \<le> vsize s ?W" using i(1) by (auto simp: unshared_def)
  have live: "live s ?W" using unmanaged_parts(5) [OF inv unmanaged_parts(4) [OF inv]] .
  have RW: "?R \<noteq> ?W" using unmanaged_parts(2) [OF inv] .
  show ?thesis
    using live unmanaged_parts(10) [OF inv] le i(2)
  proof (cases rule: cow_assign_writer [where mem = mem and x = x])
    case (inplace u xs)
    let ?s = "storedInPlace i x s u xs"
    have zs: "zs = take (vsize s ?W) xs" "length zs = vsize s ?W"
      using w live inplace(6) by (auto simp: snapshot_live live_def)
    have upd: "take (max (vsize s ?W) (i + 1)) (xs[i := x]) = (if i < length zs then zs[i := x] else zs @ [x])"
    proof (cases "i = vsize s ?W")
      case True
      then show ?thesis using zs inplace(7) by (simp add: max_def take_Suc_conv_app_nth take_update_cancel)
    next
      case False
      then have "i < vsize s ?W" "max (vsize s ?W) (i + 1) = vsize s ?W" using le by auto
      then show ?thesis using zs by (simp add: take_update_swap)
    qed
    have "unmanaged_inv ?s"
    proof (rule unmanaged_write [OF inv, of _ u])
      show "\<exists>ys. arrays ?s (arr s v) = Some ys \<and> vsize s v \<le> length ys" if v: "exists_view s v" for v
        using unmanaged_parts(5) [OF inv v] inplace(6) by (auto simp: storedInPlace_def live_def)
      show "live ?s ?W" using live inplace by (auto simp: live_def storedInPlace_def arr_def vsize_def)
      show "v = ?R" if v: "exists_view s v" "v \<noteq> ?W" "arr s v = m_array u" for v
        using unmanaged_parts(8) [OF inv v(1) unmanaged_parts(4) [OF inv] v(2)] v(2,3) inplace(2) by auto
      show "if m_array u = arr s ?R then \<not> getNeedToFreeArray (m_sizeAndFlags u) \<and> vsize s ?R \<le> view_size (m_sizeAndFlags u)
          else getNeedToFreeArray (m_sizeAndFlags u)"
        using unmanaged_parts(9) [OF inv] inplace(2,3,5) by (auto simp: max_def split: if_splits)
    qed (simp_all add: storedInPlace_def inplace(4))
    moreover have "snapshot ?s v = snapshot s v" if v: "exists_view s v" "v \<noteq> ?W" for v
    proof (cases "arr s v = arr s ?W")
      case True
      then have vR: "v = ?R" using unmanaged_parts(8) [OF inv v(1) unmanaged_parts(4) [OF inv] v(2)] v(2) by auto
      then have "i = vsize s ?W" "vsize s v \<le> i"
        using i(1) True unmanaged_parts(9) [OF inv] by (auto simp: unshared_def)
      then show ?thesis using True v inplace(6)
        by (auto simp: snapshot_def storedInPlace_def arr_def vsize_def exists_view_def take_update_cancel)
    next
      case False
      then show ?thesis using v by (auto simp: snapshot_def storedInPlace_def arr_def exists_view_def)
    qed
    moreover have "snapshot ?s ?W = Some (if i < length zs then zs[i := x] else zs @ [x])"
      using upd inplace(2,5) by (simp add: snapshot_def storedInPlace_def)
    moreover have "readers ?s = readers s" "m_readView ?s = ?R" "m_writeView ?s = ?W" "arr ?s ?W = arr s ?W" "arr ?s ?R = arr s ?R"
      using inplace(2) RW by (simp_all add: storedInPlace_def arr_def)
    ultimately show ?thesis using inplace(1) by (intro exI [of _ ?s]) (simp add: exists_view_def storedInPlace_def)
  next
    case (moved u ys xs A)
    let ?s = "movedTo s u ys A"
    note m = unmanaged_movedTo [OF inv moved(2-4) _ moved(10), of ys]
    have zs: "zs = take i xs" "length zs = i" using w live moved(7,8) by (auto simp: snapshot_live live_def)
    have "take (i + 1) ys = take i xs @ [x]" using moved(6,9,11) by (simp add: take_Suc_conv_app_nth)
    then have "snapshot ?s ?W = Some (if i < length zs then zs[i := x] else zs @ [x])"
      using moved(2,5) zs by (simp add: movedTo_def snapshot_def)
    moreover have mi: "unmanaged_inv ?s" using m(1) moved(5,6) by simp
    moreover have "flag ?s (m_writeView ?s)" using moved(3) by (simp add: flag_def movedTo_def)
    ultimately show ?thesis using moved(1,5,6) m(2) unmanaged_flag [OF mi]
      by (intro exI [of _ ?s]) (simp add: exists_view_def movedTo_def)
  qed
qed

lemma unmanaged_push_back:
  assumes inv: "unmanaged_inv s" and n: "vsize s (m_writeView s) + 1 < 2 ^ 30" and w: "snapshot s (m_writeView s) = Some zs"
  shows "\<exists>s'. push_back mem x s = Some s' \<and> unmanaged_inv s' \<and> readers s' = readers s \<and> m_readView s' = m_readView s
    \<and> (\<forall>v. exists_view s v \<longrightarrow> v \<noteq> m_writeView s \<longrightarrow> snapshot s' v = snapshot s v) \<and> snapshot s' (m_writeView s') = Some (zs @ [x])"
proof -
  let ?W = "m_writeView s"
  have live: "live s ?W" using unmanaged_parts(5) [OF inv unmanaged_parts(4) [OF inv]] .
  then obtain u where u: "views s ?W = Some u" by (auto simp: live_def)
  then have "push_back mem x s = cow_assign mem (vsize s ?W) x s"
    using isWriteView_bit unmanaged_parts(10) [OF inv] by (simp add: push_back_def vsize_def)
  moreover have "length zs = vsize s ?W" using w live by (auto simp: snapshot_live live_def)
  ultimately show ?thesis using unmanaged_assign [OF inv _ n w, of "vsize s ?W" mem x] by (auto simp: unshared_def)
qed

lemma unmanaged_forceCreateCopy:
  assumes inv: "unmanaged_inv s"
  shows "\<exists>s'. forceCreateCopy mem s = Some s' \<and> unmanaged_inv s' \<and> readers s' = readers s \<and> m_readView s' = m_readView s
    \<and> m_writeView s' = m_writeView s \<and> arr s' (m_writeView s') \<noteq> arr s' (m_readView s')
    \<and> (\<forall>v. exists_view s v \<longrightarrow> v \<noteq> m_writeView s \<longrightarrow> exists_view s' v \<and> snapshot s' v = snapshot s v)
    \<and> snapshot s' (m_writeView s') = snapshot s (m_writeView s)"
proof -
  let ?W = "m_writeView s"
  obtain w xs where w: "views s ?W = Some w" "arrays s (m_array w) = Some xs" "view_size (m_sizeAndFlags w) \<le> length xs"
      "m_array w < nextArray s"
    using unmanaged_parts(5) [OF inv unmanaged_parts(4) [OF inv]] by (auto simp: live_def arr_def vsize_def)
  let ?n = "view_size (m_sizeAndFlags w)"
  let ?w = "w\<lparr>m_array := nextArray s, m_sizeAndFlags := setNeedToFreeArray True (m_sizeAndFlags w)\<rparr>"
  let ?ys = "take ?n xs @ map mem [?n..<length xs]"
  let ?A = "if flag s ?W then (arrays s)(arr s ?W := None) else arrays s"
  have same: "setNeedToFreeArray True f = f" if "getNeedToFreeArray f" for f
    using that by (intro bit_word_eqI) (auto simp: setNeedToFreeArray_def getNeedToFreeArray_bit bit_or_iff mask_bits)
  have "forceCreateCopy mem s = Some (movedTo s ?w ?ys ?A)"
    using w by (auto simp: forceCreateCopy_def reallocate_def deleteArray_def Let_def movedTo_def same fun_upd_twist arr_def flag_def)
  moreover have m: "unmanaged_inv (movedTo s ?w ?ys ?A)"
    "\<And>v. exists_view s v \<Longrightarrow> v \<noteq> ?W \<Longrightarrow> snapshot (movedTo s ?w ?ys ?A) v = snapshot s v"
    by (rule unmanaged_movedTo [OF inv]; use unmanaged_parts(10) [OF inv] w in simp)+
  moreover have "snapshot (movedTo s ?w ?ys ?A) ?W = snapshot s ?W" using w by (simp add: snapshot_def movedTo_def)
  moreover have "flag (movedTo s ?w ?ys ?A) (m_writeView (movedTo s ?w ?ys ?A))" by (simp add: flag_def movedTo_def)
  ultimately show ?thesis using unmanaged_flag [OF m(1)]
    by (intro exI [of _ "movedTo s ?w ?ys ?A"]) (simp add: exists_view_def movedTo_def)
qed

text \<open>Shrinking a write view that has an array of its own: \<open>setSize\<close> on the write view.\<close>

definition setWriteSize :: "nat \<Rightarrow> 'a cowvector \<Rightarrow> 'a cowvector option" where
  "setWriteSize n s = do {
     w \<leftarrow> views s (m_writeView s);
     Some (s\<lparr>views := (views s)(m_writeView s \<mapsto> w\<lparr>m_sizeAndFlags := setSize n (m_sizeAndFlags w)\<rparr>)\<rparr>)
   }"

lemma unmanaged_setWriteSize:
  assumes inv: "unmanaged_inv s" and own: "arr s (m_writeView s) \<noteq> arr s (m_readView s)" and w: "snapshot s (m_writeView s) = Some zs"
    and n: "n \<le> length zs"
  shows "\<exists>s'. setWriteSize n s = Some s' \<and> unmanaged_inv s' \<and> readers s' = readers s \<and> m_readView s' = m_readView s
    \<and> m_writeView s' = m_writeView s \<and> arr s' (m_writeView s') \<noteq> arr s' (m_readView s')
    \<and> (\<forall>v. exists_view s v \<longrightarrow> v \<noteq> m_writeView s \<longrightarrow> exists_view s' v \<and> snapshot s' v = snapshot s v)
    \<and> snapshot s' (m_writeView s') = Some (take n zs)"
proof -
  let ?W = "m_writeView s" and ?R = "m_readView s"
  obtain w xs where wx: "views s ?W = Some w" "arrays s (m_array w) = Some xs" "view_size (m_sizeAndFlags w) \<le> length xs"
      "m_array w < nextArray s" "?W < nextView s"
    using unmanaged_parts(5) [OF inv unmanaged_parts(4) [OF inv]] by (auto simp: live_def arr_def vsize_def)
  have zs: "zs = take (view_size (m_sizeAndFlags w)) xs" using w wx by (simp add: snapshot_def)
  then have nn: "n \<le> view_size (m_sizeAndFlags w)" "n < 2 ^ 30" using n view_size_less [of "m_sizeAndFlags w"] wx(3) by auto
  let ?w = "w\<lparr>m_sizeAndFlags := setSize n (m_sizeAndFlags w)\<rparr>"
  let ?s = "s\<lparr>views := (views s)(?W \<mapsto> ?w)\<rparr>"
  have fl: "getNeedToFreeArray (m_sizeAndFlags w)" using unmanaged_flag [OF inv] own wx by (simp add: flag_def)
  have aw: "arr s ?W = m_array w" using wx by (simp add: arr_def)
  have i: "unmanaged_inv ?s"
  proof (rule unmanaged_write [OF inv, of _ ?w])
    show "\<exists>ys. arrays ?s (arr s v) = Some ys \<and> vsize s v \<le> length ys" if "exists_view s v" for v
      using unmanaged_parts(5) [OF inv that] by (auto simp: live_def)
    show "live ?s ?W" using wx nn by (auto simp: live_def arr_def vsize_def)
    show "v = ?R" if v: "exists_view s v" "v \<noteq> ?W" "arr s v = m_array ?w" for v
      using unmanaged_parts(8) [OF inv v(1) unmanaged_parts(4) [OF inv] v(2)] v(2,3) aw by auto
    show "if m_array ?w = arr s ?R then \<not> getNeedToFreeArray (m_sizeAndFlags ?w) \<and> vsize s ?R \<le> view_size (m_sizeAndFlags ?w)
        else getNeedToFreeArray (m_sizeAndFlags ?w)"
      using own aw fl by simp
  qed (use unmanaged_parts(10) [OF inv] wx(1) in simp_all)
  have RW: "?R \<noteq> ?W" using unmanaged_parts(2) [OF inv] .
  have "setWriteSize n s = Some ?s" using wx by (simp add: setWriteSize_def)
  moreover have "snapshot ?s ?W = Some (take n zs)" using wx zs nn by (simp add: snapshot_def min_def)
  moreover have "arr ?s ?W = arr s ?W" "arr ?s ?R = arr s ?R" using aw RW by (simp_all add: arr_def)
  ultimately show ?thesis using i own by (intro exI [of _ ?s]) (simp add: exists_view_def snapshot_def)
qed

text \<open>Overwriting the elements of the write view from an index on.\<close>

fun assignFrom :: "(nat \<Rightarrow> 'a) \<Rightarrow> nat \<Rightarrow> 'a list \<Rightarrow> 'a cowvector \<Rightarrow> 'a cowvector option" where
  "assignFrom mem i [] s = Some s"
| "assignFrom mem i (x # xs) s = do { s \<leftarrow> cow_assign mem i x s; assignFrom mem (i + 1) xs s }"

lemma unmanaged_assignFrom:
  assumes "unmanaged_inv s" "arr s (m_writeView s) \<noteq> arr s (m_readView s)" "snapshot s (m_writeView s) = Some zs"
    "i + length xs = length zs" "length zs + 1 < 2 ^ 30"
  shows "\<exists>s'. assignFrom mem i xs s = Some s' \<and> unmanaged_inv s' \<and> readers s' = readers s \<and> m_readView s' = m_readView s
    \<and> m_writeView s' = m_writeView s \<and> arr s' (m_writeView s') \<noteq> arr s' (m_readView s')
    \<and> (\<forall>v. exists_view s v \<longrightarrow> v \<noteq> m_writeView s \<longrightarrow> exists_view s' v \<and> snapshot s' v = snapshot s v)
    \<and> snapshot s' (m_writeView s') = Some (take i zs @ xs)"
  using assms
proof (induction xs arbitrary: i s zs)
  case (Cons x xs)
  have "live s (m_writeView s)" using unmanaged_parts(5) [OF Cons.prems(1) unmanaged_parts(4) [OF Cons.prems(1)]] .
  then have l: "length zs = vsize s (m_writeView s)" using Cons.prems(3) by (auto simp: snapshot_live live_def)
  have i: "i < length zs" using Cons.prems(4) by simp
  then have "unshared i s" using l Cons.prems(2) by (simp add: unshared_def)
  then obtain s1 where s1: "cow_assign mem i x s = Some s1" "unmanaged_inv s1" "readers s1 = readers s" "m_readView s1 = m_readView s"
      "m_writeView s1 = m_writeView s" "arr s1 (m_writeView s1) \<noteq> arr s1 (m_readView s1)"
      "\<And>v. exists_view s v \<Longrightarrow> v \<noteq> m_writeView s \<Longrightarrow> exists_view s1 v \<and> snapshot s1 v = snapshot s v"
      "snapshot s1 (m_writeView s1) = Some (zs[i := x])"
    using unmanaged_assign [OF Cons.prems(1) _ _ Cons.prems(3), of i mem x] Cons.prems(2,5) l i by auto
  obtain s2 where s2: "assignFrom mem (i + 1) xs s1 = Some s2" "unmanaged_inv s2" "readers s2 = readers s1" "m_readView s2 = m_readView s1"
      "m_writeView s2 = m_writeView s1" "arr s2 (m_writeView s2) \<noteq> arr s2 (m_readView s2)"
      "\<And>v. exists_view s1 v \<Longrightarrow> v \<noteq> m_writeView s1 \<Longrightarrow> exists_view s2 v \<and> snapshot s2 v = snapshot s1 v"
      "snapshot s2 (m_writeView s2) = Some (take (i + 1) (zs[i := x]) @ xs)"
    using Cons.IH [OF s1(2,6,8), of "i + 1"] Cons.prems(4,5) by auto
  have "take (i + 1) (zs[i := x]) @ xs = take i zs @ x # xs" using i by (simp add: take_Suc_conv_app_nth)
  then show ?case using s1 s2 by (intro exI [of _ s2]) auto
qed auto

section \<open>Readers\<close>

lemma unmanaged_readers:
  assumes inv: "unmanaged_inv s"
    and r: "\<And>v. 0 < R v \<Longrightarrow> 0 < readers s v \<or> v = m_readView s"
    "\<And>v. 0 < readers s v \<Longrightarrow> v \<noteq> m_readView s \<Longrightarrow> 0 < R v"
  shows "unmanaged_inv (s\<lparr>readers := R\<rparr>)"
proof -
  let ?s = "s\<lparr>readers := R\<rparr>"
  have acc: "exists_view ?s = exists_view s" "arr ?s = arr s" "flag ?s = flag s" "vsize ?s = vsize s" "live ?s = live s"
    by (auto simp: fun_eq_iff exists_view_def arr_def flag_def vsize_def live_def)
  have same: "m_readView ?s = m_readView s" "m_writeView ?s = m_writeView s" "readViewGenerations ?s = readViewGenerations s"
    "views ?s = views s" "readers ?s = R" by simp_all
  note p = unmanaged_parts [OF inv]
  show ?thesis
  proof (rule unmanagedI, unfold acc same)
    show "{v, w} = {m_readView s, m_writeView s}" if "exists_view s v" "exists_view s w" "v \<noteq> w" "arr s v = arr s w" for v w
      using p(8) [OF that] .
    show "0 < R v \<and> flag s v" if "exists_view s v" "v \<noteq> m_readView s" "v \<noteq> m_writeView s" for v
      using p(6) [OF that] r(2) that by blast
    show "exists_view s v \<and> v \<noteq> m_writeView s" if "0 < R v" for v
      using r(1) [OF that] p(7) [of v] p(2,3) by auto
  qed (rule p(1,2,3,4,5,9,10), assumption?)+
qed

lemma unmanaged_getReadView: "unmanaged_inv s \<Longrightarrow> unmanaged_inv (snd (getReadView s))"
  unfolding getReadView_def snd_conv by (rule unmanaged_readers) (auto split: if_splits)

lemma unmanaged_release:
  assumes inv: "unmanaged_inv s" and v: "0 < readers s v"
  shows "\<exists>s'. releaseView v s = Some s' \<and> unmanaged_inv s' \<and> readers s' = (readers s)(v := readers s v - 1)
    \<and> m_readView s' = m_readView s \<and> m_writeView s' = m_writeView s
    \<and> (\<forall>u. exists_view s u \<longrightarrow> u \<noteq> v \<or> 1 < readers s v \<or> v = m_readView s \<longrightarrow> exists_view s' u \<and> snapshot s' u = snapshot s u)"
proof (cases "1 < readers s v \<or> v = m_readView s")
  case True
  let ?s = "s\<lparr>readers := (readers s)(v := readers s v - 1)\<rparr>"
  have "unmanaged_inv ?s" by (rule unmanaged_readers [OF inv]) (use True in \<open>auto split: if_splits\<close>)
  moreover have "releaseView v s = Some ?s"
    using v True unmanaged_parts(1) [OF inv] by (auto simp: releaseView_def dropIfUnused_def useCount_def)
  ultimately show ?thesis by (intro exI [of _ ?s]) (simp add: exists_view_def snapshot_def)
next
  case False
  then have one: "readers s v = 1" "v \<noteq> m_readView s" using v by auto
  let ?R = "m_readView s" and ?W = "m_writeView s"
  note p = unmanaged_parts [OF inv]
  have e: "exists_view s v" "v \<noteq> ?W" using p(7) [OF v] by auto
  then obtain view where view: "views s v = Some view" by (auto simp: exists_view_def)
  have fl: "getNeedToFreeArray (m_sizeAndFlags view)" using p(6) [OF e(1) one(2) e(2)] view by (simp add: flag_def)
  have av: "arr s v = m_array view" using view by (simp add: arr_def)
  obtain xs where xs: "arrays s (m_array view) = Some xs" using p(5) [OF e(1)] av by (auto simp: live_def)
  define A where "A = (if isReadView (m_sizeAndFlags view) then (arrays s)(m_array view := None) else arrays s)"
  let ?s = "s\<lparr>readers := (readers s)(v := 0), views := (views s)(v := None), arrays := A\<rparr>"
  have rel: "releaseView v s = Some ?s"
    using v one p(1) view fl xs
    by (auto simp: releaseView_def dropIfUnused_def useCount_def deleteView_def deleteArray_def A_def Let_def)
  have ex: "exists_view ?s u \<longleftrightarrow> exists_view s u \<and> u \<noteq> v" for u by (simp add: exists_view_def)
  have kept: "A (arr s u) = arrays s (arr s u)" if u: "exists_view s u" "u \<noteq> v" for u
    using p(8) [OF u(1) e(1) u(2)] one(2) e(2) av by (auto simp: A_def doubleton_eq_iff)
  have acc: "arr ?s u = arr s u" "flag ?s u = flag s u" "vsize ?s u = vsize s u" "views ?s u = views s u" if "u \<noteq> v" for u
    using that by (simp_all add: arr_def flag_def vsize_def)
  have live: "live ?s u" if u: "exists_view s u" "u \<noteq> v" for u
    using p(5) [OF u(1)] kept [OF u] acc [OF u(2)] u(2) by (auto simp: live_def)
  have nRW: "?R \<noteq> v" "?W \<noteq> v" using one(2) e(2) by auto
  have "unmanaged_inv ?s"
  proof (rule unmanagedI)
    show "if arr ?s (m_writeView ?s) = arr ?s (m_readView ?s)
       then \<not> flag ?s (m_writeView ?s) \<and> vsize ?s (m_readView ?s) \<le> vsize ?s (m_writeView ?s) else flag ?s (m_writeView ?s)"
      using p(9) acc(1-3) [of ?R] acc(1-3) [of ?W] nRW by simp
    show "{u, w} = {m_readView ?s, m_writeView ?s}"
      if "exists_view ?s u" "exists_view ?s w" "u \<noteq> w" "arr ?s u = arr ?s w" for u w
      using that p(8) [of u w] acc(1) [of u] acc(1) [of w] unfolding ex by simp
    show "0 < readers ?s u \<and> flag ?s u" if "exists_view ?s u" "u \<noteq> m_readView ?s" "u \<noteq> m_writeView ?s" for u
      using that p(6) [of u] acc(2) [of u] unfolding ex by simp
    show "exists_view ?s u \<and> u \<noteq> m_writeView ?s" if "0 < readers ?s u" for u
      using that p(7) [of u] unfolding ex by (simp split: if_splits)
    show "live ?s u" if "exists_view ?s u" for u using that live unfolding ex by blast
    show "exists_view ?s (m_readView ?s)" "exists_view ?s (m_writeView ?s)" using p(3,4) nRW unfolding ex by simp_all
  qed (use p(1,2,10) nRW in simp_all)
  moreover have "snapshot ?s u = snapshot s u" if u: "exists_view s u" "u \<noteq> v" for u
    using kept [OF u] u by (auto simp: snapshot_def arr_def exists_view_def)
  ultimately show ?thesis using rel one ex by (intro exI [of _ ?s]) auto
qed

section \<open>Merging without a manager\<close>

lemma unmanaged_merge:
  assumes inv: "unmanaged_inv s" and own: "arr s (m_writeView s) \<noteq> arr s (m_readView s)"
  shows "\<exists>s'. merge False g s = Some s' \<and> unmanaged_inv s' \<and> readers s' = readers s \<and> m_readView s' = m_writeView s
    \<and> (\<forall>v. 0 < readers s v \<longrightarrow> exists_view s' v \<and> snapshot s' v = snapshot s v)
    \<and> snapshot s' (m_readView s') = snapshot s (m_writeView s) \<and> snapshot s' (m_writeView s') = snapshot s (m_writeView s)"
proof -
  let ?R = "m_readView s" and ?W = "m_writeView s" and ?N = "nextView s"
  note p = unmanaged_parts [OF inv]
  obtain r w where rw: "views s ?R = Some r" "views s ?W = Some w" using p(3,4) by (auto simp: exists_view_def)
  have a: "arr s ?R = m_array r" "arr s ?W = m_array w" using rw by (simp_all add: arr_def)
  obtain xs where xs: "arrays s (m_array r) = Some xs" using p(5) [OF p(3)] a by (auto simp: live_def)
  have N: "v < ?N" if "exists_view s v" for v using p(5) [OF that] by (simp add: live_def)
  have nN: "?R \<noteq> ?N" "?W \<noteq> ?N" using N [OF p(3)] N [OF p(4)] by auto
  let ?r = "r\<lparr>m_sizeAndFlags := setNeedToFreeArray True (m_sizeAndFlags r)\<rparr>"
  let ?w = "w\<lparr>m_sizeAndFlags := setReadView (m_sizeAndFlags w)\<rparr>"
  define gone where "gone \<longleftrightarrow> readers s ?R = 0"
  define A where "A = (if gone \<and> isReadView (m_sizeAndFlags r) then (arrays s)(m_array r := None) else arrays s)"
  define V where "V = (views s)(?R := (if gone then None else Some ?r), ?W \<mapsto> ?w, ?N \<mapsto> copyView g ?w)"
  let ?s = "s\<lparr>arrays := A, views := V, m_readView := ?W, m_writeView := ?N, nextView := ?N + 1\<rparr>"
  have m: "merge False g s = Some ?s"
    using rw own a p(1,2) xs nN
    by (auto simp: merge_def retireReadView_def finishMerge_def dropIfUnused_def useCount_def deleteView_def deleteArray_def
        Let_def A_def V_def gone_def fun_upd_twist)
  have ex: "exists_view ?s v \<longleftrightarrow> v = ?N \<or> exists_view s v \<and> (v = ?R \<longrightarrow> \<not> gone)" for v
    using p(2-4) nN rw by (auto simp: exists_view_def V_def)
  have kept: "A (arr s v) = arrays s (arr s v)" if v: "exists_view s v" "v = ?R \<longrightarrow> \<not> gone" for v
    using p(8) [OF v(1) p(3)] v own a by (auto simp: A_def doubleton_eq_iff)
  have arrS: "arr ?s v = (if v = ?N then arr s ?W else arr s v)" if "v = ?N \<or> exists_view s v \<and> (v = ?R \<longrightarrow> \<not> gone)" for v
    using that p(2) nN rw a by (auto simp: arr_def V_def)
  have vsizeS: "vsize ?s v = (if v = ?N then vsize s ?W else vsize s v)" if "v = ?N \<or> exists_view s v \<and> (v = ?R \<longrightarrow> \<not> gone)" for v
    using that p(2) nN rw by (auto simp: vsize_def V_def)
  have flagS: "flag ?s v = (v \<noteq> ?N \<and> (v = ?R \<or> flag s v))" if "v = ?N \<or> exists_view s v \<and> (v = ?R \<longrightarrow> \<not> gone)" for v
    using that p(2) nN rw by (auto simp: flag_def V_def copyView_def)
  have liveS: "live ?s v" if v: "v = ?N \<or> exists_view s v \<and> (v = ?R \<longrightarrow> \<not> gone)" for v
  proof -
    let ?u = "if v = ?N then ?W else v"
    have u: "exists_view s ?u" "?u = ?R \<longrightarrow> \<not> gone" using v p(2,4) by auto
    have l: "live s ?u" using p(5) [OF u(1)] .
    have au: "arr ?s v = arr s ?u" "vsize ?s v = vsize s ?u" using arrS [OF v] vsizeS [OF v] by auto
    have "views ?s v \<noteq> None" using v ex by (simp add: exists_view_def)
    moreover have "v < ?N + 1" using v N [of v] by auto
    ultimately show ?thesis using l kept [OF u] unfolding live_def au by auto
  qed
  have alone: "arr s v \<noteq> arr s ?W" if v: "exists_view s v" "v \<noteq> ?W" for v
    using p(8) [OF v(1) p(4) v(2)] v(2) own by (auto simp: doubleton_eq_iff)
  have inv': "unmanaged_inv ?s"
  proof (rule unmanagedI)
    show "readViewGenerations ?s = [[]]" "m_readView ?s \<noteq> m_writeView ?s" using p(1) nN by simp_all
    show "exists_view ?s (m_readView ?s)" "exists_view ?s (m_writeView ?s)" using p(2,4) unfolding ex by auto
    show "live ?s v" if "exists_view ?s v" for v using that liveS unfolding ex by blast
    show "0 < readers ?s v \<and> flag ?s v" if v: "exists_view ?s v" "v \<noteq> m_readView ?s" "v \<noteq> m_writeView ?s" for v
      using v flagS p(6) [of v] unfolding ex by (auto simp: gone_def)
    show "exists_view ?s v \<and> v \<noteq> m_writeView ?s" if "0 < readers ?s v" for v
      using that p(7) [of v] N [of v] unfolding ex by (auto simp: gone_def)
    show "{v, u} = {m_readView ?s, m_writeView ?s}"
      if e: "exists_view ?s v" "exists_view ?s u" "v \<noteq> u" "arr ?s v = arr ?s u" for v u
      using e arrS [of v] arrS [of u] alone [of v] alone [of u] p(8) [of v u] own unfolding ex
      by (auto simp: doubleton_eq_iff split: if_splits)
    show "if arr ?s (m_writeView ?s) = arr ?s (m_readView ?s)
       then \<not> flag ?s (m_writeView ?s) \<and> vsize ?s (m_readView ?s) \<le> vsize ?s (m_writeView ?s) else flag ?s (m_writeView ?s)"
      using arrS [of ?N] arrS [of ?W] flagS [of ?N] vsizeS [of ?N] vsizeS [of ?W] p(2,4) nN by simp
    show "bit (m_sizeAndFlags (the (views ?s (m_writeView ?s)))) 31" by (simp add: V_def copyView_def)
  qed
  have snap: "snapshot ?s v = snapshot s (if v = ?N then ?W else v)"
    if v: "v = ?N \<or> exists_view s v \<and> (v = ?R \<longrightarrow> \<not> gone)" for v
  proof -
    let ?u = "if v = ?N then ?W else v"
    have u: "exists_view s ?u" "?u = ?R \<longrightarrow> \<not> gone" using v p(2,4) by auto
    have "arr ?s v = arr s ?u" "vsize ?s v = vsize s ?u" using arrS [OF v] vsizeS [OF v] by auto
    moreover have "A (arr s ?u) = arrays s (arr s ?u)" by (rule kept [OF u])
    ultimately show ?thesis using liveS [OF v] p(5) [OF u(1)] by (auto simp: snapshot_live live_def)
  qed
  have "exists_view ?s v \<and> snapshot ?s v = snapshot s v" if v: "0 < readers s v" for v
  proof -
    have "exists_view s v" "v = ?R \<longrightarrow> \<not> gone" "v \<noteq> ?N" using p(7) [OF v] N [of v] v by (auto simp: gone_def)
    then show ?thesis using snap [of v] unfolding ex by simp
  qed
  then show ?thesis using inv' m p(2,4) nN snap [of ?W] snap [of ?N] by (intro exI [of _ ?s]) simp
qed

end
