(* ===== verification/Inverted_List.thy ===== *)
theory Inverted_List
  imports Exact_TopK Unmanaged_Vector
begin

text \<open>
  The inverted list of a keyword, \<^verbatim>\<open>InvertedListContainer\<close> in \<^verbatim>\<open>src/src/core/index/InvertedIndex.h\<close> and
  \<^verbatim>\<open>InvertedIndex.cpp\<close>: a copy-on-write vector of record ids, best first. The first commit sorts it by the
  static scores of the forward index; a merge drops deleted records, computes the scores anew, sorts what was appended
  and merges it with what readers see. \<open>halfToFloat\<close> and \<open>floatToHalf\<close> are the conversions of the half-precision
  library and \<open>expression\<close> the user's ranking expression. A failed assertion is \<open>None\<close>.
\<close>

section \<open>Elements\<close>

record InvertedListIdAndScore =
  il_recordId :: u32
  il_score :: real

definition InvertedListElementGreaterThan :: "InvertedListIdAndScore \<Rightarrow> InvertedListIdAndScore \<Rightarrow> bool" where
  "InvertedListElementGreaterThan lhs rhs = compareRecordsGreaterThan (il_score lhs) (il_recordId lhs) (il_score rhs) (il_recordId rhs)"

definition elementKey :: "InvertedListIdAndScore \<Rightarrow> RankKey" where
  "elementKey e = RankKey (il_score e) (il_recordId e)"

text \<open>\<^verbatim>\<open>std::inplace_merge\<close> of two neighbouring ranges: an element of the second goes first only if it has to.\<close>

fun inplace_merge :: "('a \<Rightarrow> 'a \<Rightarrow> bool) \<Rightarrow> 'a list \<Rightarrow> 'a list \<Rightarrow> 'a list" where
  "inplace_merge cmp [] ys = ys"
| "inplace_merge cmp xs [] = xs"
| "inplace_merge cmp (x # xs) (y # ys) =
    (if cmp y x then y # inplace_merge cmp (x # xs) ys else x # inplace_merge cmp xs (y # ys))"

section \<open>The first commit\<close>

definition scoreElement :: "(u16 \<Rightarrow> real) \<Rightarrow> ForwardListPtr list \<Rightarrow> u32 \<Rightarrow> u32 \<Rightarrow> InvertedListIdAndScore option" where
  "scoreElement halfToFloat readView keywordId rid = do {
     keywordOffset \<leftarrow> ForwardIndex_getKeywordOffset readView rid keywordId;
     score \<leftarrow> getTermRecordStaticScore halfToFloat readView rid keywordOffset;
     Some \<lparr>il_recordId = rid, il_score = score\<rparr>
   }"

fun scoreElements ::
  "(u16 \<Rightarrow> real) \<Rightarrow> ForwardListPtr list \<Rightarrow> u32 \<Rightarrow> nat list \<Rightarrow> u32 cowvector \<Rightarrow> InvertedListIdAndScore list option" where
  "scoreElements halfToFloat readView keywordId [] s = Some []"
| "scoreElements halfToFloat readView keywordId (i # is) s = do {
     rid \<leftarrow> getElement (m_writeView s) i s;
     e \<leftarrow> scoreElement halfToFloat readView keywordId rid;
     es \<leftarrow> scoreElements halfToFloat readView keywordId is s;
     Some (e # es)
   }"

definition sortAndMergeBeforeCommit ::
  "(u16 \<Rightarrow> real) \<Rightarrow> (nat \<Rightarrow> u32) \<Rightarrow> u64 \<Rightarrow> u32 \<Rightarrow> ForwardListPtr list \<Rightarrow> bool \<Rightarrow> u32 cowvector \<Rightarrow> u32 cowvector option" where
  "sortAndMergeBeforeCommit halfToFloat mem g keywordId readView needToSortEachInvertedList s = do {
     s \<leftarrow> (if needToSortEachInvertedList then do {
            writeView \<leftarrow> views s (m_writeView s);
            es \<leftarrow> scoreElements halfToFloat readView keywordId [0..<view_size (m_sizeAndFlags writeView)] s;
            assignFrom mem 0 (map il_recordId (std_sort InvertedListElementGreaterThan es)) s
          }
          else Some s);
     commit g s
   }"

section \<open>Merge\<close>

definition computeIdf :: "nat \<Rightarrow> nat \<Rightarrow> real" where
  "computeIdf totalDocumentsCount termHitDocumentsCount = 1 + ln (real totalDocumentsCount / (real termHitDocumentsCount + 1))"

definition u16Bytes :: "u16 \<Rightarrow> u8 list" where
  "u16Bytes v = [ucast v, ucast (drop_bit 8 v)]"

definition getKeywordTfBoostProduct :: "(u16 \<Rightarrow> real) \<Rightarrow> ForwardList \<Rightarrow> nat \<Rightarrow> real option" where
  "getKeywordTfBoostProduct halfToFloat fl i = map_option halfToFloat (readU16 (fl_data fl) (getKeywordIdsSizeInBytes fl + 2 * i))"

definition setKeywordRecordStaticScore :: "(real \<Rightarrow> u16) \<Rightarrow> nat \<Rightarrow> real \<Rightarrow> ForwardList \<Rightarrow> ForwardList option" where
  "setKeywordRecordStaticScore floatToHalf i score fl =
    (if i \<le> KEYWORD_THRESHOLD then do {
       buf \<leftarrow> copyTo (u16Bytes (floatToHalf score)) (getKeywordRecordStaticScoresPointer fl + 2 * i) (fl_data fl);
       Some (fl\<lparr>fl_data := buf\<rparr>)
     }
     else Some fl)"

text \<open>The offset of the keyword in a record: a binary search, and a scan for records that were just added.\<close>

definition mergedKeywordOffset :: "u32 \<Rightarrow> bool \<Rightarrow> ForwardList \<Rightarrow> nat option" where
  "mergedKeywordOffset keywordId appended fl = do {
     off \<leftarrow> getKeywordOffset fl keywordId;
     if numberOfKeywords fl \<le> off then
       if appended then do {
         off \<leftarrow> getKeywordOffsetByLinearScan fl keywordId;
         if off < numberOfKeywords fl then Some off else None
       }
       else None
     else Some off
   }"

text \<open>The score of a record, with the number \<open>n\<close> of records in the write view.\<close>

definition mergedScore :: "(u16 \<Rightarrow> real) \<Rightarrow> (real \<Rightarrow> real \<Rightarrow> real \<Rightarrow> real) \<Rightarrow> nat \<Rightarrow> nat \<Rightarrow> nat \<Rightarrow> ForwardList \<Rightarrow> real option" where
  "mergedScore halfToFloat expression totalNumberOfDocuments n keywordOffset fl = do {
     tfBoostProduct \<leftarrow> getKeywordTfBoostProduct halfToFloat fl keywordOffset;
     let textRelevance = computeTextRelevance tfBoostProduct (computeIdf totalNumberOfDocuments n);
     Some (expression (real (numberOfKeywords fl)) (recordBoost fl) textRelevance)
   }"

type_synonym scoring = "(u16 \<Rightarrow> real) \<times> (real \<Rightarrow> u16) \<times> (real \<Rightarrow> real \<Rightarrow> real \<Rightarrow> real)"

text \<open>One record: deleted ones are skipped, the new score of the others is stored in the forward list.\<close>

definition mergeElement ::
  "scoring \<Rightarrow> u32 \<Rightarrow> nat \<Rightarrow> nat \<Rightarrow> bool \<Rightarrow> u32 \<Rightarrow> ForwardListPtr list \<Rightarrow> (InvertedListIdAndScore option \<times> ForwardListPtr list) option" where
  "mergeElement scoring keywordId totalNumberOfDocuments n appended rid readView =
    (case scoring of (halfToFloat, floatToHalf, expression) \<Rightarrow>
     case getForwardList readView rid of (fl, valid) \<Rightarrow>
       if \<not> valid then Some (None, readView)
       else do {
         fl \<leftarrow> fl;
         keywordOffset \<leftarrow> mergedKeywordOffset keywordId appended fl;
         score \<leftarrow> mergedScore halfToFloat expression totalNumberOfDocuments n keywordOffset fl;
         fl \<leftarrow> setKeywordRecordStaticScore floatToHalf keywordOffset score fl;
         Some (Some \<lparr>il_recordId = rid, il_score = score\<rparr>, readView[unat rid := (Some fl, True)])
       })"

text \<open>The elements, and how many of them readers see.\<close>

fun mergeElements ::
  "scoring \<Rightarrow> u32 \<Rightarrow> nat \<Rightarrow> nat \<Rightarrow> bool \<Rightarrow> nat \<Rightarrow> nat list \<Rightarrow> u32 cowvector \<Rightarrow> ForwardListPtr list \<Rightarrow>
    (InvertedListIdAndScore list \<times> nat \<times> ForwardListPtr list) option" where
  "mergeElements scoring keywordId N n isNew readViewListSize [] s readView = Some ([], 0, readView)"
| "mergeElements scoring keywordId N n isNew readViewListSize (i # is) s readView = do {
     rid \<leftarrow> getElement (m_writeView s) i s;
     (e, readView) \<leftarrow> mergeElement scoring keywordId N n (isNew \<or> readViewListSize \<le> i) rid readView;
     (es, valid, readView) \<leftarrow> mergeElements scoring keywordId N n isNew readViewListSize is s readView;
     Some (case e of
       None \<Rightarrow> (es, valid, readView)
     | Some e \<Rightarrow> (e # es, if \<not> isNew \<and> i < readViewListSize then valid + 1 else valid, readView))
   }"

definition sortAndMerge ::
  "scoring \<Rightarrow> (nat \<Rightarrow> u32) \<Rightarrow> u64 \<Rightarrow> u32 \<Rightarrow> nat \<Rightarrow> ForwardListPtr list \<Rightarrow> u32 cowvector \<Rightarrow>
    (nat \<times> ForwardListPtr list \<times> u32 cowvector) option" where
  "sortAndMerge scoring mem g keywordId totalNumberOfDocuments forwardListDirectoryReadView s = do {
     let (readView, s) = getReadView s;
     r \<leftarrow> views s readView;
     w \<leftarrow> views s (m_writeView s);
     let readViewListSize = view_size (m_sizeAndFlags r);
     let writeViewListSize = view_size (m_sizeAndFlags w);
     let isNewInvertedList = (readView = m_writeView s);
     if readViewListSize \<le> writeViewListSize then do {
       (es, validRecordCountFromReadView, forwardListDirectoryReadView) \<leftarrow>
         mergeElements scoring keywordId totalNumberOfDocuments writeViewListSize isNewInvertedList readViewListSize
           [0..<writeViewListSize] s forwardListDirectoryReadView;
       let appended = std_sort InvertedListElementGreaterThan (drop validRecordCountFromReadView es);
       s \<leftarrow> (if isNewInvertedList then commit g s
            else do {
              s \<leftarrow> (if m_array w = m_array r then forceCreateCopy mem s else Some s);
              s \<leftarrow> setWriteSize (length es) s;
              s \<leftarrow> assignFrom mem 0 (map il_recordId
                (inplace_merge InvertedListElementGreaterThan (take validRecordCountFromReadView es) appended)) s;
              merge False g s
            });
       w \<leftarrow> views s (m_writeView s);
       s \<leftarrow> releaseView readView s;
       Some (view_size (m_sizeAndFlags w), forwardListDirectoryReadView, s)
     }
     else None
   }"

section \<open>The first commit sorts\<close>

lemma greater_key: "InvertedListElementGreaterThan a b \<longleftrightarrow> elementKey b < elementKey a"
  by (auto simp: InvertedListElementGreaterThan_def elementKey_def less_RankKey_def compareRecordsGreaterThan_def
      compareRecordsLessThan_def)

lemma std_sort_descending:
  fixes key :: "'a \<Rightarrow> 'k::linorder"
  assumes cmp: "\<And>a b. cmp a b \<longleftrightarrow> key b < key a"
  shows "sorted_wrt (\<lambda>a b. key b \<le> key a) (std_sort cmp xs)"
proof (induction xs)
  case (Cons x xs)
  have "sorted_wrt (\<lambda>a b. key b \<le> key a) ys \<Longrightarrow> sorted_wrt (\<lambda>a b. key b \<le> key a) (insertBy cmp x ys)" for ys
    by (induction ys) (auto simp: cmp not_less)
  with Cons show ?case by (simp add: std_sort_def)
qed (simp add: std_sort_def)

text \<open>The records of a list by their static scores.\<close>

definition bestFirst :: "(u32 \<Rightarrow> real) \<Rightarrow> u32 list \<Rightarrow> u32 list" where
  "bestFirst score rids =
    map il_recordId (std_sort InvertedListElementGreaterThan (map (\<lambda>rid. \<lparr>il_recordId = rid, il_score = score rid\<rparr>) rids))"

lemma scored_elements:
  assumes "mset es = mset (map (\<lambda>rid. \<lparr>il_recordId = rid, il_score = score rid\<rparr>) rids)"
  shows "mset (map il_recordId es) = mset rids"
    "map elementKey es = map (\<lambda>rid. RankKey (score rid) rid) (map il_recordId es)"
proof -
  have "set es = set (map (\<lambda>rid. \<lparr>il_recordId = rid, il_score = score rid\<rparr>) rids)" by (metis assms set_mset_mset)
  then show "map elementKey es = map (\<lambda>rid. RankKey (score rid) rid) (map il_recordId es)" by (auto simp: elementKey_def)
  have "mset (map il_recordId es) = image_mset il_recordId (mset es)" by simp
  also have "\<dots> = mset rids" unfolding assms by (simp flip: mset_map add: comp_def)
  finally show "mset (map il_recordId es) = mset rids" .
qed

lemma bestFirst_sorts:
  "mset (bestFirst score rids) = mset rids"
  "sorted_wrt (\<ge>) (map (\<lambda>rid. RankKey (score rid) rid) (bestFirst score rids))"
proof -
  let ?es = "std_sort InvertedListElementGreaterThan (map (\<lambda>rid. \<lparr>il_recordId = rid, il_score = score rid\<rparr>) rids)"
  have m: "mset ?es = mset (map (\<lambda>rid. \<lparr>il_recordId = rid, il_score = score rid\<rparr>) rids)" by (rule mset_std_sort)
  show "mset (bestFirst score rids) = mset rids" using scored_elements(1) [OF m] by (simp only: bestFirst_def)
  have "sorted_wrt (\<ge>) (map elementKey ?es)" unfolding sorted_wrt_map by (rule std_sort_descending [OF greater_key])
  then show "sorted_wrt (\<ge>) (map (\<lambda>rid. RankKey (score rid) rid) (bestFirst score rids))"
    unfolding bestFirst_def scored_elements(2) [OF m] .
qed

lemma scoreElement_represents:
  assumes "represents halfToFloat readView contents"
    and ok: "\<And>ids attrss sc. contents rid = Some (ids, attrss, sc) \<Longrightarrow> keywordId \<in> set ids"
  shows "scoreElement halfToFloat readView keywordId rid
    = Some \<lparr>il_recordId = rid, il_score = keywordScore contents keywordId rid\<rparr>"
proof (cases "contents rid")
  case None
  then obtain fl where "getForwardList readView rid = (fl, False)"
    using representsD(1) [OF assms(1) None] by (cases "getForwardList readView rid") auto
  then show ?thesis using None
    by (simp add: scoreElement_def ForwardIndex_getKeywordOffset_def getTermRecordStaticScore_def keywordScore_def)
next
  case (Some c)
  obtain ids attrss sc where c: "contents rid = Some (ids, attrss, sc)" using Some by (cases c) auto
  obtain fl where fl: "getForwardList readView rid = (Some fl, True)" "holds_keywords halfToFloat ids attrss sc fl" "distinct ids"
      "length ids < 2 ^ 32 - 1"
    using representsD(2) [OF assms(1) c] by blast
  have ids: "getKeywordIds fl = Some ids" "sorted ids" using fl(2) by (auto simp: holds_keywords_def)
  let ?k = "lowerBound ids keywordId"
  note k = lowerBound_hit [OF ids(2) ok [OF c]]
  have u: "unat (of_nat ?k :: u32) = ?k" using k(1) fl(4) by (simp add: unat_of_nat)
  have "keywordScore contents keywordId rid = sc ?k"
    by (rule keywordScore_unique [where contents = contents, OF c k]) (use k fl(3) nth_eq_iff_index_eq in metis)
  then show ?thesis using fl(1,2) ids(1) k(1) u
    by (simp add: scoreElement_def ForwardIndex_getKeywordOffset_def getTermRecordStaticScore_def getKeywordOffset_def holds_keywords_def)
qed

lemma scoreElements_all:
  assumes "views s (m_writeView s) = Some w" "arrays s (m_array w) = Some ys" "n \<le> length ys"
    "\<And>rid. rid \<in> set (take n ys) \<Longrightarrow> scoreElement halfToFloat readView keywordId rid = Some (f rid)" "j \<le> n"
  shows "scoreElements halfToFloat readView keywordId [j..<n] s = Some (map f (drop j (take n ys)))"
  using assms(5)
proof (induction "n - j" arbitrary: j)
  case (Suc m)
  then have j: "j < n" "m = n - Suc j" "Suc j \<le> n" by simp_all
  have d: "drop j (take n ys) = ys ! j # drop (Suc j) (take n ys)" using j assms(3) by (simp add: Cons_nth_drop_Suc [symmetric])
  have "ys ! j \<in> set (take n ys)" using j assms(3) by (auto simp: in_set_conv_nth intro!: exI [of _ j])
  then show ?case using Suc.hyps(1) [OF j(2,3)] assms j(1)
    by (simp add: upt_conv_Cons getElement_def nth_opt_def d)
qed simp

lemma fresh_assign:
  assumes "fresh s w ys" "i < view_size (m_sizeAndFlags w)"
  shows "\<exists>s'. cow_assign mem i x s = Some s' \<and> fresh s' w (ys[i := x])"
proof -
  note d = assms(1) [unfolded fresh_def]
  have b: "isWriteView (m_sizeAndFlags w)" using d isWriteView_bit by simp
  let ?s = "s\<lparr>views := (views s)(0 \<mapsto> w), arrays := (arrays s)(m_array w \<mapsto> ys[i := x])\<rparr>"
  have "cow_assign mem i x s = Some ?s" using d b assms(2) by (simp add: cow_assign_def cow_at_def Let_def)
  then show ?thesis using d by (intro exI [of _ ?s]) (simp add: fresh_def)
qed

lemma fresh_assignFrom:
  assumes "fresh s w ys" "i + length xs \<le> view_size (m_sizeAndFlags w)"
  shows "\<exists>s'. assignFrom mem i xs s = Some s' \<and> fresh s' w (take i ys @ xs @ drop (i + length xs) ys)"
  using assms
proof (induction xs arbitrary: i s ys)
  case (Cons x xs)
  have l: "i < length ys" using Cons.prems by (simp add: fresh_def)
  obtain s1 where s1: "cow_assign mem i x s = Some s1" "fresh s1 w (ys[i := x])"
    using fresh_assign [OF Cons.prems(1), of i mem x] Cons.prems(2) by auto
  obtain s2 where s2: "assignFrom mem (i + 1) xs s1 = Some s2"
      "fresh s2 w (take (i + 1) (ys[i := x]) @ xs @ drop (i + 1 + length xs) (ys[i := x]))"
    using Cons.IH [OF s1(2), of "i + 1"] Cons.prems(2) by auto
  have "take (i + 1) (ys[i := x]) @ xs @ drop (i + 1 + length xs) (ys[i := x]) = take i ys @ (x # xs) @ drop (i + length (x # xs)) ys"
    using l by (simp add: take_Suc_conv_app_nth drop_update_cancel)
  then show ?case using s1(1) s2 by (intro exI [of _ s2]) simp
qed simp

text \<open>A list as the bulk load builds it: the records in the order of their addition, then the commit.\<close>

definition builtList ::
  "(u16 \<Rightarrow> real) \<Rightarrow> (nat \<Rightarrow> u32) \<Rightarrow> u64 \<Rightarrow> nat \<Rightarrow> u32 \<Rightarrow> ForwardListPtr list \<Rightarrow> u32 list \<Rightarrow> u32 cowvector option" where
  "builtList halfToFloat mem g capacity keywordId readView rids = do {
     s \<leftarrow> pushAll mem rids (cow_new mem g capacity);
     sortAndMergeBeforeCommit halfToFloat mem g keywordId readView True s
   }"

lemma builtList_ok:
  assumes "represents halfToFloat readView contents" "length rids < 2 ^ 30"
    and ok: "\<And>rid ids attrss sc. rid \<in> set rids \<Longrightarrow> contents rid = Some (ids, attrss, sc) \<Longrightarrow> keywordId \<in> set ids"
  shows "\<exists>s. builtList halfToFloat mem g capacity keywordId readView rids = Some s \<and> unmanaged_inv s \<and> readers s = (\<lambda>_. 0)
    \<and> snapshot s (m_readView s) = Some (bestFirst (keywordScore contents keywordId) rids)
    \<and> snapshot s (m_writeView s) = Some (bestFirst (keywordScore contents keywordId) rids)"
proof -
  obtain w ys where 1: "fresh (cow_new mem g capacity) w ys" "view_size (m_sizeAndFlags w) = 0" using fresh_new by blast
  obtain s w ys where 2: "pushAll mem rids (cow_new mem g capacity) = Some s" "fresh s w ys"
      "take (view_size (m_sizeAndFlags w)) ys = rids"
    using pushAll_fresh [OF 1(1), of rids mem] 1(2) assms(2) by auto
  let ?n = "view_size (m_sizeAndFlags w)"
  let ?f = "\<lambda>rid. \<lparr>il_recordId = rid, il_score = keywordScore contents keywordId rid\<rparr>"
  let ?rids = "bestFirst (keywordScore contents keywordId) rids"
  note d = 2(2) [unfolded fresh_def]
  have n: "?n = length rids" using 2(3) d by auto
  have es: "scoreElements halfToFloat readView keywordId [0..<?n] s = Some (map ?f rids)"
    using scoreElements_all [of s w ys ?n halfToFloat readView keywordId ?f 0] scoreElement_represents [OF assms(1) ok] d 2(3) by simp
  have l: "length ?rids = length rids" using bestFirst_sorts(1) by (metis size_mset)
  obtain s1 where s1: "assignFrom mem 0 ?rids s = Some s1" "fresh s1 w (?rids @ drop ?n ys)"
    using fresh_assignFrom [OF 2(2), of 0 ?rids mem] n l by auto
  obtain s2 where s2: "commit g s1 = Some s2" "cow_inv s2" "readers s2 = (\<lambda>_. 0)" "readViewGenerations s2 = [[]]"
      "snapshot s2 (m_readView s2) = Some ?rids" "snapshot s2 (m_writeView s2) = Some ?rids"
    using commit_ok [OF s1(2), of g] n l by auto
  have "sortAndMergeBeforeCommit halfToFloat mem g keywordId readView True s = Some s2"
    using d es s1(1) s2(1) by (simp add: sortAndMergeBeforeCommit_def bestFirst_def)
  then show ?thesis using 2(1) s2 cow_unmanaged [OF s2(2,4)] by (simp add: builtList_def)
qed

text \<open>What a list is built from: the records that have the keyword, and possibly records deleted since.\<close>

definition collected :: "(u32 \<Rightarrow> record_content option) \<Rightarrow> u32 \<Rightarrow> u32 list \<Rightarrow> bool" where
  "collected contents keywordId rids \<longleftrightarrow> length rids < 2 ^ 30
    \<and> (\<forall>rid. case contents rid of None \<Rightarrow> True | Some (ids, attrss, sc) \<Rightarrow> rid \<in> set rids \<longleftrightarrow> keywordId \<in> set ids)"

text \<open>
  C6. The index that a bulk load commits is one that an exact search may rely on: from the records with a keyword, in
  any order, the commit returns and publishes the same records ordered by their static scores, ties by record id,
  and a term of that keyword then meets the conditions of \<open>exact_topk_search\<close>.
\<close>

theorem committed_list_exact:
  assumes "represents halfToFloat readView contents" "collected contents (minId node) rids"
    "filterOk positionIndexType (attributesToFilter t)" "termType t = TERM_TYPE_COMPLETE" "boost t = 1" "isTerminalNode node"
    "unat (invertedListOffset node) < length keywordIds" "keywordIds ! unat (invertedListOffset node) = minId node"
  shows "\<exists>s ys. builtList halfToFloat mem g capacity (minId node) readView rids = Some s \<and> snapshot s (m_readView s) = Some ys
    \<and> mset ys = mset rids
    \<and> sorted_wrt (\<ge>) (map (\<lambda>rid. RankKey (keywordScore contents (minId node) rid) rid) ys)
    \<and> (view (invertedListOffset node) = ys \<longrightarrow> exactTerm contents positionIndexType keywordIds view penalty (t, node))"
proof -
  let ?score = "keywordScore contents (minId node)" and ?l = "invertedListOffset node"
  let ?ys = "bestFirst ?score rids"
  have c: "rid \<in> set rids \<longleftrightarrow> minId node \<in> set ids" if "contents rid = Some (ids, attrss, sc)" for rid ids attrss sc
    using assms(2) that by (auto simp: collected_def dest: spec [of _ rid])
  obtain s where s: "builtList halfToFloat mem g capacity (minId node) readView rids = Some s" "snapshot s (m_readView s) = Some ?ys"
    using builtList_ok [OF assms(1), of rids "minId node" mem g capacity] assms(2) c by (auto simp: collected_def)
  note m = bestFirst_sorts [of ?score rids]
  have set: "set ?ys = set rids" using m(1) by (metis set_mset_mset)
  have "exactTerm contents positionIndexType keywordIds view penalty (t, node)" if v: "view ?l = ?ys"
  proof -
    let ?match = "hasKeyword contents {minId node} (attributesToFilter t) (filterAttrOperation t)"
    have "listOk contents keywordIds ?l (view ?l)" using assms(7,8) c set by (auto simp: listOk_def v)
    moreover have "rid \<in> set (view ?l)" if "?match rid" for rid
      using that c unfolding v set by (auto simp: hasKeyword_def) (metis nth_mem)
    moreover have "termLeafKeys contents keywordIds view t penalty (node, node, 0) = map (\<lambda>rid. RankKey (?score rid) rid) (filter ?match ?ys)"
      using assms(4,5,8) by (simp add: termLeafKeys_def listScore_def computeTermRecordRuntimeScore_def Let_def v)
    moreover have "sorted_wrt (\<ge>) (map (\<lambda>rid. RankKey (?score rid) rid) (filter ?match ?ys))"
      using m(2) unfolding sorted_wrt_map by (rule sorted_wrt_filter)
    ultimately show ?thesis using assms(3-6,8) by (simp add: exactTerm_def)
  qed
  then show ?thesis using s m by blast
qed

theorem committed_list_exact_witness:
  "\<exists>s. builtList (\<lambda>_. 1) (\<lambda>_. 0) 0 2 7 sampleView [1, 0] = Some s \<and> snapshot s (m_readView s) \<noteq> None"
proof -
  let ?t = "sampleFilter\<lparr>termType := TERM_TYPE_COMPLETE\<rparr>" and ?node = "(sampleNode 7 7)\<lparr>invertedListOffset := 0\<rparr>"
  have c: "collected sampleContents (minId ?node) [1, 0]" by (auto simp: collected_def sampleContents_def sampleNode_def)
  have t: "filterOk POSITION_INDEX_FULL (attributesToFilter ?t)" "termType ?t = TERM_TYPE_COMPLETE" "boost ?t = 1" "isTerminalNode ?node"
    "unat (invertedListOffset ?node) < length [7 :: u32]" "[7 :: u32] ! unat (invertedListOffset ?node) = minId ?node"
    using sampleQuery_exact [of "(?t, ?node)"]
    by (auto simp: exactTerm_def sampleQuery_def Let_def sampleNode_def)
  have "minId ?node = 7" by (simp add: sampleNode_def)
  then show ?thesis using committed_list_exact [OF sampleView_represents c t, of "\<lambda>_. 0" 0 2 "\<lambda>_. []" 1] by auto
qed

section \<open>Scores in the forward list\<close>

lemma nth_opt_copyTo:
  assumes "copyTo v off buf = Some buf'"
  shows "i < off \<Longrightarrow> nth_opt buf' i = nth_opt buf i" "i < length v \<Longrightarrow> nth_opt buf' (off + i) = Some (v ! i)"
    "length buf' = length buf"
  using assms by (auto simp: copyTo_def nth_opt_def nth_append split: if_splits)

lemma readU16_bytes: "(ucast (ucast v :: u8) OR push_bit 8 (ucast (ucast (drop_bit 8 v) :: u8)) :: u16) = v"
proof (rule bit_word_eqI)
  fix n assume "n < LENGTH(16)"
  then consider "n < 8" | "8 \<le> n" "n < 16" by force
  then show "bit (ucast (ucast v :: u8) OR push_bit 8 (ucast (ucast (drop_bit 8 v) :: u8)) :: u16) n = bit v n"
    by cases (auto simp: bit_or_iff bit_push_bit_iff bit_ucast_iff bit_drop_bit_eq)
qed

text \<open>A record that is ready for a merge: deleted, or with the keyword and with space for its scores.\<close>

definition forwardReady :: "u32 \<Rightarrow> ForwardList \<Rightarrow> u32 list \<Rightarrow> bool" where
  "forwardReady keywordId fl ids \<longleftrightarrow> getKeywordIds fl = Some ids \<and> sorted ids \<and> keywordId \<in> set ids
    \<and> numberOfKeywords fl = length ids \<and> 8 * length ids \<le> length (fl_data fl) \<and> length ids \<le> KEYWORD_THRESHOLD"

definition liveRecord :: "ForwardListPtr list \<Rightarrow> u32 \<Rightarrow> bool" where
  "liveRecord readView rid = snd (getForwardList readView rid)"

definition mergeReady :: "u32 \<Rightarrow> ForwardListPtr list \<Rightarrow> u32 \<Rightarrow> bool" where
  "mergeReady keywordId readView rid \<longleftrightarrow>
    (liveRecord readView rid \<longrightarrow> (\<exists>fl ids. getForwardList readView rid = (Some fl, True) \<and> forwardReady keywordId fl ids))"

definition newScore :: "scoring \<Rightarrow> u32 \<Rightarrow> nat \<Rightarrow> nat \<Rightarrow> ForwardListPtr list \<Rightarrow> u32 \<Rightarrow> real" where
  "newScore scoring keywordId N n readView rid = (case scoring of (halfToFloat, floatToHalf, expression) \<Rightarrow>
    case fst (getForwardList readView rid) of None \<Rightarrow> 0 | Some fl \<Rightarrow>
    case getKeywordOffset fl keywordId of None \<Rightarrow> 0 | Some off \<Rightarrow>
    case mergedScore halfToFloat expression N n off fl of None \<Rightarrow> 0 | Some x \<Rightarrow> x)"

lemma setKeywordRecordStaticScore_ready:
  assumes r: "forwardReady keywordId fl ids" and k: "k < length ids"
  shows "\<exists>fl'. setKeywordRecordStaticScore floatToHalf k score fl = Some fl' \<and> forwardReady keywordId fl' ids
    \<and> recordBoost fl' = recordBoost fl \<and> (\<forall>j < length ids. getKeywordTfBoostProduct h fl' j = getKeywordTfBoostProduct h fl j)
    \<and> getKeywordRecordStaticScore h fl' k = Some (h (floatToHalf score))"
proof -
  note d = r [unfolded forwardReady_def]
  let ?off = "6 * length ids + 2 * k" and ?v = "u16Bytes (floatToHalf score)"
  have p: "getKeywordRecordStaticScoresPointer fl + 2 * k = ?off" using d by (simp add: layout_defs)
  obtain buf where buf: "copyTo ?v ?off (fl_data fl) = Some buf"
    using d k by (simp add: copyTo_def u16Bytes_def)
  note c = nth_opt_copyTo [OF buf]
  let ?fl = "fl\<lparr>fl_data := buf\<rparr>"
  have "getKeywordId ?fl i = getKeywordId fl i" if "i < length ids" for i
    using c(1) that by (simp add: getKeywordId_def readU32_def)
  then have "readKeywordIds ?fl is = readKeywordIds fl is" if "\<forall>i \<in> set is. i < length ids" for "is"
    using that by (induction "is") (auto split: bind_splits)
  from this [of "[0..<length ids]"] have "getKeywordIds ?fl = Some ids" using d by (auto simp: getKeywordIds_def)
  then have "forwardReady keywordId ?fl ids" using d c(3) by (simp add: forwardReady_def)
  moreover have "getKeywordTfBoostProduct h ?fl j = getKeywordTfBoostProduct h fl j" if "j < length ids" for j
    using c(1) that d by (simp add: getKeywordTfBoostProduct_def readU16_def layout_defs)
  moreover have "getKeywordRecordStaticScore h ?fl k = Some (h (floatToHalf score))"
  proof -
    have "nth_opt buf ?off = Some (ucast (floatToHalf score))" "nth_opt buf (?off + 1) = Some (ucast (drop_bit 8 (floatToHalf score)))"
      using c(2) [of 0] c(2) [of 1] by (simp_all add: u16Bytes_def)
    then show ?thesis using p readU16_bytes by (simp add: getKeywordRecordStaticScore_def readU16_def layout_defs)
  qed
  ultimately show ?thesis using buf p d k by (intro exI [of _ ?fl]) (simp add: setKeywordRecordStaticScore_def)
qed

section \<open>The loop of the merge\<close>

text \<open>What the scores that a merge stores leave as it was.\<close>

definition sameForMerge :: "scoring \<Rightarrow> u32 \<Rightarrow> nat \<Rightarrow> nat \<Rightarrow> ForwardListPtr list \<Rightarrow> ForwardListPtr list \<Rightarrow> bool" where
  "sameForMerge scoring keywordId N n readView readView' \<longleftrightarrow> (\<forall>rid. liveRecord readView' rid = liveRecord readView rid
    \<and> (mergeReady keywordId readView rid \<longrightarrow> mergeReady keywordId readView' rid
      \<and> newScore scoring keywordId N n readView' rid = newScore scoring keywordId N n readView rid))"

definition element :: "(u32 \<Rightarrow> real) \<Rightarrow> u32 \<Rightarrow> InvertedListIdAndScore" where
  "element score rid = \<lparr>il_recordId = rid, il_score = score rid\<rparr>"

text \<open>The score that readers find afterwards, rounded to half precision.\<close>

definition storedScore :: "scoring \<Rightarrow> u32 \<Rightarrow> nat \<Rightarrow> nat \<Rightarrow> ForwardListPtr list \<Rightarrow> u32 \<Rightarrow> real" where
  "storedScore scoring keywordId N n readView rid =
    (case scoring of (halfToFloat, floatToHalf, expression) \<Rightarrow> halfToFloat (floatToHalf (newScore scoring keywordId N n readView rid)))"

lemma mergeElement_live:
  assumes ready: "mergeReady keywordId readView rid" and live: "liveRecord readView rid"
  shows "\<exists>readView'. mergeElement scoring keywordId N n appended rid readView
      = Some (Some (element (newScore scoring keywordId N n readView) rid), readView')
    \<and> sameForMerge scoring keywordId N n readView readView'
    \<and> scoreElement (fst scoring) readView' keywordId rid = Some (element (storedScore scoring keywordId N n readView) rid)
    \<and> (\<forall>r. r \<noteq> rid \<longrightarrow> getForwardList readView' r = getForwardList readView r)"
proof -
  obtain h f e where sc: "scoring = (h, f, e)" by (cases scoring)
  obtain fl ids where fl: "getForwardList readView rid = (Some fl, True)" "forwardReady keywordId fl ids"
    using ready live by (auto simp: mergeReady_def)
  note d = fl(2) [unfolded forwardReady_def]
  let ?k = "lowerBound ids keywordId"
  have k: "?k < length ids" using d lowerBound_hit by blast
  have off: "getKeywordOffset fl keywordId = Some ?k" using d by (simp add: getKeywordOffset_def)
  have range: "unat rid < length readView" using getForwardList_live [of readView rid] fl(1) by simp
  have "getKeywordTfBoostProduct h fl ?k \<noteq> None"
    using d k by (simp add: getKeywordTfBoostProduct_def readU16_def nth_opt_def getKeywordIdsSizeInBytes_def)
  then obtain x where x: "mergedScore h e N n ?k fl = Some x" by (auto simp: mergedScore_def)
  obtain fl' where fl': "setKeywordRecordStaticScore f ?k x fl = Some fl'" "forwardReady keywordId fl' ids"
      "recordBoost fl' = recordBoost fl" "\<forall>j < length ids. getKeywordTfBoostProduct h fl' j = getKeywordTfBoostProduct h fl j"
      "getKeywordRecordStaticScore h fl' ?k = Some (h (f x))"
    using setKeywordRecordStaticScore_ready [OF fl(2) k, of f x h] by blast
  note d' = fl'(2) [unfolded forwardReady_def]
  let ?view = "readView[unat rid := (Some fl', True)]"
  have new: "getForwardList ?view rid = (Some fl', True)" using range by (simp add: getForwardList_def)
  have old: "getForwardList ?view r = getForwardList readView r" if "r \<noteq> rid" for r
  proof -
    have "unat rid \<noteq> unat r" using that by (simp add: word_unat_eq_iff)
    then show ?thesis by (simp add: getForwardList_def)
  qed
  have score: "newScore scoring keywordId N n readView rid = x" using fl(1) off x by (simp add: newScore_def sc)
  have off': "getKeywordOffset fl' keywordId = Some ?k" using d' by (simp add: getKeywordOffset_def)
  have "mergedScore h e N n ?k fl' = Some x" using x fl'(3,4) k d d' by (simp add: mergedScore_def)
  then have score': "newScore scoring keywordId N n ?view rid = x" using new off' by (simp add: newScore_def sc)
  have same: "sameForMerge scoring keywordId N n readView ?view"
    unfolding sameForMerge_def
  proof (intro allI conjI impI)
    fix r
    show "liveRecord ?view r = liveRecord readView r" using old [of r] new live by (cases "r = rid") (simp_all add: liveRecord_def)
    show "mergeReady keywordId ?view r" if "mergeReady keywordId readView r"
      using that old [of r] new fl'(2) by (cases "r = rid") (auto simp: mergeReady_def liveRecord_def)
    show "newScore scoring keywordId N n ?view r = newScore scoring keywordId N n readView r"
      using old [of r] score score' by (cases "r = rid") (simp_all add: newScore_def)
  qed
  have "?k < 2 ^ 32" using k d by (simp add: KEYWORD_THRESHOLD_def)
  then have "unat (of_nat ?k :: u32) = ?k" by (simp add: unat_of_nat)
  then have "scoreElement h ?view keywordId rid = Some (element (storedScore scoring keywordId N n readView) rid)"
    using new off' fl'(5) score
    by (simp add: scoreElement_def ForwardIndex_getKeywordOffset_def getTermRecordStaticScore_def element_def storedScore_def sc)
  moreover have "mergeElement scoring keywordId N n appended rid readView = Some (Some (element (newScore scoring keywordId N n readView) rid), ?view)"
    using fl(1) off k d x fl'(1) score by (simp add: mergeElement_def sc mergedKeywordOffset_def element_def)
  ultimately show ?thesis using same old sc by (intro exI [of _ ?view]) simp
qed

lemma mergeElement_deleted:
  assumes "\<not> liveRecord readView rid"
  shows "mergeElement scoring keywordId N n appended rid readView = Some (None, readView)"
proof -
  obtain fl where "getForwardList readView rid = (fl, False)" using assms by (cases "getForwardList readView rid") (auto simp: liveRecord_def)
  then show ?thesis by (cases scoring) (simp add: mergeElement_def)
qed

lemma sameForMerge_trans:
  "sameForMerge scoring keywordId N n v1 v2 \<Longrightarrow> sameForMerge scoring keywordId N n v2 v3 \<Longrightarrow> sameForMerge scoring keywordId N n v1 v3"
  by (simp add: sameForMerge_def)

lemma mergeElements_spec:
  assumes "snapshot s (m_writeView s) = Some zs" "set is \<subseteq> {..<length zs}"
    "\<forall>i \<in> set is. mergeReady keywordId readView (zs ! i)"
  shows "\<exists>readView'. mergeElements scoring keywordId N n False old is s readView
      = Some (map (element (newScore scoring keywordId N n readView)) (filter (liveRecord readView) (map ((!) zs) is)),
          length (filter (\<lambda>i. liveRecord readView (zs ! i) \<and> i < old) is), readView')
    \<and> sameForMerge scoring keywordId N n readView readView'
    \<and> (\<forall>i \<in> set is. liveRecord readView (zs ! i) \<longrightarrow>
        scoreElement (fst scoring) readView' keywordId (zs ! i) = Some (element (storedScore scoring keywordId N n readView) (zs ! i)))
    \<and> (\<forall>r. r \<notin> (!) zs ` set is \<longrightarrow> getForwardList readView' r = getForwardList readView r)"
  using assms(2,3)
proof (induction "is" arbitrary: readView)
  case Nil
  then show ?case by (simp add: sameForMerge_def)
next
  case (Cons i "is")
  obtain w ys where w: "views s (m_writeView s) = Some w" "arrays s (m_array w) = Some ys" "zs = take (view_size (m_sizeAndFlags w)) ys"
    using assms(1) by (auto simp: snapshot_def split: bind_splits)
  have get: "getElement (m_writeView s) i s = Some (zs ! i)" using w Cons.prems(1) by (simp add: getElement_def nth_opt_def)
  show ?case
  proof (cases "liveRecord readView (zs ! i)")
    case False
    then show ?thesis using Cons.IH [of readView] Cons.prems get mergeElement_deleted [OF False, of scoring keywordId N n "old \<le> i"]
      by fastforce
  next
    case True
    have ready: "mergeReady keywordId readView (zs ! i)" using Cons.prems(2) by simp
    obtain v1 where v1: "mergeElement scoring keywordId N n (old \<le> i) (zs ! i) readView
          = Some (Some (element (newScore scoring keywordId N n readView) (zs ! i)), v1)"
        "sameForMerge scoring keywordId N n readView v1"
        "scoreElement (fst scoring) v1 keywordId (zs ! i) = Some (element (storedScore scoring keywordId N n readView) (zs ! i))"
        "\<forall>r. r \<noteq> zs ! i \<longrightarrow> getForwardList v1 r = getForwardList readView r"
      using mergeElement_live [OF ready True, of scoring N n "old \<le> i"] by blast
    have live: "liveRecord v1 r = liveRecord readView r" for r using v1(2) by (simp add: sameForMerge_def)
    have same: "mergeReady keywordId v1 (zs ! j)" "newScore scoring keywordId N n v1 (zs ! j) = newScore scoring keywordId N n readView (zs ! j)"
      if "j \<in> set is" for j using v1(2) Cons.prems(2) that by (auto simp: sameForMerge_def)
    have stored: "storedScore scoring keywordId N n v1 (zs ! j) = storedScore scoring keywordId N n readView (zs ! j)" if "j \<in> set is" for j
      using same(2) [OF that] by (simp add: storedScore_def)
    obtain v2 where v2: "mergeElements scoring keywordId N n False old is s v1
        = Some (map (element (newScore scoring keywordId N n v1)) (filter (liveRecord v1) (map ((!) zs) is)),
            length (filter (\<lambda>i. liveRecord v1 (zs ! i) \<and> i < old) is), v2)"
        "sameForMerge scoring keywordId N n v1 v2"
        "\<forall>j \<in> set is. liveRecord v1 (zs ! j) \<longrightarrow>
          scoreElement (fst scoring) v2 keywordId (zs ! j) = Some (element (storedScore scoring keywordId N n v1) (zs ! j))"
        "\<forall>r. r \<notin> (!) zs ` set is \<longrightarrow> getForwardList v2 r = getForwardList v1 r"
      using Cons.IH [of v1] Cons.prems(1) same(1) by auto
    have es: "map (element (newScore scoring keywordId N n v1)) (filter (liveRecord v1) (map ((!) zs) is))
        = map (element (newScore scoring keywordId N n readView)) (filter (liveRecord readView) (map ((!) zs) is))"
      unfolding ext [of "liveRecord v1" "liveRecord readView", OF live]
      by (rule map_cong [OF refl]) (use same(2) in \<open>auto simp: element_def\<close>)
    have "scoreElement (fst scoring) v2 keywordId (zs ! i) = Some (element (storedScore scoring keywordId N n readView) (zs ! i))"
    proof (cases "zs ! i \<in> (!) zs ` set is")
      case in_tail: True
      then show ?thesis using v2(3) stored live True by (auto simp: element_def)
    next
      case False
      then show ?thesis using v1(3) v2(4)
        by (simp add: scoreElement_def ForwardIndex_getKeywordOffset_def getTermRecordStaticScore_def)
    qed
    moreover have "sameForMerge scoring keywordId N n readView v2" using sameForMerge_trans [OF v1(2) v2(2)] .
    ultimately show ?thesis using get v1(1,4) v2 True es stored
      by (intro exI [of _ v2]) (simp add: live element_def)
  qed
qed

section \<open>What a merge publishes\<close>

lemma mset_inplace_merge: "mset (inplace_merge cmp xs ys) = mset xs + mset ys"
  by (induction cmp xs ys rule: inplace_merge.induct) auto

lemma set_inplace_merge: "set (inplace_merge cmp xs ys) = set xs \<union> set ys"
  by (metis mset_inplace_merge set_mset_mset set_mset_union)

lemma inplace_merge_Nil [simp]: "inplace_merge cmp xs [] = xs"
  by (cases xs) simp_all

lemma inplace_merge_descending:
  fixes key :: "'a \<Rightarrow> 'k::linorder"
  assumes "\<And>a b. cmp a b \<longleftrightarrow> key b < key a"
    and "sorted_wrt (\<lambda>a b. key b \<le> key a) xs" "sorted_wrt (\<lambda>a b. key b \<le> key a) ys"
  shows "sorted_wrt (\<lambda>a b. key b \<le> key a) (inplace_merge cmp xs ys)"
  using assms
proof (induction cmp xs ys rule: inplace_merge.induct)
  case (3 cmp x xs y ys)
  show ?case
  proof (cases "cmp y x")
    case True
    then have "key z \<le> key y" if "z \<in> set (inplace_merge cmp (x # xs) ys)" for z
      using that 3(3-5) by (fastforce simp: set_inplace_merge)
    moreover have "sorted_wrt (\<lambda>a b. key b \<le> key a) (inplace_merge cmp (x # xs) ys)" using 3(1) [OF True 3(3,4)] 3(5) by simp
    ultimately show ?thesis using True by simp
  next
    case False
    then have "key z \<le> key x" if "z \<in> set (inplace_merge cmp xs (y # ys))" for z
      using that 3(3-5) by (fastforce simp: set_inplace_merge)
    moreover have "sorted_wrt (\<lambda>a b. key b \<le> key a) (inplace_merge cmp xs (y # ys))" using 3(2) [OF False 3(3) _ 3(5)] 3(4) by simp
    ultimately show ?thesis using False by simp
  qed
qed simp_all

text \<open>The live records: those that readers see, in their order, merged with the others, best first.\<close>

definition mergedElements :: "(u32 \<Rightarrow> real) \<Rightarrow> (u32 \<Rightarrow> bool) \<Rightarrow> nat \<Rightarrow> u32 list \<Rightarrow> InvertedListIdAndScore list" where
  "mergedElements score keep n zs = inplace_merge InvertedListElementGreaterThan (map (element score) (filter keep (take n zs)))
    (std_sort InvertedListElementGreaterThan (map (element score) (filter keep (drop n zs))))"

definition mergedRecords :: "(u32 \<Rightarrow> real) \<Rightarrow> (u32 \<Rightarrow> bool) \<Rightarrow> nat \<Rightarrow> u32 list \<Rightarrow> u32 list" where
  "mergedRecords score keep n zs = map il_recordId (mergedElements score keep n zs)"

lemma mset_mergedElements: "mset (mergedElements score keep n zs) = mset (map (element score) (filter keep zs))"
proof -
  have "mset (map (element score) (filter keep zs)) = mset (map (element score) (filter keep (take n zs @ drop n zs)))" by simp
  then show ?thesis unfolding mergedElements_def mset_inplace_merge mset_std_sort filter_append map_append mset_append by simp
qed

lemma mset_mergedRecords: "mset (mergedRecords score keep n zs) = mset (filter keep zs)"
  unfolding mergedRecords_def
  by (rule scored_elements(1)) (use mset_mergedElements [of score keep n zs] in \<open>simp add: element_def [abs_def]\<close>)

lemma length_mergedRecords: "length (mergedRecords score keep n zs) = length (filter keep zs)"
  by (metis mset_mergedRecords size_mset)

lemma mergedRecords_sorted:
  assumes "sorted_wrt (\<ge>) (map (\<lambda>rid. RankKey (score rid) rid) (filter keep (take n zs)))"
  shows "sorted_wrt (\<ge>) (map (\<lambda>rid. RankKey (score rid) rid) (mergedRecords score keep n zs))"
proof -
  have m: "mset (mergedElements score keep n zs) = mset (map (\<lambda>rid. \<lparr>il_recordId = rid, il_score = score rid\<rparr>) (filter keep zs))"
    using mset_mergedElements [of score keep n zs] by (simp add: element_def [abs_def])
  have "sorted_wrt (\<lambda>a b. elementKey b \<le> elementKey a) (map (element score) (filter keep (take n zs)))"
    using assms by (simp add: sorted_wrt_map element_def elementKey_def)
  from inplace_merge_descending [OF greater_key this std_sort_descending [OF greater_key]]
  have "sorted_wrt (\<ge>) (map elementKey (mergedElements score keep n zs))" by (simp add: mergedElements_def sorted_wrt_map)
  then show ?thesis unfolding mergedRecords_def scored_elements(2) [OF m] .
qed

lemma mergedRecords_kept: "n = length zs \<Longrightarrow> mergedRecords score keep n zs = filter keep zs"
  by (simp add: mergedRecords_def mergedElements_def std_sort_def comp_def element_def)

lemma count_live_prefix:
  assumes "n \<le> length zs"
  shows "length (filter (\<lambda>i. keep (zs ! i) \<and> i < n) [0..<length zs]) = length (filter keep (take n zs))"
proof -
  have u: "[0..<length zs] = [0..<n] @ [n..<length zs]" using assms by (metis le_add_diff_inverse upt_add_eq_append zero_le)
  have "filter (\<lambda>i. keep (zs ! i) \<and> i < n) [0..<length zs] = filter (\<lambda>i. keep (zs ! i)) [0..<n]"
    unfolding u by (auto simp: filter_empty_conv intro: filter_cong)
  moreover have "take n zs = map ((!) zs) [0..<n]" using assms by (intro nth_equalityI) simp_all
  ultimately show ?thesis by (simp add: filter_map comp_def)
qed

lemma sortAndMerge_ok:
  fixes s :: "u32 cowvector" and scoring :: scoring and N :: nat
  assumes inv: "unmanaged_inv s" and R: "snapshot s (m_readView s) = Some old" and W: "snapshot s (m_writeView s) = Some zs"
    and len: "length old \<le> length zs" "length zs + 1 < 2 ^ 30" and ready: "\<forall>rid \<in> set zs. mergeReady keywordId readView rid"
  defines "ys \<equiv> mergedRecords (newScore scoring keywordId N (length zs) readView) (liveRecord readView) (length old) zs"
  shows "\<exists>readView' s'. sortAndMerge scoring mem g keywordId N readView s = Some (length ys, readView', s')
    \<and> unmanaged_inv s' \<and> readers s' = readers s \<and> (\<forall>v. 0 < readers s v \<longrightarrow> snapshot s' v = snapshot s v)
    \<and> snapshot s' (m_readView s') = Some ys \<and> snapshot s' (m_writeView s') = Some ys
    \<and> sameForMerge scoring keywordId N (length zs) readView readView'
    \<and> (\<forall>rid \<in> set ys. scoreElement (fst scoring) readView' keywordId rid
        = Some (element (storedScore scoring keywordId N (length zs) readView) rid))
    \<and> (\<forall>r. r \<notin> set zs \<longrightarrow> getForwardList readView' r = getForwardList readView r)"
proof -
  let ?R = "m_readView s" and ?W = "m_writeView s" and ?n = "length zs" and ?live = "liveRecord readView"
  let ?score = "newScore scoring keywordId N ?n readView"
  define s1 where "s1 = snd (getReadView s)"
  have g1: "getReadView s = (?R, s1)" "m_readView s1 = ?R" "m_writeView s1 = ?W" "views s1 = views s" "arrays s1 = arrays s"
    "readers s1 = (readers s)(?R := readers s ?R + 1)" by (simp_all add: s1_def getReadView_def)
  have i1: "unmanaged_inv s1" unfolding s1_def by (rule unmanaged_getReadView [OF inv])
  have snap1: "snapshot s1 v = snapshot s v" "exists_view s1 v = exists_view s v" "arr s1 v = arr s v" for v
    using g1(4,5) by (simp_all add: snapshot_def exists_view_def arr_def)
  obtain r w where rw: "views s ?R = Some r" "views s ?W = Some w"
    using unmanaged_parts(3,4) [OF inv] by (auto simp: exists_view_def)
  have size: "view_size (m_sizeAndFlags r) = length old" "view_size (m_sizeAndFlags w) = ?n"
    using unmanaged_parts(5) [OF inv unmanaged_parts(3) [OF inv]] unmanaged_parts(5) [OF inv unmanaged_parts(4) [OF inv]] R W rw
    by (auto simp: snapshot_live live_def vsize_def)
  have arrs: "m_array w = m_array r \<longleftrightarrow> arr s1 ?W = arr s1 ?R" using rw by (simp add: snap1(3)) (simp add: arr_def)
  have RW: "?R \<noteq> ?W" using unmanaged_parts(2) [OF inv] .
  let ?es = "map (element ?score) (filter ?live zs)" and ?valid = "length (filter ?live (take (length old) zs))"
  have nth: "map ((!) zs) [0..<?n] = zs" by (simp add: map_nth)
  obtain v1 where v1: "mergeElements scoring keywordId N ?n False (length old) [0..<?n] s1 readView = Some (?es, ?valid, v1)"
      "sameForMerge scoring keywordId N ?n readView v1"
      "\<forall>i < ?n. ?live (zs ! i) \<longrightarrow>
        scoreElement (fst scoring) v1 keywordId (zs ! i) = Some (element (storedScore scoring keywordId N ?n readView) (zs ! i))"
      "\<forall>r. r \<notin> set zs \<longrightarrow> getForwardList v1 r = getForwardList readView r"
  proof -
    have u: "set [0..<?n] = {..<?n}" "(!) zs ` {..<?n} = set zs" by (auto simp: in_set_conv_nth image_def)
    have "snapshot s1 (m_writeView s1) = Some zs" "\<forall>i \<in> {..<?n}. mergeReady keywordId readView (zs ! i)"
      using W g1(3) ready by (simp_all add: snap1)
    then show thesis
      using mergeElements_spec [of s1 zs "[0..<?n]" keywordId readView scoring N ?n "length old"] that
      unfolding nth count_live_prefix [OF len(1), of ?live] u by auto
  qed
  have filt: "filter ?live zs = filter ?live (take (length old) zs) @ filter ?live (drop (length old) zs)"
    by (simp flip: filter_append)
  have es: "take ?valid ?es = map (element ?score) (filter ?live (take (length old) zs))"
    "drop ?valid ?es = map (element ?score) (filter ?live (drop (length old) zs))" unfolding filt by simp_all
  have ys: "map il_recordId (inplace_merge InvertedListElementGreaterThan (take ?valid ?es)
      (std_sort InvertedListElementGreaterThan (drop ?valid ?es))) = ys"
    unfolding es ys_def mergedRecords_def mergedElements_def ..
  have lys: "length ys = length ?es" "length ys \<le> ?n" by (simp_all add: ys_def length_mergedRecords)
  obtain s2 where s2: "(if m_array w = m_array r then forceCreateCopy mem s1 else Some s1) = Some s2" "unmanaged_inv s2"
      "readers s2 = readers s1" "m_readView s2 = ?R" "m_writeView s2 = ?W" "arr s2 (m_writeView s2) \<noteq> arr s2 (m_readView s2)"
      "\<And>v. exists_view s1 v \<Longrightarrow> v \<noteq> ?W \<Longrightarrow> exists_view s2 v \<and> snapshot s2 v = snapshot s1 v"
      "snapshot s2 (m_writeView s2) = Some zs"
  proof (cases "m_array w = m_array r")
    case True
    then show thesis using unmanaged_forceCreateCopy [OF i1, of mem] that g1(2,3) W by (auto simp: snap1)
  next
    case False
    then show thesis using that [of s1] i1 g1(2,3) arrs W by (simp add: snap1)
  qed
  obtain s3 where s3: "setWriteSize (length ?es) s2 = Some s3" "unmanaged_inv s3"
      "readers s3 = readers s2" "m_readView s3 = ?R" "m_writeView s3 = ?W" "arr s3 (m_writeView s3) \<noteq> arr s3 (m_readView s3)"
      "\<And>v. exists_view s2 v \<Longrightarrow> v \<noteq> ?W \<Longrightarrow> exists_view s3 v \<and> snapshot s3 v = snapshot s2 v"
      "snapshot s3 (m_writeView s3) = Some (take (length ys) zs)"
    using unmanaged_setWriteSize [OF s2(2,6,8), of "length ys"] lys s2(4,5) by auto
  obtain s4 where s4: "assignFrom mem 0 ys s3 = Some s4" "unmanaged_inv s4"
      "readers s4 = readers s3" "m_readView s4 = ?R" "m_writeView s4 = ?W" "arr s4 (m_writeView s4) \<noteq> arr s4 (m_readView s4)"
      "\<And>v. exists_view s3 v \<Longrightarrow> v \<noteq> ?W \<Longrightarrow> exists_view s4 v \<and> snapshot s4 v = snapshot s3 v"
      "snapshot s4 (m_writeView s4) = Some ys"
    using unmanaged_assignFrom [OF s3(2,6,8), of 0 ys mem] lys(2) len(2) s3(4,5) by auto
  obtain s5 where s5: "merge False g s4 = Some s5" "unmanaged_inv s5" "readers s5 = readers s4" "m_readView s5 = ?W"
      "\<And>v. 0 < readers s4 v \<Longrightarrow> exists_view s5 v \<and> snapshot s5 v = snapshot s4 v"
      "snapshot s5 (m_readView s5) = Some ys" "snapshot s5 (m_writeView s5) = Some ys"
    using unmanaged_merge [OF s4(2,6), of g] s4(5,8) by auto
  have readers: "readers s4 = (readers s)(?R := readers s ?R + 1)" using s2(3) s3(3) s4(3) g1(6) by simp
  have held: "snapshot s5 v = snapshot s v" if v: "0 < readers s4 v" for v
  proof -
    have "exists_view s1 v" "v \<noteq> ?W" using v readers unmanaged_parts(3,7) [OF inv] RW snap1(2) by (auto split: if_splits)
    then show ?thesis using s2(7) s3(7) s4(7) s5(5) [OF v] snap1(1) by metis
  qed
  obtain s6 where s6: "releaseView ?R s5 = Some s6" "unmanaged_inv s6" "readers s6 = (readers s5)(?R := readers s5 ?R - 1)"
      "m_readView s6 = m_readView s5" "m_writeView s6 = m_writeView s5"
      "\<And>u. exists_view s5 u \<Longrightarrow> u \<noteq> ?R \<or> 1 < readers s5 ?R \<Longrightarrow> exists_view s6 u \<and> snapshot s6 u = snapshot s5 u"
    using unmanaged_release [OF s5(2), of ?R] s5(3) readers by auto
  have unheld: "readers s6 = readers s" using s6(3) s5(3) readers by (simp add: fun_eq_iff)
  have kept: "snapshot s6 v = snapshot s v" if v: "0 < readers s v" for v
  proof -
    have "0 < readers s4 v" "v \<noteq> ?R \<or> 1 < readers s5 ?R" using v readers s5(3) by auto
    then show ?thesis using s6(6) [of v] s5(5) [of v] held by auto
  qed
  have W5: "m_writeView s5 \<noteq> ?R"
    using unmanaged_parts(7) [OF s5(2), of ?R] s5(3) readers by auto
  then have snaps: "snapshot s6 (m_readView s6) = Some ys" "snapshot s6 (m_writeView s6) = Some ys"
    using s6(4-6) s5(4,6,7) unmanaged_parts(3,4) [OF s5(2)] RW by auto
  have run: "sortAndMerge scoring mem g keywordId N readView s = Some (length ys, v1, s6)"
  proof -
    obtain w5 where w5: "views s5 (m_writeView s5) = Some w5" using unmanaged_parts(4) [OF s5(2)] by (auto simp: exists_view_def)
    have "view_size (m_sizeAndFlags w5) = length ys"
      using unmanaged_parts(5) [OF s5(2) unmanaged_parts(4) [OF s5(2)]] s5(7) w5 by (auto simp: snapshot_live live_def vsize_def)
    then show ?thesis
      using g1 rw size len(1) RW v1(1) s2(1) s3(1) s4(1) s5(1) s6(1) w5
      by (simp add: sortAndMerge_def ys del: map_map)
  qed
  have "scoreElement (fst scoring) v1 keywordId rid = Some (element (storedScore scoring keywordId N ?n readView) rid)"
    if "rid \<in> set ys" for rid
  proof -
    have "set ys = set (filter ?live zs)" unfolding ys_def by (metis mset_mergedRecords set_mset_mset)
    then show ?thesis using that v1(3) by (auto simp: in_set_conv_nth)
  qed
  then show ?thesis using run s6(2) unheld kept snaps v1(2,4) by (intro exI [of _ v1] exI [of _ s6]) simp
qed

section \<open>Lists under additions, merges and readers\<close>

text \<open>A merge is an operation with the forward index and the number of records at its time.\<close>

datatype list_op = AddElement u32 | SortAndMerge "ForwardListPtr list" nat | GetInvertedList | ReleaseInvertedList nat

fun list_exec :: "scoring \<Rightarrow> (nat \<Rightarrow> u32) \<Rightarrow> u64 \<Rightarrow> u32 \<Rightarrow> list_op \<Rightarrow> u32 cowvector \<Rightarrow> u32 cowvector option" where
  "list_exec scoring mem g keywordId (AddElement rid) s = push_back mem rid s"
| "list_exec scoring mem g keywordId (SortAndMerge readView N) s =
    do { (n, readView, s) \<leftarrow> sortAndMerge scoring mem g keywordId N readView s; Some s }"
| "list_exec scoring mem g keywordId GetInvertedList s = Some (snd (getReadView s))"
| "list_exec scoring mem g keywordId (ReleaseInvertedList v) s = releaseView v s"

text \<open>The size fits its 30 bits, the records of the list have its keyword, and a reader releases a view that it holds.\<close>

fun list_allowed :: "u32 \<Rightarrow> list_op \<Rightarrow> u32 cowvector \<Rightarrow> bool" where
  "list_allowed keywordId (AddElement rid) s \<longleftrightarrow> length (snd (cow_content s)) + 1 < 2 ^ 30"
| "list_allowed keywordId (SortAndMerge readView N) s \<longleftrightarrow> length (snd (cow_content s)) + 1 < 2 ^ 30
    \<and> (\<forall>rid \<in> set (snd (cow_content s)). mergeReady keywordId readView rid)"
| "list_allowed keywordId GetInvertedList s \<longleftrightarrow> True"
| "list_allowed keywordId (ReleaseInvertedList v) s \<longleftrightarrow> 0 < readers s v"

fun list_effect :: "scoring \<Rightarrow> u32 \<Rightarrow> list_op \<Rightarrow> u32 list \<times> u32 list \<Rightarrow> u32 list \<times> u32 list" where
  "list_effect scoring keywordId (AddElement rid) (published, pending) = (published, pending @ [rid])"
| "list_effect scoring keywordId (SortAndMerge readView N) (published, pending) =
    (let merged = mergedRecords (newScore scoring keywordId N (length pending) readView) (liveRecord readView) (length published) pending
     in (merged, merged))"
| "list_effect scoring keywordId op (published, pending) = (published, pending)"

definition list_inv :: "u32 cowvector \<Rightarrow> bool" where
  "list_inv s \<longleftrightarrow> unmanaged_inv s
    \<and> (\<exists>published pending. snapshot s (m_readView s) = Some published \<and> snapshot s (m_writeView s) = Some pending
       \<and> length published \<le> length pending)"

lemma list_exec_ok:
  assumes inv: "list_inv s" and op: "list_allowed keywordId op s"
  shows "\<exists>s'. list_exec scoring mem g keywordId op s = Some s' \<and> list_inv s'
    \<and> cow_content s' = list_effect scoring keywordId op (cow_content s)
    \<and> (\<forall>v. 0 < readers s v \<longrightarrow> 0 < readers s' v \<longrightarrow> snapshot s' v = snapshot s v)"
proof -
  obtain published pending where p: "unmanaged_inv s" "snapshot s (m_readView s) = Some published"
      "snapshot s (m_writeView s) = Some pending" "length published \<le> length pending"
    using inv by (auto simp: list_inv_def)
  have c: "cow_content s = (published, pending)" using p by (simp add: cow_content_def)
  have vsize: "vsize s (m_writeView s) = length pending"
    using unmanaged_parts(5) [OF p(1) unmanaged_parts(4) [OF p(1)]] p(3) by (auto simp: snapshot_live live_def)
  have held: "exists_view s v" "v \<noteq> m_writeView s" if "0 < readers s v" for v using unmanaged_parts(7) [OF p(1) that] by auto
  note R = unmanaged_parts(3,2) [OF p(1)]
  have result: ?thesis if s': "list_exec scoring mem g keywordId op s = Some s'" "unmanaged_inv s'"
      "snapshot s' (m_readView s') = Some xs" "snapshot s' (m_writeView s') = Some ys" "length xs \<le> length ys"
      "list_effect scoring keywordId op (published, pending) = (xs, ys)"
      "\<forall>v. 0 < readers s v \<longrightarrow> 0 < readers s' v \<longrightarrow> snapshot s' v = snapshot s v" for s' xs ys
  proof -
    have "cow_content s' = (xs, ys)" using s'(3,4) by (simp add: cow_content_def)
    then show ?thesis using s' unfolding list_inv_def c by auto
  qed
  show ?thesis
  proof (cases op)
    case (AddElement rid)
    obtain s' where s': "push_back mem rid s = Some s'" "unmanaged_inv s'" "m_readView s' = m_readView s"
        "\<And>v. exists_view s v \<Longrightarrow> v \<noteq> m_writeView s \<Longrightarrow> snapshot s' v = snapshot s v" "snapshot s' (m_writeView s') = Some (pending @ [rid])"
      using unmanaged_push_back [OF p(1) _ p(3), of mem rid] op AddElement vsize by (auto simp: c)
    have r: "snapshot s' (m_readView s') = Some published" using s'(3,4) R p(2) by simp
    show ?thesis by (rule result [OF _ s'(2) r s'(5)]) (use s' held p(4) AddElement in simp_all)
  next
    case (SortAndMerge readView N)
    let ?ys = "mergedRecords (newScore scoring keywordId N (length pending) readView) (liveRecord readView) (length published) pending"
    obtain v s' where s': "sortAndMerge scoring mem g keywordId N readView s = Some (length ?ys, v, s')" "unmanaged_inv s'"
        "\<forall>v. 0 < readers s v \<longrightarrow> snapshot s' v = snapshot s v"
        "snapshot s' (m_readView s') = Some ?ys" "snapshot s' (m_writeView s') = Some ?ys"
      using sortAndMerge_ok [where keywordId = keywordId and readView = readView and scoring = scoring and N = N and mem = mem and g = g, OF p] op SortAndMerge by (auto simp: c)
    show ?thesis by (rule result [OF _ s'(2,4,5)]) (use s' SortAndMerge in \<open>simp_all add: Let_def\<close>)
  next
    case GetInvertedList
    have "snapshot (snd (getReadView s)) v = snapshot s v" for v by (simp add: getReadView_def snapshot_def)
    moreover have "m_readView (snd (getReadView s)) = m_readView s" "m_writeView (snd (getReadView s)) = m_writeView s"
      by (simp_all add: getReadView_def)
    ultimately show ?thesis
      by (intro result [OF _ unmanaged_getReadView [OF p(1)]]) (use p GetInvertedList in simp_all)
  next
    case (ReleaseInvertedList v)
    obtain s' where s': "releaseView v s = Some s'" "unmanaged_inv s'" "readers s' = (readers s)(v := readers s v - 1)"
        "m_readView s' = m_readView s" "m_writeView s' = m_writeView s"
        "\<And>u. exists_view s u \<Longrightarrow> u \<noteq> v \<or> 1 < readers s v \<or> v = m_readView s \<Longrightarrow> snapshot s' u = snapshot s u"
      using unmanaged_release [OF p(1), of v] op ReleaseInvertedList by auto
    have "v \<noteq> m_writeView s" using held op ReleaseInvertedList by auto
    then have r: "snapshot s' (m_readView s') = Some published" "snapshot s' (m_writeView s') = Some pending"
      using s'(4-6) R(1) unmanaged_parts(4) [OF p(1)] p(2,3) by auto
    show ?thesis
      by (rule result [OF _ s'(2) r]) (use s' held p(4) ReleaseInvertedList in \<open>auto split: if_splits\<close>)
  qed
qed

interpretation invertedLists: counted_store list_inv "list_exec scoring mem g keywordId" "list_allowed keywordId"
    "\<lambda>s v. 0 < readers s v" snapshot cow_content "list_effect scoring keywordId"
  for scoring mem g keywordId
proof
  fix s :: "u32 cowvector" and op
  assume "list_inv s" "list_allowed keywordId op s"
  then show "\<exists>s'. list_exec scoring mem g keywordId op s = Some s' \<and> list_inv s'
    \<and> cow_content s' = list_effect scoring keywordId op (cow_content s)
    \<and> (\<forall>v. 0 < readers s v \<longrightarrow> 0 < readers s' v \<longrightarrow> snapshot s' v = snapshot s v)" by (rule list_exec_ok)
next
  fix s :: "u32 cowvector" and v
  assume "list_inv s" and v: "0 < readers s v"
  then have inv: "unmanaged_inv s" by (simp add: list_inv_def)
  have "exists_view s v" using unmanaged_parts(7) [OF inv v] by simp
  then show "snapshot s v \<noteq> None" using unmanaged_parts(5) [OF inv] live_snapshot by blast
qed

text \<open>A list that is built, committed and then used as its writers and readers may.\<close>

definition listUsedWell ::
  "scoring \<Rightarrow> (nat \<Rightarrow> u32) \<Rightarrow> u64 \<Rightarrow> nat \<Rightarrow> u32 \<Rightarrow> ForwardListPtr list \<Rightarrow> u32 list \<Rightarrow> list_op list \<Rightarrow> bool" where
  "listUsedWell scoring mem g capacity keywordId readView rids ops \<longleftrightarrow>
    (case builtList (fst scoring) mem g capacity keywordId readView rids of
      None \<Rightarrow> True | Some s \<Rightarrow> throughout (list_exec scoring mem g keywordId) (list_allowed keywordId) ops s)"

lemma builtList_inv:
  assumes "represents halfToFloat readView contents" "collected contents keywordId rids"
  shows "\<exists>s. builtList halfToFloat mem g capacity keywordId readView rids = Some s \<and> list_inv s
    \<and> cow_content s = (bestFirst (keywordScore contents keywordId) rids, bestFirst (keywordScore contents keywordId) rids)"
proof -
  have "keywordId \<in> set ids" if "rid \<in> set rids" "contents rid = Some (ids, attrss, sc)" for rid ids attrss sc
    using assms(2) that by (auto simp: collected_def dest: spec [of _ rid])
  then show ?thesis using builtList_ok [OF assms(1), of rids keywordId mem g capacity] assms(2)
    by (auto simp: collected_def list_inv_def cow_content_def)
qed

text \<open>
  C5. An inverted list is safe without a read view manager: after the bulk load, however additions, merges with any
  states of the forward index, and readers are interleaved, every operation returns, without a failed assertion or a
  use of freed memory; what is published and pending is that of the abstract list, in which a merge
  publishes the live records; and a reader sees the same elements for as long as it holds the list.
\<close>

theorem inverted_list_runs:
  assumes "represents (fst scoring) readView contents" "collected contents keywordId rids"
    "listUsedWell scoring mem g capacity keywordId readView rids (before @ after)"
  defines "built \<equiv> bestFirst (keywordScore contents keywordId) rids"
  shows "\<exists>s0 s1 s. builtList (fst scoring) mem g capacity keywordId readView rids = Some s0
    \<and> runOps (list_exec scoring mem g keywordId) before s0 = Some s1 \<and> runOps (list_exec scoring mem g keywordId) after s1 = Some s
    \<and> cow_content s = fold (list_effect scoring keywordId) (before @ after) (built, built)
    \<and> (\<forall>v. 0 < readers s v \<longrightarrow> snapshot s v \<noteq> None)
    \<and> (\<forall>v. throughout (list_exec scoring mem g keywordId) (\<lambda>op s. 0 < readers s v) after s1 \<and> 0 < readers s v
        \<longrightarrow> snapshot s v = snapshot s1 v)"
proof -
  obtain s0 where s0: "builtList (fst scoring) mem g capacity keywordId readView rids = Some s0" "list_inv s0" "cow_content s0 = (built, built)"
    using builtList_inv [OF assms(1,2), of mem g capacity] unfolding built_def by blast
  have used: "throughout (list_exec scoring mem g keywordId) (list_allowed keywordId) (before @ after) s0"
    using assms(3) s0(1) by (simp add: listUsedWell_def)
  obtain s1 where s1: "runOps (list_exec scoring mem g keywordId) before s0 = Some s1" "list_inv s1"
      "cow_content s1 = fold (list_effect scoring keywordId) before (cow_content s0)"
    using invertedLists.run_ok [OF s0(2)] used unfolding throughout_append by blast
  have after: "throughout (list_exec scoring mem g keywordId) (list_allowed keywordId) after s1"
    using used s1(1) by (simp add: throughout_append)
  obtain s where s: "runOps (list_exec scoring mem g keywordId) after s1 = Some s" "list_inv s"
      "cow_content s = fold (list_effect scoring keywordId) after (cow_content s1)"
    using invertedLists.run_ok [OF s1(2) after] by blast
  show ?thesis using s0 s1 s invertedLists.held_readable [OF s(2)] invertedLists.run_held [OF s1(2) after _ s(1)] by auto
qed

text \<open>
  C7. A merge publishes the live records of a list, those that readers saw and those that were added, best first by the
  scores that it computes, provided that the records that readers saw are still in the order of these scores;
  their forward lists then hold the scores, rounded to half precision, and views that readers hold stay as they are.
\<close>

theorem merge_publishes_best_first:
  fixes scoring :: scoring and N :: nat
  assumes "list_inv s" "cow_content s = (published, pending)" "length pending + 1 < 2 ^ 30"
    "\<forall>rid \<in> set pending. mergeReady keywordId readView rid"
  defines "score \<equiv> newScore scoring keywordId N (length pending) readView"
  assumes "sorted_wrt (\<ge>) (map (\<lambda>rid. RankKey (score rid) rid) (filter (liveRecord readView) (take (length published) pending)))"
  shows "\<exists>readView' s' ys. sortAndMerge scoring mem g keywordId N readView s = Some (length ys, readView', s')
    \<and> list_inv s' \<and> cow_content s' = (ys, ys) \<and> mset ys = mset (filter (liveRecord readView) pending)
    \<and> sorted_wrt (\<ge>) (map (\<lambda>rid. RankKey (score rid) rid) ys)
    \<and> (\<forall>rid \<in> set ys. scoreElement (fst scoring) readView' keywordId rid
        = Some \<lparr>il_recordId = rid, il_score = fst scoring (fst (snd scoring) (score rid))\<rparr>)
    \<and> (\<forall>v. 0 < readers s v \<longrightarrow> snapshot s' v = snapshot s v)"
proof -
  let ?ys = "mergedRecords score (liveRecord readView) (length published) pending"
  have p: "unmanaged_inv s" "snapshot s (m_readView s) = Some published" "snapshot s (m_writeView s) = Some pending"
      "length published \<le> length pending"
    using assms(1,2) by (auto simp: list_inv_def cow_content_def)
  obtain v s' where s': "sortAndMerge scoring mem g keywordId N readView s = Some (length ?ys, v, s')" "unmanaged_inv s'"
      "\<forall>u. 0 < readers s u \<longrightarrow> snapshot s' u = snapshot s u"
      "snapshot s' (m_readView s') = Some ?ys" "snapshot s' (m_writeView s') = Some ?ys"
      "\<forall>rid \<in> set ?ys. scoreElement (fst scoring) v keywordId rid = Some (element (storedScore scoring keywordId N (length pending) readView) rid)"
    using sortAndMerge_ok [where keywordId = keywordId and readView = readView and scoring = scoring and N = N and mem = mem and g = g,
        OF p assms(3,4)] unfolding score_def by blast
  have "element (storedScore scoring keywordId N (length pending) readView) rid
      = \<lparr>il_recordId = rid, il_score = fst scoring (fst (snd scoring) (score rid))\<rparr>" for rid
    by (cases scoring) (simp add: element_def storedScore_def score_def)
  then show ?thesis using s' mset_mergedRecords [of score "liveRecord readView"] mergedRecords_sorted [OF assms(6)]
    by (intro exI [of _ v] exI [of _ s'] exI [of _ ?ys]) (simp add: list_inv_def cow_content_def)
qed

section \<open>The order of old scores\<close>

text \<open>Forward lists with the keyword 7 only, and an inverted list as it is loaded from disk.\<close>

definition tinyList :: "real \<Rightarrow> u16 \<Rightarrow> ForwardList" where
  "tinyList rboost tf = \<lparr>externalRecordId = [], recordBoost = rboost, numberOfKeywords = 1, fl_data = u32Bytes 7 @ u16Bytes tf @ [0, 0],
     attributeIdsIndexSize = 0, positionIndexSize = 0, offsetIndexSize = 0, charLenIndexSize = 0, synonymBitMapSize = 0, dataSize = 8\<rparr>"

definition tinyView :: "ForwardListPtr list" where
  "tinyView = [(Some (tinyList 1 2), True), (Some (tinyList 2 1), True)]"

definition loadedList :: "(u16 \<Rightarrow> real) \<Rightarrow> (nat \<Rightarrow> u32) \<Rightarrow> u64 \<Rightarrow> nat \<Rightarrow> u32 \<Rightarrow> ForwardListPtr list \<Rightarrow> u32 list \<Rightarrow> u32 cowvector option" where
  "loadedList halfToFloat mem g capacity keywordId readView rids = do {
     s \<leftarrow> pushAll mem rids (cow_new mem g capacity);
     sortAndMergeBeforeCommit halfToFloat mem g keywordId readView False s
   }"

lemma loadedList_inv:
  assumes "length rids < 2 ^ 30"
  shows "\<exists>s. loadedList halfToFloat mem g capacity keywordId readView rids = Some s \<and> list_inv s \<and> cow_content s = (rids, rids)"
proof -
  have "loadedList halfToFloat mem g capacity keywordId readView rids = committed mem g capacity rids"
    by (simp add: loadedList_def committed_def sortAndMergeBeforeCommit_def)
  then show ?thesis using committed_ok [OF assms, of mem g capacity] cow_unmanaged by (auto simp: list_inv_def cow_content_def)
qed

lemma tinyList_ready: "forwardReady 7 (tinyList rboost tf) [7]"
proof -
  have "getKeywordIds (tinyList rboost tf) = Some [7]"
    using getKeywordIds_written [of "tinyList rboost tf" "[7]" "u16Bytes tf @ [0, 0]"] by (simp add: tinyList_def)
  then show ?thesis by (simp add: forwardReady_def tinyList_def u32Bytes_def u16Bytes_def KEYWORD_THRESHOLD_def)
qed

lemma tinyView_ready: "mergeReady 7 tinyView 0" "mergeReady 7 tinyView 1" "liveRecord tinyView 0" "liveRecord tinyView 1"
  using tinyList_ready by (auto simp: mergeReady_def liveRecord_def tinyView_def getForwardList_def)

lemma readU16_at: "readU16 (pre @ u16Bytes v @ post) (length pre) = Some v"
  using readU16_bytes [of v] by (simp add: readU16_def u16Bytes_def nth_opt_append)

lemma tiny_newScore:
  assumes "getForwardList view rid = (Some (tinyList rboost tf), True)"
  shows "newScore (h, f, e) 7 N n view rid = e 1 rboost (h tf * computeIdf N n)"
proof -
  have "getKeywordOffset (tinyList rboost tf) 7 = Some 0"
    using tinyList_ready [of rboost tf] by (simp add: forwardReady_def getKeywordOffset_def lowerBound_def lowerBoundLoop.simps)
  moreover have "readU16 (fl_data (tinyList rboost tf)) 4 = Some tf"
    using readU16_at [of "u32Bytes 7" tf "[0, 0]"] by (simp add: tinyList_def u32Bytes_def numeral_eq_Suc)
  ultimately show ?thesis using assms
    by (simp add: newScore_def mergedScore_def getKeywordTfBoostProduct_def getKeywordIdsSizeInBytes_def computeTextRelevance_def tinyList_def)
qed

text \<open>The ranking expression adds the boost of the record and its text relevance.\<close>

definition additive :: scoring where
  "additive = ((\<lambda>v. real (unat v)), (\<lambda>x. of_int \<lfloor>x\<rfloor>), (\<lambda>doc_length doc_boost idf_score. doc_boost + idf_score))"

lemma additive_scores:
  "newScore additive 7 N n tinyView 0 = 1 + 2 * computeIdf N n" "newScore additive 7 N n tinyView 1 = 2 + computeIdf N n"
  using tiny_newScore [of tinyView 0 1 2] tiny_newScore [of tinyView 1 2 1]
  by (simp_all add: additive_def tinyView_def getForwardList_def)

lemma computeIdf_examples: "1 < computeIdf 30 2" "computeIdf 2 2 < 1"
  by (simp_all add: computeIdf_def)

theorem merge_publishes_best_first_witness:
  "\<exists>s readView' s' ys. sortAndMerge additive (\<lambda>_. 0) 0 7 30 tinyView s = Some (2, readView', s') \<and> cow_content s' = (ys, ys)
    \<and> set ys = {0, 1}"
proof -
  obtain s where s: "list_inv s" "cow_content s = ([0, 1], [0, 1])"
    using loadedList_inv [of "[0, 1]" "\<lambda>_. 1" "\<lambda>_. 0" 0 0 7 tinyView] by auto
  have "sorted_wrt (\<ge>) (map (\<lambda>rid. RankKey (newScore additive 7 30 (length [0 :: u32, 1]) tinyView rid) rid)
      (filter (liveRecord tinyView) (take (length [0 :: u32, 1]) [0, 1])))"
    using computeIdf_examples(1) tinyView_ready
    by (simp add: additive_scores numeral_2_eq_2 [symmetric] less_eq_RankKey_def less_RankKey_def compareRecordsLessThan_def)
  from merge_publishes_best_first [OF s _ _ this, of "\<lambda>_. 0" 0]
  obtain v s' ys where r: "sortAndMerge additive (\<lambda>_. 0) 0 7 30 tinyView s = Some (length ys, v, s')" "cow_content s' = (ys, ys)"
      "mset ys = mset (filter (liveRecord tinyView) [0, 1])"
    using tinyView_ready by auto
  have m: "mset ys = mset [0, 1]" using r(3) tinyView_ready by simp
  have "length ys = 2" "set ys = {0, 1}" using mset_eq_length [OF m] mset_eq_setD [OF m] by auto
  then show ?thesis using r by auto
qed

text \<open>
  C40. A merge does not sort the records that readers saw. When nothing was added since the last merge, the merge publishes
  the live records in exactly the order they had, whatever the size of the index and the ranking expression
  are now, while their forward lists get the scores computed for the new size: after deletions, or after records
  without the keyword were inserted, the published order need not be that of the published scores.
\<close>

theorem merge_keeps_stale_order:
  fixes scoring :: scoring and N :: nat
  assumes "list_inv s" "cow_content s = (published, published)" "length published + 1 < 2 ^ 30"
    "\<forall>rid \<in> set published. mergeReady keywordId readView rid"
  defines "score \<equiv> newScore scoring keywordId N (length published) readView"
    and "ys \<equiv> filter (liveRecord readView) published"
  shows "\<exists>readView' s'. sortAndMerge scoring mem g keywordId N readView s = Some (length ys, readView', s')
    \<and> cow_content s' = (ys, ys)
    \<and> (\<forall>rid \<in> set ys. scoreElement (fst scoring) readView' keywordId rid
        = Some \<lparr>il_recordId = rid, il_score = fst scoring (fst (snd scoring) (score rid))\<rparr>)"
proof -
  have p: "unmanaged_inv s" "snapshot s (m_readView s) = Some published" "snapshot s (m_writeView s) = Some published"
    using assms(1,2) by (auto simp: list_inv_def cow_content_def)
  obtain v s' where s': "sortAndMerge scoring mem g keywordId N readView s = Some (length ys, v, s')"
      "snapshot s' (m_readView s') = Some ys" "snapshot s' (m_writeView s') = Some ys"
      "\<forall>rid \<in> set ys. scoreElement (fst scoring) v keywordId rid = Some (element (storedScore scoring keywordId N (length published) readView) rid)"
    using sortAndMerge_ok [where keywordId = keywordId and readView = readView and scoring = scoring and N = N and mem = mem and g = g,
        OF p order.refl assms(3,4)] unfolding mergedRecords_kept [OF refl] ys_def by blast
  have "element (storedScore scoring keywordId N (length published) readView) rid
      = \<lparr>il_recordId = rid, il_score = fst scoring (fst (snd scoring) (score rid))\<rparr>" for rid
    by (cases scoring) (simp add: element_def storedScore_def score_def)
  then show ?thesis using s' by (intro exI [of _ v] exI [of _ s']) (simp add: cow_content_def)
qed

text \<open>
  Two records are published in the order of their scores in an index of thirty records; after all others are deleted, the
  second has the better score, because the inverse document frequency of the keyword has changed, and stays second.
\<close>

theorem merge_keeps_stale_order_witness:
  "\<exists>s n readView' s'. loadedList (fst additive) (\<lambda>_. 0) 0 2 7 tinyView [0, 1] = Some s
    \<and> newScore additive 7 30 2 tinyView 1 < newScore additive 7 30 2 tinyView 0
    \<and> sortAndMerge additive (\<lambda>_. 0) 0 7 2 tinyView s = Some (n, readView', s') \<and> cow_content s' = ([0, 1], [0, 1])
    \<and> newScore additive 7 2 2 tinyView 0 < newScore additive 7 2 2 tinyView 1"
proof -
  obtain s where s: "loadedList (fst additive) (\<lambda>_. 0) 0 2 7 tinyView [0, 1] = Some s" "list_inv s" "cow_content s = ([0, 1], [0, 1])"
    using loadedList_inv [of "[0, 1]" "fst additive" "\<lambda>_. 0" 0 2 7 tinyView] by auto
  obtain n v s' where "sortAndMerge additive (\<lambda>_. 0) 0 7 2 tinyView s = Some (n, v, s')" "cow_content s' = ([0, 1], [0, 1])"
    using merge_keeps_stale_order [OF s(2,3), of 7 tinyView additive "\<lambda>_. 0" 0 2] tinyView_ready by auto
  then show ?thesis using s(1) computeIdf_examples additive_scores by auto
qed

lemma sampleView_ready: "mergeReady 7 sampleView rid"
proof -
  have "forwardReady 7 sampleList [7]"
    using sampleList_holds by (simp add: forwardReady_def holds_keywords_def sampleList_def Let_def u32Bytes_def KEYWORD_THRESHOLD_def)
  then show ?thesis by (auto simp: mergeReady_def liveRecord_def sampleView_def getForwardList_def nth_Cons split: nat.splits if_splits)
qed

theorem inverted_list_runs_witness:
  "\<exists>s0 s1 s. builtList (\<lambda>_. 1) (\<lambda>_. 0) 0 2 7 sampleView [1, 0] = Some s0
    \<and> runOps (list_exec ((\<lambda>_. 1), (\<lambda>_. 0), (\<lambda>l b t. t)) (\<lambda>_. 0) 0 7) [AddElement 0, SortAndMerge sampleView 5] s0 = Some s1
    \<and> runOps (list_exec ((\<lambda>_. 1), (\<lambda>_. 0), (\<lambda>l b t. t)) (\<lambda>_. 0) 0 7) [GetInvertedList] s1 = Some s \<and> set (fst (cow_content s)) = {0}"
proof -
  let ?sc = "((\<lambda>_. 1), (\<lambda>_. 0), (\<lambda>l b t. t)) :: scoring"
  let ?ops = "[AddElement 0, SortAndMerge sampleView 5]"
  have c: "collected sampleContents 7 [1, 0]" by (auto simp: collected_def sampleContents_def)
  let ?built = "bestFirst (keywordScore sampleContents 7) [1, 0]"
  note m = bestFirst_sorts(1) [of "keywordScore sampleContents 7" "[1, 0]"]
  have set: "set ?built = {0, 1}" "length ?built = 2" using mset_eq_setD [OF m] mset_eq_length [OF m] by auto
  obtain s0 where s0: "builtList (\<lambda>_. 1) (\<lambda>_. 0) 0 2 7 sampleView [1, 0] = Some s0" "list_inv s0" "cow_content s0 = (?built, ?built)"
    using builtList_inv [OF sampleView_represents c, of "\<lambda>_. 0" 0 2] by blast
  have a: "list_allowed 7 (AddElement 0) s0" using s0(3) set(2) by simp
  obtain s1 where s1: "list_exec ?sc (\<lambda>_. 0) 0 7 (AddElement 0) s0 = Some s1" "cow_content s1 = (?built, ?built @ [0])"
    using list_exec_ok [OF s0(2) a, of ?sc "\<lambda>_. 0" 0] s0(3) by auto
  have "list_allowed 7 (SortAndMerge sampleView 5) s1" using s1(2) set(2) sampleView_ready by simp
  then have used: "listUsedWell ?sc (\<lambda>_. 0) 0 2 7 sampleView [1, 0] (?ops @ [GetInvertedList])"
    using s0(1) a s1(1) by (simp add: listUsedWell_def split: option.splits)
  have sc: "represents (fst ?sc) sampleView sampleContents" using sampleView_represents by simp
  have "set (mergedRecords f (liveRecord sampleView) n (?built @ [0])) = {0}" for f n
  proof -
    have "set (mergedRecords f (liveRecord sampleView) n (?built @ [0])) = set (filter (liveRecord sampleView) (?built @ [0]))"
      by (metis mset_mergedRecords set_mset_mset)
    then show ?thesis using set(1) by (auto simp: liveRecord_def sampleView_def getForwardList_def)
  qed
  then show ?thesis using inverted_list_runs [OF sc c used] by (fastforce simp: Let_def)
qed

end
